(* ===== verification/Cmem_Prelude.thy ===== *)
theory Cmem_Prelude
  imports Main "HOL-Library.Word"
begin

text \<open>
  Shared vocabulary of the development.

  Addresses and \<open>size_t\<close> values are natural numbers, with the reduction modulo \<open>2 ^ 64\<close>
  written out wherever the C code can wrap; the null pointer is \<open>0\<close>.  Bitmaps keep their
  C width as \<open>32 word\<close>.

  The theory holds
  \<^item> the masks the allocator applies to a size word, with the facts that turn them into
    arithmetic;
  \<^item> bit scans (\<open>ctz\<close>, \<open>clz\<close>) on 32-bit values;
  \<^item> intrusive doubly linked lists in a store (\<open>dllseg\<close>), and the locale \<open>dll_store\<close>, the
    interface through which every component of the allocator that threads a list through its
    objects (TLSF buckets, arena free list, slab pages, active allocations) obtains the facts
    about inserting and unlinking.
\<close>

unbundle bit_operations_syntax

named_theorems frame \<open>facts saying that an update leaves a structure it does not touch\<close>

type_synonym addr = nat

definition size_max :: nat where
  "size_max = 2 ^ 64"

section \<open>Masks of a size word\<close>

definition BLOCK_SIZE_MASK :: nat where
  "BLOCK_SIZE_MASK = 2 ^ 64 - 4"

definition BLOCK_STATE_FREE :: nat where
  "BLOCK_STATE_FREE = 1"

definition BLOCK_STATE_PREV_FREE :: nat where
  "BLOCK_STATE_PREV_FREE = 2"

text \<open>Bitwise complement of a \<open>size_t\<close>.\<close>

definition not64 :: "nat \<Rightarrow> nat" where
  "not64 n = 2 ^ 64 - 1 - n mod 2 ^ 64"

lemma bit_mask_nat: "bit (2 ^ 64 - 1 :: nat) i \<longleftrightarrow> i < 64"
  using bit_mask_iff [where 'a = nat, of 64 i] by (simp add: mask_eq_exp_minus_1)

lemma bit_not64: "bit (not64 n) i \<longleftrightarrow> i < 64 \<and> \<not> bit n i"
proof -
  have "int (not64 n) = mask 64 - take_bit 64 (int n)"
    by (simp add: not64_def mask_eq_exp_minus_1 take_bit_eq_mod of_nat_diff zmod_int)
  then have "int (not64 n) = take_bit 64 (NOT (int n))"
    by (simp only: take_bit_not_eq_mask_diff)
  moreover have "bit (not64 n) i \<longleftrightarrow> bit (int (not64 n)) i"
    by (simp add: bit_of_nat_iff)
  ultimately show ?thesis
    by (simp add: bit_take_bit_iff bit_not_iff bit_of_nat_iff)
qed

lemma bit_size_mask: "bit BLOCK_SIZE_MASK i \<longleftrightarrow> 2 \<le> i \<and> i < 64"
proof -
  have eq: "BLOCK_SIZE_MASK = push_bit 2 (mask 62 :: nat)"
    by (simp add: BLOCK_SIZE_MASK_def push_bit_eq_mult mask_eq_exp_minus_1)
  show ?thesis
    unfolding eq by (auto simp: bit_push_bit_iff bit_mask_iff)
qed

lemma bit_state_free: "bit BLOCK_STATE_FREE i \<longleftrightarrow> i = 0"
  unfolding BLOCK_STATE_FREE_def by (rule bit_1_iff)

lemma bit_state_prev_free: "bit BLOCK_STATE_PREV_FREE i \<longleftrightarrow> i = 1"
  using bit_exp_iff [where 'a = nat, of 1 i] by (auto simp: BLOCK_STATE_PREV_FREE_def)

lemmas bit_masks = bit_size_mask bit_state_free bit_state_prev_free bit_not64
  bit_and_iff bit_or_iff bit_xor_iff

text \<open>The three readings of a size word.\<close>

definition blk_size :: "nat \<Rightarrow> nat" where
  "blk_size w = w AND BLOCK_SIZE_MASK"

definition blk_free :: "nat \<Rightarrow> bool" where
  "blk_free w \<longleftrightarrow> w AND BLOCK_STATE_FREE \<noteq> 0"

definition blk_prev_free :: "nat \<Rightarrow> bool" where
  "blk_prev_free w \<longleftrightarrow> w AND BLOCK_STATE_PREV_FREE \<noteq> 0"

lemma nat_zero_iff_no_bit: "(n::nat) = 0 \<longleftrightarrow> (\<forall>i. \<not> bit n i)"
  by (auto simp: bit_eq_iff)

lemma blk_free_bit: "blk_free w \<longleftrightarrow> bit w 0"
  unfolding blk_free_def nat_zero_iff_no_bit by (simp add: bit_masks)

lemma blk_prev_free_bit: "blk_prev_free w \<longleftrightarrow> bit w 1"
  unfolding blk_prev_free_def nat_zero_iff_no_bit by (auto simp: bit_masks)

lemma bit_blk_size: "bit (blk_size w) i \<longleftrightarrow> bit w i \<and> 2 \<le> i \<and> i < 64"
  by (simp add: blk_size_def bit_masks)

lemmas blk_bits = blk_free_bit blk_prev_free_bit bit_blk_size bit_masks

lemma blk_size_0 [simp]: "blk_size 0 = 0"
  by (simp add: blk_size_def)

lemma blk_free_0 [simp]: "\<not> blk_free 0"
  by (simp add: blk_free_bit)

lemma blk_prev_free_0 [simp]: "\<not> blk_prev_free 0"
  by (simp add: blk_prev_free_bit)

lemma blk_or_free [simp]:
  "blk_size (w OR BLOCK_STATE_FREE) = blk_size w"
  "blk_free (w OR BLOCK_STATE_FREE)"
  "blk_prev_free (w OR BLOCK_STATE_FREE) \<longleftrightarrow> blk_prev_free w"
  by (auto intro!: bit_eqI simp: blk_bits)

lemma blk_or_prev_free [simp]:
  "blk_size (w OR BLOCK_STATE_PREV_FREE) = blk_size w"
  "blk_free (w OR BLOCK_STATE_PREV_FREE) \<longleftrightarrow> blk_free w"
  "blk_prev_free (w OR BLOCK_STATE_PREV_FREE)"
  by (auto intro!: bit_eqI simp: blk_bits)

lemma blk_and_not_free [simp]:
  "blk_size (w AND not64 BLOCK_STATE_FREE) = blk_size w"
  "\<not> blk_free (w AND not64 BLOCK_STATE_FREE)"
  "blk_prev_free (w AND not64 BLOCK_STATE_FREE) \<longleftrightarrow> blk_prev_free w"
  by (auto intro!: bit_eqI simp: blk_bits)

lemma blk_and_not_prev_free [simp]:
  "blk_size (w AND not64 BLOCK_STATE_PREV_FREE) = blk_size w"
  "blk_free (w AND not64 BLOCK_STATE_PREV_FREE) \<longleftrightarrow> blk_free w"
  "\<not> blk_prev_free (w AND not64 BLOCK_STATE_PREV_FREE)"
  by (auto intro!: bit_eqI simp: blk_bits)

lemma blk_or_and_prev_free [simp]:
  "blk_size (s OR (w AND BLOCK_STATE_PREV_FREE)) = blk_size s"
  "blk_free (s OR (w AND BLOCK_STATE_PREV_FREE)) \<longleftrightarrow> blk_free s"
  "blk_prev_free (s OR (w AND BLOCK_STATE_PREV_FREE)) \<longleftrightarrow> blk_prev_free s \<or> blk_prev_free w"
  by (auto intro!: bit_eqI simp: blk_bits)

lemma mod4_low_bits:
  fixes s :: nat
  assumes "s mod 4 = 0"
  shows "\<not> bit s 0" "\<not> bit s (Suc 0)"
proof -
  have "take_bit 2 s = 0"
    using assms by (simp add: take_bit_eq_mod)
  then have "\<not> bit (take_bit 2 s) i" for i
    by simp
  then show "\<not> bit s 0" "\<not> bit s (Suc 0)"
    by (auto simp: bit_take_bit_iff dest: spec [of _ 0])
qed

lemma blk_aligned:
  assumes "s mod 8 = 0" "s < 2 ^ 64"
  shows "blk_size s = s" "\<not> blk_free s" "\<not> blk_prev_free s"
proof -
  have "s mod 4 = 0"
    using assms(1) by presburger
  then have low: "\<not> bit s 0" "\<not> bit s 1"
    using mod4_low_bits by auto
  have high: "bit s i \<Longrightarrow> i < 64" for i
    using assms(2) by (metis bit_take_bit_iff take_bit_nat_eq_self)
  show "blk_size s = s"
  proof (rule bit_eqI)
    show "bit (blk_size s) i \<longleftrightarrow> bit s i" for i
      using low high [of i] by (cases i; cases "i - 1") (auto simp: bit_blk_size)
  qed
  show "\<not> blk_free s" "\<not> blk_prev_free s"
    using low by (auto simp: blk_free_bit blk_prev_free_bit)
qed

lemma blk_size_lt: "blk_size w < 2 ^ 64"
proof -
  have "blk_size w = take_bit 64 (blk_size w)"
    by (rule bit_eqI) (auto simp: bit_take_bit_iff bit_blk_size)
  then show ?thesis
    by (metis take_bit_nat_less_exp)
qed

text \<open>Rounding a \<open>size_t\<close> up to the next multiple of eight, as
  \<open>(n + 7u) & ~(size_t)7u\<close> does, with the wrap-around of the sum.\<close>

definition align_up8 :: "nat \<Rightarrow> nat" where
  "align_up8 n = ((n + 7) mod 2 ^ 64) AND not64 7"

lemma and_not64_7: "m < 2 ^ 64 \<Longrightarrow> m AND not64 7 = 8 * (m div 8)"
proof -
  assume m: "m < 2 ^ 64"
  have high: "bit m i \<Longrightarrow> i < 64" for i
    using m by (metis bit_take_bit_iff take_bit_nat_eq_self)
  have seven: "bit (7::nat) i \<longleftrightarrow> i < 3" for i
    using bit_mask_iff [where 'a = nat, of 3 i] by (simp add: mask_eq_exp_minus_1)
  have "m AND not64 7 = push_bit 3 (drop_bit 3 m)"
    by (rule bit_eqI) (use high in \<open>auto simp: bit_masks bit_push_bit_iff bit_drop_bit_eq seven\<close>)
  then show ?thesis
    by (simp add: push_bit_eq_mult drop_bit_eq_div)
qed

lemma align_up8_eq: "n + 7 < 2 ^ 64 \<Longrightarrow> align_up8 n = 8 * ((n + 7) div 8)"
  by (simp add: align_up8_def and_not64_7)

lemma align_up8_mod [simp]: "align_up8 n mod 8 = 0"
  by (simp add: align_up8_def and_not64_7)

lemma align_up8_bounds:
  assumes "n + 7 < 2 ^ 64"
  shows "n \<le> align_up8 n" "align_up8 n < n + 8"
  using align_up8_eq [OF assms] by auto

lemma align_up8_lt: "align_up8 n < 2 ^ 64"
proof -
  have "8 * (((n + 7) mod 2 ^ 64) div 8) \<le> (n + 7) mod 2 ^ 64"
    by simp
  also have "\<dots> < 2 ^ 64"
    by simp
  finally show ?thesis
    by (simp add: align_up8_def and_not64_7)
qed

text \<open>Subtraction of \<open>size_t\<close> values that does not wrap.\<close>

lemma sub64:
  fixes c n :: nat
  assumes "n \<le> c" "c < 2 ^ 64"
  shows "(c + 2 ^ 64 - n) mod 2 ^ 64 = c - n"
proof -
  have "c + 2 ^ 64 - n = (c - n) + 2 ^ 64"
    using assms(1) by linarith
  then have "(c + 2 ^ 64 - n) mod 2 ^ 64 = (c - n) mod 2 ^ 64"
    by (simp only: mod_add_self2)
  also have "\<dots> = c - n"
    using assms by (intro mod_less) linarith
  finally show ?thesis .
qed

text \<open>A counter that is increased and decreased by the same amount, modulo its width.\<close>

lemma wrap_add_sub:
  fixes a d :: nat
  assumes "a < 2 ^ 64" "d < 2 ^ 64"
  shows "((a + d) mod 2 ^ 64 + 2 ^ 64 - d) mod 2 ^ 64 = a"
proof -
  have "((a + d) mod 2 ^ 64 + 2 ^ 64 - d) mod 2 ^ 64 = ((a + d) mod 2 ^ 64 + (2 ^ 64 - d)) mod 2 ^ 64"
    using assms(2) by (simp only: diff_add_assoc2 diff_add_assoc less_imp_le)
  also have "\<dots> = (a + d + (2 ^ 64 - d)) mod 2 ^ 64"
    by (simp only: mod_add_left_eq)
  also have "a + d + (2 ^ 64 - d) = a + 2 ^ 64"
    using assms(2) by linarith
  also have "(a + 2 ^ 64) mod 2 ^ 64 = a"
    using assms(1) by (simp only: mod_add_self2 mod_less)
  finally show ?thesis .
qed

lemma filter_upd_notin [simp]: "x \<notin> set xs \<Longrightarrow> filter (P(x := b)) xs = filter P xs"
  by (rule filter_cong) auto

section \<open>Intrusive doubly linked lists\<close>

text \<open>\<open>dllseg nx pv p a xs b\<close>: starting at address \<open>a\<close>, the objects \<open>xs\<close> are chained by
  \<open>nx\<close>, each points back to its predecessor by \<open>pv\<close> (the first one to \<open>p\<close>), and the chain
  arrives at \<open>b\<close>.  A list is a segment arriving at the null pointer.\<close>

fun dllseg :: "(addr \<Rightarrow> addr) \<Rightarrow> (addr \<Rightarrow> addr) \<Rightarrow> addr \<Rightarrow> addr \<Rightarrow> addr list \<Rightarrow> addr \<Rightarrow> bool" where
  "dllseg nx pv p a [] b \<longleftrightarrow> a = b"
| "dllseg nx pv p a (x # xs) b \<longleftrightarrow> a = x \<and> x \<noteq> 0 \<and> pv x = p \<and> dllseg nx pv x (nx x) xs b"

abbreviation dll :: "(addr \<Rightarrow> addr) \<Rightarrow> (addr \<Rightarrow> addr) \<Rightarrow> addr \<Rightarrow> addr list \<Rightarrow> bool" where
  "dll nx pv a xs \<equiv> dllseg nx pv 0 a xs 0"

lemma dllseg_append:
  "dllseg nx pv p a (us @ vs) b \<longleftrightarrow>
     (\<exists>m. dllseg nx pv p a us m \<and> dllseg nx pv (last (p # us)) m vs b)"
  by (induction us arbitrary: p a) auto

lemma dllseg_frame [frame]:
  assumes "\<And>x. x \<in> set xs \<Longrightarrow> nx' x = nx x" "\<And>x. x \<in> set xs \<Longrightarrow> pv' x = pv x"
  shows "dllseg nx' pv' p a xs b \<longleftrightarrow> dllseg nx pv p a xs b"
  using assms by (induction xs arbitrary: p a) auto

lemma dllseg_upd_notin [simp]:
  "x \<notin> set xs \<Longrightarrow> dllseg (nx(x := v)) pv p a xs b \<longleftrightarrow> dllseg nx pv p a xs b"
  "x \<notin> set xs \<Longrightarrow> dllseg nx (pv(x := v)) p a xs b \<longleftrightarrow> dllseg nx pv p a xs b"
  by (rule dllseg_frame; auto)+

lemma dllseg_nonnull: "dllseg nx pv p a xs b \<Longrightarrow> x \<in> set xs \<Longrightarrow> x \<noteq> 0"
  by (induction xs arbitrary: p a) auto

lemma dll_null_iff: "dllseg nx pv p a xs 0 \<Longrightarrow> a = 0 \<longleftrightarrow> xs = []"
  by (cases xs) auto

lemma dll_head: "dllseg nx pv p a xs 0 \<Longrightarrow> a \<noteq> 0 \<Longrightarrow> a \<in> set xs"
  by (cases xs) auto

lemma dll_unique:
  "dllseg nx pv p a xs 0 \<Longrightarrow> dllseg nx pv p' a ys 0 \<Longrightarrow> xs = ys"
proof (induction xs arbitrary: p p' a ys)
  case Nil
  then show ?case
    by (cases ys) auto
next
  case (Cons x xs)
  then show ?case
    by (cases ys) auto
qed

lemma dll_distinct: "dllseg nx pv p a xs 0 \<Longrightarrow> distinct xs"
proof (induction xs arbitrary: p a)
  case Nil
  then show ?case
    by simp
next
  case (Cons x xs)
  have "x \<notin> set xs"
  proof
    assume "x \<in> set xs"
    then obtain us vs where xs: "xs = us @ x # vs"
      by (auto simp: in_set_conv_decomp)
    from Cons.prems have "dllseg nx pv p x (x # xs) 0"
      by simp
    moreover from Cons.prems obtain q where "dllseg nx pv q x (x # vs) 0"
      by (auto simp: xs dllseg_append)
    ultimately have "x # xs = x # vs"
      by (rule dll_unique)
    then show False
      by (simp add: xs)
  qed
  with Cons show ?case
    by auto
qed

lemma dll_split:
  assumes "dll nx pv a xs" "x \<in> set xs"
  obtains us vs where "xs = us @ x # vs" "x \<notin> set us" "x \<notin> set vs"
    "set us \<inter> set vs = {}" "dllseg nx pv 0 a us x" "pv x = last (0 # us)"
    "dllseg nx pv x (nx x) vs 0"
proof -
  from assms(2) obtain us vs where xs: "xs = us @ x # vs"
    by (auto simp: in_set_conv_decomp)
  with dll_distinct [OF assms(1)] have "x \<notin> set us" "x \<notin> set vs" "set us \<inter> set vs = {}"
    by auto
  with that xs assms(1) show thesis
    by (auto simp: dllseg_append)
qed

lemma dll_neighbours:
  assumes "dll nx pv a xs" "x \<in> set xs"
  shows "pv x \<noteq> 0 \<Longrightarrow> pv x \<in> set xs" "pv x \<noteq> 0 \<Longrightarrow> pv x \<noteq> x"
    "nx x \<noteq> 0 \<Longrightarrow> nx x \<in> set xs" "nx x \<noteq> 0 \<Longrightarrow> nx x \<noteq> x"
proof -
  obtain us vs where d: "xs = us @ x # vs" "x \<notin> set us" "x \<notin> set vs" "pv x = last (0 # us)"
      "dllseg nx pv x (nx x) vs 0"
    using dll_split [OF assms] by metis
  have "pv x \<noteq> 0 \<Longrightarrow> pv x \<in> set us"
    using d(4) last_in_set [of us] by (auto split: if_splits)
  with d show "pv x \<noteq> 0 \<Longrightarrow> pv x \<in> set xs" "pv x \<noteq> 0 \<Longrightarrow> pv x \<noteq> x"
    by auto
  have "nx x \<noteq> 0 \<Longrightarrow> nx x \<in> set vs"
    using dll_head [OF d(5)] .
  with d show "nx x \<noteq> 0 \<Longrightarrow> nx x \<in> set xs" "nx x \<noteq> 0 \<Longrightarrow> nx x \<noteq> x"
    by auto
qed

text \<open>Replacing what a non-empty segment ends in, and what the first object points back to.\<close>

lemma dllseg_set_end:
  assumes "dllseg nx pv p a us m" "us \<noteq> []" "distinct us"
  shows "dllseg (nx(last us := v)) pv p a us v"
  using assms
proof (induction us arbitrary: p a)
  case (Cons u us)
  then show ?case
    by (cases us) auto
qed simp

lemma dllseg_set_start:
  "dllseg nx pv p a (v # vs) b \<Longrightarrow> v \<notin> set vs \<Longrightarrow> dllseg nx (pv(v := q)) q a (v # vs) b"
  by simp

text \<open>Unlinking \<open>x\<close> from the middle of a list: the four C assignments, as function updates.\<close>

lemma dll_unlink:
  assumes "dll nx pv a xs" "x \<in> set xs"
  defines "nx' \<equiv> (if pv x \<noteq> 0 then nx(pv x := nx x) else nx)"
    and "pv' \<equiv> (if nx x \<noteq> 0 then pv(nx x := pv x) else pv)"
    and "a' \<equiv> (if pv x \<noteq> 0 then a else nx x)"
  shows "dll nx' pv' a' (remove1 x xs)"
proof -
  obtain us vs where xs: "xs = us @ x # vs" "x \<notin> set us" "x \<notin> set vs" "set us \<inter> set vs = {}"
    and us: "dllseg nx pv 0 a us x" and pvx: "pv x = last (0 # us)"
    and vs: "dllseg nx pv x (nx x) vs 0"
    using dll_split [OF assms(1,2)] by metis
  have "distinct us" "distinct vs"
    using dll_distinct [OF assms(1)] xs by auto
  have nz: "pv x \<noteq> 0 \<longleftrightarrow> us \<noteq> []"
    using pvx dllseg_nonnull [OF us] by (cases us rule: rev_cases) auto
  have front: "dllseg nx' pv 0 a' us (nx x)"
    using dllseg_set_end [OF us _ \<open>distinct us\<close>, of "nx x"] nz pvx
    by (cases "us = []") (auto simp: nx'_def a'_def)
  have rear: "dllseg nx' pv' (last (0 # us)) (nx x) vs 0"
  proof (cases vs)
    case Nil
    then show ?thesis
      using vs by simp
  next
    case (Cons v ws)
    have "last us \<notin> set vs" if "us \<noteq> []"
      using xs(4) that last_in_set [OF that] by blast
    then have "dllseg nx' pv x (nx x) vs 0"
      using vs nz pvx by (auto simp: nx'_def)
    then show ?thesis
      using Cons \<open>distinct vs\<close> pvx by (auto simp: pv'_def)
  qed
  have "dllseg nx' pv' 0 a' us (nx x)"
  proof (cases "nx x = 0")
    case False
    then have "nx x \<in> set vs"
      using vs by (cases vs) auto
    then have "nx x \<notin> set us"
      using xs(4) by blast
    with front False show ?thesis
      by (simp add: pv'_def)
  qed (use front in \<open>simp add: pv'_def\<close>)
  with rear show ?thesis
    using xs by (auto simp: dllseg_append remove1_append)
qed

text \<open>Linking \<open>x\<close> in between \<open>us\<close> and \<open>vs\<close>.\<close>

lemma dll_link:
  assumes "dll nx pv a (us @ vs)" "x \<notin> set us" "x \<notin> set vs" "x \<noteq> 0"
  defines "m \<equiv> (if vs = [] then 0 else hd vs)"
  defines "nx' \<equiv> (if us \<noteq> [] then (nx(x := m))(last us := x) else nx(x := m))"
    and "pv' \<equiv> (if m \<noteq> 0 then (pv(x := last (0 # us)))(m := x) else pv(x := last (0 # us)))"
    and "a' \<equiv> (if us = [] then x else a)"
  shows "dll nx' pv' a' (us @ x # vs)"
proof -
  have dist: "distinct us" "distinct vs" "set us \<inter> set vs = {}"
    using dll_distinct [OF assms(1)] by auto
  obtain m0 where us: "dllseg nx pv 0 a us m0" and vs: "dllseg nx pv (last (0 # us)) m0 vs 0"
    using assms(1) by (auto simp: dllseg_append)
  have m: "m0 = m" "m \<noteq> 0 \<longleftrightarrow> vs \<noteq> []" "m \<notin> set us" "x \<noteq> m" "last (0 # us) \<noteq> x"
    "last (0 # us) \<notin> set vs"
    using vs assms(2-4) dist dllseg_nonnull [OF us] dllseg_nonnull [OF vs]
    by (cases vs; cases us rule: rev_cases; auto simp: m_def)+
  have lx: "us \<noteq> [] \<Longrightarrow> last us \<noteq> x"
    using m(5) by auto
  have "dllseg nx' pv 0 a' us x"
    using dllseg_set_end [OF us _ dist(1), of x] assms(2) lx
    by (cases "us = []") (auto simp: nx'_def a'_def fun_upd_twist [of x])
  then have 1: "dllseg nx' pv' 0 a' us x"
    using assms(2) m by (auto simp: pv'_def)
  have "dllseg nx' pv (last (0 # us)) m vs 0"
    using vs m assms(3) by (auto simp: nx'_def)
  then have "dllseg nx' pv' x m vs 0"
    using dist(2) m assms(3) by (cases vs) (auto simp: pv'_def)
  moreover have "nx' x = m" "pv' x = last (0 # us)"
    using m lx by (auto simp: nx'_def pv'_def)
  ultimately show ?thesis
    using 1 assms(4) by (auto simp: dllseg_append)
qed

text \<open>A family of disjoint doubly linked lists over one store.\<close>

definition dlls :: "(addr \<Rightarrow> addr) \<Rightarrow> (addr \<Rightarrow> addr) \<Rightarrow> ('k \<Rightarrow> addr) \<Rightarrow> ('k \<Rightarrow> addr list) \<Rightarrow> bool" where
  "dlls nx pv h D \<longleftrightarrow> (\<forall>k. dll nx pv (h k) (D k)) \<and> (\<forall>k l. k \<noteq> l \<longrightarrow> set (D k) \<inter> set (D l) = {})"

text \<open>The interface of a store whose objects carry a next and a previous pointer: the two
  readers and the two assignments, with the laws of assignment.\<close>

locale dll_store =
  fixes nx :: "'s \<Rightarrow> addr \<Rightarrow> addr"
    and pv :: "'s \<Rightarrow> addr \<Rightarrow> addr"
    and set_nx :: "addr \<Rightarrow> addr \<Rightarrow> 's \<Rightarrow> 's"
    and set_pv :: "addr \<Rightarrow> addr \<Rightarrow> 's \<Rightarrow> 's"
  assumes nx_set_nx: "nx (set_nx x v s) = (nx s)(x := v)"
    and pv_set_nx: "pv (set_nx x v s) = pv s"
    and nx_set_pv: "nx (set_pv x v s) = nx s"
    and pv_set_pv: "pv (set_pv x v s) = (pv s)(x := v)"
begin

lemmas assignment_laws = nx_set_nx pv_set_nx nx_set_pv pv_set_pv

lemma unlink:
  assumes "dll (nx s) (pv s) a xs" "x \<in> set xs"
    and "s1 = (if pv s x \<noteq> 0 then set_nx (pv s x) (nx s x) s else s)"
    and "s2 = (if nx s1 x \<noteq> 0 then set_pv (nx s1 x) (pv s1 x) s1 else s1)"
    and "a' = (if pv s x \<noteq> 0 then a else nx s x)"
  shows "dll (nx s2) (pv s2) a' (remove1 x xs)"
proof -
  have "pv s x \<noteq> 0 \<Longrightarrow> pv s x \<noteq> x"
    using dll_neighbours [OF assms(1,2)] by simp
  then have "nx s1 x = nx s x" "pv s1 = pv s"
    by (auto simp: assms(3) assignment_laws)
  moreover have "nx s1 = (if pv s x \<noteq> 0 then (nx s)(pv s x := nx s x) else nx s)"
    by (simp add: assms(3) assignment_laws)
  ultimately have "nx s2 = (if pv s x \<noteq> 0 then (nx s)(pv s x := nx s x) else nx s)"
    "pv s2 = (if nx s x \<noteq> 0 then (pv s)(nx s x := pv s x) else pv s)"
    by (simp_all add: assms(4) assignment_laws)
  then show ?thesis
    using dll_unlink [OF assms(1,2)] by (simp only: assms(5))
qed

lemma push_front:
  assumes "dll (nx s) (pv s) a xs" "x \<notin> set xs" "x \<noteq> 0"
    and "s1 = set_pv x 0 (set_nx x a s)"
    and "s2 = (if a \<noteq> 0 then set_pv a x s1 else s1)"
  shows "dll (nx s2) (pv s2) x (x # xs)"
  using dll_link [where us = "[]" and vs = xs, of "nx s" "pv s" a x] assms
  by (cases xs) (auto simp: assignment_laws)

lemma other_list:
  assumes "dll (nx s) (pv s) a xs"
    and "\<And>y. y \<in> set xs \<Longrightarrow> nx s' y = nx s y" "\<And>y. y \<in> set xs \<Longrightarrow> pv s' y = pv s y"
  shows "dll (nx s') (pv s') a xs"
  using assms dllseg_frame [of xs "nx s'" "nx s" "pv s'" "pv s" 0 a 0] by blast

text \<open>Which objects an unlink or a push writes to.\<close>

lemma unlink_writes:
  assumes "dll (nx s) (pv s) a xs" "x \<in> set xs" "y \<notin> set xs"
    and "s1 = (if pv s x \<noteq> 0 then set_nx (pv s x) (nx s x) s else s)"
    and "s2 = (if nx s1 x \<noteq> 0 then set_pv (nx s1 x) (pv s1 x) s1 else s1)"
  shows "nx s2 y = nx s y" "pv s2 y = pv s y"
proof -
  note nb = dll_neighbours [OF assms(1,2)]
  have "nx s1 x = nx s x" "pv s1 = pv s"
    using nb by (auto simp: assms(4) assignment_laws)
  then show "nx s2 y = nx s y" "pv s2 y = pv s y"
    using nb assms(3) by (auto simp: assms(4,5) assignment_laws)
qed

lemma push_front_writes:
  assumes "dll (nx s) (pv s) a xs" "y \<notin> set xs" "y \<noteq> x"
    and "s1 = set_pv x 0 (set_nx x a s)"
    and "s2 = (if a \<noteq> 0 then set_pv a x s1 else s1)"
  shows "nx s2 y = nx s y" "pv s2 y = pv s y"
  using assms dll_head [OF assms(1)] by (auto simp: assignment_laws)

lemma family_push:
  assumes "dlls (nx s) (pv s) h D" "\<And>l. x \<notin> set (D l)" "x \<noteq> 0"
    and "s1 = set_pv x 0 (set_nx x (h k) s)"
    and "s2 = (if h k \<noteq> 0 then set_pv (h k) x s1 else s1)"
  shows "dlls (nx s2) (pv s2) (h(k := x)) (D(k := x # D k))"
proof -
  have k: "dll (nx s) (pv s) (h k) (D k)" and disj: "\<And>k l. k \<noteq> l \<Longrightarrow> set (D k) \<inter> set (D l) = {}"
    and all: "\<And>l. dll (nx s) (pv s) (h l) (D l)"
    using assms(1) by (auto simp: dlls_def)
  have "dll (nx s2) (pv s2) (h l) (D l)" if "l \<noteq> k" for l
  proof (rule other_list [OF all])
    fix y assume y: "y \<in> set (D l)"
    then have "y \<notin> set (D k)" "y \<noteq> x"
      using disj [OF that] assms(2) by auto
    then show "nx s2 y = nx s y" "pv s2 y = pv s y"
      by (rule push_front_writes [OF k _ _ assms(4,5)])+
  qed
  then show ?thesis
    using push_front [OF k assms(2,3,4,5)] disj assms(2) by (auto simp: dlls_def)
qed

lemma family_unlink:
  assumes "dlls (nx s) (pv s) h D" "x \<in> set (D k)"
    and "s1 = (if pv s x \<noteq> 0 then set_nx (pv s x) (nx s x) s else s)"
    and "s2 = (if nx s1 x \<noteq> 0 then set_pv (nx s1 x) (pv s1 x) s1 else s1)"
    and "a' = (if pv s x \<noteq> 0 then h k else nx s x)"
  shows "dlls (nx s2) (pv s2) (h(k := a')) (D(k := remove1 x (D k)))"
proof -
  have k: "dll (nx s) (pv s) (h k) (D k)" and disj: "\<And>k l. k \<noteq> l \<Longrightarrow> set (D k) \<inter> set (D l) = {}"
    and all: "\<And>l. dll (nx s) (pv s) (h l) (D l)"
    using assms(1) by (auto simp: dlls_def)
  have "dll (nx s2) (pv s2) (h l) (D l)" if "l \<noteq> k" for l
  proof (rule other_list [OF all])
    fix y assume "y \<in> set (D l)"
    then have "y \<notin> set (D k)"
      using disj [OF that] by auto
    then show "nx s2 y = nx s y" "pv s2 y = pv s y"
      by (rule unlink_writes [OF k assms(2) _ assms(3,4)])+
  qed
  moreover have "set (remove1 x (D k)) \<inter> set (D l) = {}" if "l \<noteq> k" for l
    using disj [OF that] set_remove1_subset [of x "D k"] by blast
  ultimately show ?thesis
    using unlink [OF k assms(2-5)] disj by (auto simp: dlls_def)
qed

end

section \<open>Singly linked chains\<close>

text \<open>The chain of objects that starts at an address and ends in null: the mailbox of an arena, the free
  objects of a typed pool, the free slots of a slab page.\<close>

fun mchain :: "(addr \<Rightarrow> addr) \<Rightarrow> addr \<Rightarrow> addr list \<Rightarrow> bool" where
  "mchain nx h [] \<longleftrightarrow> h = 0"
| "mchain nx h (x # xs) \<longleftrightarrow> h = x \<and> x \<noteq> 0 \<and> mchain nx (nx x) xs"

lemma mchain_frame [frame]:
  "(\<And>y. y \<in> set M \<Longrightarrow> nx' y = nx y) \<Longrightarrow> mchain nx' h M \<longleftrightarrow> mchain nx h M"
  by (induction M arbitrary: h) auto

lemma mchain_upd_notin [simp]: "x \<notin> set M \<Longrightarrow> mchain (nx(x := v)) h M \<longleftrightarrow> mchain nx h M"
  by (rule mchain_frame) auto

lemma mchain_null: "mchain nx h M \<Longrightarrow> h = 0 \<longleftrightarrow> M = []"
  by (cases M) auto

lemma mchain_nonnull: "mchain nx h M \<Longrightarrow> x \<in> set M \<Longrightarrow> x \<noteq> 0"
  by (induction M arbitrary: h) auto

lemma mchain_pop:
  assumes "mchain nx h M" "h \<noteq> 0"
  obtains M' where "M = h # M'" "mchain nx (nx h) M'"
  using assms by (cases M) auto

lemma mchain_push: "mchain nx h M \<Longrightarrow> x \<notin> set M \<Longrightarrow> x \<noteq> 0 \<Longrightarrow> mchain (nx(x := h)) x (x # M)"
  by simp

text \<open>A family of disjoint chains over the links \<open>nx\<close>, one for every index in \<open>A\<close>.\<close>

definition mchains :: "(addr \<Rightarrow> addr) \<Rightarrow> ('i \<Rightarrow> addr) \<Rightarrow> 'i set \<Rightarrow> ('i \<Rightarrow> addr list) \<Rightarrow> bool" where
  "mchains nx h A C \<longleftrightarrow>
     (\<forall>i \<in> A. mchain nx (h i) (C i)) \<and> (\<forall>i. i \<notin> A \<longrightarrow> C i = []) \<and> (\<forall>i. distinct (C i))
     \<and> (\<forall>i j. i \<noteq> j \<longrightarrow> set (C i) \<inter> set (C j) = {})"

lemma mchains_frame [frame]:
  assumes "mchains nx h A C" "\<And>i x. x \<in> set (C i) \<Longrightarrow> nx' x = nx x" "\<And>i. i \<in> A \<Longrightarrow> h' i = h i"
  shows "mchains nx' h' A C"
  using assms mchain_frame [where nx' = nx' and nx = nx] unfolding mchains_def by metis

lemma mchains_push:
  assumes "mchains nx h A C" "i \<in> A" "x \<noteq> 0" "\<And>j. x \<notin> set (C j)"
  shows "mchains (nx(x := h i)) (h(i := x)) A (C(i := x # C i))"
  using assms unfolding mchains_def by auto

lemma mchains_pop:
  assumes "mchains nx h A C" "i \<in> A" "h i \<noteq> 0"
  shows "mchains nx (h(i := nx (h i))) A (C(i := tl (C i)))" "C i = h i # tl (C i)"
proof -
  obtain M where M: "C i = h i # M" "mchain nx (nx (h i)) M"
    using assms mchain_pop [of nx "h i" "C i"] unfolding mchains_def by metis
  then show "C i = h i # tl (C i)"
    by simp
  have "distinct M" "\<forall>j. j \<noteq> i \<longrightarrow> set M \<inter> set (C j) = {} \<and> set (C j) \<inter> set M = {}"
    using assms(1) M(1) unfolding mchains_def by (metis distinct.simps(2), metis disjoint_iff list.set_intros(2))
  then show "mchains nx (h(i := nx (h i))) A (C(i := tl (C i)))"
    using assms(1,2) M unfolding mchains_def by (simp add: M(1))
qed

text \<open>Detaching a whole chain, and adding a new one.\<close>

lemma mchains_detach:
  assumes "mchains nx h A C" "i \<in> A"
  shows "mchains nx (h(i := 0)) A (C(i := []))"
  using assms unfolding mchains_def by auto

lemma mchains_add:
  assumes "mchains nx h A C" "mchain nx (h i) L" "distinct L" "\<And>j. set L \<inter> set (C j) = {}"
  shows "mchains nx h (insert i A) (C(i := L))"
  using assms unfolding mchains_def by auto

text \<open>Giving up some of the chains, and taking in empty ones.\<close>

lemma mchains_drop:
  assumes "mchains nx h A C" "A' = A - B"
  shows "mchains nx h A' (\<lambda>i. if i \<in> B then [] else C i)"
  using assms unfolding mchains_def by auto

lemma mchains_extend:
  assumes "mchains nx h A C" "A \<subseteq> A'" "\<And>i. i \<in> A \<Longrightarrow> h' i = h i" "\<And>i. i \<in> A' - A \<Longrightarrow> h' i = 0"
  shows "mchains nx h' A' C"
  using assms unfolding mchains_def by (metis DiffI mchain.simps(1) subsetD)

end
