(* ===== verification/Tlsf_Index.thy ===== *)
theory Tlsf_Index
  imports Cmem_Prelude
begin

text \<open>
  The size-class arithmetic of \<open>src/src/cmem_tlsf.c\<close>: bit scans (\<open>tlsf_fls\<close>, \<open>tlsf_ffs\<close>), the
  mapping of a block size to its bucket (\<open>tlsf_mapping_insert\<close>), the rounded mapping of a
  request (\<open>tlsf_mapping_search\<close>) and \<open>tlsf_block_size_to_fl\<close>.

  The results are the two directions of good fit: every block of a bucket the search accepts is
  large enough (soundness), and every block that is large enough after rounding lies in a bucket
  the search accepts (completeness).  Both need the size to fit the 32-bit scan of \<open>tlsf_fls\<close>;
  what happens above is stated too.
\<close>

definition TLSF_SL_SHIFT :: nat where
  "TLSF_SL_SHIFT = 4"

definition TLSF_FL_MAX :: nat where
  "TLSF_FL_MAX = 30"

definition TLSF_SL_COUNT :: nat where
  "TLSF_SL_COUNT = 16"

text \<open>\<open>__builtin_clz\<close> and \<open>__builtin_ctz\<close> on a 32-bit value; their result on zero, which C
  leaves undefined, is \<open>32\<close>.\<close>

fun bitlen :: "nat \<Rightarrow> nat" where
  "bitlen n = (if n = 0 then 0 else Suc (bitlen (n div 2)))"

declare bitlen.simps [simp del]

definition clz32 :: "nat \<Rightarrow> nat" where
  "clz32 v = 32 - bitlen v"

fun low_bit :: "nat \<Rightarrow> nat" where
  "low_bit n = (if n = 0 then 32 else if odd n then 0 else Suc (low_bit (n div 2)))"

declare low_bit.simps [simp del]

definition ctz32 :: "32 word \<Rightarrow> nat" where
  "ctz32 w = low_bit (unat w)"

definition tlsf_fls :: "nat \<Rightarrow> int" where
  "tlsf_fls val = (if val = 0 then -1 else 31 - int (clz32 (val mod 2 ^ 32)))"

definition tlsf_ffs :: "32 word \<Rightarrow> int" where
  "tlsf_ffs val = (if val = 0 then -1 else int (ctz32 val))"

definition tlsf_mapping_insert :: "nat \<Rightarrow> nat \<times> nat" where
  "tlsf_mapping_insert sz =
     (if sz < 2 ^ TLSF_SL_SHIFT then (0, sz)
      else let fl = nat (tlsf_fls sz)
           in (fl, drop_bit (fl - TLSF_SL_SHIFT) sz XOR 2 ^ TLSF_SL_SHIFT))"

definition tlsf_mapping_search :: "nat \<Rightarrow> nat \<times> nat" where
  "tlsf_mapping_search sz =
     (let (fl, sz') =
            (if 2 ^ TLSF_SL_SHIFT \<le> sz
             then let fl_idx = nat (tlsf_fls sz);
                      round = 2 ^ (fl_idx - TLSF_SL_SHIFT) - 1
                  in (fl_idx, (sz + round) mod 2 ^ 64)
             else (0, sz))
      in if fl = 0 then (fl, sz')
         else (fl, drop_bit (fl - TLSF_SL_SHIFT) sz' XOR 2 ^ TLSF_SL_SHIFT))"

definition tlsf_block_size_to_fl :: "nat \<Rightarrow> int" where
  "tlsf_block_size_to_fl sz = (if sz < 2 ^ TLSF_SL_SHIFT then 0 else tlsf_fls sz)"

section \<open>Bit scans\<close>

lemma bitlen_bounds: "0 < n \<Longrightarrow> 0 < bitlen n \<and> 2 ^ (bitlen n - 1) \<le> n \<and> n < 2 ^ bitlen n"
proof (induction n rule: bitlen.induct)
  case (1 n)
  then have eq: "bitlen n = Suc (bitlen (n div 2))"
    by (simp add: bitlen.simps [of n])
  show ?case
  proof (cases "n div 2 = 0")
    case True
    then show ?thesis
      using 1 by (simp add: eq bitlen.simps [of 0])
  next
    case False
    with 1 have IH: "0 < bitlen (n div 2)" "2 ^ (bitlen (n div 2) - 1) \<le> n div 2"
      "n div 2 < 2 ^ bitlen (n div 2)"
      by auto
    obtain k where k: "bitlen (n div 2) = Suc k"
      using IH(1) by (auto simp: gr0_conv_Suc)
    have "2 * 2 ^ k \<le> n" "n < 4 * 2 ^ k"
      using IH(2,3) by (simp_all add: k)
    then show ?thesis
      by (simp add: eq k)
  qed
qed

lemma bitlen_le: "n < 2 ^ k \<Longrightarrow> bitlen n \<le> k"
proof (cases "n = 0")
  case False
  assume "n < 2 ^ k"
  then have "(2::nat) ^ (bitlen n - 1) < 2 ^ k"
    using bitlen_bounds [of n] False by (meson le_less_trans neq0_conv)
  then show ?thesis
    by simp
qed (simp add: bitlen.simps)

lemma tlsf_fls_bounds:
  assumes "0 < n" "n < 2 ^ 32"
  shows "0 \<le> tlsf_fls n" "2 ^ nat (tlsf_fls n) \<le> n" "n < 2 ^ Suc (nat (tlsf_fls n))"
proof -
  have len: "0 < bitlen n" "bitlen n \<le> 32"
    using bitlen_bounds bitlen_le assms by auto
  then obtain k where k: "bitlen n = Suc k"
    by (auto simp: gr0_conv_Suc)
  have "tlsf_fls n = int k"
    using assms len by (simp add: tlsf_fls_def clz32_def of_nat_diff k)
  then show "0 \<le> tlsf_fls n" "2 ^ nat (tlsf_fls n) \<le> n" "n < 2 ^ Suc (nat (tlsf_fls n))"
    using bitlen_bounds [OF assms(1)] by (simp_all add: k)
qed

lemma tlsf_fls_unique:
  assumes "0 < n" "n < 2 ^ 32" "2 ^ k \<le> n" "n < 2 ^ Suc k"
  shows "nat (tlsf_fls n) = k"
proof -
  note b = tlsf_fls_bounds [OF assms(1,2)]
  have "(2::nat) ^ nat (tlsf_fls n) < 2 ^ Suc k" "(2::nat) ^ k < 2 ^ Suc (nat (tlsf_fls n))"
    using b assms by linarith+
  then show ?thesis
    by (simp add: power_strict_increasing_iff del: power_Suc)
qed

lemma tlsf_fls_mono:
  assumes "0 < m" "m \<le> n" "n < 2 ^ 32"
  shows "nat (tlsf_fls m) \<le> nat (tlsf_fls n)"
proof -
  have "(2::nat) ^ nat (tlsf_fls m) < 2 ^ Suc (nat (tlsf_fls n))"
    using tlsf_fls_bounds [of m] tlsf_fls_bounds [of n] assms by linarith
  then show ?thesis
    by (simp add: power_strict_increasing_iff del: power_Suc)
qed

lemma low_bit_spec:
  "0 < n \<Longrightarrow> bit n (low_bit n) \<and> (\<forall>i < low_bit n. \<not> bit n i)"
proof (induction n rule: low_bit.induct)
  case (1 n)
  show ?case
  proof (cases "odd n")
    case True
    then show ?thesis
      by (auto simp: low_bit.simps [of n] bit_0 odd_pos)
  next
    case False
    with 1 have IH: "bit (n div 2) (low_bit (n div 2))"
        "\<forall>i < low_bit (n div 2). \<not> bit (n div 2) i"
      by auto
    have eq: "low_bit n = Suc (low_bit (n div 2))"
      using 1 False by (simp add: low_bit.simps [of n])
    have "\<not> bit n i" if "i < low_bit n" for i
      using that IH(2) False by (cases i) (auto simp: eq bit_Suc bit_0)
    then show ?thesis
      using IH(1) by (simp add: eq bit_Suc)
  qed
qed

lemma tlsf_ffs_bounds:
  assumes "w \<noteq> 0"
  shows "bit w (nat (tlsf_ffs w))" "i < nat (tlsf_ffs w) \<Longrightarrow> \<not> bit w i" "nat (tlsf_ffs w) < 32"
proof -
  have "0 < unat w"
    using assms by (simp add: unat_gt_0)
  note s = low_bit_spec [OF this]
  have eq: "nat (tlsf_ffs w) = low_bit (unat w)"
    using assms by (simp add: tlsf_ffs_def ctz32_def)
  show "bit w (nat (tlsf_ffs w))" "i < nat (tlsf_ffs w) \<Longrightarrow> \<not> bit w i"
    using s by (auto simp: eq bit_unsigned_iff dest: bit_imp_le_length)
  then show "nat (tlsf_ffs w) < 32"
    using bit_imp_le_length [of w] by simp
qed

section \<open>The bucket of a size\<close>

lemma xor16: "16 \<le> v \<Longrightarrow> v < 32 \<Longrightarrow> v XOR 16 = v - (16::nat)"
proof -
  have "\<forall>v \<in> set [16..<32]. v XOR 16 = v - (16::nat)"
    by code_simp
  then show "16 \<le> v \<Longrightarrow> v < 32 \<Longrightarrow> v XOR 16 = v - (16::nat)"
    by (simp only: set_upt ball_simps atLeastLessThan_iff Ball_def)
qed

lemma mapping_insert_small: "n < 16 \<Longrightarrow> tlsf_mapping_insert n = (0, n)"
  by (simp add: tlsf_mapping_insert_def TLSF_SL_SHIFT_def)

lemma fls_ge4:
  assumes "16 \<le> n" "n < 2 ^ 32"
  shows "4 \<le> nat (tlsf_fls n)" "nat (tlsf_fls n) < 32"
proof -
  have "(2::nat) ^ 4 < 2 ^ Suc (nat (tlsf_fls n))" "(2::nat) ^ nat (tlsf_fls n) < 2 ^ 32"
    using tlsf_fls_bounds [of n] assms by auto
  from this [THEN power_less_imp_less_exp [rotated]]
  have "4 < Suc (nat (tlsf_fls n))" "nat (tlsf_fls n) < 32"
    by simp_all
  then show "4 \<le> nat (tlsf_fls n)" "nat (tlsf_fls n) < 32"
    by simp_all
qed

lemma segment_of_size:
  assumes "16 \<le> n" "n < 2 ^ 32"
  defines "k \<equiv> nat (tlsf_fls n) - 4"
  shows "16 \<le> n div 2 ^ k" "n div 2 ^ k < 32"
proof -
  have "nat (tlsf_fls n) = k + 4"
    using fls_ge4 [OF assms(1,2)] by (simp add: k_def)
  then have p: "(2::nat) ^ nat (tlsf_fls n) = 16 * 2 ^ k"
      "(2::nat) ^ Suc (nat (tlsf_fls n)) = 32 * 2 ^ k"
    by (simp_all add: power_add)
  have "16 * 2 ^ k \<le> n" "n < 32 * 2 ^ k"
    using tlsf_fls_bounds [of n] assms(1,2) p by auto
  then show "16 \<le> n div 2 ^ k" "n div 2 ^ k < 32"
    by (simp_all add: less_eq_div_iff_mult_less_eq div_less_iff_less_mult)
qed

lemma mapping_insert_large:
  assumes "16 \<le> n" "n < 2 ^ 32"
  shows "tlsf_mapping_insert n =
    (nat (tlsf_fls n), n div 2 ^ (nat (tlsf_fls n) - 4) - 16)"
  using assms segment_of_size [OF assms]
  by (simp add: tlsf_mapping_insert_def TLSF_SL_SHIFT_def Let_def drop_bit_eq_div xor16)

lemma mapping_insert_bounds:
  assumes "tlsf_mapping_insert n = (fl, sl)" "n < 2 ^ 30"
  shows "fl < TLSF_FL_MAX" "sl < TLSF_SL_COUNT"
proof -
  have "fl < TLSF_FL_MAX \<and> sl < TLSF_SL_COUNT"
  proof (cases "n < 16")
    case True
    then show ?thesis
      using assms by (simp add: mapping_insert_small TLSF_FL_MAX_def TLSF_SL_COUNT_def)
  next
    case False
    then have n: "16 \<le> n" "n < 2 ^ 32"
      using assms(2) by simp_all
    have "(2::nat) ^ nat (tlsf_fls n) < 2 ^ 30"
      using tlsf_fls_bounds [of n] n assms(2) by linarith
    then have "nat (tlsf_fls n) < 30"
      by (rule power_less_imp_less_exp [rotated]) simp
    moreover have "n div 2 ^ (nat (tlsf_fls n) - 4) - 16 < 16"
      by (rule less_diff_conv2 [THEN iffD2]) (use segment_of_size [OF n] in auto)
    ultimately show ?thesis
      using assms(1) by (auto simp: mapping_insert_large [OF n] TLSF_FL_MAX_def TLSF_SL_COUNT_def)
  qed
  then show "fl < TLSF_FL_MAX" "sl < TLSF_SL_COUNT"
    by auto
qed

lemma mapping_search_large:
  assumes "16 \<le> n" "n < 2 ^ 32"
  defines "k \<equiv> nat (tlsf_fls n) - 4"
  shows "fst (tlsf_mapping_search n) = nat (tlsf_fls n)"
    "snd (tlsf_mapping_search n) AND 31 = (n + 2 ^ k - 1) div 2 ^ k - 16"
    "n \<le> (n + 2 ^ k - 1) div 2 ^ k * 2 ^ k"
proof -
  note f = fls_ge4 [OF assms(1,2)]
  have "k < 28"
    using f by (simp add: k_def)
  then have "(2::nat) ^ k \<le> 2 ^ 28"
    by (intro power_increasing) auto
  then have small: "n + (2 ^ k - 1) < 2 ^ 64"
    using assms(2) by simp
  have r: "(n + 2 ^ k - 1) div 2 ^ k \<in> {16..32}"
  proof -
    have "1 \<le> (2::nat) ^ k"
      by simp
    then have "n \<le> n + 2 ^ k - 1"
      by linarith
    then have "n div 2 ^ k \<le> (n + 2 ^ k - 1) div 2 ^ k"
      by (rule div_le_mono)
    moreover have "(n + 2 ^ k - 1) div 2 ^ k \<le> (n + 2 ^ k) div 2 ^ k"
      by (rule div_le_mono) simp
    moreover have "(n + 2 ^ k) div 2 ^ k = n div 2 ^ k + 1"
      by (rule div_add_self2) simp
    ultimately show ?thesis
      using segment_of_size [OF assms(1,2), folded k_def]
      by (simp only: atLeastAtMost_iff) linarith
  qed
  have x: "\<forall>v \<in> set [16..<33]. (v XOR 16) AND 31 = v - (16::nat)"
    by code_simp
  have s: "tlsf_mapping_search n = (nat (tlsf_fls n), (n + 2 ^ k - 1) div 2 ^ k XOR 16)"
    using assms(1) small f nat_0_iff [of "tlsf_fls n"]
    by (auto simp: tlsf_mapping_search_def TLSF_SL_SHIFT_def Let_def drop_bit_eq_div k_def)
  show "fst (tlsf_mapping_search n) = nat (tlsf_fls n)"
    by (simp add: s)
  show "snd (tlsf_mapping_search n) AND 31 = (n + 2 ^ k - 1) div 2 ^ k - 16"
    using x r by (simp only: s snd_conv set_upt Ball_def atLeastLessThan_iff atLeastAtMost_iff) auto
  have "(n + 2 ^ k - 1) div 2 ^ k * 2 ^ k + (n + 2 ^ k - 1) mod 2 ^ k = n + 2 ^ k - 1"
    by (rule div_mult_mod_eq)
  moreover have "(n + 2 ^ k - 1) mod 2 ^ k < 2 ^ k" "1 \<le> (2::nat) ^ k"
    by simp_all
  ultimately show "n \<le> (n + 2 ^ k - 1) div 2 ^ k * 2 ^ k"
    by linarith
qed

section \<open>Good fit\<close>

text \<open>The buckets \<open>tlsf_find_suitable_block\<close> looks at for a request: the same first level from
  the masked second level on, and every higher first level.\<close>

definition tlsf_accepts :: "nat \<Rightarrow> nat \<times> nat \<Rightarrow> bool" where
  "tlsf_accepts n b \<longleftrightarrow>
     (let (fl, sl) = tlsf_mapping_search n
      in (fst b = fl \<and> sl AND 31 \<le> snd b) \<or> fl < fst b)"

text \<open>The size from which a free block is certain to be found.\<close>

definition tlsf_rounded :: "nat \<Rightarrow> nat" where
  "tlsf_rounded n = (if n < 16 then n else n + 2 ^ (nat (tlsf_fls n) - 4) - 1)"

lemma mapping_search_small: "n < 16 \<Longrightarrow> tlsf_mapping_search n = (0, n)"
  by (simp add: tlsf_mapping_search_def TLSF_SL_SHIFT_def)

lemma and31_small: "n < 16 \<Longrightarrow> n AND 31 = (n::nat)"
  using take_bit_nat_eq_self [of n 5] by (simp add: take_bit_eq_mask mask_eq_exp_minus_1)

lemma tlsf_accepts_sound:
  assumes "n < 2 ^ 32" "s < 2 ^ 32" "tlsf_accepts n (tlsf_mapping_insert s)"
  shows "n \<le> s"
proof (cases "n < 16 \<or> s < 16")
  case True
  then consider "n < 16" "s < 16" | "n < 16" "16 \<le> s" | "16 \<le> n" "s < 16"
    by linarith
  then show ?thesis
  proof cases
    case 1
    then show ?thesis
      using assms(3)
      by (simp add: tlsf_accepts_def mapping_search_small mapping_insert_small and31_small)
  next
    case 3
    then show ?thesis
      using assms(3) mapping_search_large(1) [OF 3(1) assms(1)] fls_ge4 [OF 3(1) assms(1)]
      by (simp add: tlsf_accepts_def mapping_insert_small case_prod_beta)
  qed auto
next
  case False
  then have ns: "16 \<le> n" "16 \<le> s"
    by auto
  note N = mapping_search_large [OF ns(1) assms(1)]
  note S = mapping_insert_large [OF ns(2) assms(2)]
  show ?thesis
  proof (cases "nat (tlsf_fls n) = nat (tlsf_fls s)")
    case True
    define r where "r = (n + 2 ^ (nat (tlsf_fls n) - 4) - 1) div 2 ^ (nat (tlsf_fls n) - 4)"
    have "r - 16 \<le> s div 2 ^ (nat (tlsf_fls n) - 4) - 16"
      using assms(3) N(2) unfolding tlsf_accepts_def S r_def case_prod_beta Let_def
      by (simp only: N(1) True fst_conv snd_conv less_irrefl simp_thms)
    moreover have "16 \<le> s div 2 ^ (nat (tlsf_fls n) - 4)"
      using segment_of_size [OF ns(2) assms(2)] True by (simp only:)
    ultimately have "r \<le> s div 2 ^ (nat (tlsf_fls n) - 4)"
      by linarith
    then have "r * 2 ^ (nat (tlsf_fls n) - 4) \<le> s"
      by (meson div_times_less_eq_dividend le_trans mult_le_mono1)
    then show ?thesis
      using N(3) by (simp add: r_def)
  next
    case False
    then have "nat (tlsf_fls n) < nat (tlsf_fls s)"
      using assms(3) unfolding tlsf_accepts_def S case_prod_beta Let_def
      by (simp only: N(1) fst_conv snd_conv simp_thms) linarith
    then have "(2::nat) ^ Suc (nat (tlsf_fls n)) \<le> 2 ^ nat (tlsf_fls s)"
      by (intro power_increasing) auto
    then show ?thesis
      using tlsf_fls_bounds [of n] tlsf_fls_bounds [of s] ns assms(1,2) by linarith
  qed
qed

lemma tlsf_accepts_complete:
  assumes "n < 2 ^ 32" "s < 2 ^ 32" "tlsf_rounded n \<le> s"
  shows "tlsf_accepts n (tlsf_mapping_insert s)"
proof (cases "n < 16")
  case True
  then show ?thesis
    using assms fls_ge4 [of s]
    by (cases "s < 16") (auto simp: tlsf_accepts_def mapping_search_small mapping_insert_small
      mapping_insert_large and31_small tlsf_rounded_def)
next
  case False
  define k where "k = nat (tlsf_fls n) - 4"
  have "1 \<le> (2::nat) ^ k"
    by simp
  moreover have ge: "n + 2 ^ k - 1 \<le> s"
    using assms(3) False by (simp add: tlsf_rounded_def k_def)
  ultimately have ns: "16 \<le> n" "16 \<le> s" "n \<le> s"
    using False by linarith+
  note N = mapping_search_large [OF ns(1) assms(1)]
  have le: "nat (tlsf_fls n) \<le> nat (tlsf_fls s)"
    using tlsf_fls_mono [of n s] ns assms(2) by simp
  have "(n + 2 ^ k - 1) div 2 ^ k \<le> s div 2 ^ k"
    using ge by (rule div_le_mono)
  then have "snd (tlsf_mapping_search n) AND 31 \<le> s div 2 ^ k - 16"
    unfolding N(2) k_def by (rule diff_le_mono)
  then show ?thesis
    using le unfolding mapping_insert_large [OF ns(2) assms(2)] tlsf_accepts_def k_def
    by (cases "nat (tlsf_fls n) = nat (tlsf_fls s)")
      (simp_all add: case_prod_beta N(1) del: zless_nat_conj)
qed

text \<open>Rounding costs at most a sixteenth of the request.\<close>

lemma tlsf_rounded_le:
  assumes "n < 2 ^ 32"
  shows "16 * tlsf_rounded n \<le> 17 * n"
proof (cases "n < 16")
  case True
  then show ?thesis
    by (simp add: tlsf_rounded_def)
next
  case False
  then have n: "16 \<le> n"
    by simp
  define k where "k = nat (tlsf_fls n) - 4"
  have "nat (tlsf_fls n) = k + 4"
    using fls_ge4 [OF n assms] by (simp add: k_def)
  then have "16 * 2 ^ k \<le> n"
    using tlsf_fls_bounds(2) [of n] n assms by (simp add: power_add mult.commute)
  then show ?thesis
    using False by (simp add: tlsf_rounded_def k_def)
qed

end
