(* ===== verification/Tlsf_Pool.thy ===== *)
theory Tlsf_Pool
  imports Tlsf_Index
begin

text \<open>
  One TLSF region (\<open>tlsf_pool_t\<close>) of \<open>src/src/cmem_tlsf.c\<close>: its creation, the segregated free
  lists with their bitmaps, the search, and the three structural operations performed under the
  region's lock -- carving a block out for an allocation, releasing a block with coalescing, and
  growing a block in place.

  The memory of the region is a store of block headers indexed by address.  The invariant has
  two halves.  \<open>phys\<close> says that the blocks tile the region from its base to the sentinel, every
  header pointing back at its physical predecessor; \<open>tlsf_idx\<close> says that the free lists hold
  exactly the free blocks, each in the bucket of its size, and that the bitmaps name exactly the
  non-empty buckets.
\<close>

record tlsf_block =
  size_and_flags :: nat
  prev_physical :: addr
  next_free :: addr
  prev_free :: addr

record tlsf_pool =
  fl_bitmap :: "32 word"
  sl_bitmap :: "nat \<Rightarrow> 32 word"
  blocks :: "nat \<Rightarrow> nat \<Rightarrow> addr"
  raw_area :: addr
  raw_size :: nat
  mem :: "addr \<Rightarrow> tlsf_block"

definition sizeof_tlsf_block :: nat where
  "sizeof_tlsf_block = 32"

definition sizeof_tlsf_pool :: nat where
  "sizeof_tlsf_pool = 23240"

definition TLSF_MIN_BLOCK_SIZE :: nat where
  "TLSF_MIN_BLOCK_SIZE = 32"

section \<open>Stores and loads of header fields\<close>

definition set_size_and_flags :: "addr \<Rightarrow> nat \<Rightarrow> tlsf_pool \<Rightarrow> tlsf_pool" where
  "set_size_and_flags b v t = t\<lparr>mem := (mem t)(b := (mem t b)\<lparr>size_and_flags := v\<rparr>)\<rparr>"

definition set_prev_physical :: "addr \<Rightarrow> addr \<Rightarrow> tlsf_pool \<Rightarrow> tlsf_pool" where
  "set_prev_physical b v t = t\<lparr>mem := (mem t)(b := (mem t b)\<lparr>prev_physical := v\<rparr>)\<rparr>"

definition set_next_free :: "addr \<Rightarrow> addr \<Rightarrow> tlsf_pool \<Rightarrow> tlsf_pool" where
  "set_next_free b v t = t\<lparr>mem := (mem t)(b := (mem t b)\<lparr>next_free := v\<rparr>)\<rparr>"

definition set_prev_free :: "addr \<Rightarrow> addr \<Rightarrow> tlsf_pool \<Rightarrow> tlsf_pool" where
  "set_prev_free b v t = t\<lparr>mem := (mem t)(b := (mem t b)\<lparr>prev_free := v\<rparr>)\<rparr>"

definition set_bucket :: "nat \<Rightarrow> nat \<Rightarrow> addr \<Rightarrow> tlsf_pool \<Rightarrow> tlsf_pool" where
  "set_bucket fl sl v t = t\<lparr>blocks := (blocks t)(fl := (blocks t fl)(sl := v))\<rparr>"

definition word_of :: "tlsf_pool \<Rightarrow> addr \<Rightarrow> nat" where
  "word_of t b = size_and_flags (mem t b)"

definition bsz :: "tlsf_pool \<Rightarrow> addr \<Rightarrow> nat" where
  "bsz t b = blk_size (word_of t b)"

definition bfree :: "tlsf_pool \<Rightarrow> addr \<Rightarrow> bool" where
  "bfree t b \<longleftrightarrow> blk_free (word_of t b)"

definition bprev_free :: "tlsf_pool \<Rightarrow> addr \<Rightarrow> bool" where
  "bprev_free t b \<longleftrightarrow> blk_prev_free (word_of t b)"

definition bpp :: "tlsf_pool \<Rightarrow> addr \<Rightarrow> addr" where
  "bpp t b = prev_physical (mem t b)"

definition bnx :: "tlsf_pool \<Rightarrow> addr \<Rightarrow> addr" where
  "bnx t b = next_free (mem t b)"

definition bpv :: "tlsf_pool \<Rightarrow> addr \<Rightarrow> addr" where
  "bpv t b = prev_free (mem t b)"

section \<open>Free lists\<close>

definition tlsf_insert_free_block_nolock :: "tlsf_pool \<Rightarrow> addr \<Rightarrow> tlsf_pool" where
  "tlsf_insert_free_block_nolock t b =
     (let sz = bsz t b;
          (fl, sl) = tlsf_mapping_insert sz;
          t = set_next_free b (blocks t fl sl) t;
          t = set_prev_free b 0 t;
          t = (if blocks t fl sl \<noteq> 0 then set_prev_free (blocks t fl sl) b t else t);
          t = set_bucket fl sl b t;
          t = t\<lparr>fl_bitmap := fl_bitmap t OR push_bit fl 1\<rparr>
      in t\<lparr>sl_bitmap := (sl_bitmap t)(fl := sl_bitmap t fl OR push_bit sl 1)\<rparr>)"

definition tlsf_insert_free_block :: "tlsf_pool \<Rightarrow> addr \<Rightarrow> tlsf_pool" where
  "tlsf_insert_free_block t b = tlsf_insert_free_block_nolock t b"

definition tlsf_remove_free_block_nolock :: "tlsf_pool \<Rightarrow> addr \<Rightarrow> tlsf_pool" where
  "tlsf_remove_free_block_nolock t b =
     (let sz = bsz t b;
          (fl, sl) = tlsf_mapping_insert sz;
          t = (if bpv t b \<noteq> 0 then set_next_free (bpv t b) (bnx t b) t
               else set_bucket fl sl (bnx t b) t);
          t = (if bnx t b \<noteq> 0 then set_prev_free (bnx t b) (bpv t b) t else t)
      in if blocks t fl sl = 0
         then let t = t\<lparr>sl_bitmap := (sl_bitmap t)(fl := sl_bitmap t fl AND NOT (push_bit sl 1))\<rparr>
              in if sl_bitmap t fl = 0
                 then t\<lparr>fl_bitmap := fl_bitmap t AND NOT (push_bit fl 1)\<rparr>
                 else t
         else t)"

definition tlsf_remove_free_block :: "tlsf_pool \<Rightarrow> addr \<Rightarrow> tlsf_pool" where
  "tlsf_remove_free_block t b = tlsf_remove_free_block_nolock t b"

definition tlsf_find_suitable_block :: "tlsf_pool \<Rightarrow> nat \<Rightarrow> addr" where
  "tlsf_find_suitable_block t total_needed =
     (let (fl, sl) = tlsf_mapping_search total_needed;
          sl_map = sl_bitmap t fl AND push_bit (sl AND 31) (- 1)
      in if sl_map \<noteq> 0 then blocks t fl (nat (tlsf_ffs sl_map))
         else let fl_map = fl_bitmap t AND push_bit ((fl + 1) AND 31) (- 1)
              in if fl_map \<noteq> 0
                 then let fl = nat (tlsf_ffs fl_map);
                          sl_map = sl_bitmap t fl
                      in blocks t fl (nat (tlsf_ffs sl_map))
                 else 0)"

section \<open>Creation\<close>

text \<open>\<open>sys_mem\<close> is the address \<open>sys_mem_alloc\<close> answers with (\<open>0\<close> on failure), \<open>m0\<close> the previous
  contents of the memory the region is laid over.\<close>

definition tlsf_create_pool_custom ::
  "(addr \<Rightarrow> tlsf_block) \<Rightarrow> nat \<Rightarrow> addr \<Rightarrow> addr \<Rightarrow> tlsf_pool option" where
  "tlsf_create_pool_custom m0 sz custom_mem sys_mem =
     (let sz = align_up8 sz;
          raw_mem = (if custom_mem \<noteq> 0 then custom_mem else sys_mem)
      in if raw_mem = 0 then None
         else let block = raw_mem + sizeof_tlsf_pool;
                  t = \<lparr>fl_bitmap = 0, sl_bitmap = (\<lambda>_. 0), blocks = (\<lambda>_ _. 0),
                       raw_area = block, raw_size = sz, mem = m0\<rparr>;
                  t = set_size_and_flags block
                        (((sz + 2 ^ 64 - sizeof_tlsf_block) mod 2 ^ 64) OR BLOCK_STATE_FREE) t;
                  t = set_prev_physical block 0 t;
                  t = set_next_free block 0 t;
                  t = set_prev_free block 0 t;
                  sentinel = block + bsz t block;
                  t = set_size_and_flags sentinel 0 t;
                  t = set_prev_physical sentinel block t;
                  (fl, sl) = tlsf_mapping_insert (bsz t block);
                  t = t\<lparr>fl_bitmap := fl_bitmap t OR push_bit fl 1\<rparr>;
                  t = t\<lparr>sl_bitmap := (sl_bitmap t)(fl := sl_bitmap t fl OR push_bit sl 1)\<rparr>
              in Some (set_bucket fl sl block t))"

section \<open>Structural operations\<close>

text \<open>The body of the locked section of \<open>tlsf_alloc\<close> once a block was found.\<close>

definition tlsf_take_block :: "tlsf_pool \<Rightarrow> addr \<Rightarrow> nat \<Rightarrow> tlsf_pool" where
  "tlsf_take_block t block total_needed =
     (let t = tlsf_remove_free_block_nolock t block;
          current_size = bsz t block;
          remaining = (current_size + 2 ^ 64 - total_needed) mod 2 ^ 64
      in if TLSF_MIN_BLOCK_SIZE + sizeof_tlsf_block \<le> remaining
         then let t = set_size_and_flags block
                        (total_needed OR (word_of t block AND BLOCK_STATE_PREV_FREE)) t;
                  split_block = block + total_needed;
                  t = set_size_and_flags split_block (remaining OR BLOCK_STATE_FREE) t;
                  t = set_prev_physical split_block block t;
                  next_phys = split_block + remaining;
                  t = set_prev_physical next_phys split_block t;
                  t = set_size_and_flags next_phys
                        (word_of t next_phys OR BLOCK_STATE_PREV_FREE) t
              in tlsf_insert_free_block_nolock t split_block
         else let t = set_size_and_flags block (word_of t block AND not64 BLOCK_STATE_FREE) t;
                  next_phys = block + current_size
              in set_size_and_flags next_phys
                   (word_of t next_phys AND not64 BLOCK_STATE_PREV_FREE) t)"

text \<open>The locked section of \<open>tlsf_free\<close>.\<close>

definition tlsf_merge_next :: "tlsf_pool \<Rightarrow> addr \<Rightarrow> nat \<Rightarrow> tlsf_pool \<times> nat" where
  "tlsf_merge_next t block sz =
     (let next_phys = block + sz
      in if word_of t next_phys AND BLOCK_STATE_FREE \<noteq> 0
         then let next_size = bsz t next_phys;
                  t = tlsf_remove_free_block_nolock t next_phys;
                  sz = sz + next_size;
                  t = set_size_and_flags block
                        ((sz OR (word_of t block AND BLOCK_STATE_PREV_FREE)) OR BLOCK_STATE_FREE) t;
                  after_next = block + sz
              in (set_prev_physical after_next block t, sz)
         else (t, sz))"

definition tlsf_merge_prev :: "tlsf_pool \<Rightarrow> addr \<Rightarrow> nat \<Rightarrow> tlsf_pool \<times> addr \<times> nat" where
  "tlsf_merge_prev t block sz =
     (if word_of t block AND BLOCK_STATE_PREV_FREE \<noteq> 0
      then let prev_phys = bpp t block
           in if prev_phys \<noteq> 0 \<and> word_of t prev_phys AND BLOCK_STATE_FREE \<noteq> 0
              then let prev_size = bsz t prev_phys;
                       t = tlsf_remove_free_block_nolock t prev_phys;
                       t = set_size_and_flags prev_phys
                             (((prev_size + sz)
                               OR (word_of t prev_phys AND BLOCK_STATE_PREV_FREE))
                               OR BLOCK_STATE_FREE) t;
                       after_prev = prev_phys + prev_size + sz;
                       t = set_prev_physical after_prev prev_phys t
                   in (t, prev_phys, prev_size + sz)
              else (t, block, sz)
      else (t, block, sz))"

definition tlsf_release_block :: "tlsf_pool \<Rightarrow> addr \<Rightarrow> tlsf_pool" where
  "tlsf_release_block t block =
     (let sz = bsz t block;
          t = set_size_and_flags block (word_of t block OR BLOCK_STATE_FREE) t;
          (t, sz) = tlsf_merge_next t block sz;
          (t, block, sz) = tlsf_merge_prev t block sz;
          after_block = block + sz;
          t = set_size_and_flags after_block (word_of t after_block OR BLOCK_STATE_PREV_FREE) t
      in tlsf_insert_free_block_nolock t block)"

text \<open>The locked section of \<open>tlsf_try_inplace_expand\<close>; \<open>None\<close> is its answer \<open>false\<close>.\<close>

definition tlsf_expand_block :: "tlsf_pool \<Rightarrow> addr \<Rightarrow> nat \<Rightarrow> tlsf_pool option" where
  "tlsf_expand_block t block total_needed =
     (let current_block_size = bsz t block;
          next_phys = block + current_block_size
      in if word_of t next_phys AND BLOCK_STATE_FREE = 0 then None
         else let next_size = bsz t next_phys
              in if current_block_size + next_size < total_needed then None
                 else let t = tlsf_remove_free_block_nolock t next_phys;
                          combined_size = current_block_size + next_size;
                          remaining = combined_size - total_needed
                      in if TLSF_MIN_BLOCK_SIZE + sizeof_tlsf_block \<le> remaining
                         then let t = set_size_and_flags block
                                    (total_needed OR (word_of t block AND BLOCK_STATE_PREV_FREE)) t;
                                  split_block = block + total_needed;
                                  t = set_size_and_flags split_block
                                        (remaining OR BLOCK_STATE_FREE) t;
                                  t = set_prev_physical split_block block t;
                                  far_phys = split_block + remaining;
                                  t = set_prev_physical far_phys split_block t;
                                  t = set_size_and_flags far_phys
                                        (word_of t far_phys OR BLOCK_STATE_PREV_FREE) t
                              in Some (tlsf_insert_free_block_nolock t split_block)
                         else let t = set_size_and_flags block
                                    (combined_size OR (word_of t block AND BLOCK_STATE_PREV_FREE)) t;
                                  far_phys = block + combined_size;
                                  t = set_prev_physical far_phys block t
                              in Some (set_size_and_flags far_phys
                                   (word_of t far_phys AND not64 BLOCK_STATE_PREV_FREE) t))"

section \<open>Laws of loads and stores\<close>

named_theorems tlsf_loads \<open>what a load sees after a store\<close>

lemma load_set_size [tlsf_loads]:
  "word_of (set_size_and_flags b v t) = (word_of t)(b := v)"
  "bsz (set_size_and_flags b v t) = (bsz t)(b := blk_size v)"
  "bfree (set_size_and_flags b v t) = (bfree t)(b := blk_free v)"
  "bprev_free (set_size_and_flags b v t) = (bprev_free t)(b := blk_prev_free v)"
  "bpp (set_size_and_flags b v t) = bpp t"
  "bnx (set_size_and_flags b v t) = bnx t"
  "bpv (set_size_and_flags b v t) = bpv t"
  "blocks (set_size_and_flags b v t) = blocks t"
  "fl_bitmap (set_size_and_flags b v t) = fl_bitmap t"
  "sl_bitmap (set_size_and_flags b v t) = sl_bitmap t"
  "raw_area (set_size_and_flags b v t) = raw_area t"
  "raw_size (set_size_and_flags b v t) = raw_size t"
  by (auto simp: fun_eq_iff set_size_and_flags_def word_of_def bsz_def bfree_def bprev_free_def
    bpp_def bnx_def bpv_def)

lemma load_set_prev_physical [tlsf_loads]:
  "word_of (set_prev_physical b v t) = word_of t"
  "bsz (set_prev_physical b v t) = bsz t"
  "bfree (set_prev_physical b v t) = bfree t"
  "bprev_free (set_prev_physical b v t) = bprev_free t"
  "bpp (set_prev_physical b v t) = (bpp t)(b := v)"
  "bnx (set_prev_physical b v t) = bnx t"
  "bpv (set_prev_physical b v t) = bpv t"
  "blocks (set_prev_physical b v t) = blocks t"
  "fl_bitmap (set_prev_physical b v t) = fl_bitmap t"
  "sl_bitmap (set_prev_physical b v t) = sl_bitmap t"
  "raw_area (set_prev_physical b v t) = raw_area t"
  "raw_size (set_prev_physical b v t) = raw_size t"
  by (auto simp: fun_eq_iff set_prev_physical_def word_of_def bsz_def bfree_def bprev_free_def
    bpp_def bnx_def bpv_def)

lemma load_set_next_free [tlsf_loads]:
  "word_of (set_next_free b v t) = word_of t"
  "bsz (set_next_free b v t) = bsz t"
  "bfree (set_next_free b v t) = bfree t"
  "bprev_free (set_next_free b v t) = bprev_free t"
  "bpp (set_next_free b v t) = bpp t"
  "bnx (set_next_free b v t) = (bnx t)(b := v)"
  "bpv (set_next_free b v t) = bpv t"
  "blocks (set_next_free b v t) = blocks t"
  "fl_bitmap (set_next_free b v t) = fl_bitmap t"
  "sl_bitmap (set_next_free b v t) = sl_bitmap t"
  "raw_area (set_next_free b v t) = raw_area t"
  "raw_size (set_next_free b v t) = raw_size t"
  by (auto simp: fun_eq_iff set_next_free_def word_of_def bsz_def bfree_def bprev_free_def
    bpp_def bnx_def bpv_def)

lemma load_set_prev_free [tlsf_loads]:
  "word_of (set_prev_free b v t) = word_of t"
  "bsz (set_prev_free b v t) = bsz t"
  "bfree (set_prev_free b v t) = bfree t"
  "bprev_free (set_prev_free b v t) = bprev_free t"
  "bpp (set_prev_free b v t) = bpp t"
  "bnx (set_prev_free b v t) = bnx t"
  "bpv (set_prev_free b v t) = (bpv t)(b := v)"
  "blocks (set_prev_free b v t) = blocks t"
  "fl_bitmap (set_prev_free b v t) = fl_bitmap t"
  "sl_bitmap (set_prev_free b v t) = sl_bitmap t"
  "raw_area (set_prev_free b v t) = raw_area t"
  "raw_size (set_prev_free b v t) = raw_size t"
  by (auto simp: fun_eq_iff set_prev_free_def word_of_def bsz_def bfree_def bprev_free_def
    bpp_def bnx_def bpv_def)

lemma load_upd_fl_bitmap [tlsf_loads]:
  "word_of (fl_bitmap_update f t) = word_of t"
  "bsz (fl_bitmap_update f t) = bsz t"
  "bfree (fl_bitmap_update f t) = bfree t"
  "bprev_free (fl_bitmap_update f t) = bprev_free t"
  "bpp (fl_bitmap_update f t) = bpp t"
  "bnx (fl_bitmap_update f t) = bnx t"
  "bpv (fl_bitmap_update f t) = bpv t"
  by (auto simp: fun_eq_iff set_bucket_def word_of_def bsz_def bfree_def bprev_free_def
    bpp_def bnx_def bpv_def)

lemma load_upd_sl_bitmap [tlsf_loads]:
  "word_of (sl_bitmap_update f t) = word_of t"
  "bsz (sl_bitmap_update f t) = bsz t"
  "bfree (sl_bitmap_update f t) = bfree t"
  "bprev_free (sl_bitmap_update f t) = bprev_free t"
  "bpp (sl_bitmap_update f t) = bpp t"
  "bnx (sl_bitmap_update f t) = bnx t"
  "bpv (sl_bitmap_update f t) = bpv t"
  by (auto simp: fun_eq_iff set_bucket_def word_of_def bsz_def bfree_def bprev_free_def
    bpp_def bnx_def bpv_def)

lemma load_upd_bucket [tlsf_loads]:
  "word_of (set_bucket fl sl v t) = word_of t"
  "bsz (set_bucket fl sl v t) = bsz t"
  "bfree (set_bucket fl sl v t) = bfree t"
  "bprev_free (set_bucket fl sl v t) = bprev_free t"
  "bpp (set_bucket fl sl v t) = bpp t"
  "bnx (set_bucket fl sl v t) = bnx t"
  "bpv (set_bucket fl sl v t) = bpv t"
  "fl_bitmap (set_bucket fl sl v t) = fl_bitmap t"
  "sl_bitmap (set_bucket fl sl v t) = sl_bitmap t"
  "raw_area (set_bucket fl sl v t) = raw_area t"
  "raw_size (set_bucket fl sl v t) = raw_size t"
  "blocks (set_bucket fl sl v t) = (blocks t)(fl := (blocks t fl)(sl := v))"
  by (auto simp: fun_eq_iff set_bucket_def word_of_def bsz_def bfree_def bprev_free_def
    bpp_def bnx_def bpv_def)

text \<open>The free lists are intrusive lists in the store.\<close>

interpretation fl: dll_store bnx bpv set_next_free set_prev_free
  by unfold_locales (simp_all add: tlsf_loads)

section \<open>The index of free blocks\<close>

definition tlsf_buckets :: "tlsf_pool \<Rightarrow> addr set \<Rightarrow> (nat \<Rightarrow> nat \<Rightarrow> addr list) \<Rightarrow> bool" where
  "tlsf_buckets t S F \<longleftrightarrow>
     (\<forall>fl sl. dll (bnx t) (bpv t) (blocks t fl sl) (F fl sl)
        \<and> set (F fl sl) = {x \<in> S. tlsf_mapping_insert (bsz t x) = (fl, sl)}
        \<and> (bit (sl_bitmap t fl) sl \<longleftrightarrow> F fl sl \<noteq> []))
     \<and> (\<forall>fl. bit (fl_bitmap t) fl \<longleftrightarrow> sl_bitmap t fl \<noteq> 0)"

definition tlsf_idx :: "tlsf_pool \<Rightarrow> addr set \<Rightarrow> bool" where
  "tlsf_idx t S \<longleftrightarrow> (\<exists>F. tlsf_buckets t S F)"

lemma tlsf_bucketsD:
  assumes "tlsf_buckets t S F"
  shows "dll (bnx t) (bpv t) (blocks t fl sl) (F fl sl)"
    "set (F fl sl) = {x \<in> S. tlsf_mapping_insert (bsz t x) = (fl, sl)}"
    "bit (sl_bitmap t fl) sl \<longleftrightarrow> F fl sl \<noteq> []"
    "bit (fl_bitmap t) fl \<longleftrightarrow> sl_bitmap t fl \<noteq> 0"
  using assms by (simp_all add: tlsf_buckets_def)

lemma bit_single:
  assumes "i < 32"
  shows "bit (push_bit i (1 :: 32 word)) j \<longleftrightarrow> j = i" "bit (2 ^ i :: 32 word) j \<longleftrightarrow> j = i"
  using assms by (auto simp: bit_exp_iff possible_bit_def push_bit_eq_mult)

lemma word_nonzero_bit: "(w :: 32 word) \<noteq> 0 \<longleftrightarrow> (\<exists>i. bit w i)"
  using bit_imp_le_length [of w] by (auto simp: bit_eq_iff)

lemma tlsf_idx_frame [frame]:
  assumes "tlsf_idx t S"
    and "\<And>x. x \<in> S \<Longrightarrow> bnx t' x = bnx t x" "\<And>x. x \<in> S \<Longrightarrow> bpv t' x = bpv t x"
    and "\<And>x. x \<in> S \<Longrightarrow> bsz t' x = bsz t x"
    and "blocks t' = blocks t" "fl_bitmap t' = fl_bitmap t" "sl_bitmap t' = sl_bitmap t"
  shows "tlsf_idx t' S"
proof -
  obtain F where B: "tlsf_buckets t S F"
    using assms(1) by (auto simp: tlsf_idx_def)
  note F = tlsf_bucketsD [OF B]
  have "dll (bnx t') (bpv t') (blocks t' fl sl) (F fl sl)" for fl sl
    unfolding assms(5)
    by (rule fl.other_list [OF F(1)]) (use F(2) assms(2,3) in auto)
  moreover have "set (F fl sl) = {x \<in> S. tlsf_mapping_insert (bsz t' x) = (fl, sl)}" for fl sl
    using F(2) assms(4) by auto
  ultimately show ?thesis
    unfolding tlsf_idx_def tlsf_buckets_def using F(3,4) assms(6,7) by (intro exI [of _ F]) simp
qed

lemma tlsf_idx_insert:
  assumes "tlsf_idx t S" "x \<notin> S" "x \<noteq> 0" "bsz t x < 2 ^ 30"
  shows "tlsf_idx (tlsf_insert_free_block_nolock t x) (insert x S)"
proof -
  obtain F where B: "tlsf_buckets t S F"
    using assms(1) by (auto simp: tlsf_idx_def)
  note F = tlsf_bucketsD [OF B]
  obtain fl sl where m: "tlsf_mapping_insert (bsz t x) = (fl, sl)"
    by (metis surj_pair)
  have small: "fl < 32" "sl < 32"
    using mapping_insert_bounds [OF m assms(4)] by (auto simp: TLSF_FL_MAX_def TLSF_SL_COUNT_def)
  define h s1 s2 where "h = blocks t fl sl" and "s1 = set_prev_free x 0 (set_next_free x h t)"
    and "s2 = (if h \<noteq> 0 then set_prev_free h x s1 else s1)"
  define t' where "t' = tlsf_insert_free_block_nolock t x"
  define F' where "F' = F(fl := (F fl)(sl := x # F fl sl))"
  have b2: "blocks s1 = blocks t" "blocks s2 = blocks t" "fl_bitmap s2 = fl_bitmap t"
    "sl_bitmap s2 = sl_bitmap t" "bsz s2 = bsz t"
    by (simp_all add: s2_def s1_def tlsf_loads)
  have t': "bnx t' = bnx s2" "bpv t' = bpv s2" "bsz t' = bsz t"
    "blocks t' = (blocks t)(fl := (blocks t fl)(sl := x))"
    "fl_bitmap t' = fl_bitmap t OR push_bit fl 1"
    "sl_bitmap t' = (sl_bitmap t)(fl := sl_bitmap t fl OR push_bit sl 1)"
    using b2 unfolding t'_def tlsf_insert_free_block_nolock_def m Let_def
    by (simp_all add: h_def s1_def s2_def tlsf_loads)
  have x: "x \<notin> set (F fl' sl')" for fl' sl'
    using F(2) assms(2) by auto
  have dllF: "dll (bnx t') (bpv t') (blocks t' fl' sl') (F' fl' sl')" for fl' sl'
  proof (cases "(fl', sl') = (fl, sl)")
    case True
    then show ?thesis
      using fl.push_front [OF F(1) x assms(3), of s1 fl sl s2]
      by (simp add: t' F'_def s1_def s2_def h_def)
  next
    case False
    have "y \<notin> set (F fl sl) \<and> y \<noteq> x" if "y \<in> set (F fl' sl')" for y
      using that False F(2) assms(2) by auto
    then have "dll (bnx s2) (bpv s2) (blocks t fl' sl') (F fl' sl')"
      using fl.push_front_writes [OF F(1) _ _ s1_def [unfolded h_def] s2_def [unfolded h_def]]
      by (intro fl.other_list [OF F(1)]) auto
    then show ?thesis
      using False by (auto simp: t' F'_def)
  qed
  have "set (F' fl' sl') = {y \<in> insert x S. tlsf_mapping_insert (bsz t' y) = (fl', sl')}" for fl' sl'
    using F(2) m by (auto simp: F'_def t')
  moreover have "bit (sl_bitmap t' fl') sl' \<longleftrightarrow> F' fl' sl' \<noteq> []" for fl' sl'
    using F(3) small by (auto simp: F'_def t' bit_or_iff bit_single)
  moreover have "bit (fl_bitmap t') fl' \<longleftrightarrow> sl_bitmap t' fl' \<noteq> 0" for fl'
    using F(4) small by (auto simp: t' bit_or_iff bit_single word_nonzero_bit)
  ultimately show ?thesis
    unfolding tlsf_idx_def tlsf_buckets_def t'_def [symmetric] using dllF
    by (intro exI [of _ F']) blast
qed

lemma tlsf_idx_remove:
  assumes "tlsf_idx t S" "x \<in> S" "bsz t x < 2 ^ 30"
  shows "tlsf_idx (tlsf_remove_free_block_nolock t x) (S - {x})"
proof -
  obtain F where B: "tlsf_buckets t S F"
    using assms(1) by (auto simp: tlsf_idx_def)
  note F = tlsf_bucketsD [OF B]
  obtain fl sl where m: "tlsf_mapping_insert (bsz t x) = (fl, sl)"
    by (metis surj_pair)
  have small: "fl < 32" "sl < 32"
    using mapping_insert_bounds [OF m assms(3)] by (auto simp: TLSF_FL_MAX_def TLSF_SL_COUNT_def)
  have x: "x \<in> set (F fl sl)"
    using F(2) m assms(2) by auto
  define s1 s2 where "s1 = (if bpv t x \<noteq> 0 then set_next_free (bpv t x) (bnx t x) t else t)"
    and "s2 = (if bnx s1 x \<noteq> 0 then set_prev_free (bnx s1 x) (bpv s1 x) s1 else s1)"
  define h where "h = (if bpv t x \<noteq> 0 then blocks t fl sl else bnx t x)"
  define t' where "t' = tlsf_remove_free_block_nolock t x"
  define F' where "F' = F(fl := (F fl)(sl := remove1 x (F fl sl)))"
  define sm where "sm = (if h = 0 then (sl_bitmap t)(fl := sl_bitmap t fl AND NOT (push_bit sl 1))
    else sl_bitmap t)"
  have t': "bnx t' = bnx s2" "bpv t' = bpv s2" "bsz t' = bsz t"
    "blocks t' = (blocks t)(fl := (blocks t fl)(sl := h))" "sl_bitmap t' = sm"
    "fl_bitmap t' = (if h = 0 \<and> sm fl = 0 then fl_bitmap t AND NOT (push_bit fl 1)
      else fl_bitmap t)"
    unfolding t'_def tlsf_remove_free_block_nolock_def m Let_def
    by (auto simp: h_def s1_def s2_def sm_def tlsf_loads fun_eq_iff)
  note unlinked = fl.unlink [OF F(1) x s1_def s2_def h_def]
  have dllF: "dll (bnx t') (bpv t') (blocks t' fl' sl') (F' fl' sl')" for fl' sl'
  proof (cases "(fl', sl') = (fl, sl)")
    case True
    then show ?thesis
      using unlinked by (simp add: t' F'_def)
  next
    case False
    have "y \<notin> set (F fl sl)" if "y \<in> set (F fl' sl')" for y
      using that False F(2) by auto
    then have "dll (bnx s2) (bpv s2) (blocks t fl' sl') (F fl' sl')"
      using fl.unlink_writes [OF F(1) x _ s1_def s2_def]
      by (intro fl.other_list [OF F(1)]) auto
    then show ?thesis
      using False by (auto simp: t' F'_def)
  qed
  have "distinct (F fl sl)"
    using dll_distinct [OF F(1)] .
  then have "set (F' fl' sl') = {y \<in> S - {x}. tlsf_mapping_insert (bsz t' y) = (fl', sl')}"
    for fl' sl'
    using F(2) m by (auto simp: F'_def t')
  moreover have "h = 0 \<longleftrightarrow> F' fl sl = []"
    using dll_null_iff [OF unlinked] by (simp add: F'_def)
  then have sl: "bit (sl_bitmap t' fl') sl' \<longleftrightarrow> F' fl' sl' \<noteq> []" for fl' sl'
    using F(3) [of fl' sl'] bit_imp_le_length [of "sl_bitmap t fl'" sl'] small x unfolding t' sm_def
    by (auto simp: F'_def bit_and_iff bit_not_iff bit_single possible_bit_def)
  have "bit (fl_bitmap t') fl' \<longleftrightarrow> sl_bitmap t' fl' \<noteq> 0" for fl'
  proof (cases "fl' = fl")
    case True
    have "sl_bitmap t fl \<noteq> 0"
      using F(3) [of fl sl] x by auto
    then show ?thesis
      using True F(4) small
      by (auto simp: t' sm_def bit_and_iff bit_not_iff bit_single possible_bit_def)
  next
    case False
    then show ?thesis
      using F(4) small bit_imp_le_length [of "fl_bitmap t" fl']
      by (auto simp: t' sm_def bit_and_iff bit_not_iff bit_single possible_bit_def)
  qed
  ultimately show ?thesis
    unfolding tlsf_idx_def tlsf_buckets_def t'_def [symmetric] using dllF sl
    by (intro exI [of _ F']) blast
qed

text \<open>Linking and unlinking never touch a size word or a physical link.\<close>

lemma insert_keeps [tlsf_loads]:
  "word_of (tlsf_insert_free_block_nolock t x) = word_of t"
  "bsz (tlsf_insert_free_block_nolock t x) = bsz t"
  "bfree (tlsf_insert_free_block_nolock t x) = bfree t"
  "bprev_free (tlsf_insert_free_block_nolock t x) = bprev_free t"
  "bpp (tlsf_insert_free_block_nolock t x) = bpp t"
  "raw_area (tlsf_insert_free_block_nolock t x) = raw_area t"
  "raw_size (tlsf_insert_free_block_nolock t x) = raw_size t"
  by (simp_all add: tlsf_insert_free_block_nolock_def Let_def case_prod_beta tlsf_loads)

lemma remove_keeps [tlsf_loads]:
  "word_of (tlsf_remove_free_block_nolock t x) = word_of t"
  "bsz (tlsf_remove_free_block_nolock t x) = bsz t"
  "bfree (tlsf_remove_free_block_nolock t x) = bfree t"
  "bprev_free (tlsf_remove_free_block_nolock t x) = bprev_free t"
  "bpp (tlsf_remove_free_block_nolock t x) = bpp t"
  "raw_area (tlsf_remove_free_block_nolock t x) = raw_area t"
  "raw_size (tlsf_remove_free_block_nolock t x) = raw_size t"
  by (simp_all add: tlsf_remove_free_block_nolock_def Let_def case_prod_beta tlsf_loads)

section \<open>Search\<close>

lemma bit_high_mask:
  "k < 32 \<Longrightarrow> bit (w AND push_bit k (- 1) :: 32 word) i \<longleftrightarrow> bit w i \<and> k \<le> i"
  by (auto simp: bit_and_iff bit_not_iff bit_mask_iff possible_bit_def dest: bit_imp_le_length)

lemma and31_lt: "n AND 31 < (32::nat)"
proof -
  have "n AND 31 = take_bit 5 n"
    by (simp add: take_bit_eq_mask mask_eq_exp_minus_1)
  then show ?thesis
    using take_bit_nat_less_exp [of 5 n] by simp
qed

lemma bucket_nonempty:
  assumes "tlsf_idx t S" "bit (sl_bitmap t fl) sl"
  shows "blocks t fl sl \<in> S" "blocks t fl sl \<noteq> 0"
    "tlsf_mapping_insert (bsz t (blocks t fl sl)) = (fl, sl)"
proof -
  obtain F where B: "tlsf_buckets t S F"
    using assms(1) by (auto simp: tlsf_idx_def)
  note F = tlsf_bucketsD [OF B]
  have "F fl sl \<noteq> []"
    using F(3) assms(2) by simp
  then show "blocks t fl sl \<noteq> 0"
    using dll_null_iff [OF F(1)] by simp
  then have "blocks t fl sl \<in> set (F fl sl)"
    by (rule dll_head [OF F(1)])
  then show "blocks t fl sl \<in> S" "tlsf_mapping_insert (bsz t (blocks t fl sl)) = (fl, sl)"
    using F(2) by auto
qed

lemma bucket_bit:
  assumes "tlsf_idx t S" "x \<in> S" "tlsf_mapping_insert (bsz t x) = (fl, sl)"
  shows "bit (sl_bitmap t fl) sl" "bit (fl_bitmap t) fl"
proof -
  obtain F where B: "tlsf_buckets t S F"
    using assms(1) by (auto simp: tlsf_idx_def)
  note F = tlsf_bucketsD [OF B]
  have "x \<in> set (F fl sl)"
    using F(2) assms(2,3) by auto
  then show "bit (sl_bitmap t fl) sl"
    using F(3) by auto
  then show "bit (fl_bitmap t) fl"
    using F(4) by (auto simp: word_nonzero_bit)
qed

lemma search_fl_lt:
  assumes "n < 2 ^ 31"
  shows "fst (tlsf_mapping_search n) + 1 < 32"
proof (cases "n < 16")
  case True
  then show ?thesis
    by (simp add: mapping_search_small)
next
  case False
  then have n: "16 \<le> n" "n < 2 ^ 32"
    using assms by simp_all
  have "(2::nat) ^ nat (tlsf_fls n) < 2 ^ 31"
    using tlsf_fls_bounds [of n] n assms by linarith
  then have "nat (tlsf_fls n) < 31"
    by (rule power_less_imp_less_exp [rotated]) simp
  then show ?thesis
    using mapping_search_large(1) [OF n] by simp
qed

lemma and31_id: "k < 32 \<Longrightarrow> k AND 31 = (k::nat)"
  using take_bit_nat_eq_self [of k 5] by (simp add: take_bit_eq_mask mask_eq_exp_minus_1)

lemma tlsf_find_eq:
  assumes "tlsf_mapping_search n = (fl, sl)"
    and "sm = sl_bitmap t fl AND push_bit (sl AND 31) (- 1)"
    and "fm = fl_bitmap t AND push_bit ((fl + 1) AND 31) (- 1)"
  shows "tlsf_find_suitable_block t n =
    (if sm \<noteq> 0 then blocks t fl (nat (tlsf_ffs sm))
     else if fm \<noteq> 0
     then blocks t (nat (tlsf_ffs fm)) (nat (tlsf_ffs (sl_bitmap t (nat (tlsf_ffs fm)))))
     else 0)"
  unfolding tlsf_find_suitable_block_def assms Let_def prod.case by (rule refl)

lemma tlsf_find_sound:
  assumes "tlsf_idx t S" "n < 2 ^ 31" "tlsf_find_suitable_block t n \<noteq> 0"
  shows "tlsf_find_suitable_block t n \<in> S"
    "tlsf_accepts n (tlsf_mapping_insert (bsz t (tlsf_find_suitable_block t n)))"
proof -
  obtain fl sl where m: "tlsf_mapping_search n = (fl, sl)"
    by (metis surj_pair)
  define sm where "sm = sl_bitmap t fl AND push_bit (sl AND 31) (- 1)"
  define fm where "fm = fl_bitmap t AND push_bit ((fl + 1) AND 31) (- 1)"
  have fl: "(fl + 1) AND 31 = fl + 1" "fl + 1 < 32"
    using search_fl_lt [OF assms(2)] m by (simp_all add: and31_id)
  have "\<exists>fl' sl'. tlsf_find_suitable_block t n = blocks t fl' sl' \<and> bit (sl_bitmap t fl') sl'
    \<and> (fl' = fl \<and> sl AND 31 \<le> sl' \<or> fl < fl')"
  proof (cases "sm = 0")
    case False
    then have "bit sm (nat (tlsf_ffs sm))"
      by (rule tlsf_ffs_bounds)
    then have "bit (sl_bitmap t fl) (nat (tlsf_ffs sm))" "sl AND 31 \<le> nat (tlsf_ffs sm)"
      by (simp_all only: sm_def bit_high_mask and31_lt)
    then show ?thesis
      using False by (auto simp only: tlsf_find_eq [OF m sm_def fm_def] if_True simp_thms)
  next
    case True
    then have eq: "tlsf_find_suitable_block t n =
        (if fm \<noteq> 0 then blocks t (nat (tlsf_ffs fm)) (nat (tlsf_ffs (sl_bitmap t (nat (tlsf_ffs fm)))))
         else 0)"
      by (simp only: tlsf_find_eq [OF m sm_def fm_def] if_True simp_thms if_False)
    with assms(3) have nz: "fm \<noteq> 0"
      by auto
    then have "bit fm (nat (tlsf_ffs fm))"
      by (rule tlsf_ffs_bounds)
    then have f: "bit (fl_bitmap t) (nat (tlsf_ffs fm))" "fl < nat (tlsf_ffs fm)"
      using fl unfolding fm_def by (simp_all only: bit_high_mask) simp
    obtain F where "tlsf_buckets t S F"
      using assms(1) by (auto simp: tlsf_idx_def)
    then have "sl_bitmap t (nat (tlsf_ffs fm)) \<noteq> 0"
      using f(1) tlsf_bucketsD(4) by blast
    from tlsf_ffs_bounds(1) [OF this] show ?thesis
      using eq nz f(2) by auto
  qed
  then obtain fl' sl' where r: "tlsf_find_suitable_block t n = blocks t fl' sl'"
    "bit (sl_bitmap t fl') sl'" "fl' = fl \<and> sl AND 31 \<le> sl' \<or> fl < fl'"
    by blast
  note b = bucket_nonempty [OF assms(1) r(2)]
  show "tlsf_find_suitable_block t n \<in> S"
    using b r by simp
  show "tlsf_accepts n (tlsf_mapping_insert (bsz t (tlsf_find_suitable_block t n)))"
    using b r by (auto simp: tlsf_accepts_def m)
qed

lemma tlsf_find_complete:
  assumes "tlsf_idx t S" "n < 2 ^ 31" "x \<in> S" "bsz t x < 2 ^ 32" "tlsf_rounded n \<le> bsz t x"
  shows "tlsf_find_suitable_block t n \<noteq> 0"
proof -
  obtain fl sl where m: "tlsf_mapping_search n = (fl, sl)"
    by (metis surj_pair)
  obtain fl' sl' where m': "tlsf_mapping_insert (bsz t x) = (fl', sl')"
    by (metis surj_pair)
  have acc: "fl' = fl \<and> sl AND 31 \<le> sl' \<or> fl < fl'"
    using tlsf_accepts_complete [of n "bsz t x"] assms(2,4,5) m'
    by (auto simp: tlsf_accepts_def m)
  have fl: "(fl + 1) AND 31 = fl + 1" "fl + 1 < 32"
    using search_fl_lt [OF assms(2)] m by (simp_all add: and31_id)
  note b = bucket_bit [OF assms(1,3) m']
  define sm where "sm = sl_bitmap t fl AND push_bit (sl AND 31) (- 1)"
  define fm where "fm = fl_bitmap t AND push_bit ((fl + 1) AND 31) (- 1)"
  have nz: "bit (sl_bitmap t f) i \<Longrightarrow> blocks t f i \<noteq> 0" for f i
    using bucket_nonempty(2) [OF assms(1)] .
  show ?thesis
  proof (cases "sm = 0")
    case False
    then have "bit sm (nat (tlsf_ffs sm))"
      by (rule tlsf_ffs_bounds)
    then have "blocks t fl (nat (tlsf_ffs sm)) \<noteq> 0"
      by (intro nz) (simp add: sm_def bit_and_iff)
    then show ?thesis
      using False by (simp add: tlsf_find_eq [OF m sm_def fm_def])
  next
    case True
    then have "\<not> bit sm sl'"
      by simp
    with acc b(1) have "fl < fl'"
      by (auto simp only: sm_def bit_high_mask and31_lt)
    with b(2) fl have "bit fm fl'"
      unfolding fm_def fl(1) bit_high_mask [OF fl(2)] by simp
    then have fm: "fm \<noteq> 0"
      by auto
    from tlsf_ffs_bounds(1) [OF this] have "bit (fl_bitmap t) (nat (tlsf_ffs fm))"
      by (simp add: fm_def bit_and_iff)
    then have "sl_bitmap t (nat (tlsf_ffs fm)) \<noteq> 0"
      using assms(1) tlsf_bucketsD(4) by (auto simp: tlsf_idx_def)
    from tlsf_ffs_bounds(1) [OF this, THEN nz] show ?thesis
      using True fm
      by (simp add: tlsf_find_eq [OF m sm_def fm_def])
  qed
qed

end
