(* ===== verification/Tlsf_Layout.thy ===== *)
theory Tlsf_Layout
  imports Tlsf_Pool
begin

text \<open>
  The invariant of a TLSF region and its preservation.

  \<open>phys\<close> is the physical half: the blocks tile the region from its base to the sentinel and
  every header points back at its physical predecessor.  Together with \<open>tlsf_idx\<close>, the logical
  half, it makes up \<open>tlsf_wf\<close>.  The structural operations are shown to keep it, each with the exact
  list of blocks it leaves behind and the sizes and flags of those blocks.
\<close>

section \<open>The physical layout\<close>

text \<open>\<open>pseg sz pp p a xs c\<close>: the blocks \<open>xs\<close> lie back to back from \<open>a\<close> to \<open>c\<close>, each at least
  the minimal size and a multiple of eight long, and each pointing back at its physical
  predecessor, the first one at \<open>p\<close>.  \<open>phys\<close> adds that the header at the end (the sentinel)
  points back at the last block.\<close>

fun pseg :: "(addr \<Rightarrow> nat) \<Rightarrow> (addr \<Rightarrow> addr) \<Rightarrow> addr \<Rightarrow> addr \<Rightarrow> addr list \<Rightarrow> addr \<Rightarrow> bool" where
  "pseg sz pp p a [] c \<longleftrightarrow> a = c"
| "pseg sz pp p a (x # xs) c \<longleftrightarrow> a = x \<and> pp x = p \<and> TLSF_MIN_BLOCK_SIZE \<le> sz x \<and> sz x mod 8 = 0
     \<and> pseg sz pp x (x + sz x) xs c"

definition phys :: "(addr \<Rightarrow> nat) \<Rightarrow> (addr \<Rightarrow> addr) \<Rightarrow> addr \<Rightarrow> addr \<Rightarrow> addr list \<Rightarrow> addr \<Rightarrow> bool" where
  "phys sz pp p a xs e \<longleftrightarrow> pseg sz pp p a xs e \<and> pp e = last (p # xs)"

lemma phys_Nil [simp]: "phys sz pp p a [] e \<longleftrightarrow> a = e \<and> pp e = p"
  by (auto simp: phys_def)

lemma phys_Cons [simp]:
  "phys sz pp p a (x # xs) e \<longleftrightarrow> a = x \<and> pp x = p \<and> TLSF_MIN_BLOCK_SIZE \<le> sz x \<and> sz x mod 8 = 0
     \<and> phys sz pp x (x + sz x) xs e"
  by (auto simp: phys_def)

lemma pseg_append:
  "pseg sz pp p a (us @ vs) c \<longleftrightarrow> (\<exists>d. pseg sz pp p a us d \<and> pseg sz pp (last (p # us)) d vs c)"
  by (induction us arbitrary: p a) auto

lemma phys_append:
  "phys sz pp p a (us @ vs) e \<longleftrightarrow>
     (\<exists>c. pseg sz pp p a us c \<and> phys sz pp (last (p # us)) c vs e)"
  by (induction us arbitrary: p a) auto

lemma pseg_bounds:
  "pseg sz pp p a xs c \<Longrightarrow> a \<le> c \<and> (\<forall>x \<in> set xs. a \<le> x \<and> x + sz x \<le> c \<and> x < c)"
proof (induction xs arbitrary: p a)
  case (Cons x xs)
  then have "x + sz x \<le> c" "\<forall>y \<in> set xs. x + sz x \<le> y \<and> y + sz y \<le> c \<and> y < c" "0 < sz x"
    by (auto simp: TLSF_MIN_BLOCK_SIZE_def)
  with Cons.prems show ?case
    by fastforce
qed simp

lemma phys_bounds:
  assumes "phys sz pp p a xs e"
  shows "a \<le> e" "x \<in> set xs \<Longrightarrow> a \<le> x" "x \<in> set xs \<Longrightarrow> x + sz x \<le> e" "x \<in> set xs \<Longrightarrow> x < e"
  using pseg_bounds [of sz pp p a xs e] assms by (auto simp: phys_def)

lemma phys_block:
  assumes "phys sz pp p a xs e" "x \<in> set xs"
  shows "TLSF_MIN_BLOCK_SIZE \<le> sz x" "sz x mod 8 = 0"
  using assms by (induction xs arbitrary: p a) auto

lemma pseg_frame [frame]:
  assumes "\<And>x. x \<in> set xs \<Longrightarrow> sz' x = sz x" "\<And>x. x \<in> set xs \<Longrightarrow> pp' x = pp x"
  shows "pseg sz' pp' p a xs c \<longleftrightarrow> pseg sz pp p a xs c"
  using assms by (induction xs arbitrary: p a) auto

lemma pseg_upd_notin [simp]:
  "x \<notin> set xs \<Longrightarrow> pseg (sz(x := v)) pp p a xs c \<longleftrightarrow> pseg sz pp p a xs c"
  "x \<notin> set xs \<Longrightarrow> pseg sz (pp(x := v)) p a xs c \<longleftrightarrow> pseg sz pp p a xs c"
  by (rule pseg_frame; auto)+

lemma phys_upd_notin [simp]:
  "x \<notin> set xs \<Longrightarrow> phys (sz(x := v)) pp p a xs e \<longleftrightarrow> phys sz pp p a xs e"
  "x \<notin> set xs \<Longrightarrow> x \<noteq> e \<Longrightarrow> phys sz (pp(x := v)) p a xs e \<longleftrightarrow> phys sz pp p a xs e"
  by (simp_all add: phys_def)

text \<open>Overwriting the back pointer of the first header of a tail.\<close>

lemma phys_repoint:
  assumes "phys sz pp p a xs e" "\<And>x. x \<in> set xs \<Longrightarrow> sz' x = sz x"
    and "\<And>x. a < x \<Longrightarrow> x \<le> e \<Longrightarrow> pp' x = pp x" "pp' a = q"
  shows "phys sz' pp' q a xs e"
proof (cases xs)
  case Nil
  then show ?thesis
    using assms by auto
next
  case (Cons x ys)
  with assms(1) have x: "a = x" "TLSF_MIN_BLOCK_SIZE \<le> sz x" "sz x mod 8 = 0"
    and ys: "phys sz pp x (x + sz x) ys e"
    by auto
  have "x < y \<and> y \<le> e" if "y \<in> set ys" for y
    using phys_bounds(2,4) [OF ys that] x(2) by (auto simp: TLSF_MIN_BLOCK_SIZE_def)
  moreover have "x < e"
    using phys_bounds(1) [OF ys] x(2) by (auto simp: TLSF_MIN_BLOCK_SIZE_def)
  ultimately have "pseg sz' pp' x (x + sz x) ys e \<and> pp' e = pp e"
    using ys assms(2,3) x(1) pseg_frame [of ys sz' sz pp' pp x "x + sz x" e] Cons
    by (auto simp: phys_def)
  then show ?thesis
    using ys assms(2,4) x Cons by (auto simp: phys_def)
qed

lemma phys_distinct: "phys sz pp p a xs e \<Longrightarrow> distinct xs \<and> sorted xs"
proof (induction xs arbitrary: p a)
  case (Cons x xs)
  then have ph: "phys sz pp x (x + sz x) xs e" "0 < sz x"
    by (auto simp: TLSF_MIN_BLOCK_SIZE_def)
  then have "x < y" if "y \<in> set xs" for y
    using phys_bounds(2) [OF ph(1) that] by linarith
  with Cons ph show ?case
    by (auto intro: less_imp_le)
qed simp

lemma pseg_distinct: "pseg sz pp p a xs c \<Longrightarrow> distinct xs"
proof (induction xs arbitrary: p a)
  case (Cons x xs)
  then have "pseg sz pp x (x + sz x) xs c" "0 < sz x"
    by (auto simp: TLSF_MIN_BLOCK_SIZE_def)
  then have "x \<notin> set xs"
    using pseg_bounds by fastforce
  with Cons show ?case
    by auto
qed simp

text \<open>Two blocks of a layout never overlap.\<close>

lemma phys_disjoint:
  assumes "phys sz pp p a xs e" "x \<in> set xs" "y \<in> set xs" "x < y"
  shows "x + sz x \<le> y"
proof -
  obtain us vs where xs: "xs = us @ x # vs"
    using assms(2) by (auto simp: in_set_conv_decomp)
  obtain c where us: "pseg sz pp p a us c" and vs: "phys sz pp (last (p # us)) c (x # vs) e"
    using assms(1) xs by (auto simp: phys_append)
  from us vs have "\<forall>z \<in> set us. z < x"
    using pseg_bounds by fastforce
  with assms(3,4) xs have "y \<in> set vs"
    by auto
  moreover from vs have "phys sz pp x (x + sz x) vs e"
    by simp
  ultimately show ?thesis
    using phys_bounds(2) by blast
qed

text \<open>Replacing the blocks between \<open>c\<close> and \<open>d\<close> by others that cover the same range.\<close>

lemma phys_splice:
  assumes "pseg sz pp p a us c" "phys sz pp q d vs e"
    and "pseg sz' pp' (last (p # us)) c new d"
    and "\<And>y. y \<in> set us \<Longrightarrow> sz' y = sz y" "\<And>y. y \<in> set vs \<Longrightarrow> sz' y = sz y"
    and "\<And>y. y \<in> set us \<Longrightarrow> pp' y = pp y" "\<And>y. d < y \<Longrightarrow> y \<le> e \<Longrightarrow> pp' y = pp y"
    and "pp' d = last (last (p # us) # new)"
  shows "phys sz' pp' p a (us @ new @ vs) e"
proof -
  have "pseg sz' pp' p a us c"
    using pseg_frame [of us sz' sz pp' pp] assms(1,4,6) by simp
  moreover have "phys sz' pp' (last (last (p # us) # new)) d vs e"
    using phys_repoint [OF assms(2,5,7,8)] .
  ultimately show ?thesis
    using assms(3) unfolding phys_append by blast
qed

section \<open>The invariant of a region\<close>

definition tlsf_sentinel :: "tlsf_pool \<Rightarrow> addr" where
  "tlsf_sentinel t = raw_area t + raw_size t - sizeof_tlsf_block"

definition free_blocks :: "tlsf_pool \<Rightarrow> addr list \<Rightarrow> addr set" where
  "free_blocks t xs = {x \<in> set xs. bfree t x}"

text \<open>\<open>tlsf_shape t xs S\<close>: the region is tiled by \<open>xs\<close> and the index holds \<open>S\<close>.  At rest the
  index holds all free blocks; inside an operation a block can be marked free and not yet be
  indexed.\<close>

definition tlsf_shape :: "tlsf_pool \<Rightarrow> addr list \<Rightarrow> addr set \<Rightarrow> bool" where
  "tlsf_shape t xs S \<longleftrightarrow>
     phys (bsz t) (bpp t) 0 (raw_area t) xs (tlsf_sentinel t)
     \<and> tlsf_idx t S
     \<and> \<not> bfree t (tlsf_sentinel t) \<and> bsz t (tlsf_sentinel t) = 0
     \<and> 0 < raw_area t \<and> sizeof_tlsf_block \<le> raw_size t \<and> raw_size t \<le> 2 ^ 30"

definition tlsf_wf :: "tlsf_pool \<Rightarrow> addr list \<Rightarrow> bool" where
  "tlsf_wf t xs \<longleftrightarrow> tlsf_shape t xs (free_blocks t xs)"

lemma tlsf_shapeD:
  assumes "tlsf_shape t xs S"
  shows "phys (bsz t) (bpp t) 0 (raw_area t) xs (tlsf_sentinel t)"
    "tlsf_idx t S"
    "\<not> bfree t (tlsf_sentinel t)" "bsz t (tlsf_sentinel t) = 0"
    "0 < raw_area t" "sizeof_tlsf_block \<le> raw_size t" "raw_size t \<le> 2 ^ 30"
  using assms by (simp_all add: tlsf_shape_def)

lemma tlsf_shape_block:
  assumes "tlsf_shape t xs S" "x \<in> set xs"
  shows "raw_area t \<le> x" "x + bsz t x \<le> tlsf_sentinel t" "x < tlsf_sentinel t" "x \<noteq> 0"
    "32 \<le> bsz t x" "bsz t x mod 8 = 0" "bsz t x < 2 ^ 30"
proof -
  note w = tlsf_shapeD [OF assms(1)]
  note p = phys_bounds [OF w(1)] phys_block [OF w(1) assms(2)]
  show a: "raw_area t \<le> x" "x + bsz t x \<le> tlsf_sentinel t" "x < tlsf_sentinel t"
    "32 \<le> bsz t x" "bsz t x mod 8 = 0"
    using p assms(2) by (auto simp: TLSF_MIN_BLOCK_SIZE_def)
  show "x \<noteq> 0"
    using a(1) w(5) by linarith
  show "bsz t x < 2 ^ 30"
    using a(1,2) w(6,7) by (simp add: tlsf_sentinel_def sizeof_tlsf_block_def)
qed

lemmas tlsf_wfD = tlsf_shapeD [OF tlsf_wf_def [THEN iffD1]]
lemmas tlsf_wf_block = tlsf_shape_block [OF tlsf_wf_def [THEN iffD1]]

text \<open>A block in its surroundings: everything a structural operation needs to know about the
  addresses before it, after it, and about the header that follows it.\<close>

lemma tlsf_shape_split:
  assumes "tlsf_shape t (us @ x # vs) S"
  shows "pseg (bsz t) (bpp t) 0 (raw_area t) us x"
    "phys (bsz t) (bpp t) x (x + bsz t x) vs (tlsf_sentinel t)"
    "bpp t x = last (0 # us)"
    "\<And>y. y \<in> set us \<Longrightarrow> y < x" "\<And>y. y \<in> set vs \<Longrightarrow> x + bsz t x \<le> y"
    "x + bsz t x \<le> tlsf_sentinel t"
    "vs = [] \<Longrightarrow> x + bsz t x = tlsf_sentinel t" "vs \<noteq> [] \<Longrightarrow> x + bsz t x = hd vs"
    "x \<notin> set us" "x \<notin> set vs"
    "\<And>y. y \<in> set us \<Longrightarrow> y + bsz t y \<le> x"
proof -
  note w = tlsf_shapeD [OF assms]
  obtain c where c: "pseg (bsz t) (bpp t) 0 (raw_area t) us c"
      "phys (bsz t) (bpp t) (last (0 # us)) c (x # vs) (tlsf_sentinel t)"
    using w(1) by (auto simp: phys_append)
  then have "c = x"
    by simp
  with c show us: "pseg (bsz t) (bpp t) 0 (raw_area t) us x"
    and vs: "phys (bsz t) (bpp t) x (x + bsz t x) vs (tlsf_sentinel t)"
    and "bpp t x = last (0 # us)"
    by auto
  have "32 \<le> bsz t x"
    using tlsf_shape_block(5) [OF assms] by simp
  show lt: "y < x" if "y \<in> set us" for y
    using pseg_bounds [OF us] that by auto
  show "y + bsz t y \<le> x" if "y \<in> set us" for y
    using pseg_bounds [OF us] that by auto
  show ge: "x + bsz t x \<le> y" if "y \<in> set vs" for y
    using phys_bounds(2) [OF vs that] .
  show "x + bsz t x \<le> tlsf_sentinel t"
    using phys_bounds(1) [OF vs] .
  show "vs = [] \<Longrightarrow> x + bsz t x = tlsf_sentinel t" "vs \<noteq> [] \<Longrightarrow> x + bsz t x = hd vs"
    using vs by (auto simp: neq_Nil_conv)
  show "x \<notin> set us" "x \<notin> set vs"
    using lt ge \<open>32 \<le> bsz t x\<close> by force+
qed

lemmas tlsf_wf_split = tlsf_shape_split [OF tlsf_wf_def [THEN iffD1]]

section \<open>Carving a block\<close>

text \<open>Splitting off the tail of \<open>x\<close>, at \<open>x + n\<close>, as a free block.  The allocation and the
  in-place growth both end this way, so the state reached just before the final insertion is
  described once by what its loads return.\<close>

lemma tlsf_wf_carve:
  assumes wf: "tlsf_wf t (us @ old @ vs)"
    and seg: "pseg (bsz t) (bpp t) 0 (raw_area t) us x"
    and tail: "phys (bsz t) (bpp t) q d vs (tlsf_sentinel t)"
    and n: "32 \<le> n" "n mod 8 = 0" "x + n + 32 \<le> d" "(d - x) mod 8 = 0"
    and idx: "tlsf_idx t1 S" "S = free_blocks t (us @ vs)"
    and sz: "bsz t1 = (bsz t)(x := n, x + n := d - (x + n))"
    and pp: "bpp t1 = (bpp t)(x + n := x, d := x + n)"
    and fr: "bfree t1 = (bfree t)(x := False, x + n := True)"
    and px: "bpp t x = last (0 # us)"
    and raw: "raw_area t1 = raw_area t" "raw_size t1 = raw_size t"
  shows "tlsf_wf (tlsf_insert_free_block_nolock t1 (x + n)) (us @ [x, x + n] @ vs)"
proof -
  note w = tlsf_wfD [OF wf]
  let ?t' = "tlsf_insert_free_block_nolock t1 (x + n)"
  have e: "tlsf_sentinel t1 = tlsf_sentinel t" "tlsf_sentinel ?t' = tlsf_sentinel t"
    by (simp_all add: tlsf_sentinel_def raw tlsf_loads)
  have us: "y < x" if "y \<in> set us" for y
    using pseg_bounds [OF seg] that by auto
  have vs: "d \<le> y" if "y \<in> set vs" for y
    using phys_bounds(2) [OF tail that] .
  have de: "d \<le> tlsf_sentinel t" "raw_area t \<le> x"
    using phys_bounds(1) [OF tail] pseg_bounds [OF seg] by auto
  have notin: "x \<notin> set us" "x \<notin> set vs" "x + n \<notin> set us" "x + n \<notin> set vs"
    using us vs n by force+
  have "phys (bsz t1) (bpp t1) 0 (raw_area t) (us @ [x, x + n] @ vs) (tlsf_sentinel t)"
  proof (rule phys_splice [OF seg tail])
    have "(d - (x + n)) mod 8 = 0"
      using n by presburger
    then show "pseg (bsz t1) (bpp t1) (last (0 # us)) x [x, x + n] d"
      using n px by (simp add: sz pp TLSF_MIN_BLOCK_SIZE_def)
    show "bsz t1 y = bsz t y" if "y \<in> set us" for y
      using that notin by (auto simp: sz)
    show "bsz t1 y = bsz t y" if "y \<in> set vs" for y
      using that notin by (auto simp: sz)
    show "bpp t1 y = bpp t y" if "y \<in> set us" for y
      using that us [OF that] n by (auto simp: pp)
    show "bpp t1 y = bpp t y" if "d < y" for y
      using that n by (auto simp: pp)
  qed (simp add: pp)
  moreover have "tlsf_idx ?t' (insert (x + n) S)"
  proof (rule tlsf_idx_insert [OF idx(1)])
    show "x + n \<notin> S"
      using notin by (auto simp: idx(2) free_blocks_def)
    show "bsz t1 (x + n) < 2 ^ 30"
      using n de w(6,7) by (simp add: sz tlsf_sentinel_def sizeof_tlsf_block_def)
  qed (use n in simp)
  moreover have "insert (x + n) S = free_blocks ?t' (us @ [x, x + n] @ vs)"
    using notin n by (auto simp: idx(2) free_blocks_def fr tlsf_loads)
  moreover have "\<not> bfree t1 (tlsf_sentinel t)" "bsz t1 (tlsf_sentinel t) = 0"
    using w(3,4) n de by (auto simp: fr sz)
  ultimately show ?thesis
    using w(5-7) by (simp add: tlsf_wf_def tlsf_shape_def e tlsf_loads raw)
qed

text \<open>Turning the header of \<open>x\<close> into one allocated block that reaches up to \<open>d\<close>.\<close>

lemma tlsf_wf_occupy:
  assumes wf: "tlsf_wf t (us @ old @ vs)"
    and seg: "pseg (bsz t) (bpp t) 0 (raw_area t) us x"
    and tail: "phys (bsz t) (bpp t) q d vs (tlsf_sentinel t)"
    and n: "x + 32 \<le> d" "(d - x) mod 8 = 0"
    and idx: "tlsf_idx t1 S" "S = free_blocks t (us @ vs)"
    and sz: "bsz t1 = (bsz t)(x := d - x)"
    and pp: "bpp t1 = (bpp t)(d := x)"
    and fr: "bfree t1 = (bfree t)(x := False)"
    and px: "bpp t x = last (0 # us)"
    and raw: "raw_area t1 = raw_area t" "raw_size t1 = raw_size t"
  shows "tlsf_wf t1 (us @ [x] @ vs)"
proof -
  note w = tlsf_wfD [OF wf]
  have e: "tlsf_sentinel t1 = tlsf_sentinel t"
    by (simp add: tlsf_sentinel_def raw)
  have us: "y < x" if "y \<in> set us" for y
    using pseg_bounds [OF seg] that by auto
  have vs: "d \<le> y" if "y \<in> set vs" for y
    using phys_bounds(2) [OF tail that] .
  have de: "d \<le> tlsf_sentinel t" "raw_area t \<le> x"
    using phys_bounds(1) [OF tail] pseg_bounds [OF seg] by auto
  have notin: "x \<notin> set us" "x \<notin> set vs"
    using us vs n by force+
  have "phys (bsz t1) (bpp t1) 0 (raw_area t) (us @ [x] @ vs) (tlsf_sentinel t)"
  proof (rule phys_splice [OF seg tail])
    show "pseg (bsz t1) (bpp t1) (last (0 # us)) x [x] d"
      using n px by (simp add: sz pp TLSF_MIN_BLOCK_SIZE_def)
    show "bsz t1 y = bsz t y" if "y \<in> set us" for y
      using that notin by (auto simp: sz)
    show "bsz t1 y = bsz t y" if "y \<in> set vs" for y
      using that notin by (auto simp: sz)
    show "bpp t1 y = bpp t y" if "y \<in> set us" for y
      using that us [OF that] n by (auto simp: pp)
    show "bpp t1 y = bpp t y" if "d < y" for y
      using that n by (auto simp: pp)
  qed (simp add: pp)
  moreover have "S = free_blocks t1 (us @ [x] @ vs)"
    using notin by (auto simp: idx(2) free_blocks_def fr)
  moreover have "\<not> bfree t1 (tlsf_sentinel t)" "bsz t1 (tlsf_sentinel t) = 0"
    using w(3,4) n de by (auto simp: fr sz)
  ultimately show ?thesis
    using w(5-7) idx(1) by (simp add: tlsf_wf_def tlsf_shape_def e raw)
qed

lemma free_blocks_remove:
  assumes "tlsf_wf t (us @ x # vs)" "bfree t x"
  shows "tlsf_idx (tlsf_remove_free_block_nolock t x) (free_blocks t (us @ vs))"
proof -
  have "free_blocks t (us @ vs) = free_blocks t (us @ x # vs) - {x}"
    using tlsf_wf_split(9,10) [OF assms(1)] by (auto simp: free_blocks_def)
  moreover have "x \<in> free_blocks t (us @ x # vs)"
    using assms(2) by (simp add: free_blocks_def)
  ultimately show ?thesis
    using tlsf_idx_remove [OF tlsf_wfD(2) [OF assms(1)]] tlsf_wf_block(7) [OF assms(1)] by simp
qed

text \<open>The stores that cut the range from \<open>x\<close> to \<open>d\<close> into an allocated block of size \<open>n\<close> and a free
  rest.\<close>

definition tlsf_cut :: "tlsf_pool \<Rightarrow> addr \<Rightarrow> nat \<Rightarrow> addr \<Rightarrow> tlsf_pool" where
  "tlsf_cut r x n d =
     set_size_and_flags d (word_of r d OR BLOCK_STATE_PREV_FREE)
       (set_prev_physical d (x + n) (set_prev_physical (x + n) x
         (set_size_and_flags (x + n) ((d - (x + n)) OR BLOCK_STATE_FREE)
           (set_size_and_flags x (n OR (word_of r x AND BLOCK_STATE_PREV_FREE)) r))))"

lemma cut_loads:
  assumes n: "n mod 8 = 0" "0 < n" "x + n < d" "(d - x) mod 8 = 0" "d - x < 2 ^ 64"
  shows "bsz (tlsf_cut r x n d) = (bsz r)(x := n, x + n := d - (x + n))"
    "bpp (tlsf_cut r x n d) = (bpp r)(x + n := x, d := x + n)"
    "bfree (tlsf_cut r x n d) = (bfree r)(x := False, x + n := True)"
    "bprev_free (tlsf_cut r x n d) = (bprev_free r)(x + n := False, d := True)"
    "bnx (tlsf_cut r x n d) = bnx r" "bpv (tlsf_cut r x n d) = bpv r"
    "blocks (tlsf_cut r x n d) = blocks r" "fl_bitmap (tlsf_cut r x n d) = fl_bitmap r"
    "sl_bitmap (tlsf_cut r x n d) = sl_bitmap r"
    "raw_area (tlsf_cut r x n d) = raw_area r" "raw_size (tlsf_cut r x n d) = raw_size r"
proof -
  have "(d - (x + n)) mod 8 = 0" "d - (x + n) < 2 ^ 64" "n < 2 ^ 64"
    using n by presburger (use n in linarith)+
  note al = blk_aligned [OF this(1,2)] blk_aligned [OF n(1) this(3)]
  have neq: "d \<noteq> x" "d \<noteq> x + n"
    using n by auto
  show "bsz (tlsf_cut r x n d) = (bsz r)(x := n, x + n := d - (x + n))"
    "bpp (tlsf_cut r x n d) = (bpp r)(x + n := x, d := x + n)"
    "bfree (tlsf_cut r x n d) = (bfree r)(x := False, x + n := True)"
    "bprev_free (tlsf_cut r x n d) = (bprev_free r)(x + n := False, d := True)"
    using neq n(2) by (auto simp: tlsf_cut_def tlsf_loads al fun_eq_iff bsz_def bfree_def bprev_free_def)
qed (simp_all add: tlsf_cut_def tlsf_loads)

text \<open>Cutting after one free block of the range was taken out of the index keeps the invariant.\<close>

lemma tlsf_wf_cut:
  assumes wf: "tlsf_wf t (us @ old @ vs)"
    and seg: "pseg (bsz t) (bpp t) 0 (raw_area t) us x"
    and tail: "phys (bsz t) (bpp t) q d vs (tlsf_sentinel t)"
    and n: "n mod 8 = 0" "32 \<le> n" "x + n + 32 \<le> d" "(d - x) mod 8 = 0"
    and idx: "tlsf_idx r (free_blocks t (us @ vs))"
    and keep: "bsz r = bsz t" "bpp r = bpp t" "bfree r = bfree t" "raw_area r = raw_area t"
      "raw_size r = raw_size t"
    and px: "bpp t x = last (0 # us)"
  shows "tlsf_wf (tlsf_insert_free_block_nolock (tlsf_cut r x n d) (x + n)) (us @ [x, x + n] @ vs)"
proof -
  note w = tlsf_wfD [OF wf]
  have "d \<le> raw_area t + raw_size t" "raw_area t \<le> x"
    using phys_bounds(1) [OF tail] pseg_bounds [OF seg] by (auto simp: tlsf_sentinel_def)
  then have "d - x < 2 ^ 64"
    using w(7) by simp
  then have cl: "0 < n" "x + n < d" "d - x < 2 ^ 64"
    using n by linarith+
  note C = cut_loads [OF n(1) cl(1,2) n(4) cl(3), of r, unfolded keep]
  have "y \<noteq> x" "y \<noteq> x + n" if "y \<in> set us \<union> set vs" for y
    using that pseg_bounds [OF seg] phys_bounds(2) [OF tail] cl n by force+
  then have "tlsf_idx (tlsf_cut r x n d) (free_blocks t (us @ vs))"
    by (intro tlsf_idx_frame [OF idx]) (auto simp: C keep free_blocks_def)
  then show ?thesis
    using tlsf_wf_carve [OF wf seg tail n(2,1,3,4) _ refl C(1-3) px C(10,11)] by blast
qed

lemma tlsf_take_split:
  assumes wf: "tlsf_wf t (us @ x # vs)" and fr: "bfree t x"
    and n: "n mod 8 = 0" "32 \<le> n" "n + 64 \<le> bsz t x"
  shows "tlsf_wf (tlsf_take_block t x n) (us @ [x, x + n] @ vs)"
    "bsz (tlsf_take_block t x n) = (bsz t)(x := n, x + n := bsz t x - n)"
    "bfree (tlsf_take_block t x n) = (bfree t)(x := False, x + n := True)"
    "bprev_free (tlsf_take_block t x n) = (bprev_free t)(x + n := False, x + bsz t x := True)"
    "raw_area (tlsf_take_block t x n) = raw_area t"
    "raw_size (tlsf_take_block t x n) = raw_size t"
proof -
  note sp = tlsf_wf_split [OF wf]
  have b: "bsz t x < 2 ^ 30" "bsz t x mod 8 = 0"
    using tlsf_wf_block [OF wf] by simp_all
  let ?d = "x + bsz t x" and ?r = "tlsf_remove_free_block_nolock t x"
  have "(bsz t x + 2 ^ 64 - n) mod 2 ^ 64 = bsz t x - n"
    using n b by (intro sub64) simp_all
  then have eq: "tlsf_take_block t x n = tlsf_insert_free_block_nolock (tlsf_cut ?r x n ?d) (x + n)"
    unfolding tlsf_take_block_def Let_def using n
    by (simp add: tlsf_cut_def tlsf_loads TLSF_MIN_BLOCK_SIZE_def sizeof_tlsf_block_def)
  show "tlsf_wf (tlsf_take_block t x n) (us @ [x, x + n] @ vs)"
    unfolding eq
    by (rule tlsf_wf_cut [where old = "[x]", OF _ sp(1,2) n(1,2) _ _ free_blocks_remove [OF wf fr]])
      (use wf n b sp(3) in \<open>simp_all add: tlsf_loads\<close>)
  have "0 < n" "x + n < ?d" "(?d - x) mod 8 = 0" "?d - x < 2 ^ 64"
    using n b by simp_all
  note C = cut_loads [OF n(1) this, of ?r]
  show "bsz (tlsf_take_block t x n) = (bsz t)(x := n, x + n := bsz t x - n)"
    "bfree (tlsf_take_block t x n) = (bfree t)(x := False, x + n := True)"
    "bprev_free (tlsf_take_block t x n) = (bprev_free t)(x + n := False, x + bsz t x := True)"
    "raw_area (tlsf_take_block t x n) = raw_area t" "raw_size (tlsf_take_block t x n) = raw_size t"
    by (simp_all add: eq C tlsf_loads)
qed

lemma tlsf_take_whole:
  assumes wf: "tlsf_wf t (us @ x # vs)" and fr: "bfree t x"
    and n: "n mod 8 = 0" "n \<le> bsz t x" "bsz t x < n + 64"
  shows "tlsf_wf (tlsf_take_block t x n) (us @ [x] @ vs)"
    "bsz (tlsf_take_block t x n) = bsz t"
    "bfree (tlsf_take_block t x n) = (bfree t)(x := False)"
    "bprev_free (tlsf_take_block t x n) = (bprev_free t)(x + bsz t x := False)"
    "raw_area (tlsf_take_block t x n) = raw_area t"
    "raw_size (tlsf_take_block t x n) = raw_size t"
proof -
  note sp = tlsf_wf_split [OF wf]
  have b: "bsz t x < 2 ^ 30" "bsz t x mod 8 = 0" "32 \<le> bsz t x"
    using tlsf_wf_block [OF wf] by simp_all
  define d where "d = x + bsz t x"
  define t1 where "t1 = set_size_and_flags d (word_of t d AND not64 BLOCK_STATE_PREV_FREE)
    (set_size_and_flags x (word_of t x AND not64 BLOCK_STATE_FREE)
      (tlsf_remove_free_block_nolock t x))"
  have dx: "d \<noteq> x"
    using b by (simp add: d_def)
  have "(bsz t x + 2 ^ 64 - n) mod 2 ^ 64 = bsz t x - n"
    using n b by (intro sub64) simp_all
  then have eq: "tlsf_take_block t x n = t1"
    unfolding tlsf_take_block_def Let_def using n dx
    by (simp add: t1_def d_def tlsf_loads TLSF_MIN_BLOCK_SIZE_def sizeof_tlsf_block_def)
  have sz: "bsz t1 = bsz t" "bfree t1 = (bfree t)(x := False)"
    "bprev_free t1 = (bprev_free t)(d := False)"
    using dx by (auto simp: t1_def tlsf_loads fun_eq_iff bsz_def bfree_def bprev_free_def)
  have szd: "bsz t1 = (bsz t)(x := d - x)"
    by (simp add: sz d_def)
  have raw: "raw_area t1 = raw_area t" "raw_size t1 = raw_size t"
    by (simp_all add: t1_def tlsf_loads)
  have pp: "bpp t1 = (bpp t)(d := x)"
  proof -
    have "bpp t d = x"
      using sp(2) by (cases vs) (auto simp: d_def)
    then show ?thesis
      by (auto simp: t1_def tlsf_loads)
  qed
  have idx: "tlsf_idx t1 (free_blocks t (us @ vs))"
    by (rule tlsf_idx_frame [OF free_blocks_remove [OF wf fr]])
      (use sz in \<open>auto simp: t1_def tlsf_loads\<close>)
  show "tlsf_wf (tlsf_take_block t x n) (us @ [x] @ vs)"
    unfolding eq
    by (rule tlsf_wf_occupy [where old = "[x]", OF _ sp(1) sp(2) [folded d_def] _ _ idx refl szd pp sz(2) sp(3) raw])
      (use wf b in \<open>simp_all add: d_def\<close>)
  show "bsz (tlsf_take_block t x n) = bsz t"
    "bfree (tlsf_take_block t x n) = (bfree t)(x := False)"
    "bprev_free (tlsf_take_block t x n) = (bprev_free t)(x + bsz t x := False)"
    "raw_area (tlsf_take_block t x n) = raw_area t" "raw_size (tlsf_take_block t x n) = raw_size t"
    by (simp_all add: eq sz d_def raw)
qed

section \<open>Releasing a block\<close>

lemma tlsf_shape_merge:
  assumes sh: "tlsf_shape t (us @ x # y # vs) S" and idx: "tlsf_idx t1 S'"
    and d: "d = y + bsz t y"
    and sz: "bsz t1 = (bsz t)(x := bsz t x + bsz t y)"
    and pp: "bpp t1 = (bpp t)(d := x)"
    and fr: "bfree t1 = (bfree t)(x := True)"
    and raw: "raw_area t1 = raw_area t" "raw_size t1 = raw_size t"
  shows "tlsf_shape t1 (us @ x # vs) S'"
proof -
  note w = tlsf_shapeD [OF sh]
  note sp = tlsf_shape_split [OF sh]
  have e: "tlsf_sentinel t1 = tlsf_sentinel t"
    by (simp add: tlsf_sentinel_def raw)
  have bx: "32 \<le> bsz t x" "bsz t x mod 8 = 0" "32 \<le> bsz t y" "bsz t y mod 8 = 0" "x < tlsf_sentinel t"
    using tlsf_shape_block [OF sh] by simp_all
  have y: "y = x + bsz t x" and tail: "phys (bsz t) (bpp t) y d vs (tlsf_sentinel t)"
    using sp(2) d by auto
  have vs: "d \<le> z" if "z \<in> set vs" for z
    using phys_bounds(2) [OF tail that] .
  have "phys (bsz t1) (bpp t1) 0 (raw_area t) (us @ [x] @ vs) (tlsf_sentinel t)"
  proof (rule phys_splice [OF sp(1) tail])
    show "pseg (bsz t1) (bpp t1) (last (0 # us)) x [x] d"
      using bx sp(3) y by (auto simp: sz pp d TLSF_MIN_BLOCK_SIZE_def mod_add_eq [symmetric])
    show "bsz t1 z = bsz t z" if "z \<in> set us" for z
      using that sp(9) by (auto simp: sz)
    show "bsz t1 z = bsz t z" if "z \<in> set vs" for z
      using vs [OF that] y bx by (auto simp: sz d)
    show "bpp t1 z = bpp t z" if "z \<in> set us" for z
      using sp(4) [OF that] y by (auto simp: pp d)
    show "bpp t1 z = bpp t z" if "d < z" for z
      using that by (auto simp: pp)
  qed (simp add: pp)
  moreover have "\<not> bfree t1 (tlsf_sentinel t)" "bsz t1 (tlsf_sentinel t) = 0"
    using w(3,4) bx(5) by (auto simp: fr sz)
  ultimately show ?thesis
    using w(5-7) idx by (simp add: tlsf_shape_def e raw)
qed

text \<open>A loose block: marked free, not indexed.\<close>

definition tlsf_loose :: "tlsf_pool \<Rightarrow> addr list \<Rightarrow> addr \<Rightarrow> addr list \<Rightarrow> bool" where
  "tlsf_loose t us x vs \<longleftrightarrow> tlsf_shape t (us @ x # vs) (free_blocks t (us @ vs)) \<and> bfree t x"

text \<open>Both merges absorb \<open>y\<close> into the block \<open>x\<close> physically before it, after one of the two
  was taken out of the index.\<close>

definition tlsf_absorb :: "tlsf_pool \<Rightarrow> addr \<Rightarrow> addr \<Rightarrow> addr \<Rightarrow> tlsf_pool" where
  "tlsf_absorb t x y z =
     set_prev_physical (y + bsz t y) x
       (set_size_and_flags x
         (((bsz t x + bsz t y) OR (word_of t x AND BLOCK_STATE_PREV_FREE)) OR BLOCK_STATE_FREE)
         (tlsf_remove_free_block_nolock t z))"

lemma tlsf_absorb:
  assumes sh: "tlsf_shape t (us @ x # y # vs) S" and z: "z = x \<or> z = y" "z \<in> S"
    and S: "S - {z} = free_blocks t (us @ vs)" and fx: "bfree t x"
  shows "tlsf_loose (tlsf_absorb t x y z) us x vs" "bfree (tlsf_absorb t x y z) = bfree t"
    "bprev_free (tlsf_absorb t x y z) = bprev_free t"
    "bsz (tlsf_absorb t x y z) = (bsz t)(x := bsz t x + bsz t y)"
    "bpp (tlsf_absorb t x y z) = (bpp t)(y + bsz t y := x)"
    "raw_area (tlsf_absorb t x y z) = raw_area t" "raw_size (tlsf_absorb t x y z) = raw_size t"
proof -
  let ?t1 = "tlsf_absorb t x y z"
  have b: "bsz t x < 2 ^ 30" "bsz t y < 2 ^ 30" "bsz t x mod 8 = 0" "bsz t y mod 8 = 0"
    using tlsf_shape_block [OF sh] by simp_all
  then have al: "(bsz t x + bsz t y) mod 8 = 0" "bsz t x + bsz t y < 2 ^ 64"
    by presburger (use b in simp)
  note bl = blk_aligned [OF al]
  have fr: "bfree ?t1 = (bfree t)(x := True)"
    by (simp add: tlsf_absorb_def tlsf_loads)
  also have eq: "\<dots> = bfree t"
    using fx by (auto simp: fun_eq_iff)
  finally show fr': "bfree ?t1 = bfree t" .
  show "bprev_free ?t1 = bprev_free t"
    by (auto simp: tlsf_absorb_def tlsf_loads bl fun_eq_iff bprev_free_def)
  show sz: "bsz ?t1 = (bsz t)(x := bsz t x + bsz t y)"
    by (simp add: tlsf_absorb_def tlsf_loads bl)
  show pp: "bpp ?t1 = (bpp t)(y + bsz t y := x)"
    by (simp add: tlsf_absorb_def tlsf_loads)
  show raw: "raw_area ?t1 = raw_area t" "raw_size ?t1 = raw_size t"
    by (simp_all add: tlsf_absorb_def tlsf_loads)
  have "x \<notin> set us" "x \<notin> set vs"
    using tlsf_shape_split(9,10) [OF sh] by auto
  moreover have "bsz t z < 2 ^ 30"
    using z(1) b by blast
  then have "tlsf_idx (tlsf_remove_free_block_nolock t z) (free_blocks t (us @ vs))"
    using tlsf_idx_remove [OF tlsf_shapeD(2) [OF sh] z(2)] unfolding S by blast
  ultimately have "tlsf_idx ?t1 (free_blocks t (us @ vs))"
    by (elim tlsf_idx_frame) (auto simp: tlsf_absorb_def tlsf_loads free_blocks_def)
  then have "tlsf_shape ?t1 (us @ x # vs) (free_blocks t (us @ vs))"
    by (rule tlsf_shape_merge [OF sh _ refl sz pp fr raw])
  then show "tlsf_loose ?t1 us x vs"
    using fx fr' by (simp add: tlsf_loose_def free_blocks_def)
qed

lemma tlsf_merge_next_loose:
  assumes lo: "tlsf_loose t us x vs" and r: "tlsf_merge_next t x (bsz t x) = (t1, sz1)"
  defines "vs1 \<equiv> (if vs \<noteq> [] \<and> bfree t (hd vs) then tl vs else vs)"
  shows "tlsf_loose t1 us x vs1" "bfree t1 = bfree t" "bprev_free t1 = bprev_free t"
    "bsz t1 = (bsz t)(x := sz1)"
    "sz1 = bsz t x + (if vs \<noteq> [] \<and> bfree t (hd vs) then bsz t (hd vs) else 0)"
    "raw_area t1 = raw_area t" "raw_size t1 = raw_size t" "bpp t1 x = bpp t x"
proof -
  have sh: "tlsf_shape t (us @ x # vs) (free_blocks t (us @ vs))" and fx: "bfree t x"
    using lo by (simp_all add: tlsf_loose_def)
  note sp = tlsf_shape_split [OF sh]
  have next_free: "bfree t (x + bsz t x) \<longleftrightarrow> vs \<noteq> [] \<and> bfree t (hd vs)"
    using sp(7,8) tlsf_shapeD(3) [OF sh] by (cases "vs = []") auto
  have flag: "word_of t (x + bsz t x) AND BLOCK_STATE_FREE \<noteq> 0 \<longleftrightarrow> bfree t (x + bsz t x)"
    by (simp add: bfree_def blk_free_def)
  consider (no) "\<not> (vs \<noteq> [] \<and> bfree t (hd vs))" | (yes) y ws where "vs = y # ws" "bfree t y"
    by (cases vs) auto
  then have "tlsf_loose t1 us x vs1 \<and> bfree t1 = bfree t \<and> bprev_free t1 = bprev_free t
    \<and> bsz t1 = (bsz t)(x := sz1)
    \<and> sz1 = bsz t x + (if vs \<noteq> [] \<and> bfree t (hd vs) then bsz t (hd vs) else 0)
    \<and> raw_area t1 = raw_area t \<and> raw_size t1 = raw_size t \<and> bpp t1 x = bpp t x"
  proof cases
    case no
    then have "t1 = t" "sz1 = bsz t x"
      using r flag next_free by (auto simp: tlsf_merge_next_def Let_def)
    then show ?thesis
      using no lo by (auto simp: vs1_def)
  next
    case yes
    have y: "y = x + bsz t x"
      using sp(8) yes by simp
    have a: "x + (bsz t x + bsz t y) = y + bsz t y"
      using y by linarith
    have "word_of t y AND BLOCK_STATE_FREE \<noteq> 0"
      using yes(2) by (simp add: bfree_def blk_free_def)
    then have "tlsf_merge_next t x (bsz t x) = (tlsf_absorb t x y y, bsz t x + bsz t y)"
      unfolding tlsf_merge_next_def Let_def y [symmetric] a by (simp add: tlsf_absorb_def tlsf_loads)
    with r have t1: "t1 = tlsf_absorb t x y y" "sz1 = bsz t x + bsz t y"
      by simp_all
    have "tlsf_shape t ((us @ [x]) @ y # ws) (free_blocks t (us @ vs))"
      using sh yes by simp
    from tlsf_shape_split(9,10) [OF this] tlsf_shape_block(5) [OF this, of y]
    have "y \<notin> set us" "y \<notin> set ws" "0 < bsz t y"
      by auto
    then have "free_blocks t (us @ vs) - {y} = free_blocks t (us @ ws)" "y \<in> free_blocks t (us @ vs)"
      using yes by (auto simp: free_blocks_def)
    note A = tlsf_absorb [OF sh [unfolded yes(1)] disjI2 [OF refl] this(2,1) [unfolded yes(1)] fx]
    have "x \<noteq> y + bsz t y"
      using \<open>0 < bsz t y\<close> y by linarith
    then have "bpp t1 x = bpp t x"
      by (simp add: t1 A(5))
    moreover have "vs1 = ws"
      using yes by (simp add: vs1_def)
    ultimately show ?thesis
      using A yes by (simp add: t1)
  qed
  then show "tlsf_loose t1 us x vs1" "bfree t1 = bfree t" "bprev_free t1 = bprev_free t"
    "bsz t1 = (bsz t)(x := sz1)"
    "sz1 = bsz t x + (if vs \<noteq> [] \<and> bfree t (hd vs) then bsz t (hd vs) else 0)"
    "raw_area t1 = raw_area t" "raw_size t1 = raw_size t" "bpp t1 x = bpp t x"
    by blast+
qed

text \<open>The predecessor is absorbed only when the block's own flag says it is free and the
  predecessor's header agrees.\<close>

lemma tlsf_merge_prev_loose:
  assumes lo: "tlsf_loose t us x vs" and r: "tlsf_merge_prev t x (bsz t x) = (t1, x1, sz1)"
  defines "m \<equiv> us \<noteq> [] \<and> bprev_free t x \<and> bfree t (last us)"
  shows "tlsf_loose t1 (if m then butlast us else us) x1 vs"
    "bfree t1 = bfree t" "bprev_free t1 = bprev_free t" "bsz t1 = (bsz t)(x1 := sz1)"
    "x1 = (if m then last us else x)" "sz1 = bsz t x + (if m then bsz t (last us) else 0)"
    "raw_area t1 = raw_area t" "raw_size t1 = raw_size t" "sz1 = bsz t1 x1"
proof -
  have sh: "tlsf_shape t (us @ x # vs) (free_blocks t (us @ vs))" and fx: "bfree t x"
    using lo by (simp_all add: tlsf_loose_def)
  note sp = tlsf_shape_split [OF sh]
  have "tlsf_loose t1 (if m then butlast us else us) x1 vs \<and>
    bfree t1 = bfree t \<and> bprev_free t1 = bprev_free t \<and> bsz t1 = (bsz t)(x1 := sz1) \<and>
    x1 = (if m then last us else x) \<and> sz1 = bsz t x + (if m then bsz t (last us) else 0) \<and>
    raw_area t1 = raw_area t \<and> raw_size t1 = raw_size t"
  proof (cases m)
    case False
    have "\<not> (bprev_free t x \<and> bpp t x \<noteq> 0 \<and> bfree t (bpp t x))"
      using False sp(3) by (auto simp: m_def split: if_splits)
    then have "tlsf_merge_prev t x (bsz t x) = (t, x, bsz t x)"
      by (auto simp: tlsf_merge_prev_def Let_def bprev_free_def blk_prev_free_def bfree_def
        blk_free_def)
    with r lo False show ?thesis
      by auto
  next
    case True
    then obtain ws w where us: "us = ws @ [w]"
      by (metis m_def rev_exhaust)
    have sh': "tlsf_shape t (ws @ w # x # vs) (free_blocks t (us @ vs))"
      using sh us by simp
    note sw = tlsf_shape_split [OF sh']
    have w: "bpp t x = w" "w \<noteq> 0" "x = w + bsz t w" "bfree t w"
      using sp(3) us tlsf_shape_block(4) [OF sh', of w] sw(2) True by (simp_all add: m_def)
    have a: "w + bsz t w + bsz t x = x + bsz t x"
      using w(3) by linarith
    have "word_of t x AND BLOCK_STATE_PREV_FREE \<noteq> 0" "word_of t w AND BLOCK_STATE_FREE \<noteq> 0"
      using True w by (auto simp: m_def bprev_free_def blk_prev_free_def bfree_def blk_free_def)
    then have "tlsf_merge_prev t x (bsz t x) = (tlsf_absorb t w x w, w, bsz t w + bsz t x)"
      unfolding tlsf_merge_prev_def Let_def w(1) a using w(2)
      by (simp add: tlsf_absorb_def tlsf_loads)
    with r have t1: "t1 = tlsf_absorb t w x w" "x1 = w" "sz1 = bsz t w + bsz t x"
      by auto
    have "free_blocks t (us @ vs) - {w} = free_blocks t (ws @ vs)" "w \<in> free_blocks t (us @ vs)"
      using w(4) us sw(9,10) by (auto simp: free_blocks_def)
    note A = tlsf_absorb [OF sh' disjI1 [OF refl] this(2,1) w(4)]
    show ?thesis
      using A True us by (simp add: t1)
  qed
  then show "tlsf_loose t1 (if m then butlast us else us) x1 vs"
    "bfree t1 = bfree t" "bprev_free t1 = bprev_free t" "bsz t1 = (bsz t)(x1 := sz1)"
    "x1 = (if m then last us else x)" "sz1 = bsz t x + (if m then bsz t (last us) else 0)"
    "raw_area t1 = raw_area t" "raw_size t1 = raw_size t" "sz1 = bsz t1 x1"
    by auto
qed

text \<open>Indexing a loose block completes the release.\<close>

lemma tlsf_loose_insert:
  assumes lo: "tlsf_loose t us x vs"
    and t1: "t1 = set_size_and_flags d (word_of t d OR BLOCK_STATE_PREV_FREE) t"
  shows "tlsf_wf (tlsf_insert_free_block_nolock t1 x) (us @ x # vs)"
proof -
  have sh: "tlsf_shape t (us @ x # vs) (free_blocks t (us @ vs))" and fx: "bfree t x"
    using lo by (simp_all add: tlsf_loose_def)
  have keep: "bsz t1 = bsz t" "bfree t1 = bfree t" "bpp t1 = bpp t"
    "raw_area t1 = raw_area t" "raw_size t1 = raw_size t"
    by (auto simp: t1 tlsf_loads fun_eq_iff bsz_def bfree_def)
  have "tlsf_idx t1 (free_blocks t (us @ vs))"
    by (rule tlsf_idx_frame [OF tlsf_shapeD(2) [OF sh]]) (simp_all add: t1 tlsf_loads bsz_def)
  then have "tlsf_idx (tlsf_insert_free_block_nolock t1 x) (insert x (free_blocks t (us @ vs)))"
    using tlsf_shape_split(9,10) [OF sh] tlsf_shape_block [OF sh, of x]
    by (intro tlsf_idx_insert) (auto simp: free_blocks_def keep)
  moreover have "insert x (free_blocks t (us @ vs)) =
    free_blocks (tlsf_insert_free_block_nolock t1 x) (us @ x # vs)"
    using fx by (auto simp: free_blocks_def keep tlsf_loads)
  ultimately show ?thesis
    using sh by (simp add: tlsf_wf_def tlsf_shape_def tlsf_sentinel_def keep tlsf_loads)
qed

text \<open>The layout after a release.\<close>

definition release_layout :: "tlsf_pool \<Rightarrow> addr list \<Rightarrow> addr \<Rightarrow> addr list \<Rightarrow> addr list" where
  "release_layout t us x vs =
     (let m = us \<noteq> [] \<and> bprev_free t x \<and> bfree t (last us)
      in (if m then butlast us else us) @ (if m then last us else x)
           # (if vs \<noteq> [] \<and> bfree t (hd vs) then tl vs else vs))"

lemma tlsf_release:
  assumes wf: "tlsf_wf t (us @ x # vs)" and nf: "\<not> bfree t x"
  defines "m \<equiv> us \<noteq> [] \<and> bprev_free t x \<and> bfree t (last us)"
    and "k \<equiv> vs \<noteq> [] \<and> bfree t (hd vs)"
  defines "x1 \<equiv> (if m then last us else x)"
    and "s1 \<equiv> (if m then bsz t (last us) else 0) + bsz t x + (if k then bsz t (hd vs) else 0)"
  shows "tlsf_wf (tlsf_release_block t x) (release_layout t us x vs)"
    "bfree (tlsf_release_block t x) = (bfree t)(x := True)"
    "bsz (tlsf_release_block t x) x1 = s1"
    "y \<noteq> x \<Longrightarrow> y \<noteq> x1 \<Longrightarrow> bsz (tlsf_release_block t x) y = bsz t y"
    "bprev_free (tlsf_release_block t x) = (bprev_free t)(x1 + s1 := True)"
    "raw_area (tlsf_release_block t x) = raw_area t"
    "raw_size (tlsf_release_block t x) = raw_size t"
proof -
  define t0 where "t0 = set_size_and_flags x (word_of t x OR BLOCK_STATE_FREE) t"
  have k0: "bsz t0 = bsz t" "bfree t0 = (bfree t)(x := True)" "bprev_free t0 = bprev_free t"
    "bpp t0 = bpp t" "raw_area t0 = raw_area t" "raw_size t0 = raw_size t"
    by (auto simp: t0_def tlsf_loads fun_eq_iff bsz_def bprev_free_def)
  note sp = tlsf_wf_split [OF wf]
  have fb: "free_blocks t0 (us @ vs) = free_blocks t (us @ x # vs)"
    using nf sp(9,10) by (auto simp: free_blocks_def k0)
  have sh: "tlsf_shape t (us @ x # vs) (free_blocks t (us @ x # vs))"
    using wf by (simp add: tlsf_wf_def)
  have "tlsf_idx t0 (free_blocks t0 (us @ vs))"
    unfolding fb by (rule tlsf_idx_frame [OF tlsf_shapeD(2) [OF sh]]) (simp_all add: t0_def tlsf_loads bsz_def)
  then have lo: "tlsf_loose t0 us x vs"
    using sh tlsf_shape_block(3) [OF sh, of x]
    by (auto simp: tlsf_loose_def tlsf_shape_def tlsf_sentinel_def k0)
  obtain t1 z1 where r1: "tlsf_merge_next t0 x (bsz t0 x) = (t1, z1)"
    by (metis surj_pair)
  note M1 = tlsf_merge_next_loose [OF lo r1]
  have kk: "(vs \<noteq> [] \<and> bfree t0 (hd vs)) = k"
    using sp(10) by (auto simp: k_def k0)
  have z1: "bsz t1 x = z1"
    using M1(4) by simp
  obtain t2 x2 z2 where r2: "tlsf_merge_prev t1 x (bsz t1 x) = (t2, x2, z2)"
    by (metis prod_cases3)
  note M2 = tlsf_merge_prev_loose [OF M1(1) r2]
  have mm: "(us \<noteq> [] \<and> bprev_free t1 x \<and> bfree t1 (last us)) = m"
    using sp(9) by (auto simp: m_def k0 M1)
  have x2: "x2 = x1" "z2 = s1"
    using M2(5,6) M1(4,5) sp(9) unfolding mm kk z1 by (auto simp: x1_def s1_def k0 m_def)
  define t3 where "t3 = set_size_and_flags (x1 + s1) (word_of t2 (x1 + s1) OR BLOCK_STATE_PREV_FREE) t2"
  have eq: "tlsf_release_block t x = tlsf_insert_free_block_nolock t3 x1"
    unfolding tlsf_release_block_def Let_def t0_def [symmetric] k0(1) [symmetric] r1 prod.case
      z1 [symmetric] r2 by (simp add: t3_def x2)
  have k3: "bsz t3 = bsz t2" "bfree t3 = bfree t2" "bprev_free t3 = (bprev_free t2)(x1 + s1 := True)"
    "raw_area t3 = raw_area t2" "raw_size t3 = raw_size t2"
    by (auto simp: t3_def tlsf_loads fun_eq_iff bsz_def bfree_def)
  show "tlsf_wf (tlsf_release_block t x) (release_layout t us x vs)"
    using tlsf_loose_insert [OF M2(1) [unfolded x2] t3_def] mm kk
    by (simp add: eq release_layout_def Let_def x1_def m_def k_def)
  show "bfree (tlsf_release_block t x) = (bfree t)(x := True)"
    by (simp add: eq tlsf_loads k3 M2(2) M1(2) k0)
  show "bsz (tlsf_release_block t x) x1 = s1"
    using M2(9) by (simp add: eq tlsf_loads k3 x2)
  show "bsz (tlsf_release_block t x) y = bsz t y" if "y \<noteq> x" "y \<noteq> x1"
    using that by (simp add: eq tlsf_loads k3 M2(4) M1(4) k0 x2)
  show "bprev_free (tlsf_release_block t x) = (bprev_free t)(x1 + s1 := True)"
    by (simp add: eq tlsf_loads k3 M2(3) M1(3) k0)
  show "raw_area (tlsf_release_block t x) = raw_area t" "raw_size (tlsf_release_block t x) = raw_size t"
    by (simp_all add: eq tlsf_loads k3 M2(7,8) M1(6,7) k0)
qed

section \<open>Growing a block in place\<close>

lemma tlsf_expand_refuses:
  assumes "tlsf_wf t (us @ x # vs)"
  shows "tlsf_expand_block t x n = None \<longleftrightarrow>
    \<not> (vs \<noteq> [] \<and> bfree t (hd vs) \<and> n \<le> bsz t x + bsz t (hd vs))"
proof -
  note sp = tlsf_wf_split [OF assms]
  have "bfree t (x + bsz t x) \<longleftrightarrow> vs \<noteq> [] \<and> bfree t (hd vs)"
    using sp(7,8) tlsf_wfD(3) [OF assms] by (cases "vs = []") auto
  moreover have "vs \<noteq> [] \<Longrightarrow> bsz t (x + bsz t x) = bsz t (hd vs)"
    using sp(8) by simp
  ultimately show ?thesis
    by (auto simp: tlsf_expand_block_def Let_def bfree_def blk_free_def not_less)
qed

lemma tlsf_expand_pair:
  assumes wf: "tlsf_wf t (us @ x # y # ws)" and nf: "\<not> bfree t x" and fy: "bfree t y"
  shows "y = x + bsz t x" "phys (bsz t) (bpp t) y (y + bsz t y) ws (tlsf_sentinel t)"
    "tlsf_idx (tlsf_remove_free_block_nolock t y) (free_blocks t (us @ ws))"
    "(y + bsz t y - x) mod 8 = 0" "y + bsz t y - x < 2 ^ 64" "x + 64 \<le> y + bsz t y"
proof -
  note sp = tlsf_wf_split [OF wf]
  show y: "y = x + bsz t x" and "phys (bsz t) (bpp t) y (y + bsz t y) ws (tlsf_sentinel t)"
    using sp(2) by auto
  have "tlsf_idx (tlsf_remove_free_block_nolock t y) (free_blocks t ((us @ [x]) @ ws))"
    using free_blocks_remove [of t "us @ [x]" y ws] wf fy by simp
  moreover have "free_blocks t ((us @ [x]) @ ws) = free_blocks t (us @ ws)"
    using nf by (auto simp: free_blocks_def)
  ultimately show "tlsf_idx (tlsf_remove_free_block_nolock t y) (free_blocks t (us @ ws))"
    by simp
  have b: "bsz t x mod 8 = 0" "bsz t y mod 8 = 0" "bsz t x < 2 ^ 30" "bsz t y < 2 ^ 30"
    "32 \<le> bsz t x" "32 \<le> bsz t y"
    using tlsf_wf_block [OF wf] by simp_all
  have "y + bsz t y - x = bsz t x + bsz t y"
    using y by linarith
  then show "(y + bsz t y - x) mod 8 = 0" "y + bsz t y - x < 2 ^ 64" "x + 64 \<le> y + bsz t y"
    using b y by (simp_all add: mod_add_eq [symmetric])
qed

lemma tlsf_expand_split:
  assumes wf: "tlsf_wf t (us @ x # y # ws)" and nf: "\<not> bfree t x" and fy: "bfree t y"
    and n: "n mod 8 = 0" "32 \<le> n" "x + n + 64 \<le> y + bsz t y"
  obtains t' where "tlsf_expand_block t x n = Some t'" "tlsf_wf t' (us @ [x, x + n] @ ws)"
    "bsz t' = (bsz t)(x := n, x + n := y + bsz t y - (x + n))"
    "bfree t' = (bfree t)(x := False, x + n := True)"
    "bprev_free t' = (bprev_free t)(x + n := False, y + bsz t y := True)"
    "raw_area t' = raw_area t" "raw_size t' = raw_size t"
proof -
  note P = tlsf_expand_pair [OF wf nf fy]
  note sp = tlsf_wf_split [OF wf]
  let ?r = "tlsf_remove_free_block_nolock t y" and ?d = "y + bsz t y"
  let ?t' = "tlsf_insert_free_block_nolock (tlsf_cut ?r x n ?d) (x + n)"
  have fl: "word_of t (x + bsz t x) AND BLOCK_STATE_FREE \<noteq> 0"
    using fy P(1) by (simp add: bfree_def blk_free_def)
  have rem: "bsz t x + bsz t y - n = ?d - (x + n)" "x + n + (?d - (x + n)) = ?d"
    using P(1) n by linarith+
  have eq: "tlsf_expand_block t x n = Some ?t'"
    unfolding tlsf_expand_block_def Let_def P(1) [symmetric] rem
    using fl [folded P(1)] n rem P(1)
    by (simp add: tlsf_cut_def tlsf_loads TLSF_MIN_BLOCK_SIZE_def sizeof_tlsf_block_def)
  have "0 < n" "x + n < ?d"
    using n by linarith+
  note C = cut_loads [OF n(1) this P(4,5), of ?r]
  have wf': "tlsf_wf ?t' (us @ [x, x + n] @ ws)"
    by (rule tlsf_wf_cut [where old = "[x, y]", OF _ sp(1) P(2) n(1,2) _ P(4,3)])
      (use wf n sp(3) in \<open>simp_all add: tlsf_loads\<close>)
  show thesis
    by (rule that [OF eq wf']) (simp_all add: C tlsf_loads)
qed

lemma tlsf_expand_whole:
  assumes wf: "tlsf_wf t (us @ x # y # ws)" and nf: "\<not> bfree t x" and fy: "bfree t y"
    and n: "x + n \<le> y + bsz t y" "y + bsz t y < x + n + 64"
  obtains t' where "tlsf_expand_block t x n = Some t'" "tlsf_wf t' (us @ [x] @ ws)"
    "bsz t' = (bsz t)(x := bsz t x + bsz t y)" "bfree t' = bfree t"
    "bprev_free t' = (bprev_free t)(y + bsz t y := False)"
    "raw_area t' = raw_area t" "raw_size t' = raw_size t"
proof -
  note P = tlsf_expand_pair [OF wf nf fy]
  note sp = tlsf_wf_split [OF wf]
  define d s where "d = y + bsz t y" and "s = bsz t x + bsz t y"
  define r where "r = tlsf_remove_free_block_nolock t y"
  define t' where "t' = set_size_and_flags d (word_of r d AND not64 BLOCK_STATE_PREV_FREE)
    (set_prev_physical d x (set_size_and_flags x (s OR (word_of r x AND BLOCK_STATE_PREV_FREE)) r))"
  have d: "x + s = d" "s = d - x" "s mod 8 = 0" "s < 2 ^ 64" "64 \<le> s"
    using P(1,4,5,6) by (auto simp: d_def s_def)
  have fl: "word_of t y AND BLOCK_STATE_FREE \<noteq> 0"
    using fy by (simp add: bfree_def blk_free_def)
  have nn: "\<not> s < n" "\<not> TLSF_MIN_BLOCK_SIZE + sizeof_tlsf_block \<le> s - n"
    using n d by (auto simp: d_def [symmetric] TLSF_MIN_BLOCK_SIZE_def sizeof_tlsf_block_def)
  have dx: "d \<noteq> x"
    using d by auto
  have eq: "tlsf_expand_block t x n = Some t'"
    unfolding tlsf_expand_block_def Let_def P(1) [symmetric] s_def [symmetric] r_def [symmetric] d(1)
    using fl nn dx by (simp add: t'_def tlsf_loads)
  note al = blk_aligned [OF d(3,4)]
  have k: "bsz t' = (bsz t)(x := s)" "bfree t' = bfree t" "bpp t' = (bpp t)(d := x)"
    "bprev_free t' = (bprev_free t)(d := False)" "raw_area t' = raw_area t" "raw_size t' = raw_size t"
    using dx nf by (auto simp: t'_def r_def tlsf_loads al fun_eq_iff bsz_def bfree_def bprev_free_def)
  have "bfree t' = (bfree t)(x := False)"
    using k(2) nf by (auto simp: fun_eq_iff)
  moreover have "tlsf_idx t' (free_blocks t (us @ ws))"
    using sp(9,10) by (intro tlsf_idx_frame [OF P(3)])
      (auto simp: free_blocks_def t'_def r_def tlsf_loads, auto simp: bsz_def)
  ultimately have "tlsf_wf t' (us @ [x] @ ws)"
    using tlsf_wf_occupy [where old = "[x, y]", OF _ sp(1) P(2) [folded d_def] _ _ _ refl _ k(3) _ sp(3) k(5,6)]
      wf k(1) d by simp
  then show thesis
    using that [OF eq] k by (simp add: d_def s_def)
qed

section \<open>Creation\<close>

lemma tlsf_create_null:
  "(if custom_mem \<noteq> 0 then custom_mem else sys_mem) = 0
    \<Longrightarrow> tlsf_create_pool_custom m0 sz custom_mem sys_mem = None"
  by (simp add: tlsf_create_pool_custom_def Let_def)

lemma tlsf_create:
  assumes raw: "raw_mem = (if custom_mem \<noteq> 0 then custom_mem else sys_mem)" "raw_mem \<noteq> 0"
    and n: "n = align_up8 sz" "64 \<le> n" "n \<le> 2 ^ 30"
  obtains t where "tlsf_create_pool_custom m0 sz custom_mem sys_mem = Some t"
    "tlsf_wf t [raw_mem + sizeof_tlsf_pool]" "bsz t (raw_mem + sizeof_tlsf_pool) = n - 32"
    "bfree t (raw_mem + sizeof_tlsf_pool)" "\<not> bprev_free t (raw_mem + sizeof_tlsf_pool)"
    "\<not> bprev_free t (tlsf_sentinel t)"
    "raw_area t = raw_mem + sizeof_tlsf_pool" "raw_size t = n"
proof -
  define b where "b = raw_mem + sizeof_tlsf_pool"
  define e where "e = b + (n - 32)"
  define t0 where "t0 = set_prev_physical e b (set_size_and_flags e 0 (set_prev_free b 0 (set_next_free b 0
    (set_prev_physical b 0 (set_size_and_flags b ((n - 32) OR BLOCK_STATE_FREE)
    \<lparr>fl_bitmap = 0, sl_bitmap = (\<lambda>_. 0), blocks = (\<lambda>_ _. 0), raw_area = b, raw_size = n, mem = m0\<rparr>)))))"
  obtain fl sl where m: "tlsf_mapping_insert (n - 32) = (fl, sl)"
    by (metis surj_pair)
  define t where "t = set_bucket fl sl b (t0\<lparr>fl_bitmap := push_bit fl 1,
    sl_bitmap := (\<lambda>_. 0)(fl := push_bit sl 1)\<rparr>)"
  have "n mod 8 = 0"
    using n(1) by simp
  then have al: "(n - 32) mod 8 = 0" "n - 32 < 2 ^ 64" and eb: "e \<noteq> b" and bn: "b \<noteq> 0"
    using n(2,3) raw(2) by (simp_all add: e_def b_def) presburger
  note A = blk_aligned [OF al]
  have w: "(n + 2 ^ 64 - sizeof_tlsf_block) mod 2 ^ 64 = n - 32"
    using n sub64 [of 32 n] by (simp add: sizeof_tlsf_block_def)
  have L: "bsz t0 b = n - 32" "bsz t0 e = 0" "bfree t0 b" "\<not> bfree t0 e" "bpp t0 b = 0" "bpp t0 e = b"
    "\<not> bprev_free t0 b" "\<not> bprev_free t0 e" "bnx t0 b = 0" "bpv t0 b = 0"
    "fl_bitmap t0 = 0" "sl_bitmap t0 = (\<lambda>_. 0)" "blocks t0 = (\<lambda>_ _. 0)" "raw_area t0 = b" "raw_size t0 = n"
    using eb by (simp_all add: t0_def tlsf_loads A)
  have eq: "tlsf_create_pool_custom m0 sz custom_mem sys_mem = Some t"
    unfolding tlsf_create_pool_custom_def Let_def raw(1) [symmetric] n(1) [symmetric] b_def [symmetric] w
    using raw(2) eb by (simp add: tlsf_loads A e_def [symmetric] m t_def t0_def)
  have "n - 32 < 2 ^ 30"
    using n(2,3) by linarith
  then have sm: "fl < 32" "sl < 32"
    using mapping_insert_bounds [OF m] by (simp_all add: TLSF_FL_MAX_def TLSF_SL_COUNT_def)
  have "tlsf_buckets t {b} (\<lambda>f s. if f = fl \<and> s = sl then [b] else [])"
    using sm bn L m unfolding tlsf_buckets_def t_def
    by (auto simp: tlsf_loads bit_single word_nonzero_bit)
  moreover have sent: "tlsf_sentinel t = e"
    using n by (simp add: tlsf_sentinel_def t_def tlsf_loads L e_def sizeof_tlsf_block_def)
  moreover have "free_blocks t [b] = {b}"
    by (auto simp: free_blocks_def t_def tlsf_loads L)
  ultimately have wf: "tlsf_wf t [b]"
    using n bn al L
    by (auto simp: tlsf_wf_def tlsf_shape_def tlsf_idx_def t_def tlsf_loads e_def
      TLSF_MIN_BLOCK_SIZE_def sizeof_tlsf_block_def)
  show thesis
    using that [OF eq wf [unfolded b_def]] L sent by (simp add: t_def tlsf_loads b_def)
qed

section \<open>Returning a cached block\<close>

text \<open>A block kept aside by a thread cache is an allocated block as far as the region is concerned.
  \<open>tls_cache_flush_pool\<close> and the cache-mismatch path of \<open>mp_alloc_internal\<close> return it by marking it
  free and linking it, without coalescing.\<close>

definition tlsf_return_cached :: "tlsf_pool \<Rightarrow> addr \<Rightarrow> tlsf_pool" where
  "tlsf_return_cached t block =
     (let t = set_size_and_flags block (word_of t block OR BLOCK_STATE_FREE) t
      in tlsf_insert_free_block t block)"

lemma tlsf_return_cached:
  assumes wf: "tlsf_wf t xs" and x: "x \<in> set xs" and nf: "\<not> bfree t x"
  shows "tlsf_wf (tlsf_return_cached t x) xs" "bsz (tlsf_return_cached t x) = bsz t"
    "bfree (tlsf_return_cached t x) = (bfree t)(x := True)"
proof -
  define t0 where "t0 = set_size_and_flags x (word_of t x OR BLOCK_STATE_FREE) t"
  have k0: "bsz t0 = bsz t" "bfree t0 = (bfree t)(x := True)" "bpp t0 = bpp t"
    "raw_area t0 = raw_area t" "raw_size t0 = raw_size t"
    by (auto simp: t0_def tlsf_loads fun_eq_iff bsz_def)
  have eq: "tlsf_return_cached t x = tlsf_insert_free_block_nolock t0 x"
    by (simp add: tlsf_return_cached_def tlsf_insert_free_block_def t0_def)
  note w = tlsf_wfD [OF wf] and b = tlsf_wf_block [OF wf x]
  have "tlsf_idx t0 (free_blocks t xs)"
    by (rule tlsf_idx_frame [OF w(2)]) (simp_all add: t0_def tlsf_loads bsz_def)
  then have "tlsf_idx (tlsf_return_cached t x) (insert x (free_blocks t xs))"
    unfolding eq using nf b by (intro tlsf_idx_insert) (simp_all add: free_blocks_def k0)
  moreover have "insert x (free_blocks t xs) = free_blocks (tlsf_return_cached t x) xs"
    using x by (auto simp: free_blocks_def eq tlsf_loads k0)
  ultimately show "tlsf_wf (tlsf_return_cached t x) xs"
    using w b(3) by (auto simp: tlsf_wf_def tlsf_shape_def tlsf_sentinel_def eq tlsf_loads k0)
  show "bsz (tlsf_return_cached t x) = bsz t" "bfree (tlsf_return_cached t x) = (bfree t)(x := True)"
    by (simp_all add: eq tlsf_loads k0)
qed

section \<open>Full coalescing\<close>

text \<open>Without a thread cache in between, no two neighbouring blocks are ever both free, and the
  \<open>PREV_FREE\<close> flag of every block tells exactly whether its physical predecessor is free.  (Nothing
  is said of the flag of the sentinel, which no operation reads and which creation leaves clear.)\<close>

fun fseg :: "(addr \<Rightarrow> bool) \<Rightarrow> (addr \<Rightarrow> bool) \<Rightarrow> bool \<Rightarrow> addr list \<Rightarrow> bool" where
  "fseg fr pf p [] \<longleftrightarrow> True"
| "fseg fr pf p (x # xs) \<longleftrightarrow> pf x = p \<and> \<not> (p \<and> fr x) \<and> fseg fr pf (fr x) xs"

definition coalesced :: "tlsf_pool \<Rightarrow> addr list \<Rightarrow> bool" where
  "coalesced t xs \<longleftrightarrow> fseg (bfree t) (bprev_free t) False xs"

lemma fseg_append:
  "fseg fr pf p (us @ vs) \<longleftrightarrow> fseg fr pf p us \<and> fseg fr pf (if us = [] then p else fr (last us)) vs"
  by (induction us arbitrary: p) auto

lemma fseg_all_free: "fseg fr pf p xs \<Longrightarrow> \<forall>x \<in> set xs. fr x \<Longrightarrow> length xs \<le> (if p then 0 else 1)"
proof (induction xs arbitrary: p)
  case (Cons x xs)
  then show ?case
    using Cons.IH [of True] by auto
qed simp

lemma fseg_frame [frame]:
  assumes "\<And>x. x \<in> set xs \<Longrightarrow> fr' x = fr x" "\<And>x. x \<in> set xs \<Longrightarrow> pf' x = pf x"
  shows "fseg fr' pf' p xs \<longleftrightarrow> fseg fr pf p xs"
  using assms by (induction xs arbitrary: p) auto

lemma fseg_reflag:
  assumes "fseg fr pf p vs" "vs \<noteq> []" "distinct vs" "\<not> (q \<and> fr (hd vs))"
    and "\<And>x. x \<in> set vs \<Longrightarrow> fr' x = fr x" "\<And>x. x \<in> set (tl vs) \<Longrightarrow> pf' x = pf x" "pf' (hd vs) = q"
  shows "fseg fr' pf' q vs"
  using assms fseg_frame [of "tl vs" fr' fr pf' pf] by (cases vs) auto

text \<open>A state change that rewrites the middle of a coalesced layout and tells the header after it
  whether its new predecessor is free.\<close>

lemma coalesced_splice:
  assumes co: "coalesced t (us @ old @ vs)" "distinct (us @ old @ vs)" "old \<noteq> []"
    and nx: "d = (if vs = [] then tlsf_sentinel t else hd vs)"
    and new: "fseg (bfree t') (bprev_free t') (us \<noteq> [] \<and> bfree t (last us)) new" "new \<noteq> []"
    and fl: "\<And>y. y \<in> set us \<union> set vs \<Longrightarrow> bfree t' y = bfree t y"
      "\<And>y. y \<in> set us \<union> set (tl vs) \<Longrightarrow> bprev_free t' y = bprev_free t y"
    and nd: "bprev_free t' d = bfree t' (last new)" "vs \<noteq> [] \<Longrightarrow> \<not> (bfree t' (last new) \<and> bfree t (hd vs))"
  shows "coalesced t' (us @ new @ vs)"
proof -
  let ?p = "us \<noteq> [] \<and> bfree t (last us)"
  have u: "fseg (bfree t) (bprev_free t) False us"
    and v: "fseg (bfree t) (bprev_free t) (bfree t (last old)) vs"
    using co(1,3) by (auto simp: coalesced_def fseg_append)
  have "fseg (bfree t') (bprev_free t') False us"
    using u fseg_frame [of us "bfree t'" "bfree t" "bprev_free t'" "bprev_free t"] fl by simp
  moreover have "(if us = [] then False else bfree t' (last us)) = ?p"
    using fl(1) by simp
  moreover have "fseg (bfree t') (bprev_free t') (bfree t' (last new)) vs"
  proof (cases "vs = []")
    case False
    then show ?thesis
      using fseg_reflag [OF v False _ nd(2) [OF False]] co(2) fl nd(1) nx(1) by simp
  qed simp
  ultimately have "fseg (bfree t') (bprev_free t') False (us @ new @ vs)"
    using new by (simp add: fseg_append)
  then show ?thesis
    by (simp add: coalesced_def)
qed

lemma coalesced_at:
  assumes "coalesced t (us @ x # vs)"
  shows "bprev_free t x = (us \<noteq> [] \<and> bfree t (last us))" "us \<noteq> [] \<Longrightarrow> bfree t x \<Longrightarrow> \<not> bfree t (last us)"
    "vs \<noteq> [] \<Longrightarrow> bfree t x \<Longrightarrow> \<not> bfree t (hd vs)"
  using assms by (cases vs; auto simp: coalesced_def fseg_append)+

text \<open>The header following a block.\<close>

lemma tlsf_wf_next:
  assumes "tlsf_wf t (us @ x # vs)"
  shows "x + bsz t x = (if vs = [] then tlsf_sentinel t else hd vs)"
    "distinct (us @ x # vs)" "tlsf_sentinel t \<notin> set (us @ x # vs)"
    "x + bsz t x \<notin> set us" "x + bsz t x \<noteq> x" "x + bsz t x \<notin> set (tl vs)"
    "vs \<noteq> [] \<Longrightarrow> x + bsz t x \<noteq> tlsf_sentinel t"
proof -
  note sp = tlsf_wf_split [OF assms] and b = tlsf_wf_block [OF assms]
  show n: "x + bsz t x = (if vs = [] then tlsf_sentinel t else hd vs)"
    using sp(7,8) by auto
  show d: "distinct (us @ x # vs)"
    using phys_distinct [OF tlsf_wfD(1) [OF assms]] by blast
  show s: "tlsf_sentinel t \<notin> set (us @ x # vs)"
    using b(3) less_irrefl by blast
  show "x + bsz t x \<notin> set us" "x + bsz t x \<noteq> x"
    using sp(4) b(5) [of x] by force+
  show "x + bsz t x \<notin> set (tl vs)"
    using n d s by (cases vs) auto
  show "vs \<noteq> [] \<Longrightarrow> x + bsz t x \<noteq> tlsf_sentinel t"
    using n s by (cases vs) auto
qed

lemma tlsf_take_whole_coalesced:
  assumes wf: "tlsf_wf t (us @ x # vs)" and fr: "bfree t x"
    and n: "n mod 8 = 0" "n \<le> bsz t x" "bsz t x < n + 64"
    and co: "coalesced t (us @ x # vs)"
  shows "coalesced (tlsf_take_block t x n) (us @ [x] @ vs)"
proof -
  note T = tlsf_take_whole [OF wf fr n] and N = tlsf_wf_next [OF wf] and C = coalesced_at [OF co]
  show ?thesis
    by (rule coalesced_splice [where old = "[x]" and d = "x + bsz t x", OF _ _ _ N(1)])
      (use co N C(1) in \<open>auto simp: T(3,4) tlsf_sentinel_def T(5,6)\<close>)
qed

lemma tlsf_take_split_coalesced:
  assumes wf: "tlsf_wf t (us @ x # vs)" and fr: "bfree t x"
    and n: "n mod 8 = 0" "32 \<le> n" "n + 64 \<le> bsz t x"
    and co: "coalesced t (us @ x # vs)"
  shows "coalesced (tlsf_take_block t x n) (us @ [x, x + n] @ vs)"
proof -
  note T = tlsf_take_split [OF wf fr n] and N = tlsf_wf_next [OF wf] and C = coalesced_at [OF co]
  note N' = tlsf_wf_next [OF T(1) [unfolded append_Cons append_Nil]]
  have s: "tlsf_sentinel (tlsf_take_block t x n) = tlsf_sentinel t"
    by (simp add: tlsf_sentinel_def T(5,6))
  have a: "x + n \<noteq> x + bsz t x" "n \<noteq> 0"
    using n by auto
  show ?thesis
    by (rule coalesced_splice [where old = "[x]" and d = "x + bsz t x", OF _ _ _ N(1)])
      (use co N N'(2,3) C fr a s in \<open>auto simp: T(3,4) dest: list.set_sel(2)\<close>)
qed

lemma tlsf_release_coalesced:
  assumes wf: "tlsf_wf t (us @ x # vs)" and nf: "\<not> bfree t x" and co: "coalesced t (us @ x # vs)"
  shows "coalesced (tlsf_release_block t x) (release_layout t us x vs)"
proof -
  define m k where "m = (us \<noteq> [] \<and> bprev_free t x \<and> bfree t (last us))"
    and "k = (vs \<noteq> [] \<and> bfree t (hd vs))"
  define us0 vs0 x1 where "us0 = (if m then butlast us else us)"
    and "vs0 = (if k then tl vs else vs)" and "x1 = (if m then last us else x)"
  define old where "old = (if m then [last us] else []) @ [x] @ (if k then [hd vs] else [])"
  define t' where "t' = tlsf_release_block t x"
  note R = tlsf_release [OF wf nf, folded m_def k_def, folded x1_def t'_def]
  have lay: "release_layout t us x vs = us0 @ x1 # vs0"
    by (simp add: release_layout_def Let_def m_def k_def us0_def vs0_def x1_def)
  have eq: "us @ x # vs = us0 @ old @ vs0"
    using append_butlast_last_id [of us] list.collapse [of vs]
    by (auto simp: us0_def vs0_def old_def m_def k_def)
  note N = tlsf_wf_next [OF R(1) [unfolded lay]] and W = tlsf_wf_next [OF wf] and C = coalesced_at [OF co]
  have s: "tlsf_sentinel t' = tlsf_sentinel t"
    by (simp add: tlsf_sentinel_def R(6,7))
  have mm: "m = (us \<noteq> [] \<and> bfree t (last us))"
    using C(1) by (auto simp: m_def)
  have prev: "bprev_free t x1 = (us0 \<noteq> [] \<and> bfree t (last us0)) \<and> \<not> (us0 \<noteq> [] \<and> bfree t (last us0))"
  proof (cases m)
    case True
    then have "us = us0 @ [x1]"
      by (simp add: us0_def x1_def m_def)
    with co have "coalesced t (us0 @ x1 # x # vs)"
      by simp
    from coalesced_at(1,2) [OF this] show ?thesis
      using True by (auto simp: x1_def m_def)
  qed (use C(1) mm in \<open>auto simp: us0_def x1_def\<close>)
  have nxt: "vs0 \<noteq> [] \<Longrightarrow> \<not> bfree t (hd vs0)"
  proof (cases k)
    case True
    then have "coalesced t ((us @ [x]) @ hd vs # vs0)"
      using co by (simp add: vs0_def k_def)
    from coalesced_at(3) [OF this] show "vs0 \<noteq> [] \<Longrightarrow> \<not> bfree t (hd vs0)"
      using True by (auto simp: k_def)
  qed (auto simp: vs0_def k_def)
  have x1t: "bfree t' x1"
    using m_def by (auto simp: R(2) x1_def)
  have nx: "x \<notin> set us0 \<union> set vs0"
    using W(2) unfolding eq by (auto simp: old_def)
  have pf: "bprev_free t' = (bprev_free t)(x1 + bsz t' x1 := True)"
    by (simp only: R(3,5))
  have "coalesced t' (us0 @ [x1] @ vs0)"
  proof (rule coalesced_splice [where t = t and old = old, OF _ _ _ N(1) [unfolded s]])
    show "coalesced t (us0 @ old @ vs0)" "distinct (us0 @ old @ vs0)"
      using co W(2) unfolding eq by blast+
    show "fseg (bfree t') (bprev_free t') (us0 \<noteq> [] \<and> bfree t (last us0)) [x1]"
      using prev N(5) by (auto simp: pf)
    show "bfree t' y = bfree t y" if "y \<in> set us0 \<union> set vs0" for y
      using that nx by (auto simp: R(2))
    show "bprev_free t' y = bprev_free t y" if "y \<in> set us0 \<union> set (tl vs0)" for y
      using that N(4,6) by (auto simp: pf)
    show "bprev_free t' (x1 + bsz t' x1) = bfree t' (last [x1])"
      using x1t by (simp add: pf)
    show "\<not> (bfree t' (last [x1]) \<and> bfree t (hd vs0))" if "vs0 \<noteq> []"
      using nxt that by blast
  qed (simp_all add: old_def)
  then show ?thesis
    by (simp add: lay t'_def)
qed

lemma tlsf_expand_split_coalesced:
  assumes wf: "tlsf_wf t (us @ x # y # ws)" and nf: "\<not> bfree t x" and fy: "bfree t y"
    and n: "n mod 8 = 0" "32 \<le> n" "x + n + 64 \<le> y + bsz t y"
    and r: "tlsf_expand_block t x n = Some t'" and co: "coalesced t (us @ x # y # ws)"
  shows "coalesced t' (us @ [x, x + n] @ ws)"
proof -
  have T: "tlsf_wf t' (us @ [x, x + n] @ ws)" "bfree t' = (bfree t)(x := False, x + n := True)"
    "bprev_free t' = (bprev_free t)(x + n := False, y + bsz t y := True)"
    "raw_area t' = raw_area t" "raw_size t' = raw_size t"
    by (rule tlsf_expand_split [OF wf nf fy n]; use r in simp)+
  have wf': "tlsf_wf t ((us @ [x]) @ y # ws)" and co': "coalesced t ((us @ [x]) @ y # ws)"
    using wf co by simp_all
  note N = tlsf_wf_next [OF wf'] and C = coalesced_at [OF co'] coalesced_at [OF co]
    and N' = tlsf_wf_next [OF T(1) [unfolded append_Cons append_Nil]]
  have s: "tlsf_sentinel t' = tlsf_sentinel t"
    by (simp add: tlsf_sentinel_def T(4,5))
  have a: "x + n \<noteq> y + bsz t y" "n \<noteq> 0"
    using n by auto
  show ?thesis
  proof (rule coalesced_splice [where t = t and old = "[x, y]", OF _ _ _ N(1)])
    show "fseg (bfree t') (bprev_free t') (us \<noteq> [] \<and> bfree t (last us)) [x, x + n]"
      using C(4) N(4) a by (simp add: T(2,3))
    show "bfree t' z = bfree t z" if "z \<in> set us \<union> set ws" for z
      using that N'(2) by (auto simp: T(2))
    show "bprev_free t' z = bprev_free t z" if "z \<in> set us \<union> set (tl ws)" for z
      using that N(4,6) N'(2) by (cases ws) (auto simp: T(3))
  qed (use co N N'(3) C(3) fy a s in \<open>simp_all add: T(2,3)\<close>)
qed

lemma tlsf_expand_whole_coalesced:
  assumes wf: "tlsf_wf t (us @ x # y # ws)" and nf: "\<not> bfree t x" and fy: "bfree t y"
    and n: "x + n \<le> y + bsz t y" "y + bsz t y < x + n + 64"
    and r: "tlsf_expand_block t x n = Some t'" and co: "coalesced t (us @ x # y # ws)"
  shows "coalesced t' (us @ [x] @ ws)"
proof -
  have T: "tlsf_wf t' (us @ [x] @ ws)" "bfree t' = bfree t"
    "bprev_free t' = (bprev_free t)(y + bsz t y := False)"
    "raw_area t' = raw_area t" "raw_size t' = raw_size t"
    by (rule tlsf_expand_whole [OF wf nf fy n]; use r in simp)+
  have wf': "tlsf_wf t ((us @ [x]) @ y # ws)" and co': "coalesced t ((us @ [x]) @ y # ws)"
    using wf co by simp_all
  note N = tlsf_wf_next [OF wf'] and C = coalesced_at [OF co'] coalesced_at [OF co]
  have s: "tlsf_sentinel t' = tlsf_sentinel t"
    by (simp add: tlsf_sentinel_def T(4,5))
  show ?thesis
  proof (rule coalesced_splice [where t = t and old = "[x, y]", OF _ _ _ N(1)])
    show "fseg (bfree t') (bprev_free t') (us \<noteq> [] \<and> bfree t (last us)) [x]"
      using C(4) N(4) nf by (simp add: T(2,3))
    show "bprev_free t' z = bprev_free t z" if "z \<in> set us \<union> set (tl ws)" for z
      using that N(4,6) by (auto simp: T(3))
  qed (use co N nf s in \<open>simp_all add: T(2,3)\<close>)
qed

end
