(* ===== verification/Cmem_Types.thy ===== *)
theory Cmem_Types
  imports Cmem_Prelude
begin

text \<open>
  Data shared by the tiers: pool flags, the metadata header \<open>mp_block_header_t\<close> stamped in front of
  every payload (\<open>src/include/cmem.h\<close>), allocation kinds and size constants
  (\<open>src/src/cmem_internal.h\<close>).  Structure sizes are those of a 64-bit Linux build.
\<close>

section \<open>Pool flags\<close>

definition MP_FLAG_THREAD_SAFE :: nat where "MP_FLAG_THREAD_SAFE = 1"
definition MP_FLAG_DEBUG_CANARY :: nat where "MP_FLAG_DEBUG_CANARY = 2"
definition MP_FLAG_ZERO_ON_ALLOC :: nat where "MP_FLAG_ZERO_ON_ALLOC = 4"
definition MP_FLAG_THREAD_LOCAL_CACHE :: nat where "MP_FLAG_THREAD_LOCAL_CACHE = 8"
definition MP_FLAG_STATIC_BUFFER :: nat where "MP_FLAG_STATIC_BUFFER = 16"
definition MP_FLAG_TRACK_LOCATIONS :: nat where "MP_FLAG_TRACK_LOCATIONS = 32"
definition MP_FLAG_POISON_ON_FREE :: nat where "MP_FLAG_POISON_ON_FREE = 64"
definition MP_FLAG_PERCPU_FREELIST :: nat where "MP_FLAG_PERCPU_FREELIST = 2048"
definition MP_FLAG_HOT_COLD :: nat where "MP_FLAG_HOT_COLD = 4096"

definition has_flag :: "nat \<Rightarrow> nat \<Rightarrow> bool" where
  "has_flag flags f \<longleftrightarrow> flags AND f \<noteq> 0"

text \<open>\<open>flags & ~f\<close>.\<close>

definition clear_flag :: "nat \<Rightarrow> nat \<Rightarrow> nat" where
  "clear_flag flags f = flags - (flags AND f)"

section \<open>Block headers\<close>

definition MP_MAGIC_HEAD :: nat where "MP_MAGIC_HEAD = 0x4D504F4F"
definition MP_CANARY_BYTE :: nat where "MP_CANARY_BYTE = 0xDE"

definition ALLOC_TYPE_SLAB :: nat where "ALLOC_TYPE_SLAB = 1"
definition ALLOC_TYPE_TLSF :: nat where "ALLOC_TYPE_TLSF = 2"
definition ALLOC_TYPE_OS :: nat where "ALLOC_TYPE_OS = 3"
definition ALLOC_TYPE_EMERGENCY :: nat where "ALLOC_TYPE_EMERGENCY = 4"

definition MP_BLOCK_FLAG_TLSF_ARENA :: nat where "MP_BLOCK_FLAG_TLSF_ARENA = 1"
definition MP_BLOCK_FLAG_COUNTED :: nat where "MP_BLOCK_FLAG_COUNTED = 2"

definition sizeof_mp_block_header :: nat where "sizeof_mp_block_header = 152"

definition TLSF_MAX_SIZE :: nat where "TLSF_MAX_SIZE = 4 * 1024 * 1024"
definition SLAB_MAX_SIZE :: nat where "SLAB_MAX_SIZE = 512"

record mp_block_header =
  magic :: nat
  alloc_type :: nat
  slab_class :: nat
  hflags :: nat
  requested_size :: nat
  usable_size :: nat
  raw_base :: addr
  subpool :: addr
  alloc_file :: addr
  alloc_line :: nat
  alloc_func :: addr
  backtrace_depth :: nat
  hprev :: addr
  hnext :: addr

text \<open>Filling a byte range, as \<open>memset\<close> does.\<close>

definition memset :: "addr \<Rightarrow> nat \<Rightarrow> nat \<Rightarrow> (addr \<Rightarrow> nat) \<Rightarrow> addr \<Rightarrow> nat" where
  "memset p v n m = (\<lambda>a. if p \<le> a \<and> a < p + n then v else m a)"

end
