(* ===== verification/Tlsf_Tier.thy ===== *)
theory Tlsf_Tier
  imports Tlsf_Layout Cmem_Types
begin

text \<open>
  The TLSF tier of a memory pool: the chain of regions hanging off \<open>tlsf_root\<close> and the three entry
  points \<open>tlsf_alloc\<close>, \<open>tlsf_free\<close> and \<open>tlsf_try_inplace_expand\<close> of \<open>src/src/cmem_tlsf.c\<close>, with
  header stamping, canary byte, zeroing and the byte counters.

  A region is identified by the address of its \<open>tlsf_pool_t\<close>, which precedes its raw area.  The
  chain is the list of regions in \<open>next\<close> order.  The operating system enters through the addresses
  it answers with.
\<close>

record tlsf_tier =
  pflags :: nat
  tlsf_root :: "tlsf_pool list"
  total_pool_size :: nat
  tlsf_allocated_bytes :: nat
  hdrs :: "addr \<Rightarrow> mp_block_header"
  bytes :: "addr \<Rightarrow> nat"

definition tpool_addr :: "tlsf_pool \<Rightarrow> addr" where
  "tpool_addr t = raw_area t - sizeof_tlsf_pool"

definition tlsf_total_needed :: "nat \<Rightarrow> nat \<Rightarrow> nat" where
  "tlsf_total_needed flags req_size =
     (let total_needed = (sizeof_tlsf_block + sizeof_mp_block_header + req_size
            + (if has_flag flags MP_FLAG_DEBUG_CANARY then 1 else 0)) mod 2 ^ 64;
          total_needed = align_up8 total_needed
      in if total_needed < TLSF_MIN_BLOCK_SIZE then TLSF_MIN_BLOCK_SIZE else total_needed)"

text \<open>The walk along the chain: the first region with a suitable block serves the request.\<close>

fun tlsf_walk :: "tlsf_pool list \<Rightarrow> nat \<Rightarrow> (tlsf_pool list \<times> addr \<times> addr) option" where
  "tlsf_walk [] total_needed = None"
| "tlsf_walk (target_pool # rest) total_needed =
     (let block = tlsf_find_suitable_block target_pool total_needed
      in if block \<noteq> 0
         then Some (tlsf_take_block target_pool block total_needed # rest, block,
                    tpool_addr target_pool)
         else map_option (\<lambda>(rest', b, p). (target_pool # rest', b, p))
                (tlsf_walk rest total_needed))"

definition tlsf_stamp :: "tlsf_tier \<Rightarrow> addr \<Rightarrow> addr \<Rightarrow> nat \<Rightarrow> nat \<Rightarrow> tlsf_tier \<times> addr" where
  "tlsf_stamp pool block tpool req_size total_needed =
     (let header = block + sizeof_tlsf_block;
          usable = (total_needed + 2 ^ 64 - sizeof_tlsf_block - sizeof_mp_block_header) mod 2 ^ 64;
          h = (hdrs pool header)
                \<lparr>magic := MP_MAGIC_HEAD, alloc_type := ALLOC_TYPE_TLSF, slab_class := 0, hflags := 0,
                 requested_size := req_size, usable_size := usable, raw_base := block,
                 subpool := tpool, alloc_file := 0, alloc_line := 0, alloc_func := 0,
                 backtrace_depth := 0\<rparr>;
          payload = header + sizeof_mp_block_header;
          pool = pool\<lparr>hdrs := (hdrs pool)(header := h)\<rparr>;
          pool = (if has_flag (pflags pool) MP_FLAG_DEBUG_CANARY
                  then pool\<lparr>bytes := (bytes pool)(payload + req_size := MP_CANARY_BYTE)\<rparr> else pool);
          pool = (if has_flag (pflags pool) MP_FLAG_ZERO_ON_ALLOC
                  then pool\<lparr>bytes := memset payload 0 req_size (bytes pool)\<rparr> else pool)
      in (pool\<lparr>tlsf_allocated_bytes := (tlsf_allocated_bytes pool + usable) mod 2 ^ 64\<rparr>, payload))"

definition TLSF_INIT_SIZE :: nat where
  "TLSF_INIT_SIZE = 4 * 1024 * 1024"

text \<open>\<open>os1\<close> and \<open>os2\<close> are the answers of \<open>sys_mem_alloc\<close> for the initial region and for an
  expansion, \<open>m0\<close> the contents of fresh memory; address \<open>0\<close> is the failure answer.\<close>

definition tlsf_ensure_root :: "(addr \<Rightarrow> tlsf_block) \<Rightarrow> addr \<Rightarrow> tlsf_tier \<Rightarrow> tlsf_tier option" where
  "tlsf_ensure_root m0 os1 pool =
     (if tlsf_root pool = []
      then case tlsf_create_pool_custom m0 TLSF_INIT_SIZE 0 os1 of
             None \<Rightarrow> None
           | Some t \<Rightarrow> Some (pool\<lparr>tlsf_root := [t], total_pool_size :=
               (total_pool_size pool + TLSF_INIT_SIZE + sizeof_tlsf_pool) mod 2 ^ 64\<rparr>)
      else Some pool)"

definition tlsf_expand_size :: "nat \<Rightarrow> nat" where
  "tlsf_expand_size total_needed =
     (if 4 * 1024 * 1024 < (total_needed * 2) mod 2 ^ 64 then (total_needed * 2) mod 2 ^ 64
      else 4 * 1024 * 1024)"

definition tlsf_alloc ::
  "(addr \<Rightarrow> tlsf_block) \<Rightarrow> addr \<Rightarrow> addr \<Rightarrow> tlsf_tier \<Rightarrow> nat \<Rightarrow> tlsf_tier \<times> addr" where
  "tlsf_alloc m0 os1 os2 pool req_size =
     (let total_needed = tlsf_total_needed (pflags pool) req_size
      in case tlsf_ensure_root m0 os1 pool of
           None \<Rightarrow> (pool, 0)
         | Some pool \<Rightarrow>
             (case tlsf_walk (tlsf_root pool) total_needed of
                Some (root, block, tpool) \<Rightarrow>
                  tlsf_stamp (pool\<lparr>tlsf_root := root\<rparr>) block tpool req_size total_needed
              | None \<Rightarrow>
                  if has_flag (pflags pool) MP_FLAG_STATIC_BUFFER then (pool, 0)
                  else let expand_sz = tlsf_expand_size total_needed
                       in case tlsf_create_pool_custom m0 expand_sz 0 os2 of
                            None \<Rightarrow> (pool, 0)
                          | Some new_p \<Rightarrow>
                              let pool = pool\<lparr>tlsf_root := new_p # tlsf_root pool, total_pool_size :=
                                    (total_pool_size pool + expand_sz + sizeof_tlsf_pool) mod 2 ^ 64\<rparr>;
                                  block = tlsf_find_suitable_block new_p total_needed
                              in if block = 0 then (pool, 0)
                                 else tlsf_stamp (pool\<lparr>tlsf_root :=
                                        tlsf_take_block new_p block total_needed # tl (tlsf_root pool)\<rparr>)
                                        block (tpool_addr new_p) req_size total_needed))"

text \<open>Applying an operation to the region a header names.\<close>

fun on_tpool :: "addr \<Rightarrow> (tlsf_pool \<Rightarrow> tlsf_pool) \<Rightarrow> tlsf_pool list \<Rightarrow> tlsf_pool list" where
  "on_tpool p f [] = []"
| "on_tpool p f (t # ts) = (if tpool_addr t = p then f t # ts else t # on_tpool p f ts)"

fun get_tpool :: "addr \<Rightarrow> tlsf_pool list \<Rightarrow> tlsf_pool option" where
  "get_tpool p [] = None"
| "get_tpool p (t # ts) = (if tpool_addr t = p then Some t else get_tpool p ts)"

text \<open>\<open>None\<close> is the failing assertion that the block belongs to the shared tier.\<close>

definition tlsf_free :: "tlsf_tier \<Rightarrow> addr \<Rightarrow> tlsf_tier option" where
  "tlsf_free pool header =
     (let h = hdrs pool header;
          block = raw_base h;
          tpool = subpool h
      in if hflags h AND MP_BLOCK_FLAG_TLSF_ARENA \<noteq> 0 then None
         else let pool = pool\<lparr>tlsf_allocated_bytes :=
                    (tlsf_allocated_bytes pool + 2 ^ 64 - usable_size h) mod 2 ^ 64\<rparr>
              in Some (pool\<lparr>tlsf_root :=
                   on_tpool tpool (\<lambda>t. tlsf_release_block t block) (tlsf_root pool)\<rparr>))"

definition tlsf_try_inplace_expand :: "tlsf_tier \<Rightarrow> addr \<Rightarrow> nat \<Rightarrow> tlsf_tier \<times> bool" where
  "tlsf_try_inplace_expand pool header new_size =
     (let h = hdrs pool header;
          block = raw_base h;
          tpool = subpool h
      in if alloc_type h \<noteq> ALLOC_TYPE_TLSF then (pool, False)
         else if block = 0 then (pool, False)
         else if tpool = 0 \<or> hflags h AND MP_BLOCK_FLAG_TLSF_ARENA \<noteq> 0 then (pool, False)
         else case get_tpool tpool (tlsf_root pool) of
                None \<Rightarrow> (pool, False)
              | Some t \<Rightarrow>
                  (case tlsf_expand_block t block (tlsf_total_needed (pflags pool) new_size) of
                     None \<Rightarrow> (pool, False)
                   | Some t' \<Rightarrow>
                       let new_usable = (bsz t' block + 2 ^ 64
                             - sizeof_tlsf_block - sizeof_mp_block_header) mod 2 ^ 64;
                           payload = header + sizeof_mp_block_header;
                           pool = pool\<lparr>tlsf_root := on_tpool tpool (\<lambda>_. t') (tlsf_root pool),
                             tlsf_allocated_bytes :=
                               (tlsf_allocated_bytes pool + (new_usable + 2 ^ 64 - usable_size h))
                                 mod 2 ^ 64,
                             hdrs := (hdrs pool)(header :=
                               h\<lparr>requested_size := new_size, usable_size := new_usable\<rparr>)\<rparr>;
                           pool = (if has_flag (pflags pool) MP_FLAG_DEBUG_CANARY
                             then pool\<lparr>bytes := (bytes pool)(payload + new_size := MP_CANARY_BYTE)\<rparr>
                             else pool)
                       in (pool, True)))"

section \<open>Live blocks of a region\<close>

definition live :: "tlsf_pool \<Rightarrow> addr list \<Rightarrow> (addr \<times> nat) set" where
  "live t xs = {(x, bsz t x) | x. x \<in> set xs \<and> \<not> bfree t x}"

lemma live_iff: "(x, s) \<in> live t xs \<longleftrightarrow> x \<in> set xs \<and> \<not> bfree t x \<and> s = bsz t x"
  by (auto simp: live_def)

lemma live_disjoint:
  assumes "tlsf_wf t xs" "(x, s) \<in> live t xs" "(y, r) \<in> live t xs" "x \<noteq> y"
  shows "x + s \<le> y \<or> y + r \<le> x"
  using assms phys_disjoint [OF tlsf_wfD(1) [OF assms(1)]] by (auto simp: live_iff) (metis linorder_neqE_nat)

lemma live_inside:
  assumes "tlsf_wf t xs" "(x, s) \<in> live t xs"
  shows "raw_area t \<le> x" "x + s + sizeof_tlsf_block \<le> raw_area t + raw_size t"
  using assms tlsf_wf_block [OF assms(1), of x] tlsf_wfD(6) [OF assms(1)]
  by (auto simp: live_iff tlsf_sentinel_def)

lemma tlsf_take_live:
  assumes wf: "tlsf_wf t xs" and n: "n mod 8 = 0" "32 \<le> n" "n < 2 ^ 30"
    and b: "b = tlsf_find_suitable_block t n" "b \<noteq> 0"
  obtains xs' s where "tlsf_wf (tlsf_take_block t b n) xs'" "n \<le> s"
    "live (tlsf_take_block t b n) xs' = insert (b, s) (live t xs)" "b \<notin> fst ` live t xs" "raw_area t \<le> b"
    "raw_area (tlsf_take_block t b n) = raw_area t" "raw_size (tlsf_take_block t b n) = raw_size t"
    "coalesced t xs \<Longrightarrow> coalesced (tlsf_take_block t b n) xs'"
proof -
  have "n < 2 ^ 31"
    using n by simp
  note F = tlsf_find_sound [OF tlsf_wfD(2) [OF wf] this b(2) [unfolded b(1)], folded b(1)]
  then have bx: "b \<in> set xs" "bfree t b"
    by (auto simp: free_blocks_def)
  then obtain us vs where xs: "xs = us @ b # vs"
    by (auto simp: in_set_conv_decomp)
  note wf' = wf [unfolded xs]
  have B: "raw_area t \<le> b" "bsz t b < 2 ^ 30"
    using tlsf_wf_block [OF wf bx(1)] by auto
  have fit: "n \<le> bsz t b"
    using tlsf_accepts_sound [OF _ _ F(2)] n(3) B(2) by simp
  have notin: "b \<notin> fst ` live t xs" "b \<notin> set us" "b \<notin> set vs"
    using bx tlsf_wf_split(9,10) [OF wf'] by (auto simp: live_def)
  show thesis
  proof (cases "n + 64 \<le> bsz t b")
    case True
    note T = tlsf_take_split [OF wf' bx(2) n(1,2) True]
    have "b + n \<notin> set us" "b + n \<notin> set vs"
      using tlsf_wf_split(4,5) [OF wf'] True by force+
    then have "live (tlsf_take_block t b n) (us @ [b, b + n] @ vs) = insert (b, n) (live t xs)"
      using notin bx(2) n(2) by (auto simp: live_def xs T(2,3))
    from that [OF T(1) _ this notin(1) B(1) T(5,6)] show thesis
      using tlsf_take_split_coalesced [OF wf' bx(2) n(1,2) True] xs by simp
  next
    case False
    then have "bsz t b < n + 64"
      by simp
    note T = tlsf_take_whole [OF wf' bx(2) n(1) fit this]
    have "live (tlsf_take_block t b n) (us @ [b] @ vs) = insert (b, bsz t b) (live t xs)"
      using notin bx(2) by (auto simp: live_def xs T(2,3))
    from that [OF T(1) fit this notin(1) B(1) T(5,6)] show thesis
      using tlsf_take_whole_coalesced [OF wf' bx(2) n(1) fit \<open>bsz t b < n + 64\<close>] xs by simp
  qed
qed

lemma tlsf_release_live:
  assumes wf: "tlsf_wf t xs" and x: "x \<in> set xs" "\<not> bfree t x"
  obtains xs' where "tlsf_wf (tlsf_release_block t x) xs'"
    "live (tlsf_release_block t x) xs' = live t xs - {(x, bsz t x)}"
    "raw_area (tlsf_release_block t x) = raw_area t" "raw_size (tlsf_release_block t x) = raw_size t"
    "coalesced t xs \<Longrightarrow> coalesced (tlsf_release_block t x) xs'"
proof -
  obtain us vs where xs: "xs = us @ x # vs"
    using x(1) by (auto simp: in_set_conv_decomp)
  note wf' = wf [unfolded xs]
  note R = tlsf_release [OF wf' x(2)]
  let ?t' = "tlsf_release_block t x" and ?xs' = "release_layout t us x vs"
  have d: "x \<notin> set us" "x \<notin> set vs"
    using tlsf_wf_split(9,10) [OF wf'] .
  have "(y, s) \<in> live ?t' ?xs' \<longleftrightarrow> (y, s) \<in> live t xs - {(x, bsz t x)}" for y s
  proof -
    have "(y \<in> set ?xs' \<and> \<not> bfree ?t' y) \<longleftrightarrow> (y \<in> set xs \<and> \<not> bfree t y \<and> y \<noteq> x)"
      using d unfolding R(2) release_layout_def Let_def xs
      by (cases us rule: rev_cases; cases vs) auto
    moreover have "bsz ?t' y = bsz t y" if "\<not> bfree t y" "y \<noteq> x"
      using that by (intro R(4)) auto
    ultimately show ?thesis
      by (auto simp: live_iff)
  qed
  then have "live ?t' ?xs' = live t xs - {(x, bsz t x)}"
    by auto
  from that [OF R(1) this R(6,7)] show thesis
    using tlsf_release_coalesced [OF wf' x(2)] xs by simp
qed

lemma tlsf_expand_live:
  assumes wf: "tlsf_wf t xs" and x: "x \<in> set xs" "\<not> bfree t x"
    and n: "n mod 8 = 0" "32 \<le> n" and r: "tlsf_expand_block t x n = Some t'"
  obtains xs' where "tlsf_wf t' xs'" "n \<le> bsz t' x"
    "live t' xs' = insert (x, bsz t' x) (live t xs - {(x, bsz t x)})"
    "raw_area t' = raw_area t" "raw_size t' = raw_size t" "coalesced t xs \<Longrightarrow> coalesced t' xs'"
proof -
  obtain us vs where xs: "xs = us @ x # vs"
    using x(1) by (auto simp: in_set_conv_decomp)
  have "\<not> (tlsf_expand_block t x n = None)"
    using r by simp
  then have "vs \<noteq> [] \<and> bfree t (hd vs) \<and> n \<le> bsz t x + bsz t (hd vs)"
    unfolding tlsf_expand_refuses [OF wf [unfolded xs]] not_not .
  then obtain y ws where vs: "vs = y # ws" "bfree t y" "n \<le> bsz t x + bsz t y"
    by (cases vs) auto
  note wf' = wf [unfolded xs vs(1)]
  have y: "y = x + bsz t x"
    using tlsf_expand_pair(1) [OF wf' x(2) vs(2)] .
  have d: "x \<notin> set us" "x \<notin> set ws" "y \<noteq> x"
    using tlsf_wf_split(9,10) [OF wf'] by auto
  show thesis
  proof (cases "x + n + 64 \<le> y + bsz t y")
    case True
    then obtain T: "tlsf_wf t' (us @ [x, x + n] @ ws)"
      "bsz t' = (bsz t)(x := n, x + n := y + bsz t y - (x + n))"
      "bfree t' = (bfree t)(x := False, x + n := True)" "raw_area t' = raw_area t" "raw_size t' = raw_size t"
      using tlsf_expand_split [OF wf' x(2) vs(2) n True] r by (metis option.inject)
    have dd: "x + n \<notin> set us" "x + n \<notin> set ws" "0 < n"
      using phys_distinct [OF tlsf_wfD(1) [OF T(1)]] n by auto
    have "live t' (us @ [x, x + n] @ ws) = insert (x, bsz t' x) (live t xs - {(x, bsz t x)})"
      using d dd x(2) vs(2) by (auto simp: live_def xs vs(1) T(2,3))
    from that [OF T(1) _ this T(4,5)] show thesis
      using T(2) dd tlsf_expand_split_coalesced [OF wf' x(2) vs(2) n True r] xs vs(1) by simp
  next
    case False
    then have le: "x + n \<le> y + bsz t y" "y + bsz t y < x + n + 64"
      using vs(3) y by linarith+
    then obtain T: "tlsf_wf t' (us @ [x] @ ws)" "bsz t' = (bsz t)(x := bsz t x + bsz t y)"
      "bfree t' = bfree t" "raw_area t' = raw_area t" "raw_size t' = raw_size t"
      using tlsf_expand_whole [OF wf' x(2) vs(2) le] r by (metis option.inject)
    have "live t' (us @ [x] @ ws) = insert (x, bsz t' x) (live t xs - {(x, bsz t x)})"
      using d x(2) vs(2) by (auto simp: live_def xs vs(1) T(2,3))
    from that [OF T(1) _ this T(4,5)] show thesis
      using T(2) vs(3) tlsf_expand_whole_coalesced [OF wf' x(2) vs(2) le r] xs vs(1) by simp
  qed
qed

section \<open>The chain of regions\<close>

definition region :: "tlsf_pool \<Rightarrow> addr set" where
  "region t = {tpool_addr t ..< raw_area t + raw_size t}"

definition chain_wf :: "tlsf_pool list \<Rightarrow> addr list list \<Rightarrow> bool" where
  "chain_wf ts Ls \<longleftrightarrow> list_all2 tlsf_wf ts Ls
     \<and> sorted_wrt (\<lambda>t u. region t \<inter> region u = {}) ts
     \<and> (\<forall>t \<in> set ts. sizeof_tlsf_pool < raw_area t)"

definition chain_live :: "tlsf_pool list \<Rightarrow> addr list list \<Rightarrow> (addr \<times> nat) set" where
  "chain_live ts Ls = (\<Union>(t, xs) \<in> set (zip ts Ls). live t xs)"

lemma chain_wf_Cons:
  "chain_wf (t # ts) Ls \<longleftrightarrow> (\<exists>xs Ls'. Ls = xs # Ls' \<and> tlsf_wf t xs \<and> chain_wf ts Ls'
     \<and> (\<forall>u \<in> set ts. region t \<inter> region u = {}) \<and> sizeof_tlsf_pool < raw_area t)"
  by (auto simp: chain_wf_def list_all2_Cons1)

lemma chain_live_Cons [simp]: "chain_live (t # ts) (xs # Ls) = live t xs \<union> chain_live ts Ls"
  by (auto simp: chain_live_def)

lemma chain_live_Nil [simp]: "chain_live [] Ls = {}"
  by (simp add: chain_live_def)

lemma live_region:
  assumes "tlsf_wf t xs" "(x, s) \<in> live t xs"
  shows "{x ..< x + s} \<subseteq> region t" "0 < s"
  using live_inside [OF assms] assms tlsf_wf_block(5) [OF assms(1), of x]
  by (auto simp: region_def tpool_addr_def live_iff)

lemma chain_live_region:
  "chain_wf ts Ls \<Longrightarrow> (x, s) \<in> chain_live ts Ls \<Longrightarrow> \<exists>t \<in> set ts. {x ..< x + s} \<subseteq> region t \<and> 0 < s"
proof (induction ts arbitrary: Ls)
  case (Cons t ts)
  then obtain xs Ls' where L: "Ls = xs # Ls'" "tlsf_wf t xs" "chain_wf ts Ls'"
    by (auto simp: chain_wf_Cons)
  show ?case
    using Cons.prems(2) Cons.IH [OF L(3)] live_region [OF L(2)] by (auto simp: L(1))
qed simp

text \<open>Two ranges of two different regions, or two different blocks of one region, are disjoint.\<close>

lemma ranges_disjoint:
  fixes x y r s :: nat
  assumes "{x ..< x + s} \<subseteq> A" "{y ..< y + r} \<subseteq> B" "A \<inter> B = {}" "0 < s" "0 < r"
  shows "x + s \<le> y \<or> y + r \<le> x"
proof (rule ccontr)
  assume "\<not> ?thesis"
  then have "max x y \<in> {x ..< x + s}" "max x y \<in> {y ..< y + r}"
    using assms(4,5) by auto
  with assms(1-3) show False
    by blast
qed

lemma chain_live_disjoint:
  "chain_wf ts Ls \<Longrightarrow> (x, s) \<in> chain_live ts Ls \<Longrightarrow> (y, r) \<in> chain_live ts Ls \<Longrightarrow> x \<noteq> y
    \<Longrightarrow> x + s \<le> y \<or> y + r \<le> x"
proof (induction ts arbitrary: Ls)
  case (Cons t ts)
  then obtain xs Ls' where L: "Ls = xs # Ls'" "tlsf_wf t xs" "chain_wf ts Ls'"
    "\<forall>u \<in> set ts. region t \<inter> region u = {}"
    by (auto simp: chain_wf_Cons)
  have cross: "a + c \<le> b \<or> b + d \<le> a" if l: "(a, c) \<in> live t xs" "(b, d) \<in> chain_live ts Ls'" for a b c d
  proof -
    obtain u where "u \<in> set ts" "{b ..< b + d} \<subseteq> region u" "0 < d"
      using chain_live_region [OF L(3) l(2)] by blast
    then show ?thesis
      using ranges_disjoint [OF live_region(1) [OF L(2) l(1)]] live_region(2) [OF L(2) l(1)] L(4)
      by blast
  qed
  consider "(x, s) \<in> live t xs" "(y, r) \<in> live t xs" | "(x, s) \<in> live t xs" "(y, r) \<in> chain_live ts Ls'"
    | "(x, s) \<in> chain_live ts Ls'" "(y, r) \<in> live t xs"
    | "(x, s) \<in> chain_live ts Ls'" "(y, r) \<in> chain_live ts Ls'"
    using Cons.prems by (auto simp: L(1))
  then show ?case
    using live_disjoint [OF L(2)] cross Cons.IH [OF L(3)] Cons.prems(4) by cases blast+
qed simp

lemma chain_live_apart:
  assumes "chain_wf (t # ts) (xs # Ls)" "x \<in> region t"
  shows "x \<notin> fst ` chain_live ts Ls"
proof
  assume "x \<in> fst ` chain_live ts Ls"
  then obtain s where "(x, s) \<in> chain_live ts Ls"
    by auto
  moreover have "chain_wf ts Ls"
    using assms(1) by (auto simp: chain_wf_Cons)
  ultimately obtain u where "u \<in> set ts" "{x ..< x + s} \<subseteq> region u" "0 < s"
    using chain_live_region by blast
  then have "x \<in> region u" "region t \<inter> region u = {}"
    using assms(1) by (auto simp: chain_wf_Cons)
  with assms(2) show False
    by blast
qed

lemma chain_live_fresh:
  "chain_wf ts Ls \<Longrightarrow> (t, xs) \<in> set (zip ts Ls) \<Longrightarrow> x \<in> region t \<Longrightarrow> x \<notin> fst ` live t xs
    \<Longrightarrow> x \<notin> fst ` chain_live ts Ls"
proof (induction ts arbitrary: Ls)
  case (Cons u ts)
  then obtain ys Ls' where L: "Ls = ys # Ls'" "tlsf_wf u ys" "chain_wf ts Ls'"
    "\<forall>v \<in> set ts. region u \<inter> region v = {}"
    by (auto simp: chain_wf_Cons)
  show ?case
  proof (cases "(t, xs) = (u, ys)")
    case True
    then have "x \<notin> fst ` chain_live ts Ls'"
      using chain_live_apart Cons.prems(1,3) L(1) by blast
    then show ?thesis
      using Cons.prems(4) True L(1) by auto
  next
    case False
    then have m: "(t, xs) \<in> set (zip ts Ls')"
      using Cons.prems(2) L(1) by auto
    then have "x \<notin> region u"
      using L(4) set_zip_leftD [OF m] Cons.prems(3) by blast
    then have "x \<notin> fst ` live u ys"
      using live_region [OF L(2)] by fastforce
    then show ?thesis
      using Cons.IH [OF L(3) m Cons.prems(3,4)] L(1) by auto
  qed
qed simp

text \<open>Changing one region of a chain.\<close>

lemma chain_on_tpool:
  assumes "chain_wf ts Ls" "(t, xs) \<in> set (zip ts Ls)"
    and "tlsf_wf (f t) xs'" "raw_area (f t) = raw_area t" "raw_size (f t) = raw_size t"
    and "D \<subseteq> live t xs" "live (f t) xs' = A \<union> (live t xs - D)"
  shows "\<exists>Ls'. chain_wf (on_tpool (tpool_addr t) f ts) Ls'
    \<and> chain_live (on_tpool (tpool_addr t) f ts) Ls' = A \<union> (chain_live ts Ls - D)
    \<and> (f t, xs') \<in> set (zip (on_tpool (tpool_addr t) f ts) Ls')
    \<and> map region (on_tpool (tpool_addr t) f ts) = map region ts"
  using assms(1,2)
proof (induction ts arbitrary: Ls)
  case (Cons u ts)
  then obtain ys Ls' where L: "Ls = ys # Ls'" "tlsf_wf u ys" "chain_wf ts Ls'"
    "\<forall>v \<in> set ts. region u \<inter> region v = {}" "sizeof_tlsf_pool < raw_area u"
    by (auto simp: chain_wf_Cons)
  have reg: "region (f t) = region t"
    by (simp add: region_def tpool_addr_def assms)
  have in_reg: "a \<in> region t" if "(a, c) \<in> live t xs" "tlsf_wf t xs" for a c
    using live_region [OF that(2,1)] by auto
  show ?case
  proof (cases "(t, xs) = (u, ys)")
    case True
    have "(a, c) \<notin> chain_live ts Ls'" if "(a, c) \<in> D" for a c
    proof -
      have "a \<in> region t"
        using that assms(6) in_reg True L(2) by blast
      then have "a \<notin> fst ` chain_live ts Ls'"
        using chain_live_apart Cons.prems(1) L(1) True by blast
      then show ?thesis
        by force
    qed
    then have "D \<inter> chain_live ts Ls' = {}"
      by auto
    then show ?thesis
      using True L assms(3,4,7) reg
      by (intro exI [of _ "xs' # Ls'"]) (auto simp: chain_wf_Cons)
  next
    case False
    then have mem: "(t, xs) \<in> set (zip ts Ls')"
      using Cons.prems(2) L(1) by auto
    then have ts: "t \<in> set ts" "tlsf_wf t xs"
      using L(3) by (auto simp: chain_wf_def list_all2_iff dest: set_zip_leftD)
    have lo: "tpool_addr u \<in> region u" "tpool_addr t \<in> region t"
      using tlsf_wfD(6) [OF L(2)] tlsf_wfD(6) [OF ts(2)] L(3,5) ts(1)
      by (auto simp: region_def tpool_addr_def sizeof_tlsf_block_def chain_wf_def)
    then have ne: "tpool_addr u \<noteq> tpool_addr t"
      using L(4) ts(1) by (metis IntI emptyE)
    have "D \<inter> live u ys = {}"
    proof -
      have "a \<notin> region u" if "(a, c) \<in> D" for a c
        using in_reg [of a c] that assms(6) ts L(4) by blast
      moreover have "a \<in> region u" if "(a, c) \<in> live u ys" for a c
        using live_region [OF L(2) that] by auto
      ultimately show ?thesis
        by fast
    qed
    moreover obtain Ls'' where "chain_wf (on_tpool (tpool_addr t) f ts) Ls''"
      "chain_live (on_tpool (tpool_addr t) f ts) Ls'' = A \<union> (chain_live ts Ls' - D)"
      "(f t, xs') \<in> set (zip (on_tpool (tpool_addr t) f ts) Ls'')"
      "map region (on_tpool (tpool_addr t) f ts) = map region ts"
      using Cons.IH [OF L(3) mem] by blast
    moreover from this(4) have "set (map region (on_tpool (tpool_addr t) f ts)) = region ` set ts"
      by simp
    then have "\<forall>v \<in> set (on_tpool (tpool_addr t) f ts). region u \<inter> region v = {}"
      using L(4) by (metis (no_types, lifting) image_iff list.set_map)
    ultimately show ?thesis
      using L ne by (intro exI [of _ "ys # Ls''"]) (auto simp: chain_wf_Cons)
  qed
qed simp

lemma chain_wf_head_addr:
  assumes "chain_wf (t # ts) Ls" "u \<in> set ts"
  shows "tpool_addr u \<noteq> tpool_addr t"
proof -
  have "r \<in> set (t # ts) \<Longrightarrow> tpool_addr r \<in> region r" for r
    using assms(1) by (auto simp: chain_wf_def region_def tpool_addr_def list_all2_conv_all_nth in_set_conv_nth
      dest!: tlsf_wfD(6) simp: sizeof_tlsf_block_def)
  then have "tpool_addr t \<in> region t" "tpool_addr u \<in> region u" "region t \<inter> region u = {}"
    using assms by (auto simp: chain_wf_Cons)
  then show ?thesis
    by (metis IntI emptyE)
qed

lemma tlsf_walk_Some:
  assumes "chain_wf ts Ls" "tlsf_walk ts n = Some (ts', b, p)"
  shows "\<exists>t xs. (t, xs) \<in> set (zip ts Ls) \<and> p = tpool_addr t \<and> b = tlsf_find_suitable_block t n \<and> b \<noteq> 0
    \<and> ts' = on_tpool p (\<lambda>t. tlsf_take_block t b n) ts"
  using assms
proof (induction ts arbitrary: Ls ts')
  case (Cons t ts)
  then obtain xs Ls' where L: "Ls = xs # Ls'" "chain_wf ts Ls'"
    by (auto simp: chain_wf_Cons)
  show ?case
  proof (cases "tlsf_find_suitable_block t n = 0")
    case True
    then obtain us where us: "tlsf_walk ts n = Some (us, b, p)" "ts' = t # us"
      using Cons.prems(2) by (auto simp: Let_def)
    then obtain u ys where u: "(u, ys) \<in> set (zip ts Ls')" "p = tpool_addr u"
      "b = tlsf_find_suitable_block u n" "b \<noteq> 0" "us = on_tpool p (\<lambda>t. tlsf_take_block t b n) ts"
      using Cons.IH [OF L(2)] by blast
    then have "tpool_addr t \<noteq> p"
      using chain_wf_head_addr [OF Cons.prems(1)] set_zip_leftD [OF u(1)] by fastforce
    with u us L(1) show ?thesis
      by auto
  next
    case False
    with Cons.prems(2) L(1) show ?thesis
      by (auto simp: Let_def)
  qed
qed simp

lemma tlsf_walk_None:
  assumes "tlsf_walk ts n = None" "t \<in> set ts"
  shows "tlsf_find_suitable_block t n = 0"
  using assms by (induction ts) (auto simp: Let_def split: if_splits)

lemma tlsf_walk_live:
  assumes wf: "chain_wf ts Ls" and w: "tlsf_walk ts n = Some (ts', b, p)"
    and n: "n mod 8 = 0" "32 \<le> n" "n < 2 ^ 30"
  obtains Ls' s t xs where "chain_wf ts' Ls'" "n \<le> s" "chain_live ts' Ls' = insert (b, s) (chain_live ts Ls)"
    "b \<notin> fst ` chain_live ts Ls" "(t, xs) \<in> set (zip ts' Ls')" "tpool_addr t = p" "(b, s) \<in> live t xs"
    "map region ts' = map region ts"
proof -
  obtain t xs where t: "(t, xs) \<in> set (zip ts Ls)" "p = tpool_addr t" "b = tlsf_find_suitable_block t n"
    "b \<noteq> 0" "ts' = on_tpool p (\<lambda>t. tlsf_take_block t b n) ts"
    using tlsf_walk_Some [OF wf w] by blast
  have wt: "tlsf_wf t xs"
    using wf t(1) by (auto simp: chain_wf_def list_all2_iff)
  obtain xs' s where T: "tlsf_wf (tlsf_take_block t b n) xs'" "n \<le> s"
    "live (tlsf_take_block t b n) xs' = insert (b, s) (live t xs)" "b \<notin> fst ` live t xs" "raw_area t \<le> b"
    "raw_area (tlsf_take_block t b n) = raw_area t" "raw_size (tlsf_take_block t b n) = raw_size t"
    using tlsf_take_live [OF wt n t(3,4)] by metis
  have "live (tlsf_take_block t b n) xs' = {(b, s)} \<union> (live t xs - {})"
    using T(3) by auto
  from chain_on_tpool [where f = "\<lambda>t. tlsf_take_block t b n", OF wf t(1) T(1,6,7) empty_subsetI this]
  obtain Ls' where L': "chain_wf ts' Ls'" "chain_live ts' Ls' = insert (b, s) (chain_live ts Ls)"
    "(tlsf_take_block t b n, xs') \<in> set (zip ts' Ls')" "map region ts' = map region ts"
    unfolding t(5) t(2) by auto
  have "b \<in> region (tlsf_take_block t b n)"
    using live_region [OF T(1), of b s] T(3) by auto
  then have "b \<in> region t"
    by (simp add: region_def tpool_addr_def T(6,7))
  with wf t(1) have fresh: "b \<notin> fst ` chain_live ts Ls"
    using T(4) by (rule chain_live_fresh)
  show thesis
    by (rule that [OF L'(1) T(2) L'(2) fresh L'(3) _ _ L'(4)])
      (use T in \<open>auto simp: tpool_addr_def t(2)\<close>)
qed

section \<open>The entry points\<close>

definition canary_len :: "nat \<Rightarrow> nat" where
  "canary_len flags = (if has_flag flags MP_FLAG_DEBUG_CANARY then 1 else 0)"

lemma tlsf_total_needed_bounds:
  assumes "req \<le> 2 ^ 28"
  shows "tlsf_total_needed flags req mod 8 = 0" "184 + req + canary_len flags \<le> tlsf_total_needed flags req"
    "tlsf_total_needed flags req < req + 200" "32 \<le> tlsf_total_needed flags req"
    "tlsf_total_needed flags req < 2 ^ 29"
proof -
  let ?r = "sizeof_tlsf_block + sizeof_mp_block_header + req + canary_len flags"
  have c: "canary_len flags \<le> 1"
    by (simp add: canary_len_def)
  have r: "?r = 184 + req + canary_len flags"
    by (simp add: sizeof_tlsf_block_def sizeof_mp_block_header_def)
  have lt: "?r + 7 < 2 ^ 64"
    using assms c by (simp add: r)
  have ge: "?r \<le> align_up8 ?r" "align_up8 ?r < ?r + 8"
    using align_up8_bounds [OF lt] by auto
  have "?r mod 2 ^ 64 = ?r"
    using lt by simp
  then have eq: "tlsf_total_needed flags req = align_up8 ?r"
    using ge by (simp add: tlsf_total_needed_def Let_def canary_len_def [symmetric]
      TLSF_MIN_BLOCK_SIZE_def r)
  show "tlsf_total_needed flags req mod 8 = 0"
    by (simp add: eq)
  show "184 + req + canary_len flags \<le> tlsf_total_needed flags req"
    "tlsf_total_needed flags req < req + 200" "32 \<le> tlsf_total_needed flags req"
    "tlsf_total_needed flags req < 2 ^ 29"
    using ge c assms unfolding eq r by (linarith, linarith, linarith, simp)
qed

text \<open>Memory handed out by the operating system does not overlap the regions in use.\<close>

definition os_fresh :: "addr \<Rightarrow> nat \<Rightarrow> tlsf_pool list \<Rightarrow> bool" where
  "os_fresh os n ts \<longleftrightarrow> (\<forall>t \<in> set ts. {os ..< os + sizeof_tlsf_pool + align_up8 n} \<inter> region t = {})"

lemma tlsf_create_os:
  assumes "os \<noteq> 0" "64 \<le> align_up8 n" "align_up8 n \<le> 2 ^ 30"
  obtains t where "tlsf_create_pool_custom m0 n 0 os = Some t"
    "tlsf_wf t [os + sizeof_tlsf_pool]" "bsz t (os + sizeof_tlsf_pool) = align_up8 n - 32"
    "bfree t (os + sizeof_tlsf_pool)" "raw_area t = os + sizeof_tlsf_pool" "raw_size t = align_up8 n"
  by (rule tlsf_create [OF _ assms(1) refl assms(2,3), of 0 os m0]) (use that in simp_all)

lemma chain_new_region:
  assumes wf: "chain_wf ts Ls" and c: "tlsf_create_pool_custom m0 n 0 os = Some t"
    and n: "64 \<le> align_up8 n" "align_up8 n \<le> 2 ^ 30" and f: "os_fresh os n ts"
  shows "chain_wf (t # ts) ([raw_area t] # Ls)" "chain_live (t # ts) ([raw_area t] # Ls) = chain_live ts Ls"
    "bsz t (raw_area t) = align_up8 n - 32" "raw_area t \<in> free_blocks t [raw_area t]"
    "tlsf_wf t [raw_area t]"
proof -
  have "os \<noteq> 0"
  proof
    assume "os = 0"
    with c show False
      by (simp add: tlsf_create_pool_custom_def Let_def)
  qed
  then obtain t' where t': "tlsf_create_pool_custom m0 n 0 os = Some t'"
    "tlsf_wf t' [os + sizeof_tlsf_pool]" "bsz t' (os + sizeof_tlsf_pool) = align_up8 n - 32"
    "bfree t' (os + sizeof_tlsf_pool)" "raw_area t' = os + sizeof_tlsf_pool" "raw_size t' = align_up8 n"
    by (rule tlsf_create_os [OF _ n])
  with c have t: "t' = t"
    by simp
  note T = t'(2-6) [unfolded t]
  have "region t = {os ..< os + sizeof_tlsf_pool + align_up8 n}"
    by (simp add: region_def tpool_addr_def T(4,5))
  then show "chain_wf (t # ts) ([raw_area t] # Ls)"
    using wf f T(1,4) \<open>os \<noteq> 0\<close> by (simp add: chain_wf_Cons os_fresh_def)
  show "chain_live (t # ts) ([raw_area t] # Ls) = chain_live ts Ls"
    using T(3,4) by (auto simp: live_def)
  show "bsz t (raw_area t) = align_up8 n - 32" "raw_area t \<in> free_blocks t [raw_area t]"
    "tlsf_wf t [raw_area t]"
    using T by (auto simp: free_blocks_def)
qed

lemma align_up8_id: "n mod 8 = 0 \<Longrightarrow> n + 7 < 2 ^ 64 \<Longrightarrow> align_up8 n = n"
  unfolding align_up8_eq by presburger

lemma tlsf_ensure_root_wf:
  assumes wf: "chain_wf (tlsf_root pool) Ls" and e: "tlsf_ensure_root m0 os1 pool = Some pool1"
  obtains Ls1 where "chain_wf (tlsf_root pool1) Ls1"
    "chain_live (tlsf_root pool1) Ls1 = chain_live (tlsf_root pool) Ls" "pflags pool1 = pflags pool"
    "tlsf_root pool1 \<noteq> []" "hdrs pool1 = hdrs pool"
    "tlsf_allocated_bytes pool1 = tlsf_allocated_bytes pool"
proof (cases "tlsf_root pool = []")
  case True
  then obtain t where t: "tlsf_create_pool_custom m0 TLSF_INIT_SIZE 0 os1 = Some t" "tlsf_root pool1 = [t]"
    "pflags pool1 = pflags pool" "hdrs pool1 = hdrs pool"
    "tlsf_allocated_bytes pool1 = tlsf_allocated_bytes pool"
    using e by (auto simp: tlsf_ensure_root_def split: option.splits)
  have a: "align_up8 TLSF_INIT_SIZE = 4194304"
    by (simp add: TLSF_INIT_SIZE_def align_up8_id)
  have "chain_wf [] []"
    by (simp add: chain_wf_def)
  from chain_new_region [OF this t(1)] show ?thesis
    using that [of "[[raw_area t]]"] t True a by (simp add: os_fresh_def)
next
  case False
  then have "pool1 = pool"
    using e by (simp add: tlsf_ensure_root_def)
  then show ?thesis
    using that [of Ls] wf False by simp
qed

lemma tlsf_expand_size_bounds:
  assumes "n < 2 ^ 29" "n mod 8 = 0"
  shows "tlsf_expand_size n mod 8 = 0" "4 * 1024 * 1024 \<le> tlsf_expand_size n" "2 * n \<le> tlsf_expand_size n"
    "tlsf_expand_size n \<le> 2 ^ 30" "align_up8 (tlsf_expand_size n) = tlsf_expand_size n"
proof -
  have "(n * 2) mod 2 ^ 64 = n * 2"
    using assms(1) by simp
  then have "tlsf_expand_size n = (if 4 * 1024 * 1024 < n * 2 then n * 2 else 4 * 1024 * 1024)"
    by (simp add: tlsf_expand_size_def)
  moreover have "(n * 2) mod 8 = 0"
    using assms(2) by presburger
  ultimately show a: "tlsf_expand_size n mod 8 = 0" "4 * 1024 * 1024 \<le> tlsf_expand_size n"
    "2 * n \<le> tlsf_expand_size n" "tlsf_expand_size n \<le> 2 ^ 30"
    using assms(1) by auto
  show "align_up8 (tlsf_expand_size n) = tlsf_expand_size n"
    using a by (intro align_up8_id) simp_all
qed

lemma tlsf_stamp_keeps:
  "tlsf_root (fst (tlsf_stamp pool b p req n)) = tlsf_root pool"
  "pflags (fst (tlsf_stamp pool b p req n)) = pflags pool"
  "snd (tlsf_stamp pool b p req n) = b + 184"
  by (simp_all add: tlsf_stamp_def Let_def sizeof_tlsf_block_def sizeof_mp_block_header_def)

lemma tlsf_stamp_header:
  assumes "184 \<le> n" "n < 2 ^ 64"
  shows "raw_base (hdrs (fst (tlsf_stamp pool b p req n)) (b + 32)) = b"
    "subpool (hdrs (fst (tlsf_stamp pool b p req n)) (b + 32)) = p"
    "hflags (hdrs (fst (tlsf_stamp pool b p req n)) (b + 32)) = 0"
    "alloc_type (hdrs (fst (tlsf_stamp pool b p req n)) (b + 32)) = ALLOC_TYPE_TLSF"
    "requested_size (hdrs (fst (tlsf_stamp pool b p req n)) (b + 32)) = req"
    "usable_size (hdrs (fst (tlsf_stamp pool b p req n)) (b + 32)) = n - 184"
    "h \<noteq> b + 32 \<Longrightarrow> hdrs (fst (tlsf_stamp pool b p req n)) h = hdrs pool h"
    "tlsf_allocated_bytes (fst (tlsf_stamp pool b p req n)) =
      (tlsf_allocated_bytes pool + (n - 184)) mod 2 ^ 64"
proof -
  have "n + 2 ^ 64 - sizeof_tlsf_block - sizeof_mp_block_header = n + 2 ^ 64 - 184"
    by (simp add: sizeof_tlsf_block_def sizeof_mp_block_header_def)
  then have "(n + 2 ^ 64 - sizeof_tlsf_block - sizeof_mp_block_header) mod 2 ^ 64 = n - 184"
    using sub64 [OF assms] by simp
  then show "raw_base (hdrs (fst (tlsf_stamp pool b p req n)) (b + 32)) = b"
    "subpool (hdrs (fst (tlsf_stamp pool b p req n)) (b + 32)) = p"
    "hflags (hdrs (fst (tlsf_stamp pool b p req n)) (b + 32)) = 0"
    "alloc_type (hdrs (fst (tlsf_stamp pool b p req n)) (b + 32)) = ALLOC_TYPE_TLSF"
    "requested_size (hdrs (fst (tlsf_stamp pool b p req n)) (b + 32)) = req"
    "usable_size (hdrs (fst (tlsf_stamp pool b p req n)) (b + 32)) = n - 184"
    "h \<noteq> b + 32 \<Longrightarrow> hdrs (fst (tlsf_stamp pool b p req n)) h = hdrs pool h"
    "tlsf_allocated_bytes (fst (tlsf_stamp pool b p req n)) =
      (tlsf_allocated_bytes pool + (n - 184)) mod 2 ^ 64"
    unfolding tlsf_stamp_def Let_def by (simp_all add: sizeof_tlsf_block_def)
qed

text \<open>An allocation answers null and changes no block, or it stamps a block that the walk over the
  (possibly extended) chain carved out.\<close>

lemma tlsf_alloc_cases:
  assumes wf: "chain_wf (tlsf_root pool) Ls" and req: "req \<le> 2 ^ 28"
    and n: "n = tlsf_total_needed (pflags pool) req"
    and fresh: "\<And>pool1. tlsf_ensure_root m0 os1 pool = Some pool1 \<Longrightarrow> os2 \<noteq> 0
      \<Longrightarrow> os_fresh os2 (tlsf_expand_size n) (tlsf_root pool1)"
    and r: "tlsf_alloc m0 os1 os2 pool req = (pool', p)"
  obtains (null) Ls' where "p = 0" "chain_wf (tlsf_root pool') Ls'" "hdrs pool' = hdrs pool"
      "tlsf_allocated_bytes pool' = tlsf_allocated_bytes pool"
      "chain_live (tlsf_root pool') Ls' = chain_live (tlsf_root pool) Ls"
  | (block) pool2 ts2 Ls2 ts' b a where "chain_wf ts2 Ls2"
      "chain_live ts2 Ls2 = chain_live (tlsf_root pool) Ls" "tlsf_walk ts2 n = Some (ts', b, a)"
      "(pool', p) = tlsf_stamp (pool2\<lparr>tlsf_root := ts'\<rparr>) b a req n" "pflags pool2 = pflags pool"
      "hdrs pool2 = hdrs pool" "tlsf_allocated_bytes pool2 = tlsf_allocated_bytes pool"
proof (cases "tlsf_ensure_root m0 os1 pool")
  case None
  with r null [of Ls] wf show thesis
    by (simp add: tlsf_alloc_def Let_def)
next
  case (Some pool1)
  obtain Ls1 where E: "chain_wf (tlsf_root pool1) Ls1"
    "chain_live (tlsf_root pool1) Ls1 = chain_live (tlsf_root pool) Ls" "pflags pool1 = pflags pool"
    "hdrs pool1 = hdrs pool" "tlsf_allocated_bytes pool1 = tlsf_allocated_bytes pool"
    using tlsf_ensure_root_wf [OF wf Some] by metis
  show thesis
  proof (cases "tlsf_walk (tlsf_root pool1) n")
    case (Some x)
    then obtain ts' b a where "tlsf_walk (tlsf_root pool1) n = Some (ts', b, a)"
      by (cases x) auto
    with block [OF E(1,2) this, of pool1] r \<open>tlsf_ensure_root m0 os1 pool = Some pool1\<close> E show thesis
      by (simp add: tlsf_alloc_def Let_def n)
  next
    case None
    note R = r [unfolded tlsf_alloc_def Let_def n [symmetric] Some None option.case]
    show thesis
    proof (cases "has_flag (pflags pool1) MP_FLAG_STATIC_BUFFER
        \<or> tlsf_create_pool_custom m0 (tlsf_expand_size n) 0 os2 = None")
      case True
      then show thesis
        using R null [of Ls1] E by (auto split: option.splits if_splits)
    next
      case False
      then obtain t where t: "tlsf_create_pool_custom m0 (tlsf_expand_size n) 0 os2 = Some t"
        by auto
      have "n < 2 ^ 29" "n mod 8 = 0"
        using tlsf_total_needed_bounds [OF req] n by auto
      note X = tlsf_expand_size_bounds [OF this]
      have x: "64 \<le> align_up8 (tlsf_expand_size n)" "align_up8 (tlsf_expand_size n) \<le> 2 ^ 30"
        using X by simp_all
      have "os2 \<noteq> 0"
        using t by (cases "os2 = 0") (simp_all add: tlsf_create_pool_custom_def Let_def)
      note C = chain_new_region [OF E(1) t x fresh [OF Some this]]
      show thesis
      proof (cases "tlsf_find_suitable_block t n = 0")
        case True
        then show thesis
          using R False t C(1,2) E null [of "[raw_area t] # Ls1"] by auto
      next
        case nz: False
        let ?b = "tlsf_find_suitable_block t n"
        let ?p = "pool1\<lparr>total_pool_size :=
            (total_pool_size pool1 + tlsf_expand_size n + sizeof_tlsf_pool) mod 2 ^ 64\<rparr>"
        have w: "tlsf_walk (t # tlsf_root pool1) n =
          Some (tlsf_take_block t ?b n # tlsf_root pool1, ?b, tpool_addr t)"
          using nz by (simp add: Let_def)
        have "(pool', p) =
          tlsf_stamp (?p\<lparr>tlsf_root := tlsf_take_block t ?b n # tlsf_root pool1\<rparr>) ?b (tpool_addr t) req n"
          using R False t nz by simp
        from block [OF C(1) _ w this] show thesis
          using C(2) E by simp
      qed
    qed
  qed
qed

text \<open>C16 -- \<open>tlsf_alloc\<close> either answers null and leaves every live block alone, or answers the payload
  address of a block that was not live before, is large enough for the two headers, the payload and
  the canary, and is disjoint from every other live block because the chain stays well formed; all
  other live blocks keep their address and size, and the stamped header leads back to the block.\<close>

theorem tlsf_alloc_correct:
  assumes wf: "chain_wf (tlsf_root pool) Ls" and req: "req \<le> 2 ^ 28"
    and fresh: "\<And>pool1. tlsf_ensure_root m0 os1 pool = Some pool1
      \<Longrightarrow> os_fresh os2 (tlsf_expand_size (tlsf_total_needed (pflags pool) req)) (tlsf_root pool1)"
    and r: "tlsf_alloc m0 os1 os2 pool req = (pool', p)"
  shows "\<exists>Ls'. chain_wf (tlsf_root pool') Ls' \<and>
    (if p = 0 then chain_live (tlsf_root pool') Ls' = chain_live (tlsf_root pool) Ls
     else \<exists>s. 184 + req + canary_len (pflags pool) \<le> s \<and> p - 184 \<notin> fst ` chain_live (tlsf_root pool) Ls
       \<and> chain_live (tlsf_root pool') Ls' = insert (p - 184, s) (chain_live (tlsf_root pool) Ls)
       \<and> raw_base (hdrs pool' (p - 152)) = p - 184 \<and> requested_size (hdrs pool' (p - 152)) = req)"
proof -
  define n where "n = tlsf_total_needed (pflags pool) req"
  note N = tlsf_total_needed_bounds [OF req, of "pflags pool", folded n_def]
  have fresh': "os_fresh os2 (tlsf_expand_size n) (tlsf_root pool1)"
    if "tlsf_ensure_root m0 os1 pool = Some pool1" "os2 \<noteq> 0" for pool1
    using fresh [OF that(1)] by (simp add: n_def)
  show ?thesis
  proof (rule tlsf_alloc_cases [OF wf req n_def fresh' r])
    fix Ls'
    assume "p = 0" "chain_wf (tlsf_root pool') Ls'"
      "chain_live (tlsf_root pool') Ls' = chain_live (tlsf_root pool) Ls"
    then show ?thesis
      by auto
  next
    fix pool2 ts2 Ls2 ts' b a
    assume block: "chain_wf ts2 Ls2" "chain_live ts2 Ls2 = chain_live (tlsf_root pool) Ls"
      "tlsf_walk ts2 n = Some (ts', b, a)"
      "(pool', p) = tlsf_stamp (pool2\<lparr>tlsf_root := ts'\<rparr>) b a req n"
    have n30: "n < 2 ^ 30"
      using N(5) by simp
    obtain Ls' s where W: "chain_wf ts' Ls'" "n \<le> s" "chain_live ts' Ls' = insert (b, s) (chain_live ts2 Ls2)"
      "b \<notin> fst ` chain_live ts2 Ls2"
      using tlsf_walk_live [OF block(1,3) N(1,4) n30] by metis
    let ?p = "pool2\<lparr>tlsf_root := ts'\<rparr>"
    have st: "pool' = fst (tlsf_stamp ?p b a req n)" "p = snd (tlsf_stamp ?p b a req n)"
      using block(4) by (metis fst_conv, metis snd_conv)
    have "184 \<le> n" "n < 2 ^ 64"
      using N(2,5) by simp_all
    note H = tlsf_stamp_header [OF this, where pool = ?p and b = b and p = a and req = req]
    have p: "p = b + 184" "tlsf_root pool' = ts'"
      by (simp_all add: st tlsf_stamp_keeps)
    then have q: "p - 184 = b" "p - 152 = b + 32"
      by simp_all
    have "184 + req + canary_len (pflags pool) \<le> s" "p \<noteq> 0"
      using W(2) N(2) p by linarith+
    then show ?thesis
      using W q H(1,5) block(2) by (intro exI [of _ Ls']) (auto simp: p(2) simp flip: st(1) intro!: exI [of _ s])
  qed
qed

lemma tlsf_alloc_not_null:
  assumes req: "req \<le> 2 ^ 28" and os: "os1 \<noteq> 0" "os2 \<noteq> 0"
    and st: "\<not> has_flag (pflags pool) MP_FLAG_STATIC_BUFFER"
  shows "snd (tlsf_alloc m0 os1 os2 pool req) \<noteq> 0"
proof -
  define n where "n = tlsf_total_needed (pflags pool) req"
  note N = tlsf_total_needed_bounds [OF req, of "pflags pool", folded n_def]
  have i: "64 \<le> align_up8 TLSF_INIT_SIZE" "align_up8 TLSF_INIT_SIZE \<le> 2 ^ 30"
    by (simp_all add: TLSF_INIT_SIZE_def align_up8_id)
  obtain t1 where "tlsf_create_pool_custom m0 TLSF_INIT_SIZE 0 os1 = Some t1"
    by (rule tlsf_create_os [OF os(1) i])
  then obtain pool1 where p1: "tlsf_ensure_root m0 os1 pool = Some pool1" "pflags pool1 = pflags pool"
    by (cases "tlsf_root pool = []") (auto simp: tlsf_ensure_root_def)
  note X = tlsf_expand_size_bounds [OF N(5,1)]
  have e: "64 \<le> align_up8 (tlsf_expand_size n)" "align_up8 (tlsf_expand_size n) \<le> 2 ^ 30"
    using X by simp_all
  obtain t where t: "tlsf_create_pool_custom m0 (tlsf_expand_size n) 0 os2 = Some t"
    "tlsf_wf t [os2 + sizeof_tlsf_pool]" "bsz t (os2 + sizeof_tlsf_pool) = align_up8 (tlsf_expand_size n) - 32"
    "bfree t (os2 + sizeof_tlsf_pool)"
    by (rule tlsf_create_os [OF os(2) e])
  have "tlsf_rounded n \<le> bsz t (os2 + sizeof_tlsf_pool)"
    using tlsf_rounded_le [of n] N(4,5) X(2,3) unfolding t(3) X(5) by simp
  moreover have "bsz t (os2 + sizeof_tlsf_pool) < 2 ^ 32" "n < 2 ^ 31"
    using tlsf_wf_block(7) [OF t(2)] N(5) by simp_all
  ultimately have "tlsf_find_suitable_block t n \<noteq> 0"
    using tlsf_find_complete [OF tlsf_wfD(2) [OF t(2)]] t(4) by (simp add: free_blocks_def)
  then show ?thesis
    using p1 st t(1)
    by (auto simp: tlsf_alloc_def n_def [symmetric] tlsf_stamp_keeps Let_def split: option.splits)
qed

text \<open>C17 -- With memory available from the operating system, a pool that is not confined to a static
  buffer never refuses a request of the TLSF tier.\<close>

theorem tlsf_alloc_succeeds:
  assumes req: "req \<le> 2 ^ 28" and os: "os1 \<noteq> 0" "os2 \<noteq> 0"
    and st: "\<not> has_flag (pflags pool) MP_FLAG_STATIC_BUFFER"
  shows "snd (tlsf_alloc m0 os1 os2 pool req) \<noteq> 0"
  by (rule tlsf_alloc_not_null [OF assms])

lemma tlsf_free_live:
  assumes wf: "chain_wf (tlsf_root pool) Ls" and t: "(t, xs) \<in> set (zip (tlsf_root pool) Ls)"
    and h: "subpool (hdrs pool header) = tpool_addr t" "(raw_base (hdrs pool header), s) \<in> live t xs"
      "hflags (hdrs pool header) AND MP_BLOCK_FLAG_TLSF_ARENA = 0"
  shows "\<exists>pool' Ls'. tlsf_free pool header = Some pool' \<and> chain_wf (tlsf_root pool') Ls'
    \<and> chain_live (tlsf_root pool') Ls' =
        chain_live (tlsf_root pool) Ls - {(raw_base (hdrs pool header), s)}"
proof -
  define b where "b = raw_base (hdrs pool header)"
  have wt: "tlsf_wf t xs"
    using wf t by (auto simp: chain_wf_def list_all2_iff)
  have b: "b \<in> set xs" "\<not> bfree t b" "s = bsz t b"
    using h(2) by (simp_all add: live_iff b_def)
  obtain xs' where R: "tlsf_wf (tlsf_release_block t b) xs'"
    "live (tlsf_release_block t b) xs' = {} \<union> (live t xs - {(b, s)})"
    "raw_area (tlsf_release_block t b) = raw_area t" "raw_size (tlsf_release_block t b) = raw_size t"
    using tlsf_release_live [OF wt b(1,2)] b(3) by auto
  have "{(b, s)} \<subseteq> live t xs"
    using h(2) by (simp add: b_def)
  from chain_on_tpool [where f = "\<lambda>t. tlsf_release_block t b", OF wf t R(1,3,4) this R(2)] show ?thesis
    using h by (auto simp: tlsf_free_def Let_def b_def)
qed

text \<open>Freeing a live block of the tier succeeds, keeps the chain well formed whatever is merged,
  and removes exactly this block from the live blocks.\<close>

theorem tlsf_free_correct:
  assumes wf: "chain_wf (tlsf_root pool) Ls" and t: "(t, xs) \<in> set (zip (tlsf_root pool) Ls)"
    and h: "subpool (hdrs pool header) = tpool_addr t" "(raw_base (hdrs pool header), s) \<in> live t xs"
      "hflags (hdrs pool header) AND MP_BLOCK_FLAG_TLSF_ARENA = 0"
  shows "\<exists>pool' Ls'. tlsf_free pool header = Some pool' \<and> chain_wf (tlsf_root pool') Ls'
    \<and> chain_live (tlsf_root pool') Ls' =
        chain_live (tlsf_root pool) Ls - {(raw_base (hdrs pool header), s)}"
  by (rule tlsf_free_live [OF assms])

lemma get_tpool_in:
  assumes "chain_wf ts Ls" "(t, xs) \<in> set (zip ts Ls)"
  shows "get_tpool (tpool_addr t) ts = Some t"
  using assms
proof (induction ts arbitrary: Ls)
  case (Cons u ts)
  then obtain ys Ls' where L: "Ls = ys # Ls'" "chain_wf ts Ls'"
    by (auto simp: chain_wf_Cons)
  show ?case
  proof (cases "(t, xs) = (u, ys)")
    case False
    then have m: "(t, xs) \<in> set (zip ts Ls')"
      using Cons.prems(2) L(1) by auto
    then show ?thesis
      using Cons.IH [OF L(2) m] chain_wf_head_addr [OF Cons.prems(1) set_zip_leftD [OF m]] by auto
  qed simp
qed simp

text \<open>C18 -- Growing in place either answers false and changes nothing, or the block keeps its address
  and becomes large enough for the new payload, every other live block is untouched and the chain
  stays well formed.\<close>

theorem tlsf_try_inplace_expand_correct:
  assumes wf: "chain_wf (tlsf_root pool) Ls" and t: "(t, xs) \<in> set (zip (tlsf_root pool) Ls)"
    and h: "subpool (hdrs pool header) = tpool_addr t" "(raw_base (hdrs pool header), s) \<in> live t xs"
    and n: "new_size \<le> 2 ^ 28" and r: "tlsf_try_inplace_expand pool header new_size = (pool', ok)"
  shows "if ok then \<exists>Ls' s'. chain_wf (tlsf_root pool') Ls' \<and> 184 + new_size + canary_len (pflags pool) \<le> s'
      \<and> chain_live (tlsf_root pool') Ls' = insert (raw_base (hdrs pool header), s')
          (chain_live (tlsf_root pool) Ls - {(raw_base (hdrs pool header), s)})
      \<and> requested_size (hdrs pool' header) = new_size
    else pool' = pool"
proof (cases ok)
  case False
  then show ?thesis
    using r by (auto simp: tlsf_try_inplace_expand_def Let_def split: if_splits option.splits)
next
  case True
  define b where "b = raw_base (hdrs pool header)"
  define k where "k = tlsf_total_needed (pflags pool) new_size"
  have wt: "tlsf_wf t xs"
    using wf t by (auto simp: chain_wf_def list_all2_iff)
  have b: "b \<in> set xs" "\<not> bfree t b" "s = bsz t b"
    using h(2) by (simp_all add: live_iff b_def)
  note K = tlsf_total_needed_bounds [OF n, of "pflags pool", folded k_def]
  note g = get_tpool_in [OF wf t]
  from True r obtain t' where t': "tlsf_expand_block t b k = Some t'"
    "tlsf_root pool' = on_tpool (tpool_addr t) (\<lambda>_. t') (tlsf_root pool)"
    "requested_size (hdrs pool' header) = new_size"
    by (auto simp: tlsf_try_inplace_expand_def Let_def h(1) g b_def k_def
      split: if_splits option.splits)
  obtain xs' where X: "tlsf_wf t' xs'" "k \<le> bsz t' b"
    "live t' xs' = {(b, bsz t' b)} \<union> (live t xs - {(b, s)})"
    "raw_area t' = raw_area t" "raw_size t' = raw_size t"
    using tlsf_expand_live [OF wt b(1,2) K(1,4) t'(1)] b(3) by auto
  have "{(b, s)} \<subseteq> live t xs"
    using h(2) by (simp add: b_def)
  from chain_on_tpool [where f = "\<lambda>_. t'", OF wf t X(1,4,5) this X(3)]
  obtain Ls' where "chain_wf (tlsf_root pool') Ls'"
    "chain_live (tlsf_root pool') Ls' = insert (b, bsz t' b) (chain_live (tlsf_root pool) Ls - {(b, s)})"
    by (auto simp: t'(2))
  moreover have "184 + new_size + canary_len (pflags pool) \<le> bsz t' b"
    using K(2) X(2) by linarith
  ultimately show ?thesis
    using True t'(3) by (auto simp: b_def)
qed

text \<open>Allocating and freeing again gives back exactly the live blocks and the byte counter the
  tier had before.\<close>

theorem tlsf_alloc_free_roundtrip:
  assumes wf: "chain_wf (tlsf_root pool) Ls" and req: "req \<le> 2 ^ 28"
    and fresh: "\<And>pool1. tlsf_ensure_root m0 os1 pool = Some pool1
      \<Longrightarrow> os_fresh os2 (tlsf_expand_size (tlsf_total_needed (pflags pool) req)) (tlsf_root pool1)"
    and bytes: "tlsf_allocated_bytes pool < 2 ^ 64"
    and r: "tlsf_alloc m0 os1 os2 pool req = (pool', p)" "p \<noteq> 0"
  shows "\<exists>pool'' Ls''. tlsf_free pool' (p - 152) = Some pool'' \<and> chain_wf (tlsf_root pool'') Ls''
    \<and> chain_live (tlsf_root pool'') Ls'' = chain_live (tlsf_root pool) Ls
    \<and> tlsf_allocated_bytes pool'' = tlsf_allocated_bytes pool"
proof -
  define n where "n = tlsf_total_needed (pflags pool) req"
  note N = tlsf_total_needed_bounds [OF req, of "pflags pool", folded n_def]
  have n: "184 \<le> n" "n < 2 ^ 64" "n < 2 ^ 30"
    using N(2,5) by simp_all
  have fresh': "os_fresh os2 (tlsf_expand_size n) (tlsf_root pool1)"
    if "tlsf_ensure_root m0 os1 pool = Some pool1" "os2 \<noteq> 0" for pool1
    using fresh [OF that(1)] by (simp add: n_def)
  show ?thesis
  proof (rule tlsf_alloc_cases [OF wf req n_def fresh' r(1)])
    fix pool2 ts2 Ls2 ts' b a
    assume block: "chain_wf ts2 Ls2" "chain_live ts2 Ls2 = chain_live (tlsf_root pool) Ls"
      "tlsf_walk ts2 n = Some (ts', b, a)"
      "(pool', p) = tlsf_stamp (pool2\<lparr>tlsf_root := ts'\<rparr>) b a req n"
      "tlsf_allocated_bytes pool2 = tlsf_allocated_bytes pool"
    obtain Ls' s t xs where W: "chain_wf ts' Ls'" "chain_live ts' Ls' = insert (b, s) (chain_live ts2 Ls2)"
      "b \<notin> fst ` chain_live ts2 Ls2" "(t, xs) \<in> set (zip ts' Ls')" "tpool_addr t = a" "(b, s) \<in> live t xs"
      using tlsf_walk_live [OF block(1,3) N(1,4) n(3)] by metis
    let ?p = "pool2\<lparr>tlsf_root := ts'\<rparr>"
    have st: "pool' = fst (tlsf_stamp ?p b a req n)" "p = snd (tlsf_stamp ?p b a req n)"
      using block(4) by (metis fst_conv, metis snd_conv)
    note H = tlsf_stamp_header [OF n(1,2), where pool = ?p and b = b and p = a and req = req, folded st(1)]
    have p: "p - 152 = b + 32" "tlsf_root pool' = ts'"
      by (simp_all add: st tlsf_stamp_keeps)
    have "subpool (hdrs pool' (b + 32)) = tpool_addr t" "(raw_base (hdrs pool' (b + 32)), s) \<in> live t xs"
      "hflags (hdrs pool' (b + 32)) AND MP_BLOCK_FLAG_TLSF_ARENA = 0"
      using H(1-3) W(5,6) by simp_all
    from tlsf_free_live [OF W(1) [folded p(2)] W(4) [folded p(2)] this]
    obtain pool'' Ls'' where F: "tlsf_free pool' (b + 32) = Some pool''" "chain_wf (tlsf_root pool'') Ls''"
      "chain_live (tlsf_root pool'') Ls'' = chain_live (tlsf_root pool') Ls' - {(b, s)}"
      using H(1) by auto
    have "tlsf_allocated_bytes pool'' = (tlsf_allocated_bytes pool' + 2 ^ 64 - (n - 184)) mod 2 ^ 64"
      using F(1) H(3,6) by (simp add: tlsf_free_def Let_def split: if_splits) auto
    also have "\<dots> = tlsf_allocated_bytes pool"
      unfolding H(8) using wrap_add_sub [of "tlsf_allocated_bytes pool" "n - 184"] bytes n block(5) by simp
    finally have "tlsf_allocated_bytes pool'' = tlsf_allocated_bytes pool" .
    moreover have "chain_live (tlsf_root pool'') Ls'' = chain_live (tlsf_root pool) Ls"
      using F(3) W(2,3) block(2) p(2) by force
    ultimately show ?thesis
      using F(1,2) p(1) by auto
  qed (use r(2) in auto)
qed

end
