(* ===== verification/Tlsf_Trace.thy ===== *)
theory Tlsf_Trace
  imports Tlsf_Tier
begin

text \<open>
  Histories of a TLSF region: every sequence of allocations, releases and in-place growths that a
  region can undergo from its creation on.  \<open>L\<close> is what the clients hold, the addresses of the blocks
  handed out and not yet released.  The invariants of \<open>Tlsf_Layout\<close> hold along every history, so
  the properties below need no assumption on the shape of the heap.
\<close>

inductive tlsf_run :: "tlsf_pool \<Rightarrow> addr set \<Rightarrow> bool" where
  create: "tlsf_create_pool_custom m0 sz custom sys = Some t \<Longrightarrow> 64 \<le> align_up8 sz
    \<Longrightarrow> align_up8 sz \<le> 2 ^ 30 \<Longrightarrow> tlsf_run t {}"
| alloc: "tlsf_run t L \<Longrightarrow> req \<le> 2 ^ 28 \<Longrightarrow> n = tlsf_total_needed flags req
    \<Longrightarrow> b = tlsf_find_suitable_block t n \<Longrightarrow> b \<noteq> 0 \<Longrightarrow> tlsf_run (tlsf_take_block t b n) (insert b L)"
| free: "tlsf_run t L \<Longrightarrow> b \<in> L \<Longrightarrow> tlsf_run (tlsf_release_block t b) (L - {b})"
| grow: "tlsf_run t L \<Longrightarrow> b \<in> L \<Longrightarrow> req \<le> 2 ^ 28 \<Longrightarrow> n = tlsf_total_needed flags req
    \<Longrightarrow> tlsf_expand_block t b n = Some t' \<Longrightarrow> tlsf_run t' L"

lemma tlsf_create_wf:
  assumes "tlsf_create_pool_custom m0 sz custom sys = Some t" "64 \<le> align_up8 sz" "align_up8 sz \<le> 2 ^ 30"
  shows "tlsf_wf t [raw_area t]" "bfree t (raw_area t)" "coalesced t [raw_area t]"
    "bsz t (raw_area t) = align_up8 sz - 32" "raw_size t = align_up8 sz"
proof -
  define raw where "raw = (if custom \<noteq> 0 then custom else sys)"
  have "raw \<noteq> 0"
  proof
    assume "raw = 0"
    then have "tlsf_create_pool_custom m0 sz custom sys = None"
      by (intro tlsf_create_null) (simp add: raw_def)
    with assms(1) show False
      by simp
  qed
  then obtain t' where t': "tlsf_create_pool_custom m0 sz custom sys = Some t'"
    "tlsf_wf t' [raw + sizeof_tlsf_pool]" "bsz t' (raw + sizeof_tlsf_pool) = align_up8 sz - 32"
    "bfree t' (raw + sizeof_tlsf_pool)" "\<not> bprev_free t' (raw + sizeof_tlsf_pool)"
    "raw_area t' = raw + sizeof_tlsf_pool" "raw_size t' = align_up8 sz"
    by (rule tlsf_create [OF raw_def _ refl assms(2,3)])
  then have "t' = t"
    using assms(1) by simp
  note T = t'(2-7) [unfolded this]
  show "tlsf_wf t [raw_area t]" "bfree t (raw_area t)" "bsz t (raw_area t) = align_up8 sz - 32"
    "raw_size t = align_up8 sz"
    using T by simp_all
  show "coalesced t [raw_area t]"
    using T by (simp add: coalesced_def)
qed

lemma tlsf_run_inv:
  "tlsf_run t L \<Longrightarrow> \<exists>xs. tlsf_wf t xs \<and> coalesced t xs \<and> L = fst ` live t xs \<and> 64 \<le> raw_size t"
proof (induction rule: tlsf_run.induct)
  case (create m0 sz custom sys t)
  note C = tlsf_create_wf [OF create]
  then show ?case
    using create by (intro exI [of _ "[raw_area t]"]) (auto simp: live_def)
next
  case (alloc t L req n flags b)
  then obtain xs where xs: "tlsf_wf t xs" "coalesced t xs" "L = fst ` live t xs" "64 \<le> raw_size t"
    by blast
  have "n mod 8 = 0" "32 \<le> n" "n < 2 ^ 30"
    using tlsf_total_needed_bounds [OF alloc(2), of flags] alloc(3) by simp_all
  from tlsf_take_live [OF xs(1) this alloc(4,5)] xs(2-4) show ?case
    by (metis fst_conv image_insert)
next
  case (free t L b)
  then obtain xs where xs: "tlsf_wf t xs" "coalesced t xs" "L = fst ` live t xs" "64 \<le> raw_size t"
    by blast
  then have b: "b \<in> set xs" "\<not> bfree t b"
    using free(2) by (auto simp: live_def)
  obtain xs' where R: "tlsf_wf (tlsf_release_block t b) xs'"
    "live (tlsf_release_block t b) xs' = live t xs - {(b, bsz t b)}"
    "coalesced (tlsf_release_block t b) xs'" "raw_size (tlsf_release_block t b) = raw_size t"
    using tlsf_release_live [OF xs(1) b] xs(2) by metis
  moreover have "L - {b} = fst ` (live t xs - {(b, bsz t b)})"
    by (auto simp: xs(3) live_def image_iff)
  ultimately show ?case
    using xs(4) by (intro exI [of _ xs']) simp
next
  case (grow t L b req n flags t')
  then obtain xs where xs: "tlsf_wf t xs" "coalesced t xs" "L = fst ` live t xs" "64 \<le> raw_size t"
    by blast
  then have b: "b \<in> set xs" "\<not> bfree t b"
    using grow(2) by (auto simp: live_def)
  have n: "n mod 8 = 0" "32 \<le> n"
    using tlsf_total_needed_bounds [OF grow(3), of flags] grow(4) by simp_all
  obtain xs' where R: "tlsf_wf t' xs'" "live t' xs' = insert (b, bsz t' b) (live t xs - {(b, bsz t b)})"
    "coalesced t' xs'" "raw_size t' = raw_size t"
    using tlsf_expand_live [OF xs(1) b n grow(5)] xs(2) by metis
  moreover have "L = fst ` insert (b, bsz t' b) (live t xs - {(b, bsz t b)})"
    using b by (auto simp: xs(3) live_def image_iff)
  ultimately show ?case
    using xs(4) by (intro exI [of _ xs']) simp
qed


text \<open>Blocks handed out never overlap: along every history, two different blocks held by clients
  occupy disjoint address ranges inside the region.\<close>

theorem tlsf_no_overlap:
  assumes "tlsf_run t L" "x \<in> L" "y \<in> L" "x \<noteq> y"
  shows "(x + bsz t x \<le> y \<or> y + bsz t y \<le> x)
    \<and> raw_area t \<le> x \<and> x + bsz t x \<le> raw_area t + raw_size t"
proof -
  obtain xs where xs: "tlsf_wf t xs" "L = fst ` live t xs"
    using tlsf_run_inv [OF assms(1)] by blast
  then have l: "(x, bsz t x) \<in> live t xs" "(y, bsz t y) \<in> live t xs"
    using assms(2,3) by (auto simp: live_def)
  show ?thesis
    using live_disjoint [OF xs(1) l assms(4)] live_inside [OF xs(1) l(1)] by simp
qed


text \<open>C15 -- The two-level search is a good fit.  A block it answers with is free and at least as large as
  the request; and it answers null only when no free block is larger than the request by more than a
  sixteenth.\<close>

theorem tlsf_search_good_fit:
  assumes "tlsf_wf t xs" "n < 2 ^ 30"
  shows "(tlsf_find_suitable_block t n \<noteq> 0 \<longrightarrow>
      tlsf_find_suitable_block t n \<in> free_blocks t xs \<and> n \<le> bsz t (tlsf_find_suitable_block t n))
    \<and> ((\<exists>x \<in> free_blocks t xs. 17 * n \<le> 16 * bsz t x) \<longrightarrow> tlsf_find_suitable_block t n \<noteq> 0)"
proof (intro conjI impI)
  note idx = tlsf_wfD(2) [OF assms(1)]
  have n: "n < 2 ^ 31" "n < 2 ^ 32"
    using assms(2) by simp_all
  have small: "bsz t x < 2 ^ 32" if "x \<in> free_blocks t xs" for x
    using tlsf_wf_block(7) [OF assms(1), of x] that by (simp add: free_blocks_def)
  show "tlsf_find_suitable_block t n \<in> free_blocks t xs" if "tlsf_find_suitable_block t n \<noteq> 0"
    by (rule tlsf_find_sound [OF idx n(1) that])
  then show "n \<le> bsz t (tlsf_find_suitable_block t n)" if "tlsf_find_suitable_block t n \<noteq> 0"
    using tlsf_accepts_sound [OF n(2) small tlsf_find_sound(2) [OF idx n(1) that]] that by blast
  show "tlsf_find_suitable_block t n \<noteq> 0" if large: "\<exists>x \<in> free_blocks t xs. 17 * n \<le> 16 * bsz t x"
  proof -
    from large obtain x where x: "x \<in> free_blocks t xs" "17 * n \<le> 16 * bsz t x"
      by blast
    then have "tlsf_rounded n \<le> bsz t x"
      using tlsf_rounded_le [OF n(2)] by linarith
    then show ?thesis
      by (rule tlsf_find_complete [OF idx n(1) x(1) small [OF x(1)]])
  qed
qed

text \<open>The bit scan looks at the low 32 bits of the size only, so beyond 4 GiB the size classes
  no longer order sizes: a request of 4 GiB and 64 bytes is served from the bucket of 64-byte blocks.\<close>

theorem tlsf_search_truncates:
  "tlsf_accepts (2 ^ 32 + 64) (tlsf_mapping_insert 64)"
proof -
  have "tlsf_fls (2 ^ 32 + 64) = 6" "tlsf_fls 64 = 6"
    by (simp_all add: tlsf_fls_def clz32_def bitlen.simps)
  then show ?thesis
    by (simp add: tlsf_accepts_def tlsf_mapping_search_def tlsf_mapping_insert_def TLSF_SL_SHIFT_def
      drop_bit_eq_div Let_def)
qed

section \<open>A concrete history\<close>

definition blank_block :: tlsf_block where
  "blank_block = \<lparr>size_and_flags = 0, prev_physical = 0, next_free = 0, prev_free = 0\<rparr>"

definition ex_region :: tlsf_pool where
  "ex_region = the (tlsf_create_pool_custom (\<lambda>_. blank_block) 4096 0 65536)"

definition ex_first :: tlsf_pool where
  "ex_first = tlsf_take_block ex_region (raw_area ex_region) (tlsf_total_needed 0 100)"

definition ex_second :: tlsf_pool where
  "ex_second = tlsf_take_block ex_first (raw_area ex_region + 288) (tlsf_total_needed 0 40)"

lemma ex_needed: "tlsf_total_needed 0 100 = 288" "tlsf_total_needed 0 40 = 224"
  by (simp_all add: tlsf_total_needed_def sizeof_tlsf_block_def sizeof_mp_block_header_def
    has_flag_def Let_def align_up8_eq TLSF_MIN_BLOCK_SIZE_def)

lemma ex_region_facts:
  "tlsf_create_pool_custom (\<lambda>_. blank_block) 4096 0 65536 = Some ex_region"
  "align_up8 4096 = 4096"
proof -
  show "align_up8 4096 = 4096"
    by (simp add: align_up8_id)
  then obtain t where "tlsf_create_pool_custom (\<lambda>_. blank_block) 4096 0 65536 = Some t"
    using tlsf_create_os [of 65536 4096 "\<lambda>_. blank_block"] by auto
  then show "tlsf_create_pool_custom (\<lambda>_. blank_block) 4096 0 65536 = Some ex_region"
    by (simp add: ex_region_def)
qed

lemma ex_region_wf:
  "tlsf_wf ex_region [raw_area ex_region]" "bfree ex_region (raw_area ex_region)"
  "bsz ex_region (raw_area ex_region) = 4064" "tlsf_run ex_region {}"
  using tlsf_create_wf [OF ex_region_facts(1)] tlsf_run.create [OF ex_region_facts(1)]
  by (simp_all add: ex_region_facts(2))

lemma single_free_found:
  assumes "tlsf_wf t xs" "free_blocks t xs = {x}" "n < 2 ^ 30" "17 * n \<le> 16 * bsz t x" "bsz t x < 2 ^ 30"
  shows "tlsf_find_suitable_block t n = x" "x \<noteq> 0"
proof -
  have "tlsf_rounded n \<le> bsz t x" "n < 2 ^ 31" "bsz t x < 2 ^ 32"
    using tlsf_rounded_le [of n] assms(3-5) by simp_all
  then have "tlsf_find_suitable_block t n \<noteq> 0"
    using tlsf_find_complete [OF tlsf_wfD(2) [OF assms(1)]] assms(2) by auto
  then show "tlsf_find_suitable_block t n = x" "x \<noteq> 0"
    using tlsf_find_sound(1) [OF tlsf_wfD(2) [OF assms(1)] \<open>n < 2 ^ 31\<close>] assms(2) by auto
qed

lemma ex_first_facts:
  "tlsf_wf ex_first [raw_area ex_region, raw_area ex_region + 288]"
  "free_blocks ex_first [raw_area ex_region, raw_area ex_region + 288] = {raw_area ex_region + 288}"
  "bsz ex_first (raw_area ex_region + 288) = 3776" "tlsf_run ex_first {raw_area ex_region}"
proof -
  note E = ex_region_wf
  have T: "tlsf_wf ex_first [raw_area ex_region, raw_area ex_region + 288]"
    "bsz ex_first = (bsz ex_region)(raw_area ex_region := 288, raw_area ex_region + 288 := 3776)"
    "bfree ex_first = (bfree ex_region)(raw_area ex_region := False, raw_area ex_region + 288 := True)"
    using tlsf_take_split [of ex_region "[]" "raw_area ex_region" "[]" 288] E
    by (simp_all add: ex_first_def ex_needed)
  show "tlsf_wf ex_first [raw_area ex_region, raw_area ex_region + 288]"
    "free_blocks ex_first [raw_area ex_region, raw_area ex_region + 288] = {raw_area ex_region + 288}"
    "bsz ex_first (raw_area ex_region + 288) = 3776"
    using T by (auto simp: free_blocks_def)
  have "tlsf_find_suitable_block ex_region 288 = raw_area ex_region" "raw_area ex_region \<noteq> 0"
    using single_free_found [OF E(1), of "raw_area ex_region" 288] E(2,3) by (auto simp: free_blocks_def)
  then show "tlsf_run ex_first {raw_area ex_region}"
    using tlsf_run.alloc [OF E(4), of 100 288 0 "raw_area ex_region"] by (simp add: ex_first_def ex_needed)
qed

lemma ex_second_run:
  "tlsf_run ex_second {raw_area ex_region, raw_area ex_region + 288}"
proof -
  note E = ex_first_facts
  have "tlsf_find_suitable_block ex_first 224 = raw_area ex_region + 288" "raw_area ex_region + 288 \<noteq> 0"
    using single_free_found [OF E(1,2), of 224] E(3) by simp_all
  then show ?thesis
    using tlsf_run.alloc [OF E(4), of 40 224 0 "raw_area ex_region + 288"]
    by (simp add: ex_second_def ex_needed insert_commute)
qed


theorem tlsf_no_overlap_witness:
  "raw_area ex_region + bsz ex_second (raw_area ex_region) \<le> raw_area ex_region + 288
   \<or> raw_area ex_region + 288 + bsz ex_second (raw_area ex_region + 288) \<le> raw_area ex_region"
  using tlsf_no_overlap [OF ex_second_run, of "raw_area ex_region" "raw_area ex_region + 288"] by simp


theorem tlsf_search_good_fit_witness:
  "tlsf_find_suitable_block ex_region 288 \<in> free_blocks ex_region [raw_area ex_region]
   \<and> 288 \<le> bsz ex_region (tlsf_find_suitable_block ex_region 288)"
  using tlsf_search_good_fit [OF ex_region_wf(1), of 288] ex_region_wf(2,3) by (auto simp: free_blocks_def)

section \<open>A concrete tier\<close>

definition ex_header :: mp_block_header where
  "ex_header = \<lparr>magic = MP_MAGIC_HEAD, alloc_type = ALLOC_TYPE_TLSF, slab_class = 0, hflags = 0,
     requested_size = 100, usable_size = 104, raw_base = raw_area ex_region,
     subpool = tpool_addr ex_region, alloc_file = 0, alloc_line = 0, alloc_func = 0,
     backtrace_depth = 0, hprev = 0, hnext = 0\<rparr>"

definition ex_tier :: "tlsf_pool \<Rightarrow> tlsf_tier" where
  "ex_tier t = \<lparr>pflags = 0, tlsf_root = [t], total_pool_size = 0, tlsf_allocated_bytes = 104,
     hdrs = (\<lambda>_. ex_header), bytes = (\<lambda>_. 0)\<rparr>"

lemma ex_areas:
  "raw_area ex_region = 88776" "raw_size ex_region = 4096" "raw_area ex_first = 88776" "raw_size ex_first = 4096"
  "tpool_addr ex_first = tpool_addr ex_region"
proof -
  obtain t where "tlsf_create_pool_custom (\<lambda>_. blank_block) 4096 0 65536 = Some t"
    "raw_area t = 65536 + sizeof_tlsf_pool" "raw_size t = align_up8 4096"
    by (rule tlsf_create_os [of 65536 4096]) (simp_all add: ex_region_facts(2))
  then show a: "raw_area ex_region = 88776" "raw_size ex_region = 4096"
    using ex_region_facts by (simp_all add: sizeof_tlsf_pool_def)
  have "raw_area ex_first = raw_area ex_region" "raw_size ex_first = raw_size ex_region"
    using tlsf_take_split(5,6) [of ex_region "[]" "raw_area ex_region" "[]" 288] ex_region_wf
    by (simp_all add: ex_first_def ex_needed)
  with a show "raw_area ex_first = 88776" "raw_size ex_first = 4096" "tpool_addr ex_first = tpool_addr ex_region"
    by (simp_all add: tpool_addr_def)
qed

lemma ex_chain:
  "chain_wf [ex_region] [[88776]]" "chain_wf [ex_first] [[88776, 89064]]"
  "os_fresh (2 ^ 40) 4194304 [ex_region]" "(88776, 288) \<in> live ex_first [88776, 89064]"
proof -
  show "chain_wf [ex_region] [[88776]]" "chain_wf [ex_first] [[88776, 89064]]"
    using ex_region_wf(1) ex_first_facts(1) by (simp_all add: chain_wf_def ex_areas sizeof_tlsf_pool_def)
  show "os_fresh (2 ^ 40) 4194304 [ex_region]"
    by (auto simp: os_fresh_def region_def ex_areas)
  have "bsz ex_first 88776 = 288" "\<not> bfree ex_first 88776"
    using tlsf_take_split(2,3) [of ex_region "[]" "raw_area ex_region" "[]" 288] ex_region_wf
    by (simp_all add: ex_first_def ex_needed ex_areas)
  then show "(88776, 288) \<in> live ex_first [88776, 89064]"
    by (simp add: live_iff)
qed

lemma ex_tier_fresh:
  "tlsf_ensure_root m0 os1 (ex_tier ex_region) = Some pool1
    \<Longrightarrow> os_fresh (2 ^ 40) (tlsf_expand_size (tlsf_total_needed (pflags (ex_tier ex_region)) 100)) (tlsf_root pool1)"
  using ex_chain(3) by (auto simp: tlsf_ensure_root_def ex_tier_def ex_needed tlsf_expand_size_def)

lemma ex_tier_chain: "chain_wf (tlsf_root (ex_tier ex_region)) [[88776]]" "(100::nat) \<le> 2 ^ 28"
  using ex_chain(1) by (simp_all add: ex_tier_def)

theorem tlsf_alloc_correct_witness:
  "\<exists>Ls'. chain_wf (tlsf_root (fst (tlsf_alloc (\<lambda>_. blank_block) 65536 (2 ^ 40) (ex_tier ex_region) 100))) Ls'"
  using tlsf_alloc_correct [OF ex_tier_chain ex_tier_fresh [of "\<lambda>_. blank_block" 65536]
    prod.collapse [symmetric]]
  by blast

theorem tlsf_alloc_succeeds_witness:
  "snd (tlsf_alloc (\<lambda>_. blank_block) 65536 (2 ^ 40) (ex_tier ex_region) 100) \<noteq> 0"
  by (rule tlsf_alloc_succeeds) (simp_all add: ex_tier_def has_flag_def)

theorem tlsf_free_correct_witness:
  "\<exists>pool' Ls'. tlsf_free (ex_tier ex_first) 88808 = Some pool' \<and> chain_wf (tlsf_root pool') Ls'
    \<and> chain_live (tlsf_root pool') Ls' = chain_live [ex_first] [[88776, 89064]] - {(88776, 288)}"
  using tlsf_free_correct [of "ex_tier ex_first" "[[88776, 89064]]" ex_first "[88776, 89064]" 88808 288]
    ex_chain(2,4) by (simp add: ex_tier_def ex_header_def ex_areas)

lemma ex_tier_header:
  "chain_wf (tlsf_root (ex_tier ex_first)) [[88776, 89064]]"
  "(ex_first, [88776, 89064]) \<in> set (zip (tlsf_root (ex_tier ex_first)) [[88776, 89064]])"
  "subpool (hdrs (ex_tier ex_first) 88808) = tpool_addr ex_first"
  "(raw_base (hdrs (ex_tier ex_first) 88808), 288) \<in> live ex_first [88776, 89064]" "(200::nat) \<le> 2 ^ 28"
  using ex_chain(2,4) by (simp_all add: ex_tier_def ex_header_def ex_areas)

theorem tlsf_try_inplace_expand_correct_witness:
  "if snd (tlsf_try_inplace_expand (ex_tier ex_first) 88808 200)
   then \<exists>Ls' s'. chain_wf (tlsf_root (fst (tlsf_try_inplace_expand (ex_tier ex_first) 88808 200))) Ls'
     \<and> 184 + 200 + canary_len (pflags (ex_tier ex_first)) \<le> s'
     \<and> chain_live (tlsf_root (fst (tlsf_try_inplace_expand (ex_tier ex_first) 88808 200))) Ls' =
         insert (raw_base (hdrs (ex_tier ex_first) 88808), s')
           (chain_live (tlsf_root (ex_tier ex_first)) [[88776, 89064]]
             - {(raw_base (hdrs (ex_tier ex_first) 88808), 288)})
     \<and> requested_size (hdrs (fst (tlsf_try_inplace_expand (ex_tier ex_first) 88808 200)) 88808) = 200
   else fst (tlsf_try_inplace_expand (ex_tier ex_first) 88808 200) = ex_tier ex_first"
  by (rule tlsf_try_inplace_expand_correct [OF ex_tier_header prod.collapse [symmetric]])

lemma ex_tier_bytes: "tlsf_allocated_bytes (ex_tier ex_region) < 2 ^ 64"
  by (simp add: ex_tier_def)

lemma ex_tier_succeeds:
  "snd (tlsf_alloc (\<lambda>_. blank_block) 65536 (2 ^ 40) (ex_tier ex_region) 100) \<noteq> 0"
  by (rule tlsf_alloc_not_null) (simp_all add: ex_tier_def has_flag_def)

theorem tlsf_alloc_free_roundtrip_witness:
  "\<exists>pool'' Ls''. tlsf_free (fst (tlsf_alloc (\<lambda>_. blank_block) 65536 (2 ^ 40) (ex_tier ex_region) 100))
      (snd (tlsf_alloc (\<lambda>_. blank_block) 65536 (2 ^ 40) (ex_tier ex_region) 100) - 152) = Some pool''
    \<and> chain_wf (tlsf_root pool'') Ls''
    \<and> chain_live (tlsf_root pool'') Ls'' = chain_live (tlsf_root (ex_tier ex_region)) [[88776]]
    \<and> tlsf_allocated_bytes pool'' = tlsf_allocated_bytes (ex_tier ex_region)"
  by (rule tlsf_alloc_free_roundtrip [OF ex_tier_chain
      ex_tier_fresh [of "\<lambda>_. blank_block" 65536] ex_tier_bytes prod.collapse [symmetric] ex_tier_succeeds])

end
