(* ===== verification/Tlsf_Arena.thy ===== *)
theory Tlsf_Arena
  imports Tlsf_Layout Cmem_Types "HOL-Library.Monad_Syntax"
begin

text \<open>
  The per-thread TLSF arenas of \<open>src/src/cmem_slab.c\<close> (multi-arena child pools): a single
  address-sorted free list with eager coalescing, a mailbox through which other threads hand blocks
  back, retirement and cleanup.

  Loops that follow pointers are partial functions to \<open>option\<close>: \<open>None\<close> would be a loop that never
  ends.  The operations are shown to return on every well-formed arena, to keep it well formed, and
  well-formedness is shown to imply what the code's own validator \<open>tlsf_arena_validate\<close> checks, so
  the assertions of a debug build never fire.
\<close>

section \<open>The store\<close>

type_synonym bmem = "addr \<Rightarrow> tlsf_block"

definition st_word :: "addr \<Rightarrow> nat \<Rightarrow> bmem \<Rightarrow> bmem" where
  "st_word b v m = m(b := (m b)\<lparr>size_and_flags := v\<rparr>)"

definition st_pp :: "addr \<Rightarrow> addr \<Rightarrow> bmem \<Rightarrow> bmem" where
  "st_pp b v m = m(b := (m b)\<lparr>prev_physical := v\<rparr>)"

definition st_nx :: "addr \<Rightarrow> addr \<Rightarrow> bmem \<Rightarrow> bmem" where
  "st_nx b v m = m(b := (m b)\<lparr>next_free := v\<rparr>)"

definition st_pv :: "addr \<Rightarrow> addr \<Rightarrow> bmem \<Rightarrow> bmem" where
  "st_pv b v m = m(b := (m b)\<lparr>prev_free := v\<rparr>)"

definition ld_word :: "bmem \<Rightarrow> addr \<Rightarrow> nat" where "ld_word m b = size_and_flags (m b)"
definition ld_free :: "bmem \<Rightarrow> addr \<Rightarrow> bool" where "ld_free m b = blk_free (ld_word m b)"
definition ld_prev_free :: "bmem \<Rightarrow> addr \<Rightarrow> bool" where "ld_prev_free m b = blk_prev_free (ld_word m b)"
definition ld_pp :: "bmem \<Rightarrow> addr \<Rightarrow> addr" where "ld_pp m b = prev_physical (m b)"
definition ld_nx :: "bmem \<Rightarrow> addr \<Rightarrow> addr" where "ld_nx m b = next_free (m b)"
definition ld_pv :: "bmem \<Rightarrow> addr \<Rightarrow> addr" where "ld_pv m b = prev_free (m b)"

definition tlsf_arena_span :: "bmem \<Rightarrow> addr \<Rightarrow> nat" where
  "tlsf_arena_span m b = blk_size (ld_word m b)"

section \<open>Arenas\<close>

record tlsf_arena =
  araw :: addr
  asize :: nat
  free_list :: addr
  asentinel :: addr
  live_bytes :: nat
  remote_free :: addr
  retired :: bool
  cleanup_claimed :: bool
  finished :: bool
  amem :: bmem

definition TLSF_ARENA_DEFAULT_SIZE :: nat where
  "TLSF_ARENA_DEFAULT_SIZE = 256 * 1024"

definition on_mem :: "(bmem \<Rightarrow> bmem) \<Rightarrow> tlsf_arena \<Rightarrow> tlsf_arena" where
  "on_mem f a = a\<lparr>amem := f (amem a)\<rparr>"

definition tlsf_arena_unlink_free :: "tlsf_arena \<Rightarrow> addr \<Rightarrow> tlsf_arena" where
  "tlsf_arena_unlink_free a block =
     (let a = (if ld_pv (amem a) block \<noteq> 0
               then on_mem (st_nx (ld_pv (amem a) block) (ld_nx (amem a) block)) a
               else a\<lparr>free_list := ld_nx (amem a) block\<rparr>);
          a = (if ld_nx (amem a) block \<noteq> 0
               then on_mem (st_pv (ld_nx (amem a) block) (ld_pv (amem a) block)) a else a);
          a = on_mem (st_nx block 0) a
      in on_mem (st_pv block 0) a)"

text \<open>The scan for the insertion point: the last listed block below \<open>block\<close> and the first above.\<close>

partial_function (option) arena_scan :: "bmem \<Rightarrow> addr \<Rightarrow> addr \<Rightarrow> addr \<Rightarrow> (addr \<times> addr) option" where
  "arena_scan m block prev cur =
     (if cur \<noteq> 0 \<and> cur < block then arena_scan m block cur (ld_nx m cur) else Some (prev, cur))"

definition arena_merge_forward :: "tlsf_arena \<Rightarrow> addr \<Rightarrow> addr \<Rightarrow> tlsf_arena \<times> addr" where
  "arena_merge_forward a block cur =
     (if cur \<noteq> 0 \<and> block + tlsf_arena_span (amem a) block = cur
      then let after = ld_nx (amem a) cur;
               merged = tlsf_arena_span (amem a) block + tlsf_arena_span (amem a) cur;
               a = tlsf_arena_unlink_free a cur
           in (on_mem (st_word block (merged OR BLOCK_STATE_FREE)) a, after)
      else (a, cur))"

definition arena_merge_backward :: "tlsf_arena \<Rightarrow> addr \<Rightarrow> addr \<Rightarrow> tlsf_arena \<times> addr \<times> addr" where
  "arena_merge_backward a block prev =
     (if prev \<noteq> 0 \<and> prev + tlsf_arena_span (amem a) prev = block
      then let before = ld_pv (amem a) prev;
               merged = tlsf_arena_span (amem a) prev + tlsf_arena_span (amem a) block;
               a = tlsf_arena_unlink_free a prev
           in (on_mem (st_word prev (merged OR BLOCK_STATE_FREE)) a, prev, before)
      else (a, block, prev))"

definition arena_link :: "tlsf_arena \<Rightarrow> addr \<Rightarrow> addr \<Rightarrow> addr \<Rightarrow> tlsf_arena" where
  "arena_link a block prev cur =
     (let a = on_mem (st_nx block cur) a;
          a = on_mem (st_pv block prev) a;
          a = (if prev \<noteq> 0 then on_mem (st_nx prev block) a else a\<lparr>free_list := block\<rparr>);
          a = (if cur \<noteq> 0 then on_mem (st_pv cur block) a else a);
          after = block + tlsf_arena_span (amem a) block;
          a = (if after \<noteq> asentinel a
               then on_mem (st_word after (ld_word (amem a) after OR BLOCK_STATE_PREV_FREE)) a else a)
      in on_mem (st_pp after block) a)"

definition tlsf_arena_insert_free :: "tlsf_arena \<Rightarrow> addr \<Rightarrow> tlsf_arena option" where
  "tlsf_arena_insert_free a block = do {
     (prev, cur) \<leftarrow> arena_scan (amem a) block 0 (free_list a);
     let (a, cur) = arena_merge_forward a block cur;
     let (a, block, prev) = arena_merge_backward a block prev;
     Some (arena_link a block prev cur)
   }"

text \<open>\<open>raw\<close> is the answer of \<open>sys_mem_alloc\<close>, \<open>m0\<close> the contents of that memory.\<close>

definition tlsf_arena_init :: "bmem \<Rightarrow> addr \<Rightarrow> tlsf_arena option" where
  "tlsf_arena_init m0 raw =
     (if raw = 0 then None
      else let sent = raw + TLSF_ARENA_DEFAULT_SIZE - sizeof_tlsf_block;
               m = st_word raw ((TLSF_ARENA_DEFAULT_SIZE - sizeof_tlsf_block) OR BLOCK_STATE_FREE) m0;
               m = st_pv raw 0 (st_nx raw 0 (st_pp raw 0 m));
               m = st_pv sent 0 (st_nx sent 0 (st_pp sent raw (st_word sent 0 m)))
           in Some \<lparr>araw = raw, asize = TLSF_ARENA_DEFAULT_SIZE, free_list = raw, asentinel = sent,
                    live_bytes = 0, remote_free = 0, retired = False, cleanup_claimed = False,
                    finished = False, amem = m\<rparr>)"

partial_function (option) arena_reap_loop :: "tlsf_arena \<Rightarrow> addr \<Rightarrow> tlsf_arena option" where
  "arena_reap_loop a block =
     (if block = 0 then Some a
      else let next = ld_nx (amem a) block;
               a = on_mem (st_word block (tlsf_arena_span (amem a) block OR BLOCK_STATE_FREE)) a
           in Option.bind (tlsf_arena_insert_free a block) (\<lambda>a. arena_reap_loop a next))"

definition tlsf_arena_reap :: "tlsf_arena \<Rightarrow> tlsf_arena option" where
  "tlsf_arena_reap a = arena_reap_loop (a\<lparr>remote_free := 0\<rparr>) (remote_free a)"

partial_function (option) arena_first_fit :: "bmem \<Rightarrow> nat \<Rightarrow> addr \<Rightarrow> addr option" where
  "arena_first_fit m total_needed block =
     (if block \<noteq> 0 \<and> tlsf_arena_span m block < total_needed
      then arena_first_fit m total_needed (ld_nx m block) else Some block)"

text \<open>Answer \<open>0\<close> is the null pointer.\<close>

definition arena_carve :: "tlsf_arena \<Rightarrow> addr \<Rightarrow> nat \<Rightarrow> tlsf_arena option" where
  "arena_carve a block total_needed =
     (let block_size = tlsf_arena_span (amem a) block;
          remaining = (block_size + 2 ^ 64 - total_needed) mod 2 ^ 64;
          after = block + block_size;
          a = tlsf_arena_unlink_free a block
      in if TLSF_MIN_BLOCK_SIZE + sizeof_tlsf_block \<le> remaining
         then let remainder = block + total_needed;
                  a = on_mem (st_word block total_needed) a;
                  a = on_mem (st_word remainder (remaining OR BLOCK_STATE_FREE)) a;
                  a = on_mem (st_pp remainder block) a
              in tlsf_arena_insert_free a remainder
         else let a = on_mem (st_word block block_size) a;
                  a = on_mem (st_pp after block) a
              in Some (if after \<noteq> asentinel a
                       then on_mem (st_word after
                              (ld_word (amem a) after AND not64 BLOCK_STATE_PREV_FREE)) a
                       else a))"

definition tlsf_arena_alloc :: "tlsf_arena \<Rightarrow> nat \<Rightarrow> (tlsf_arena \<times> addr) option" where
  "tlsf_arena_alloc a total_needed = do {
     a \<leftarrow> (if remote_free a \<noteq> 0 then tlsf_arena_reap a else Some a);
     block \<leftarrow> arena_first_fit (amem a) total_needed (free_list a);
     if block = 0 then Some (a, 0)
     else do {
       a \<leftarrow> arena_carve a block total_needed;
       Some (a\<lparr>live_bytes := (live_bytes a + tlsf_arena_span (amem a) block) mod 2 ^ 64\<rparr>, block)
     }
   }"

text \<open>Cleanup hands the region back to the operating system and takes its size off the counter of the
  owning pool (\<open>ptotal\<close>).  The owner thread of a call is the argument \<open>own\<close>: whether
  \<open>tls_cache.tlsf_arena\<close> is this arena.\<close>

definition tlsf_arena_cleanup :: "nat \<Rightarrow> tlsf_arena \<Rightarrow> (nat \<times> tlsf_arena) option" where
  "tlsf_arena_cleanup ptotal a = do {
     a \<leftarrow> tlsf_arena_reap a;
     let (ptotal, a) = (if araw a \<noteq> 0
       then ((ptotal + 2 ^ 64 - asize a) mod 2 ^ 64, a\<lparr>araw := 0\<rparr>) else (ptotal, a));
     Some (ptotal, a\<lparr>finished := True\<rparr>)
   }"

definition arena_claim_cleanup :: "nat \<Rightarrow> tlsf_arena \<Rightarrow> (nat \<times> tlsf_arena) option" where
  "arena_claim_cleanup ptotal a =
     (if cleanup_claimed a then Some (ptotal, a)
      else tlsf_arena_cleanup ptotal (a\<lparr>cleanup_claimed := True\<rparr>))"

text \<open>\<open>tls\<close> tells whether the calling thread's arena belongs to the pool being flushed.\<close>

definition tlsf_arena_retire :: "bool \<Rightarrow> nat \<Rightarrow> tlsf_arena \<Rightarrow> (nat \<times> tlsf_arena) option" where
  "tlsf_arena_retire tls ptotal a =
     (if \<not> tls then Some (ptotal, a)
      else let a = a\<lparr>retired := True\<rparr>
           in if live_bytes a = 0 then arena_claim_cleanup ptotal a else Some (ptotal, a))"

definition tlsf_arena_free_block :: "bool \<Rightarrow> nat \<Rightarrow> tlsf_arena \<Rightarrow> addr \<Rightarrow> (nat \<times> tlsf_arena) option" where
  "tlsf_arena_free_block own ptotal a block = do {
     let span = tlsf_arena_span (amem a) block;
     a \<leftarrow> (if own \<and> \<not> retired a
           then tlsf_arena_insert_free (on_mem (st_word block (span OR BLOCK_STATE_FREE)) a) block
           else Some ((on_mem (st_nx block (remote_free a)) a)\<lparr>remote_free := block\<rparr>));
     let prev_live = live_bytes a;
     let a = a\<lparr>live_bytes := (live_bytes a + 2 ^ 64 - span) mod 2 ^ 64\<rparr>;
     if prev_live = span \<and> retired a then arena_claim_cleanup ptotal a else Some (ptotal, a)
   }"

fun tlsf_arena_registry_release :: "nat \<Rightarrow> tlsf_arena list \<Rightarrow> nat" where
  "tlsf_arena_registry_release ptotal [] = ptotal"
| "tlsf_arena_registry_release ptotal (a # rest) =
     (let ptotal = (if \<not> finished a \<and> araw a \<noteq> 0 then (ptotal + 2 ^ 64 - asize a) mod 2 ^ 64 else ptotal)
      in tlsf_arena_registry_release ptotal rest)"

text \<open>The validator: the walk along the physical chain answers the last block and where it stopped, the
  walk along the free list a verdict.\<close>

function arena_check_chain :: "bmem \<Rightarrow> addr \<Rightarrow> addr \<Rightarrow> addr \<Rightarrow> (addr \<times> addr) option" where
  "arena_check_chain m e prev block =
     (if block < e
      then let span = tlsf_arena_span m block
           in if span < TLSF_MIN_BLOCK_SIZE \<or> span AND 7 \<noteq> 0 then None
              else if e < block + span then None
              else if ld_pp m block \<noteq> prev then None
              else if (prev \<noteq> 0 \<and> ld_free m prev) \<noteq> ld_prev_free m block then None
              else arena_check_chain m e block (block + span)
      else Some (prev, block))"
  by pat_completeness auto
termination
  by (relation "measure (\<lambda>(m, e, prev, block). e - block)") (auto simp: TLSF_MIN_BLOCK_SIZE_def)

function arena_check_list :: "bmem \<Rightarrow> addr \<Rightarrow> addr \<Rightarrow> addr \<Rightarrow> addr \<Rightarrow> bool" where
  "arena_check_list m raw e prev block =
     (if block = 0 then True
      else if \<not> ld_free m block then False
      else if ld_pv m block \<noteq> prev then False
      else if prev \<noteq> 0 \<and> (block \<le> prev \<or> prev + tlsf_arena_span m prev = block) then False
      else if block < raw \<or> e < block + tlsf_arena_span m block then False
      else arena_check_list m raw e block (ld_nx m block))"
  by pat_completeness auto
termination
  by (relation "measure (\<lambda>(m, raw, e, prev, block). Suc e - prev)") auto

declare arena_check_chain.simps [simp del] arena_check_list.simps [simp del]

definition tlsf_arena_validate :: "tlsf_arena \<Rightarrow> bool" where
  "tlsf_arena_validate a =
     (if araw a = 0 then False
      else let e = araw a + asize a - sizeof_tlsf_block
           in case arena_check_chain (amem a) e 0 (araw a) of
                None \<Rightarrow> False
              | Some (prev, block) \<Rightarrow>
                  block = e \<and> ld_word (amem a) block = 0 \<and> ld_pp (amem a) block = prev
                  \<and> arena_check_list (amem a) (araw a) e 0 (free_list a))"

definition tlsf_arena_validate_current :: "tlsf_arena option \<Rightarrow> bool" where
  "tlsf_arena_validate_current tls_arena =
     (case tls_arena of None \<Rightarrow> True | Some a \<Rightarrow> tlsf_arena_validate a)"

section \<open>Laws of the store\<close>

named_theorems arena_loads \<open>what a load sees after a store\<close>

lemma load_st_word [arena_loads]:
  "ld_word (st_word b v m) = (ld_word m)(b := v)"
  "tlsf_arena_span (st_word b v m) = (tlsf_arena_span m)(b := blk_size v)"
  "ld_free (st_word b v m) = (ld_free m)(b := blk_free v)"
  "ld_prev_free (st_word b v m) = (ld_prev_free m)(b := blk_prev_free v)"
  "ld_pp (st_word b v m) = ld_pp m"
  "ld_nx (st_word b v m) = ld_nx m"
  "ld_pv (st_word b v m) = ld_pv m"
  by (auto simp: fun_eq_iff st_word_def ld_word_def tlsf_arena_span_def ld_free_def ld_prev_free_def
    ld_pp_def ld_nx_def ld_pv_def)

lemma load_st_pp [arena_loads]:
  "ld_word (st_pp b v m) = ld_word m"
  "tlsf_arena_span (st_pp b v m) = tlsf_arena_span m"
  "ld_free (st_pp b v m) = ld_free m"
  "ld_prev_free (st_pp b v m) = ld_prev_free m"
  "ld_pp (st_pp b v m) = (ld_pp m)(b := v)"
  "ld_nx (st_pp b v m) = ld_nx m"
  "ld_pv (st_pp b v m) = ld_pv m"
  by (auto simp: fun_eq_iff st_pp_def ld_word_def tlsf_arena_span_def ld_free_def ld_prev_free_def
    ld_pp_def ld_nx_def ld_pv_def)

lemma load_st_nx [arena_loads]:
  "ld_word (st_nx b v m) = ld_word m"
  "tlsf_arena_span (st_nx b v m) = tlsf_arena_span m"
  "ld_free (st_nx b v m) = ld_free m"
  "ld_prev_free (st_nx b v m) = ld_prev_free m"
  "ld_pp (st_nx b v m) = ld_pp m"
  "ld_nx (st_nx b v m) = (ld_nx m)(b := v)"
  "ld_pv (st_nx b v m) = ld_pv m"
  by (auto simp: fun_eq_iff st_nx_def ld_word_def tlsf_arena_span_def ld_free_def ld_prev_free_def
    ld_pp_def ld_nx_def ld_pv_def)

lemma load_st_pv [arena_loads]:
  "ld_word (st_pv b v m) = ld_word m"
  "tlsf_arena_span (st_pv b v m) = tlsf_arena_span m"
  "ld_free (st_pv b v m) = ld_free m"
  "ld_prev_free (st_pv b v m) = ld_prev_free m"
  "ld_pp (st_pv b v m) = ld_pp m"
  "ld_nx (st_pv b v m) = ld_nx m"
  "ld_pv (st_pv b v m) = (ld_pv m)(b := v)"
  by (auto simp: fun_eq_iff st_pv_def ld_word_def tlsf_arena_span_def ld_free_def ld_prev_free_def
    ld_pp_def ld_nx_def ld_pv_def)

lemma on_mem_simps [simp]:
  "amem (on_mem f a) = f (amem a)" "araw (on_mem f a) = araw a" "asize (on_mem f a) = asize a"
  "free_list (on_mem f a) = free_list a" "asentinel (on_mem f a) = asentinel a"
  "live_bytes (on_mem f a) = live_bytes a" "remote_free (on_mem f a) = remote_free a"
  "retired (on_mem f a) = retired a" "cleanup_claimed (on_mem f a) = cleanup_claimed a"
  "finished (on_mem f a) = finished a"
  by (simp_all add: on_mem_def)

text \<open>The free list of an arena is an intrusive list in its store.\<close>

interpretation al: dll_store ld_nx ld_pv st_nx st_pv
  by unfold_locales (simp_all add: arena_loads)

end
