(* ===== verification/Arena_Layout.thy ===== *)
theory Arena_Layout
  imports Tlsf_Arena
begin

text \<open>
  The invariant of a per-thread arena and its preservation by unlinking, inserting with coalescing,
  carving and reaping.  \<open>arena_wf a xs\<close> says that the blocks \<open>xs\<close> tile the region, that the free
  list is exactly the sublist of free blocks (hence address-sorted), that no two neighbours are free
  and that every \<open>PREV_FREE\<close> flag is exact.  \<open>arena_loose\<close> is the state in the middle of an
  insertion: the block \<open>x\<close> is marked free and not yet listed, and the header after it has not yet
  been told.
\<close>

definition arena_frame :: "tlsf_arena \<Rightarrow> bool" where
  "arena_frame a \<longleftrightarrow> 0 < araw a \<and> asentinel a = araw a + asize a - sizeof_tlsf_block
     \<and> 64 \<le> asize a \<and> asize a \<le> 2 ^ 30 \<and> ld_word (amem a) (asentinel a) = 0"

definition arena_wf :: "tlsf_arena \<Rightarrow> addr list \<Rightarrow> bool" where
  "arena_wf a xs \<longleftrightarrow> arena_frame a
     \<and> phys (tlsf_arena_span (amem a)) (ld_pp (amem a)) 0 (araw a) xs (asentinel a)
     \<and> dll (ld_nx (amem a)) (ld_pv (amem a)) (free_list a) (filter (ld_free (amem a)) xs)
     \<and> fseg (ld_free (amem a)) (ld_prev_free (amem a)) False xs"

definition arena_loose :: "tlsf_arena \<Rightarrow> addr list \<Rightarrow> addr \<Rightarrow> addr list \<Rightarrow> bool" where
  "arena_loose a us x vs \<longleftrightarrow> arena_frame a
     \<and> pseg (tlsf_arena_span (amem a)) (ld_pp (amem a)) 0 (araw a) us x
     \<and> ld_pp (amem a) x = last (0 # us)
     \<and> TLSF_MIN_BLOCK_SIZE \<le> tlsf_arena_span (amem a) x \<and> tlsf_arena_span (amem a) x mod 8 = 0
     \<and> (\<exists>q. phys (tlsf_arena_span (amem a)) (ld_pp (amem a)) q (x + tlsf_arena_span (amem a) x) vs (asentinel a))
     \<and> dll (ld_nx (amem a)) (ld_pv (amem a)) (free_list a) (filter (ld_free (amem a)) (us @ vs))
     \<and> ld_free (amem a) x \<and> \<not> ld_prev_free (amem a) x
     \<and> fseg (ld_free (amem a)) (ld_prev_free (amem a)) False us
     \<and> (vs \<noteq> [] \<longrightarrow> fseg (ld_free (amem a)) (ld_prev_free (amem a)) (ld_free (amem a) (hd vs)) (tl vs))"

lemma arena_frame_cong:
  assumes "arena_frame a" "araw a' = araw a" "asize a' = asize a" "asentinel a' = asentinel a"
    and "ld_word (amem a') (asentinel a) = ld_word (amem a) (asentinel a)"
  shows "arena_frame a'"
  using assms by (auto simp: arena_frame_def)

lemma arena_looseD:
  assumes "arena_loose a us x vs"
  shows "arena_frame a" "pseg (tlsf_arena_span (amem a)) (ld_pp (amem a)) 0 (araw a) us x"
    "ld_pp (amem a) x = last (0 # us)"
    "TLSF_MIN_BLOCK_SIZE \<le> tlsf_arena_span (amem a) x" "tlsf_arena_span (amem a) x mod 8 = 0"
    "\<exists>q. phys (tlsf_arena_span (amem a)) (ld_pp (amem a)) q (x + tlsf_arena_span (amem a) x) vs (asentinel a)"
    "dll (ld_nx (amem a)) (ld_pv (amem a)) (free_list a) (filter (ld_free (amem a)) (us @ vs))"
    "ld_free (amem a) x" "\<not> ld_prev_free (amem a) x"
    "fseg (ld_free (amem a)) (ld_prev_free (amem a)) False us"
    "vs \<noteq> [] \<Longrightarrow> fseg (ld_free (amem a)) (ld_prev_free (amem a)) (ld_free (amem a) (hd vs)) (tl vs)"
  using assms by (simp_all add: arena_loose_def)

lemma arena_loose_order:
  assumes "arena_loose a us x vs"
  shows "y \<in> set us \<Longrightarrow> y < x" "y \<in> set us \<Longrightarrow> y + tlsf_arena_span (amem a) y \<le> x"
    "y \<in> set vs \<Longrightarrow> x + tlsf_arena_span (amem a) x \<le> y" "y \<in> set vs \<Longrightarrow> y < asentinel a"
    "x + tlsf_arena_span (amem a) x \<le> asentinel a" "x < x + tlsf_arena_span (amem a) x" "araw a \<le> x"
    "vs = [] \<Longrightarrow> x + tlsf_arena_span (amem a) x = asentinel a"
    "vs \<noteq> [] \<Longrightarrow> x + tlsf_arena_span (amem a) x = hd vs"
    "distinct us" "distinct vs" "x \<notin> set us" "x \<notin> set vs" "set us \<inter> set vs = {}" "0 < x"
    "tlsf_arena_span (amem a) x < 2 ^ 30"
proof -
  note L = arena_looseD [OF assms]
  obtain q where q: "phys (tlsf_arena_span (amem a)) (ld_pp (amem a)) q (x + tlsf_arena_span (amem a) x) vs (asentinel a)"
    using L(6) by blast
  note pb = pseg_bounds [OF L(2)]
  show us: "y \<in> set us \<Longrightarrow> y < x" "y \<in> set us \<Longrightarrow> y + tlsf_arena_span (amem a) y \<le> x" for y
    using pb by auto
  show vs: "y \<in> set vs \<Longrightarrow> x + tlsf_arena_span (amem a) x \<le> y" "y \<in> set vs \<Longrightarrow> y < asentinel a" for y
    using phys_bounds [OF q] by auto
  show le: "x + tlsf_arena_span (amem a) x \<le> asentinel a"
    using phys_bounds(1) [OF q] .
  show lt: "x < x + tlsf_arena_span (amem a) x"
    using L(4) by (simp add: TLSF_MIN_BLOCK_SIZE_def)
  show rx: "araw a \<le> x"
    using pb by simp
  then show "0 < x"
    using L(1) by (simp add: arena_frame_def)
  show "vs = [] \<Longrightarrow> x + tlsf_arena_span (amem a) x = asentinel a"
    "vs \<noteq> [] \<Longrightarrow> x + tlsf_arena_span (amem a) x = hd vs"
    using q by (auto simp: neq_Nil_conv)
  show "x \<notin> set us" "x \<notin> set vs"
    using us(1) [of x] vs(1) [of x] lt by auto
  show "set us \<inter> set vs = {}"
    using us(1) vs(1) lt by fastforce
  show "distinct vs"
    using phys_distinct [OF q] by simp
  show "distinct us"
    using L(2) pseg_distinct by blast
  show "tlsf_arena_span (amem a) x < 2 ^ 30"
    using le rx L(1) by (auto simp: arena_frame_def sizeof_tlsf_block_def)
qed

lemma unlink_free_spec:
  assumes "dll (ld_nx (amem a)) (ld_pv (amem a)) (free_list a) L" "c \<in> set L"
    and "a' = tlsf_arena_unlink_free a c"
  shows "dll (ld_nx (amem a')) (ld_pv (amem a')) (free_list a') (remove1 c L)"
    "ld_word (amem a') = ld_word (amem a)" "tlsf_arena_span (amem a') = tlsf_arena_span (amem a)"
    "ld_free (amem a') = ld_free (amem a)" "ld_prev_free (amem a') = ld_prev_free (amem a)"
    "ld_pp (amem a') = ld_pp (amem a)" "araw a' = araw a" "asize a' = asize a" "asentinel a' = asentinel a"
    "remote_free a' = remote_free a" "live_bytes a' = live_bytes a" "retired a' = retired a"
    "y \<notin> set L \<Longrightarrow> ld_nx (amem a') y = ld_nx (amem a) y"
proof -
  let ?m = "amem a"
  define s1 s2 where "s1 = (if ld_pv ?m c \<noteq> 0 then st_nx (ld_pv ?m c) (ld_nx ?m c) ?m else ?m)"
    and "s2 = (if ld_nx s1 c \<noteq> 0 then st_pv (ld_nx s1 c) (ld_pv s1 c) s1 else s1)"
  define h where "h = (if ld_pv ?m c \<noteq> 0 then free_list a else ld_nx ?m c)"
  have a': "amem a' = st_pv c 0 (st_nx c 0 s2)" "free_list a' = h"
    by (auto simp: assms(3) tlsf_arena_unlink_free_def Let_def s1_def s2_def h_def)
  have "c \<notin> set (remove1 c L)"
    using dll_distinct [OF assms(1)] by simp
  then show "dll (ld_nx (amem a')) (ld_pv (amem a')) (free_list a') (remove1 c L)"
    using al.unlink [OF assms(1,2) s1_def s2_def h_def] by (simp add: a' arena_loads)
  show "ld_word (amem a') = ld_word (amem a)" "tlsf_arena_span (amem a') = tlsf_arena_span (amem a)"
    "ld_free (amem a') = ld_free (amem a)" "ld_prev_free (amem a') = ld_prev_free (amem a)"
    "ld_pp (amem a') = ld_pp (amem a)"
    by (simp_all add: a' s2_def s1_def arena_loads)
  show "araw a' = araw a" "asize a' = asize a" "asentinel a' = asentinel a" "remote_free a' = remote_free a"
    "live_bytes a' = live_bytes a" "retired a' = retired a"
    by (simp_all add: assms(3) tlsf_arena_unlink_free_def Let_def)
  show "y \<notin> set L \<Longrightarrow> ld_nx (amem a') y = ld_nx (amem a) y"
    using al.unlink_writes(1) [OF assms(1,2) _ s1_def s2_def] assms(2) by (auto simp: a' arena_loads)
qed

lemma arena_scan_spec:
  "dllseg (ld_nx m) pv p h (A @ B) 0 \<Longrightarrow> \<forall>y \<in> set A. y < x \<Longrightarrow> \<forall>y \<in> set B. x < y
    \<Longrightarrow> arena_scan m x p h = Some (last (p # A), if B = [] then 0 else hd B)"
proof (induction A arbitrary: p h)
  case Nil
  then show ?case
    by (subst arena_scan.simps) (cases B; auto)
next
  case (Cons y A)
  then have "h = y" "y \<noteq> 0" "y < x" and seg: "dllseg (ld_nx m) pv y (ld_nx m y) (A @ B) 0"
    by auto
  then have "arena_scan m x p h = arena_scan m x y (ld_nx m y)"
    by (subst arena_scan.simps) simp
  also have "\<dots> = Some (last (y # A), if B = [] then 0 else hd B)"
    using Cons.IH [OF seg] Cons.prems(2,3) by simp
  finally show ?case
    by simp
qed

section \<open>Insertion with coalescing\<close>

text \<open>Where the free list continues after a block.\<close>

definition first_free :: "tlsf_arena \<Rightarrow> addr list \<Rightarrow> addr" where
  "first_free a vs = (case filter (ld_free (amem a)) vs of [] \<Rightarrow> 0 | y # _ \<Rightarrow> y)"

definition last_free :: "tlsf_arena \<Rightarrow> addr list \<Rightarrow> addr" where
  "last_free a us = last (0 # filter (ld_free (amem a)) us)"

lemma arena_scan_loose:
  assumes "arena_loose a us x vs"
  shows "arena_scan (amem a) x 0 (free_list a) = Some (last_free a us, first_free a vs)"
proof -
  note O = arena_loose_order [OF assms]
  have "x < y" if "y \<in> set vs" for y
    using O(3) [OF that] O(6) by linarith
  then show ?thesis
    using arena_scan_spec [of "amem a" "ld_pv (amem a)" 0 "free_list a" "filter (ld_free (amem a)) us"
      "filter (ld_free (amem a)) vs" x] arena_looseD(7) [OF assms] O(1)
    by (auto simp: last_free_def first_free_def split: list.splits)
qed

text \<open>An update of the block \<open>x\<close> and of list links outside the listed blocks.\<close>

lemma merge_forward_loose:
  assumes lo: "arena_loose a us x vs" and r: "arena_merge_forward a x (first_free a vs) = (a1, cur1)"
  defines "vs1 \<equiv> (if vs \<noteq> [] \<and> ld_free (amem a) (hd vs) then tl vs else vs)"
  shows "arena_loose a1 us x vs1 \<and> cur1 = first_free a1 vs1 \<and> last_free a1 us = last_free a us
    \<and> (vs1 \<noteq> [] \<longrightarrow> \<not> ld_free (amem a1) (hd vs1))
    \<and> ld_free (amem a1) = ld_free (amem a)
    \<and> (\<forall>y. y \<noteq> x \<longrightarrow> tlsf_arena_span (amem a1) y = tlsf_arena_span (amem a) y)
    \<and> (\<forall>y. \<not> ld_free (amem a) y \<longrightarrow> ld_nx (amem a1) y = ld_nx (amem a) y)
    \<and> araw a1 = araw a \<and> asize a1 = asize a \<and> remote_free a1 = remote_free a \<and> live_bytes a1 = live_bytes a
    \<and> retired a1 = retired a"
proof (cases "vs \<noteq> [] \<and> ld_free (amem a) (hd vs)")
  case False
  note O = arena_loose_order [OF lo]
  have "first_free a vs = 0 \<or> first_free a vs \<noteq> x + tlsf_arena_span (amem a) x"
  proof (cases "filter (ld_free (amem a)) vs")
    case (Cons y ys)
    then have "y \<in> set (filter (ld_free (amem a)) vs)"
      by simp
    then have "y \<in> set vs" "ld_free (amem a) y"
      by auto
    then have "vs \<noteq> []" "y \<noteq> hd vs"
      using False by auto
    then show ?thesis
      using O(9) Cons by (simp add: first_free_def)
  qed (simp add: first_free_def)
  then have "a1 = a" "cur1 = first_free a vs"
    using r by (auto simp: arena_merge_forward_def split: if_splits)
  then show ?thesis
    using lo False by (auto simp: vs1_def)
next
  case True
  note L = arena_looseD [OF lo] and O = arena_loose_order [OF lo]
  obtain c ws where vs: "vs = c # ws" "ld_free (amem a) c"
    using True by (cases vs) auto
  let ?s = "tlsf_arena_span (amem a)" and ?F = "filter (ld_free (amem a))"
  define u where "u = tlsf_arena_unlink_free a c"
  have c: "x + ?s x = c" "c \<noteq> 0" "first_free a vs = c"
    using O(9) vs O(15) by (auto simp: first_free_def)
  have a1: "a1 = on_mem (st_word x ((?s x + ?s c) OR BLOCK_STATE_FREE)) u" "cur1 = ld_nx (amem a) c"
    using r c by (auto simp: arena_merge_forward_def Let_def u_def)
  have cin: "c \<in> set (?F (us @ vs))" "c \<notin> set us"
    using vs O(14) by auto
  note U = unlink_free_spec [OF L(7) cin(1) u_def]
  have rem: "remove1 c (?F (us @ vs)) = ?F (us @ ws)"
    using vs cin(2) by (simp add: remove1_append)
  obtain q where q: "phys ?s (ld_pp (amem a)) q c vs (asentinel a)"
    using L(6) c(1) by auto
  then have tail: "phys ?s (ld_pp (amem a)) c (c + ?s c) ws (asentinel a)" and cs: "?s c mod 8 = 0" "32 \<le> ?s c"
    using vs by (auto simp: TLSF_MIN_BLOCK_SIZE_def)
  have le: "c + ?s c \<le> asentinel a"
    using phys_bounds(1) [OF tail] .
  have sum: "(?s x + ?s c) mod 8 = 0" "?s x + ?s c < 2 ^ 64"
    using L(5) cs le c(1) O(7) L(1) by (presburger, auto simp: arena_frame_def)
  note al = blk_aligned [OF sum]
  have S: "tlsf_arena_span (amem a1) = ?s(x := ?s x + ?s c)" "ld_free (amem a1) = ld_free (amem a)"
    "ld_prev_free (amem a1) = ld_prev_free (amem a)" "ld_pp (amem a1) = ld_pp (amem a)"
    "ld_nx (amem a1) = ld_nx (amem u)" "ld_pv (amem a1) = ld_pv (amem u)" "free_list a1 = free_list u"
    "araw a1 = araw a" "asize a1 = asize a" "asentinel a1 = asentinel a" "remote_free a1 = remote_free a"
    "live_bytes a1 = live_bytes a" "retired a1 = retired a"
    using L(8,9) by (auto simp: a1 arena_loads U al fun_eq_iff)
  have nx: "x \<notin> set us" "x \<notin> set ws" "x \<noteq> asentinel a"
    using O(5,6,12,13) vs by auto
  have e: "x + (?s x + ?s c) = c + ?s c"
    using c(1) by linarith
  have tail1: "phys (tlsf_arena_span (amem a1)) (ld_pp (amem a1)) c
      (x + tlsf_arena_span (amem a1) x) ws (asentinel a1)"
    using tail nx by (simp add: S e)
  have fs: "fseg (ld_free (amem a)) (ld_prev_free (amem a)) True ws"
    using L(11) vs by simp
  then have ws: "ws \<noteq> [] \<Longrightarrow> \<not> ld_free (amem a) (hd ws)"
      "ws \<noteq> [] \<Longrightarrow> fseg (ld_free (amem a)) (ld_prev_free (amem a)) (ld_free (amem a) (hd ws)) (tl ws)"
    by (cases ws; auto)+
  have "arena_loose a1 us x ws"
    unfolding arena_loose_def
  proof (intro conjI)
    show "arena_frame a1"
      using nx(3) by (intro arena_frame_cong [OF L(1) S(8-10)]) (simp add: a1 arena_loads U)
    show "\<exists>q. phys (tlsf_arena_span (amem a1)) (ld_pp (amem a1)) q (x + tlsf_arena_span (amem a1) x) ws (asentinel a1)"
      using tail1 by blast
    show "dll (ld_nx (amem a1)) (ld_pv (amem a1)) (free_list a1) (filter (ld_free (amem a1)) (us @ ws))"
      using U(1) rem by (simp add: S)
  qed (use L nx sum ws in \<open>simp_all add: S TLSF_MIN_BLOCK_SIZE_def\<close>)
  moreover have "cur1 = first_free a1 ws"
  proof -
    have "dllseg (ld_nx (amem a)) (ld_pv (amem a)) 0 (free_list a) (?F us @ c # ?F ws) 0"
      using L(7) vs by simp
    then show ?thesis
      by (auto simp: a1(2) dllseg_append first_free_def S(2) split: list.splits)
  qed
  moreover have "vs1 = ws" "last_free a1 us = last_free a us"
    using vs by (simp_all add: vs1_def last_free_def S)
  moreover have "\<forall>y. \<not> ld_free (amem a) y \<longrightarrow> ld_nx (amem a1) y = ld_nx (amem a) y"
    using U(13) by (auto simp: S)
  ultimately show ?thesis
    using ws(1) by (simp add: S)
qed

lemma merge_backward_loose:
  assumes lo: "arena_loose a us x vs" and r: "arena_merge_backward a x (last_free a us) = (a1, x1, prev1)"
  defines "m \<equiv> us \<noteq> [] \<and> ld_free (amem a) (last us)"
  defines "us1 \<equiv> (if m then butlast us else us)"
  shows "arena_loose a1 us1 x1 vs \<and> x1 = (if m then last us else x) \<and> prev1 = last_free a1 us1
    \<and> first_free a1 vs = first_free a vs \<and> (us1 \<noteq> [] \<longrightarrow> \<not> ld_free (amem a1) (last us1))
    \<and> ld_free (amem a1) = ld_free (amem a)
    \<and> (\<forall>y. y \<noteq> x1 \<longrightarrow> tlsf_arena_span (amem a1) y = tlsf_arena_span (amem a) y)
    \<and> (\<forall>y. \<not> ld_free (amem a) y \<longrightarrow> ld_nx (amem a1) y = ld_nx (amem a) y)
    \<and> araw a1 = araw a \<and> asize a1 = asize a \<and> remote_free a1 = remote_free a \<and> live_bytes a1 = live_bytes a
    \<and> retired a1 = retired a"
proof (cases m)
  case False
  note L = arena_looseD [OF lo] and O = arena_loose_order [OF lo]
  have "last_free a us = 0 \<or> last_free a us + tlsf_arena_span (amem a) (last_free a us) \<noteq> x"
  proof (cases "filter (ld_free (amem a)) us = []")
    case nonempty: False
    then have "last_free a us = last (filter (ld_free (amem a)) us)"
      by (simp add: last_free_def)
    then have y: "last_free a us \<in> set us" "ld_free (amem a) (last_free a us)"
      using last_in_set [OF nonempty] by auto
    then obtain ws w where us: "us = ws @ [w]"
      by (cases us rule: rev_cases) auto
    with False have "\<not> ld_free (amem a) w"
      by (simp add: m_def)
    with y us have "last_free a us \<in> set ws"
      by auto
    moreover have "pseg (tlsf_arena_span (amem a)) (ld_pp (amem a)) 0 (araw a) ws w" "w < x"
      using L(2) O(1) us by (auto simp: pseg_append)
    ultimately show ?thesis
      using pseg_bounds by fastforce
  qed (simp add: last_free_def)
  then have "a1 = a" "x1 = x" "prev1 = last_free a us"
    using r by (auto simp: arena_merge_backward_def split: if_splits)
  then show ?thesis
    using lo False by (auto simp: us1_def m_def)
next
  case True
  note L = arena_looseD [OF lo] and O = arena_loose_order [OF lo]
  obtain ws w where us: "us = ws @ [w]" "ld_free (amem a) w"
    using True unfolding m_def by (cases us rule: rev_cases) auto
  let ?s = "tlsf_arena_span (amem a)" and ?F = "filter (ld_free (amem a))"
  define u where "u = tlsf_arena_unlink_free a w"
  have seg: "pseg ?s (ld_pp (amem a)) 0 (araw a) ws w" and w: "w + ?s w = x" "?s w mod 8 = 0" "32 \<le> ?s w"
      "ld_pp (amem a) w = last (0 # ws)" "w \<noteq> 0" "last_free a us = w"
    using L(2) us L(1) pseg_bounds [of ?s "ld_pp (amem a)" 0 "araw a" ws w]
    by (auto simp: pseg_append TLSF_MIN_BLOCK_SIZE_def last_free_def arena_frame_def)
  have a1: "a1 = on_mem (st_word w ((?s w + ?s x) OR BLOCK_STATE_FREE)) u" "x1 = w" "prev1 = ld_pv (amem a) w"
    using r w by (auto simp: arena_merge_backward_def Let_def u_def)
  have win: "w \<in> set (?F (us @ vs))" "w \<notin> set ws" "w \<notin> set vs" "w < x" "w \<noteq> asentinel a"
    using us O(1) [of w] O(5,6,10,14) by auto
  note U = unlink_free_spec [OF L(7) win(1) u_def]
  have rem: "remove1 w (?F (us @ vs)) = ?F (ws @ vs)"
    using us win(2) by (simp add: remove1_append)
  have sum: "(?s w + ?s x) mod 8 = 0" "?s w + ?s x < 2 ^ 64"
    using L(1,5) w O(5) pseg_bounds [OF seg] by (presburger, auto simp: arena_frame_def)
  note al = blk_aligned [OF sum]
  have fw: "\<not> ld_prev_free (amem a) w" "ws \<noteq> [] \<Longrightarrow> \<not> ld_free (amem a) (last ws)"
      "fseg (ld_free (amem a)) (ld_prev_free (amem a)) False ws"
    using L(10) us by (auto simp: fseg_append split: if_splits)
  have S: "tlsf_arena_span (amem a1) = ?s(w := ?s w + ?s x)" "ld_free (amem a1) = ld_free (amem a)"
    "ld_prev_free (amem a1) = ld_prev_free (amem a)" "ld_pp (amem a1) = ld_pp (amem a)"
    "ld_nx (amem a1) = ld_nx (amem u)" "ld_pv (amem a1) = ld_pv (amem u)" "free_list a1 = free_list u"
    "araw a1 = araw a" "asize a1 = asize a" "asentinel a1 = asentinel a" "remote_free a1 = remote_free a"
    "live_bytes a1 = live_bytes a" "retired a1 = retired a"
    using us(2) fw(1) by (auto simp: a1 arena_loads U al fun_eq_iff)
  have e: "w + (?s w + ?s x) = x + ?s x"
    using w(1) by linarith
  have "arena_loose a1 ws w vs"
    unfolding arena_loose_def
  proof (intro conjI)
    show "arena_frame a1"
      using win(5) by (intro arena_frame_cong [OF L(1) S(8-10)]) (simp add: a1 arena_loads U)
    show "\<exists>q. phys (tlsf_arena_span (amem a1)) (ld_pp (amem a1)) q (w + tlsf_arena_span (amem a1) w) vs (asentinel a1)"
      using L(6) win(3) by (simp add: S e)
    show "dll (ld_nx (amem a1)) (ld_pv (amem a1)) (free_list a1) (filter (ld_free (amem a1)) (ws @ vs))"
      using U(1) rem by (simp add: S)
  qed (use L seg w us win sum fw in \<open>simp_all add: S TLSF_MIN_BLOCK_SIZE_def\<close>)
  moreover have "prev1 = last_free a1 ws"
  proof -
    have "dllseg (ld_nx (amem a)) (ld_pv (amem a)) 0 (free_list a) (?F ws @ w # ?F vs) 0"
      using L(7) us by simp
    then show ?thesis
      by (auto simp: a1(3) dllseg_append last_free_def S(2))
  qed
  moreover have "us1 = ws" "first_free a1 vs = first_free a vs"
    using us True by (simp_all add: us1_def first_free_def S)
  moreover have "\<forall>y. \<not> ld_free (amem a) y \<longrightarrow> ld_nx (amem a1) y = ld_nx (amem a) y"
    using U(13) by (auto simp: S)
  ultimately show ?thesis
    using fw(2) us True by (simp add: S a1(2))
qed

lemma arena_link_dll:
  assumes lo: "arena_loose a us x vs"
    and m4: "m4 = (let m = st_pv x (last_free a us) (st_nx x (first_free a vs) (amem a));
        m = (if last_free a us \<noteq> 0 then st_nx (last_free a us) x m else m)
      in if first_free a vs \<noteq> 0 then st_pv (first_free a vs) x m else m)"
  shows "dll (ld_nx m4) (ld_pv m4) (if last_free a us \<noteq> 0 then free_list a else x)
      (filter (ld_free (amem a)) us @ x # filter (ld_free (amem a)) vs)"
    "\<not> ld_free (amem a) y \<Longrightarrow> ld_nx m4 y = ld_nx (amem a) y"
    "ld_word m4 = ld_word (amem a)" "ld_pp m4 = ld_pp (amem a)"
proof -
  note L = arena_looseD [OF lo] and O = arena_loose_order [OF lo]
  let ?A = "filter (ld_free (amem a)) us" and ?B = "filter (ld_free (amem a)) vs"
  have dl: "dll (ld_nx (amem a)) (ld_pv (amem a)) (free_list a) (?A @ ?B)"
    using L(7) by simp
  have nz: "y \<noteq> 0" if "y \<in> set ?A \<union> set ?B" for y
    using dllseg_nonnull [OF dl, of y] that by auto
  have prev: "last_free a us \<noteq> 0 \<longleftrightarrow> ?A \<noteq> []" "?A \<noteq> [] \<Longrightarrow> last_free a us = last ?A"
    using nz last_in_set [of ?A] by (auto simp: last_free_def)
  have cur: "first_free a vs = (if ?B = [] then 0 else hd ?B)"
    by (simp add: first_free_def split: list.splits)
  have "x \<notin> set ?A" "x \<notin> set ?B" "x \<noteq> 0"
    using O(12,13,15) by auto
  note K = dll_link [OF dl this]
  have nxeq: "ld_nx m4 = (if ?A \<noteq> [] then ((ld_nx (amem a))(x := if ?B = [] then 0 else hd ?B))(last ?A := x)
      else (ld_nx (amem a))(x := if ?B = [] then 0 else hd ?B))"
    using prev cur by (simp add: m4 Let_def arena_loads)
  have pveq: "ld_pv m4 = (if (if ?B = [] then 0 else hd ?B) \<noteq> 0
      then ((ld_pv (amem a))(x := last (0 # ?A)))((if ?B = [] then 0 else hd ?B) := x)
      else (ld_pv (amem a))(x := last (0 # ?A)))"
    using cur by (simp add: m4 Let_def arena_loads last_free_def)
  have heq: "(if last_free a us \<noteq> 0 then free_list a else x) = (if ?A = [] then x else free_list a)"
    using prev(1) by auto
  show "dll (ld_nx m4) (ld_pv m4) (if last_free a us \<noteq> 0 then free_list a else x) (?A @ x # ?B)"
    unfolding nxeq pveq heq by (rule K)
  have fa: "ld_free (amem a) (last_free a us)" if "last_free a us \<noteq> 0"
    using prev that last_in_set [of ?A] by auto
  show "\<not> ld_free (amem a) y \<Longrightarrow> ld_nx m4 y = ld_nx (amem a) y"
    using fa L(8) by (auto simp: m4 Let_def arena_loads)
  show "ld_word m4 = ld_word (amem a)" "ld_pp m4 = ld_pp (amem a)"
    by (simp_all add: m4 Let_def arena_loads)
qed

lemma arena_link_wf:
  assumes lo: "arena_loose a us x vs"
    and nb: "us \<noteq> [] \<Longrightarrow> \<not> ld_free (amem a) (last us)" "vs \<noteq> [] \<Longrightarrow> \<not> ld_free (amem a) (hd vs)"
    and a': "a' = arena_link a x (last_free a us) (first_free a vs)"
  shows "arena_wf a' (us @ x # vs) \<and> ld_free (amem a') = ld_free (amem a)
    \<and> tlsf_arena_span (amem a') = tlsf_arena_span (amem a)
    \<and> (\<forall>y. \<not> ld_free (amem a) y \<longrightarrow> ld_nx (amem a') y = ld_nx (amem a) y)
    \<and> araw a' = araw a \<and> asize a' = asize a \<and> remote_free a' = remote_free a \<and> live_bytes a' = live_bytes a
    \<and> retired a' = retired a"
proof -
  note L = arena_looseD [OF lo] and O = arena_loose_order [OF lo]
  define m4 where "m4 = (let m = st_pv x (last_free a us) (st_nx x (first_free a vs) (amem a));
        m = (if last_free a us \<noteq> 0 then st_nx (last_free a us) x m else m)
      in if first_free a vs \<noteq> 0 then st_pv (first_free a vs) x m else m)"
  note M = arena_link_dll [OF lo m4_def]
  have sp: "tlsf_arena_span m4 = tlsf_arena_span (amem a)" "ld_free m4 = ld_free (amem a)"
    "ld_prev_free m4 = ld_prev_free (amem a)"
    using M(3) by (simp_all add: fun_eq_iff tlsf_arena_span_def ld_free_def ld_prev_free_def)
  define d where "d = x + tlsf_arena_span (amem a) x"
  define m5 where "m5 = st_pp d x (if d \<noteq> asentinel a then st_word d (ld_word m4 d OR BLOCK_STATE_PREV_FREE) m4 else m4)"
  have A: "amem a' = m5" "free_list a' = (if last_free a us \<noteq> 0 then free_list a else x)"
    "araw a' = araw a" "asize a' = asize a" "asentinel a' = asentinel a" "remote_free a' = remote_free a"
    "live_bytes a' = live_bytes a" "retired a' = retired a"
    unfolding a' arena_link_def Let_def
    by (auto simp: m5_def d_def m4_def Let_def arena_loads)
  have F: "tlsf_arena_span m5 = tlsf_arena_span (amem a)" "ld_free m5 = ld_free (amem a)"
    "ld_prev_free m5 = (if d \<noteq> asentinel a then (ld_prev_free (amem a))(d := True) else ld_prev_free (amem a))"
    "ld_pp m5 = (ld_pp (amem a))(d := x)" "ld_nx m5 = ld_nx m4" "ld_pv m5 = ld_pv m4"
    by (auto simp: m5_def arena_loads sp M fun_eq_iff) (simp_all add: tlsf_arena_span_def ld_free_def M)
  have dn: "d \<notin> set us" "d \<noteq> x" "vs \<noteq> [] \<Longrightarrow> d = hd vs" "vs = [] \<Longrightarrow> d = asentinel a"
    using O(1) [of d] O(6,8,9) by (auto simp: d_def)
  obtain q where q: "phys (tlsf_arena_span (amem a)) (ld_pp (amem a)) q d vs (asentinel a)"
    using L(6) by (auto simp: d_def)
  have "phys (tlsf_arena_span m5) (ld_pp m5) 0 (araw a) (us @ [x] @ vs) (asentinel a)"
    by (rule phys_splice [OF L(2) q]) (use L(3-5) dn in \<open>auto simp: F d_def\<close>)
  moreover have "arena_frame a'"
    by (rule arena_frame_cong [OF L(1) A(3-5)])
      (use L(1) in \<open>auto simp: A m5_def arena_loads M\<close>)
  moreover have "fseg (ld_free m5) (ld_prev_free m5) False (us @ x # vs)"
  proof -
    have "fseg (ld_free m5) (ld_prev_free m5) False us"
      using L(10) dn(1) by (subst fseg_frame [of us _ "ld_free (amem a)" _ "ld_prev_free (amem a)"]) (auto simp: F)
    moreover have "fseg (ld_free m5) (ld_prev_free m5) True vs"
    proof (cases vs)
      case (Cons v ws)
      then have "v = d" "v \<noteq> asentinel a" "v \<notin> set ws"
        using dn(3) O(4) [of v] O(11) by auto
      then have "fseg (ld_free m5) (ld_prev_free m5) (ld_free (amem a) v) ws"
        using L(11) Cons by (subst fseg_frame [of ws _ "ld_free (amem a)" _ "ld_prev_free (amem a)"]) (auto simp: F)
      then show ?thesis
        using nb(2) Cons \<open>v = d\<close> \<open>v \<noteq> asentinel a\<close> by (auto simp: F)
    qed simp
    ultimately show ?thesis
      using nb(1) L(8,9) dn(2) by (auto simp: fseg_append F)
  qed
  moreover have "dll (ld_nx m5) (ld_pv m5) (free_list a') (filter (ld_free m5) (us @ x # vs))"
    using M(1) L(8) A(2) by (simp add: F)
  ultimately have "arena_wf a' (us @ x # vs)"
    by (simp add: arena_wf_def A)
  then show ?thesis
    using M(2) by (simp add: A F)
qed

text \<open>Insertion returns, coalesces with both neighbours and leaves a well-formed arena.\<close>

definition insert_layout :: "tlsf_arena \<Rightarrow> addr list \<Rightarrow> addr \<Rightarrow> addr list \<Rightarrow> addr list" where
  "insert_layout a us x vs =
     (let m = us \<noteq> [] \<and> ld_free (amem a) (last us)
      in (if m then butlast us else us) @ (if m then last us else x)
           # (if vs \<noteq> [] \<and> ld_free (amem a) (hd vs) then tl vs else vs))"

lemma arena_insert_free:
  assumes lo: "arena_loose a us x vs"
  obtains a' where "tlsf_arena_insert_free a x = Some a'" "arena_wf a' (insert_layout a us x vs)"
    "ld_free (amem a') = ld_free (amem a)"
    "\<And>y. \<not> ld_free (amem a) y \<Longrightarrow> tlsf_arena_span (amem a') y = tlsf_arena_span (amem a) y"
    "\<And>y. \<not> ld_free (amem a) y \<Longrightarrow> ld_nx (amem a') y = ld_nx (amem a) y"
    "araw a' = araw a" "asize a' = asize a" "remote_free a' = remote_free a" "live_bytes a' = live_bytes a"
    "retired a' = retired a"
proof -
  obtain a1 cur1 where r1: "arena_merge_forward a x (first_free a vs) = (a1, cur1)"
    by (metis surj_pair)
  note F = merge_forward_loose [OF lo r1]
  let ?vs = "if vs \<noteq> [] \<and> ld_free (amem a) (hd vs) then tl vs else vs"
  obtain a2 x2 prev2 where r2: "arena_merge_backward a1 x (last_free a1 us) = (a2, x2, prev2)"
    by (metis prod_cases3)
  have lo1: "arena_loose a1 us x ?vs"
    using F by blast
  note B = merge_backward_loose [OF lo1 r2]
  let ?m = "us \<noteq> [] \<and> ld_free (amem a) (last us)"
  have fr: "ld_free (amem a1) = ld_free (amem a)" "ld_free (amem a2) = ld_free (amem a)"
    using F B by auto
  let ?us = "if ?m then butlast us else us"
  have lo2: "arena_loose a2 ?us x2 ?vs" and x2: "x2 = (if ?m then last us else x)"
    and p2: "prev2 = last_free a2 ?us" and c2: "cur1 = first_free a2 ?vs"
    using F B unfolding fr by auto
  have nb: "?us \<noteq> [] \<Longrightarrow> \<not> ld_free (amem a2) (last ?us)" "?vs \<noteq> [] \<Longrightarrow> \<not> ld_free (amem a2) (hd ?vs)"
    using F B unfolding fr by auto
  define a3 where "a3 = arena_link a2 x2 (last_free a2 ?us) (first_free a2 ?vs)"
  note K = arena_link_wf [OF lo2 nb a3_def]
  have eq: "tlsf_arena_insert_free a x = Some a3"
    using arena_scan_loose [OF lo] r1 r2 F p2 c2 by (simp add: tlsf_arena_insert_free_def a3_def)
  have lay: "?us @ x2 # ?vs = insert_layout a us x vs"
    unfolding insert_layout_def Let_def x2 ..
  have fx: "ld_free (amem a) x"
    using arena_looseD(8) [OF lo] .
  show thesis
  proof (rule that [OF eq])
    show "arena_wf a3 (insert_layout a us x vs)"
      using K unfolding lay by blast
    show "tlsf_arena_span (amem a3) y = tlsf_arena_span (amem a) y" if "\<not> ld_free (amem a) y" for y
    proof -
      have "y \<noteq> x" "y \<noteq> x2"
        using that fx x2 by (auto split: if_splits)
      then show ?thesis
        using F B K by simp
    qed
    show "ld_nx (amem a3) y = ld_nx (amem a) y" if "\<not> ld_free (amem a) y" for y
      using F B K that by (simp add: fr)
  qed (use F B K fr in simp_all)
qed

lemma nonfree_insert_layout:
  "{y \<in> set (insert_layout a us x vs). \<not> ld_free (amem a) y} = {y \<in> set us \<union> set vs \<union> {x}. \<not> ld_free (amem a) y}"
  if "ld_free (amem a) x"
  using that by (cases us rule: rev_cases; cases vs) (auto simp: insert_layout_def Let_def)

section \<open>Marking a block free\<close>

lemma arena_wf_split:
  assumes "arena_wf a (us @ x # vs)"
  shows "arena_frame a" "pseg (tlsf_arena_span (amem a)) (ld_pp (amem a)) 0 (araw a) us x"
    "ld_pp (amem a) x = last (0 # us)"
    "32 \<le> tlsf_arena_span (amem a) x" "tlsf_arena_span (amem a) x mod 8 = 0"
    "phys (tlsf_arena_span (amem a)) (ld_pp (amem a)) x (x + tlsf_arena_span (amem a) x) vs (asentinel a)"
    "x \<notin> set us" "x \<notin> set vs" "tlsf_arena_span (amem a) x < 2 ^ 30" "x < asentinel a" "0 < x"
    "fseg (ld_free (amem a)) (ld_prev_free (amem a)) False us"
    "ld_prev_free (amem a) x = (us \<noteq> [] \<and> ld_free (amem a) (last us))"
    "\<not> (us \<noteq> [] \<and> ld_free (amem a) (last us) \<and> ld_free (amem a) x)"
    "fseg (ld_free (amem a)) (ld_prev_free (amem a)) (ld_free (amem a) x) vs"
    "\<And>y. y \<in> set us \<Longrightarrow> y < x" "\<And>y. y \<in> set vs \<Longrightarrow> x + tlsf_arena_span (amem a) x \<le> y"
    "araw a \<le> x" "x + tlsf_arena_span (amem a) x \<le> asentinel a" "distinct (us @ x # vs)"
proof -
  have W: "arena_frame a" "phys (tlsf_arena_span (amem a)) (ld_pp (amem a)) 0 (araw a) (us @ x # vs) (asentinel a)"
    "fseg (ld_free (amem a)) (ld_prev_free (amem a)) False (us @ x # vs)"
    using assms by (simp_all add: arena_wf_def)
  show "arena_frame a"
    by (rule W(1))
  obtain c where c: "pseg (tlsf_arena_span (amem a)) (ld_pp (amem a)) 0 (araw a) us c"
      "phys (tlsf_arena_span (amem a)) (ld_pp (amem a)) (last (0 # us)) c (x # vs) (asentinel a)"
    using W(2) by (auto simp: phys_append)
  show us: "pseg (tlsf_arena_span (amem a)) (ld_pp (amem a)) 0 (araw a) us x"
    and "ld_pp (amem a) x = last (0 # us)" and s: "32 \<le> tlsf_arena_span (amem a) x"
    and "tlsf_arena_span (amem a) x mod 8 = 0"
    and vs: "phys (tlsf_arena_span (amem a)) (ld_pp (amem a)) x (x + tlsf_arena_span (amem a) x) vs (asentinel a)"
    using c by (auto simp: TLSF_MIN_BLOCK_SIZE_def)
  show u: "y < x" if "y \<in> set us" for y
    using pseg_bounds [OF us] that by auto
  show v: "x + tlsf_arena_span (amem a) x \<le> y" if "y \<in> set vs" for y
    using phys_bounds(2) [OF vs that] .
  show "x \<notin> set us" "x \<notin> set vs"
    using u [of x] v [of x] s by auto
  show le: "x + tlsf_arena_span (amem a) x \<le> asentinel a"
    using phys_bounds(1) [OF vs] .
  then show "x < asentinel a"
    using s by linarith
  show rx: "araw a \<le> x"
    using pseg_bounds [OF us] by simp
  then show "0 < x"
    using W(1) by (simp add: arena_frame_def)
  show "tlsf_arena_span (amem a) x < 2 ^ 30"
    using le rx W(1) by (auto simp: arena_frame_def sizeof_tlsf_block_def)
  show "fseg (ld_free (amem a)) (ld_prev_free (amem a)) False us"
    "ld_prev_free (amem a) x = (us \<noteq> [] \<and> ld_free (amem a) (last us))"
    "\<not> (us \<noteq> [] \<and> ld_free (amem a) (last us) \<and> ld_free (amem a) x)"
    "fseg (ld_free (amem a)) (ld_prev_free (amem a)) (ld_free (amem a) x) vs"
    using W(3) by (auto simp: fseg_append split: if_splits)
  show "distinct (us @ x # vs)"
    using phys_distinct [OF W(2)] by simp
qed

lemma arena_mark_loose:
  assumes wf: "arena_wf a (us @ x # vs)" and nf: "\<not> ld_free (amem a) x"
    and a1: "a1 = on_mem (st_word x (tlsf_arena_span (amem a) x OR BLOCK_STATE_FREE)) a"
  shows "arena_loose a1 us x vs" "ld_free (amem a1) = (ld_free (amem a))(x := True)"
    "tlsf_arena_span (amem a1) = tlsf_arena_span (amem a)" "ld_nx (amem a1) = ld_nx (amem a)"
proof -
  note W = arena_wf_split [OF wf]
  have "tlsf_arena_span (amem a) x < 2 ^ 64"
    using W(9) by simp
  note al = blk_aligned [OF W(5) this]
  have S: "tlsf_arena_span (amem a1) = tlsf_arena_span (amem a)" "ld_free (amem a1) = (ld_free (amem a))(x := True)"
    "ld_prev_free (amem a1) = (ld_prev_free (amem a))(x := False)" "ld_pp (amem a1) = ld_pp (amem a)"
    "ld_nx (amem a1) = ld_nx (amem a)" "ld_pv (amem a1) = ld_pv (amem a)" "free_list a1 = free_list a"
    "araw a1 = araw a" "asize a1 = asize a" "asentinel a1 = asentinel a"
    by (auto simp: a1 arena_loads al fun_eq_iff)
  show "ld_free (amem a1) = (ld_free (amem a))(x := True)" "ld_nx (amem a1) = ld_nx (amem a)"
    "tlsf_arena_span (amem a1) = tlsf_arena_span (amem a)"
    by (fact S)+
  have fil: "filter (ld_free (amem a1)) (us @ vs) = filter (ld_free (amem a)) (us @ x # vs)"
    using nf W(7,8) by (simp add: S)
  have fs: "fseg (ld_free (amem a1)) (ld_prev_free (amem a1)) p ys = fseg (ld_free (amem a)) (ld_prev_free (amem a)) p ys"
    if "x \<notin> set ys" for p ys
    using that by (intro fseg_frame) (auto simp: S)
  show "arena_loose a1 us x vs"
    unfolding arena_loose_def
  proof (intro conjI)
    show "arena_frame a1"
      using W(10) by (intro arena_frame_cong [OF W(1) S(8-10)]) (simp add: a1 arena_loads)
    show "dll (ld_nx (amem a1)) (ld_pv (amem a1)) (free_list a1) (filter (ld_free (amem a1)) (us @ vs))"
      using wf unfolding fil by (simp add: S arena_wf_def)
    show "\<exists>q. phys (tlsf_arena_span (amem a1)) (ld_pp (amem a1)) q (x + tlsf_arena_span (amem a1) x) vs (asentinel a1)"
      using W(6) by (auto simp: S)
    show "fseg (ld_free (amem a1)) (ld_prev_free (amem a1)) False us"
      using W(7,12) fs by simp
    show "vs \<noteq> [] \<longrightarrow> fseg (ld_free (amem a1)) (ld_prev_free (amem a1)) (ld_free (amem a1) (hd vs)) (tl vs)"
      using W(8,15) fs by (cases vs) (auto simp: S)
  qed (use W in \<open>simp_all add: S TLSF_MIN_BLOCK_SIZE_def\<close>)
qed

section \<open>Freeing and reaping\<close>

text \<open>The blocks of an arena that are not on its free list, with their sizes.\<close>

definition arena_held :: "tlsf_arena \<Rightarrow> addr list \<Rightarrow> (addr \<times> nat) set" where
  "arena_held a xs = {(y, tlsf_arena_span (amem a) y) | y. y \<in> set xs \<and> \<not> ld_free (amem a) y}"

lemma arena_held_iff:
  "(y, s) \<in> arena_held a xs \<longleftrightarrow> y \<in> set xs \<and> \<not> ld_free (amem a) y \<and> s = tlsf_arena_span (amem a) y"
  by (auto simp: arena_held_def)

text \<open>Marking a held block free and inserting it, the common part of an owner's free and of reaping.\<close>

lemma arena_give_back:
  assumes wf: "arena_wf a xs" and x: "x \<in> set xs" "\<not> ld_free (amem a) x"
  obtains a' xs' where
    "tlsf_arena_insert_free (on_mem (st_word x (tlsf_arena_span (amem a) x OR BLOCK_STATE_FREE)) a) x = Some a'"
    "arena_wf a' xs'" "arena_held a' xs' = arena_held a xs - {(x, tlsf_arena_span (amem a) x)}"
    "\<And>y. y \<noteq> x \<Longrightarrow> \<not> ld_free (amem a) y \<Longrightarrow> ld_nx (amem a') y = ld_nx (amem a) y \<and> \<not> ld_free (amem a') y"
    "araw a' = araw a" "asize a' = asize a" "remote_free a' = remote_free a" "live_bytes a' = live_bytes a"
    "retired a' = retired a"
proof -
  obtain us vs where xs: "xs = us @ x # vs"
    using x(1) by (auto simp: in_set_conv_decomp)
  define a1 where "a1 = on_mem (st_word x (tlsf_arena_span (amem a) x OR BLOCK_STATE_FREE)) a"
  note M = arena_mark_loose [OF wf [unfolded xs] x(2) a1_def]
  obtain a' where A: "tlsf_arena_insert_free a1 x = Some a'" "arena_wf a' (insert_layout a1 us x vs)"
    "ld_free (amem a') = ld_free (amem a1)"
    "\<And>y. \<not> ld_free (amem a1) y \<Longrightarrow> tlsf_arena_span (amem a') y = tlsf_arena_span (amem a1) y"
    "\<And>y. \<not> ld_free (amem a1) y \<Longrightarrow> ld_nx (amem a') y = ld_nx (amem a1) y"
    "araw a' = araw a1" "asize a' = asize a1" "remote_free a' = remote_free a1" "live_bytes a' = live_bytes a1"
    "retired a' = retired a1"
    using arena_insert_free [OF M(1)] by metis
  have d: "x \<notin> set us" "x \<notin> set vs"
    using arena_wf_split(7,8) [OF wf [unfolded xs]] .
  have nf: "{y \<in> set (insert_layout a1 us x vs). \<not> ld_free (amem a1) y} = {y \<in> set us \<union> set vs. \<not> ld_free (amem a) y}"
    using nonfree_insert_layout [of a1 x us vs] d unfolding M(2) by auto
  have "arena_held a' (insert_layout a1 us x vs) = {(y, tlsf_arena_span (amem a) y) | y. y \<in> set us \<union> set vs \<and> \<not> ld_free (amem a) y}"
  proof -
    have i: "y \<in> set (insert_layout a1 us x vs) \<and> \<not> ld_free (amem a') y \<longleftrightarrow> y \<in> set us \<union> set vs \<and> \<not> ld_free (amem a) y" for y
      using nf unfolding A(3) by blast
    have j: "tlsf_arena_span (amem a') y = tlsf_arena_span (amem a) y" if "\<not> ld_free (amem a') y" for y
      using A(4) [of y] that unfolding A(3) M(3) by blast
    have "(y, s) \<in> arena_held a' (insert_layout a1 us x vs) \<longleftrightarrow>
        (y \<in> set us \<union> set vs \<and> \<not> ld_free (amem a) y) \<and> s = tlsf_arena_span (amem a) y" for y s
      unfolding arena_held_iff using i [of y] j [of y] by metis
    then show ?thesis
      by auto
  qed
  also have "\<dots> = arena_held a xs - {(x, tlsf_arena_span (amem a) x)}"
    using d by (auto simp: arena_held_def xs)
  finally have held: "arena_held a' (insert_layout a1 us x vs) = arena_held a xs - {(x, tlsf_arena_span (amem a) x)}" .
  show thesis
  proof (rule that [OF A(1) [unfolded a1_def] A(2) held])
    show "ld_nx (amem a') y = ld_nx (amem a) y \<and> \<not> ld_free (amem a') y" if "y \<noteq> x" "\<not> ld_free (amem a) y" for y
      using A(5) [of y] that unfolding A(3) M(2,4) by simp
  qed (use A(6-10) in \<open>simp_all add: a1_def\<close>)
qed

lemma arena_reap_loop_spec:
  assumes "arena_wf a xs" "mchain (ld_nx (amem a)) h M" "distinct M" "set M \<subseteq> fst ` arena_held a xs"
  shows "\<exists>a' xs'. arena_reap_loop a h = Some a' \<and> arena_wf a' xs'
    \<and> arena_held a' xs' = {(y, s) \<in> arena_held a xs. y \<notin> set M}
    \<and> araw a' = araw a \<and> asize a' = asize a \<and> remote_free a' = remote_free a \<and> live_bytes a' = live_bytes a
    \<and> retired a' = retired a"
  using assms
proof (induction M arbitrary: a xs h)
  case Nil
  then show ?case
    by (subst arena_reap_loop.simps) (auto intro!: exI [of _ xs])
next
  case (Cons x M)
  then have h: "h = x" "x \<noteq> 0" "mchain (ld_nx (amem a)) (ld_nx (amem a) x) M" "x \<notin> set M" "distinct M"
    and x: "x \<in> set xs" "\<not> ld_free (amem a) x"
    by (auto simp: arena_held_def)
  obtain a1 xs1 where G:
    "tlsf_arena_insert_free (on_mem (st_word x (tlsf_arena_span (amem a) x OR BLOCK_STATE_FREE)) a) x = Some a1"
    "arena_wf a1 xs1" "arena_held a1 xs1 = arena_held a xs - {(x, tlsf_arena_span (amem a) x)}"
    "\<And>y. y \<noteq> x \<Longrightarrow> \<not> ld_free (amem a) y \<Longrightarrow> ld_nx (amem a1) y = ld_nx (amem a) y \<and> \<not> ld_free (amem a1) y"
    "araw a1 = araw a" "asize a1 = asize a" "remote_free a1 = remote_free a" "live_bytes a1 = live_bytes a"
    "retired a1 = retired a"
    using arena_give_back [OF Cons.prems(1) x] by metis
  have mem: "y \<noteq> x \<and> \<not> ld_free (amem a) y" if "y \<in> set M" for y
    using that h(4) Cons.prems(4) by (auto simp: arena_held_def)
  have "mchain (ld_nx (amem a1)) (ld_nx (amem a) x) M"
    using h(3) G(4) mem mchain_frame [of M "ld_nx (amem a1)" "ld_nx (amem a)"] by blast
  moreover have "set M \<subseteq> fst ` arena_held a1 xs1"
    using Cons.prems(4) h(4) unfolding G(3) by (force simp: image_iff)
  moreover have "arena_reap_loop a h = arena_reap_loop a1 (ld_nx (amem a) x)"
    using h(1,2) G(1) by (subst arena_reap_loop.simps) (simp add: Let_def)
  moreover have "{(y, s) \<in> arena_held a1 xs1. y \<notin> set M} = {(y, s) \<in> arena_held a xs. y \<notin> set (x # M)}"
    unfolding G(3) by (auto simp: arena_held_iff)
  ultimately show ?case
    using Cons.IH [OF G(2) _ h(5)] G(5-9) by simp
qed

section \<open>Allocation\<close>

lemma arena_first_fit_spec:
  "dllseg (ld_nx m) pv p h L 0 \<Longrightarrow>
    arena_first_fit m n h = Some (case filter (\<lambda>y. n \<le> tlsf_arena_span m y) L of [] \<Rightarrow> 0 | y # _ \<Rightarrow> y)"
proof (induction L arbitrary: p h)
  case Nil
  then show ?case
    by (subst arena_first_fit.simps) simp
next
  case (Cons y L)
  then have h: "h = y" "y \<noteq> 0" and seg: "dllseg (ld_nx m) pv y (ld_nx m y) L 0"
    by auto
  show ?case
  proof (cases "n \<le> tlsf_arena_span m y")
    case True
    then show ?thesis
      using h by (subst arena_first_fit.simps) simp
  next
    case False
    then have "arena_first_fit m n h = arena_first_fit m n (ld_nx m y)"
      using h by (subst arena_first_fit.simps) simp
    then show ?thesis
      using Cons.IH [OF seg] False by simp
  qed
qed

lemma arena_carve_split:
  assumes wf: "arena_wf a (us @ x # vs)" and fr: "ld_free (amem a) x"
    and n: "n mod 8 = 0" "32 \<le> n" "n + 64 \<le> tlsf_arena_span (amem a) x"
  obtains a' where "arena_carve a x n = Some a'" "arena_wf a' (us @ x # (x + n) # vs)"
    "ld_free (amem a') = (ld_free (amem a))(x := False, x + n := True)" "tlsf_arena_span (amem a') x = n"
    "\<And>y. y \<noteq> x \<Longrightarrow> \<not> ld_free (amem a) y \<Longrightarrow> y \<noteq> x + n
      \<Longrightarrow> tlsf_arena_span (amem a') y = tlsf_arena_span (amem a) y \<and> ld_nx (amem a') y = ld_nx (amem a) y"
    "araw a' = araw a" "asize a' = asize a" "remote_free a' = remote_free a" "live_bytes a' = live_bytes a"
    "retired a' = retired a"
proof -
  note W = arena_wf_split [OF wf]
  let ?s = "tlsf_arena_span (amem a)"
  define u where "u = tlsf_arena_unlink_free a x"
  have dl: "dll (ld_nx (amem a)) (ld_pv (amem a)) (free_list a) (filter (ld_free (amem a)) (us @ x # vs))"
    using wf by (simp add: arena_wf_def)
  have "x \<in> set (filter (ld_free (amem a)) (us @ x # vs))"
    using fr by simp
  note U = unlink_free_spec [OF dl this u_def]
  define a1 where "a1 = on_mem (st_pp (x + n) x) (on_mem (st_word (x + n) ((?s x - n) OR BLOCK_STATE_FREE)) (on_mem (st_word x n) u))"
  have al: "(?s x - n) mod 8 = 0" "?s x - n < 2 ^ 64" "n < 2 ^ 64"
    using n W(5,9) by (presburger, simp_all)
  note A = blk_aligned [OF al(1,2)] blk_aligned [OF n(1) al(3)]
  have "(?s x + 2 ^ 64 - n) mod 2 ^ 64 = ?s x - n"
    using n W(9) by (intro sub64) simp_all
  moreover have "64 \<le> ?s x - n"
    using n(3) by linarith
  ultimately have carve: "arena_carve a x n = tlsf_arena_insert_free a1 (x + n)"
    by (simp add: arena_carve_def Let_def a1_def u_def TLSF_MIN_BLOCK_SIZE_def sizeof_tlsf_block_def)
  have nn: "x + n \<noteq> x" "x + n \<notin> set us" "x + n \<notin> set vs" "x + n \<noteq> asentinel a"
    using n W(16) [of "x + n"] W(17) [of "x + n"] W(19) by auto
  have S: "tlsf_arena_span (amem a1) = ?s(x := n, x + n := ?s x - n)"
    "ld_free (amem a1) = (ld_free (amem a))(x := False, x + n := True)"
    "ld_prev_free (amem a1) = (ld_prev_free (amem a))(x := False, x + n := False)"
    "ld_pp (amem a1) = (ld_pp (amem a))(x + n := x)" "ld_nx (amem a1) = ld_nx (amem u)"
    "ld_pv (amem a1) = ld_pv (amem u)" "free_list a1 = free_list u" "araw a1 = araw a" "asize a1 = asize a"
    "asentinel a1 = asentinel a" "remote_free a1 = remote_free a" "live_bytes a1 = live_bytes a" "retired a1 = retired a"
    by (simp_all add: a1_def arena_loads U A)
  have px: "ld_prev_free (amem a) x = False" "us \<noteq> [] \<Longrightarrow> \<not> ld_free (amem a) (last us)"
    using W(13,14) fr by auto
  have fs: "fseg (ld_free (amem a1)) (ld_prev_free (amem a1)) p ys = fseg (ld_free (amem a)) (ld_prev_free (amem a)) p ys"
    if "x \<notin> set ys" "x + n \<notin> set ys" for p ys
    using that by (intro fseg_frame) (auto simp: S)
  have hv: "vs \<noteq> [] \<Longrightarrow> \<not> ld_free (amem a) (hd vs)"
      "vs \<noteq> [] \<Longrightarrow> fseg (ld_free (amem a)) (ld_prev_free (amem a)) (ld_free (amem a) (hd vs)) (tl vs)"
    using W(15) fr by (cases vs; simp)+
  have hd: "vs \<noteq> [] \<Longrightarrow> ld_free (amem a1) (hd vs) = ld_free (amem a) (hd vs)"
    using nn(3) W(8) by (cases vs) (auto simp: S)
  have lo: "arena_loose a1 (us @ [x]) (x + n) vs"
    unfolding arena_loose_def
  proof (intro conjI)
    show "arena_frame a1"
      using W(10) nn(4) by (intro arena_frame_cong [OF W(1) S(8-10)]) (simp add: a1_def arena_loads U)
    show "pseg (tlsf_arena_span (amem a1)) (ld_pp (amem a1)) 0 (araw a1) (us @ [x]) (x + n)"
      using W(2,3,7) nn n by (simp add: S pseg_append TLSF_MIN_BLOCK_SIZE_def)
    have "x + n + (?s x - n) = x + ?s x"
      using n(3) by simp
    then show "\<exists>q. phys (tlsf_arena_span (amem a1)) (ld_pp (amem a1)) q (x + n + tlsf_arena_span (amem a1) (x + n)) vs (asentinel a1)"
      using W(6,8) nn by (auto simp: S)
    have "remove1 x (filter (ld_free (amem a)) (us @ x # vs)) = filter (ld_free (amem a)) (us @ vs)"
      using fr W(7) by (simp add: remove1_append)
    then show "dll (ld_nx (amem a1)) (ld_pv (amem a1)) (free_list a1) (filter (ld_free (amem a1)) ((us @ [x]) @ vs))"
      using U(1) nn W(7,8) by (simp add: S)
    show "fseg (ld_free (amem a1)) (ld_prev_free (amem a1)) False (us @ [x])"
      using W(7,12) nn px fs [of us] by (cases us rule: rev_cases) (auto simp: fseg_append S)
    show "vs \<noteq> [] \<longrightarrow> fseg (ld_free (amem a1)) (ld_prev_free (amem a1)) (ld_free (amem a1) (hd vs)) (tl vs)"
      using hv(2) hd fs [of "tl vs"] W(8) nn(3) by (auto dest: list.set_sel(2))
  qed (use n al nn in \<open>simp_all add: S TLSF_MIN_BLOCK_SIZE_def\<close>)
  have lay: "insert_layout a1 (us @ [x]) (x + n) vs = us @ x # (x + n) # vs"
    using hv(1) hd nn by (auto simp: insert_layout_def Let_def S)
  obtain a' where I: "tlsf_arena_insert_free a1 (x + n) = Some a'" "arena_wf a' (us @ x # (x + n) # vs)"
    "ld_free (amem a') = ld_free (amem a1)"
    "\<And>y. \<not> ld_free (amem a1) y \<Longrightarrow> tlsf_arena_span (amem a') y = tlsf_arena_span (amem a1) y"
    "\<And>y. \<not> ld_free (amem a1) y \<Longrightarrow> ld_nx (amem a') y = ld_nx (amem a1) y"
    "araw a' = araw a1" "asize a' = asize a1" "remote_free a' = remote_free a1" "live_bytes a' = live_bytes a1"
    "retired a' = retired a1"
    using arena_insert_free [OF lo] unfolding lay by metis
  show thesis
  proof (rule that)
    show "arena_carve a x n = Some a'" "arena_wf a' (us @ x # (x + n) # vs)"
      using I(1,2) carve by simp_all
    show "tlsf_arena_span (amem a') x = n"
      using I(4) [of x] nn(1) by (simp add: S)
    show "tlsf_arena_span (amem a') y = tlsf_arena_span (amem a) y \<and> ld_nx (amem a') y = ld_nx (amem a) y"
      if "y \<noteq> x" "\<not> ld_free (amem a) y" "y \<noteq> x + n" for y
      using I(4,5) [of y] U(13) [of y] that by (simp add: S)
  qed (simp_all add: I S)
qed

lemma arena_carve_whole:
  assumes wf: "arena_wf a (us @ x # vs)" and fr: "ld_free (amem a) x"
    and n: "n \<le> tlsf_arena_span (amem a) x" "tlsf_arena_span (amem a) x < n + 64"
  obtains a' where "arena_carve a x n = Some a'" "arena_wf a' (us @ x # vs)"
    "ld_free (amem a') = (ld_free (amem a))(x := False)" "tlsf_arena_span (amem a') = tlsf_arena_span (amem a)"
    "\<And>y. \<not> ld_free (amem a) y \<Longrightarrow> ld_nx (amem a') y = ld_nx (amem a) y"
    "araw a' = araw a" "asize a' = asize a" "remote_free a' = remote_free a" "live_bytes a' = live_bytes a"
    "retired a' = retired a"
proof -
  note W = arena_wf_split [OF wf]
  let ?s = "tlsf_arena_span (amem a)"
  define u d where "u = tlsf_arena_unlink_free a x" and "d = x + ?s x"
  have dl: "dll (ld_nx (amem a)) (ld_pv (amem a)) (free_list a) (filter (ld_free (amem a)) (us @ x # vs))"
    using wf by (simp add: arena_wf_def)
  have xin: "x \<in> set (filter (ld_free (amem a)) (us @ x # vs))"
    using fr by simp
  note U = unlink_free_spec [OF dl xin u_def]
  define a1 where "a1 = on_mem (st_pp d x) (on_mem (st_word x (?s x)) u)"
  define a' where "a' = (if d \<noteq> asentinel a then
    on_mem (st_word d (ld_word (amem a1) d AND not64 BLOCK_STATE_PREV_FREE)) a1 else a1)"
  have "?s x < 2 ^ 64"
    using W(9) by simp
  note A = blk_aligned [OF W(5) this]
  have "(?s x + 2 ^ 64 - n) mod 2 ^ 64 = ?s x - n"
    using n W(9) by (intro sub64) simp_all
  moreover have "\<not> 64 \<le> ?s x - n"
    using n(2) by linarith
  ultimately have carve: "arena_carve a x n = Some a'"
    by (simp add: arena_carve_def Let_def u_def [symmetric] d_def [symmetric] a'_def a1_def
      TLSF_MIN_BLOCK_SIZE_def sizeof_tlsf_block_def U)
  have dx: "d \<noteq> x" "d \<notin> set us"
    using W(4) W(16) [of d] by (auto simp: d_def)
  have S: "tlsf_arena_span (amem a') = ?s" "ld_free (amem a') = (ld_free (amem a))(x := False)"
    "ld_prev_free (amem a') = (if d \<noteq> asentinel a then (ld_prev_free (amem a))(x := False, d := False)
      else (ld_prev_free (amem a))(x := False))"
    "ld_pp (amem a') = (ld_pp (amem a))(d := x)" "ld_nx (amem a') = ld_nx (amem u)" "ld_pv (amem a') = ld_pv (amem u)"
    "free_list a' = free_list u" "araw a' = araw a" "asize a' = asize a" "asentinel a' = asentinel a"
    "remote_free a' = remote_free a" "live_bytes a' = live_bytes a" "retired a' = retired a"
    using dx by (auto simp: a'_def a1_def arena_loads U A fun_eq_iff) (simp_all add: tlsf_arena_span_def ld_free_def)
  have px: "us \<noteq> [] \<Longrightarrow> \<not> ld_free (amem a) (last us)"
    using W(14) fr by auto
  have "phys (tlsf_arena_span (amem a')) (ld_pp (amem a')) 0 (araw a) (us @ [x] @ vs) (asentinel a)"
    by (rule phys_splice [OF W(2) W(6) [folded d_def]]) (use W(3-5) dx in \<open>auto simp: S d_def TLSF_MIN_BLOCK_SIZE_def\<close>)
  moreover have "arena_frame a'"
    using W(10) W(1) by (intro arena_frame_cong [OF W(1) S(8-10)])
      (auto simp: a'_def a1_def arena_loads U arena_frame_def)
  moreover have "fseg (ld_free (amem a')) (ld_prev_free (amem a')) False (us @ x # vs)"
  proof -
    have "fseg (ld_free (amem a')) (ld_prev_free (amem a')) False us"
      using W(7,12) dx(2) by (subst fseg_frame [of us _ "ld_free (amem a)" _ "ld_prev_free (amem a)"]) (auto simp: S)
    moreover have "fseg (ld_free (amem a')) (ld_prev_free (amem a')) False vs"
    proof (cases vs)
      case (Cons v ws)
      then have v: "v = d" "v \<noteq> asentinel a" "v \<notin> set ws" "v \<noteq> x" "x \<notin> set ws"
        using W(6,8,20) phys_bounds(4) [OF W(6), of v] by (auto simp: d_def)
      then have "fseg (ld_free (amem a')) (ld_prev_free (amem a')) (ld_free (amem a) v) ws"
        using W(15) Cons fr by (subst fseg_frame [of ws _ "ld_free (amem a)" _ "ld_prev_free (amem a)"]) (auto simp: S)
      then show ?thesis
        using v W(15) Cons fr by (auto simp: S)
    qed simp
    moreover have "last us \<noteq> x" if "us \<noteq> []"
      using W(7) last_in_set [OF that] by auto
    ultimately show ?thesis
      using px dx(1) by (auto simp: fseg_append S)
  qed
  moreover have "dll (ld_nx (amem a')) (ld_pv (amem a')) (free_list a') (filter (ld_free (amem a')) (us @ x # vs))"
  proof -
    have "remove1 x (filter (ld_free (amem a)) (us @ x # vs)) = filter (ld_free (amem a)) (us @ vs)"
      using fr W(7) by (simp add: remove1_append)
    then show ?thesis
      using U(1) W(7,8) by (simp add: S)
  qed
  ultimately have wf': "arena_wf a' (us @ x # vs)"
    by (simp add: arena_wf_def S)
  show thesis
  proof (rule that [OF carve wf' S(2,1) _ S(8,9,11,12,13)])
    show "ld_nx (amem a') y = ld_nx (amem a) y" if "\<not> ld_free (amem a) y" for y
      using U(13) [of y] that fr by (auto simp: S)
  qed
qed

lemma arena_carve_held:
  assumes wf: "arena_wf a xs" and x: "x \<in> set xs" "ld_free (amem a) x"
    and n: "n mod 8 = 0" "32 \<le> n" "n \<le> tlsf_arena_span (amem a) x"
  obtains a' xs' where "arena_carve a x n = Some a'" "arena_wf a' xs'"
    "n \<le> tlsf_arena_span (amem a') x \<and> tlsf_arena_span (amem a') x < n + 64"
    "arena_held a' xs' = insert (x, tlsf_arena_span (amem a') x) (arena_held a xs)" "x \<notin> fst ` arena_held a xs"
    "\<And>y. y \<in> fst ` arena_held a xs \<Longrightarrow> ld_nx (amem a') y = ld_nx (amem a) y"
    "araw a' = araw a" "asize a' = asize a" "remote_free a' = remote_free a" "live_bytes a' = live_bytes a"
    "retired a' = retired a"
proof -
  obtain us vs where xs: "xs = us @ x # vs"
    using x(1) by (auto simp: in_set_conv_decomp)
  note wf' = wf [unfolded xs]
  note W = arena_wf_split [OF wf']
  have fresh: "x \<notin> fst ` arena_held a xs"
    using x(2) by (auto simp: arena_held_def)
  show thesis
  proof (cases "n + 64 \<le> tlsf_arena_span (amem a) x")
    case True
    obtain a' where C: "arena_carve a x n = Some a'" "arena_wf a' (us @ x # (x + n) # vs)"
      "ld_free (amem a') = (ld_free (amem a))(x := False, x + n := True)" "tlsf_arena_span (amem a') x = n"
      "\<And>y. y \<noteq> x \<Longrightarrow> \<not> ld_free (amem a) y \<Longrightarrow> y \<noteq> x + n
        \<Longrightarrow> tlsf_arena_span (amem a') y = tlsf_arena_span (amem a) y \<and> ld_nx (amem a') y = ld_nx (amem a) y"
      "araw a' = araw a" "asize a' = asize a" "remote_free a' = remote_free a" "live_bytes a' = live_bytes a"
      "retired a' = retired a"
      using arena_carve_split [OF wf' x(2) n(1,2) True] by metis
    have nn: "x + n \<notin> set us" "x + n \<notin> set vs" "x + n \<noteq> x"
      using n True W(16) [of "x + n"] W(17) [of "x + n"] by auto
    have "(y, s) \<in> arena_held a' (us @ x # (x + n) # vs) \<longleftrightarrow> (y, s) = (x, n) \<or> (y, s) \<in> arena_held a xs" for y s
      using C(5) [of y] nn W(7,8) x(2) by (auto simp: arena_held_iff xs C(3,4))
    then have "arena_held a' (us @ x # (x + n) # vs) = insert (x, tlsf_arena_span (amem a') x) (arena_held a xs)"
      using C(4) by auto
    moreover have "ld_nx (amem a') y = ld_nx (amem a) y" if "y \<in> fst ` arena_held a xs" for y
    proof -
      have "y \<noteq> x" "\<not> ld_free (amem a) y" "y \<noteq> x + n"
        using that nn x(2) by (auto simp: arena_held_def xs)
      then show ?thesis
        using C(5) [of y] by blast
    qed
    ultimately show thesis
      using that [OF C(1,2)] C(4,6-10) fresh by simp
  next
    case False
    then have "tlsf_arena_span (amem a) x < n + 64"
      by simp
    from arena_carve_whole [OF wf' x(2) n(3) this]
    obtain a' where C: "arena_carve a x n = Some a'" "arena_wf a' (us @ x # vs)"
      "ld_free (amem a') = (ld_free (amem a))(x := False)" "tlsf_arena_span (amem a') = tlsf_arena_span (amem a)"
      "\<And>y. \<not> ld_free (amem a) y \<Longrightarrow> ld_nx (amem a') y = ld_nx (amem a) y"
      "araw a' = araw a" "asize a' = asize a" "remote_free a' = remote_free a" "live_bytes a' = live_bytes a"
      "retired a' = retired a"
      by metis
    have "arena_held a' (us @ x # vs) = insert (x, tlsf_arena_span (amem a') x) (arena_held a xs)"
      using x(2) W(7,8) by (auto simp: arena_held_def xs C(3,4))
    moreover have "ld_nx (amem a') y = ld_nx (amem a) y" if "y \<in> fst ` arena_held a xs" for y
      using C(5) [of y] that by (auto simp: arena_held_def)
    ultimately show thesis
      using that [OF C(1,2)] C(4,6-10) n(3) fresh False by simp
  qed
qed

text \<open>Well-formedness looks only at the store, the free-list head and the bounds.\<close>

lemma arena_wf_cong:
  assumes "amem a' = amem a" "araw a' = araw a" "asize a' = asize a" "asentinel a' = asentinel a"
    "free_list a' = free_list a"
  shows "arena_wf a' xs = arena_wf a xs" "arena_held a' xs = arena_held a xs"
  by (simp_all add: arena_wf_def arena_frame_def arena_held_def assms)

end
