(* ===== verification/Arena_Trace.thy ===== *)
theory Arena_Trace
  imports Arena_Layout Tlsf_Tier
begin

text \<open>
  The life of a per-thread arena: allocation, release by the owner or through the mailbox,
  retirement and cleanup, along every interleaving of these steps.  \<open>H\<close> is the set of blocks (with
  sizes) that clients hold; mailboxed blocks are neither held nor free.  \<open>live_bytes\<close> is shown to be
  exactly the sum of the held sizes, so that the cleanup of a retired arena runs precisely when the
  last block has come back.
\<close>

section \<open>Sizes add up\<close>

lemma pseg_sum: "pseg sz pp p a xs c \<Longrightarrow> a + sum_list (map sz xs) = c"
proof (induction xs arbitrary: p a)
  case (Cons x xs)
  then have "a = x" "(x + sz x) + sum_list (map sz xs) = c"
    by auto
  then show ?case
    by simp
qed simp

lemma held_finite [simp]: "finite (arena_held a xs)"
proof -
  have "arena_held a xs \<subseteq> (\<lambda>y. (y, tlsf_arena_span (amem a) y)) ` set xs"
    by (auto simp: arena_held_def)
  then show ?thesis
    by (rule finite_subset) simp
qed

lemma held_sum_le:
  assumes "arena_wf a xs"
  shows "sum snd (arena_held a xs) \<le> asize a"
proof -
  have W: "arena_frame a" "pseg (tlsf_arena_span (amem a)) (ld_pp (amem a)) 0 (araw a) xs (asentinel a)"
    "distinct xs"
    using assms phys_distinct by (auto simp: arena_wf_def phys_def)
  have "inj_on fst (arena_held a xs)" "fst ` arena_held a xs \<subseteq> set xs"
    by (auto simp: inj_on_def arena_held_def)
  then have "sum snd (arena_held a xs) = sum (tlsf_arena_span (amem a)) (fst ` arena_held a xs)"
    by (subst sum.reindex) (auto intro!: sum.cong simp: arena_held_def)
  also have "\<dots> \<le> sum (tlsf_arena_span (amem a)) (set xs)"
    using \<open>fst ` arena_held a xs \<subseteq> set xs\<close> by (intro sum_mono2) auto
  also have "\<dots> = sum_list (map (tlsf_arena_span (amem a)) xs)"
    using W(3) by (simp add: sum_list_distinct_conv_sum_set)
  also have "\<dots> \<le> asize a"
    using pseg_sum [OF W(2)] W(1) by (simp add: arena_frame_def)
  finally show ?thesis .
qed

lemma arena_wf_block:
  assumes "arena_wf a xs" "x \<in> set xs"
  shows "0 < x" "32 \<le> tlsf_arena_span (amem a) x" "araw a \<le> x"
    "x + tlsf_arena_span (amem a) x \<le> araw a + asize a - sizeof_tlsf_block"
proof -
  have W: "arena_frame a" "phys (tlsf_arena_span (amem a)) (ld_pp (amem a)) 0 (araw a) xs (asentinel a)"
    using assms(1) by (simp_all add: arena_wf_def)
  show "32 \<le> tlsf_arena_span (amem a) x"
    using phys_block(1) [OF W(2) assms(2)] by (simp add: TLSF_MIN_BLOCK_SIZE_def)
  show "0 < x" "araw a \<le> x" "x + tlsf_arena_span (amem a) x \<le> araw a + asize a - sizeof_tlsf_block"
    using phys_bounds(2,3) [OF W(2) assms(2)] W(1) by (auto simp: arena_frame_def)
qed

text \<open>When every free block is short, little is free: there is at most one free block more than there
  are held ones.\<close>

lemma sum_list_map_filter_partition:
  fixes f :: "'a \<Rightarrow> nat"
  shows "sum_list (map f xs) = sum_list (map f (filter P xs)) + sum_list (map f (filter (\<lambda>x. \<not> P x) xs))"
  by (induction xs) auto

lemma sum_list_bound: "(\<And>x. x \<in> set xs \<Longrightarrow> f x \<le> c) \<Longrightarrow> sum_list (map f xs) \<le> length xs * (c::nat)"
  by (induction xs) (auto simp: add_mono)

lemma fseg_count:
  "fseg fr pf p xs \<Longrightarrow> length (filter fr xs) \<le> length (filter (\<lambda>x. \<not> fr x) xs) + (if p then 0 else 1)"
proof (induction xs arbitrary: p)
  case (Cons x xs)
  then show ?case
    using Cons.IH [of "fr x"] by (cases "fr x") auto
qed simp

lemma arena_exhausted:
  assumes wf: "arena_wf a xs"
    and n: "0 < n" and short: "\<And>y. y \<in> set xs \<Longrightarrow> ld_free (amem a) y \<Longrightarrow> tlsf_arena_span (amem a) y < n"
  shows "asize a < sizeof_tlsf_block + sum snd (arena_held a xs) + Suc (card (arena_held a xs)) * n"
proof -
  let ?s = "tlsf_arena_span (amem a)" and ?F = "filter (ld_free (amem a)) xs"
    and ?U = "filter (\<lambda>x. \<not> ld_free (amem a) x) xs"
  have W: "arena_frame a" "pseg ?s (ld_pp (amem a)) 0 (araw a) xs (asentinel a)" "distinct xs"
    "fseg (ld_free (amem a)) (ld_prev_free (amem a)) False xs"
    using wf phys_distinct by (auto simp: arena_wf_def phys_def)
  have all: "asize a = sizeof_tlsf_block + sum_list (map ?s ?F) + sum_list (map ?s ?U)"
  proof -
    have "asentinel a = araw a + asize a - 32" "64 \<le> asize a"
      using W(1) by (simp_all add: arena_frame_def sizeof_tlsf_block_def)
    then show ?thesis
      using pseg_sum [OF W(2)] sum_list_map_filter_partition [of ?s xs "ld_free (amem a)"]
      by (simp add: sizeof_tlsf_block_def)
  qed
  have "arena_held a xs = (\<lambda>y. (y, ?s y)) ` set ?U"
    by (auto simp: arena_held_def)
  then have held: "card (arena_held a xs) = length ?U" "sum snd (arena_held a xs) = sum_list (map ?s ?U)"
    using W(3) by (simp_all add: card_image inj_on_def distinct_card sum.reindex sum_list_distinct_conv_sum_set
      del: set_filter)
  have "sum_list (map ?s ?F) \<le> length ?F * (n - 1)"
    using sum_list_bound [of ?F ?s "n - 1"] short by force
  also have "\<dots> \<le> Suc (length ?U) * (n - 1)"
    using fseg_count [OF W(4)] by (intro mult_right_mono) auto
  finally have F: "sum_list (map ?s ?F) \<le> Suc (length ?U) * (n - 1)" .
  moreover have "Suc (length ?U) * (n - 1) < Suc (length ?U) * n"
    using n by (intro mult_strict_left_mono) simp_all
  ultimately show ?thesis
    unfolding held using all by linarith
qed

section \<open>The invariant over mailbox and counter\<close>

definition arena_inv :: "tlsf_arena \<Rightarrow> (addr \<times> nat) set \<Rightarrow> bool" where
  "arena_inv a H \<longleftrightarrow> \<not> finished a \<and>
     (\<exists>xs M. arena_wf a xs \<and> mchain (ld_nx (amem a)) (remote_free a) M \<and> distinct M
        \<and> set M \<subseteq> fst ` arena_held a xs \<and> H = {p \<in> arena_held a xs. fst p \<notin> set M}
        \<and> live_bytes a = sum snd H)"

lemma arena_invI:
  assumes "\<not> finished a" "arena_wf a xs" "mchain (ld_nx (amem a)) (remote_free a) M"
    "distinct M" "set M \<subseteq> fst ` arena_held a xs" "H = {p \<in> arena_held a xs. fst p \<notin> set M}"
    "live_bytes a = sum snd H"
  shows "arena_inv a H"
  using assms unfolding arena_inv_def by blast

lemma arena_ops_keep:
  "finished (tlsf_arena_unlink_free a x) = finished a"
  "cleanup_claimed (tlsf_arena_unlink_free a x) = cleanup_claimed a"
  "finished (arena_link a x p c) = finished a" "cleanup_claimed (arena_link a x p c) = cleanup_claimed a"
  by (simp_all add: tlsf_arena_unlink_free_def arena_link_def Let_def)

lemma insert_free_keeps:
  "tlsf_arena_insert_free a x = Some a' \<Longrightarrow> finished a' = finished a \<and> cleanup_claimed a' = cleanup_claimed a"
  by (auto simp: tlsf_arena_insert_free_def arena_merge_forward_def arena_merge_backward_def Let_def arena_ops_keep
    bind_eq_Some_conv split: if_splits prod.splits)

lemma carve_keeps:
  "arena_carve a x n = Some a' \<Longrightarrow> finished a' = finished a \<and> cleanup_claimed a' = cleanup_claimed a"
  by (auto simp: arena_carve_def Let_def arena_ops_keep split: if_splits dest!: insert_free_keeps)

lemma reap_loop_keeps:
  assumes "arena_reap_loop a h = Some a'"
  shows "finished a' = finished a \<and> cleanup_claimed a' = cleanup_claimed a"
proof (rule arena_reap_loop.raw_induct [OF _ assms])
  fix f :: "tlsf_arena \<Rightarrow> addr \<Rightarrow> tlsf_arena option" and a h a'
  assume IH: "\<And>a h a'. f a h = Some a' \<Longrightarrow> finished a' = finished a \<and> cleanup_claimed a' = cleanup_claimed a"
    and "(if h = 0 then Some a
      else let next = ld_nx (amem a) h;
               a = on_mem (st_word h (tlsf_arena_span (amem a) h OR BLOCK_STATE_FREE)) a
           in tlsf_arena_insert_free a h \<bind> (\<lambda>a. f a next)) = Some a'"
  then show "finished a' = finished a \<and> cleanup_claimed a' = cleanup_claimed a"
    by (auto simp: Let_def bind_eq_Some_conv split: if_splits dest!: insert_free_keeps IH)
qed

section \<open>Steps\<close>

lemma arena_reap_inv:
  assumes "arena_inv a H"
  obtains a' xs where "tlsf_arena_reap a = Some a'" "arena_inv a' H" "remote_free a' = 0" "arena_wf a' xs"
    "arena_held a' xs = H" "araw a' = araw a" "asize a' = asize a" "retired a' = retired a"
    "live_bytes a' = live_bytes a" "finished a' = finished a" "cleanup_claimed a' = cleanup_claimed a"
proof -
  obtain xs M where A: "arena_wf a xs" "mchain (ld_nx (amem a)) (remote_free a) M" "distinct M"
    "set M \<subseteq> fst ` arena_held a xs" "H = {p \<in> arena_held a xs. fst p \<notin> set M}" "live_bytes a = sum snd H"
    and nf: "\<not> finished a"
    using assms by (auto simp: arena_inv_def)
  define a0 where "a0 = a\<lparr>remote_free := 0\<rparr>"
  have wf0: "arena_wf a0 xs" "mchain (ld_nx (amem a0)) (remote_free a) M" "set M \<subseteq> fst ` arena_held a0 xs"
    and h0: "arena_held a0 xs = arena_held a xs"
    using A arena_wf_cong [of a0 a] by (simp_all add: a0_def)
  obtain a' xs' where R: "arena_reap_loop a0 (remote_free a) = Some a'" "arena_wf a' xs'"
    "arena_held a' xs' = {(y, s) \<in> arena_held a0 xs. y \<notin> set M}"
    "araw a' = araw a0" "asize a' = asize a0" "remote_free a' = remote_free a0" "live_bytes a' = live_bytes a0"
    "retired a' = retired a0"
    using arena_reap_loop_spec [OF wf0(1,2) A(3) wf0(3)] by blast
  have H: "arena_held a' xs' = H"
    unfolding R(3) h0 A(5) by auto
  have k: "finished a' = finished a" "cleanup_claimed a' = cleanup_claimed a"
    using reap_loop_keeps [OF R(1)] by (simp_all add: a0_def)
  have "arena_inv a' H"
    by (rule arena_invI [where xs = xs' and M = "[]"]) (use R k nf A(6) H in \<open>simp_all add: a0_def\<close>)
  then show thesis
    using that [of a' xs'] R k H by (simp add: tlsf_arena_reap_def a0_def)
qed

text \<open>Allocation: it returns, and what it returns is null only when no free block is large enough.\<close>

lemma arena_alloc_inv:
  assumes inv: "arena_inv a H" and n: "n mod 8 = 0" "32 \<le> n"
  obtains a' b where "tlsf_arena_alloc a n = Some (a', b)"
    "b = 0 \<Longrightarrow> arena_inv a' H \<and> asize a < sizeof_tlsf_block + sum snd H + Suc (card H) * n"
    "b \<noteq> 0 \<Longrightarrow> b \<notin> fst ` H \<and> n \<le> tlsf_arena_span (amem a') b \<and> tlsf_arena_span (amem a') b < n + 64
       \<and> arena_inv a' (insert (b, tlsf_arena_span (amem a') b) H)"
    "asize a' = asize a" "araw a' = araw a" "retired a' = retired a" "cleanup_claimed a' = cleanup_claimed a"
proof -
  obtain a1 where a1: "(if remote_free a \<noteq> 0 then tlsf_arena_reap a else Some a) = Some a1" "arena_inv a1 H"
    "remote_free a1 = 0" "asize a1 = asize a" "araw a1 = araw a" "retired a1 = retired a"
    "cleanup_claimed a1 = cleanup_claimed a"
  proof (cases "remote_free a = 0")
    case True
    then show thesis
      using that [of a] inv by simp
  next
    case False
    then show thesis
      using arena_reap_inv [OF inv] that by (metis (no_types))
  qed
  obtain xs M where A: "arena_wf a1 xs" "mchain (ld_nx (amem a1)) 0 M"
    "H = {p \<in> arena_held a1 xs. fst p \<notin> set M}" "live_bytes a1 = sum snd H"
    and nf: "\<not> finished a1"
    using a1(2,3) by (auto simp: arena_inv_def)
  have "M = []"
    using A(2) by (cases M) auto
  with A(3) have H: "H = arena_held a1 xs"
    by simp
  have dl: "dll (ld_nx (amem a1)) (ld_pv (amem a1)) (free_list a1) (filter (ld_free (amem a1)) xs)"
    using A(1) by (simp add: arena_wf_def)
  define L where "L = filter (\<lambda>y. n \<le> tlsf_arena_span (amem a1) y) (filter (ld_free (amem a1)) xs)"
  define b where "b = (case L of [] \<Rightarrow> 0 | y # _ \<Rightarrow> y)"
  have ff: "arena_first_fit (amem a1) n (free_list a1) = Some b"
    using arena_first_fit_spec [OF dl] by (simp add: b_def L_def)
  show thesis
  proof (cases L)
    case Nil
    then have "tlsf_arena_alloc a n = Some (a1, 0)"
      using a1(1) ff by (simp add: tlsf_arena_alloc_def b_def)
    moreover have "y \<in> set xs \<Longrightarrow> ld_free (amem a1) y \<Longrightarrow> tlsf_arena_span (amem a1) y < n" for y
      using Nil by (auto simp: L_def filter_empty_conv not_le)
    ultimately show thesis
      using that [of a1 0] a1 arena_exhausted [OF A(1), of n] n(2) by (simp add: H)
  next
    case (Cons y ys)
    then have "b = y" "y \<in> set L"
      by (simp_all add: b_def)
    then have bx: "b \<in> set xs" "ld_free (amem a1) b" "n \<le> tlsf_arena_span (amem a1) b"
      by (auto simp: L_def)
    have "b \<noteq> 0"
      using dllseg_nonnull [OF dl, of b] bx by simp
    obtain a2 xs2 where C: "arena_carve a1 b n = Some a2" "arena_wf a2 xs2"
      "n \<le> tlsf_arena_span (amem a2) b \<and> tlsf_arena_span (amem a2) b < n + 64"
      "arena_held a2 xs2 = insert (b, tlsf_arena_span (amem a2) b) (arena_held a1 xs)" "b \<notin> fst ` arena_held a1 xs"
      "araw a2 = araw a1" "asize a2 = asize a1" "remote_free a2 = remote_free a1" "live_bytes a2 = live_bytes a1"
      "retired a2 = retired a1"
      using arena_carve_held [OF A(1) bx(1,2) n bx(3)] by metis
    let ?s = "tlsf_arena_span (amem a2) b"
    define a3 where "a3 = a2\<lparr>live_bytes := (live_bytes a2 + ?s) mod 2 ^ 64\<rparr>"
    have sum: "sum snd (insert (b, ?s) H) = ?s + sum snd H"
      using C(5) H by (subst sum.insert) (auto simp: image_iff)
    then have "?s + sum snd H \<le> asize a2"
      using held_sum_le [OF C(2)] unfolding C(4) H by simp
    moreover have "asize a2 \<le> 2 ^ 30"
      using C(2) by (simp add: arena_wf_def arena_frame_def)
    ultimately have "(live_bytes a2 + ?s) mod 2 ^ 64 = sum snd (insert (b, ?s) H)"
      using sum C(9) A(4) by simp
    moreover have "arena_wf a3 xs2" "arena_held a3 xs2 = insert (b, ?s) H"
      using C(2,4) H arena_wf_cong [of a3 a2] by (simp_all add: a3_def)
    ultimately have "arena_inv a3 (insert (b, ?s) H)"
      using carve_keeps [OF C(1)] nf C(8) a1(3)
      by (intro arena_invI [where xs = xs2 and M = "[]"]) (auto simp: a3_def)
    moreover have "tlsf_arena_alloc a n = Some (a3, b)"
      using a1(1) ff C(1) \<open>b \<noteq> 0\<close> by (simp add: tlsf_arena_alloc_def a3_def)
    ultimately show thesis
      using that [of a3 b] \<open>b \<noteq> 0\<close> C(3,5,6,7,10) a1(4-7) carve_keeps [OF C(1)] H by (simp add: a3_def)
  qed
qed

text \<open>Release: the block goes on the free list or into the mailbox, and the counter follows.\<close>

lemma arena_release_inv:
  assumes inv: "arena_inv a H" and x: "(x, s) \<in> H"
    and r: "(if own \<and> \<not> retired a
           then tlsf_arena_insert_free (on_mem (st_word x (s OR BLOCK_STATE_FREE)) a) x
           else Some ((on_mem (st_nx x (remote_free a)) a)\<lparr>remote_free := x\<rparr>)) = R"
  obtains a1 where "R = Some a1" "live_bytes a1 = sum snd H" "s \<le> sum snd H" "sum snd H < 2 ^ 64"
    "arena_inv (a1\<lparr>live_bytes := (live_bytes a1 + 2 ^ 64 - s) mod 2 ^ 64\<rparr>) (H - {(x, s)})"
    "asize a1 = asize a" "araw a1 = araw a" "retired a1 = retired a" "cleanup_claimed a1 = cleanup_claimed a"
proof -
  obtain xs M where A: "arena_wf a xs" "mchain (ld_nx (amem a)) (remote_free a) M" "distinct M"
    "set M \<subseteq> fst ` arena_held a xs" "H = {p \<in> arena_held a xs. fst p \<notin> set M}" "live_bytes a = sum snd H"
    and nf: "\<not> finished a"
    using inv by (auto simp: arena_inv_def)
  have fin: "finite H"
    using A(5) by simp
  have xx: "x \<in> set xs" "\<not> ld_free (amem a) x" "s = tlsf_arena_span (amem a) x" "x \<notin> set M"
    using x A(5) by (auto simp: arena_held_iff)
  have sum: "sum snd H = s + sum snd (H - {(x, s)})"
    using sum.remove [OF fin x, of snd] by simp
  have "sum snd H \<le> sum snd (arena_held a xs)"
    unfolding A(5) by (rule sum_mono2) auto
  then have lt: "sum snd H < 2 ^ 64"
    using held_sum_le [OF A(1)] A(1) by (simp add: arena_wf_def arena_frame_def)
  have cnt: "(sum snd H + 2 ^ 64 - s) mod 2 ^ 64 = sum snd (H - {(x, s)})"
    using sub64 [of s "sum snd H"] sum lt by simp
  show thesis
  proof (cases "own \<and> \<not> retired a")
    case True
    obtain a1 xs1 where G:
      "tlsf_arena_insert_free (on_mem (st_word x (s OR BLOCK_STATE_FREE)) a) x = Some a1"
      "arena_wf a1 xs1" "arena_held a1 xs1 = arena_held a xs - {(x, s)}"
      "\<And>y. y \<noteq> x \<Longrightarrow> \<not> ld_free (amem a) y \<Longrightarrow> ld_nx (amem a1) y = ld_nx (amem a) y \<and> \<not> ld_free (amem a1) y"
      "araw a1 = araw a" "asize a1 = asize a" "remote_free a1 = remote_free a" "live_bytes a1 = live_bytes a"
      "retired a1 = retired a"
      using arena_give_back [OF A(1) xx(1,2)] unfolding xx(3) by metis
    define a2 where "a2 = a1\<lparr>live_bytes := (live_bytes a1 + 2 ^ 64 - s) mod 2 ^ 64\<rparr>"
    have mem: "y \<noteq> x \<and> \<not> ld_free (amem a) y" if "y \<in> set M" for y
      using that xx(4) A(4) by (auto simp: arena_held_def)
    have "arena_inv a2 (H - {(x, s)})"
    proof (rule arena_invI [where xs = xs1 and M = M])
      show "mchain (ld_nx (amem a2)) (remote_free a2) M"
        using A(2) G(4,7) mem mchain_frame [of M "ld_nx (amem a1)" "ld_nx (amem a)"] by (simp add: a2_def)
      show "set M \<subseteq> fst ` arena_held a2 xs1"
        using A(4) xx(4) arena_wf_cong(2) [of a2 a1] by (force simp: a2_def G(3) image_iff)
      show "H - {(x, s)} = {p \<in> arena_held a2 xs1. fst p \<notin> set M}"
        using A(5) arena_wf_cong(2) [of a2 a1] by (auto simp: a2_def G(3))
      show "arena_wf a2 xs1"
        using G(2) arena_wf_cong(1) [of a2 a1] by (simp add: a2_def)
    qed (use nf insert_free_keeps [OF G(1)] A(3,6) G(8) cnt in \<open>simp_all add: a2_def\<close>)
    then show thesis
      using that [of a1] r True G(1,5,6,8,9) insert_free_keeps [OF G(1)] A(6) sum lt by (simp add: a2_def)
  next
    case False
    define a1 where "a1 = (on_mem (st_nx x (remote_free a)) a)\<lparr>remote_free := x\<rparr>"
    define a2 where "a2 = a1\<lparr>live_bytes := (live_bytes a1 + 2 ^ 64 - s) mod 2 ^ 64\<rparr>"
    have S: "ld_word (amem a2) = ld_word (amem a)" "tlsf_arena_span (amem a2) = tlsf_arena_span (amem a)"
      "ld_free (amem a2) = ld_free (amem a)" "ld_prev_free (amem a2) = ld_prev_free (amem a)"
      "ld_pp (amem a2) = ld_pp (amem a)" "ld_pv (amem a2) = ld_pv (amem a)"
      "ld_nx (amem a2) = (ld_nx (amem a))(x := remote_free a)"
      by (simp_all add: a2_def a1_def arena_loads)
    have held: "arena_held a2 xs = arena_held a xs"
      by (simp add: arena_held_def S)
    have "x \<notin> set (filter (ld_free (amem a)) xs)"
      using xx(2) by simp
    then have links: "dll (ld_nx (amem a2)) (ld_pv (amem a2)) (free_list a) (filter (ld_free (amem a2)) xs)"
      using A(1) unfolding S by (simp add: arena_wf_def)
    have same: "araw a2 = araw a" "asize a2 = asize a" "asentinel a2 = asentinel a" "free_list a2 = free_list a"
      by (simp_all add: a2_def a1_def)
    have "arena_frame a2"
      by (rule arena_frame_cong [OF _ same(1-3)]) (use A(1) in \<open>simp_all add: arena_wf_def S\<close>)
    then have wf2: "arena_wf a2 xs"
      using A(1) links unfolding arena_wf_def same S by blast
    have "arena_inv a2 (H - {(x, s)})"
    proof (rule arena_invI [where xs = xs and M = "x # M"])
      have "x \<noteq> 0"
        using arena_wf_block(1) [OF A(1) xx(1)] by simp
      moreover have "mchain (ld_nx (amem a2)) (remote_free a) M = mchain (ld_nx (amem a)) (remote_free a) M"
        using xx(4) by (intro mchain_frame) (auto simp: S)
      moreover have "remote_free a2 = x" "ld_nx (amem a2) x = remote_free a"
        by (simp_all add: S) (simp add: a2_def a1_def)
      ultimately show "mchain (ld_nx (amem a2)) (remote_free a2) (x # M)"
        using A(2) by simp
      show "set (x # M) \<subseteq> fst ` arena_held a2 xs"
        using A(4) x A(5) unfolding held by force
      show "H - {(x, s)} = {p \<in> arena_held a2 xs. fst p \<notin> set (x # M)}"
        using A(5) xx(3) unfolding held by (auto simp: arena_held_iff)
    qed (use nf A(3,6) xx(4) cnt wf2 in \<open>simp_all add: a2_def a1_def\<close>)
    then show thesis
      using that [of a1] r False A(6) sum lt by (auto simp: a2_def a1_def)
  qed
qed

text \<open>An arena nobody holds a block of is one free block.\<close>

lemma arena_empty:
  assumes wf: "arena_wf a xs" and "arena_held a xs = {}"
  shows "xs = [araw a]" "free_list a = araw a" "ld_nx (amem a) (araw a) = 0"
    "tlsf_arena_span (amem a) (araw a) = asize a - sizeof_tlsf_block"
proof -
  have W: "arena_frame a" "phys (tlsf_arena_span (amem a)) (ld_pp (amem a)) 0 (araw a) xs (asentinel a)"
    "dll (ld_nx (amem a)) (ld_pv (amem a)) (free_list a) (filter (ld_free (amem a)) xs)"
    "fseg (ld_free (amem a)) (ld_prev_free (amem a)) False xs"
    using wf by (simp_all add: arena_wf_def)
  have fr: "\<forall>x \<in> set xs. ld_free (amem a) x"
    using assms(2) by (auto simp: arena_held_def)
  have "length xs \<le> 1"
    using fseg_all_free [OF W(4) fr] by simp
  moreover have "xs \<noteq> []"
    using W(1,2) by (auto simp: arena_frame_def sizeof_tlsf_block_def)
  ultimately obtain x where x: "xs = [x]"
    by (cases xs) auto
  with W fr show "xs = [araw a]" "free_list a = araw a" "ld_nx (amem a) (araw a) = 0"
    "tlsf_arena_span (amem a) (araw a) = asize a - sizeof_tlsf_block"
    by (auto simp: arena_frame_def)
qed

section \<open>The validator accepts\<close>

lemma and_7_mod_8: "(n::nat) AND 7 = n mod 8"
  using take_bit_eq_mask [of 3 n] take_bit_eq_mod [of 3 n] by (simp add: mask_eq_exp_minus_1)

lemma arena_check_chain_ok:
  "phys (tlsf_arena_span m) (ld_pp m) p a xs e \<Longrightarrow> fseg (ld_free m) (ld_prev_free m) (p \<noteq> 0 \<and> ld_free m p) xs
    \<Longrightarrow> a \<noteq> 0 \<Longrightarrow> arena_check_chain m e p a = Some (last (p # xs), e)"
proof (induction xs arbitrary: p a)
  case Nil
  then show ?case
    by (subst arena_check_chain.simps) simp
next
  case (Cons x xs)
  let ?s = "tlsf_arena_span m"
  have x: "a = x" "x \<noteq> 0" "ld_pp m x = p" "32 \<le> ?s x" "?s x AND 7 = 0"
    and ph: "phys ?s (ld_pp m) x (x + ?s x) xs e"
    and fs: "ld_prev_free m x = (p \<noteq> 0 \<and> ld_free m p)" "fseg (ld_free m) (ld_prev_free m) (ld_free m x) xs"
    using Cons.prems by (auto simp: TLSF_MIN_BLOCK_SIZE_def and_7_mod_8)
  have "x + ?s x \<le> e" "x < e"
    using phys_bounds(1) [OF ph] x(4) by auto
  then have "arena_check_chain m e p a = arena_check_chain m e x (x + ?s x)"
    using x fs(1) by (subst arena_check_chain.simps) (simp add: TLSF_MIN_BLOCK_SIZE_def)
  also have "\<dots> = Some (last (x # xs), e)"
    using Cons.IH [OF ph] fs(2) x(2) by simp
  finally show ?case
    by simp
qed

text \<open>Of two consecutive entries of the free list the second lies beyond the end of the first.\<close>

lemma free_gap:
  "phys sz pp p a xs e \<Longrightarrow> fseg fr pf f xs
    \<Longrightarrow> sorted_wrt (\<lambda>y z. y < z \<and> y + sz y \<noteq> z) (filter fr xs)
      \<and> (f \<longrightarrow> a \<notin> set (filter fr xs))"
proof (induction xs arbitrary: p a f)
  case (Cons x xs)
  then have ph: "phys sz pp x (x + sz x) xs e" and fs: "fseg fr pf (fr x) xs" and x: "0 < sz x" "a = x"
      "f \<longrightarrow> \<not> fr x"
    by (auto simp: TLSF_MIN_BLOCK_SIZE_def)
  have lt: "x < y" if "y \<in> set xs" for y
    using phys_bounds(2) [OF ph that] x(1) by linarith
  show ?case
    using Cons.IH [OF ph fs] lt x by (cases "fr x") auto
qed simp

lemma arena_check_list_ok:
  "dllseg (ld_nx m) (ld_pv m) p h L 0 \<Longrightarrow> sorted_wrt (\<lambda>y z. y < z \<and> y + tlsf_arena_span m y \<noteq> z) L
    \<Longrightarrow> (p \<noteq> 0 \<longrightarrow> (\<forall>y \<in> set L. p < y \<and> p + tlsf_arena_span m p \<noteq> y))
    \<Longrightarrow> \<forall>y \<in> set L. ld_free m y \<and> r \<le> y \<and> y + tlsf_arena_span m y \<le> e
    \<Longrightarrow> arena_check_list m r e p h"
proof (induction L arbitrary: p h)
  case Nil
  then show ?case
    by (subst arena_check_list.simps) simp
next
  case (Cons y L)
  then have h: "h = y" "y \<noteq> 0" "ld_pv m y = p" and seg: "dllseg (ld_nx m) (ld_pv m) y (ld_nx m y) L 0"
    by auto
  have "arena_check_list m r e p h = arena_check_list m r e y (ld_nx m y)"
    using h Cons.prems(3,4) by (subst arena_check_list.simps) auto
  then show ?case
    using Cons.IH [OF seg] Cons.prems(2,4) by simp
qed

lemma arena_wf_validates:
  assumes "arena_wf a xs"
  shows "tlsf_arena_validate a"
proof -
  let ?m = "amem a" and ?e = "araw a + asize a - sizeof_tlsf_block"
  have W: "arena_frame a" "phys (tlsf_arena_span ?m) (ld_pp ?m) 0 (araw a) xs (asentinel a)"
    "dll (ld_nx ?m) (ld_pv ?m) (free_list a) (filter (ld_free ?m) xs)"
    "fseg (ld_free ?m) (ld_prev_free ?m) False xs"
    using assms by (simp_all add: arena_wf_def)
  have e: "asentinel a = ?e" "araw a \<noteq> 0" "ld_word ?m ?e = 0"
    using W(1) by (auto simp: arena_frame_def)
  have "arena_check_chain ?m ?e 0 (araw a) = Some (last (0 # xs), ?e)" "ld_pp ?m ?e = last (0 # xs)"
    using arena_check_chain_ok [of ?m 0 "araw a" xs ?e] W(2,4) e by (simp_all add: phys_def)
  moreover have "arena_check_list ?m (araw a) ?e 0 (free_list a)"
    using free_gap [OF W(2,4)] phys_bounds(2,3) [OF W(2)] e(1)
    by (intro arena_check_list_ok [OF W(3)]) auto
  ultimately show ?thesis
    using e by (simp add: tlsf_arena_validate_def)
qed

section \<open>Cleanup, retirement and release\<close>

lemma arena_cleanup_empty:
  assumes inv: "arena_inv a {}" and "\<not> cleanup_claimed a"
  obtains a' where "arena_claim_cleanup ptotal a = Some ((ptotal + 2 ^ 64 - asize a) mod 2 ^ 64, a')"
    "finished a'" "araw a' = 0" "retired a' = retired a" "live_bytes a' = 0"
    "free_list a' = araw a" "ld_nx (amem a') (araw a) = 0"
    "tlsf_arena_span (amem a') (araw a) = asize a - sizeof_tlsf_block"
proof -
  let ?c = "a\<lparr>cleanup_claimed := True\<rparr>"
  have "arena_inv ?c {}"
    using inv arena_wf_cong [of ?c a] by (simp add: arena_inv_def)
  then obtain a1 xs where R: "tlsf_arena_reap ?c = Some a1" "arena_wf a1 xs" "arena_held a1 xs = {}"
    "araw a1 = araw a" "asize a1 = asize a" "retired a1 = retired a" "live_bytes a1 = live_bytes a"
    using arena_reap_inv [of ?c "{}"] by (auto elim: arena_reap_inv)
  have "araw a \<noteq> 0" "live_bytes a = 0"
    using R(2,4) inv by (auto simp: arena_wf_def arena_frame_def arena_inv_def)
  then have "arena_claim_cleanup ptotal a =
      Some ((ptotal + 2 ^ 64 - asize a) mod 2 ^ 64, a1\<lparr>araw := 0, finished := True\<rparr>)"
    using R assms(2) by (simp add: arena_claim_cleanup_def tlsf_arena_cleanup_def)
  then show thesis
    using that arena_empty [OF R(2,3)] R \<open>live_bytes a = 0\<close> by simp
qed

text \<open>Either the arena lives on with its counters exact, or it has been handed back: \<open>arena_state P\<close>
  with \<open>P\<close> the pool's byte counter without this arena.\<close>

definition arena_state :: "nat \<Rightarrow> nat \<Rightarrow> tlsf_arena \<Rightarrow> (addr \<times> nat) set \<Rightarrow> bool" where
  "arena_state P ptotal a H \<longleftrightarrow>
     (if finished a then retired a \<and> H = {} \<and> araw a = 0 \<and> ptotal = P
      else arena_inv a H \<and> \<not> cleanup_claimed a \<and> ptotal = P + asize a \<and> ptotal < 2 ^ 64
        \<and> (retired a \<longrightarrow> H \<noteq> {}))"

lemma arena_finish:
  assumes "arena_inv a {}" "\<not> cleanup_claimed a" "retired a" "ptotal = P + asize a" "ptotal < 2 ^ 64"
  obtains a' where "arena_claim_cleanup ptotal a = Some (P, a')" "arena_state P P a' {}" "finished a'"
proof -
  have "(ptotal + 2 ^ 64 - asize a) mod 2 ^ 64 = P"
    using sub64 [of "asize a" ptotal] assms(4,5) by simp
  then show thesis
    using arena_cleanup_empty [OF assms(1,2), of ptotal] that assms(3) by (metis arena_state_def)
qed

lemma held_sum_pos:
  assumes "arena_inv a H" "(x, s) \<in> H" "sum snd H = s"
  shows "H = {(x, s)}"
proof -
  have fin: "finite H" and pos: "\<And>p. p \<in> H \<Longrightarrow> 32 \<le> snd p"
    using assms(1) arena_wf_block(2) by (auto simp: arena_inv_def arena_held_iff)
  have "sum snd (H - {(x, s)}) = 0"
    using sum.remove [OF fin assms(2), of snd] assms(3) by simp
  then have "\<forall>p \<in> H - {(x, s)}. snd p = 0"
    using fin by simp
  moreover have "\<forall>p \<in> H - {(x, s)}. snd p \<noteq> 0"
    using pos by force
  ultimately have "H - {(x, s)} = {}"
    by blast
  then show ?thesis
    using assms(2) by auto
qed

lemma arena_free_state:
  assumes st: "arena_state P ptotal a H" and x: "(x, s) \<in> H"
  obtains ptotal' a' where "tlsf_arena_free_block own ptotal a x = Some (ptotal', a')"
    "arena_state P ptotal' a' (H - {(x, s)})" "retired a' = retired a"
proof -
  have a: "\<not> finished a" "arena_inv a H" "\<not> cleanup_claimed a" "ptotal = P + asize a" "ptotal < 2 ^ 64"
    using st x by (auto simp: arena_state_def split: if_splits)
  have s: "tlsf_arena_span (amem a) x = s"
    using a(2) x by (auto simp: arena_inv_def arena_held_iff)
  obtain a1 where R: "(if own \<and> \<not> retired a
      then tlsf_arena_insert_free (on_mem (st_word x (s OR BLOCK_STATE_FREE)) a) x
      else Some ((on_mem (st_nx x (remote_free a)) a)\<lparr>remote_free := x\<rparr>)) = Some a1"
    "live_bytes a1 = sum snd H" "s \<le> sum snd H"
    "arena_inv (a1\<lparr>live_bytes := (live_bytes a1 + 2 ^ 64 - s) mod 2 ^ 64\<rparr>) (H - {(x, s)})"
    "asize a1 = asize a" "retired a1 = retired a" "cleanup_claimed a1 = cleanup_claimed a"
    using arena_release_inv [OF a(2) x refl, of own] by metis
  define a2 where "a2 = a1\<lparr>live_bytes := (live_bytes a1 + 2 ^ 64 - s) mod 2 ^ 64\<rparr>"
  have run: "tlsf_arena_free_block own ptotal a x =
      (if live_bytes a1 = s \<and> retired a then arena_claim_cleanup ptotal a2 else Some (ptotal, a2))"
    using R(1,6) by (simp add: tlsf_arena_free_block_def s Let_def a2_def)
  have a2: "arena_inv a2 (H - {(x, s)})" "\<not> cleanup_claimed a2" "ptotal = P + asize a2" "retired a2 = retired a"
    using R a(3,4) by (simp_all add: a2_def)
  show thesis
  proof (cases "live_bytes a1 = s \<and> retired a")
    case True
    then have "H - {(x, s)} = {}"
      using held_sum_pos [OF a(2) x] R(2) by simp
    moreover obtain a3 where "arena_claim_cleanup ptotal a2 = Some (P, a3)" "arena_state P P a3 {}" "finished a3"
      using arena_finish [of a2 ptotal P] a2 True a(5) calculation by metis
    ultimately show thesis
      using that [of P a3] True run by (simp add: arena_state_def)
  next
    case False
    have "H - {(x, s)} \<noteq> {}" if "retired a"
    proof
      assume "H - {(x, s)} = {}"
      then have "H = {(x, s)}"
        using x by auto
      then show False
        using that False R(2) by simp
    qed
    then have "arena_state P ptotal a2 (H - {(x, s)})"
      using a2 a(5) by (auto simp: arena_state_def arena_inv_def)
    then show thesis
      using that [of ptotal a2] False run a2(4) by simp
  qed
qed

lemma arena_retire_state:
  assumes st: "arena_state P ptotal a H" and "\<not> retired a"
  obtains ptotal' a' where "tlsf_arena_retire True ptotal a = Some (ptotal', a')"
    "arena_state P ptotal' a' H" "retired a'"
proof -
  have a: "\<not> finished a" "arena_inv a H" "\<not> cleanup_claimed a" "ptotal = P + asize a" "ptotal < 2 ^ 64"
    using assms by (auto simp: arena_state_def split: if_splits)
  define a1 where "a1 = a\<lparr>retired := True\<rparr>"
  have a1: "arena_inv a1 H" "\<not> cleanup_claimed a1" "retired a1" "ptotal = P + asize a1" "\<not> finished a1"
    using a arena_wf_cong [of a1 a] by (simp_all add: arena_inv_def a1_def)
  have live: "live_bytes a = 0 \<longleftrightarrow> H = {}"
  proof -
    have "finite H" "\<And>p. p \<in> H \<Longrightarrow> 32 \<le> snd p" "live_bytes a = sum snd H"
      using a(2) arena_wf_block(2) by (auto simp: arena_inv_def arena_held_iff)
    then show ?thesis
      by fastforce
  qed
  have run: "tlsf_arena_retire True ptotal a =
      (if live_bytes a = 0 then arena_claim_cleanup ptotal a1 else Some (ptotal, a1))"
    by (simp add: tlsf_arena_retire_def a1_def)
  show thesis
  proof (cases "H = {}")
    case True
    then obtain a2 where "arena_claim_cleanup ptotal a1 = Some (P, a2)" "arena_state P P a2 {}" "finished a2"
      using arena_finish [of a1 ptotal P] a1 a(5) by metis
    then show thesis
      using that [of P a2] live run True by (simp add: arena_state_def)
  next
    case False
    then show thesis
      using that [of ptotal a1] live run a1 a(5) by (simp add: arena_state_def)
  qed
qed

lemma arena_alloc_state:
  assumes st: "arena_state P ptotal a H" and n: "n mod 8 = 0" "32 \<le> n" and "\<not> retired a"
  obtains a' b where "tlsf_arena_alloc a n = Some (a', b)" "retired a' = retired a"
    "arena_state P ptotal a' (if b = 0 then H else insert (b, tlsf_arena_span (amem a') b) H)"
    "b \<noteq> 0 \<Longrightarrow> b \<notin> fst ` H \<and> n \<le> tlsf_arena_span (amem a') b \<and> tlsf_arena_span (amem a') b < n + 64"
    "b = 0 \<Longrightarrow> asize a < sizeof_tlsf_block + sum snd H + Suc (card H) * n" "asize a' = asize a"
proof -
  have a: "\<not> finished a" "arena_inv a H" "\<not> cleanup_claimed a" "ptotal = P + asize a" "ptotal < 2 ^ 64"
    using assms(1,4) by (auto simp: arena_state_def split: if_splits)
  obtain a' b where A: "tlsf_arena_alloc a n = Some (a', b)"
    "b = 0 \<Longrightarrow> arena_inv a' H \<and> asize a < sizeof_tlsf_block + sum snd H + Suc (card H) * n"
    "b \<noteq> 0 \<Longrightarrow> b \<notin> fst ` H \<and> n \<le> tlsf_arena_span (amem a') b \<and> tlsf_arena_span (amem a') b < n + 64
       \<and> arena_inv a' (insert (b, tlsf_arena_span (amem a') b) H)"
    "asize a' = asize a" "retired a' = retired a" "cleanup_claimed a' = cleanup_claimed a"
    using arena_alloc_inv [OF a(2) n] by metis
  then have "arena_inv a' (if b = 0 then H else insert (b, tlsf_arena_span (amem a') b) H)"
    by simp
  moreover from this have "\<not> finished a'"
    by (simp add: arena_inv_def)
  ultimately show thesis
    using that [OF A(1,5)] A a assms(4) by (simp add: arena_state_def)
qed

lemma arena_init_state:
  assumes "0 < raw" "P + TLSF_ARENA_DEFAULT_SIZE < 2 ^ 64" "tlsf_arena_init m0 raw = Some a"
  shows "arena_state P (P + TLSF_ARENA_DEFAULT_SIZE) a {}" "\<not> retired a" "araw a = raw"
proof -
  let ?sz = "TLSF_ARENA_DEFAULT_SIZE - sizeof_tlsf_block"
  have D: "TLSF_ARENA_DEFAULT_SIZE = 262144" "?sz = 262112"
    by (simp_all add: TLSF_ARENA_DEFAULT_SIZE_def sizeof_tlsf_block_def)
  have w: "blk_size (262112 OR BLOCK_STATE_FREE) = 262112" "blk_free (262112 OR BLOCK_STATE_FREE)"
    "\<not> blk_prev_free (262112 OR BLOCK_STATE_FREE)"
    using blk_aligned [of 262112] by simp_all
  have a: "araw a = raw" "asize a = 262144" "free_list a = raw" "asentinel a = 262112 + raw" "live_bytes a = 0"
    "remote_free a = 0" "\<not> retired a" "\<not> cleanup_claimed a" "\<not> finished a"
    "tlsf_arena_span (amem a) = (tlsf_arena_span m0)(raw := 262112, 262112 + raw := 0)"
    "ld_free (amem a) = (ld_free m0)(raw := True, 262112 + raw := False)"
    "ld_prev_free (amem a) = (ld_prev_free m0)(raw := False, 262112 + raw := False)"
    "ld_word (amem a) (262112 + raw) = 0"
    "ld_pp (amem a) = (ld_pp m0)(raw := 0, 262112 + raw := raw)"
    "ld_nx (amem a) = (ld_nx m0)(raw := 0, 262112 + raw := 0)"
    "ld_pv (amem a) = (ld_pv m0)(raw := 0, 262112 + raw := 0)"
    using assms(1,3) w by (auto simp: tlsf_arena_init_def Let_def D arena_loads sizeof_tlsf_block_def)
  have "arena_wf a [raw]"
    using assms(1) by (simp add: arena_wf_def arena_frame_def a TLSF_MIN_BLOCK_SIZE_def sizeof_tlsf_block_def)
  moreover have "arena_held a [raw] = {}"
    by (auto simp: arena_held_def a)
  ultimately have "arena_inv a {}"
    using a by (intro arena_invI [where xs = "[raw]" and M = "[]"]) simp_all
  then show "arena_state P (P + TLSF_ARENA_DEFAULT_SIZE) a {}" "\<not> retired a" "araw a = raw"
    using a assms(2) D by (simp_all add: arena_state_def)
qed

section \<open>Histories\<close>

text \<open>A history: initialisation on memory from the operating system, then any interleaving of
  allocations by the owner, releases by whichever thread, and at some point retirement.  The client
  only frees blocks it holds.\<close>

inductive arena_run :: "nat \<Rightarrow> nat \<Rightarrow> tlsf_arena \<Rightarrow> (addr \<times> nat) set \<Rightarrow> bool" for P :: nat where
  init: "0 < raw \<Longrightarrow> P + TLSF_ARENA_DEFAULT_SIZE < 2 ^ 64 \<Longrightarrow> tlsf_arena_init m raw = Some a
    \<Longrightarrow> arena_run P (P + TLSF_ARENA_DEFAULT_SIZE) a {}"
| alloc: "arena_run P ptotal a H \<Longrightarrow> \<not> retired a \<Longrightarrow> n mod 8 = 0 \<Longrightarrow> 32 \<le> n
    \<Longrightarrow> tlsf_arena_alloc a n = Some (a', b)
    \<Longrightarrow> arena_run P ptotal a' (if b = 0 then H else insert (b, tlsf_arena_span (amem a') b) H)"
| free: "arena_run P ptotal a H \<Longrightarrow> (x, s) \<in> H \<Longrightarrow> tlsf_arena_free_block own ptotal a x = Some (ptotal', a')
    \<Longrightarrow> arena_run P ptotal' a' (H - {(x, s)})"
| retire: "arena_run P ptotal a H \<Longrightarrow> \<not> retired a \<Longrightarrow> tlsf_arena_retire True ptotal a = Some (ptotal', a')
    \<Longrightarrow> arena_run P ptotal' a' H"

lemma arena_run_state: "arena_run P ptotal a H \<Longrightarrow> arena_state P ptotal a H"
proof (induction rule: arena_run.induct)
  case (init raw m a)
  then show ?case
    using arena_init_state by blast
next
  case (alloc ptotal a H n a' b)
  show ?case
    by (rule arena_alloc_state [OF alloc.IH alloc.hyps(3,4,2)]) (use alloc.hyps(5) in simp)
next
  case (free ptotal a H x s own ptotal' a')
  show ?case
    by (rule arena_free_state [OF free.IH free.hyps(2), of own]) (use free.hyps(3) in simp)
next
  case (retire ptotal a H ptotal' a')
  show ?case
    by (rule arena_retire_state [OF retire.IH retire.hyps(2)]) (use retire.hyps(3) in simp)
qed


text \<open>C20 -- In every reachable state of an arena each operation returns: the scans along the free list and
  the mailbox end, for an allocation, for the release of a held block by any thread, and for
  retirement.\<close>

theorem arena_never_stuck:
  assumes "arena_run P ptotal a H"
  shows "(\<not> retired a \<longrightarrow> n mod 8 = 0 \<longrightarrow> 32 \<le> n \<longrightarrow> (\<exists>a' b. tlsf_arena_alloc a n = Some (a', b)))
    \<and> (\<forall>(x, s) \<in> H. \<exists>ptotal' a'. tlsf_arena_free_block own ptotal a x = Some (ptotal', a'))
    \<and> (\<not> retired a \<longrightarrow> (\<exists>ptotal' a'. tlsf_arena_retire True ptotal a = Some (ptotal', a')))"
proof -
  have st: "arena_state P ptotal a H"
    using arena_run_state [OF assms] .
  have "\<exists>a' b. tlsf_arena_alloc a n = Some (a', b)" if "\<not> retired a" "n mod 8 = 0" "32 \<le> n"
    by (rule arena_alloc_state [OF st that(2,3,1)]) blast
  moreover have "\<exists>ptotal' a'. tlsf_arena_free_block own ptotal a x = Some (ptotal', a')" if "(x, s) \<in> H" for x s
    by (rule arena_free_state [OF st that, of own]) blast
  moreover have "\<exists>ptotal' a'. tlsf_arena_retire True ptotal a = Some (ptotal', a')" if "\<not> retired a"
    by (rule arena_retire_state [OF st that]) blast
  ultimately show ?thesis
    by auto
qed

text \<open>C21 -- Two blocks that clients hold from an arena never overlap, and both lie inside its region.\<close>

theorem arena_no_overlap:
  assumes "arena_run P ptotal a H" "(x, s) \<in> H" "(y, t) \<in> H" "x < y"
  shows "x + s \<le> y \<and> araw a \<le> x \<and> y + t \<le> araw a + asize a - sizeof_tlsf_block"
proof -
  have "arena_inv a H"
    using arena_run_state [OF assms(1)] assms(2) by (auto simp: arena_state_def split: if_splits)
  then obtain xs where xs: "arena_wf a xs" "H \<subseteq> arena_held a xs"
    by (auto simp: arena_inv_def)
  then have xy: "x \<in> set xs" "y \<in> set xs" "s = tlsf_arena_span (amem a) x" "t = tlsf_arena_span (amem a) y"
    using assms(2,3) by (auto simp: arena_held_iff)
  moreover have "phys (tlsf_arena_span (amem a)) (ld_pp (amem a)) 0 (araw a) xs (asentinel a)"
    using xs(1) by (simp add: arena_wf_def)
  ultimately show ?thesis
    using phys_disjoint [of _ _ 0 "araw a" xs _ x y] arena_wf_block(3,4) [OF xs(1)] assms(4) by blast
qed

text \<open>C22 -- First fit with eager coalescing wastes little: when the arena answers null, what is left over is
  less than the request times one more than the number of blocks held.  In particular an arena
  nobody uses serves every request up to its capacity.  A block that is answered is fresh, at least
  as long as asked for and at most 63 bytes longer.\<close>

theorem arena_alloc_complete:
  assumes "arena_run P ptotal a H" "\<not> retired a" "n mod 8 = 0" "32 \<le> n" "tlsf_arena_alloc a n = Some (a', b)"
  shows "if b = 0 then asize a < sizeof_tlsf_block + sum snd H + Suc (card H) * n
    else b \<notin> fst ` H \<and> n \<le> tlsf_arena_span (amem a') b \<and> tlsf_arena_span (amem a') b < n + 64"
  by (rule arena_alloc_state [OF arena_run_state [OF assms(1)] assms(3,4,2)]) (use assms(5) in auto)

section \<open>A concrete arena\<close>

definition ex_arena :: tlsf_arena where
  "ex_arena = the (tlsf_arena_init (\<lambda>_. \<lparr>size_and_flags = 0, prev_physical = 0, next_free = 0, prev_free = 0\<rparr>) 65536)"

lemma ex_arena_run:
  "tlsf_arena_init (\<lambda>_. \<lparr>size_and_flags = 0, prev_physical = 0, next_free = 0, prev_free = 0\<rparr>) 65536 = Some ex_arena"
  "arena_run 1000 263144 ex_arena {}" "\<not> retired ex_arena" "arena_inv ex_arena {}" "asize ex_arena = 262144"
proof -
  show "asize ex_arena = 262144"
    by (simp add: ex_arena_def tlsf_arena_init_def Let_def TLSF_ARENA_DEFAULT_SIZE_def)
  show i: "tlsf_arena_init (\<lambda>_. \<lparr>size_and_flags = 0, prev_physical = 0, next_free = 0, prev_free = 0\<rparr>) 65536 = Some ex_arena"
    by (simp add: ex_arena_def) (simp add: tlsf_arena_init_def Let_def)
  show "arena_run 1000 263144 ex_arena {}"
    using arena_run.init [OF _ _ i, of 1000] by (simp add: TLSF_ARENA_DEFAULT_SIZE_def)
  show "\<not> retired ex_arena"
    using arena_init_state(2) [OF _ _ i, of 1000] by (simp add: TLSF_ARENA_DEFAULT_SIZE_def)
  show "arena_inv ex_arena {}"
    using arena_init_state(1) [OF _ _ i, of 1000]
    by (auto simp: TLSF_ARENA_DEFAULT_SIZE_def arena_state_def split: if_splits)
qed

lemma alloc_step:
  assumes "arena_run P ptotal a H" "\<not> retired a" "n mod 8 = 0" "32 \<le> n"
    and "sizeof_tlsf_block + sum snd H + Suc (card H) * n \<le> asize a"
  obtains a' b s where "tlsf_arena_alloc a n = Some (a', b)" "arena_run P ptotal a' (insert (b, s) H)"
    "b \<notin> fst ` H" "n \<le> s" "s < n + 64" "\<not> retired a'" "asize a' = asize a"
proof (rule arena_alloc_state [OF arena_run_state [OF assms(1)] assms(3,4,2)])
  fix a' b
  assume A: "tlsf_arena_alloc a n = Some (a', b)" "retired a' = retired a" "asize a' = asize a"
    "b \<noteq> 0 \<Longrightarrow> b \<notin> fst ` H \<and> n \<le> tlsf_arena_span (amem a') b \<and> tlsf_arena_span (amem a') b < n + 64"
    "b = 0 \<Longrightarrow> asize a < sizeof_tlsf_block + sum snd H + Suc (card H) * n"
  have "b \<noteq> 0"
    using A(5) assms(5) by auto
  then show thesis
    using that [OF A(1), of "tlsf_arena_span (amem a') b"] A arena_run.alloc [OF assms(1-4) A(1)] assms(2) by auto
qed

lemma ex_arena_two:
  obtains a x s y t where "arena_run 1000 263144 a {(x, s), (y, t)}" "x < y"
proof -
  note sz = ex_arena_run(5)
  obtain a b s where A: "arena_run 1000 263144 a {(b, s)}" "s < 160" "\<not> retired a" "asize a = 262144"
    by (rule alloc_step [OF ex_arena_run(2,3), of 96]) (use sz in \<open>auto simp: sizeof_tlsf_block_def\<close>)
  obtain a' b' s' where B: "arena_run 1000 263144 a' {(b', s'), (b, s)}" "b' \<noteq> b"
    by (rule alloc_step [OF A(1,3), of 64]) (use A(2,4) in \<open>auto simp: sizeof_tlsf_block_def\<close>)
  show thesis
    using that [of a' b' s' b s] that [of a' b s b' s'] B by (cases "b' < b") (auto simp: insert_commute)
qed


theorem arena_never_stuck_witness:
  "(\<exists>a' b. tlsf_arena_alloc ex_arena 96 = Some (a', b))
   \<and> (\<exists>ptotal' a'. tlsf_arena_retire True 263144 ex_arena = Some (ptotal', a'))"
  using arena_never_stuck [OF ex_arena_run(2), of 96] ex_arena_run(3) by simp

theorem arena_no_overlap_witness:
  "\<exists>a x s y t. arena_run 1000 263144 a {(x, s), (y, t)} \<and> x < y \<and> x + s \<le> y"
  by (rule ex_arena_two) (use arena_no_overlap in \<open>fastforce intro!: exI\<close>)

theorem arena_alloc_complete_witness:
  "\<exists>a' b. tlsf_arena_alloc ex_arena 96 = Some (a', b) \<and> b \<noteq> 0 \<and> 96 \<le> tlsf_arena_span (amem a') b"
proof -
  note sz = ex_arena_run(5)
  obtain a' b where A: "tlsf_arena_alloc ex_arena 96 = Some (a', b)"
    by (rule alloc_step [OF ex_arena_run(2,3), of 96]) (use sz in \<open>auto simp: sizeof_tlsf_block_def\<close>)
  then show ?thesis
    using arena_alloc_complete [OF ex_arena_run(2,3) _ _ A] sz by (auto simp: sizeof_tlsf_block_def split: if_splits)
qed

end
