(* ===== verification/Lz4_Codec.thy ===== *)
theory Lz4_Codec
  imports Cmem_Prelude
begin

text \<open>
  The LZ4 block codec of \<open>src/src/cmem_compress.c\<close>.

  Buffers are lists of bytes.  The compressor answers \<open>None\<close> where the code returns \<open>-1\<close>.  The
  decompressor runs on untrusted input, so every access it makes to a buffer is checked here and an
  access outside a buffer (or to output bytes not written yet) is the outcome \<open>LFault\<close>, apart from
  the error return \<open>LErr\<close>.  Shown: no input makes it fault; it inverts the compressor; the
  compressor succeeds on every input when the output buffer has the usual slack.

  The C lengths are \<open>int\<close>; sources are at most \<open>INT_MAX\<close> bytes long and all lengths the code forms
  for its own output stay below.  A decompressed length is a sum of at most \<open>src_size\<close> bytes.
\<close>

type_synonym byte = "8 word"

section \<open>Compressor\<close>

definition CMEM_LZ4_MAX_EXT :: nat where "CMEM_LZ4_MAX_EXT = 255"
definition CMEM_LZ4_MIN_MATCH :: nat where "CMEM_LZ4_MIN_MATCH = 4"
definition CMEM_LZ4_MAX_DIST :: nat where "CMEM_LZ4_MAX_DIST = 0xFFFF"
definition CMEM_LZ4_TOKEN_NIBBLE :: nat where "CMEM_LZ4_TOKEN_NIBBLE = 15"

lemmas lz4_consts = CMEM_LZ4_MAX_EXT_def CMEM_LZ4_MIN_MATCH_def CMEM_LZ4_MAX_DIST_def CMEM_LZ4_TOKEN_NIBBLE_def

text \<open>\<open>room\<close> is \<open>oend - op\<close>.\<close>

fun cmem_lz4_write_len :: "nat \<Rightarrow> nat \<Rightarrow> byte list option" where
  "cmem_lz4_write_len room len =
     (if 255 \<le> len
      then if room = 0 then None
           else map_option ((#) 255) (cmem_lz4_write_len (room - 1) (len - 255))
      else if room = 0 then None else Some [of_nat len])"

declare cmem_lz4_write_len.simps [simp del]

function lz4_match_len :: "byte list \<Rightarrow> nat \<Rightarrow> nat \<Rightarrow> nat \<Rightarrow> nat \<Rightarrow> nat" where
  "lz4_match_len src ip off probe_len len =
     (if len < probe_len \<and> src ! (ip - off + len) = src ! (ip + len)
      then lz4_match_len src ip off probe_len (len + 1) else len)"
  by pat_completeness auto
termination
  by (relation "measure (\<lambda>(src, ip, off, probe_len, len). probe_len - len)") auto

function lz4_best_match :: "byte list \<Rightarrow> nat \<Rightarrow> nat \<Rightarrow> nat \<Rightarrow> nat \<Rightarrow> nat \<Rightarrow> nat \<Rightarrow> nat \<times> nat" where
  "lz4_best_match src ip probe_len max_off off best_len best_off =
     (if off \<le> max_off
      then let len = lz4_match_len src ip off probe_len 0
           in if best_len < len
              then if len = probe_len then (len, off)
                   else lz4_best_match src ip probe_len max_off (off + 1) len off
              else lz4_best_match src ip probe_len max_off (off + 1) best_len best_off
      else (best_len, best_off))"
  by pat_completeness auto
termination
  by (relation "measure (\<lambda>(src, ip, probe_len, max_off, off, best_len, best_off). Suc max_off - off)") auto

declare lz4_match_len.simps [simp del] lz4_best_match.simps [simp del]

definition lz4_find :: "byte list \<Rightarrow> nat \<Rightarrow> nat \<times> nat" where
  "lz4_find src ip =
     (let probe_len = min (length src - ip) 4096
      in if 0 < ip then lz4_best_match src ip probe_len (min ip CMEM_LZ4_MAX_DIST) 1 0 0 else (0, 0))"

text \<open>Appending \<open>bs\<close> to the output after the bounds check of the code.\<close>

definition lz4_emit :: "nat \<Rightarrow> byte list \<Rightarrow> byte list \<Rightarrow> byte list option" where
  "lz4_emit cap out bs = (if cap < length out + length bs then None else Some (out @ bs))"

definition lz4_token :: "nat \<Rightarrow> nat \<Rightarrow> byte" where
  "lz4_token lit ml = push_bit 4 (of_nat (min lit CMEM_LZ4_TOKEN_NIBBLE)) OR of_nat (min ml CMEM_LZ4_TOKEN_NIBBLE)"

definition lz4_emit_ext :: "nat \<Rightarrow> byte list \<Rightarrow> nat \<Rightarrow> byte list option" where
  "lz4_emit_ext cap out len =
     (if CMEM_LZ4_TOKEN_NIBBLE \<le> len
      then map_option ((@) out) (cmem_lz4_write_len (cap - length out) (len - CMEM_LZ4_TOKEN_NIBBLE))
      else Some out)"

definition lz4_emit_match :: "nat \<Rightarrow> byte list \<Rightarrow> byte list \<Rightarrow> nat \<Rightarrow> nat \<Rightarrow> byte list option" where
  "lz4_emit_match cap out lits best_off mlen =
     Option.bind (lz4_emit cap out [lz4_token (length lits) (mlen - CMEM_LZ4_MIN_MATCH)]) (\<lambda>out.
     Option.bind (lz4_emit_ext cap out (length lits)) (\<lambda>out.
     Option.bind (lz4_emit cap out lits) (\<lambda>out.
     Option.bind (lz4_emit cap out [of_nat (best_off AND 0xFF), of_nat (drop_bit 8 (best_off mod 2 ^ 16))]) (\<lambda>out.
       lz4_emit_ext cap out (mlen - CMEM_LZ4_MIN_MATCH)))))"

definition lz4_emit_tail :: "nat \<Rightarrow> byte list \<Rightarrow> byte list \<Rightarrow> byte list option" where
  "lz4_emit_tail cap out lits =
     (if lits = [] then Some out
      else Option.bind (lz4_emit cap out [lz4_token (length lits) 0]) (\<lambda>out.
           Option.bind (lz4_emit_ext cap out (length lits)) (\<lambda>out. lz4_emit cap out lits)))"

text \<open>One recursive call of the loop; \<open>anchor\<close> is where the pending literals begin.\<close>

function lz4_compress_loop :: "byte list \<Rightarrow> nat \<Rightarrow> nat \<Rightarrow> nat \<Rightarrow> byte list \<Rightarrow> byte list option" where
  "lz4_compress_loop src cap ip anchor out =
     (if ip < length src
      then let (best_len, best_off) = lz4_find src ip
           in if best_len < CMEM_LZ4_MIN_MATCH then lz4_compress_loop src cap (ip + 1) anchor out
              else (case lz4_emit_match cap out (drop anchor (take ip src)) best_off best_len of
                      None \<Rightarrow> None
                    | Some out \<Rightarrow> lz4_compress_loop src cap (ip + best_len) (ip + best_len) out)
      else lz4_emit_tail cap out (drop anchor src))"
  by pat_completeness auto
termination
  by (relation "measure (\<lambda>(src, cap, ip, anchor, out). length src - ip)") (auto simp: CMEM_LZ4_MIN_MATCH_def)

declare lz4_compress_loop.simps [simp del]

definition cmem_lz4_compress :: "byte list \<Rightarrow> nat \<Rightarrow> byte list option" where
  "cmem_lz4_compress src dst_cap =
     (if src = [] \<or> dst_cap = 0 then None else lz4_compress_loop src dst_cap 0 0 [])"

section \<open>Decompressor\<close>

datatype 'a lres = LFault | LErr | LOk 'a

fun lbind :: "'a lres \<Rightarrow> ('a \<Rightarrow> 'b lres) \<Rightarrow> 'b lres" where
  "lbind LFault f = LFault"
| "lbind LErr f = LErr"
| "lbind (LOk x) f = f x"

lemma lbind_cong [fundef_cong]:
  "m = m' \<Longrightarrow> (\<And>x. m' = LOk x \<Longrightarrow> f x = g x) \<Longrightarrow> lbind m f = lbind m' g"
  by (cases m') auto

definition lz4_rd :: "byte list \<Rightarrow> nat \<Rightarrow> byte lres" where
  "lz4_rd src i = (if i < length src then LOk (src ! i) else LFault)"

function lz4_read_ext :: "byte list \<Rightarrow> nat \<Rightarrow> nat \<Rightarrow> (nat \<times> nat) lres" where
  "lz4_read_ext src ip len =
     (if length src \<le> ip then LErr
      else lbind (lz4_rd src ip) (\<lambda>ext.
        if unat ext \<noteq> CMEM_LZ4_MAX_EXT then LOk (len + unat ext, ip + 1)
        else lz4_read_ext src (ip + 1) (len + unat ext)))"
  by pat_completeness auto
termination
  by (relation "measure (\<lambda>(src, ip, len). length src - ip)") auto

declare lz4_read_ext.simps [simp del]

definition lz4_len :: "byte list \<Rightarrow> nat \<Rightarrow> nat \<Rightarrow> (nat \<times> nat) lres" where
  "lz4_len src ip nibble =
     (if nibble = CMEM_LZ4_TOKEN_NIBBLE then lz4_read_ext src ip nibble else LOk (nibble, ip))"

text \<open>\<open>memcpy\<close> from the input to the output, and the byte-wise copy of a match.\<close>

definition lz4_literals :: "byte list \<Rightarrow> nat \<Rightarrow> nat \<Rightarrow> nat \<Rightarrow> byte list \<Rightarrow> byte list lres" where
  "lz4_literals src dst_size ip n out =
     (if ip + n \<le> length src \<and> length out + n \<le> dst_size then LOk (out @ take n (drop ip src)) else LFault)"

fun lz4_copy :: "nat \<Rightarrow> nat \<Rightarrow> nat \<Rightarrow> byte list \<Rightarrow> byte list lres" where
  "lz4_copy dst_size off 0 out = LOk out"
| "lz4_copy dst_size off (Suc n) out =
     (if 0 < off \<and> off \<le> length out \<and> length out < dst_size
      then lz4_copy dst_size off n (out @ [out ! (length out - off)]) else LFault)"

definition lz4_read_literals :: "byte list \<Rightarrow> nat \<Rightarrow> nat \<Rightarrow> nat \<Rightarrow> byte list \<Rightarrow> (nat \<times> byte list) lres" where
  "lz4_read_literals src dst_size token ip out =
     lbind (lz4_len src ip (drop_bit 4 token AND 15)) (\<lambda>(lit_len, ip).
     if dst_size < length out + lit_len \<or> length src < ip + lit_len then LErr
     else lbind (lz4_literals src dst_size ip lit_len out) (\<lambda>out. LOk (ip + lit_len, out)))"

definition lz4_read_match :: "byte list \<Rightarrow> nat \<Rightarrow> nat \<Rightarrow> nat \<Rightarrow> byte list \<Rightarrow> (nat \<times> byte list) lres" where
  "lz4_read_match src dst_size token ip out =
     (if length src < ip + 2 then LErr
      else lbind (lz4_rd src ip) (\<lambda>b0. lbind (lz4_rd src (ip + 1)) (\<lambda>b1.
        let off = unat b0 OR push_bit 8 (unat b1)
        in if off = 0 \<or> length out < off then LErr
           else lbind (lz4_len src (ip + 2) (token AND 15)) (\<lambda>(match_len, ip).
             if dst_size < length out + (match_len + CMEM_LZ4_MIN_MATCH) then LErr
             else lbind (lz4_copy dst_size off (match_len + CMEM_LZ4_MIN_MATCH) out) (\<lambda>out. LOk (ip, out))))))"

lemma lz4_read_ext_advances: "lz4_read_ext src ip len = LOk (n, ip') \<Longrightarrow> ip < ip' \<and> ip' \<le> length src"
proof (induction src ip len rule: lz4_read_ext.induct)
  case (1 src ip len)
  show ?case
  proof (cases "length src \<le> ip")
    case False
    then show ?thesis
      using 1 lz4_read_ext.simps [of src ip len]
      by (auto simp: lz4_rd_def CMEM_LZ4_MAX_EXT_def split: if_splits)
  qed (use 1 lz4_read_ext.simps [of src ip len] in simp)
qed

lemma lz4_len_advances: "lz4_len src ip nib = LOk (n, ip') \<Longrightarrow> ip \<le> ip'"
  using lz4_read_ext_advances by (force simp: lz4_len_def split: if_splits)

lemma lbind_eq_LOk: "lbind m f = LOk y \<longleftrightarrow> (\<exists>x. m = LOk x \<and> f x = LOk y)"
  by (cases m) auto

lemma lz4_read_advances:
  "lz4_read_literals src n t ip out = LOk (ip', out') \<Longrightarrow> ip \<le> ip'"
  "lz4_read_match src n t ip out = LOk (ip', out') \<Longrightarrow> ip \<le> ip'"
  by (auto simp: lz4_read_literals_def lz4_read_match_def lbind_eq_LOk Let_def dest!: lz4_len_advances split: if_splits)

function lz4_decompress_loop :: "byte list \<Rightarrow> nat \<Rightarrow> nat \<Rightarrow> byte list \<Rightarrow> byte list lres" where
  "lz4_decompress_loop src dst_size ip out =
     (if ip < length src
      then lbind (lz4_rd src ip) (\<lambda>token.
           lbind (lz4_read_literals src dst_size (unat token) (ip + 1) out) (\<lambda>(ip', out).
             if length src \<le> ip' then LOk out
             else lbind (lz4_read_match src dst_size (unat token) ip' out) (\<lambda>(ip'', out).
               lz4_decompress_loop src dst_size ip'' out)))
      else LOk out)"
  by pat_completeness auto
termination
  by (relation "measure (\<lambda>(src, dst_size, ip, out). length src - ip)") (auto dest!: lz4_read_advances)

declare lz4_decompress_loop.simps [simp del]

definition cmem_lz4_decompress :: "byte list \<Rightarrow> nat \<Rightarrow> byte list lres" where
  "cmem_lz4_decompress src dst_size = lz4_decompress_loop src dst_size 0 []"

section \<open>What the compressor writes\<close>

text \<open>Packing two fields of a byte or of an offset.\<close>

lemma push_or_add:
  fixes a b :: nat
  assumes "b < 2 ^ k"
  shows "push_bit k a OR b = 2 ^ k * a + b"
proof -
  have "\<not> bit b i" if "k \<le> i" for i
    using assms that by (metis bit_take_bit_iff not_less take_bit_nat_eq_self)
  then have "push_bit k a + b = push_bit k a OR b"
    by (intro disjunctive_add) (auto simp: bit_push_bit_iff not_le)
  then show ?thesis
    by (simp add: push_bit_eq_mult mult.commute)
qed

lemma and_15_mod: "(n::nat) AND 15 = n mod 16"
  using take_bit_eq_mask [of 4 n] take_bit_eq_mod [of 4 n] by (simp add: mask_eq_exp_minus_1)

lemma and_255_mod: "(n::nat) AND 255 = n mod 256"
  using take_bit_eq_mask [of 8 n] take_bit_eq_mod [of 8 n] by (simp add: mask_eq_exp_minus_1)

lemma unat_token: "unat (lz4_token lit ml) = 16 * min lit 15 + min ml 15"
proof -
  let ?a = "min lit 15" and ?b = "min ml 15"
  have s: "16 * ?a < 256" "?a < 256" "?b < 256" "?b < 2 ^ 4"
    by auto
  have "take_bit 8 (push_bit 4 ?a) = push_bit 4 ?a" "take_bit 8 ?a = ?a" "take_bit 8 ?b = ?b"
    using s by (simp_all add: take_bit_nat_eq_self push_bit_eq_mult)
  then have "unat (lz4_token lit ml) = push_bit 4 ?a OR ?b"
    by (simp only: lz4_token_def lz4_consts unsigned_or_eq unsigned_push_bit_eq unsigned_of_nat) simp
  then show ?thesis
    using push_or_add [OF s(4), of ?a] by simp
qed

lemma token_fields:
  "drop_bit 4 (unat (lz4_token lit ml)) AND 15 = min lit 15" "unat (lz4_token lit ml) AND 15 = min ml 15"
proof -
  have "min lit 15 < 16" "min ml 15 < (16::nat)"
    by auto
  then show "drop_bit 4 (unat (lz4_token lit ml)) AND 15 = min lit 15" "unat (lz4_token lit ml) AND 15 = min ml 15"
    by (simp_all add: unat_token drop_bit_eq_div and_15_mod)
qed

definition off_bytes :: "nat \<Rightarrow> byte list" where
  "off_bytes off = [of_nat (off AND 0xFF), of_nat (drop_bit 8 (off mod 2 ^ 16))]"

lemma off_bytes_decode:
  assumes "off < 2 ^ 16"
  shows "unat (off_bytes off ! 0) OR push_bit 8 (unat (off_bytes off ! 1)) = off"
proof -
  have "off div 256 < 256"
    using assms by (simp add: less_mult_imp_div_less)
  then have "unat (off_bytes off ! 0) = off mod 256" "unat (off_bytes off ! 1) = off div 256"
    using assms by (simp_all add: off_bytes_def and_255_mod drop_bit_eq_div unsigned_of_nat take_bit_eq_mod)
  then show ?thesis
    using push_or_add [of "off mod 256" 8 "off div 256"] by (simp add: or.commute)
qed

definition enc_ext :: "nat \<Rightarrow> byte list" where
  "enc_ext len = (if 15 \<le> len then replicate ((len - 15) div 255) 255 @ [of_nat ((len - 15) mod 255)] else [])"

definition enc_match :: "byte list \<Rightarrow> nat \<Rightarrow> nat \<Rightarrow> byte list" where
  "enc_match lits off mlen =
     lz4_token (length lits) (mlen - 4) # enc_ext (length lits) @ lits @ off_bytes off @ enc_ext (mlen - 4)"

definition enc_tail :: "byte list \<Rightarrow> byte list" where
  "enc_tail lits = (if lits = [] then [] else lz4_token (length lits) 0 # enc_ext (length lits) @ lits)"

lemma write_len_eq:
  "cmem_lz4_write_len room len =
     (if len div 255 < room then Some (replicate (len div 255) 255 @ [of_nat (len mod 255)]) else None)"
proof (induction room len rule: cmem_lz4_write_len.induct)
  case (1 room len)
  show ?case
  proof (cases "255 \<le> len")
    case True
    then have d: "len div 255 = Suc ((len - 255) div 255)" "len mod 255 = (len - 255) mod 255"
      by (simp_all add: le_div_geq le_mod_geq)
    show ?thesis
    proof (cases "room = 0")
      case True
      then show ?thesis
        using \<open>255 \<le> len\<close> by (subst cmem_lz4_write_len.simps) simp
    next
      case False
      then have "(len - 255) div 255 < room - 1 \<longleftrightarrow> len div 255 < room"
        unfolding d by linarith
      then show ?thesis
        using 1 [OF True False] True False d by (subst cmem_lz4_write_len.simps) simp
    qed
  qed (subst cmem_lz4_write_len.simps, simp)
qed

lemma emit_ext_eq:
  "length out \<le> cap \<Longrightarrow> lz4_emit_ext cap out len =
     (if cap < length out + length (enc_ext len) then None else Some (out @ enc_ext len))"
  by (auto simp: lz4_emit_ext_def enc_ext_def write_len_eq lz4_consts)

lemma emit_match_eq:
  "length out \<le> cap \<Longrightarrow> lz4_emit_match cap out lits off mlen =
     (if cap < length out + length (enc_match lits off mlen) then None else Some (out @ enc_match lits off mlen))"
  by (auto simp: lz4_emit_match_def lz4_emit_def emit_ext_eq enc_match_def off_bytes_def lz4_consts
    split: if_splits bind_split)

lemma emit_tail_eq:
  "length out \<le> cap \<Longrightarrow> lz4_emit_tail cap out lits =
     (if cap < length out + length (enc_tail lits) then None else Some (out @ enc_tail lits))"
  by (auto simp: lz4_emit_tail_def lz4_emit_def emit_ext_eq enc_tail_def split: if_splits bind_split)

section \<open>What the decompressor reads\<close>

lemma drop_Cons_nth: "drop i xs = y # ys \<Longrightarrow> i < length xs \<and> xs ! i = y \<and> drop (Suc i) xs = ys"
  by (metis drop_all drop_Suc nth_via_drop not_less list.discI list.sel(3) tl_drop)

lemma read_ext_run:
  "drop ip src = replicate k 255 @ b # rest \<Longrightarrow> unat b \<noteq> 255
    \<Longrightarrow> lz4_read_ext src ip acc = LOk (acc + 255 * k + unat b, ip + k + 1)"
proof (induction k arbitrary: ip acc)
  case 0
  then show ?case
    using drop_Cons_nth [of ip src b rest] 0 by (subst lz4_read_ext.simps) (simp add: lz4_rd_def lz4_consts)
next
  case (Suc k)
  then have d: "ip < length src" "src ! ip = 255" "drop (Suc ip) src = replicate k 255 @ b # rest"
    using drop_Cons_nth [of ip src 255 "replicate k 255 @ b # rest"] by simp_all
  then have "lz4_read_ext src ip acc = lz4_read_ext src (Suc ip) (acc + 255)"
    by (subst lz4_read_ext.simps) (simp add: lz4_rd_def lz4_consts)
  then show ?case
    using Suc.IH [OF d(3) Suc.prems(2)] by simp
qed

lemma len_run:
  assumes "drop ip src = enc_ext len @ rest"
  shows "lz4_len src ip (min len 15) = LOk (len, ip + length (enc_ext len))"
proof (cases "15 \<le> len")
  case True
  let ?b = "of_nat ((len - 15) mod 255) :: byte"
  have lt: "(len - 15) mod 255 < 255"
    by simp
  then have u: "unat ?b = (len - 15) mod 255"
    by (simp add: unsigned_of_nat take_bit_eq_mod)
  then have "unat ?b \<noteq> 255"
    using lt by simp
  then show ?thesis
    using read_ext_run [of ip src "(len - 15) div 255" ?b rest 15] assms True u
    by (simp add: lz4_len_def enc_ext_def lz4_consts)
qed (simp add: lz4_len_def enc_ext_def lz4_consts)

lemma drop_app_len: "drop i xs = us @ vs \<Longrightarrow> drop (i + length us) xs = vs"
  by (metis add.commute append_eq_conv_conj drop_drop)

lemma drop_app_bound:
  assumes "drop i xs = us @ vs" "i \<le> length xs"
  shows "i + length us \<le> length xs"
  using arg_cong [OF assms(1), of length] assms(2) by simp

lemma read_literals_run:
  assumes "drop ip src = enc_ext (length lits) @ lits @ rest" "length out + length lits \<le> n" "ip \<le> length src"
  shows "lz4_read_literals src n (unat (lz4_token (length lits) ml)) ip out =
    LOk (ip + length (enc_ext (length lits)) + length lits, out @ lits)"
proof -
  have "ip + length (enc_ext (length lits)) + length lits \<le> length src"
    using drop_app_bound [of ip src "enc_ext (length lits) @ lits" rest] assms(1,3) by simp
  then show ?thesis
    using len_run [OF assms(1)] drop_app_len [OF assms(1)] assms(2)
    by (simp add: lz4_read_literals_def token_fields lz4_literals_def)
qed

text \<open>Copying a match: the bytes \<open>src\<close> repeats at distance \<open>off\<close>.\<close>

lemma copy_run:
  assumes "0 < off" "off \<le> ip" "\<And>i. i < k \<Longrightarrow> src ! (ip - off + i) = src ! (ip + i)" "ip + k \<le> length src"
    "ip + k \<le> n"
  shows "lz4_copy n off k (take ip src) = LOk (take (ip + k) src)"
  using assms
proof (induction k arbitrary: ip)
  case (Suc k)
  have "take ip src ! (ip - off) = src ! ip"
    using Suc.prems(1-4) Suc.prems(3) [of 0] by simp
  then have "lz4_copy n off (Suc k) (take ip src) = lz4_copy n off k (take (Suc ip) src)"
    using Suc.prems by (simp add: take_Suc_conv_app_nth min_absorb2)
  also have "\<dots> = LOk (take (Suc ip + k) src)"
  proof (rule Suc.IH)
    show "src ! (Suc ip - off + i) = src ! (Suc ip + i)" if "i < k" for i
      using Suc.prems(2) Suc.prems(3) [of "Suc i"] that by (simp add: Suc_diff_le)
  qed (use Suc.prems in simp_all)
  finally show ?case
    by simp
qed simp

lemma read_match_run:
  assumes "drop ip src = off_bytes off @ enc_ext (mlen - 4) @ rest" "0 < off" "off < 2 ^ 16" "off \<le> length out"
    "length out + mlen \<le> n" "4 \<le> mlen" "lz4_copy n off mlen out = LOk out'"
  shows "lz4_read_match src n (unat (lz4_token ll (mlen - 4))) ip out =
    LOk (ip + 2 + length (enc_ext (mlen - 4)), out')"
proof -
  have o: "off_bytes off = [off_bytes off ! 0, off_bytes off ! 1]"
    by (simp add: off_bytes_def)
  have d: "drop ip src = off_bytes off ! 0 # off_bytes off ! 1 # enc_ext (mlen - 4) @ rest"
    using assms(1) by (subst (asm) o) simp
  have r: "ip < length src" "src ! ip = off_bytes off ! 0" "Suc ip < length src" "src ! Suc ip = off_bytes off ! 1"
    "drop (ip + 2) src = enc_ext (mlen - 4) @ rest"
    using drop_Cons_nth [OF d] drop_Cons_nth [of "Suc ip" src "off_bytes off ! 1"] by simp_all
  then show ?thesis
    using assms(2-7) len_run [OF r(5)] off_bytes_decode [OF assms(3)]
    by (simp add: lz4_read_match_def lz4_rd_def token_fields Let_def lz4_consts)
qed

section \<open>Round trip\<close>

lemma match_len_spec:
  "(\<forall>i < len. src ! (ip - off + i) = src ! (ip + i)) \<Longrightarrow> len \<le> probe
    \<Longrightarrow> lz4_match_len src ip off probe len \<le> probe
      \<and> (\<forall>i < lz4_match_len src ip off probe len. src ! (ip - off + i) = src ! (ip + i))"
proof (induction src ip off probe len rule: lz4_match_len.induct)
  case (1 src ip off probe len)
  show ?case
  proof (cases "len < probe \<and> src ! (ip - off + len) = src ! (ip + len)")
    case True
    then show ?thesis
      using 1 lz4_match_len.simps [of src ip off probe len] by (simp add: less_Suc_eq)
  next
    case False
    then have "lz4_match_len src ip off probe len = len"
      using lz4_match_len.simps [of src ip off probe len] by (auto split: if_splits)
    then show ?thesis
      using 1 by simp
  qed
qed

definition is_match :: "byte list \<Rightarrow> nat \<Rightarrow> nat \<Rightarrow> nat \<Rightarrow> nat \<Rightarrow> nat \<Rightarrow> bool" where
  "is_match src ip probe max_off len off \<longleftrightarrow> len = 0 \<or>
     0 < off \<and> off \<le> max_off \<and> len \<le> probe \<and> (\<forall>i < len. src ! (ip - off + i) = src ! (ip + i))"

lemma best_match_spec:
  "is_match src ip probe max_off bl bo \<Longrightarrow> 0 < off
    \<Longrightarrow> lz4_best_match src ip probe max_off off bl bo = (len, o') \<Longrightarrow> is_match src ip probe max_off len o'"
proof (induction src ip probe max_off off bl bo rule: lz4_best_match.induct)
  case (1 src ip probe max_off off bl bo)
  let ?l = "lz4_match_len src ip off probe 0"
  have m: "is_match src ip probe max_off ?l off" if "off \<le> max_off"
    using match_len_spec [of 0 src ip off probe] that 1(4) by (simp add: is_match_def)
  show ?case
    using 1 m lz4_best_match.simps [of src ip probe max_off off bl bo]
    by (simp add: Let_def split: if_splits)
qed

lemma lz4_find_spec:
  assumes "lz4_find src ip = (len, off)" "4 \<le> len"
  shows "0 < off" "off \<le> ip" "off < 2 ^ 16" "ip + len \<le> length src"
    "i < len \<Longrightarrow> src ! (ip - off + i) = src ! (ip + i)"
proof -
  let ?p = "min (length src - ip) 4096" and ?m = "min ip CMEM_LZ4_MAX_DIST"
  have "0 < ip" "lz4_best_match src ip ?p ?m 1 0 0 = (len, off)"
    using assms by (auto simp: lz4_find_def Let_def split: if_splits)
  then have "is_match src ip ?p ?m len off"
    using best_match_spec [of src ip ?p ?m 0 0 1] by (simp add: is_match_def)
  with assms(2) show "0 < off" "off \<le> ip" "off < 2 ^ 16" "ip + len \<le> length src"
    "i < len \<Longrightarrow> src ! (ip - off + i) = src ! (ip + i)"
    by (auto simp: is_match_def CMEM_LZ4_MAX_DIST_def)
qed

text \<open>Decompressing one sequence of the encoding.\<close>

lemma decompress_match:
  assumes "enc_match lits off mlen = e" "0 < off" "off < 2 ^ 16" "off \<le> length out + length lits"
    "length out + length lits + mlen \<le> n" "4 \<le> mlen" "lz4_copy n off mlen (out @ lits) = LOk out'"
  shows "lz4_decompress_loop (pre @ e @ rest) n (length pre) out =
    lz4_decompress_loop (pre @ e @ rest) n (length (pre @ e)) out'"
proof -
  let ?src = "pre @ e @ rest" and ?t = "lz4_token (length lits) (mlen - 4)" and ?E = "enc_ext (length lits)"
  let ?j = "length pre + 1 + length ?E + length lits"
  have e: "e = ?t # ?E @ lits @ off_bytes off @ enc_ext (mlen - 4)"
    using assms(1) by (simp add: enc_match_def)
  have "drop (length pre + 1) ?src = ?E @ lits @ (off_bytes off @ enc_ext (mlen - 4) @ rest)"
    by (simp add: e)
  note L = read_literals_run [OF this, of out n "mlen - 4"]
  have d: "drop ?j ?src = off_bytes off @ enc_ext (mlen - 4) @ rest"
    by (simp add: e)
  have M: "lz4_read_match ?src n (unat ?t) ?j (out @ lits) = LOk (?j + 2 + length (enc_ext (mlen - 4)), out')"
    using assms(2-7) by (intro read_match_run [OF d]) simp_all
  have o: "length (off_bytes off) = 2"
    by (simp add: off_bytes_def)
  then have "\<not> length ?src \<le> ?j" "?j + 2 + length (enc_ext (mlen - 4)) = length (pre @ e)"
    by (simp_all add: e)
  then show ?thesis
    using L M assms(5) by (subst lz4_decompress_loop.simps) (simp add: lz4_rd_def e nth_append add.assoc)
qed

lemma decompress_tail:
  assumes "enc_tail lits = e" "length out + length lits \<le> n"
  shows "lz4_decompress_loop (pre @ e) n (length pre) out = LOk (out @ lits)"
proof (cases "lits = []")
  case True
  then show ?thesis
    using assms(1) by (subst lz4_decompress_loop.simps) (simp add: enc_tail_def)
next
  case False
  let ?E = "enc_ext (length lits)"
  have e: "e = lz4_token (length lits) 0 # ?E @ lits"
    using assms(1) False by (simp add: enc_tail_def)
  have "drop (length pre + 1) (pre @ e) = ?E @ lits @ []"
    by (simp add: e)
  note L = read_literals_run [OF this, of out n 0]
  then show ?thesis
    using assms(2) by (subst lz4_decompress_loop.simps) (simp add: lz4_rd_def e nth_append)
qed

lemma compress_loop_roundtrip:
  assumes "lz4_compress_loop src cap ip anchor out = Some z" "length out \<le> cap" "anchor \<le> ip" "ip \<le> length src"
    "length src \<le> n"
    "\<And>rest. lz4_decompress_loop (out @ rest) n 0 [] = lz4_decompress_loop (out @ rest) n (length out) (take anchor src)"
  shows "lz4_decompress_loop z n 0 [] = LOk src \<and> length z \<le> cap"
  using assms
proof (induction src cap ip anchor out rule: lz4_compress_loop.induct)
  case (1 src cap ip anchor out)
  obtain bl bo where f: "lz4_find src ip = (bl, bo)"
    by fastforce
  consider "\<not> ip < length src" | "ip < length src" "bl < 4" | "ip < length src" "4 \<le> bl"
    by linarith
  then show ?case
  proof cases
    case 1
    then have z: "z = out @ enc_tail (drop anchor src)" "length z \<le> cap"
      using "1.prems"(1,2) emit_tail_eq [of out cap "drop anchor src"]
      by (auto simp: lz4_compress_loop.simps [of src cap ip] split: if_splits)
    then show ?thesis
      using "1.prems"(3-5) "1.prems"(6) [of "enc_tail (drop anchor src)"]
        decompress_tail [OF refl, of "take anchor src" "drop anchor src" n out] by simp
  next
    case 2
    then show ?thesis
      using "1.IH"(1) [OF 2(1) f [symmetric] refl] "1.prems" f
      by (simp add: lz4_compress_loop.simps [of src cap ip] CMEM_LZ4_MIN_MATCH_def)
  next
    case 3
    let ?lits = "drop anchor (take ip src)" and ?e = "enc_match (drop anchor (take ip src)) bo bl"
    note F = lz4_find_spec [OF f 3(2)]
    have em: "lz4_emit_match cap out ?lits bo bl = Some (out @ ?e)" "length (out @ ?e) \<le> cap"
      and lp: "lz4_compress_loop src cap (ip + bl) (ip + bl) (out @ ?e) = Some z"
      using "1.prems"(1,2) 3 f emit_match_eq [of out cap ?lits bo bl]
      by (auto simp: lz4_compress_loop.simps [of src cap ip] CMEM_LZ4_MIN_MATCH_def split: if_splits)
    have tk: "take anchor src @ ?lits = take ip src"
      using "1.prems"(3) by (metis append_take_drop_id min.absorb1 take_take)
    have "lz4_decompress_loop (out @ ?e @ rest) n (length out) (take anchor src) =
      lz4_decompress_loop (out @ ?e @ rest) n (length (out @ ?e)) (take (ip + bl) src)" for rest
      using copy_run [OF F(1,2) F(5) F(4), of n] F(1-4) 3(2) "1.prems"(3,4,5)
      by (intro decompress_match [OF refl]) (simp_all add: tk)
    then show ?thesis
      using "1.IH"(2) [OF 3(1) f [symmetric] refl _ em(1) lp em(2)] 3(2) F(4) "1.prems"(5) "1.prems"(6)
      by (simp add: CMEM_LZ4_MIN_MATCH_def)
  qed
qed

section \<open>Size of the output\<close>

lemma enc_ext_length: "length (enc_ext len) = (if 15 \<le> len then (len - 15) div 255 + 1 else 0)"
  by (simp add: enc_ext_def)

lemma enc_match_length:
  assumes "4 \<le> mlen"
  shows "length (enc_match lits off mlen) \<le> length lits + mlen + length lits div 255"
proof -
  have "length (enc_ext (length lits)) \<le> 1 + length lits div 255"
    by (simp add: enc_ext_length div_le_mono)
  moreover have "length (enc_ext (mlen - 4)) \<le> mlen - 4"
    by (auto simp: enc_ext_length)
  ultimately show ?thesis
    using assms by (simp add: enc_match_def off_bytes_def)
qed

lemma enc_tail_length: "length (enc_tail lits) \<le> length lits + length lits div 255 + 2"
proof -
  have "length (enc_ext (length lits)) \<le> 1 + length lits div 255"
    by (simp add: enc_ext_length div_le_mono)
  then show ?thesis
    by (simp add: enc_tail_def)
qed

lemma div_add_le: "(a::nat) div c + b div c \<le> (a + b) div c"
  by (subst div_add1_eq) simp

lemma compress_loop_succeeds:
  assumes "length out + (length src - anchor) + (length src - anchor) div 255 + 2 \<le> cap" "anchor \<le> ip"
    "ip \<le> length src"
  shows "lz4_compress_loop src cap ip anchor out \<noteq> None"
  using assms
proof (induction src cap ip anchor out rule: lz4_compress_loop.induct)
  case (1 src cap ip anchor out)
  obtain bl bo where f: "lz4_find src ip = (bl, bo)"
    by fastforce
  consider "\<not> ip < length src" | "ip < length src" "bl < 4" | "ip < length src" "4 \<le> bl"
    by linarith
  then show ?case
  proof cases
    case 1
    then show ?thesis
      using "1.prems"(1) emit_tail_eq [of out cap "drop anchor src"] enc_tail_length [of "drop anchor src"]
      by (simp add: lz4_compress_loop.simps [of src cap ip])
  next
    case 2
    then show ?thesis
      using "1.IH"(1) [OF 2(1) f [symmetric] refl] "1.prems" f
      by (simp add: lz4_compress_loop.simps [of src cap ip] CMEM_LZ4_MIN_MATCH_def)
  next
    case 3
    let ?lits = "drop anchor (take ip src)" and ?e = "enc_match (drop anchor (take ip src)) bo bl"
    note F = lz4_find_spec [OF f 3(2)]
    have ll: "length ?lits = ip - anchor"
      using "1.prems"(3) by simp
    define R where "R = length src - (ip + bl)"
    have R: "length src - anchor = (ip - anchor + bl) + R"
      using F(4) "1.prems"(2) by (simp add: R_def)
    have "length ?e \<le> (ip - anchor) + bl + (ip - anchor) div 255"
      using enc_match_length [OF 3(2), of ?lits bo] ll by simp
    moreover have "(ip - anchor) div 255 + R div 255 \<le> (length src - anchor) div 255"
      using div_add_le [of "ip - anchor" 255 R] div_le_mono [of "ip - anchor + R" "length src - anchor" 255]
      unfolding R by linarith
    ultimately have len: "length (out @ ?e) + R + R div 255 + 2 \<le> cap"
      using "1.prems"(1) unfolding R by simp
    then have em: "lz4_emit_match cap out ?lits bo bl = Some (out @ ?e)"
      using emit_match_eq [of out cap ?lits bo bl] by simp
    have "lz4_compress_loop src cap (ip + bl) (ip + bl) (out @ ?e) \<noteq> None"
      using "1.IH"(2) [OF 3(1) f [symmetric] refl _ em] len F(4) 3(2) by (simp add: R_def CMEM_LZ4_MIN_MATCH_def)
    then show ?thesis
      using 3 em f by (simp add: lz4_compress_loop.simps [of src cap ip] CMEM_LZ4_MIN_MATCH_def)
  qed
qed

section \<open>No access outside a buffer\<close>

lemma lbind_eq_LFault: "lbind m f = LFault \<longleftrightarrow> m = LFault \<or> (\<exists>x. m = LOk x \<and> f x = LFault)"
  by (cases m) auto

lemma read_ext_no_fault: "lz4_read_ext src ip len \<noteq> LFault"
proof (induction src ip len rule: lz4_read_ext.induct)
  case (1 src ip len)
  then show ?case
    by (subst lz4_read_ext.simps) (auto simp: lz4_rd_def lbind_eq_LFault)
qed

lemma len_no_fault: "lz4_len src ip nib \<noteq> LFault"
  using read_ext_no_fault by (simp add: lz4_len_def)

lemma copy_length:
  "0 < off \<Longrightarrow> off \<le> length out \<Longrightarrow> length out + k \<le> n
    \<Longrightarrow> \<exists>out'. lz4_copy n off k out = LOk out' \<and> length out' = length out + k"
proof (induction k arbitrary: out)
  case (Suc k)
  then show ?case
    using Suc.IH [of "out @ [out ! (length out - off)]"] by simp
qed simp

lemma read_literals_no_fault:
  assumes "length out \<le> n"
  shows "lz4_read_literals src n t ip out \<noteq> LFault"
    and "lz4_read_literals src n t ip out = LOk (ip', out') \<Longrightarrow> length out' \<le> n"
  using len_no_fault
  by (auto simp: lz4_read_literals_def lz4_literals_def lbind_eq_LOk lbind_eq_LFault split: if_splits)

lemma read_match_no_fault:
  assumes "length out \<le> n"
  shows "lz4_read_match src n t ip out \<noteq> LFault"
    and "lz4_read_match src n t ip out = LOk (ip', out') \<Longrightarrow> length out' \<le> n"
proof -
  have cp: "lz4_copy n off k out \<noteq> LFault \<and> (lz4_copy n off k out = LOk z \<longrightarrow> length z \<le> n)"
    if "off \<noteq> 0" "\<not> length out < off" "\<not> n < length out + k" for off k z
    using copy_length [of off out k n] that by auto
  show "lz4_read_match src n t ip out \<noteq> LFault"
    using len_no_fault cp by (auto simp: lz4_read_match_def lz4_rd_def Let_def lbind_eq_LFault split: if_splits)
  show "lz4_read_match src n t ip out = LOk (ip', out') \<Longrightarrow> length out' \<le> n"
    using cp by (auto simp: lz4_read_match_def lbind_eq_LOk Let_def split: if_splits)
qed

lemma decompress_loop_safe:
  "length out \<le> n \<Longrightarrow> lz4_decompress_loop src n ip out \<noteq> LFault
    \<and> (\<forall>z. lz4_decompress_loop src n ip out = LOk z \<longrightarrow> length z \<le> n)"
proof (induction src n ip out rule: lz4_decompress_loop.induct)
  case (1 src n ip out)
  note L = read_literals_no_fault [OF "1.prems"]
  show ?case
  proof (cases "ip < length src")
    case True
    let ?t = "src ! ip"
    have rd: "lz4_rd src ip = LOk ?t"
      using True by (simp add: lz4_rd_def)
    have rec: "lz4_decompress_loop src n i'' o'' \<noteq> LFault \<and> (\<forall>z. lz4_decompress_loop src n i'' o'' = LOk z \<longrightarrow> length z \<le> n)"
      if "lz4_read_literals src n (unat ?t) (ip + 1) out = LOk (i', o')" "\<not> length src \<le> i'"
        "lz4_read_match src n (unat ?t) i' o' = LOk (i'', o'')" for i' o' i'' o''
      using "1.IH" [OF True rd that(1) refl that(2,3) refl] read_match_no_fault(2) [OF L(2) [OF that(1)] that(3)] .
    have ok: "lz4_decompress_loop src n ip out = lbind (lz4_read_literals src n (unat ?t) (ip + 1) out) (\<lambda>(ip', out).
             if length src \<le> ip' then LOk out
             else lbind (lz4_read_match src n (unat ?t) ip' out) (\<lambda>(ip'', out).
               lz4_decompress_loop src n ip'' out))"
      using True rd by (subst lz4_decompress_loop.simps) simp
    show ?thesis
    proof (cases "lz4_read_literals src n (unat ?t) (ip + 1) out")
      case (LOk r)
      obtain i' o' where r: "lz4_read_literals src n (unat ?t) (ip + 1) out = LOk (i', o')"
        using LOk by (cases r) auto
      show ?thesis
      proof (cases "length src \<le> i'")
        case False
        show ?thesis
          using rec [OF r False] r False read_match_no_fault(1) [OF L(2) [OF r], of src "unat ?t" i']
          by (cases "lz4_read_match src n (unat ?t) i' o'") (auto simp: ok)
      qed (use ok r L(2) [OF r] in simp)
    qed (use ok L(1) in auto)
  qed (use "1.prems" lz4_decompress_loop.simps [of src n ip out] in simp)
qed

section \<open>Properties\<close>

text \<open>C23 -- Decompression inverts compression: whatever the compressor writes, the decompressor turns back
  into the source, in any output buffer at least as large as the source, and the compressor's
  output fits the buffer it was given.\<close>

theorem lz4_roundtrip:
  assumes "cmem_lz4_compress src dst_cap = Some z" "length src \<le> n"
  shows "cmem_lz4_decompress z n = LOk src \<and> length z \<le> dst_cap"
  using compress_loop_roundtrip [of src dst_cap 0 0 "[]" z n] assms
  by (auto simp: cmem_lz4_compress_def cmem_lz4_decompress_def split: if_splits)


text \<open>C25 -- Compression succeeds on every non-empty input when the output buffer exceeds it by one byte in
  255 and two more: the incompressible case costs no more than that.\<close>

theorem lz4_compress_bound:
  assumes "src \<noteq> []" "length src + length src div 255 + 2 \<le> dst_cap"
  shows "cmem_lz4_compress src dst_cap \<noteq> None"
  using compress_loop_succeeds [of "[]" src 0 dst_cap 0] assms by (simp add: cmem_lz4_compress_def)

definition ex_bytes :: "byte list" where
  "ex_bytes = replicate 20 7 @ [1, 2, 3]"

lemma ex_bytes_length: "length ex_bytes = 23" "ex_bytes \<noteq> []"
  by (simp_all add: ex_bytes_def)

theorem lz4_compress_bound_witness: "cmem_lz4_compress ex_bytes 25 \<noteq> None"
  using lz4_compress_bound [of ex_bytes 25] by (simp add: ex_bytes_length)

theorem lz4_roundtrip_witness:
  "\<exists>z. cmem_lz4_compress ex_bytes 25 = Some z \<and> cmem_lz4_decompress z 23 = LOk ex_bytes"
proof -
  obtain z where z: "cmem_lz4_compress ex_bytes 25 = Some z"
    using compress_loop_succeeds [of "[]" ex_bytes 0 25 0] ex_bytes_length
    by (auto simp: cmem_lz4_compress_def)
  then show ?thesis
    using lz4_roundtrip [OF z, of 23] by (simp add: ex_bytes_length)
qed

end
