(* ===== verification/Compressed_Store.thy ===== *)
theory Compressed_Store
  imports Lz4_Codec
begin

text \<open>
  The compressed block store of \<open>src/src/cmem_compress.c\<close>: a table of entries, an area in which
  compressed payloads live at 4 KiB aligned offsets, a byte budget enforced by evicting the oldest
  entries, and 64-bit handles made of a slot number and a generation.

  The store is one record.  What the surrounding pool answers (growing the pool, allocating the area
  and the scratch buffer) enters through the record \<open>compress_env\<close>; releasing the caller's buffer on
  success is left to the pool.  The abstraction is the partial map from live handles to the payloads
  they stand for.
\<close>

section \<open>State\<close>

record cmem_compressed_entry =
  original_size :: nat
  comp_offset :: nat
  comp_size :: nat
  generation :: nat
  alloc_seq :: nat
  eused :: bool

record cstore =
  compressed_entries :: "cmem_compressed_entry list"
  compressed_seq :: nat
  compressed_budget :: nat
  compressed_used :: nat
  compressed_area :: "byte list option"

text \<open>Answers of \<open>mp_expand_pool\<close>, \<open>mp_alloc\<close> (with the contents of the new memory), \<open>calloc\<close> and
  \<open>malloc\<close>.\<close>

record compress_env =
  expand_ok :: bool
  area_init :: "nat \<Rightarrow> byte list option"
  table_ok :: bool
  scratch_ok :: bool

definition CMEM_COMPRESS_SLOT_SIZE :: nat where "CMEM_COMPRESS_SLOT_SIZE = 4096"
definition CMEM_COMPRESS_DEFAULT_BUDGET :: nat where "CMEM_COMPRESS_DEFAULT_BUDGET = 16 * 1024 * 1024"
definition CMEM_COMPRESS_MAX_ENTRIES :: nat where "CMEM_COMPRESS_MAX_ENTRIES = 4096"

definition zero_entry :: cmem_compressed_entry where
  "zero_entry = \<lparr>original_size = 0, comp_offset = 0, comp_size = 0, generation = 0, alloc_seq = 0, eused = False\<rparr>"

definition compressed_area_size :: "cstore \<Rightarrow> nat" where
  "compressed_area_size s = (case compressed_area s of None \<Rightarrow> 0 | Some a \<Rightarrow> length a)"

section \<open>Operations\<close>

definition cmem_compress_ensure_area :: "compress_env \<Rightarrow> cstore \<Rightarrow> cstore \<times> bool" where
  "cmem_compress_ensure_area env s =
     (if compressed_area s \<noteq> None then (s, True)
      else let s = (if compressed_budget s = 0
                    then s\<lparr>compressed_budget := CMEM_COMPRESS_DEFAULT_BUDGET\<rparr> else s);
               want = compressed_budget s
           in if \<not> expand_ok env then (s, False)
              else (case area_init env want of
                      None \<Rightarrow> (s, False)
                    | Some area \<Rightarrow>
                        if \<not> table_ok env then (s, False)
                        else (s\<lparr>compressed_entries := replicate CMEM_COMPRESS_MAX_ENTRIES zero_entry,
                                compressed_area := Some area\<rparr>, True)))"

fun compress_oldest :: "cmem_compressed_entry list \<Rightarrow> nat \<Rightarrow> nat \<Rightarrow> nat option \<Rightarrow> nat option" where
  "compress_oldest [] i oldest oldest_idx = oldest_idx"
| "compress_oldest (entry # rest) i oldest oldest_idx =
     (if eused entry \<and> alloc_seq entry < oldest
      then compress_oldest rest (i + 1) (alloc_seq entry) (Some i)
      else compress_oldest rest (i + 1) oldest oldest_idx)"

definition retire_entry :: "cstore \<Rightarrow> nat \<Rightarrow> cstore" where
  "retire_entry s i =
     (let entry = compressed_entries s ! i
      in s\<lparr>compressed_entries := (compressed_entries s)[i := entry\<lparr>eused := False,
              generation := (generation entry + 1) mod 2 ^ 32\<rparr>],
           compressed_used := (compressed_used s + 2 ^ 64 - comp_size entry) mod 2 ^ 64\<rparr>)"

definition cmem_compress_evict_oldest :: "cstore \<Rightarrow> cstore" where
  "cmem_compress_evict_oldest s =
     (case compress_oldest (compressed_entries s) 0 (2 ^ 32 - 1) None of
        None \<Rightarrow> s
      | Some i \<Rightarrow> retire_entry s i)"

lemma compress_oldest_used:
  "compress_oldest es i oldest idx = Some j \<Longrightarrow>
     idx = Some j \<or> i \<le> j \<and> j - i < length es \<and> eused (es ! (j - i)) \<and> alloc_seq (es ! (j - i)) < oldest"
proof (induction es arbitrary: i oldest idx)
  case (Cons e es)
  show ?case
  proof (cases "eused e \<and> alloc_seq e < oldest")
    case True
    then have "j = i \<or> Suc i \<le> j \<and> j - Suc i < length es \<and> eused (es ! (j - Suc i))
        \<and> alloc_seq (es ! (j - Suc i)) < alloc_seq e"
      using Cons.IH [of "Suc i" "alloc_seq e" "Some i"] Cons.prems by auto
    then show ?thesis
      using True by (auto simp: nth_Cons' Suc_diff_le [symmetric])
  next
    case False
    then show ?thesis
      using Cons.IH [of "Suc i" oldest idx] Cons.prems by (auto simp: nth_Cons')
  qed
qed simp

definition used_entries :: "cmem_compressed_entry list \<Rightarrow> nat" where
  "used_entries es = length (filter eused es)"

lemma used_entries_retire:
  assumes "i < length es" "eused (es ! i)" "\<not> eused e"
  shows "used_entries (es[i := e]) < used_entries es"
  using assms(1,2) unfolding used_entries_def
proof (induction es arbitrary: i)
  case (Cons x es)
  then show ?case
    using assms(3) by (cases i) auto
qed simp

lemma evict_decreases:
  assumes "compressed_used (cmem_compress_evict_oldest s) \<noteq> compressed_used s"
  shows "used_entries (compressed_entries (cmem_compress_evict_oldest s)) < used_entries (compressed_entries s)"
proof -
  obtain j where j: "compress_oldest (compressed_entries s) 0 (2 ^ 32 - 1) None = Some j"
    using assms by (auto simp: cmem_compress_evict_oldest_def split: option.splits)
  then show ?thesis
    using compress_oldest_used [OF j] used_entries_retire [of j "compressed_entries s"]
    by (simp add: cmem_compress_evict_oldest_def retire_entry_def Let_def)
qed

function compress_make_room :: "nat \<Rightarrow> cstore \<Rightarrow> cstore \<times> bool" where
  "compress_make_room clen s =
     (if compressed_budget s < (compressed_used s + clen) mod 2 ^ 64
      then let s' = cmem_compress_evict_oldest s
           in if compressed_used s' = compressed_used s then (s', False) else compress_make_room clen s'
      else (s, True))"
  by pat_completeness auto
termination
  by (relation "measure (\<lambda>(clen, s). used_entries (compressed_entries s))") (auto dest: evict_decreases)

declare compress_make_room.simps [simp del]

fun compress_free_slot :: "cmem_compressed_entry list \<Rightarrow> nat \<Rightarrow> nat option" where
  "compress_free_slot [] i = None"
| "compress_free_slot (entry # rest) i = (if \<not> eused entry then Some i else compress_free_slot rest (i + 1))"

definition compress_aligned :: "nat \<Rightarrow> nat" where
  "compress_aligned clen =
     (let aligned = (clen + 4095) AND 0xFFFFF000 in if aligned = 0 then CMEM_COMPRESS_SLOT_SIZE else aligned)"

definition compress_busy :: "cmem_compressed_entry list \<Rightarrow> nat \<Rightarrow> nat \<Rightarrow> bool" where
  "compress_busy es off aligned =
     list_ex (\<lambda>entry. eused entry \<and> comp_offset entry < off + aligned
                      \<and> off < comp_offset entry + comp_size entry) es"

function compress_first_fit :: "cmem_compressed_entry list \<Rightarrow> nat \<Rightarrow> nat \<Rightarrow> nat \<Rightarrow> nat" where
  "compress_first_fit es area_size aligned off =
     (if off + aligned \<le> area_size \<and> compress_busy es off aligned
      then compress_first_fit es area_size aligned (off + CMEM_COMPRESS_SLOT_SIZE) else off)"
  by pat_completeness auto
termination
  by (relation "measure (\<lambda>(es, area_size, aligned, off). Suc area_size - off)")
    (auto simp: CMEM_COMPRESS_SLOT_SIZE_def)

declare compress_first_fit.simps [simp del]

type_synonym compressed_handle = "64 word"

definition mk_handle :: "nat \<Rightarrow> nat \<Rightarrow> compressed_handle" where
  "mk_handle slot gen = push_bit 32 (of_nat slot) OR of_nat gen"

definition handle_slot :: "compressed_handle \<Rightarrow> nat" where
  "handle_slot h = unat (drop_bit 32 h)"

definition handle_gen :: "compressed_handle \<Rightarrow> nat" where
  "handle_gen h = unat (h AND 0xFFFFFFFF)"

definition write_area :: "byte list \<Rightarrow> nat \<Rightarrow> byte list \<Rightarrow> byte list" where
  "write_area area off bs = take off area @ bs @ drop (off + length bs) area"

definition store_entry :: "cstore \<Rightarrow> nat \<Rightarrow> nat \<Rightarrow> nat \<Rightarrow> byte list \<Rightarrow> cstore \<times> compressed_handle" where
  "store_entry s slot osize off z =
     (let entry = compressed_entries s ! slot;
          entry = entry\<lparr>original_size := osize, comp_offset := off, comp_size := length z,
                    generation := (generation entry + 1) mod 2 ^ 32, alloc_seq := compressed_seq s, eused := True\<rparr>
      in (s\<lparr>compressed_area := map_option (\<lambda>area. write_area area off z) (compressed_area s),
            compressed_entries := (compressed_entries s)[slot := entry],
            compressed_seq := (compressed_seq s + 1) mod 2 ^ 32,
            compressed_used := (compressed_used s + length z) mod 2 ^ 64\<rparr>,
          mk_handle slot (generation entry)))"

definition compress_place :: "cstore \<Rightarrow> nat \<Rightarrow> byte list \<Rightarrow> cstore \<times> compressed_handle" where
  "compress_place s osize z =
     (let (s, ok) = compress_make_room (length z) s
      in if \<not> ok then (s, 0)
         else (case compress_free_slot (compressed_entries s) 0 of
                 None \<Rightarrow> (s, 0)
               | Some slot \<Rightarrow>
                   let aligned = compress_aligned (length z);
                       off = compress_first_fit (compressed_entries s) (compressed_area_size s) aligned 0
                   in if compressed_area_size s < off + aligned then (s, 0)
                      else store_entry s slot osize off z))"

definition mp_compress_block :: "compress_env \<Rightarrow> cstore \<Rightarrow> byte list \<Rightarrow> cstore \<times> compressed_handle" where
  "mp_compress_block env s data =
     (if length data < 64 \<or> 2 ^ 31 - 1 < length data then (s, 0)
      else let (s, ok) = (if compressed_area s = None then cmem_compress_ensure_area env s else (s, True))
           in if \<not> ok \<or> compressed_budget s = 0 \<or> \<not> scratch_ok env then (s, 0)
              else (case cmem_lz4_compress data (length data) of
                      None \<Rightarrow> (s, 0)
                    | Some z \<Rightarrow>
                        if z = [] \<or> length data \<le> length z then (s, 0)
                        else compress_place s (length data) z))"

text \<open>\<open>alloc_ok\<close> is whether \<open>mp_alloc\<close> answers a buffer for the decompressed block.\<close>

definition mp_decompress_block :: "bool \<Rightarrow> cstore \<Rightarrow> compressed_handle \<Rightarrow> byte list option" where
  "mp_decompress_block alloc_ok s handle =
     (if handle = 0 then None
      else let slot = handle_slot handle; gen = handle_gen handle
           in if length (compressed_entries s) \<le> slot then None
              else let entry = compressed_entries s ! slot
                   in if \<not> eused entry \<or> generation entry \<noteq> gen then None
                      else if \<not> alloc_ok then None
                      else (case cmem_lz4_decompress
                               (take (comp_size entry) (drop (comp_offset entry) (the (compressed_area s))))
                               (original_size entry) of
                              LOk out \<Rightarrow> if length out \<noteq> original_size entry then None else Some out
                            | _ \<Rightarrow> None))"

definition mp_free_compressed :: "cstore \<Rightarrow> compressed_handle \<Rightarrow> cstore \<times> bool" where
  "mp_free_compressed s handle =
     (if handle = 0 then (s, False)
      else let slot = handle_slot handle; gen = handle_gen handle
           in if length (compressed_entries s) \<le> slot then (s, False)
              else let entry = compressed_entries s ! slot
                   in if \<not> eused entry \<or> generation entry \<noteq> gen then (s, False)
                      else (retire_entry s slot, True))"

definition mp_set_compressed_budget :: "compress_env \<Rightarrow> cstore \<Rightarrow> nat \<Rightarrow> cstore \<times> bool" where
  "mp_set_compressed_budget env s max_bytes =
     (let s = s\<lparr>compressed_budget := max_bytes\<rparr>
      in if 0 < max_bytes \<and> compressed_area s = None then cmem_compress_ensure_area env s else (s, True))"

definition mp_get_compressed_stats :: "cstore \<Rightarrow> nat \<times> nat \<times> nat" where
  "mp_get_compressed_stats s =
     (compressed_used s, compressed_budget s, length (filter eused (compressed_entries s)))"

section \<open>Handles\<close>

lemma unat_mk_handle:
  assumes "slot < 2 ^ 32" "gen < 2 ^ 32"
  shows "unat (mk_handle slot gen) = 2 ^ 32 * slot + gen"
proof -
  have "take_bit 64 (push_bit 32 slot) = push_bit 32 slot" "take_bit 64 slot = slot" "take_bit 64 gen = gen"
    using assms by (simp_all add: take_bit_nat_eq_self push_bit_eq_mult)
  then have "unat (mk_handle slot gen) = push_bit 32 slot OR gen"
    by (simp only: mk_handle_def unsigned_or_eq unsigned_push_bit_eq unsigned_of_nat) simp
  then show ?thesis
    using push_or_add [OF assms(2)] by simp
qed

lemma handle_parts: "handle_slot h = unat h div 2 ^ 32" "handle_gen h = unat h mod 2 ^ 32"
proof -
  show "handle_slot h = unat h div 2 ^ 32"
    unfolding handle_slot_def unsigned_drop_bit_eq
    using unsigned_less [of h, where 'a = nat] by (simp add: drop_bit_eq_div take_bit_nat_eq_self)
  have "(0xFFFFFFFF :: 64 word) = mask 32"
    by (simp add: mask_eq_exp_minus_1)
  then show "handle_gen h = unat h mod 2 ^ 32"
    unfolding handle_gen_def
    by (simp only: take_bit_eq_mask [symmetric] unsigned_take_bit_eq) (simp add: take_bit_eq_mod)
qed

lemma handle_slot_gen:
  assumes "slot < 2 ^ 32" "gen < 2 ^ 32"
  shows "handle_slot (mk_handle slot gen) = slot" "handle_gen (mk_handle slot gen) = gen"
  using assms unat_mk_handle [OF assms] by (simp_all add: handle_parts)

lemma handle_unique:
  assumes "handle_slot h = slot" "handle_gen h = gen" "slot < 2 ^ 32" "gen < 2 ^ 32"
  shows "h = mk_handle slot gen"
proof -
  have "unat h = 2 ^ 32 * slot + gen"
    using assms(1,2) mult_div_mod_eq [of "2 ^ 32" "unat h"] by (simp add: handle_parts)
  then show ?thesis
    using unat_mk_handle [OF assms(3,4)] by (metis word_unat_eq_iff)
qed

section \<open>Invariant\<close>

definition payload :: "byte list \<Rightarrow> cmem_compressed_entry \<Rightarrow> byte list" where
  "payload area e = take (comp_size e) (drop (comp_offset e) area)"

definition entry_ok :: "byte list \<Rightarrow> cmem_compressed_entry \<Rightarrow> bool" where
  "entry_ok area e \<longleftrightarrow> generation e < 2 ^ 32 \<and>
     (eused e \<longrightarrow> 0 < comp_size e \<and> comp_offset e + comp_size e \<le> length area
        \<and> (\<exists>d. cmem_lz4_decompress (payload area e) (original_size e) = LOk d \<and> length d = original_size e))"

definition apart :: "cmem_compressed_entry \<Rightarrow> cmem_compressed_entry \<Rightarrow> bool" where
  "apart e f \<longleftrightarrow> eused e \<longrightarrow> eused f \<longrightarrow>
     comp_offset e + comp_size e \<le> comp_offset f \<or> comp_offset f + comp_size f \<le> comp_offset e"

definition stored :: "cmem_compressed_entry list \<Rightarrow> nat" where
  "stored es = sum_list (map (\<lambda>e. if eused e then comp_size e else 0) es)"

definition table_ok_in :: "byte list \<Rightarrow> cmem_compressed_entry list \<Rightarrow> bool" where
  "table_ok_in area es \<longleftrightarrow> length es = CMEM_COMPRESS_MAX_ENTRIES \<and> length area < 2 ^ 63
     \<and> (\<forall>i < length es. entry_ok area (es ! i))
     \<and> (\<forall>i < length es. \<forall>j < length es. i \<noteq> j \<longrightarrow> apart (es ! i) (es ! j))"

definition cs_ok :: "cstore \<Rightarrow> bool" where
  "cs_ok s \<longleftrightarrow> compressed_used s = stored (compressed_entries s) \<and>
     (case compressed_area s of None \<Rightarrow> compressed_entries s = [] | Some area \<Rightarrow> table_ok_in area (compressed_entries s))"

definition cs_contents :: "cstore \<Rightarrow> compressed_handle \<Rightarrow> byte list option" where
  "cs_contents s = mp_decompress_block True s"

text \<open>Disjoint payloads inside the area: their sizes add up to no more than the area.\<close>

lemma stored_le:
  assumes "table_ok_in area es"
  shows "stored es \<le> length area"
proof -
  let ?I = "{i. i < length es \<and> eused (es ! i)}"
    and ?r = "\<lambda>i. {comp_offset (es ! i)..<comp_offset (es ! i) + comp_size (es ! i)}"
  have "stored es = (\<Sum>i<length es. if eused (es ! i) then comp_size (es ! i) else 0)"
    by (simp add: stored_def sum_list_sum_nth atLeast0LessThan)
  also have "\<dots> = (\<Sum>i \<in> {i \<in> {..<length es}. eused (es ! i)}. comp_size (es ! i))"
    by (rule sum.inter_filter [symmetric]) simp
  also have "\<dots> = (\<Sum>i \<in> ?I. card (?r i))"
    by (rule sum.cong) auto
  also have "\<dots> = card (\<Union>i \<in> ?I. ?r i)"
  proof (rule card_UN_disjoint [symmetric])
    show "\<forall>i \<in> ?I. \<forall>j \<in> ?I. i \<noteq> j \<longrightarrow> ?r i \<inter> ?r j = {}"
    proof (intro ballI impI)
      fix i j
      assume "i \<in> ?I" "j \<in> ?I" "i \<noteq> j"
      then have "apart (es ! i) (es ! j)" "eused (es ! i)" "eused (es ! j)"
        using assms by (auto simp: table_ok_in_def)
      then show "?r i \<inter> ?r j = {}"
        by (auto simp: apart_def)
    qed
  qed simp_all
  also have "\<dots> \<le> card {..<length area}"
    using assms by (intro card_mono) (auto simp: table_ok_in_def entry_ok_def)
  finally show ?thesis
    by simp
qed

lemma stored_update:
  assumes "i < length es"
  shows "stored (es[i := e]) = stored es + (if eused e then comp_size e else 0) - (if eused (es ! i) then comp_size (es ! i) else 0)"
    and "(if eused (es ! i) then comp_size (es ! i) else 0) \<le> stored es"
proof -
  let ?f = "\<lambda>e. if eused e then comp_size e else 0"
  show "stored (es[i := e]) = stored es + (if eused e then comp_size e else 0) - (if eused (es ! i) then comp_size (es ! i) else 0)"
    using sum_list_update [of i "map ?f es" "?f e"] assms by (simp add: stored_def map_update)
  have "?f (es ! i) \<in> set (map ?f es)"
    using nth_mem [of i "map ?f es"] assms by simp
  then show "?f (es ! i) \<le> stored es"
    unfolding stored_def by (intro member_le_sum_list) simp_all
qed

lemma apart_sym: "apart e f \<longleftrightarrow> apart f e"
  by (auto simp: apart_def)

lemma table_update:
  assumes "table_ok_in area es" "i < length es" "length area' = length area" "entry_ok area' e"
    and "\<And>j. j < length es \<Longrightarrow> j \<noteq> i \<Longrightarrow> entry_ok area' (es ! j)" "\<And>j. j < length es \<Longrightarrow> j \<noteq> i \<Longrightarrow> apart e (es ! j)"
  shows "table_ok_in area' (es[i := e])"
  unfolding table_ok_in_def
proof (intro conjI allI impI)
  fix j k
  assume "j < length (es[i := e])" "k < length (es[i := e])" "j \<noteq> k"
  moreover have "apart (es ! j) (es ! k)" if "j < length es" "k < length es" "j \<noteq> k"
    using assms(1) that by (simp add: table_ok_in_def)
  ultimately show "apart (es[i := e] ! j) (es[i := e] ! k)"
    using assms(2,6) apart_sym by (auto simp: nth_list_update)
next
  fix j
  assume "j < length (es[i := e])"
  then show "entry_ok area' (es[i := e] ! j)"
    using assms(2,4,5) by (auto simp: nth_list_update)
qed (use assms(1,3) in \<open>simp_all add: table_ok_in_def\<close>)

lemma contents_iff:
  assumes "compressed_area s = Some area"
  shows "cs_contents s h = Some d \<longleftrightarrow> h \<noteq> 0 \<and> handle_slot h < length (compressed_entries s)
    \<and> (let e = compressed_entries s ! handle_slot h in eused e \<and> generation e = handle_gen h
       \<and> cmem_lz4_decompress (payload area e) (original_size e) = LOk d \<and> length d = original_size e)"
  using assms by (auto simp: cs_contents_def mp_decompress_block_def payload_def Let_def not_le split: lres.splits)

lemma option_ext: "(\<And>d. x = Some d \<longleftrightarrow> y = Some d) \<Longrightarrow> x = y"
  by (cases x; cases y) auto

section \<open>Retiring entries\<close>

lemma retire_ok:
  assumes "cs_ok s" "i < length (compressed_entries s)" "eused (compressed_entries s ! i)"
  shows "cs_ok (retire_entry s i)"
    and "cs_contents (retire_entry s i) = cs_contents s |` {h. handle_slot h \<noteq> i}"
    and "compressed_used (retire_entry s i) = compressed_used s - comp_size (compressed_entries s ! i)"
proof -
  let ?es = "compressed_entries s" and ?s = "retire_entry s i"
  define e where "e = (?es ! i)\<lparr>eused := False, generation := (generation (?es ! i) + 1) mod 2 ^ 32\<rparr>"
  obtain area where A: "compressed_area s = Some area" "table_ok_in area ?es"
    using assms by (auto simp: cs_ok_def split: option.splits)
  have S: "compressed_entries ?s = ?es[i := e]" "compressed_area ?s = Some area"
    using A(1) by (simp_all add: retire_entry_def Let_def e_def)
  have used: "compressed_used s = stored ?es" "stored ?es < 2 ^ 64" "comp_size (?es ! i) \<le> stored ?es"
    using assms(1) stored_le [OF A(2)] A(2) stored_update(2) [OF assms(2)] assms(3)
    by (auto simp: cs_ok_def table_ok_in_def)
  then show u: "compressed_used ?s = compressed_used s - comp_size (?es ! i)"
    using sub64 [of "comp_size (?es ! i)" "stored ?es"] by (simp add: retire_entry_def Let_def)
  have "stored (?es[i := e]) = stored ?es - comp_size (?es ! i)"
    using stored_update(1) [OF assms(2), of e] assms(3) by (simp add: e_def)
  moreover have "table_ok_in area (?es[i := e])"
    using A(2) by (intro table_update [OF A(2) assms(2)]) (auto simp: entry_ok_def table_ok_in_def apart_def e_def)
  ultimately show "cs_ok ?s"
    using u used(1) by (simp add: cs_ok_def S)
  show "cs_contents ?s = cs_contents s |` {h. handle_slot h \<noteq> i}"
  proof (rule ext, rule option_ext)
    show "cs_contents ?s h = Some d \<longleftrightarrow> (cs_contents s |` {h. handle_slot h \<noteq> i}) h = Some d" for h d
      by (cases "handle_slot h = i") (auto simp: contents_iff [OF S(2)] contents_iff [OF A(1)] restrict_map_def S(1) e_def Let_def)
  qed
qed

lemma restrict_all: "m |` UNIV = m"
  by (simp add: restrict_map_def)

lemma evict_ok:
  assumes "cs_ok s" "cmem_compress_evict_oldest s = s'"
  shows "cs_ok s'" "\<exists>K. cs_contents s' = cs_contents s |` K" "compressed_used s' \<le> compressed_used s"
    "compressed_budget s' = compressed_budget s" "compressed_area s' = compressed_area s"
    "length (compressed_entries s') = length (compressed_entries s)"
proof -
  show "compressed_budget s' = compressed_budget s" "compressed_area s' = compressed_area s"
    "length (compressed_entries s') = length (compressed_entries s)"
    using assms(2) by (auto simp: cmem_compress_evict_oldest_def retire_entry_def Let_def split: option.splits)
  have "s' = s \<or> (\<exists>i. s' = retire_entry s i \<and> i < length (compressed_entries s) \<and> eused (compressed_entries s ! i))"
    using assms(2) compress_oldest_used [of "compressed_entries s" 0 "2 ^ 32 - 1" None]
    by (fastforce simp: cmem_compress_evict_oldest_def split: option.splits)
  then show "cs_ok s'" "compressed_used s' \<le> compressed_used s" "\<exists>K. cs_contents s' = cs_contents s |` K"
    using assms(1) retire_ok [OF assms(1)] restrict_all [of "cs_contents s"] by (force, force, metis)
qed

lemma make_room_ok:
  assumes "cs_ok s" "compress_make_room clen s = (s', b)"
  shows "cs_ok s' \<and> (\<exists>K. cs_contents s' = cs_contents s |` K) \<and> compressed_budget s' = compressed_budget s
    \<and> compressed_area s' = compressed_area s \<and> length (compressed_entries s') = length (compressed_entries s)
    \<and> (b \<longrightarrow> (compressed_used s' + clen) mod 2 ^ 64 \<le> compressed_budget s)"
  using assms
proof (induction clen s rule: compress_make_room.induct)
  case (1 clen s)
  let ?e = "cmem_compress_evict_oldest s"
  note E = evict_ok [OF "1.prems"(1) refl]
  obtain K where K: "cs_contents ?e = cs_contents s |` K"
    using E(2) by blast
  consider "compressed_budget s < (compressed_used s + clen) mod 2 ^ 64" "compressed_used ?e = compressed_used s"
    | "compressed_budget s < (compressed_used s + clen) mod 2 ^ 64" "compressed_used ?e \<noteq> compressed_used s"
    | "\<not> compressed_budget s < (compressed_used s + clen) mod 2 ^ 64"
    by blast
  then show ?case
  proof cases
    case 1
    then have "s' = ?e" "\<not> b"
      using "1.prems"(2) by (auto simp: compress_make_room.simps [of clen s] Let_def)
    then show ?thesis
      using E by simp
  next
    case 2
    then have "compress_make_room clen ?e = (s', b)"
      using "1.prems"(2) by (simp add: compress_make_room.simps [of clen s] Let_def)
    then have r: "cs_ok s' \<and> (\<exists>K. cs_contents s' = cs_contents ?e |` K) \<and> compressed_budget s' = compressed_budget s
      \<and> compressed_area s' = compressed_area s \<and> length (compressed_entries s') = length (compressed_entries s)
      \<and> (b \<longrightarrow> (compressed_used s' + clen) mod 2 ^ 64 \<le> compressed_budget s)"
      using "1.IH" [OF 2(1) refl 2(2) E(1)] E(4-6) by simp
    then obtain K' where "cs_contents s' = cs_contents ?e |` K'"
      by blast
    then have "cs_contents s' = cs_contents s |` (K \<inter> K')"
      by (simp add: K Int_commute)
    then show ?thesis
      using r by blast
  next
    case 3
    then have "s' = s"
      using "1.prems"(2) by (simp add: compress_make_room.simps [of clen s])
    then show ?thesis
      using 3 "1.prems"(1) by (auto intro!: exI [of _ UNIV] simp: restrict_map_def)
  qed
qed

section \<open>Storing\<close>

lemma free_slot_spec:
  "compress_free_slot es i = Some j \<Longrightarrow> i \<le> j \<and> j - i < length es \<and> \<not> eused (es ! (j - i))"
proof (induction es arbitrary: i)
  case (Cons e es)
  show ?case
  proof (cases "eused e")
    case True
    then show ?thesis
      using Cons.IH [of "Suc i"] Cons.prems by (auto simp: nth_Cons')
  qed (use Cons.prems in auto)
qed simp

lemma first_fit_spec:
  "compress_first_fit es n k off = o' \<Longrightarrow> o' + k \<le> n \<Longrightarrow> \<not> compress_busy es o' k"
proof (induction es n k off rule: compress_first_fit.induct)
  case (1 es n k off)
  show ?case
  proof (cases "off + k \<le> n \<and> compress_busy es off k")
    case True
    then show ?thesis
      using 1 by (simp add: compress_first_fit.simps [of es n k off])
  next
    case False
    then show ?thesis
      using 1(2,3) by (auto simp: compress_first_fit.simps [of es n k off])
  qed
qed

lemma not_busy_apart:
  "\<not> compress_busy es off k \<Longrightarrow> i < length es \<Longrightarrow> eused (es ! i)
    \<Longrightarrow> off + k \<le> comp_offset (es ! i) \<or> comp_offset (es ! i) + comp_size (es ! i) \<le> off"
  unfolding compress_busy_def list_ex_length by (metis not_le)

lemma aligned_ge:
  assumes "clen < 2 ^ 31"
  shows "clen \<le> compress_aligned clen"
proof -
  let ?m = "clen + 4095"
  have c: "(0xFFFFF000 :: nat) = push_bit 12 (mask 20)"
    by (simp add: push_bit_eq_mult mask_eq_exp_minus_1)
  have "?m < 2 ^ 32"
    using assms by simp
  then have high: "bit ?m i \<Longrightarrow> i < 32" for i
    by (metis bit_take_bit_iff take_bit_nat_eq_self)
  have "?m AND push_bit 12 (mask 20) = push_bit 12 (drop_bit 12 ?m)"
    by (rule bit_eqI) (use high in \<open>force simp: bit_push_bit_iff bit_drop_bit_eq bit_and_iff bit_mask_iff\<close>)
  then have "?m AND 0xFFFFF000 = 4096 * (?m div 4096)"
    unfolding c by (simp add: push_bit_eq_mult drop_bit_eq_div)
  moreover have "clen \<le> 4096 * (?m div 4096)"
    using mult_div_mod_eq [of 4096 ?m] mod_less_divisor [of 4096 ?m] by linarith
  ultimately show ?thesis
    by (simp add: compress_aligned_def Let_def)
qed

lemma write_area_slices:
  assumes "off + length z \<le> length area"
  shows "length (write_area area off z) = length area"
    "take (length z) (drop off (write_area area off z)) = z"
    "o' + k \<le> off \<or> off + length z \<le> o' \<Longrightarrow> take k (drop o' (write_area area off z)) = take k (drop o' area)"
proof -
  show "length (write_area area off z) = length area" "take (length z) (drop off (write_area area off z)) = z"
    using assms by (simp_all add: write_area_def)
  assume "o' + k \<le> off \<or> off + length z \<le> o'"
  then show "take k (drop o' (write_area area off z)) = take k (drop o' area)"
  proof
    assume "o' + k \<le> off"
    then show ?thesis
      using assms by (auto simp: write_area_def take_drop min_def)
  next
    assume "off + length z \<le> o'"
    then show ?thesis
      using assms by (simp add: write_area_def)
  qed
qed

lemma store_entry_ok:
  assumes ok: "cs_ok s" and A: "compressed_area s = Some area"
    and slot: "slot < length (compressed_entries s)" "\<not> eused (compressed_entries s ! slot)"
    and z: "0 < length z" "length z < 2 ^ 31" "off + length z \<le> length area"
    and nb: "\<And>i. i < length (compressed_entries s) \<Longrightarrow> eused (compressed_entries s ! i) \<Longrightarrow>
      off + length z \<le> comp_offset (compressed_entries s ! i)
      \<or> comp_offset (compressed_entries s ! i) + comp_size (compressed_entries s ! i) \<le> off"
    and dec: "cmem_lz4_decompress z (length d) = LOk d"
    and r: "store_entry s slot (length d) off z = (s', h)"
  shows "cs_ok s'" "cs_contents s' = (if h = 0 then cs_contents s else (cs_contents s)(h \<mapsto> d))"
    "compressed_used s' = compressed_used s + length z" "compressed_budget s' = compressed_budget s"
proof -
  let ?es = "compressed_entries s" and ?area = "write_area area off z"
  define g where "g = (generation (?es ! slot) + 1) mod 2 ^ 32"
  define e where "e = (?es ! slot)\<lparr>original_size := length d, comp_offset := off, comp_size := length z,
    generation := g, alloc_seq := compressed_seq s, eused := True\<rparr>"
  have T: "table_ok_in area ?es" "compressed_used s = stored ?es"
    using ok A by (simp_all add: cs_ok_def)
  have S: "compressed_entries s' = ?es[slot := e]" "compressed_area s' = Some ?area" "h = mk_handle slot g"
    "compressed_used s' = (compressed_used s + length z) mod 2 ^ 64"
    and "compressed_budget s' = compressed_budget s"
    using r A by (auto simp: store_entry_def Let_def e_def g_def)
  then show "compressed_budget s' = compressed_budget s"
    by simp
  note W = write_area_slices [OF z(3)]
  have small: "slot < 2 ^ 32" "g < 2 ^ 32"
    using slot T(1) by (simp_all add: table_ok_in_def CMEM_COMPRESS_MAX_ENTRIES_def g_def)
  have "stored ?es < 2 ^ 63"
    using stored_le [OF T(1)] T(1) by (simp add: table_ok_in_def)
  then show u: "compressed_used s' = compressed_used s + length z"
    using S(4) T(2) z(2) by simp
  have pe: "payload ?area e = z"
    using W(2) by (simp add: payload_def e_def)
  have po: "payload ?area (?es ! i) = payload area (?es ! i)" if "i < length ?es" "eused (?es ! i)" for i
    using W(3) [of "comp_offset (?es ! i)" "comp_size (?es ! i)"] nb [OF that] by (auto simp: payload_def)
  have "stored (?es[slot := e]) = stored ?es + length z"
    using stored_update(1) [OF slot(1), of e] slot(2) by (simp add: e_def)
  moreover have "table_ok_in ?area (?es[slot := e])"
  proof (rule table_update [OF T(1) slot(1) W(1)])
    show "entry_ok ?area e"
      using pe dec z W(1) small by (simp add: entry_ok_def) (simp add: e_def)
    show "entry_ok ?area (?es ! j)" if "j < length ?es" "j \<noteq> slot" for j
      using T(1) that po [OF that(1)] W(1) by (auto simp: table_ok_in_def entry_ok_def)
    show "apart e (?es ! j)" if "j < length ?es" "j \<noteq> slot" for j
      using nb [OF that(1)] by (auto simp: apart_def e_def)
  qed
  ultimately show "cs_ok s'"
    using u T(2) by (simp add: cs_ok_def S)
  note I = contents_iff [OF S(2)] contents_iff [OF A]
  show "cs_contents s' = (if h = 0 then cs_contents s else (cs_contents s)(h \<mapsto> d))"
  proof (rule ext, rule option_ext)
    fix k x
    show "cs_contents s' k = Some x \<longleftrightarrow> (if h = 0 then cs_contents s else (cs_contents s)(h \<mapsto> d)) k = Some x"
    proof (cases "handle_slot k = slot")
      case True
      have "handle_gen k = g \<longleftrightarrow> k = h"
        using handle_unique [OF True _ small] handle_slot_gen [OF small] S(3) by auto
      moreover have "generation e = g" "original_size e = length d" "eused e"
        by (simp_all add: e_def)
      moreover have "cs_contents s k \<noteq> Some x"
        using slot(2) True by (simp add: I Let_def)
      ultimately show ?thesis
        using slot(1) True dec by (auto simp: I(1) S(1) pe Let_def)
    next
      case False
      then have "k \<noteq> h"
        using S(3) handle_slot_gen [OF small] by auto
      then show ?thesis
        using False po [of "handle_slot k"] by (auto simp: I S(1) Let_def)
    qed
  qed
qed

section \<open>The operations against the map of live handles\<close>

text \<open>What the store relies on from the pool: a block of \<open>n\<close> bytes has \<open>n\<close> bytes, and no object is
  larger than half the address space.\<close>

definition env_ok :: "compress_env \<Rightarrow> bool" where
  "env_ok env \<longleftrightarrow> (\<forall>n area. area_init env n = Some area \<longrightarrow> length area = n \<and> n < 2 ^ 63)"

lemma ensure_area_ok:
  assumes "cs_ok s" "env_ok env" "cmem_compress_ensure_area env s = (s', b)"
  shows "cs_ok s'" "cs_contents s' = cs_contents s" "b \<longleftrightarrow> compressed_area s' \<noteq> None"
proof -
  have "cs_ok s' \<and> cs_contents s' = cs_contents s \<and> (b \<longleftrightarrow> compressed_area s' \<noteq> None)"
  proof (cases "compressed_area s")
    case (Some area)
    then show ?thesis
      using assms by (auto simp: cmem_compress_ensure_area_def)
  next
    case None
    then have e: "compressed_entries s = []" "compressed_used s = 0"
      using assms(1) by (simp_all add: cs_ok_def stored_def)
    have none: "cs_contents t = (\<lambda>_. None)" if "compressed_entries t = []" for t
      using that by (auto simp: cs_contents_def mp_decompress_block_def Let_def)
    let ?t = "replicate CMEM_COMPRESS_MAX_ENTRIES zero_entry"
    have st: "stored ?t = 0"
      by (simp add: stored_def map_replicate_const zero_entry_def sum_list_replicate)
    have zero: "cs_contents t = (\<lambda>_. None)" if "compressed_entries t = ?t" for t
      using that by (auto simp: cs_contents_def mp_decompress_block_def Let_def zero_entry_def)
    have tab: "table_ok_in area ?t" if "area_init env n = Some area" for n area
      using assms(2) that by (auto simp: table_ok_in_def entry_ok_def apart_def zero_entry_def env_ok_def)
    show ?thesis
      using assms(3) None e none zero st tab
      by (auto simp: cmem_compress_ensure_area_def Let_def cs_ok_def stored_def split: if_splits option.splits)
  qed
  then show "cs_ok s'" "cs_contents s' = cs_contents s" "b \<longleftrightarrow> compressed_area s' \<noteq> None"
    by simp_all
qed

lemma compress_place_ok:
  assumes ok: "cs_ok s" and A: "compressed_area s = Some area" and r: "compress_place s (length data) z = (s', h)"
    and z: "cmem_lz4_decompress z (length data) = LOk data" "0 < length z" "length z < 2 ^ 31"
  shows "cs_ok s' \<and> (\<exists>K. cs_contents s' = (if h = 0 then cs_contents s |` K else (cs_contents s |` K)(h \<mapsto> data)))
    \<and> (h \<noteq> 0 \<longrightarrow> compressed_used s' \<le> compressed_budget s')"
proof -
  obtain s2 b where s2: "compress_make_room (length z) s = (s2, b)"
    by fastforce
  obtain K where M: "cs_ok s2" "cs_contents s2 = cs_contents s |` K" "compressed_budget s2 = compressed_budget s"
    "compressed_area s2 = Some area" "b \<longrightarrow> (compressed_used s2 + length z) mod 2 ^ 64 \<le> compressed_budget s2"
    using make_room_ok [OF ok s2] A by auto
  have len: "compressed_area_size s2 = length area"
    using M(4) by (simp add: compressed_area_size_def)
  define off where "off = compress_first_fit (compressed_entries s2) (length area) (compress_aligned (length z)) 0"
  have room: "stored (compressed_entries s2) < 2 ^ 63" "compressed_used s2 = stored (compressed_entries s2)"
    using stored_le [of area "compressed_entries s2"] M(1,4) by (auto simp: cs_ok_def table_ok_in_def)
  have "(s', h) = (s2, 0) \<or> (\<exists>slot. b \<and> compress_free_slot (compressed_entries s2) 0 = Some slot
      \<and> off + compress_aligned (length z) \<le> length area \<and> store_entry s2 slot (length data) off z = (s', h))"
    using r by (simp add: compress_place_def s2 len Let_def off_def [symmetric] not_less split: if_splits option.splits)
  then show ?thesis
  proof (elim disjE exE conjE)
    fix slot
    assume b and slot: "compress_free_slot (compressed_entries s2) 0 = Some slot"
      and fit: "off + compress_aligned (length z) \<le> length area"
      and st: "store_entry s2 slot (length data) off z = (s', h)"
    have al: "length z \<le> compress_aligned (length z)"
      using aligned_ge [OF z(3)] .
    then have inside: "off + length z \<le> length area"
      using fit by linarith
    have nb: "off + length z \<le> comp_offset (compressed_entries s2 ! i)
      \<or> comp_offset (compressed_entries s2 ! i) + comp_size (compressed_entries s2 ! i) \<le> off"
      if "i < length (compressed_entries s2)" "eused (compressed_entries s2 ! i)" for i
      using not_busy_apart [OF first_fit_spec [OF off_def [symmetric] fit] that] al by linarith
    have fs: "slot < length (compressed_entries s2)" "\<not> eused (compressed_entries s2 ! slot)"
      using free_slot_spec [OF slot] by simp_all
    note E = store_entry_ok [OF M(1,4) fs z(2,3) inside nb z(1) st]
    have "compressed_used s' \<le> compressed_budget s'"
      using E(3,4) M(5) room z(3) \<open>b\<close> by simp
    then show ?thesis
      using E(1,2) M(2) by auto
  qed (use M in auto)
qed

lemma compress_block_ok:
  assumes ok: "cs_ok s" and env: "env_ok env" and r: "mp_compress_block env s data = (s', h)"
  shows "cs_ok s' \<and> (\<exists>K. cs_contents s' = (if h = 0 then cs_contents s |` K else (cs_contents s |` K)(h \<mapsto> data)))
    \<and> (h \<noteq> 0 \<longrightarrow> compressed_used s' \<le> compressed_budget s')"
proof -
  obtain s1 b1 where s1: "(if compressed_area s = None then cmem_compress_ensure_area env s else (s, True)) = (s1, b1)"
    by fastforce
  have C: "cs_ok s1" "cs_contents s1 = cs_contents s" and b1: "b1 \<longrightarrow> compressed_area s1 \<noteq> None"
    using s1 ok ensure_area_ok [OF ok env] by (auto split: if_splits)
  have "(s', h) = (s, 0) \<or> (s', h) = (s1, 0) \<or> (\<exists>z. b1 \<and> cmem_lz4_compress data (length data) = Some z \<and> z \<noteq> []
      \<and> length z < length data \<and> length data < 2 ^ 31 \<and> compress_place s1 (length data) z = (s', h))"
    using r by (simp add: mp_compress_block_def s1 Let_def not_less not_le split: if_splits option.splits)
  then show ?thesis
  proof (elim disjE exE conjE)
    fix z
    assume z: b1 "cmem_lz4_compress data (length data) = Some z" "z \<noteq> []" "length z < length data"
      "length data < 2 ^ 31" "compress_place s1 (length data) z = (s', h)"
    obtain area where "compressed_area s1 = Some area"
      using b1 z(1) by auto
    moreover have "cmem_lz4_decompress z (length data) = LOk data"
      using compress_loop_roundtrip [of data "length data" 0 0 "[]" z "length data"] z(2)
      by (simp add: cmem_lz4_compress_def cmem_lz4_decompress_def split: if_splits)
    ultimately show ?thesis
      using compress_place_ok [OF C(1) _ z(6)] z(3-5) unfolding C(2) by simp
  next
    assume "(s', h) = (s, 0)"
    then show ?thesis
      using ok restrict_all [of "cs_contents s"] by (metis fst_conv snd_conv)
  next
    assume "(s', h) = (s1, 0)"
    then show ?thesis
      using C restrict_all [of "cs_contents s"] by (metis fst_conv snd_conv)
  qed
qed

lemma contents_slot_unique:
  assumes "cs_ok s" "cs_contents s h = Some d" "cs_contents s k = Some x" "handle_slot k = handle_slot h"
  shows "k = h"
proof -
  obtain area where A: "compressed_area s = Some area" "table_ok_in area (compressed_entries s)"
    using assms(1,2) by (auto simp: cs_ok_def cs_contents_def mp_decompress_block_def split: option.splits if_splits)
  have g: "handle_gen h = generation (compressed_entries s ! handle_slot h)"
    "handle_gen k = generation (compressed_entries s ! handle_slot h)" "handle_slot h < length (compressed_entries s)"
    using assms(2-4) by (auto simp: contents_iff [OF A(1)] Let_def)
  then have "handle_gen h < 2 ^ 32" "handle_slot h < 2 ^ 32"
    using A(2) by (auto simp: table_ok_in_def entry_ok_def CMEM_COMPRESS_MAX_ENTRIES_def)
  then show ?thesis
    using handle_unique [OF refl refl, of h] handle_unique [OF assms(4), of "handle_gen h"] g by simp
qed

lemma free_compressed_ok:
  assumes ok: "cs_ok s" and r: "mp_free_compressed s h = (s', b)"
  shows "cs_ok s'" "cs_contents s' = (cs_contents s)(h := None)" "b \<longleftrightarrow> cs_contents s h \<noteq> None"
    "compressed_budget s' = compressed_budget s"
proof -
  let ?i = "handle_slot h"
  have valid: "cs_contents s h \<noteq> None \<longleftrightarrow> h \<noteq> 0 \<and> ?i < length (compressed_entries s)
    \<and> eused (compressed_entries s ! ?i) \<and> generation (compressed_entries s ! ?i) = handle_gen h"
  proof (cases "compressed_area s")
    case None
    then show ?thesis
      using ok by (auto simp: cs_ok_def cs_contents_def mp_decompress_block_def)
  next
    case (Some area)
    then have "table_ok_in area (compressed_entries s)"
      using ok by (simp add: cs_ok_def)
    then have "\<exists>d. cmem_lz4_decompress (payload area (compressed_entries s ! ?i)) (original_size (compressed_entries s ! ?i)) = LOk d
        \<and> length d = original_size (compressed_entries s ! ?i)"
      if "?i < length (compressed_entries s)" "eused (compressed_entries s ! ?i)"
      using that by (auto simp: table_ok_in_def entry_ok_def)
    then show ?thesis
      using contents_iff [OF Some, of h] by (auto simp: Let_def)
  qed
  have s': "s' = (if cs_contents s h \<noteq> None then retire_entry s ?i else s)" "b \<longleftrightarrow> cs_contents s h \<noteq> None"
    using r unfolding valid by (auto simp: mp_free_compressed_def Let_def split: if_splits)
  then show "b \<longleftrightarrow> cs_contents s h \<noteq> None" "compressed_budget s' = compressed_budget s"
    by (simp_all add: retire_entry_def Let_def)
  show "cs_ok s'"
    using s'(1) valid ok retire_ok(1) [OF ok] by auto
  show "cs_contents s' = (cs_contents s)(h := None)"
  proof (cases "cs_contents s h")
    case (Some d)
    then have "cs_contents s' = cs_contents s |` {k. handle_slot k \<noteq> ?i}"
      using s'(1) valid retire_ok(2) [OF ok] by auto
    moreover have "cs_contents s k = None" if "handle_slot k = ?i" "k \<noteq> h" for k
      using contents_slot_unique [OF ok Some _ that(1)] that(2) by (cases "cs_contents s k") auto
    ultimately show ?thesis
      by (auto simp: restrict_map_def fun_eq_iff)
  qed (use s'(1) in auto)
qed

lemma set_budget_ok:
  assumes "cs_ok s" "env_ok env" "mp_set_compressed_budget env s n = (s', b)"
  shows "cs_ok s'" "cs_contents s' = cs_contents s"
proof -
  let ?t = "s\<lparr>compressed_budget := n\<rparr>"
  have t: "cs_ok ?t" "cs_contents ?t = cs_contents s"
    using assms(1) by (auto simp: cs_ok_def cs_contents_def mp_decompress_block_def fun_eq_iff Let_def cong: option.case_cong)
  then show "cs_ok s'" "cs_contents s' = cs_contents s"
    using assms(3) ensure_area_ok [OF t(1) assms(2)]
    by (auto simp: mp_set_compressed_budget_def Let_def split: if_splits)
qed

text \<open>The scan picks a live entry with the least sequence number.\<close>

lemma compress_oldest_min:
  assumes "\<And>j. idx = Some j \<Longrightarrow> j < i"
  shows "(compress_oldest es i oldest idx = idx \<and> (\<forall>e \<in> set es. eused e \<longrightarrow> oldest \<le> alloc_seq e))
    \<or> (\<exists>j \<ge> i. compress_oldest es i oldest idx = Some j \<and> j - i < length es \<and> alloc_seq (es ! (j - i)) < oldest
        \<and> (\<forall>e \<in> set es. eused e \<longrightarrow> alloc_seq (es ! (j - i)) \<le> alloc_seq e))"
  using assms
proof (induction es arbitrary: i oldest idx)
  case (Cons x es)
  show ?case
  proof (cases "eused x \<and> alloc_seq x < oldest")
    case True
    have "(compress_oldest es (Suc i) (alloc_seq x) (Some i) = Some i \<and> (\<forall>e \<in> set es. eused e \<longrightarrow> alloc_seq x \<le> alloc_seq e))
      \<or> (\<exists>j \<ge> Suc i. compress_oldest es (Suc i) (alloc_seq x) (Some i) = Some j \<and> j - Suc i < length es
        \<and> alloc_seq (es ! (j - Suc i)) < alloc_seq x
        \<and> (\<forall>e \<in> set es. eused e \<longrightarrow> alloc_seq (es ! (j - Suc i)) \<le> alloc_seq e))"
      using Cons.IH [of "Some i" "Suc i"] by simp
    then show ?thesis
    proof (elim disjE exE conjE)
      fix j
      assume j: "Suc i \<le> j" "compress_oldest es (Suc i) (alloc_seq x) (Some i) = Some j" "j - Suc i < length es"
        "alloc_seq (es ! (j - Suc i)) < alloc_seq x"
        "\<forall>e \<in> set es. eused e \<longrightarrow> alloc_seq (es ! (j - Suc i)) \<le> alloc_seq e"
      then have "(x # es) ! (j - i) = es ! (j - Suc i)" "j - i < length (x # es)"
        by (auto simp: nth_Cons')
      then show ?thesis
        using True j by (intro disjI2 exI [of _ j]) auto
    qed (use True in auto)
  next
    case False
    have "(compress_oldest es (Suc i) oldest idx = idx \<and> (\<forall>e \<in> set es. eused e \<longrightarrow> oldest \<le> alloc_seq e))
      \<or> (\<exists>j \<ge> Suc i. compress_oldest es (Suc i) oldest idx = Some j \<and> j - Suc i < length es
        \<and> alloc_seq (es ! (j - Suc i)) < oldest
        \<and> (\<forall>e \<in> set es. eused e \<longrightarrow> alloc_seq (es ! (j - Suc i)) \<le> alloc_seq e))"
      by (rule Cons.IH) (use Cons.prems in \<open>simp add: less_SucI\<close>)
    then show ?thesis
    proof (elim disjE exE conjE)
      fix j
      assume j: "Suc i \<le> j" "compress_oldest es (Suc i) oldest idx = Some j" "j - Suc i < length es"
        "alloc_seq (es ! (j - Suc i)) < oldest"
        "\<forall>e \<in> set es. eused e \<longrightarrow> alloc_seq (es ! (j - Suc i)) \<le> alloc_seq e"
      then have "(x # es) ! (j - i) = es ! (j - Suc i)" "j - i < length (x # es)"
        by (auto simp: nth_Cons')
      then show ?thesis
        using False j by (intro disjI2 exI [of _ j]) auto
    qed (use False in auto)
  qed
qed simp

section \<open>Properties\<close>

text \<open>A history of the store, with \<open>m\<close> what the client believes to be stored under which handle: the last
  block that was accepted under the handle and not freed since.\<close>

inductive cs_run :: "cstore \<Rightarrow> (compressed_handle \<rightharpoonup> byte list) \<Rightarrow> bool" where
  empty: "cs_run \<lparr>compressed_entries = [], compressed_seq = 0, compressed_budget = n, compressed_used = 0,
      compressed_area = None\<rparr> Map.empty"
| compress: "cs_run s m \<Longrightarrow> env_ok env \<Longrightarrow> mp_compress_block env s data = (s', h)
    \<Longrightarrow> cs_run s' (if h = 0 then m else m(h \<mapsto> data))"
| free: "cs_run s m \<Longrightarrow> mp_free_compressed s h = (s', b) \<Longrightarrow> cs_run s' (if b then m(h := None) else m)"
| budget: "cs_run s m \<Longrightarrow> env_ok env \<Longrightarrow> mp_set_compressed_budget env s n = (s', b) \<Longrightarrow> cs_run s' m"

lemma cs_run_ok: "cs_run s m \<Longrightarrow> cs_ok s \<and> cs_contents s \<subseteq>\<^sub>m m"
proof (induction rule: cs_run.induct)
  case (empty n)
  then show ?case
    by (auto simp: cs_ok_def stored_def cs_contents_def mp_decompress_block_def map_le_def Let_def split: if_splits)
next
  case (compress s m env data s' h)
  then show ?case
    using compress_block_ok [of s env data s' h] by (fastforce simp: map_le_def restrict_map_def split: if_splits)
next
  case (free s m h s' b)
  then have "cs_ok s" "cs_contents s \<subseteq>\<^sub>m m"
    by simp_all
  then show ?case
    using free_compressed_ok [OF \<open>cs_ok s\<close> free.hyps(2)] by (auto simp: map_le_def dom_def)
next
  case (budget s m env n s' b)
  then show ?case
    using set_budget_ok [of s env n s' b] by simp
qed

text \<open>C26 -- A handle never answers wrong data: in every history of compressions, frees and budget changes,
  decompressing a handle gives back exactly the block that was last accepted under it and not freed
  since, or nothing (evicted, freed or never issued).\<close>

theorem compressed_store_sound:
  assumes "cs_run s m" "mp_decompress_block alloc_ok s h = Some d"
  shows "m h = Some d"
proof -
  have "cs_contents s h = Some d"
    using assms(2) by (simp add: cs_contents_def mp_decompress_block_def Let_def split: if_splits)
  then show ?thesis
    using cs_run_ok [OF assms(1)] by (auto simp: map_le_def dom_def)
qed

text \<open>A block that was just accepted is there: its handle decompresses to the block, and the bytes
  stored do not exceed the budget.  Other handles keep their contents or are evicted, they never
  change.\<close>

theorem compress_then_decompress:
  assumes "cs_run s m" "env_ok env" "mp_compress_block env s data = (s', h)" "h \<noteq> 0"
  shows "mp_decompress_block True s' h = Some data \<and> compressed_used s' \<le> compressed_budget s'
    \<and> (\<forall>k. k \<noteq> h \<longrightarrow> mp_decompress_block True s' k \<in> {None, mp_decompress_block True s k})"
  using compress_block_ok [OF _ assms(2,3)] cs_run_ok [OF assms(1)] assms(4)
  by (auto simp: cs_contents_def restrict_map_def)

text \<open>Freeing succeeds exactly on live handles, makes the handle stale, and touches no other handle.\<close>

theorem free_compressed_exact:
  assumes "cs_run s m" "mp_free_compressed s h = (s', b)"
  shows "b = (mp_decompress_block True s h \<noteq> None)
    \<and> mp_decompress_block True s' = (mp_decompress_block True s)(h := None)"
  using free_compressed_ok [OF _ assms(2)] cs_run_ok [OF assms(1)] by (simp add: cs_contents_def)

text \<open>The bytes counted as used are exactly the compressed bytes of the live entries, which lie disjoint
  inside the area.\<close>

theorem compressed_accounting:
  assumes "cs_run s m"
  shows "compressed_used s = sum_list (map comp_size (filter eused (compressed_entries s)))
    \<and> compressed_used s \<le> compressed_area_size s"
proof -
  have ok: "cs_ok s"
    using cs_run_ok [OF assms] by simp
  have "stored es = sum_list (map comp_size (filter eused es))" for es
    by (induction es) (auto simp: stored_def)
  moreover have "stored (compressed_entries s) \<le> compressed_area_size s"
    using ok stored_le by (auto simp: cs_ok_def compressed_area_size_def stored_def split: option.splits)
  ultimately show ?thesis
    using ok by (simp add: cs_ok_def)
qed

text \<open>Eviction takes an oldest live entry: no live entry has a smaller sequence number than the one
  evicted; nothing is evicted only when every live entry carries the number \<open>UINT32_MAX\<close>.\<close>

theorem evict_takes_oldest:
  assumes "cmem_compress_evict_oldest s = s'"
  shows "(s' = s \<and> (\<forall>e \<in> set (compressed_entries s). eused e \<longrightarrow> 2 ^ 32 - 1 \<le> alloc_seq e))
    \<or> (\<exists>i < length (compressed_entries s). s' = retire_entry s i \<and> eused (compressed_entries s ! i)
        \<and> (\<forall>e \<in> set (compressed_entries s). eused e \<longrightarrow> alloc_seq (compressed_entries s ! i) \<le> alloc_seq e))"
proof -
  let ?es = "compressed_entries s"
  consider "compress_oldest ?es 0 (2 ^ 32 - 1) None = None" "\<forall>e \<in> set ?es. eused e \<longrightarrow> 2 ^ 32 - 1 \<le> alloc_seq e"
    | j where "compress_oldest ?es 0 (2 ^ 32 - 1) None = Some j" "j < length ?es"
      "\<forall>e \<in> set ?es. eused e \<longrightarrow> alloc_seq (?es ! j) \<le> alloc_seq e"
    using compress_oldest_min [of None 0 ?es "2 ^ 32 - 1"] by auto
  then show ?thesis
    using assms compress_oldest_used [of ?es 0 "2 ^ 32 - 1" None]
    by cases (auto simp: cmem_compress_evict_oldest_def)
qed

section \<open>A concrete history\<close>

text \<open>A block of equal bytes compresses to a literal and one match.\<close>

definition ex_block :: "byte list" where
  "ex_block = replicate 100 7"

lemma match_len_replicate:
  assumes "off \<le> ip" "ip + probe \<le> n" "len \<le> probe" "0 < off"
  shows "lz4_match_len (replicate n b) ip off probe len = probe"
  using assms
proof (induction "replicate n b" ip off probe len rule: lz4_match_len.induct)
  case (1 ip off probe len)
  show ?case
  proof (cases "len < probe")
    case True
    then have "ip - off + len < n" "ip + len < n"
      using 1(2-5) by linarith+
    then show ?thesis
      using 1(1) 1(2-5) True by (subst lz4_match_len.simps) simp
  qed (use 1(4) in \<open>subst lz4_match_len.simps, simp\<close>)
qed

lemma ex_block_compressed: "cmem_lz4_compress ex_block 100 = Some (enc_match [7] 1 99)"
proof -
  let ?b = "replicate 100 7 :: byte list"
  have f: "lz4_find ?b 0 = (0, 0)" "lz4_find ?b 1 = (99, 1)"
    using match_len_replicate [of 1 1 99 100 0 7]
    by (simp_all add: lz4_find_def Let_def lz4_consts lz4_best_match.simps [of _ "Suc 0" 99 "Suc 0" "Suc 0"])
  have e: "length (enc_match [7] 1 99) = 5"
    by (simp add: enc_match_def enc_ext_length off_bytes_def)
  have "lz4_compress_loop ?b 100 0 0 [] = lz4_compress_loop ?b 100 1 0 []"
    using f(1) by (subst lz4_compress_loop.simps) (simp add: lz4_consts)
  also have "\<dots> = lz4_compress_loop ?b 100 100 100 (enc_match [7] 1 99)"
  proof -
    have "take 1 ?b = [7]"
      by (simp add: take_replicate)
    then show ?thesis
      using f(2) e by (subst lz4_compress_loop.simps) (simp add: lz4_consts emit_match_eq)
  qed
  also have "\<dots> = Some (enc_match [7] 1 99)"
    using e by (subst lz4_compress_loop.simps) (simp add: emit_tail_eq enc_tail_def)
  finally show ?thesis
    by (simp add: cmem_lz4_compress_def ex_block_def)
qed

definition ex_env :: compress_env where
  "ex_env = \<lparr>expand_ok = True, area_init = (\<lambda>n. if n < 2 ^ 63 then Some (replicate n 0) else None),
     table_ok = True, scratch_ok = True\<rparr>"

lemma ex_env_ok: "env_ok ex_env"
  by (simp add: env_ok_def ex_env_def)

definition ex_empty :: cstore where
  "ex_empty = \<lparr>compressed_entries = [], compressed_seq = 0, compressed_budget = 8192, compressed_used = 0,
     compressed_area = None\<rparr>"

definition ex_store :: cstore where
  "ex_store = fst (mp_compress_block ex_env ex_empty ex_block)"

lemma ex_run_empty: "cs_run ex_empty Map.empty"
  unfolding ex_empty_def by (rule cs_run.empty)

lemma ex_compress: "mp_compress_block ex_env ex_empty ex_block = (ex_store, mk_handle 0 1)"
proof -
  let ?es = "replicate 4096 zero_entry" and ?z = "enc_match [7] 1 99 :: byte list"
  define t where "t = ex_empty\<lparr>compressed_entries := ?es, compressed_area := Some (replicate 8192 0)\<rparr>"
  have len: "length ?z = 5" "?z \<noteq> []" "length ex_block = 100"
    by (simp_all add: enc_match_def enc_ext_length off_bytes_def ex_block_def)
  have en: "cmem_compress_ensure_area ex_env ex_empty = (t, True)"
    by (simp add: cmem_compress_ensure_area_def ex_empty_def ex_env_def t_def CMEM_COMPRESS_MAX_ENTRIES_def Let_def)
  have room: "compress_make_room 5 t = (t, True)"
    by (subst compress_make_room.simps) (simp add: t_def ex_empty_def)
  have es: "?es = zero_entry # replicate 4095 zero_entry"
    by (simp only: replicate_Suc [symmetric]) simp
  have free: "compress_free_slot ?es 0 = Some 0"
    unfolding es by (simp add: zero_entry_def)
  have al: "compress_aligned 5 = 4096"
    by (simp add: compress_aligned_def Let_def)
  have "\<not> compress_busy ?es 0 4096"
    by (auto simp: compress_busy_def list_ex_iff zero_entry_def)
  then have fit: "compress_first_fit ?es 8192 4096 0 = 0"
    by (subst compress_first_fit.simps) simp
  have "snd (store_entry t 0 100 0 ?z) = mk_handle 0 1"
    by (simp add: store_entry_def t_def zero_entry_def Let_def)
  moreover have "mp_compress_block ex_env ex_empty ex_block = store_entry t 0 100 0 ?z"
  proof -
    have t: "compressed_entries t = ?es" "compressed_area_size t = 8192" "compressed_budget t = 8192"
      by (simp_all add: t_def compressed_area_size_def ex_empty_def)
    have "compress_place t 100 ?z = store_entry t 0 100 0 ?z"
      using len free al fit t room by (simp add: compress_place_def Let_def)
    moreover have "compressed_area ex_empty = None" "scratch_ok ex_env"
      by (simp_all add: ex_empty_def ex_env_def)
    ultimately show ?thesis
      using len en t(3) ex_block_compressed by (simp add: mp_compress_block_def)
  qed
  ultimately show ?thesis
    by (metis ex_store_def prod.collapse)
qed

lemma ex_handle: "mk_handle 0 1 \<noteq> 0"
  by (simp add: mk_handle_def)

lemma ex_run: "cs_run ex_store [mk_handle 0 1 \<mapsto> ex_block]"
  using cs_run.compress [OF ex_run_empty ex_env_ok ex_compress] ex_handle by simp

theorem compress_then_decompress_witness:
  "mp_decompress_block True ex_store (mk_handle 0 1) = Some ex_block"
  using compress_then_decompress [OF ex_run_empty ex_env_ok ex_compress ex_handle] by simp

lemma ex_decompress: "mp_decompress_block True ex_store (mk_handle 0 1) = Some ex_block"
  using compress_block_ok [OF _ ex_env_ok ex_compress] cs_run_ok [OF ex_run_empty] ex_handle
  by (auto simp: cs_contents_def)

theorem compressed_store_sound_witness:
  "mp_decompress_block True ex_store (mk_handle 0 1) = Some ex_block
   \<and> [mk_handle 0 1 \<mapsto> ex_block] (mk_handle 0 1) = Some ex_block"
  using compressed_store_sound [OF ex_run ex_decompress] ex_decompress by simp

theorem free_compressed_exact_witness:
  "snd (mp_free_compressed ex_store (mk_handle 0 1))
   \<and> mp_decompress_block True (fst (mp_free_compressed ex_store (mk_handle 0 1))) (mk_handle 0 1) = None"
  using free_compressed_exact [OF ex_run prod.collapse [symmetric], of "mk_handle 0 1"] ex_decompress by simp

theorem compressed_accounting_witness:
  "compressed_used ex_store = sum_list (map comp_size (filter eused (compressed_entries ex_store)))"
  using compressed_accounting [OF ex_run] by simp

theorem evict_takes_oldest_witness:
  "cmem_compress_evict_oldest ex_empty = ex_empty"
  using evict_takes_oldest [OF refl, of ex_empty] by (simp add: ex_empty_def)

end
