(* ===== verification/Ring_Event.thy ===== *)
theory Ring_Event
  imports Cmem_Prelude
begin

text \<open>
  The ring allocator, the event log on top of it and the typed object pool of
  \<open>src/src/cmem_ring_event.c\<close>.

  Each call is one atomic step.  The ring is shown to be a first-in first-out queue of free slots as
  long as nobody allocates from an exhausted ring; the event log takes the next free slot both to
  record and to consume, so it never hands out what was recorded last.  The typed pool is a stack of
  free objects.
\<close>

section \<open>Ring buffer\<close>

record cmem_ring_buffer =
  slot_size :: nat
  capacity :: nat
  rmask :: nat
  rhead :: nat
  rtail :: nat
  slots :: "addr list"

text \<open>Rounding up to a power of two: \<open>None\<close> is the loop that never ends.\<close>

partial_function (option) ring_round :: "nat \<Rightarrow> nat \<Rightarrow> nat option" where
  "ring_round cap real_cap =
     (if real_cap < cap then ring_round cap ((2 * real_cap) mod 2 ^ 64) else Some real_cap)"

text \<open>\<open>memalign n\<close> is the answer of \<open>posix_memalign\<close> for \<open>n\<close> bytes, null on failure; \<open>ring_ok\<close> whether
  the descriptor could be allocated.  The outer option is termination, the inner one the null answer.\<close>

definition mp_ring_create :: "bool \<Rightarrow> (nat \<Rightarrow> addr) \<Rightarrow> nat \<Rightarrow> nat \<Rightarrow> cmem_ring_buffer option option" where
  "mp_ring_create ring_ok memalign sz cap =
     (if sz = 0 \<or> cap = 0 then Some None
      else Option.bind (ring_round cap 1) (\<lambda>real_cap.
        if \<not> ring_ok then Some None
        else let base = memalign ((sz * real_cap) mod 2 ^ 64)
             in if base = 0 then Some None
                else Some (Some \<lparr>slot_size = sz, capacity = real_cap, rmask = real_cap - 1, rhead = 0,
                       rtail = real_cap, slots = map (\<lambda>i. base + i * sz) [0..<real_cap]\<rparr>)))"

definition mp_ring_alloc :: "cmem_ring_buffer \<Rightarrow> cmem_ring_buffer \<times> addr" where
  "mp_ring_alloc ring =
     (let head = rhead ring; ring = ring\<lparr>rhead := (head + 1) mod 2 ^ 64\<rparr>
      in if rtail ring \<le> head then (ring, 0) else (ring, slots ring ! (head AND rmask ring)))"

definition mp_ring_free :: "cmem_ring_buffer \<Rightarrow> addr \<Rightarrow> cmem_ring_buffer \<times> bool" where
  "mp_ring_free ring ptr =
     (if ptr = 0 then (ring, False)
      else let tail = rtail ring; ring = ring\<lparr>rtail := (tail + 1) mod 2 ^ 64\<rparr>
           in (ring\<lparr>slots := (slots ring)[tail AND rmask ring := ptr]\<rparr>, True))"

section \<open>Event log\<close>

record mp_event_log_entry =
  timestamp_ns :: nat
  event_type :: nat
  esize :: nat
  eptr :: addr

record mp_event_log =
  ring :: "cmem_ring_buffer option"
  log_capacity :: nat
  log_count :: nat
  buffer :: "addr \<Rightarrow> mp_event_log_entry"

definition sizeof_event_entry :: nat where
  "sizeof_event_entry = 32"

definition mp_event_log_create :: "bool \<Rightarrow> bool \<Rightarrow> (nat \<Rightarrow> addr) \<Rightarrow> (addr \<Rightarrow> mp_event_log_entry) \<Rightarrow> nat \<Rightarrow> mp_event_log option option" where
  "mp_event_log_create log_ok ring_ok memalign mem cap =
     (if \<not> log_ok then Some None
      else Option.bind (mp_ring_create ring_ok memalign sizeof_event_entry cap) (\<lambda>r.
        case r of
          None \<Rightarrow> Some None
        | Some r \<Rightarrow> Some (Some \<lparr>ring = Some r, log_capacity = cap, log_count = 0, buffer = mem\<rparr>)))"

text \<open>\<open>now\<close> is the reading of the monotonic clock, as seconds and nanoseconds.\<close>

definition mp_event_log_record :: "nat \<times> nat \<Rightarrow> mp_event_log \<Rightarrow> nat \<Rightarrow> addr \<Rightarrow> nat \<Rightarrow> mp_event_log \<times> bool" where
  "mp_event_log_record now log ty ptr sz =
     (case ring log of
        None \<Rightarrow> (log, False)
      | Some r \<Rightarrow>
          let (r, entry) = mp_ring_alloc r; log = log\<lparr>ring := Some r\<rparr>
          in if entry = 0 then (log, False)
             else (log\<lparr>buffer := (buffer log)(entry := \<lparr>timestamp_ns = (fst now * 1000000000 + snd now) mod 2 ^ 64,
                         event_type = ty, esize = sz, eptr = ptr\<rparr>),
                       log_count := (log_count log + 1) mod 2 ^ 64\<rparr>, True))"

definition mp_event_log_consume :: "mp_event_log \<Rightarrow> mp_event_log \<times> mp_event_log_entry option" where
  "mp_event_log_consume log =
     (case ring log of
        None \<Rightarrow> (log, None)
      | Some r \<Rightarrow>
          let (r, slot) = mp_ring_alloc r; log = log\<lparr>ring := Some r\<rparr>
          in if slot = 0 then (log, None)
             else (log\<lparr>log_count := (log_count log + 2 ^ 64 - 1) mod 2 ^ 64\<rparr>, Some (buffer log slot)))"

definition mp_event_log_pending :: "mp_event_log \<Rightarrow> nat" where
  "mp_event_log_pending log = log_count log"

definition mp_event_log_clear :: "bool \<Rightarrow> (nat \<Rightarrow> addr) \<Rightarrow> mp_event_log \<Rightarrow> mp_event_log option" where
  "mp_event_log_clear ring_ok memalign log =
     Option.bind (mp_ring_create ring_ok memalign sizeof_event_entry (log_capacity log)) (\<lambda>r.
       Some (log\<lparr>log_count := 0, ring := r\<rparr>))"

section \<open>Typed pool\<close>

record mp_typed_pool =
  telem_size :: nat
  tcapacity :: nat
  active_count :: nat
  tfree_list :: addr
  raw_buf :: addr
  tmem :: "addr \<Rightarrow> addr"

fun typed_link :: "addr \<Rightarrow> nat \<Rightarrow> nat \<Rightarrow> nat \<Rightarrow> (addr \<Rightarrow> addr) \<Rightarrow> (addr \<Rightarrow> addr)" where
  "typed_link base esz i 0 m = m"
| "typed_link base esz i (Suc n) m = typed_link base esz (i + 1) n (m(base + i * esz := base + (i + 1) * esz))"

definition mp_typed_pool_create :: "bool \<Rightarrow> (nat \<Rightarrow> addr) \<Rightarrow> (addr \<Rightarrow> addr) \<Rightarrow> nat \<Rightarrow> nat \<Rightarrow> mp_typed_pool option" where
  "mp_typed_pool_create pool_ok memalign mem elem_sz cap =
     (if elem_sz = 0 \<or> cap = 0 then None
      else let esz = align_up8 (if elem_sz < 8 then 8 else elem_sz)
           in if \<not> pool_ok then None
              else let base = memalign ((esz * cap) mod 2 ^ 64)
                   in if base = 0 then None
                      else Some \<lparr>telem_size = esz, tcapacity = cap, active_count = 0, tfree_list = base, raw_buf = base,
                             tmem = (typed_link base esz 0 (cap - 1) mem)(base + (cap - 1) * esz := 0)\<rparr>)"

definition mp_typed_alloc :: "mp_typed_pool \<Rightarrow> mp_typed_pool \<times> addr" where
  "mp_typed_alloc tp =
     (if tfree_list tp = 0 then (tp, 0)
      else let ptr = tfree_list tp
           in (tp\<lparr>tfree_list := tmem tp ptr, active_count := (active_count tp + 1) mod 2 ^ 64\<rparr>, ptr))"

definition mp_typed_free :: "mp_typed_pool \<Rightarrow> addr \<Rightarrow> mp_typed_pool" where
  "mp_typed_free tp ptr =
     (if ptr = 0 then tp
      else let tp = tp\<lparr>tmem := (tmem tp)(ptr := tfree_list tp), tfree_list := ptr\<rparr>
           in if 0 < active_count tp then tp\<lparr>active_count := active_count tp - 1\<rparr> else tp)"

section \<open>The rounding loop\<close>

definition round_out :: "nat \<Rightarrow> nat \<Rightarrow> nat \<Rightarrow> bool" where
  "round_out cap r y \<longleftrightarrow> cap \<le> y \<and> (y = r \<or> (\<exists>k. y = (2 ^ k * r) mod 2 ^ 64))"

lemma round_out_step: "round_out cap ((2 * r) mod 2 ^ 64) y \<Longrightarrow> round_out cap r y"
proof -
  assume a: "round_out cap ((2 * r) mod 2 ^ 64) y"
  then obtain k where "cap \<le> y" and k: "y = (2 * r) mod 2 ^ 64 \<or> y = (2 ^ k * ((2 * r) mod 2 ^ 64)) mod 2 ^ 64"
    by (auto simp: round_out_def)
  have "2 ^ k * (2 * r) = 2 ^ Suc k * r" "2 * r = 2 ^ 1 * r"
    by simp_all
  with k have "y = (2 ^ 1 * r) mod 2 ^ 64 \<or> y = (2 ^ Suc k * r) mod 2 ^ 64"
    by (simp only: mod_mult_right_eq)
  with \<open>cap \<le> y\<close> show ?thesis
    unfolding round_out_def by blast
qed

lemma ring_round_result:
  assumes "ring_round cap r = Some y"
  shows "round_out cap r y"
proof (rule ring_round.raw_induct [OF _ assms])
  fix f :: "nat \<Rightarrow> nat \<Rightarrow> nat option" and cap r y
  assume IH: "\<And>cap r y. f cap r = Some y \<Longrightarrow> round_out cap r y"
    and step: "(if r < cap then f cap ((2 * r) mod 2 ^ 64) else Some r) = Some y"
  show "round_out cap r y"
  proof (cases "r < cap")
    case True
    then have "f cap ((2 * r) mod 2 ^ 64) = Some y"
      using step by (simp only: if_True)
    then show ?thesis
      by (rule round_out_step [OF IH])
  next
    case False
    then show ?thesis
      using step by (simp add: round_out_def)
  qed
qed

lemma ring_round_diverges:
  assumes "2 ^ 63 < cap"
  shows "ring_round cap 1 = None"
proof (rule ccontr)
  assume "ring_round cap 1 \<noteq> None"
  then obtain y where "round_out cap 1 y"
    using ring_round_result by blast
  then obtain k where y: "cap \<le> y" "y = 1 \<or> y = 2 ^ k mod 2 ^ 64"
    unfolding round_out_def by (metis mult.right_neutral)
  have "(2::nat) ^ k mod 2 ^ 64 \<le> 2 ^ 63"
  proof (cases "k \<le> 63")
    case True
    then have "(2::nat) ^ k \<le> 2 ^ 63"
      by (intro power_increasing) auto
    then show ?thesis
      using mod_less_eq_dividend order_trans by blast
  next
    case False
    then have "(2::nat) ^ 64 dvd 2 ^ k"
      by (intro le_imp_power_dvd) simp
    then show ?thesis
      by (simp add: dvd_imp_mod_0)
  qed
  with y assms show False
    by auto
qed

lemma ring_round_pow:
  assumes "cap \<le> 2 ^ 63" "i \<le> 63" "i = 0 \<or> 2 ^ (i - 1) < cap"
  obtains k where "ring_round cap (2 ^ i) = Some (2 ^ k)" "k \<le> 63" "cap \<le> 2 ^ k" "k = 0 \<or> 2 ^ (k - 1) < cap"
proof -
  have "\<exists>k. ring_round cap (2 ^ i) = Some (2 ^ k) \<and> k \<le> 63 \<and> cap \<le> 2 ^ k \<and> (k = 0 \<or> 2 ^ (k - 1) < cap)"
    using assms(2,3)
  proof (induction "63 - i" arbitrary: i)
    case 0
    then have "i = 63"
      by simp
    then show ?case
      using assms(1) 0 by (subst ring_round.simps) (auto intro!: exI [of _ 63])
  next
    case (Suc n)
    show ?case
    proof (cases "2 ^ i < cap")
      case True
      have i: "i < 63" "n = 63 - Suc i"
        using Suc(2) by auto
      then have "(2::nat) ^ Suc i < 2 ^ 64"
        by (intro power_strict_increasing) auto
      then have "ring_round cap (2 ^ i) = ring_round cap (2 ^ Suc i)"
        using True by (subst ring_round.simps) simp
      then show ?thesis
        using Suc(1) [of "Suc i"] i True by auto
    next
      case False
      then show ?thesis
        using Suc(3,4) by (subst ring_round.simps) (auto intro!: exI [of _ i])
    qed
  qed
  then show thesis
    using that by blast
qed

section \<open>The ring is a queue\<close>

lemma and_mask_mod: "n AND (2 ^ k - 1) = n mod (2 ^ k :: nat)"
  using take_bit_eq_mask [of k n] take_bit_eq_mod [of k n] by (simp add: mask_eq_exp_minus_1)

definition rqueue :: "cmem_ring_buffer \<Rightarrow> addr list" where
  "rqueue r = map (\<lambda>i. slots r ! (i mod capacity r)) [rhead r..<rtail r]"

definition ring_wf :: "cmem_ring_buffer \<Rightarrow> bool" where
  "ring_wf r \<longleftrightarrow> (\<exists>k \<le> 63. capacity r = 2 ^ k) \<and> rmask r = capacity r - 1 \<and> length (slots r) = capacity r
     \<and> rhead r \<le> rtail r \<and> rtail r - rhead r \<le> capacity r \<and> rtail r < 2 ^ 64"

lemma ring_index: "ring_wf r \<Longrightarrow> n AND rmask r = n mod capacity r"
  using and_mask_mod by (auto simp: ring_wf_def)

lemma ring_create_wf:
  assumes "0 < cap" "cap \<le> 2 ^ 63" "mp_ring_create True memalign sz cap = Some (Some r)"
  shows "ring_wf r" "\<exists>base > 0. rqueue r = map (\<lambda>i. base + i * sz) [0..<capacity r]" "cap \<le> capacity r"
    "capacity r < 2 * cap"
proof -
  obtain k where k: "ring_round cap (2 ^ 0) = Some (2 ^ k)" "k \<le> 63" "cap \<le> 2 ^ k" "k = 0 \<or> 2 ^ (k - 1) < cap"
    using ring_round_pow [of cap 0] assms(2) by auto
  let ?b = "memalign ((sz * 2 ^ k) mod 2 ^ 64)"
  have r: "?b \<noteq> 0" "r = \<lparr>slot_size = sz, capacity = 2 ^ k, rmask = 2 ^ k - 1, rhead = 0,
      rtail = 2 ^ k, slots = map (\<lambda>i. ?b + i * sz) [0..<2 ^ k]\<rparr>"
    using assms(1,3) k(1) by (auto simp: mp_ring_create_def Let_def split: if_splits)
  have "(2::nat) ^ k < 2 ^ 64"
    using k(2) by (intro power_strict_increasing) auto
  then show "ring_wf r"
    using k(2) by (auto simp: ring_wf_def r(2))
  have "rqueue r = map (\<lambda>i. ?b + i * sz) [0..<2 ^ k]"
    by (simp add: rqueue_def r(2))
  then show "\<exists>base > 0. rqueue r = map (\<lambda>i. base + i * sz) [0..<capacity r]"
    using r by auto
  show "cap \<le> capacity r"
    using k(3) by (simp add: r(2))
  show "capacity r < 2 * cap"
    using k(4) assms(1) by (cases k) (auto simp: r(2))
qed

lemma ring_alloc_wf:
  assumes "ring_wf r" "rqueue r = p # q"
  shows "\<exists>r'. mp_ring_alloc r = (r', p) \<and> ring_wf r' \<and> rqueue r' = q \<and> capacity r' = capacity r"
proof -
  have lt: "rhead r < rtail r"
    using assms(2) by (cases "rhead r < rtail r") (auto simp: rqueue_def)
  have e: "[rhead r..<rtail r] = rhead r # [Suc (rhead r)..<rtail r]"
    using lt by (rule upt_conv_Cons)
  have "p = slots r ! (rhead r mod capacity r)" "q = map (\<lambda>i. slots r ! (i mod capacity r)) [Suc (rhead r)..<rtail r]"
    using assms(2) unfolding rqueue_def e by auto
  moreover have "Suc (rhead r) < 2 ^ 64"
    using lt assms(1) by (simp add: ring_wf_def)
  ultimately show ?thesis
    using lt assms(1) ring_index [OF assms(1)]
    by (auto simp: mp_ring_alloc_def Let_def rqueue_def ring_wf_def)
qed

lemma ring_free_wf:
  assumes wf: "ring_wf r" and n: "length (rqueue r) < capacity r" "rtail r + 1 < 2 ^ 64" and p: "p \<noteq> 0"
  shows "\<exists>r'. mp_ring_free r p = (r', True) \<and> ring_wf r' \<and> rqueue r' = rqueue r @ [p] \<and> capacity r' = capacity r"
proof -
  let ?c = "capacity r" and ?t = "rtail r"
  have pos: "0 < ?c"
    using wf by (auto simp: ring_wf_def)
  have lt: "?t - rhead r < ?c" "rhead r \<le> ?t"
    using n(1) wf by (simp_all add: rqueue_def ring_wf_def)
  have ne: "i mod ?c \<noteq> ?t mod ?c" if "i \<in> set [rhead r..<?t]" for i
  proof
    assume e: "i mod ?c = ?t mod ?c"
    have "?c dvd ?t - i"
      using e that mod_eq_dvd_iff_nat [of i ?t ?c] by (simp add: eq_commute)
    then show False
      using that lt(1) by (auto dest: dvd_imp_le)
  qed
  define r' where "r' = r\<lparr>rtail := ?t + 1, slots := (slots r)[?t mod ?c := p]\<rparr>"
  have "mp_ring_free r p = (r', True)"
    using p n(2) ring_index [OF wf] by (simp add: mp_ring_free_def Let_def r'_def)
  moreover have "map (\<lambda>i. (slots r)[?t mod ?c := p] ! (i mod ?c)) [rhead r..<?t] = rqueue r"
    unfolding rqueue_def by (rule map_cong [OF refl]) (metis ne nth_list_update_neq)
  then have "rqueue r' = rqueue r @ [p]"
    using lt pos wf by (simp add: rqueue_def r'_def ring_wf_def)
  moreover have "ring_wf r'"
    using wf lt n(2) by (auto simp: ring_wf_def r'_def)
  ultimately show ?thesis
    by (auto simp: r'_def)
qed

text \<open>A history of a ring: \<open>q\<close> is the queue of free slots, \<open>out\<close> the slots clients hold.  Clients allocate
  only while a slot is free, return only what they hold, and the counters have not run through
  their \<open>2 ^ 64\<close> values yet.\<close>

inductive ring_run :: "cmem_ring_buffer \<Rightarrow> addr list \<Rightarrow> addr set \<Rightarrow> bool" where
  create: "0 < cap \<Longrightarrow> cap \<le> 2 ^ 63 \<Longrightarrow> 0 < sz \<Longrightarrow> mp_ring_create True memalign sz cap = Some (Some r)
    \<Longrightarrow> ring_run r (rqueue r) {}"
| alloc: "ring_run r (p # q) out \<Longrightarrow> mp_ring_alloc r = (r', p') \<Longrightarrow> ring_run r' q (insert p' out)"
| free: "ring_run r q out \<Longrightarrow> p \<in> out \<Longrightarrow> rtail r + 1 < 2 ^ 64 \<Longrightarrow> mp_ring_free r p = (r', b)
    \<Longrightarrow> ring_run r' (q @ [p]) (out - {p})"

lemma ring_run_inv:
  "ring_run r q out \<Longrightarrow> ring_wf r \<and> rqueue r = q \<and> distinct q \<and> set q \<inter> out = {} \<and> finite out
    \<and> length q + card out = capacity r \<and> 0 \<notin> set q \<union> out"
proof (induction rule: ring_run.induct)
  case (create cap sz memalign r)
  note W = ring_create_wf [OF create(1,2,4)]
  then obtain base where "0 < base" "rqueue r = map (\<lambda>i. base + i * sz) [0..<capacity r]"
    by blast
  then show ?case
    using W(1) create(3) by (auto simp: distinct_map inj_on_def)
next
  case (alloc r p q out r' p')
  then show ?case
    using ring_alloc_wf [of r p q] by auto
next
  case (free r q out p r' b)
  then have "0 < card out" "p \<noteq> 0"
    by (auto simp: card_gt_0_iff)
  then have "length (rqueue r) < capacity r"
    using free.IH by auto
  then show ?case
    using ring_free_wf [of r p] free \<open>p \<noteq> 0\<close> \<open>0 < card out\<close> by auto
qed


text \<open>Creation rounds the capacity up to the next power of two, below twice the request, for requests up
  to \<open>2 ^ 63\<close>; for larger ones the rounding loop never ends, because the doubled value wraps to
  zero.\<close>

theorem ring_create_capacity:
  assumes "0 < sz" "0 < cap"
  shows "if cap \<le> 2 ^ 63
    then mp_ring_create True memalign sz cap \<noteq> None
      \<and> (\<forall>r. mp_ring_create True memalign sz cap = Some (Some r) \<longrightarrow>
           cap \<le> capacity r \<and> capacity r < 2 * cap \<and> (\<exists>k. capacity r = 2 ^ k))
    else mp_ring_create True memalign sz cap = None"
proof (cases "cap \<le> 2 ^ 63")
  case True
  obtain k where "ring_round cap (2 ^ 0) = Some (2 ^ k)"
    using ring_round_pow [of cap 0] True by auto
  then have "mp_ring_create True memalign sz cap \<noteq> None"
    using assms by (simp add: mp_ring_create_def Let_def)
  moreover have "cap \<le> capacity r \<and> capacity r < 2 * cap \<and> (\<exists>k. capacity r = 2 ^ k)"
    if "mp_ring_create True memalign sz cap = Some (Some r)" for r
    using ring_create_wf [OF assms(2) True that] by (auto simp: ring_wf_def)
  ultimately show ?thesis
    using True by simp
next
  case False
  then show ?thesis
    using ring_round_diverges [of cap] assms by (simp add: mp_ring_create_def)
qed

text \<open>An allocation from an exhausted ring takes a ticket although it fails: when a slot comes back
  afterwards, the next allocation skips it and fails too, with a free slot in the ring.\<close>

theorem ring_failed_alloc_loses_slot:
  assumes "ring_run r [] out" "p \<in> out" "rtail r + 2 < 2 ^ 64"
    and "mp_ring_alloc r = (r1, p1)" "mp_ring_free r1 p = (r2, b)"
  shows "p1 = 0 \<and> b \<and> snd (mp_ring_alloc r2) = 0"
proof -
  have I: "ring_wf r" "rqueue r = []" "0 \<notin> out"
    using ring_run_inv [OF assms(1)] by auto
  have "p \<noteq> 0"
    using I(3) assms(2) by metis
  have "rhead r = rtail r"
    using I(1,2) by (auto simp: rqueue_def ring_wf_def)
  then show ?thesis
    using assms(3-5) \<open>p \<noteq> 0\<close> by (auto simp: mp_ring_alloc_def mp_ring_free_def Let_def)
qed

text \<open>Consuming from the event log does not give back what was recorded: recording takes a free slot from
  the ring and consuming takes the next one, so the entry answered is whatever that slot held before
  the event was recorded.\<close>

theorem event_log_consume_stale:
  assumes "ring log = Some r" "ring_run r (p # p' # q) out" "mp_event_log_record now log ty ptr sz = (log1, ok)"
  shows "ok \<and> snd (mp_event_log_consume log1) = Some (buffer log p')"
proof -
  have I: "ring_wf r" "rqueue r = p # p' # q" "0 \<notin> set (p # p' # q)" "p \<noteq> p'"
    using ring_run_inv [OF assms(2)] by auto
  obtain r1 where r1: "mp_ring_alloc r = (r1, p)" "ring_wf r1" "rqueue r1 = p' # q"
    using ring_alloc_wf [OF I(1,2)] by auto
  obtain r2 where r2: "mp_ring_alloc r1 = (r2, p')"
    using ring_alloc_wf [OF r1(2,3)] by auto
  show ?thesis
    using assms(1,3) I(3,4) r1(1) r2 by (auto simp: mp_event_log_record_def mp_event_log_consume_def Let_def)
qed

section \<open>The typed pool is a stack\<close>

lemma typed_link_eq:
  assumes "0 < esz"
  shows "typed_link base esz i n m x =
    (if \<exists>j. i \<le> j \<and> j < i + n \<and> x = base + j * esz then x + esz else m x)"
proof (induction n arbitrary: i m)
  case (Suc n)
  let ?P = "\<lambda>i n. \<exists>j. i \<le> j \<and> j < i + n \<and> x = base + j * esz"
  have split: "?P i (Suc n) \<longleftrightarrow> x = base + i * esz \<or> ?P (Suc i) n"
    by (metis Suc_leD Suc_leI add_Suc add_Suc_right le_eq_less_or_eq less_add_Suc1)
  have "typed_link base esz i (Suc n) m x =
      (if ?P (Suc i) n then x + esz else (m(base + i * esz := base + (i + 1) * esz)) x)"
    unfolding typed_link.simps Suc_eq_plus1 [symmetric] by (rule Suc.IH)
  also have "\<dots> = (if ?P i (Suc n) then x + esz else m x)"
    unfolding split by (auto simp: algebra_simps)
  finally show ?case .
qed auto

lemma mchain_stride:
  assumes "0 < base" "i \<le> n" "\<And>j. i \<le> j \<Longrightarrow> j < n \<Longrightarrow> nx (base + j * e) = (if Suc j < n then base + Suc j * e else 0)"
  shows "mchain nx (if i < n then base + i * e else 0) (map (\<lambda>j. base + j * e) [i..<n])"
  using assms(2,3)
proof (induction "n - i" arbitrary: i)
  case (Suc k)
  then have "i < n" "k = n - Suc i"
    by auto
  moreover have "mchain nx (if Suc i < n then base + Suc i * e else 0) (map (\<lambda>j. base + j * e) [Suc i..<n])"
    using Suc(1) [of "Suc i"] Suc(4) calculation by auto
  ultimately show ?case
    using Suc(4) [of i] assms(1) by (simp add: upt_conv_Cons)
qed simp

text \<open>A history of a typed pool over the objects \<open>base + i * esz\<close>; clients may overwrite what they hold.\<close>

inductive typed_run :: "addr \<Rightarrow> nat \<Rightarrow> nat \<Rightarrow> mp_typed_pool \<Rightarrow> addr list \<Rightarrow> addr set \<Rightarrow> bool" where
  create: "mp_typed_pool_create True memalign mem n cap = Some tp \<Longrightarrow> n + 7 < 2 ^ 64 \<Longrightarrow> cap < 2 ^ 64
    \<Longrightarrow> typed_run (raw_buf tp) (telem_size tp) cap tp (map (\<lambda>i. raw_buf tp + i * telem_size tp) [0..<cap]) {}"
| alloc: "typed_run base esz cap tp (p # F) A \<Longrightarrow> mp_typed_alloc tp = (tp', p') \<Longrightarrow> typed_run base esz cap tp' F (insert p' A)"
| free: "typed_run base esz cap tp F A \<Longrightarrow> p \<in> A \<Longrightarrow> typed_run base esz cap (mp_typed_free tp p) (p # F) (A - {p})"
| overwrite: "typed_run base esz cap tp F A \<Longrightarrow> p \<in> A
    \<Longrightarrow> typed_run base esz cap (tp\<lparr>tmem := (tmem tp)(p := v)\<rparr>) F A"

definition typed_objects :: "addr \<Rightarrow> nat \<Rightarrow> nat \<Rightarrow> addr set" where
  "typed_objects base esz cap = (\<lambda>i. base + i * esz) ` {..<cap}"

definition typed_inv :: "addr \<Rightarrow> nat \<Rightarrow> nat \<Rightarrow> mp_typed_pool \<Rightarrow> addr list \<Rightarrow> addr set \<Rightarrow> bool" where
  "typed_inv base esz cap tp F A \<longleftrightarrow> mchain (tmem tp) (tfree_list tp) F \<and> distinct F \<and> set F \<inter> A = {}
     \<and> set F \<union> A = typed_objects base esz cap \<and> finite A \<and> active_count tp = card A \<and> 0 < base
     \<and> length F + card A = cap \<and> cap < 2 ^ 64"

lemma typed_create_inv:
  assumes "mp_typed_pool_create True memalign mem n cap = Some tp" "n + 7 < 2 ^ 64" "cap < 2 ^ 64"
  shows "typed_inv (raw_buf tp) (telem_size tp) cap tp (map (\<lambda>i. raw_buf tp + i * telem_size tp) [0..<cap]) {}"
proof -
  define e where "e = align_up8 (if n < 8 then 8 else n)"
  define b where "b = memalign ((e * cap) mod 2 ^ 64)"
  have "8 \<le> e"
    using align_up8_bounds(1) [of 8] align_up8_bounds(1) [of n] assms(2) by (auto simp: e_def)
  then have e: "0 < e"
    by simp
  have c: "0 < cap" "0 < b" and tp: "tp = \<lparr>telem_size = e, tcapacity = cap, active_count = 0, tfree_list = b, raw_buf = b,
      tmem = (typed_link b e 0 (cap - 1) mem)(b + (cap - 1) * e := 0)\<rparr>"
    using assms(1) by (auto simp: mp_typed_pool_create_def e_def b_def Let_def split: if_splits)
  have "mchain (tmem tp) (if 0 < cap then b + 0 * e else 0) (map (\<lambda>j. b + j * e) [0..<cap])"
  proof (rule mchain_stride [OF c(2)])
    show "tmem tp (b + j * e) = (if Suc j < cap then b + Suc j * e else 0)" if "j < cap" for j
    proof (cases "Suc j < cap")
      case True
      then have "b + j * e \<noteq> b + (cap - 1) * e" "\<exists>i. 0 \<le> i \<and> i < 0 + (cap - 1) \<and> b + j * e = b + i * e"
        using e by (auto intro!: exI [of _ j])
      then show ?thesis
        using True by (simp add: tp typed_link_eq [OF e] add.commute [of e])
    next
      case False
      then have "j = cap - 1"
        using that by simp
      then show ?thesis
        using False by (simp add: tp)
    qed
  qed simp
  then show ?thesis
    using c e assms(3) by (auto simp: typed_inv_def tp typed_objects_def distinct_map inj_on_def image_iff)
qed

lemma typed_run_inv: "typed_run base esz cap tp F A \<Longrightarrow> typed_inv base esz cap tp F A"
proof (induction rule: typed_run.induct)
  case (create memalign mem n cap tp)
  then show ?case
    using typed_create_inv by blast
next
  case (alloc base esz cap tp p F A tp' p')
  then have "tfree_list tp = p" "p \<noteq> 0" "mchain (tmem tp) (tmem tp p) F" "p \<notin> A" "finite A" "active_count tp = card A"
      "card A < 2 ^ 64 - 1"
    by (auto simp: typed_inv_def)
  then show ?case
    using alloc by (auto simp: typed_inv_def mp_typed_alloc_def Let_def)
next
  case (free base esz cap tp F A p)
  have A: "finite A" "p \<notin> set F" "0 < card A" "active_count tp = card A" "card (A - {p}) = card A - 1"
    using free by (auto simp: typed_inv_def card_gt_0_iff)
  have "p \<in> typed_objects base esz cap" "0 < base"
    using free by (auto simp: typed_inv_def)
  then have "p \<noteq> 0"
    by (auto simp: typed_objects_def)
  then show ?case
    using free A by (auto simp: typed_inv_def mp_typed_free_def Let_def)
next
  case (overwrite base esz cap tp F A p v)
  then have "p \<notin> set F"
    by (auto simp: typed_inv_def)
  then show ?case
    using overwrite by (simp add: typed_inv_def)
qed

text \<open>The typed pool hands out each of its \<open>cap\<close> objects to at most one client at a time, last freed
  first, refuses exactly when all are out, counts them exactly, and every object lies inside the
  buffer at a multiple of the element size.\<close>

theorem typed_pool_stack:
  assumes "typed_run base esz cap tp F A"
  shows "(case F of [] \<Rightarrow> mp_typed_alloc tp = (tp, 0) | p # F' \<Rightarrow> snd (mp_typed_alloc tp) = p \<and> p \<notin> A)
    \<and> length F + card A = cap \<and> active_count tp = card A
    \<and> set F \<union> A = (\<lambda>i. base + i * esz) ` {..<cap}"
  using typed_run_inv [OF assms]
  by (cases F) (auto simp: typed_inv_def mp_typed_alloc_def Let_def typed_objects_def)

section \<open>Concrete rings and pools\<close>

definition ex_ring :: cmem_ring_buffer where
  "ex_ring = \<lparr>slot_size = 16, capacity = 2, rmask = 1, rhead = 0, rtail = 2, slots = [4096, 4112]\<rparr>"

lemma ex_ring_create: "mp_ring_create True (\<lambda>_. 4096) 16 2 = Some (Some ex_ring)"
proof -
  have "ring_round 2 1 = Some 2"
    by (subst ring_round.simps, simp, subst ring_round.simps, simp)
  then show ?thesis
    by (simp add: mp_ring_create_def Let_def ex_ring_def upt_rec)
qed

lemma ex_ring_run: "ring_run ex_ring [4096, 4112] {}" "rqueue ex_ring = [4096, 4112]"
proof -
  show q: "rqueue ex_ring = [4096, 4112]"
    by (simp add: rqueue_def ex_ring_def upt_rec)
  show "ring_run ex_ring [4096, 4112] {}"
    using ring_run.create [OF _ _ _ ex_ring_create] q by simp
qed

lemma ex_ring_empty: "ring_run (ex_ring\<lparr>rhead := 2\<rparr>) [] {4096, 4112}"
proof -
  have "mp_ring_alloc ex_ring = (ex_ring\<lparr>rhead := 1\<rparr>, 4096)"
    "mp_ring_alloc (ex_ring\<lparr>rhead := 1\<rparr>) = (ex_ring\<lparr>rhead := 2\<rparr>, 4112)"
    by (simp_all add: mp_ring_alloc_def ex_ring_def Let_def)
  from ring_run.alloc [OF ring_run.alloc [OF ex_ring_run(1) this(1)] this(2)] show ?thesis
    by (simp add: insert_commute)
qed


theorem ring_create_capacity_witness: "2 \<le> capacity ex_ring \<and> mp_ring_create True (\<lambda>_. 4096) 16 (2 ^ 63 + 1) = None"
  using ring_create_capacity [of 16 2 "\<lambda>_. 4096"] ring_create_capacity [of 16 "2 ^ 63 + 1" "\<lambda>_. 4096"]
    ex_ring_create by simp

theorem ring_failed_alloc_loses_slot_witness:
  "snd (mp_ring_alloc (fst (mp_ring_free (fst (mp_ring_alloc (ex_ring\<lparr>rhead := 2\<rparr>))) 4096))) = 0"
  using ring_failed_alloc_loses_slot [OF ex_ring_empty, of 4096, OF _ _ prod.collapse [symmetric] prod.collapse [symmetric]]
  by (simp add: ex_ring_def)

definition ex_log :: mp_event_log where
  "ex_log = \<lparr>ring = Some ex_ring, log_capacity = 2, log_count = 0,
     buffer = (\<lambda>_. \<lparr>timestamp_ns = 0, event_type = 0, esize = 0, eptr = 0\<rparr>)\<rparr>"

theorem event_log_consume_stale_witness:
  "snd (mp_event_log_consume (fst (mp_event_log_record (1, 2) ex_log 3 4 5)))
    = Some \<lparr>timestamp_ns = 0, event_type = 0, esize = 0, eptr = 0\<rparr>"
  using event_log_consume_stale [OF _ ex_ring_run(1) prod.collapse [symmetric], of ex_log "(1, 2)" 3 4 5]
  by (simp add: ex_log_def)

lemma ex_typed: "\<exists>tp. mp_typed_pool_create True (\<lambda>_. 4096) (\<lambda>_. 0) 12 3 = Some tp \<and> raw_buf tp = 4096 \<and> telem_size tp = 16"
  using align_up8_eq [of 12] by (simp add: mp_typed_pool_create_def Let_def)

theorem typed_pool_stack_witness:
  "\<exists>tp. mp_typed_pool_create True (\<lambda>_. 4096) (\<lambda>_. 0) 12 3 = Some tp \<and> snd (mp_typed_alloc tp) = 4096"
proof -
  obtain tp where tp: "mp_typed_pool_create True (\<lambda>_. 4096) (\<lambda>_. 0) 12 3 = Some tp" "raw_buf tp = 4096" "telem_size tp = 16"
    using ex_typed by blast
  then have "typed_run 4096 16 3 tp [4096, 4112, 4128] {}"
    using typed_run.create [OF tp(1)] by (simp add: upt_rec)
  from typed_pool_stack [OF this] tp(1) show ?thesis
    by auto
qed

end
