(* ===== verification/C_String.thy ===== *)
theory C_String
  imports Main "HOL-Library.Sublist"
begin

text \<open>
  What the program uses of the C string library, on strings without their terminating zero:
  \<open>strtol\<close> in base ten, \<open>strstr\<close>, the \<open>%zu\<close>/\<open>%d\<close> conversions and the truncation of \<open>snprintf\<close>.
  Shown: printing a number and reading it back gives the number and the text that followed.
\<close>

section \<open>Numbers\<close>

definition is_digit :: "char \<Rightarrow> bool" where
  "is_digit c \<longleftrightarrow> 48 \<le> (of_char c :: nat) \<and> (of_char c :: nat) \<le> 57"

definition is_space :: "char \<Rightarrow> bool" where
  "is_space c \<longleftrightarrow> (of_char c :: nat) = 32 \<or> 9 \<le> (of_char c :: nat) \<and> (of_char c :: nat) \<le> 13"

definition digit_val :: "char \<Rightarrow> nat" where
  "digit_val c = of_char c - 48"

definition digit_char :: "nat \<Rightarrow> char" where
  "digit_char d = char_of (48 + d)"

definition LONG_MAX :: int where "LONG_MAX = 2 ^ 63 - 1"
definition LONG_MIN :: int where "LONG_MIN = - (2 ^ 63)"

definition digits_val :: "string \<Rightarrow> nat" where
  "digits_val ds = foldl (\<lambda>n c. 10 * n + digit_val c) 0 ds"

text \<open>Value and rest of the string; \<open>None\<close> when there is no number, that is \<open>end == cursor\<close>.\<close>

definition strtol :: "string \<Rightarrow> (int \<times> string) option" where
  "strtol s =
     (let t = dropWhile is_space s;
          neg = (case t of CHR ''-'' # _ \<Rightarrow> True | _ \<Rightarrow> False);
          u = (case t of c # t' \<Rightarrow> if c = CHR ''-'' \<or> c = CHR ''+'' then t' else t | [] \<Rightarrow> t);
          ds = takeWhile is_digit u;
          v = int (digits_val ds)
      in if ds = [] then None
         else Some (if neg then max LONG_MIN (- v) else min LONG_MAX v, dropWhile is_digit u))"

text \<open>Conversion of a \<open>long\<close> to an \<open>int\<close>.\<close>

definition to_int32 :: "int \<Rightarrow> int" where
  "to_int32 v = (v + 2 ^ 31) mod 2 ^ 32 - 2 ^ 31"

fun dec :: "nat \<Rightarrow> string" where
  "dec n = (if n < 10 then [digit_char n] else dec (n div 10) @ [digit_char (n mod 10)])"

declare dec.simps [simp del]

definition dec_int :: "int \<Rightarrow> string" where
  "dec_int i = (if i < 0 then ''-'' @ dec (nat (- i)) else dec (nat i))"

section \<open>Searching and formatting\<close>

definition strstr :: "string \<Rightarrow> string \<Rightarrow> bool" where
  "strstr hay needle = sublist needle hay"

text \<open>Contents of a buffer of \<open>n\<close> bytes after \<open>snprintf\<close> of the text (without the zero), and the
  number \<open>snprintf\<close> returns.\<close>

definition snprintf_buf :: "nat \<Rightarrow> string \<Rightarrow> string" where
  "snprintf_buf n text = take (n - 1) text"

section \<open>Laws\<close>

lemma digit_char_props:
  assumes "d < 10"
  shows "is_digit (digit_char d)" "digit_val (digit_char d) = d"
  using assms by (simp_all add: is_digit_def digit_val_def digit_char_def)

lemma dec_digits: "list_all is_digit (dec n)" "dec n \<noteq> []"
proof (induction n rule: dec.induct)
  case (1 n)
  {
    case 1
    then show ?case
      using "1.IH"(1) by (subst dec.simps) (simp add: digit_char_props)
  next
    case 2
    then show ?case
      by (subst dec.simps) simp
  }
qed

lemma digits_val_snoc: "digits_val (ds @ [c]) = 10 * digits_val ds + digit_val c"
  by (simp add: digits_val_def)

lemma digits_val_dec: "digits_val (dec n) = n"
proof (induction n rule: dec.induct)
  case (1 n)
  show ?case
  proof (cases "n < 10")
    case True
    then show ?thesis
      by (subst dec.simps) (simp add: digits_val_def digit_char_props)
  next
    case False
    then show ?thesis
      using 1 by (subst dec.simps) (simp add: digits_val_snoc digit_char_props)
  qed
qed

lemma digit_not_special:
  assumes "is_digit c"
  shows "\<not> is_space c" "c \<noteq> CHR ''-''" "c \<noteq> CHR ''+''" "c \<noteq> CHR '',''"
  using assms by (auto simp: is_digit_def is_space_def)

lemma strtol_dec:
  assumes "int n \<le> LONG_MAX" "rest = [] \<or> \<not> is_digit (hd rest)"
  shows "strtol (dec n @ rest) = Some (int n, rest)"
proof -
  obtain c ds where d: "dec n = c # ds"
    using dec_digits(2) by (cases "dec n") auto
  have all: "\<forall>x \<in> set (dec n). is_digit x"
    using dec_digits(1) by (simp add: list_all_iff)
  then have c: "\<not> is_space c" "c \<noteq> CHR ''-''" "c \<noteq> CHR ''+''"
    using digit_not_special [of c] d by simp_all
  have tw: "takeWhile is_digit (dec n @ rest) = dec n" "dropWhile is_digit (dec n @ rest) = rest"
    using all assms(2) by (cases rest; simp add: takeWhile_append dropWhile_append)+
  have "dropWhile is_space (dec n @ rest) = dec n @ rest"
    using c by (simp add: d)
  moreover have "(case dec n @ rest of CHR ''-'' # _ \<Rightarrow> True | _ \<Rightarrow> False) = False"
    using c(2) by (simp add: d split: char.splits bool.splits)
  moreover have "(case dec n @ rest of c # t' \<Rightarrow> if c = CHR ''-'' \<or> c = CHR ''+'' then t' else dec n @ rest
      | [] \<Rightarrow> dec n @ rest) = dec n @ rest"
    using c by (simp add: d)
  ultimately show ?thesis
    using tw dec_digits(2) assms(1) by (simp add: strtol_def Let_def digits_val_dec)
qed

lemma to_int32_id: "- (2 ^ 31) \<le> v \<Longrightarrow> v < 2 ^ 31 \<Longrightarrow> to_int32 v = v"
  by (simp add: to_int32_def)

lemma strtol_shrinks: "strtol s = Some (v, rest) \<Longrightarrow> length rest < length s"
proof -
  assume s: "strtol s = Some (v, rest)"
  define t u where "t = dropWhile is_space s"
    and "u = (case t of c # t' \<Rightarrow> if c = CHR ''-'' \<or> c = CHR ''+'' then t' else t | [] \<Rightarrow> t)"
  have ne: "takeWhile is_digit u \<noteq> []" and r: "rest = dropWhile is_digit u"
    using s by (auto simp: strtol_def Let_def t_def [symmetric] u_def [symmetric] split: if_splits)
  have "length (takeWhile is_digit u) + length rest = length u"
    unfolding r by (metis length_append takeWhile_dropWhile_id)
  moreover have "length u \<le> length t"
    by (auto simp: u_def split: list.splits)
  moreover have "length t \<le> length s"
    by (simp add: t_def length_dropWhile_le)
  ultimately show ?thesis
    using ne by (cases "takeWhile is_digit u") auto
qed

end
