(* ===== verification/Numa_Topology.thy ===== *)
theory Numa_Topology
  imports C_String
begin

text \<open>
  CPU and NUMA topology of \<open>src/src/cmem_sys.c\<close>: the cached CPU number, the parser for sysfs id lists,
  the probe that builds the map from CPUs to nodes, and its queries.

  The file system enters as the function \<open>fgets_of path n\<close>: the first line of the file as \<open>fgets\<close> with
  a buffer of \<open>n\<close> bytes returns it (so with its newline), \<open>None\<close> when the file cannot be read.

  The parser does not advance past the last number of its input.  A list that ends there is read
  again and again until the output array is full, and a list that ends in a newline, as sysfs files
  do, is rejected.  Both facts are proved below, with their effect on the probe.
\<close>

section \<open>CPU cache\<close>

record cpu_cache =
  cached_cpu :: int
  refresh_countdown :: int

definition CMEM_CPU_CACHE_REFRESH :: int where "CMEM_CPU_CACHE_REFRESH = 8192"

text \<open>\<open>getcpu\<close> is the answer of the system call, \<open>None\<close> on failure.\<close>

definition cmem_current_cpu :: "int option \<Rightarrow> cpu_cache \<Rightarrow> cpu_cache \<times> int" where
  "cmem_current_cpu getcpu c =
     (let c = (if cached_cpu c < 0 \<or> refresh_countdown c = 0
               then let cpu = (case getcpu of None \<Rightarrow> 0 | Some v \<Rightarrow> v)
                    in \<lparr>cached_cpu = (if cpu < 0 then 0 else cpu), refresh_countdown = CMEM_CPU_CACHE_REFRESH\<rparr>
               else c);
          c = c\<lparr>refresh_countdown := refresh_countdown c - 1\<rparr>
      in (c, cached_cpu c))"

section \<open>Id lists\<close>

definition CMEM_MAX_NUMA_NODES :: nat where "CMEM_MAX_NUMA_NODES = 64"
definition CMEM_MAX_CPUS :: nat where "CMEM_MAX_CPUS = 1024"

text \<open>One number or range: the ids it stands for, where the cursor is left, and what follows.\<close>

definition idlist_item :: "string \<Rightarrow> (int list \<times> string \<times> string) option" where
  "idlist_item cursor =
     (case strtol cursor of
        None \<Rightarrow> None
      | Some (first, e) \<Rightarrow>
          (case (if e \<noteq> [] \<and> hd e = CHR ''-''
                 then map_option (\<lambda>(last_id, e'). (last_id, tl e, e')) (strtol (tl e))
                 else Some (first, cursor, e)) of
             None \<Rightarrow> None
           | Some (last_id, cursor', e') \<Rightarrow>
               if first < 0 \<or> last_id < first then None else Some ([first..last_id], cursor', e')))"

text \<open>The test for an empty range only serves termination: \<open>idlist_item\<close> never answers one
  (\<open>idlist_item_nonempty\<close>).\<close>

function idlist_loop :: "string \<Rightarrow> int list \<Rightarrow> nat \<Rightarrow> int list option" where
  "idlist_loop cursor ids max_ids =
     (if cursor \<noteq> [] \<and> length ids < max_ids
      then (case idlist_item cursor of
              None \<Rightarrow> None
            | Some (vs, cursor', e) \<Rightarrow>
                if vs = [] then None
                else let ids' = ids @ map to_int32 (take (max_ids - length ids) vs)
                     in if e \<noteq> [] \<and> hd e = CHR '','' then idlist_loop (tl e) ids' max_ids
                        else if e \<noteq> [] then None
                        else idlist_loop cursor' ids' max_ids)
      else Some ids)"
  by pat_completeness auto
termination
  by (relation "measure (\<lambda>(cursor, ids, max_ids). max_ids - length ids)") (auto simp: min_def neq_Nil_conv)

declare idlist_loop.simps [simp del]

definition cmem_parse_idlist :: "string \<Rightarrow> nat \<Rightarrow> int list option" where
  "cmem_parse_idlist list max_ids = idlist_loop list [] max_ids"

lemma idlist_item_nonempty: "idlist_item c = Some (vs, c', e) \<Longrightarrow> vs \<noteq> []"
  by (auto simp: idlist_item_def split: option.splits if_splits)

section \<open>Topology\<close>

record cmem_numa_topology =
  node_count :: nat
  cpu_count :: nat
  cpu_to_node :: "int list option"

definition node_path :: "int \<Rightarrow> string" where
  "node_path node = ''/sys/devices/system/node/node'' @ dec_int node @ ''/cpulist''"

fun assign_cpus :: "int \<Rightarrow> int list \<Rightarrow> int list \<Rightarrow> int list" where
  "assign_cpus node [] table = table"
| "assign_cpus node (cpu # rest) table =
     assign_cpus node rest (if 0 \<le> cpu \<and> cpu < int (length table) then table[nat cpu := node] else table)"

fun assign_nodes :: "(string \<Rightarrow> nat \<Rightarrow> string option) \<Rightarrow> int list \<Rightarrow> int list \<Rightarrow> int list" where
  "assign_nodes fgets_of [] table = table"
| "assign_nodes fgets_of (node # rest) table =
     assign_nodes fgets_of rest
       (if 64 \<le> length (node_path node) then table
        else (case fgets_of (node_path node) 1024 of
                None \<Rightarrow> table
              | Some line \<Rightarrow> (case cmem_parse_idlist line CMEM_MAX_CPUS of
                  None \<Rightarrow> table
                | Some cpus \<Rightarrow> assign_cpus node cpus table)))"

text \<open>\<open>table_ok\<close>: whether the table could be allocated.\<close>

definition cmem_numa_probe :: "bool \<Rightarrow> (string \<Rightarrow> nat \<Rightarrow> string option) \<Rightarrow> cmem_numa_topology" where
  "cmem_numa_probe table_ok fgets_of =
     (let unknown = (\<lambda>n. \<lparr>node_count = n, cpu_count = 0, cpu_to_node = None\<rparr>)
      in case fgets_of ''/sys/devices/system/node/online'' 256 of
           None \<Rightarrow> unknown 1
         | Some node_list \<Rightarrow>
            (case cmem_parse_idlist node_list CMEM_MAX_NUMA_NODES of
               None \<Rightarrow> unknown 1
             | Some [] \<Rightarrow> unknown 1
             | Some node_ids \<Rightarrow>
                (case fgets_of ''/sys/devices/system/cpu/possible'' 1024 of
                   None \<Rightarrow> unknown (length node_ids)
                 | Some cpu_list \<Rightarrow>
                    (case cmem_parse_idlist cpu_list CMEM_MAX_CPUS of
                       None \<Rightarrow> unknown (length node_ids)
                     | Some [] \<Rightarrow> unknown (length node_ids)
                     | Some cpu_ids \<Rightarrow>
                        if \<not> table_ok then unknown (length node_ids)
                        else \<lparr>node_count = length node_ids, cpu_count = length cpu_ids,
                              cpu_to_node = Some (assign_nodes fgets_of node_ids (replicate (length cpu_ids) 0))\<rparr>))))"

definition cmem_numa_node_count :: "cmem_numa_topology \<Rightarrow> nat" where
  "cmem_numa_node_count topo = (if 0 < node_count topo then node_count topo else 1)"

definition cmem_cpu_to_node :: "cmem_numa_topology \<Rightarrow> int \<Rightarrow> int" where
  "cmem_cpu_to_node topo cpu =
     (if cpu < 0 then 0
      else case cpu_to_node topo of
             None \<Rightarrow> 0
           | Some table \<Rightarrow> if int (cpu_count topo) \<le> cpu then 0 else table ! nat cpu)"

definition cmem_numa_current_node :: "cmem_numa_topology \<Rightarrow> int option \<Rightarrow> int" where
  "cmem_numa_current_node topo getcpu =
     (let cpu = (case getcpu of None \<Rightarrow> 0 | Some v \<Rightarrow> v)
      in if cpu < 0 then -1 else cmem_cpu_to_node topo cpu)"

section \<open>What the parser does\<close>

lemma idlist_item_dec:
  assumes "int n \<le> LONG_MAX" "rest = [] \<or> \<not> is_digit (hd rest) \<and> hd rest \<noteq> CHR ''-''"
  shows "idlist_item (dec n @ rest) = Some ([int n], dec n @ rest, rest)"
  using strtol_dec [of n rest] assms by (auto simp: idlist_item_def)

text \<open>Ids that are each followed by a comma are read as meant.\<close>

lemma idlist_commas:
  assumes "\<forall>n \<in> set ns. n < 2 ^ 31" "length ids + length ns \<le> k"
  shows "idlist_loop (concat (map (\<lambda>n. dec n @ '','') ns)) ids k = Some (ids @ map int ns)"
  using assms
proof (induction ns arbitrary: ids)
  case Nil
  then show ?case
    by (subst idlist_loop.simps) simp
next
  case (Cons n ns)
  let ?rest = "concat (map (\<lambda>n. dec n @ '','') ns)"
  have n: "int n \<le> LONG_MAX" "to_int32 (int n) = int n"
    using Cons.prems(1) to_int32_id [of "int n"] by (auto simp: LONG_MAX_def)
  have "idlist_item (dec n @ CHR '','' # ?rest) = Some ([int n], dec n @ CHR '','' # ?rest, CHR '','' # ?rest)"
    using idlist_item_dec [OF n(1), of "CHR '','' # ?rest"] by (simp add: is_digit_def)
  then have "idlist_loop (dec n @ CHR '','' # ?rest) ids k = idlist_loop ?rest (ids @ [int n]) k"
    using Cons.prems(2) n(2) by (subst idlist_loop.simps) (simp add: take_Cons')
  then show ?case
    using Cons.IH [of "ids @ [int n]"] Cons.prems by simp
qed

text \<open>A number at the end of the list is read again until the array is full.\<close>

lemma idlist_repeats:
  assumes "n < 2 ^ 31" "length ids \<le> k"
  shows "idlist_loop (dec n) ids k = Some (ids @ replicate (k - length ids) (int n))"
  using assms(2)
proof (induction "k - length ids" arbitrary: ids)
  case 0
  then show ?case
    by (subst idlist_loop.simps) simp
next
  case (Suc m)
  have n: "int n \<le> LONG_MAX" "to_int32 (int n) = int n"
    using assms(1) to_int32_id [of "int n"] by (auto simp: LONG_MAX_def)
  have k: "length ids < k" "m = k - length (ids @ [int n])" "k - length ids = Suc (k - Suc (length ids))"
    using Suc(2) by auto
  then have "idlist_loop (dec n) ids k = idlist_loop (dec n) (ids @ [int n]) k"
    using idlist_item_dec [OF n(1), of "[]"] n(2) dec_digits(2) [of n]
    by (subst idlist_loop.simps) (simp add: take_Cons')
  then show ?case
    using Suc(1) [OF k(2)] k by simp
qed

text \<open>Text that ends in a newline.\<close>

lemma dropWhile_last: "s \<noteq> [] \<Longrightarrow> \<not> P (last s) \<Longrightarrow> dropWhile P s \<noteq> [] \<and> last (dropWhile P s) = last s"
  by (induction s) auto

lemma strtol_last:
  assumes "strtol s = Some (v, rest)" "s \<noteq> []" "\<not> is_digit (last s)"
  shows "rest \<noteq> [] \<and> last rest = last s"
proof -
  define t u where "t = dropWhile is_space s"
    and "u = (case t of c # t' \<Rightarrow> if c = CHR ''-'' \<or> c = CHR ''+'' then t' else t | [] \<Rightarrow> t)"
  have ne: "takeWhile is_digit u \<noteq> []" and r: "rest = dropWhile is_digit u"
    using assms(1) by (auto simp: strtol_def Let_def t_def [symmetric] u_def [symmetric] split: if_splits)
  have "u \<noteq> []"
    using ne by auto
  then have "t \<noteq> []" "last u = last t"
    by (auto simp: u_def split: list.splits if_splits)
  moreover have "last t = last s"
    using \<open>t \<noteq> []\<close> unfolding t_def by (metis dropWhile_eq_drop last_drop drop_eq_Nil not_le)
  ultimately show ?thesis
    using dropWhile_last [of u is_digit] \<open>u \<noteq> []\<close> assms(3) by (simp add: r)
qed

lemma idlist_newline:
  assumes "cursor \<noteq> []" "last cursor = CHR 0x0A" "length ids \<le> k" "idlist_loop cursor ids k = Some out"
  shows "length out = k"
  using assms
proof (induction cursor ids k rule: idlist_loop.induct)
  case (1 cursor ids k)
  have nl: "\<not> is_digit (CHR 0x0A)"
    by (simp add: is_digit_def)
  show ?case
  proof (cases "length ids < k")
    case False
    then show ?thesis
      using 1(5,6) idlist_loop.simps [of cursor ids k] by simp
  next
    case True
    then obtain vs c' e where item: "idlist_item cursor = Some (vs, c', e)"
      using 1(3,6) idlist_loop.simps [of cursor ids k] by (auto split: option.splits if_splits)
    have e: "e \<noteq> [] \<and> last e = CHR 0x0A"
    proof -
      obtain first e1 where s1: "strtol cursor = Some (first, e1)"
        using item by (auto simp: idlist_item_def split: option.splits)
      have e1: "e1 \<noteq> []" "last e1 = CHR 0x0A"
        using strtol_last [OF s1 1(3)] 1(4) nl by auto
      show ?thesis
      proof (cases "hd e1 = CHR ''-''")
        case True
        then have "tl e1 \<noteq> []" "last (tl e1) = CHR 0x0A"
          using e1 by (cases e1; auto split: if_splits)+
        moreover obtain last' where "strtol (tl e1) = Some (last', e)"
          using item s1 True e1 by (auto simp: idlist_item_def split: option.splits if_splits)
        ultimately show ?thesis
          using strtol_last [of "tl e1" last' e] nl by auto
      next
        case False
        then have "e = e1"
          using item s1 by (auto simp: idlist_item_def split: if_splits)
        then show ?thesis
          using e1 by simp
      qed
    qed
    let ?ids = "ids @ map to_int32 (take (k - length ids) vs)"
    have "hd e = CHR '',''" and rec: "idlist_loop (tl e) ?ids k = Some out"
      using 1(3,6) True item e idlist_item_nonempty [OF item] idlist_loop.simps [of cursor ids k]
      by (auto simp: Let_def split: if_splits)
    then have "tl e \<noteq> []" "last (tl e) = CHR 0x0A"
      using e by (cases e; auto split: if_splits)+
    moreover have "cursor \<noteq> [] \<and> length ids < k" "length ?ids \<le> k"
      using 1(3) True by auto
    ultimately show ?thesis
      using 1(1) [OF _ item refl refl] rec \<open>hd e = CHR '',''\<close> e idlist_item_nonempty [OF item] by (auto simp: Let_def)
  qed
qed

section \<open>Properties\<close>

text \<open>The id-list parser reads a list whose ids are each followed by a comma as meant, but a list that
  ends in a number as its documentation has it is misread: the last number is stored again and again
  until the array is full.  The answer for \<open>"0"\<close> is an array of \<open>max_ids\<close> zeros.\<close>

theorem idlist_reads:
  assumes "\<forall>n \<in> set ns. n < 2 ^ 31" "length ns \<le> max_ids" "n < 2 ^ 31"
  shows "cmem_parse_idlist (concat (map (\<lambda>n. dec n @ '','') ns)) max_ids = Some (map int ns)
    \<and> cmem_parse_idlist (dec n) max_ids = Some (replicate max_ids (int n))"
  using idlist_commas [OF assms(1), of "[]" max_ids] idlist_repeats [OF assms(3), of "[]" max_ids] assms(2)
  by (simp add: cmem_parse_idlist_def)

text \<open>A line that ends in a newline, as every sysfs file does, is rejected by the parser unless it fills
  the whole array.  So the topology probe finds a single node on every machine that has fewer than
  64 nodes.\<close>

theorem numa_probe_single_node:
  assumes "fgets_of ''/sys/devices/system/node/online'' 256 = Some line" "line \<noteq> []" "last line = CHR 0x0A"
    and "cmem_numa_probe table_ok fgets_of = topo"
  shows "cmem_numa_node_count topo = 1 \<and> cmem_cpu_to_node topo cpu = 0 \<or> cmem_numa_node_count topo = 64"
proof (cases "cmem_parse_idlist line CMEM_MAX_NUMA_NODES")
  case None
  then show ?thesis
    using assms(1,4) by (auto simp: cmem_numa_probe_def Let_def cmem_numa_node_count_def cmem_cpu_to_node_def)
next
  case (Some ids)
  then have "length ids = 64"
    using idlist_newline [OF assms(2,3), of "[]" CMEM_MAX_NUMA_NODES ids]
    by (simp add: cmem_parse_idlist_def CMEM_MAX_NUMA_NODES_def)
  then have "cmem_numa_node_count topo = 64"
    using assms(1,4) Some
    by (auto simp: cmem_numa_probe_def Let_def cmem_numa_node_count_def split: option.splits list.splits if_splits)
  then show ?thesis
    by simp
qed

lemma assign_cpus_length: "length (assign_cpus node cpus table) = length table"
  by (induction cpus arbitrary: table) auto

lemma assign_nodes_length: "length (assign_nodes f nodes table) = length table"
  by (induction nodes arbitrary: table) (auto simp: assign_cpus_length split: option.splits)

text \<open>Whatever the files contain, the node of a CPU is looked up inside the table that was built.\<close>

lemma cpu_lookup_in_range:
  "case cpu_to_node (cmem_numa_probe table_ok fgets_of) of
     None \<Rightarrow> cpu_count (cmem_numa_probe table_ok fgets_of) = 0
   | Some table \<Rightarrow> length table = cpu_count (cmem_numa_probe table_ok fgets_of)"
  by (auto simp: cmem_numa_probe_def Let_def assign_nodes_length assign_cpus_length split: option.splits list.splits)

lemma dec_small: "dec 0 = ''0''" "dec 3 = ''3''" "dec 7 = ''7''"
  by code_simp+

theorem idlist_reads_witness:
  "cmem_parse_idlist ''3,7,'' 64 = Some [3, 7] \<and> cmem_parse_idlist ''0'' 64 = Some (replicate 64 0)"
  using idlist_reads [of "[3, 7]" 64 0] by (simp add: dec_small)

theorem numa_probe_single_node_witness:
  "cmem_numa_node_count (cmem_numa_probe True (\<lambda>_ _. Some [CHR ''0'', CHR ''-'', CHR ''1'', CHR 0x0A])) = 1
   \<or> cmem_numa_node_count (cmem_numa_probe True (\<lambda>_ _. Some [CHR ''0'', CHR ''-'', CHR ''1'', CHR 0x0A])) = 64"
  using numa_probe_single_node [of "\<lambda>_ _. Some [CHR ''0'', CHR ''-'', CHR ''1'', CHR 0x0A]", OF refl _ _ refl] by auto

end
