(* ===== verification/Multi_Arena.thy ===== *)
theory Multi_Arena
  imports Numa_Topology Cmem_Types "HOL-Library.Multiset"
begin

text \<open>
  The tree of pools and the binding of threads to sub-arenas: creation of child pools
  (\<open>src/src/cmem.c\<close>), \<open>src/src/cmem_multi_arena.c\<close>, and the tree queries of \<open>src/src/cmem_config.c\<close>.

  Pools live in a store from addresses to the fields of \<open>struct memory_pool\<close> these functions use.  The
  creation of a pool object enters by the address it answers with (null on failure); the processor
  count, the success of \<open>calloc\<close> and the \<open>getcpu\<close> system call are arguments too.
\<close>

definition MP_FLAG_MULTI_ARENA :: nat where "MP_FLAG_MULTI_ARENA = 2 ^ 17"

record arena_pool =
  aflags :: nat
  arena_name :: string
  numa_node :: int
  pparent :: addr
  first_child :: addr
  next_sibling :: addr
  num_arenas :: int
  arenas :: "addr list"
  arena_rr_index :: nat
  is_multi_arena_child :: bool
  master :: addr

type_synonym pool_store = "addr \<Rightarrow> arena_pool"

record cmem_arena_binding =
  master_pool :: addr
  bound_to :: addr
  arena_index :: int

record thread_bindings =
  bound_arena :: addr
  arena_bindings :: "cmem_arena_binding list"
  cpu_state :: cpu_cache

definition CMEM_MAX_TLS_BOUND_POOLS :: nat where "CMEM_MAX_TLS_BOUND_POOLS = 8"

section \<open>The tree of pools\<close>

text \<open>A pool object as \<open>mp_create_custom_impl\<close> leaves it: zeroed apart from flags and name.\<close>

definition fresh_pool :: "nat \<Rightarrow> arena_pool" where
  "fresh_pool fl = \<lparr>aflags = fl, arena_name = ''RootArena'', numa_node = 0, pparent = 0, first_child = 0,
     next_sibling = 0, num_arenas = 0, arenas = [], arena_rr_index = 0, is_multi_arena_child = False, master = 0\<rparr>"

definition mp_create_child_impl :: "addr \<Rightarrow> pool_store \<Rightarrow> addr \<Rightarrow> nat \<Rightarrow> string option \<Rightarrow> pool_store \<times> addr" where
  "mp_create_child_impl child st parent fl name =
     (if child = 0 then (st, 0)
      else let p = (fresh_pool fl)\<lparr>pparent := parent,
                      arena_name := snprintf_buf 64 (case name of Some n \<Rightarrow> n | None \<Rightarrow> ''ChildArena'')\<rparr>
           in if parent = 0 then (st(child := p), child)
              else let p = p\<lparr>next_sibling := first_child (st parent)\<rparr>;
                       st = st(child := p)
                   in (st(parent := (st parent)\<lparr>first_child := child\<rparr>), child))"

definition mp_set_name :: "pool_store \<Rightarrow> addr \<Rightarrow> string option \<Rightarrow> pool_store" where
  "mp_set_name st pool name =
     (case name of None \<Rightarrow> st
      | Some n \<Rightarrow> if pool = 0 then st else st(pool := (st pool)\<lparr>arena_name := snprintf_buf 64 n\<rparr>))"

definition mp_get_name :: "pool_store \<Rightarrow> addr \<Rightarrow> string option" where
  "mp_get_name st pool = (if pool = 0 then None else Some (arena_name (st pool)))"

definition mp_get_parent :: "pool_store \<Rightarrow> addr \<Rightarrow> addr" where
  "mp_get_parent st pool = (if pool = 0 then 0 else pparent (st pool))"

text \<open>\<open>None\<close> is a walk that never ends.\<close>

partial_function (option) count_siblings :: "pool_store \<Rightarrow> addr \<Rightarrow> nat \<Rightarrow> nat option" where
  "count_siblings st child n =
     (if child = 0 then Some n else count_siblings st (next_sibling (st child)) (n + 1))"

definition mp_get_child_count :: "pool_store \<Rightarrow> addr \<Rightarrow> nat option" where
  "mp_get_child_count st pool = (if pool = 0 then Some 0 else count_siblings st (first_child (st pool)) 0)"

section \<open>Sub-arenas\<close>

definition arena_count :: "int \<Rightarrow> int \<Rightarrow> int" where
  "arena_count nproc n =
     (let n = (if n \<le> 0 then (if nproc \<le> 0 then 4 else nproc) else n)
      in if 64 < n then 64 else n)"

definition arena_child_name :: "string \<Rightarrow> nat \<Rightarrow> string" where
  "arena_child_name name i = snprintf_buf 64 (take 48 name @ ''_Arena'' @ dec i)"

text \<open>The loop over the answers of the creation of children; a failed creation falls back to the pool.\<close>

fun enable_loop :: "addr \<Rightarrow> nat \<Rightarrow> nat \<Rightarrow> addr list \<Rightarrow> pool_store \<Rightarrow> addr list \<Rightarrow> pool_store \<times> addr list" where
  "enable_loop pool numa_nodes i [] st arr = (st, arr)"
| "enable_loop pool numa_nodes i (new # news) st arr =
     (let (st, child) = mp_create_child_impl new st pool (clear_flag (aflags (st pool)) MP_FLAG_MULTI_ARENA)
                          (Some (arena_child_name (arena_name (st pool)) i))
      in if child = 0 then enable_loop pool numa_nodes (i + 1) news st (arr @ [pool])
         else enable_loop pool numa_nodes (i + 1) news
                (st(child := (st child)\<lparr>is_multi_arena_child := True, master := pool,
                               numa_node := (if 1 < numa_nodes then int (i mod numa_nodes) else numa_node (st child))\<rparr>))
                (arr @ [child]))"

definition mp_enable_multi_arena ::
  "int \<Rightarrow> bool \<Rightarrow> nat \<Rightarrow> (nat \<Rightarrow> addr) \<Rightarrow> pool_store \<Rightarrow> addr \<Rightarrow> int \<Rightarrow> pool_store \<times> bool" where
  "mp_enable_multi_arena nproc calloc_ok numa_nodes fresh st pool n =
     (if pool = 0 \<or> is_multi_arena_child (st pool) then (st, False)
      else if 0 < num_arenas (st pool) then (st, True)
      else let k = arena_count nproc n
           in if \<not> calloc_ok then (st, False)
              else let (st, arr) = enable_loop pool numa_nodes 0 (map fresh [0..<nat k]) st []
                   in (st(pool := (st pool)\<lparr>arenas := arr, num_arenas := k,
                            aflags := aflags (st pool) OR MP_FLAG_MULTI_ARENA\<rparr>), True))"

section \<open>Thread bindings\<close>

definition refers_to :: "addr \<Rightarrow> cmem_arena_binding \<Rightarrow> bool" where
  "refers_to pool b \<longleftrightarrow> master_pool b = pool \<or> bound_to b = pool"

fun purge_loop :: "addr \<Rightarrow> nat \<Rightarrow> cmem_arena_binding list \<Rightarrow> cmem_arena_binding list" where
  "purge_loop pool 0 bs = bs"
| "purge_loop pool (Suc i) bs =
     purge_loop pool i (if refers_to pool (bs ! i) then butlast (bs[i := bs ! (length bs - 1)]) else bs)"

definition mp_purge_thread_arena_bindings :: "addr \<Rightarrow> thread_bindings \<Rightarrow> thread_bindings" where
  "mp_purge_thread_arena_bindings pool t =
     t\<lparr>bound_arena := (if bound_arena t = pool then 0 else bound_arena t),
       arena_bindings := purge_loop pool (length (arena_bindings t)) (arena_bindings t)\<rparr>"

fun find_binding :: "addr \<Rightarrow> cmem_arena_binding list \<Rightarrow> nat option" where
  "find_binding pool [] = None"
| "find_binding pool (b # bs) = (if master_pool b = pool then Some 0 else map_option Suc (find_binding pool bs))"

definition add_binding :: "addr \<Rightarrow> addr \<Rightarrow> int \<Rightarrow> thread_bindings \<Rightarrow> thread_bindings" where
  "add_binding pool arena i t =
     t\<lparr>arena_bindings := arena_bindings t @ [\<lparr>master_pool = pool, bound_to = arena, arena_index = i\<rparr>]\<rparr>"

definition mp_get_thread_bound_arena ::
  "int option \<Rightarrow> pool_store \<Rightarrow> thread_bindings \<Rightarrow> addr \<Rightarrow> pool_store \<times> thread_bindings \<times> addr" where
  "mp_get_thread_bound_arena getcpu st t pool =
     (if pool = 0 \<or> num_arenas (st pool) \<le> 0 then (st, t, pool)
      else case find_binding pool (arena_bindings t) of
             Some i \<Rightarrow> (st, t, bound_to (arena_bindings t ! i))
           | None \<Rightarrow>
              (let (c, cpu) = cmem_current_cpu getcpu (cpu_state t);
                   t = t\<lparr>cpu_state := c\<rparr>;
                   (st, idx) =
                     (if 0 \<le> cpu then (st, cpu mod num_arenas (st pool))
                      else (st(pool := (st pool)\<lparr>arena_rr_index := (arena_rr_index (st pool) + 1) mod 2 ^ 64\<rparr>),
                            int (arena_rr_index (st pool)) mod num_arenas (st pool)));
                   arena = arenas (st pool) ! nat idx
               in (st, if length (arena_bindings t) < CMEM_MAX_TLS_BOUND_POOLS then add_binding pool arena idx t else t,
                   arena)))"

definition mp_bind_thread_to_arena ::
  "pool_store \<Rightarrow> thread_bindings \<Rightarrow> addr \<Rightarrow> int \<Rightarrow> thread_bindings \<times> bool" where
  "mp_bind_thread_to_arena st t pool i =
     (if pool = 0 \<or> num_arenas (st pool) \<le> 0 \<or> i < 0 \<or> num_arenas (st pool) \<le> i then (t, False)
      else let arena = arenas (st pool) ! nat i
           in case find_binding pool (arena_bindings t) of
                Some j \<Rightarrow>
                  (t\<lparr>arena_bindings :=
                      (arena_bindings t)[j := (arena_bindings t ! j)\<lparr>bound_to := arena, arena_index := i\<rparr>]\<rparr>, True)
              | None \<Rightarrow> if length (arena_bindings t) < CMEM_MAX_TLS_BOUND_POOLS
                        then (add_binding pool arena i t, True) else (t, False))"

definition mp_get_thread_arena ::
  "int option \<Rightarrow> pool_store \<Rightarrow> thread_bindings \<Rightarrow> addr \<Rightarrow> pool_store \<times> thread_bindings \<times> addr" where
  "mp_get_thread_arena getcpu st t pool = mp_get_thread_bound_arena getcpu st t pool"

definition mp_get_arena_count :: "pool_store \<Rightarrow> addr \<Rightarrow> int" where
  "mp_get_arena_count st pool = (if pool = 0 then 0 else num_arenas (st pool))"

definition mp_get_arena :: "pool_store \<Rightarrow> addr \<Rightarrow> int \<Rightarrow> addr" where
  "mp_get_arena st pool i =
     (if pool = 0 \<or> num_arenas (st pool) \<le> 0 \<or> i < 0 \<or> num_arenas (st pool) \<le> i then 0
      else arenas (st pool) ! nat i)"

section \<open>The sibling list\<close>

lemma count_siblings_chain:
  "mchain (\<lambda>p. next_sibling (st p)) child cs \<Longrightarrow> count_siblings st child n = Some (n + length cs)"
  by (induction cs arbitrary: child n) (subst count_siblings.simps; simp)+

text \<open>The children of a pool, newest first.\<close>

definition children :: "pool_store \<Rightarrow> addr \<Rightarrow> addr list \<Rightarrow> bool" where
  "children st pool cs \<longleftrightarrow> mchain (\<lambda>p. next_sibling (st p)) (first_child (st pool)) cs \<and> pool \<notin> set cs"

lemma create_child_links:
  assumes "children st parent cs" "mp_create_child_impl new st parent fl name = (st', child)"
    "new \<noteq> 0" "parent \<noteq> 0" "new \<notin> insert parent (set cs)"
  shows "children st' parent (new # cs)" "child = new" "pparent (st' new) = parent"
    "st' = st(new := (fresh_pool fl)\<lparr>pparent := parent, next_sibling := first_child (st parent),
              arena_name := snprintf_buf 64 (case name of Some n \<Rightarrow> n | None \<Rightarrow> ''ChildArena'')\<rparr>,
            parent := (st parent)\<lparr>first_child := new\<rparr>)"
proof -
  show st': "st' = st(new := (fresh_pool fl)\<lparr>pparent := parent, next_sibling := first_child (st parent),
              arena_name := snprintf_buf 64 (case name of Some n \<Rightarrow> n | None \<Rightarrow> ''ChildArena'')\<rparr>,
            parent := (st parent)\<lparr>first_child := new\<rparr>)" and "child = new"
    using assms(2-5) by (auto simp: mp_create_child_impl_def Let_def)
  have "next_sibling (st' y) = next_sibling (st y)" if "y \<in> set cs" for y
    using assms(1,5) that by (auto simp: children_def st')
  then have "mchain (\<lambda>p. next_sibling (st' p)) (first_child (st parent)) cs"
    using assms(1) mchain_frame [of cs "\<lambda>p. next_sibling (st' p)" "\<lambda>p. next_sibling (st p)"]
    by (simp add: children_def)
  then show "children st' parent (new # cs)" "pparent (st' new) = parent"
    using assms(3,5,1) by (auto simp: children_def st')
qed

section \<open>Purging\<close>

lemma mset_swap_delete:
  assumes "i < length bs"
  shows "take i (butlast (bs[i := bs ! (length bs - 1)])) = take i bs"
    "mset (drop i (butlast (bs[i := bs ! (length bs - 1)]))) = mset (drop (Suc i) bs)"
proof -
  let ?bs = "butlast (bs[i := bs ! (length bs - 1)])"
  show "take i ?bs = take i bs"
    using assms by (auto simp: butlast_conv_take min_def)
  show "mset (drop i ?bs) = mset (drop (Suc i) bs)"
  proof (cases "Suc i = length bs")
    case True
    then show ?thesis
      by simp
  next
    case False
    with assms obtain us x vs y where bs: "bs = us @ x # vs @ [y]" "length us = i"
      by (metis Suc_lessI append_take_drop_id append_butlast_last_id drop_eq_Nil2 id_take_nth_drop
          length_take less_imp_le_nat linorder_not_less min.absorb2)
    then have "?bs = us @ y # vs"
      by (simp add: nth_append list_update_append butlast_append)
    with bs show ?thesis
      by simp
  qed
qed

lemma purge_loop_mset:
  assumes "i \<le> length bs"
  shows "mset (purge_loop pool i bs)
           = filter_mset (\<lambda>b. \<not> refers_to pool b) (mset (take i bs)) + mset (drop i bs)"
  using assms
proof (induction i arbitrary: bs)
  case (Suc i)
  let ?bs = "if refers_to pool (bs ! i) then butlast (bs[i := bs ! (length bs - 1)]) else bs"
  have "i \<le> length ?bs"
    using Suc.prems by auto
  then have "mset (purge_loop pool (Suc i) bs)
      = filter_mset (\<lambda>b. \<not> refers_to pool b) (mset (take i ?bs)) + mset (drop i ?bs)"
    using Suc.IH [of ?bs] by simp
  moreover have "bs = take i bs @ bs ! i # drop (Suc i) bs" "drop i bs = bs ! i # drop (Suc i) bs"
    using Suc.prems by (simp_all add: id_take_nth_drop [symmetric] Cons_nth_drop_Suc)
  ultimately show ?case
    using Suc.prems mset_swap_delete [of i bs] by (simp add: take_Suc_conv_app_nth)
qed simp

section \<open>Bindings stay inside the arenas\<close>

text \<open>What the table of a thread promises: one entry per master, no more than it has room for, and each
  entry names an arena of its master.\<close>

definition pool_ok :: "pool_store \<Rightarrow> addr \<Rightarrow> bool" where
  "pool_ok st pool \<longleftrightarrow> num_arenas (st pool) = int (length (arenas (st pool)))"

definition bindings_ok :: "pool_store \<Rightarrow> thread_bindings \<Rightarrow> bool" where
  "bindings_ok st t \<longleftrightarrow>
     length (arena_bindings t) \<le> CMEM_MAX_TLS_BOUND_POOLS
     \<and> distinct (map master_pool (arena_bindings t))
     \<and> (\<forall>b \<in> set (arena_bindings t).
          0 \<le> arena_index b \<and> arena_index b < int (length (arenas (st (master_pool b))))
          \<and> bound_to b = arenas (st (master_pool b)) ! nat (arena_index b))"

lemma find_binding_Some:
  "find_binding pool bs = Some i \<Longrightarrow> i < length bs \<and> master_pool (bs ! i) = pool"
  by (induction bs arbitrary: i) (auto split: if_splits)

lemma find_binding_None: "find_binding pool bs = None \<longleftrightarrow> pool \<notin> master_pool ` set bs"
  by (induction bs) auto

lemma find_binding_unique:
  "distinct (map master_pool bs) \<Longrightarrow> i < length bs \<Longrightarrow> master_pool (bs ! i) = pool \<Longrightarrow> find_binding pool bs = Some i"
  by (induction bs arbitrary: i) (auto simp: nth_Cons split: nat.splits dest: nth_mem)

lemma current_cpu_nonneg: "cmem_current_cpu getcpu c = (c', cpu) \<Longrightarrow> 0 \<le> cpu"
  by (auto simp: cmem_current_cpu_def Let_def split: if_splits option.splits)

text \<open>The three outcomes of asking for the arena of a thread.\<close>

lemma get_bound_cases:
  assumes "mp_get_thread_bound_arena getcpu st t pool = (st', t', a)" "pool \<noteq> 0" "0 < num_arenas (st pool)"
  obtains (bound) i where "find_binding pool (arena_bindings t) = Some i" "st' = st" "t' = t"
      "a = bound_to (arena_bindings t ! i)"
    | (fresh) c i where "find_binding pool (arena_bindings t) = None" "st' = st"
      "0 \<le> i" "i < num_arenas (st pool)" "a = arenas (st pool) ! nat i"
      "t' = (if length (arena_bindings t) < CMEM_MAX_TLS_BOUND_POOLS
             then add_binding pool a i (t\<lparr>cpu_state := c\<rparr>) else t\<lparr>cpu_state := c\<rparr>)"
proof (cases "find_binding pool (arena_bindings t)")
  case None
  obtain c cpu where c: "cmem_current_cpu getcpu (cpu_state t) = (c, cpu)"
    by fastforce
  let ?i = "cpu mod num_arenas (st pool)"
  have "st' = st" "a = arenas (st pool) ! nat ?i"
    "t' = (if length (arena_bindings t) < CMEM_MAX_TLS_BOUND_POOLS
           then add_binding pool a ?i (t\<lparr>cpu_state := c\<rparr>) else t\<lparr>cpu_state := c\<rparr>)"
    using assms None c current_cpu_nonneg [OF c] by (auto simp: mp_get_thread_bound_arena_def Let_def)
  moreover have "0 \<le> ?i" "?i < num_arenas (st pool)"
    using assms(3) by simp_all
  ultimately show thesis
    using fresh None by blast
next
  case (Some i)
  then have "st' = st" "t' = t" "a = bound_to (arena_bindings t ! i)"
    using assms by (auto simp: mp_get_thread_bound_arena_def)
  with Some show thesis
    using bound by blast
qed

lemma add_binding_ok:
  assumes "bindings_ok st t" "find_binding pool (arena_bindings t) = None"
    "length (arena_bindings t) < CMEM_MAX_TLS_BOUND_POOLS" "0 \<le> i" "i < int (length (arenas (st pool)))"
  shows "bindings_ok st (add_binding pool (arenas (st pool) ! nat i) i t)"
  using assms by (auto simp: bindings_ok_def add_binding_def find_binding_None)


lemma get_bound_ok:
  assumes "bindings_ok st t" "pool_ok st pool" "pool \<noteq> 0" "0 < num_arenas (st pool)"
    "mp_get_thread_bound_arena getcpu st t pool = (st', t', a)"
  shows "st' = st \<and> bindings_ok st t' \<and> a \<in> set (arenas (st pool))"
  using assms(5,3,4)
proof (cases rule: get_bound_cases)
  case (bound i)
  note i = find_binding_Some [OF bound(1)]
  have "0 \<le> arena_index (arena_bindings t ! i)"
    "arena_index (arena_bindings t ! i) < int (length (arenas (st pool)))"
    "a = arenas (st pool) ! nat (arena_index (arena_bindings t ! i))"
    using assms(1) i bound(4) nth_mem [of i "arena_bindings t"] unfolding bindings_ok_def by auto
  then have "a \<in> set (arenas (st pool))"
    by simp
  then show ?thesis
    using bound assms(1) by simp
next
  case (fresh c i)
  have "bindings_ok st (t\<lparr>cpu_state := c\<rparr>)" "find_binding pool (arena_bindings (t\<lparr>cpu_state := c\<rparr>)) = None"
    using assms(1) fresh by (simp_all add: bindings_ok_def)
  then have "bindings_ok st t'"
    using fresh assms(2) add_binding_ok [of st "t\<lparr>cpu_state := c\<rparr>" pool i] by (simp add: pool_ok_def)
  then show ?thesis
    using fresh assms(2) by (simp add: pool_ok_def)
qed

lemma bind_ok:
  assumes "bindings_ok st t" "pool_ok st pool" "mp_bind_thread_to_arena st t pool i = (t', ok)"
  shows "bindings_ok st t'"
    "ok \<Longrightarrow> \<exists>j. find_binding pool (arena_bindings t') = Some j \<and> bound_to (arena_bindings t' ! j) = mp_get_arena st pool i"
    "\<not> ok \<Longrightarrow> t' = t"
proof -
  let ?a = "arenas (st pool) ! nat i"
  let ?good = "pool \<noteq> 0 \<and> 0 \<le> i \<and> i < num_arenas (st pool)"
  consider (refuse) "\<not> ok" "t' = t"
    | (rebind) j where "find_binding pool (arena_bindings t) = Some j" "0 \<le> i" "i < num_arenas (st pool)" "ok"
        "pool \<noteq> 0" "t' = t\<lparr>arena_bindings := (arena_bindings t)[j := (arena_bindings t ! j)\<lparr>bound_to := ?a, arena_index := i\<rparr>]\<rparr>"
    | (add) "find_binding pool (arena_bindings t) = None" "0 \<le> i" "i < num_arenas (st pool)" "ok"
        "pool \<noteq> 0" "length (arena_bindings t) < CMEM_MAX_TLS_BOUND_POOLS" "t' = add_binding pool ?a i t"
  proof (cases "?good")
    case False
    then show thesis
      using assms(3) refuse by (auto simp: mp_bind_thread_to_arena_def Let_def)
  next
    case good: True
    show thesis
    proof (cases "find_binding pool (arena_bindings t)")
      case None
      show thesis
      proof (cases "length (arena_bindings t) < CMEM_MAX_TLS_BOUND_POOLS")
        case True
        then show thesis
          using good assms(3) None add by (simp add: mp_bind_thread_to_arena_def Let_def)
      next
        case False
        then show thesis
          using good assms(3) None refuse by (simp add: mp_bind_thread_to_arena_def Let_def)
      qed
    next
      case (Some j)
      then show thesis
        using good assms(3) rebind [OF Some] by (simp add: mp_bind_thread_to_arena_def Let_def)
    qed
  qed
  then have "bindings_ok st t' \<and> (ok \<longrightarrow> (\<exists>j. find_binding pool (arena_bindings t') = Some j
        \<and> bound_to (arena_bindings t' ! j) = mp_get_arena st pool i)) \<and> (\<not> ok \<longrightarrow> t' = t)"
  proof cases
    case refuse
    then show ?thesis
      using assms(1) by simp
  next
    case (rebind j)
    note j = find_binding_Some [OF rebind(1)]
    let ?b = "(arena_bindings t ! j)\<lparr>bound_to := ?a, arena_index := i\<rparr>"
    have masters: "map master_pool (arena_bindings t') = map master_pool (arena_bindings t)"
      using j rebind(6) by (simp add: map_update list_update_same_conv)
    have "set (arena_bindings t') \<subseteq> insert ?b (set (arena_bindings t))"
      using rebind(6) by (simp add: set_update_subset_insert)
    moreover have "length (arena_bindings t') = length (arena_bindings t)"
      using rebind(6) by simp
    ultimately have ok': "bindings_ok st t'"
      using assms(1,2) j masters rebind(2,3) unfolding bindings_ok_def pool_ok_def by auto
    then have "find_binding pool (arena_bindings t') = Some j"
      using j rebind(6) by (intro find_binding_unique) (simp_all add: bindings_ok_def)
    then show ?thesis
      using ok' rebind j by (auto simp: mp_get_arena_def)
  next
    case add
    have ok': "bindings_ok st t'"
      using add_binding_ok [OF assms(1) add(1,6,2)] add assms(2) by (simp add: pool_ok_def)
    then have "find_binding pool (arena_bindings t') = Some (length (arena_bindings t))"
      using add by (intro find_binding_unique) (simp_all add: bindings_ok_def add_binding_def nth_append)
    then show ?thesis
      using ok' add by (auto simp: mp_get_arena_def add_binding_def nth_append)
  qed
  then show "bindings_ok st t'"
    "ok \<Longrightarrow> \<exists>j. find_binding pool (arena_bindings t') = Some j \<and> bound_to (arena_bindings t' ! j) = mp_get_arena st pool i"
    "\<not> ok \<Longrightarrow> t' = t"
    by blast+
qed

lemma purge_ok:
  assumes "bindings_ok st t"
  shows "bindings_ok st (mp_purge_thread_arena_bindings pool t)"
proof -
  let ?bs = "arena_bindings t"
  let ?cs = "purge_loop pool (length ?bs) ?bs"
  have m: "mset ?cs = filter_mset (\<lambda>b. \<not> refers_to pool b) (mset ?bs)"
    using purge_loop_mset [of "length ?bs" ?bs pool] by simp
  then have "mset (map master_pool ?cs) \<subseteq># mset (map master_pool ?bs)"
    by (simp add: image_mset_subseteq_mono)
  then have "distinct (map master_pool ?bs) \<Longrightarrow> distinct (map master_pool ?cs)"
    by (metis distinct_append mset_append mset_eq_imp_distinct_iff mset_subset_eq_exists_conv ex_mset)
  moreover have "length ?cs \<le> length ?bs"
    using m size_filter_mset_lesseq [of _ "mset ?bs"] by (metis size_mset)
  moreover have "set ?cs \<subseteq> set ?bs"
    using arg_cong [OF m, of set_mset] by auto
  ultimately show ?thesis
    using assms unfolding bindings_ok_def mp_purge_thread_arena_bindings_def by auto
qed

section \<open>Enabling sub-arenas\<close>

text \<open>What a sub-arena looks like once it hangs below its master.\<close>

definition sub_arena :: "pool_store \<Rightarrow> addr \<Rightarrow> addr \<Rightarrow> bool" where
  "sub_arena st pool a \<longleftrightarrow> is_multi_arena_child (st a) \<and> master (st a) = pool \<and> pparent (st a) = pool \<and> num_arenas (st a) = 0"

lemma enable_loop_spec:
  assumes "enable_loop pool nn i news st arr = (st', arr')" "children st pool cs" "pool \<noteq> 0"
    "distinct (filter (\<lambda>a. a \<noteq> 0) news)" "set (filter (\<lambda>a. a \<noteq> 0) news) \<inter> insert pool (set cs) = {}"
  shows "arr' = arr @ map (\<lambda>a. if a = 0 then pool else a) news
       \<and> children st' pool (rev (filter (\<lambda>a. a \<noteq> 0) news) @ cs)
       \<and> (\<forall>a \<in> set (filter (\<lambda>a. a \<noteq> 0) news). sub_arena st' pool a)
       \<and> (\<forall>p. p \<notin> insert pool (set (filter (\<lambda>a. a \<noteq> 0) news)) \<longrightarrow> st' p = st p)
       \<and> st' pool = (st pool)\<lparr>first_child := first_child (st' pool)\<rparr>"
  using assms
proof (induction news arbitrary: i st arr cs)
  case (Cons new news)
  show ?case
  proof (cases "new = 0")
    case True
    then have "enable_loop pool nn (i + 1) news st (arr @ [pool]) = (st', arr')"
      using Cons.prems(1) by (simp add: mp_create_child_impl_def)
    from Cons.IH [OF this] Cons.prems True show ?thesis
      by simp
  next
    case False
    obtain st1 c where st1: "mp_create_child_impl new st pool (clear_flag (aflags (st pool)) MP_FLAG_MULTI_ARENA)
        (Some (arena_child_name (arena_name (st pool)) i)) = (st1, c)"
      by fastforce
    have new: "new \<notin> insert pool (set cs)"
      using Cons.prems(5) False by auto
    note links = create_child_links [OF Cons.prems(2) st1 False Cons.prems(3) new]
    define st2 where "st2 = st1(new := (st1 new)\<lparr>is_multi_arena_child := True, master := pool,
        numa_node := (if 1 < nn then int (i mod nn) else numa_node (st1 new))\<rparr>)"
    have loop: "enable_loop pool nn (i + 1) news st2 (arr @ [new]) = (st', arr')"
      using Cons.prems(1) st1 False links(2) by (simp add: st2_def)
    have "next_sibling (st2 y) = next_sibling (st1 y)" for y
      by (simp add: st2_def)
    moreover have "st2 pool = st1 pool"
      using new by (simp add: st2_def)
    ultimately have ch: "children st2 pool (new # cs)"
      using links(1) by (simp add: children_def)
    have IH: "arr' = (arr @ [new]) @ map (\<lambda>a. if a = 0 then pool else a) news"
      "children st' pool (rev (filter (\<lambda>a. a \<noteq> 0) news) @ new # cs)"
      "\<forall>a \<in> set (filter (\<lambda>a. a \<noteq> 0) news). sub_arena st' pool a"
      "\<forall>p. p \<notin> insert pool (set (filter (\<lambda>a. a \<noteq> 0) news)) \<longrightarrow> st' p = st2 p"
      "st' pool = (st2 pool)\<lparr>first_child := first_child (st' pool)\<rparr>"
      using Cons.IH [OF loop ch Cons.prems(3)] Cons.prems(4,5) False by auto
    have "st' new = st2 new"
      using IH(4) new Cons.prems(4) False by auto
    then have "sub_arena st' pool new"
      using new links(4) by (simp add: sub_arena_def st2_def fresh_pool_def)
    moreover have "st2 pool = (st pool)\<lparr>first_child := new\<rparr>" "p \<notin> {pool, new} \<Longrightarrow> st2 p = st p" for p
      using new links(4) by (auto simp: st2_def)
    ultimately show ?thesis
      using IH False by auto
  qed
qed simp

lemma arena_count_range: "1 \<le> arena_count nproc n" "arena_count nproc n \<le> 64"
  by (auto simp: arena_count_def Let_def)

section \<open>Properties\<close>





end
