(* ===== verification/Slab_Class.thy ===== *)
theory Slab_Class
  imports Cmem_Types
begin

text \<open>
  The size classes of the slab tier: the two tables of \<open>src/src/cmem_slab.c\<close>, the index function of
  \<open>src/src/cmem_internal.h\<close> and the configuration of custom classes in \<open>src/src/cmem_config.c\<close>.
  The lookup table is shown to agree with the linear search over the class sizes for every size.
\<close>

definition SLAB_CLASS_COUNT :: nat where "SLAB_CLASS_COUNT = 12"

definition cmem_slab_class_size :: "nat list" where
  "cmem_slab_class_size = [8, 16, 24, 32, 48, 64, 96, 128, 192, 256, 384, 512]"

definition cmem_size_to_class :: "nat list" where
  "cmem_size_to_class =
     0 # replicate 8 0 @ replicate 8 1 @ replicate 8 2 @ replicate 8 3 @ replicate 16 4 @ replicate 16 5
       @ replicate 32 6 @ replicate 32 7 @ replicate 64 8 @ replicate 64 9 @ replicate 128 10 @ replicate 128 11"

text \<open>First class that covers a size; \<open>SLAB_CLASS_COUNT\<close> when there is none.\<close>

fun class_search :: "nat list \<Rightarrow> nat \<Rightarrow> nat \<Rightarrow> nat" where
  "class_search [] i sz = i"
| "class_search (c # cs) i sz = (if sz \<le> c then i else class_search cs (i + 1) sz)"

record slab_config =
  use_custom_slab_sizes :: bool
  custom_slab_sizes :: "nat list"
  class_slot_sizes :: "nat list"

definition get_slab_class_index :: "slab_config \<Rightarrow> nat \<Rightarrow> nat" where
  "get_slab_class_index pool sz =
     (if use_custom_slab_sizes pool then class_search (custom_slab_sizes pool) 0 sz
      else if 0 < sz \<and> sz \<le> 512 then cmem_size_to_class ! sz
      else SLAB_CLASS_COUNT)"

text \<open>The part of \<open>slab_init\<close> that concerns sizes.\<close>

definition init_class_sizes :: "slab_config \<Rightarrow> slab_config" where
  "init_class_sizes pool =
     pool\<lparr>class_slot_sizes := (if use_custom_slab_sizes pool then custom_slab_sizes pool else cmem_slab_class_size)\<rparr>"

fun preferred_in :: "nat list \<Rightarrow> nat \<Rightarrow> nat option" where
  "preferred_in [] sz = None"
| "preferred_in (c # cs) sz = (if sz \<le> c then Some c else preferred_in cs sz)"

definition mp_preferred_size :: "nat \<Rightarrow> nat" where
  "mp_preferred_size sz =
     (if sz = 0 then 0
      else case (if sz \<le> SLAB_MAX_SIZE then preferred_in cmem_slab_class_size sz else None) of
             Some c \<Rightarrow> c
           | None \<Rightarrow> align_up8 sz)"

definition mp_preferred_size_for_pool :: "slab_config \<Rightarrow> nat \<Rightarrow> nat" where
  "mp_preferred_size_for_pool pool sz =
     (if sz = 0 then 0
      else case (if sz \<le> SLAB_MAX_SIZE then preferred_in (class_slot_sizes pool) sz else None) of
             Some c \<Rightarrow> c
           | None \<Rightarrow> align_up8 sz)"

fun double_up :: "nat \<Rightarrow> nat list \<Rightarrow> nat list" where
  "double_up 0 sizes = sizes"
| "double_up (Suc n) sizes = double_up n (sizes @ [(last sizes * 2) mod 2 ^ 64])"

definition mp_set_slab_classes :: "slab_config \<Rightarrow> nat list \<Rightarrow> slab_config \<times> bool" where
  "mp_set_slab_classes pool sizes =
     (if sizes = [] \<or> SLAB_CLASS_COUNT < length sizes then (pool, False)
      else if \<not> list_all (\<lambda>i. sizes ! i \<noteq> 0 \<and> (0 < i \<longrightarrow> sizes ! (i - 1) < sizes ! i)) [0..<length sizes]
      then (pool, False)
      else let custom = double_up (SLAB_CLASS_COUNT - length sizes) sizes
           in (pool\<lparr>use_custom_slab_sizes := True, custom_slab_sizes := custom, class_slot_sizes := custom\<rparr>, True))"

definition mp_get_slab_class_count :: "slab_config \<Rightarrow> nat" where
  "mp_get_slab_class_count pool = SLAB_CLASS_COUNT"

definition mp_get_slab_classes :: "slab_config \<Rightarrow> nat \<Rightarrow> nat list" where
  "mp_get_slab_classes pool max_count = take (if max_count < SLAB_CLASS_COUNT then max_count else SLAB_CLASS_COUNT) (class_slot_sizes pool)"

section \<open>Searching sorted classes\<close>

lemma class_search_spec:
  "class_search cs i sz = i + length (takeWhile (\<lambda>c. c < sz) cs)"
  by (induction cs arbitrary: i) auto

lemma class_search_below: "j < class_search cs 0 sz \<Longrightarrow> cs ! j < sz"
  using nth_mem [of j "takeWhile (\<lambda>c. c < sz) cs"] set_takeWhileD takeWhile_nth [of j "\<lambda>c. c < sz" cs]
  by (fastforce simp: class_search_spec)

lemma class_search_fits: "class_search cs 0 sz < length cs \<Longrightarrow> sz \<le> cs ! class_search cs 0 sz"
  using nth_length_takeWhile [of "\<lambda>c. c < sz" cs] by (simp add: class_search_spec)

lemma preferred_in_search:
  "preferred_in cs sz = (if class_search cs 0 sz < length cs then Some (cs ! class_search cs 0 sz) else None)"
proof (induction cs)
  case (Cons c cs)
  then show ?case
    by (auto simp: class_search_spec)
qed simp

text \<open>The table against the search, size by size.\<close>

fun class_table :: "nat \<Rightarrow> nat \<Rightarrow> nat list \<Rightarrow> nat list" where
  "class_table prev i [] = []"
| "class_table prev i (c # cs) = replicate (c - prev) i @ class_table c (i + 1) cs"

lemma class_table_nth:
  "sorted (prev # cs) \<Longrightarrow> cs \<noteq> [] \<Longrightarrow> prev + m < last cs \<Longrightarrow> class_table prev i cs ! m = class_search cs i (prev + m + 1)"
proof (induction cs arbitrary: prev i m)
  case Nil
  then show ?case
    by simp
next
  case (Cons c cs)
  show ?case
  proof (cases "m < c - prev")
    case True
    then show ?thesis
      by (auto simp: nth_append)
  next
    case False
    let ?m = "m - (c - prev)"
    have le: "prev \<le> c" "sorted (c # cs)"
      using Cons.prems by auto
    have ne: "cs \<noteq> []"
      using Cons.prems False by (auto split: if_splits)
    have m: "prev + m + 1 = c + ?m + 1" "c + ?m < last cs"
      using False le ne Cons.prems by auto
    have "class_table prev i (c # cs) ! m = class_table c (i + 1) cs ! ?m"
      using False by (simp add: nth_append)
    also have "\<dots> = class_search cs (i + 1) (prev + m + 1)"
      unfolding m(1) using Cons.IH [OF le(2) ne m(2)] .
    also have "\<dots> = class_search (c # cs) i (prev + m + 1)"
      using False le(1) by auto
    finally show ?thesis .
  qed
qed

lemma size_to_class_table: "cmem_size_to_class = 0 # class_table 0 0 cmem_slab_class_size"
  by (simp add: cmem_size_to_class_def cmem_slab_class_size_def)

lemma size_to_class_search:
  assumes "0 < n" "n \<le> 512"
  shows "cmem_size_to_class ! n = class_search cmem_slab_class_size 0 n"
proof -
  have "sorted (0 # cmem_slab_class_size)" "cmem_slab_class_size \<noteq> []" "last cmem_slab_class_size = 512"
    by (simp_all add: cmem_slab_class_size_def)
  then show ?thesis
    using class_table_nth [of 0 cmem_slab_class_size "n - 1" 0] assms by (cases n) (simp_all add: size_to_class_table)
qed

lemma class_search_default:
  assumes "0 < n" "n \<le> 512"
  shows "class_search cmem_slab_class_size 0 n < 12"
  using assms by (simp add: cmem_slab_class_size_def)

lemma class_search_large: "\<forall>c\<in>set cs. c < sz \<Longrightarrow> class_search cs 0 sz = length cs"
  by (simp add: class_search_spec takeWhile_eq_all_conv [THEN iffD2])

lemma default_index:
  assumes "\<not> use_custom_slab_sizes pool"
  shows "get_slab_class_index pool sz = (if sz = 0 then 12 else class_search cmem_slab_class_size 0 sz)"
proof (cases "0 < sz \<and> sz \<le> 512")
  case True
  then show ?thesis
    using assms by (simp add: get_slab_class_index_def size_to_class_search)
next
  case False
  then have "sz = 0 \<or> class_search cmem_slab_class_size 0 sz = 12"
    using class_search_large [of cmem_slab_class_size sz] by (auto simp: cmem_slab_class_size_def)
  with False assms show ?thesis
    by (auto simp: get_slab_class_index_def SLAB_CLASS_COUNT_def)
qed

section \<open>Custom classes\<close>

lemma double_up_shape:
  "length (double_up n xs) = n + length xs" "take (length xs) (double_up n xs) = xs"
proof (induction n arbitrary: xs)
  case (Suc n)
  {
    case 1
    then show ?case
      using Suc(1) by simp
  next
    case 2
    let ?ys = "xs @ [last xs * 2 mod 2 ^ 64]"
    have "take (length xs) (double_up (Suc n) xs) = take (length xs) (take (length ?ys) (double_up n ?ys))"
      by (simp add: min_def)
    then show ?case
      by (simp only: Suc(2)) simp
  }
qed simp_all

lemma double_up_increasing:
  assumes "xs \<noteq> []" "0 < last xs" "sorted_wrt (<) xs" "last xs * 2 ^ n < 2 ^ 64"
  shows "sorted_wrt (<) (double_up n xs)"
  using assms
proof (induction n arbitrary: xs)
  case (Suc n)
  let ?v = "last xs * 2 mod 2 ^ 64"
  have "last xs * 2 \<le> last xs * 2 ^ Suc n"
    by simp
  then have v: "?v = last xs * 2"
    using Suc.prems(4) by (simp only: mod_less)
  have "y < ?v" if "y \<in> set xs" for y
  proof -
    have "y \<le> last xs"
      using that Suc.prems(3) by (cases xs rule: rev_cases) (auto simp: sorted_wrt_append)
    with v Suc.prems(2) show ?thesis
      by simp
  qed
  then have "sorted_wrt (<) (xs @ [?v])"
    using Suc.prems(3) by (simp add: sorted_wrt_append)
  moreover have "last (xs @ [?v]) * 2 ^ n < 2 ^ 64" "0 < last (xs @ [?v])"
    using Suc.prems v by (simp_all add: mult.assoc mult.left_commute)
  ultimately show ?case
    using Suc.IH [of "xs @ [?v]"] by simp
qed simp

text \<open>The check of the loop over consecutive sizes is strict monotonicity.\<close>

lemma increasing_check:
  "list_all (\<lambda>i. sizes ! i \<noteq> 0 \<and> (0 < i \<longrightarrow> sizes ! (i - 1) < sizes ! i)) [0..<length sizes]
     \<longleftrightarrow> 0 \<notin> set sizes \<and> sorted_wrt (<) (sizes :: nat list)"
proof -
  have "sorted_wrt (<) sizes \<longleftrightarrow> (\<forall>i < length sizes. 0 < i \<longrightarrow> sizes ! (i - 1) < sizes ! i)"
  proof -
    have "(\<forall>i. Suc i < length sizes \<longrightarrow> sizes ! i < sizes ! Suc i)
            \<longleftrightarrow> (\<forall>i < length sizes. 0 < i \<longrightarrow> sizes ! (i - 1) < sizes ! i)"
      by (metis Suc_pred diff_Suc_1 zero_less_Suc)
    then show ?thesis
      by (simp add: sorted_wrt_iff_nth_Suc_transp)
  qed
  moreover have "0 \<notin> set sizes \<longleftrightarrow> (\<forall>i < length sizes. sizes ! i \<noteq> 0)"
    by (metis in_set_conv_nth)
  ultimately show ?thesis
    by (auto simp: list_all_iff)
qed

section \<open>Properties\<close>



text \<open>C29 -- Custom size classes are accepted exactly when there are between one and twelve, all positive and
  strictly increasing; a refused list changes nothing.  An accepted list is the beginning of the twelve
  classes, and when the doubled remainder does not wrap, the classes are strictly increasing and the index of
  a size is the smallest class that holds it, also as the advised size for the pool.\<close>

theorem set_slab_classes_correct:
  assumes "mp_set_slab_classes pool sizes = (pool', ok)"
  shows "(ok \<longleftrightarrow> sizes \<noteq> [] \<and> length sizes \<le> 12 \<and> 0 \<notin> set sizes \<and> sorted_wrt (<) sizes)
       \<and> (\<not> ok \<longrightarrow> pool' = pool)
       \<and> (ok \<longrightarrow> length (class_slot_sizes pool') = 12 \<and> take (length sizes) (class_slot_sizes pool') = sizes
            \<and> (last sizes * 2 ^ (12 - length sizes) < 2 ^ 64 \<longrightarrow> sorted_wrt (<) (class_slot_sizes pool'))
            \<and> (let i = get_slab_class_index pool' sz
               in (\<forall>j < i. class_slot_sizes pool' ! j < sz)
                  \<and> (i < 12 \<longrightarrow> sz \<le> class_slot_sizes pool' ! i
                       \<and> (0 < sz \<and> sz \<le> 512 \<longrightarrow> mp_preferred_size_for_pool pool' sz = class_slot_sizes pool' ! i))))"
proof -
  let ?cs = "double_up (12 - length sizes) sizes"
  have ok: "ok \<longleftrightarrow> sizes \<noteq> [] \<and> length sizes \<le> 12 \<and> 0 \<notin> set sizes \<and> sorted_wrt (<) sizes"
    using assms unfolding mp_set_slab_classes_def increasing_check
    by (auto simp: SLAB_CLASS_COUNT_def Let_def split: if_splits)
  have no: "\<not> ok \<Longrightarrow> pool' = pool"
    using assms by (auto simp: mp_set_slab_classes_def Let_def split: if_splits)
  have yes: "length (class_slot_sizes pool') = 12 \<and> take (length sizes) (class_slot_sizes pool') = sizes
      \<and> (last sizes * 2 ^ (12 - length sizes) < 2 ^ 64 \<longrightarrow> sorted_wrt (<) (class_slot_sizes pool'))
      \<and> (\<forall>j < get_slab_class_index pool' sz. class_slot_sizes pool' ! j < sz)
      \<and> (get_slab_class_index pool' sz < 12 \<longrightarrow>
           sz \<le> class_slot_sizes pool' ! get_slab_class_index pool' sz
           \<and> (0 < sz \<and> sz \<le> 512 \<longrightarrow>
                mp_preferred_size_for_pool pool' sz = class_slot_sizes pool' ! get_slab_class_index pool' sz))"
    if "ok"
  proof -
    have p': "class_slot_sizes pool' = ?cs" "custom_slab_sizes pool' = ?cs" "use_custom_slab_sizes pool'"
      using assms that by (auto simp: mp_set_slab_classes_def SLAB_CLASS_COUNT_def Let_def split: if_splits)
    have sz: "sizes \<noteq> []" "length sizes \<le> 12" "0 < last sizes" "sorted_wrt (<) sizes"
      using that ok by simp_all (metis last_in_set neq0_conv)
    have len: "length ?cs = 12"
      using sz by (simp add: double_up_shape)
    have i: "get_slab_class_index pool' sz = class_search ?cs 0 sz"
      using p' by (simp add: get_slab_class_index_def)
    have "\<forall>j < class_search ?cs 0 sz. ?cs ! j < sz"
      by (simp add: class_search_below)
    moreover have "class_search ?cs 0 sz < 12 \<Longrightarrow> sz \<le> ?cs ! class_search ?cs 0 sz"
      using class_search_fits [of ?cs sz] len by simp
    moreover have "class_search ?cs 0 sz < 12 \<and> 0 < sz \<and> sz \<le> 512 \<longrightarrow>
        mp_preferred_size_for_pool pool' sz = ?cs ! class_search ?cs 0 sz"
      by (simp add: mp_preferred_size_for_pool_def preferred_in_search len p' SLAB_MAX_SIZE_def)
    ultimately show ?thesis
      using double_up_increasing [OF sz(1,3,4)] double_up_shape(2) [of sizes] len by (auto simp: i p')
  qed
  show ?thesis
    using ok no yes by (auto simp: Let_def)
qed

theorem set_slab_classes_correct_witness:
  "snd (mp_set_slab_classes \<lparr>use_custom_slab_sizes = False, custom_slab_sizes = [], class_slot_sizes = []\<rparr> [10, 20, 30])"
  using set_slab_classes_correct
    [of "\<lparr>use_custom_slab_sizes = False, custom_slab_sizes = [], class_slot_sizes = []\<rparr>" "[10, 20, 30]", OF surjective_pairing]
  by simp

end
