(* ===== verification/Slab_Pages.thy ===== *)
theory Slab_Pages
  imports Slab_Class
begin

text \<open>
  The slab tier of \<open>src/src/cmem_slab.c\<close>: 64 KiB pages of equal slots, three page lists per size class,
  the queues of slots freed by other threads, the per-thread caches and the per-CPU lists.

  One state holds the pool's fields, the pages, the slots and the caches of all threads.  A slot that is
  not handed out stores the link to the next slot in its first eight bytes, where a handed-out slot has
  the first four fields of its block header; \<open>slot_next\<close> and \<open>set_slot_next\<close> read and write these bytes.
  The answers of \<open>mmap\<close> are the list \<open>maps\<close> (null for a failure), the clock is \<open>now_ms\<close>.  A call made under a
  class lock, or by a compare-and-swap loop, is one step; a weak compare-and-swap that fails is an
  argument where the code does not retry.
\<close>

section \<open>State\<close>

definition SLAB_PAGE_SIZE :: nat where "SLAB_PAGE_SIZE = 64 * 1024"
definition sizeof_mp_slab_page :: nat where "sizeof_mp_slab_page = 72"
definition MP_PERCPU_MAX_BATCH :: nat where "MP_PERCPU_MAX_BATCH = 16"
definition TLS_CACHE_MAX_SLOTS :: nat where "TLS_CACHE_MAX_SLOTS = 256"

record mp_slab_page =
  class_index :: nat
  free_count :: nat
  page_free_count :: nat
  total_slots :: nat
  pg_free :: addr
  pg_next :: addr
  pg_prev :: addr
  page_raw_mem :: addr
  is_hot :: bool
  idle_since_ts :: nat

text \<open>The page lists of a class: \<open>slab_classes[c].partial_pages\<close>, \<open>full_pages\<close> and \<open>empty_pages\<close>.\<close>

datatype page_list = PartialPages nat | FullPages nat | EmptyPages nat

text \<open>The slab part of the thread-local cache; \<open>owned\<close>: \<open>owner_pool\<close> is this pool.\<close>

record thread_cache =
  owned :: bool
  tslots :: "nat \<Rightarrow> addr"
  tcounts :: "nat \<Rightarrow> nat"

record slab_pool =
  sflags :: nat
  slot_sizes :: "nat list"
  page_heads :: "page_list \<Rightarrow> addr"
  empty_page_count :: "nat \<Rightarrow> nat"
  remote_free_queue :: "nat \<Rightarrow> addr"
  remote_free_pending :: bool
  remote_free_pending_class :: "nat \<Rightarrow> bool"
  slab_allocated_bytes :: nat
  total_pool_size :: nat
  percpu_heads :: "(nat \<Rightarrow> addr) option"
  percpu_counts :: "nat \<Rightarrow> nat"
  num_cpus :: nat
  pages :: "addr \<Rightarrow> mp_slab_page"
  shdr :: "addr \<Rightarrow> mp_block_header"
  smem :: "addr \<Rightarrow> nat"
  tls :: "nat \<Rightarrow> thread_cache"
  maps :: "addr list"
  now_ms :: nat

section \<open>Links stored in free slots\<close>

definition slot_next :: "slab_pool \<Rightarrow> addr \<Rightarrow> addr" where
  "slot_next st s =
     (let h = shdr st s in magic h + alloc_type h * 2 ^ 32 + slab_class h * 2 ^ 40 + hflags h * 2 ^ 48)"

definition set_slot_next :: "addr \<Rightarrow> addr \<Rightarrow> slab_pool \<Rightarrow> slab_pool" where
  "set_slot_next s v st =
     st\<lparr>shdr := (shdr st)(s := (shdr st s)\<lparr>magic := v mod 2 ^ 32, alloc_type := v div 2 ^ 32 mod 2 ^ 8,
                                  slab_class := v div 2 ^ 40 mod 2 ^ 8, hflags := v div 2 ^ 48\<rparr>)\<rparr>"

definition upd_page :: "addr \<Rightarrow> (mp_slab_page \<Rightarrow> mp_slab_page) \<Rightarrow> slab_pool \<Rightarrow> slab_pool" where
  "upd_page p f st = st\<lparr>pages := (pages st)(p := f (pages st p))\<rparr>"

definition set_pg_next :: "addr \<Rightarrow> addr \<Rightarrow> slab_pool \<Rightarrow> slab_pool" where
  "set_pg_next p v = upd_page p (pg_next_update (\<lambda>_. v))"

definition set_pg_prev :: "addr \<Rightarrow> addr \<Rightarrow> slab_pool \<Rightarrow> slab_pool" where
  "set_pg_prev p v = upd_page p (pg_prev_update (\<lambda>_. v))"

definition set_page_head :: "page_list \<Rightarrow> addr \<Rightarrow> slab_pool \<Rightarrow> slab_pool" where
  "set_page_head k v st = st\<lparr>page_heads := (page_heads st)(k := v)\<rparr>"

definition page_of :: "addr \<Rightarrow> addr" where
  "page_of a = a - a mod SLAB_PAGE_SIZE"

section \<open>Page lists\<close>

text \<open>The three list manipulations that the code repeats: linking a page at the front, removing a page
  from anywhere, removing the first page.\<close>

definition push_page :: "page_list \<Rightarrow> addr \<Rightarrow> slab_pool \<Rightarrow> slab_pool" where
  "push_page k page st =
     (let st = set_pg_next page (page_heads st k) st;
          st = set_pg_prev page 0 st;
          st = (if page_heads st k \<noteq> 0 then set_pg_prev (page_heads st k) page st else st)
      in set_page_head k page st)"

definition unlink_page :: "page_list \<Rightarrow> addr \<Rightarrow> slab_pool \<Rightarrow> slab_pool" where
  "unlink_page k pg st =
     (let st = (if pg_prev (pages st pg) \<noteq> 0 then set_pg_next (pg_prev (pages st pg)) (pg_next (pages st pg)) st
                else set_page_head k (pg_next (pages st pg)) st)
      in if pg_next (pages st pg) \<noteq> 0 then set_pg_prev (pg_next (pages st pg)) (pg_prev (pages st pg)) st else st)"

definition pop_first_page :: "page_list \<Rightarrow> addr \<Rightarrow> slab_pool \<Rightarrow> slab_pool" where
  "pop_first_page k page st =
     (let st = set_page_head k (pg_next (pages st page)) st
      in if page_heads st k \<noteq> 0 then set_pg_prev (page_heads st k) 0 st else st)"

section \<open>Initialisation and pages\<close>

definition slab_init :: "slab_config \<Rightarrow> slab_pool \<Rightarrow> slab_pool" where
  "slab_init cfg st =
     st\<lparr>slot_sizes := class_slot_sizes (init_class_sizes cfg), page_heads := (\<lambda>_. 0), empty_page_count := (\<lambda>_. 0),
       remote_free_queue := (\<lambda>_. 0), remote_free_pending := False, remote_free_pending_class := (\<lambda>_. False)\<rparr>"

definition total_slot_size :: "slab_pool \<Rightarrow> nat \<Rightarrow> nat" where
  "total_slot_size st c =
     align_up8 (sizeof_mp_block_header + slot_sizes st ! c + (if has_flag (sflags st) MP_FLAG_DEBUG_CANARY then 1 else 0))"

definition slot_at :: "addr \<Rightarrow> nat \<Rightarrow> nat \<Rightarrow> addr" where
  "slot_at page tsz i = page + sizeof_mp_slab_page + i * tsz"

definition link_slot :: "addr \<Rightarrow> nat \<Rightarrow> nat \<Rightarrow> nat \<Rightarrow> slab_pool \<Rightarrow> slab_pool" where
  "link_slot page tsz n i = set_slot_next (slot_at page tsz i) (if i + 1 < n then slot_at page tsz (i + 1) else 0)"

definition slab_create_page :: "slab_pool \<Rightarrow> nat \<Rightarrow> slab_pool \<times> addr" where
  "slab_create_page st c =
     (case maps st of
        [] \<Rightarrow> (st, 0)
      | start # rest \<Rightarrow>
         (let st = st\<lparr>maps := rest\<rparr>;
              map_size = SLAB_PAGE_SIZE + SLAB_PAGE_SIZE - 1;
              aligned = page_of (start + SLAB_PAGE_SIZE - 1)
          in if start = 0 \<or> start + map_size < aligned + SLAB_PAGE_SIZE then (st, 0)
             else let tsz = total_slot_size st c;
                      n = ((SLAB_PAGE_SIZE - sizeof_mp_slab_page) div tsz) mod 2 ^ 16;
                      st = upd_page aligned (\<lambda>p. p\<lparr>class_index := c, page_raw_mem := aligned, pg_next := 0, pg_prev := 0,
                             is_hot := False, idle_since_ts := 0, total_slots := n, free_count := n,
                             pg_free := slot_at aligned tsz 0, page_free_count := n\<rparr>) st;
                      st = fold (link_slot aligned tsz n) [0..<n] st
                  in (st\<lparr>total_pool_size := (total_pool_size st + SLAB_PAGE_SIZE) mod 2 ^ 64\<rparr>, aligned)))"

section \<open>Taking a slot\<close>

text \<open>First partial page, else an empty page moved to the partial list, else a new page linked there;
  null when no page can be made.\<close>

definition slab_take_page :: "slab_pool \<Rightarrow> nat \<Rightarrow> slab_pool \<times> addr" where
  "slab_take_page st c =
     (if page_heads st (PartialPages c) \<noteq> 0 then (st, page_heads st (PartialPages c))
      else if page_heads st (EmptyPages c) \<noteq> 0
      then let page = page_heads st (EmptyPages c);
               st = pop_first_page (EmptyPages c) page st;
               st = st\<lparr>empty_page_count := (empty_page_count st)(c := empty_page_count st c - 1)\<rparr>
           in (push_page (PartialPages c) page st, page)
      else let (st, page) = slab_create_page st c
           in if page = 0 then (st, 0) else (push_page (PartialPages c) page st, page))"

definition slab_pop_slot :: "slab_pool \<Rightarrow> nat \<Rightarrow> addr \<Rightarrow> slab_pool \<times> addr" where
  "slab_pop_slot st c page =
     (let slot = pg_free (pages st page);
          st = upd_page page (\<lambda>p. p\<lparr>pg_free := slot_next st slot, free_count := (free_count p + 65535) mod 2 ^ 16\<rparr>) st
      in if free_count (pages st page) = 0
         then (push_page (FullPages c) page (pop_first_page (PartialPages c) page st), slot)
         else (st, slot))"

definition add_allocated :: "nat \<Rightarrow> slab_pool \<Rightarrow> slab_pool" where
  "add_allocated n st = st\<lparr>slab_allocated_bytes := (slab_allocated_bytes st + n) mod 2 ^ 64\<rparr>"

definition sub_allocated :: "nat \<Rightarrow> slab_pool \<Rightarrow> slab_pool" where
  "sub_allocated n st =
     st\<lparr>slab_allocated_bytes := (if n \<le> slab_allocated_bytes st then slab_allocated_bytes st - n else 0)\<rparr>"

section \<open>Giving a slot back\<close>

text \<open>The slot joins its page; answered: whether the page was full, whether it is empty now.\<close>

definition slab_free_nolock :: "slab_pool \<Rightarrow> addr \<Rightarrow> slab_pool \<times> bool \<times> bool" where
  "slab_free_nolock st slot =
     (let page = page_of slot;
          was_full = (free_count (pages st page) = 0);
          st = set_slot_next slot (pg_free (pages st page)) st;
          st = upd_page page (\<lambda>p. p\<lparr>pg_free := slot, free_count := (free_count p + 1) mod 2 ^ 16\<rparr>) st;
          st = (if has_flag (sflags st) MP_FLAG_THREAD_SAFE
                then upd_page page (\<lambda>p. p\<lparr>page_free_count := free_count p\<rparr>) st else st)
      in (st, was_full, free_count (pages st page) = total_slots (pages st page)))"

definition slab_transitions :: "nat \<Rightarrow> addr \<Rightarrow> bool \<times> bool \<Rightarrow> slab_pool \<Rightarrow> slab_pool" where
  "slab_transitions c slot = (\<lambda>(full_to_partial, partial_to_empty) st.
     let pg = page_of slot;
         st = (if full_to_partial then push_page (PartialPages c) pg (unlink_page (FullPages c) pg st) else st)
     in if partial_to_empty
        then let st = upd_page pg (idle_since_ts_update (\<lambda>_. now_ms st)) st;
                 st = push_page (EmptyPages c) pg (unlink_page (PartialPages c) pg st)
             in st\<lparr>empty_page_count := (empty_page_count st)(c := empty_page_count st c + 1)\<rparr>
        else st)"

text \<open>\<open>header\<close> is the address of the block header; its class is read before the link overwrites it.\<close>

definition slab_free :: "slab_pool \<Rightarrow> addr \<Rightarrow> slab_pool" where
  "slab_free st header =
     (let c = slab_class (shdr st header);
          slot = raw_base (shdr st header);
          st = sub_allocated (slot_sizes st ! c) st;
          (st, trans) = slab_free_nolock st slot
      in slab_transitions c slot trans st)"

text \<open>The header fields that the flushing loops restore before they free a cached slot.\<close>

definition restamp :: "nat \<Rightarrow> addr \<Rightarrow> slab_pool \<Rightarrow> slab_pool" where
  "restamp c slot st =
     st\<lparr>shdr := (shdr st)(slot := (shdr st slot)\<lparr>magic := MP_MAGIC_HEAD, alloc_type := ALLOC_TYPE_SLAB,
          slab_class := c, raw_base := slot\<rparr>)\<rparr>"

definition bad_slot :: "addr \<Rightarrow> bool" where
  "bad_slot slot \<longleftrightarrow> slot AND 7 \<noteq> 0 \<or> slot < 0x10000"

section \<open>Slots freed by other threads\<close>

definition remote_free_push :: "slab_pool \<Rightarrow> nat \<Rightarrow> addr \<Rightarrow> slab_pool" where
  "remote_free_push st c slot =
     (if SLAB_CLASS_COUNT \<le> c \<or> slot = 0 then st
      else let st = set_slot_next slot (remote_free_queue st c) st
           in st\<lparr>remote_free_queue := (remote_free_queue st)(c := slot), remote_free_pending := True,
                remote_free_pending_class := (remote_free_pending_class st)(c := True)\<rparr>)"

text \<open>The loop over the detached queue; \<open>None\<close> when it does not end.\<close>

partial_function (option) harvest_loop :: "nat \<Rightarrow> addr \<Rightarrow> slab_pool \<Rightarrow> slab_pool option" where
  "harvest_loop c slot st =
     (if slot = 0 \<or> bad_slot slot then Some st
      else let nxt = slot_next st slot;
               st = restamp c slot st;
               (st, trans) = slab_free_nolock st slot;
               st = slab_transitions c slot trans st
           in harvest_loop c nxt (sub_allocated (slot_sizes st ! c) st))"

definition remote_free_harvest :: "slab_pool \<Rightarrow> nat \<Rightarrow> slab_pool option" where
  "remote_free_harvest st c =
     (if SLAB_CLASS_COUNT \<le> c \<or> \<not> remote_free_pending_class st c then Some st
      else let st = st\<lparr>remote_free_pending_class := (remote_free_pending_class st)(c := False)\<rparr>;
               head = remote_free_queue st c;
               st = st\<lparr>remote_free_queue := (remote_free_queue st)(c := 0)\<rparr>
           in harvest_loop c head st)"

text \<open>\<open>remote_free_harvest_all\<close> repeats the body of \<open>remote_free_harvest\<close> for every class.\<close>

fun harvest_classes :: "nat list \<Rightarrow> slab_pool \<Rightarrow> slab_pool option" where
  "harvest_classes [] st = Some st"
| "harvest_classes (c # cs) st = Option.bind (remote_free_harvest st c) (harvest_classes cs)"

definition remote_free_harvest_all :: "slab_pool \<Rightarrow> slab_pool option" where
  "remote_free_harvest_all st =
     (if \<not> remote_free_pending st then Some st
      else harvest_classes [0..<SLAB_CLASS_COUNT] (st\<lparr>remote_free_pending := False\<rparr>))"

section \<open>Allocating slots\<close>

definition slab_alloc_slot :: "slab_pool \<Rightarrow> nat \<Rightarrow> (slab_pool \<times> addr) option" where
  "slab_alloc_slot st c =
     map_option (\<lambda>st. let (st, page) = slab_take_page st c
                      in if page = 0 then (st, 0)
                         else let (st, slot) = slab_pop_slot st c page
                              in (add_allocated (slot_sizes st ! c) st, slot))
       (if remote_free_pending_class st c then remote_free_harvest st c else Some st)"

definition stamp_payload :: "addr \<Rightarrow> nat \<Rightarrow> slab_pool \<Rightarrow> slab_pool" where
  "stamp_payload payload req st =
     (let st = (if has_flag (sflags st) MP_FLAG_DEBUG_CANARY
                then st\<lparr>smem := (smem st)(payload + req := MP_CANARY_BYTE)\<rparr> else st)
      in if has_flag (sflags st) MP_FLAG_ZERO_ON_ALLOC then st\<lparr>smem := memset payload 0 req (smem st)\<rparr> else st)"

definition slab_alloc :: "slab_pool \<Rightarrow> nat \<Rightarrow> nat \<Rightarrow> (slab_pool \<times> addr) option" where
  "slab_alloc st c req =
     map_option (\<lambda>(st, slot).
       if slot = 0 then (st, 0)
       else let st = st\<lparr>shdr := (shdr st)(slot := (shdr st slot)\<lparr>magic := MP_MAGIC_HEAD, alloc_type := ALLOC_TYPE_SLAB,
                       slab_class := c, hflags := 0, requested_size := req, usable_size := slot_sizes st ! c,
                       raw_base := slot, subpool := 0, alloc_file := 0, alloc_line := 0, alloc_func := 0,
                       backtrace_depth := 0\<rparr>)\<rparr>;
                payload = slot + sizeof_mp_block_header
            in (stamp_payload payload req st, payload))
       (slab_alloc_slot st c)"

text \<open>Up to \<open>n\<close> slots under one lock, in the order they are taken.\<close>

fun take_slots :: "nat \<Rightarrow> slab_pool \<Rightarrow> nat \<Rightarrow> slab_pool \<times> addr list" where
  "take_slots 0 st c = (st, [])"
| "take_slots (Suc n) st c =
     (let (st, page) = slab_take_page st c
      in if page = 0 then (st, [])
         else let (st, slot) = slab_pop_slot st c page;
                  (st, slots) = take_slots n st c
              in (st, slot # slots))"

definition slab_alloc_batch :: "slab_pool \<Rightarrow> nat \<Rightarrow> nat \<Rightarrow> slab_pool \<times> addr list" where
  "slab_alloc_batch st c max_count =
     (let (st, slots) = take_slots max_count st c
      in (add_allocated ((length slots * slot_sizes st ! c) mod 2 ^ 64) st, slots))"

end
