(* ===== verification/Slab_Cache.thy ===== *)
theory Slab_Cache
  imports Slab_Pages
begin

text \<open>
  The caches in front of the slab pages (\<open>src/src/cmem_slab.c\<close>): the per-thread cache with its refill and
  flush, the per-CPU lists, and the slab tier of \<open>mp_alloc_internal\<close> and of \<open>mp_free\<close>
  (\<open>src/src/cmem_alloc.c\<close>) that go through them.
\<close>

section \<open>Thread cache\<close>

definition tls_push :: "nat \<Rightarrow> nat \<Rightarrow> addr \<Rightarrow> slab_pool \<Rightarrow> slab_pool" where
  "tls_push t c slot st =
     (let st = set_slot_next slot (tslots (tls st t) c) st;
          tc = tls st t
      in st\<lparr>tls := (tls st)(t := tc\<lparr>tslots := (tslots tc)(c := slot), tcounts := (tcounts tc)(c := (tcounts tc c + 1) mod 2 ^ 16)\<rparr>)\<rparr>)"

definition tls_pop :: "nat \<Rightarrow> nat \<Rightarrow> slab_pool \<Rightarrow> slab_pool \<times> addr" where
  "tls_pop t c st =
     (let tc = tls st t; slot = tslots tc c
      in (st\<lparr>tls := (tls st)(t := tc\<lparr>tslots := (tslots tc)(c := slot_next st slot), tcounts := (tcounts tc)(c := tcounts tc c - 1)\<rparr>)\<rparr>,
          slot))"

fun drain_loop :: "nat \<Rightarrow> nat \<Rightarrow> nat \<Rightarrow> slab_pool \<Rightarrow> slab_pool \<times> nat" where
  "drain_loop 0 t c st = (st, 0)"
| "drain_loop (Suc n) t c st =
     (let (st, page) = slab_take_page st c
      in if page = 0 then (st, 0)
         else let (st, slot) = slab_pop_slot st c page;
                  (st, got) = drain_loop n t c (tls_push t c slot st)
              in (st, got + 1))"

definition tls_cache_drain_slots :: "slab_pool \<Rightarrow> nat \<Rightarrow> nat \<Rightarrow> nat \<Rightarrow> slab_pool \<times> nat" where
  "tls_cache_drain_slots st t c n =
     (let (st, got) = drain_loop n t c st
      in (add_allocated ((got * slot_sizes st ! c) mod 2 ^ 64) st, got))"

definition tls_cache_refill :: "slab_pool \<Rightarrow> nat \<Rightarrow> nat \<Rightarrow> slab_pool" where
  "tls_cache_refill st t c = fst (tls_cache_drain_slots st t c 64)"

text \<open>The third phase links a new page nowhere: see \<open>refill_direct\<close>.\<close>

definition refill_direct :: "slab_pool \<Rightarrow> nat \<Rightarrow> slab_pool \<times> addr" where
  "refill_direct st c =
     (let (st, page) =
        (if page_heads st (PartialPages c) \<noteq> 0 then (st, page_heads st (PartialPages c))
         else if page_heads st (EmptyPages c) \<noteq> 0
         then let page = page_heads st (EmptyPages c);
                  st = pop_first_page (EmptyPages c) page st;
                  st = st\<lparr>empty_page_count := (empty_page_count st)(c := empty_page_count st c - 1)\<rparr>
              in (push_page (PartialPages c) page st, page)
         else slab_create_page st c)
      in if page = 0 then (st, 0)
         else let (st, slot) = slab_pop_slot st c page
              in (add_allocated (slot_sizes st ! c) st, slot))"

definition slab_alloc_with_tls_refill :: "slab_pool \<Rightarrow> nat \<Rightarrow> nat \<Rightarrow> slab_pool \<times> addr" where
  "slab_alloc_with_tls_refill st t c =
     (let st = fst (tls_cache_drain_slots st t c 64);
          (st, slot) = (if 0 < tcounts (tls st t) c then tls_pop t c st else (st, 0))
      in if slot = 0 then refill_direct st c else (st, slot))"

text \<open>Flushing: the loop over one class, \<open>None\<close> when it does not end.\<close>

definition set_tls_slots :: "nat \<Rightarrow> nat \<Rightarrow> addr \<Rightarrow> slab_pool \<Rightarrow> slab_pool" where
  "set_tls_slots t c v st = st\<lparr>tls := (tls st)(t := (tls st t)\<lparr>tslots := (tslots (tls st t))(c := v)\<rparr>)\<rparr>"

definition set_tls_counts :: "nat \<Rightarrow> nat \<Rightarrow> nat \<Rightarrow> slab_pool \<Rightarrow> slab_pool" where
  "set_tls_counts t c v st = st\<lparr>tls := (tls st)(t := (tls st t)\<lparr>tcounts := (tcounts (tls st t))(c := v)\<rparr>)\<rparr>"

partial_function (option) tls_flush_loop :: "nat \<Rightarrow> nat \<Rightarrow> slab_pool \<Rightarrow> slab_pool option" where
  "tls_flush_loop t c st =
     (let slot = tslots (tls st t) c
      in if slot = 0 then Some st
         else if bad_slot slot then Some (set_tls_slots t c 0 st)
         else let st = set_tls_slots t c (slot_next st slot) st;
                  st = restamp c slot st
              in tls_flush_loop t c (slab_free st slot))"

fun tls_flush_classes :: "nat \<Rightarrow> nat list \<Rightarrow> slab_pool \<Rightarrow> slab_pool option" where
  "tls_flush_classes t [] st = Some st"
| "tls_flush_classes t (c # cs) st =
     Option.bind (tls_flush_loop t c st) (\<lambda>st. tls_flush_classes t cs (set_tls_counts t c 0 st))"

definition set_owned :: "nat \<Rightarrow> bool \<Rightarrow> slab_pool \<Rightarrow> slab_pool" where
  "set_owned t b st = st\<lparr>tls := (tls st)(t := (tls st t)\<lparr>owned := b\<rparr>)\<rparr>"

definition tls_cache_flush_pool :: "slab_pool \<Rightarrow> nat \<Rightarrow> slab_pool option" where
  "tls_cache_flush_pool st t =
     (if owned (tls st t) then tls_flush_classes t [0..<SLAB_CLASS_COUNT] (set_owned t False st) else Some st)"

definition tls_cache_validate_owner :: "slab_pool \<Rightarrow> nat \<Rightarrow> slab_pool" where
  "tls_cache_validate_owner st t =
     (if owned (tls st t) then st
      else st\<lparr>tls := (tls st)(t := (tls st t)\<lparr>owned := True, tslots := (\<lambda>_. 0), tcounts := (\<lambda>_. 0)\<rparr>)\<rparr>)"

section \<open>Per-CPU lists\<close>

definition percpu_init :: "int \<Rightarrow> bool \<Rightarrow> slab_pool \<Rightarrow> slab_pool" where
  "percpu_init nproc calloc_ok st =
     (if percpu_heads st \<noteq> None then st
      else let n = (if nproc \<le> 0 then 1 else nproc);
               n = (if 256 < n then 256 else n)
           in if calloc_ok then st\<lparr>num_cpus := nat n, percpu_heads := Some (\<lambda>_. 0), percpu_counts := (\<lambda>_. 0)\<rparr>
              else st\<lparr>num_cpus := 0\<rparr>)"

definition percpu_index :: "nat \<Rightarrow> nat \<Rightarrow> nat" where
  "percpu_index cpu c = cpu * SLAB_CLASS_COUNT + c"

text \<open>\<open>cas_ok\<close>: the weak compare-and-swap succeeded.\<close>

definition percpu_pop :: "bool \<Rightarrow> slab_pool \<Rightarrow> nat \<Rightarrow> nat \<Rightarrow> slab_pool \<times> addr" where
  "percpu_pop cas_ok st cpu c =
     (case percpu_heads st of
        None \<Rightarrow> (st, 0)
      | Some hs \<Rightarrow>
         if num_cpus st \<le> cpu then (st, 0)
         else let i = percpu_index cpu c; slot = hs i
              in if slot = 0 \<or> \<not> cas_ok then (st, 0)
                 else (st\<lparr>percpu_heads := Some (hs(i := slot_next st slot)),
                         percpu_counts := (percpu_counts st)(i := percpu_counts st i - 1)\<rparr>, slot))"

fun chain_slots :: "addr list \<Rightarrow> addr \<Rightarrow> slab_pool \<Rightarrow> slab_pool" where
  "chain_slots [] old_head st = st"
| "chain_slots [slot] old_head st = set_slot_next slot old_head st"
| "chain_slots (slot # slot' # rest) old_head st = chain_slots (slot' # rest) old_head (set_slot_next slot slot' st)"

definition percpu_refill :: "slab_pool \<Rightarrow> nat \<Rightarrow> nat \<Rightarrow> slab_pool" where
  "percpu_refill st cpu c =
     (case percpu_heads st of
        None \<Rightarrow> st
      | Some hs \<Rightarrow>
         let i = percpu_index cpu c
         in if num_cpus st \<le> cpu \<or> MP_PERCPU_MAX_BATCH div 2 < percpu_counts st i then st
            else let (st, slots) = slab_alloc_batch st c MP_PERCPU_MAX_BATCH
                 in case slots of
                      [] \<Rightarrow> st
                    | head # _ \<Rightarrow>
                       let st = chain_slots slots (hs i) st
                       in st\<lparr>percpu_heads := Some (hs(i := head)),
                            percpu_counts := (percpu_counts st)(i := percpu_counts st i + length slots)\<rparr>)"

definition percpu_push :: "slab_pool \<Rightarrow> nat \<Rightarrow> nat \<Rightarrow> addr \<Rightarrow> slab_pool \<times> bool" where
  "percpu_push st cpu c slot =
     (case percpu_heads st of
        None \<Rightarrow> (st, False)
      | Some hs \<Rightarrow>
         let i = percpu_index cpu c
         in if num_cpus st \<le> cpu \<or> MP_PERCPU_MAX_BATCH \<le> percpu_counts st i then (st, False)
            else let st = set_slot_next slot (hs i) st
                 in (st\<lparr>percpu_heads := Some (hs(i := slot)),
                       percpu_counts := (percpu_counts st)(i := percpu_counts st i + 1)\<rparr>, True))"

partial_function (option) percpu_flush_loop :: "nat \<Rightarrow> addr \<Rightarrow> slab_pool \<Rightarrow> slab_pool option" where
  "percpu_flush_loop c slot st =
     (if slot = 0 \<or> bad_slot slot then Some st
      else let nxt = slot_next st slot;
               st = restamp c slot st
           in percpu_flush_loop c nxt (slab_free st slot))"

fun percpu_flush_entries :: "(nat \<times> nat) list \<Rightarrow> slab_pool \<Rightarrow> slab_pool option" where
  "percpu_flush_entries [] st = Some st"
| "percpu_flush_entries ((cpu, c) # es) st =
     (case percpu_heads st of
        None \<Rightarrow> None
      | Some hs \<Rightarrow>
         let i = percpu_index cpu c;
             st = st\<lparr>percpu_heads := Some (hs(i := 0)), percpu_counts := (percpu_counts st)(i := 0)\<rparr>
         in Option.bind (percpu_flush_loop c (hs i) st) (percpu_flush_entries es))"

definition percpu_flush :: "slab_pool \<Rightarrow> slab_pool option" where
  "percpu_flush st =
     (if percpu_heads st = None then Some st
      else percpu_flush_entries [(cpu, c). cpu \<leftarrow> [0..<num_cpus st], c \<leftarrow> [0..<SLAB_CLASS_COUNT]] st)"

definition percpu_destroy :: "slab_pool \<Rightarrow> slab_pool option" where
  "percpu_destroy st =
     (if percpu_heads st = None then Some st
      else map_option (\<lambda>st. st\<lparr>percpu_heads := None, num_cpus := 0\<rparr>) (percpu_flush st))"

definition mp_set_percpu_freelist :: "int \<Rightarrow> bool \<Rightarrow> slab_pool \<Rightarrow> bool \<Rightarrow> slab_pool option" where
  "mp_set_percpu_freelist nproc calloc_ok st enable =
     (if enable
      then let st = st\<lparr>sflags := sflags st OR MP_FLAG_PERCPU_FREELIST\<rparr>
           in Some (if percpu_heads st = None then percpu_init nproc calloc_ok st else st)
      else percpu_destroy (st\<lparr>sflags := clear_flag (sflags st) MP_FLAG_PERCPU_FREELIST\<rparr>))"

definition mp_get_percpu_freelist :: "slab_pool \<Rightarrow> bool" where
  "mp_get_percpu_freelist st \<longleftrightarrow> has_flag (sflags st) MP_FLAG_PERCPU_FREELIST \<and> percpu_heads st \<noteq> None"

definition mp_get_percpu_cpu_count :: "slab_pool \<Rightarrow> nat" where
  "mp_get_percpu_cpu_count st = num_cpus st"

section \<open>The slab tier of allocation and release\<close>

definition MP_FLAG_FAST_PATH :: nat where "MP_FLAG_FAST_PATH = 2 ^ 18"

text \<open>Finding a slot for class \<open>c\<close>: thread cache, per-CPU list, pages.\<close>

definition tier_slot :: "bool \<Rightarrow> bool \<Rightarrow> slab_pool \<Rightarrow> nat \<Rightarrow> nat \<Rightarrow> nat \<Rightarrow> slab_pool \<times> addr" where
  "tier_slot cas1 cas2 st t cpu c =
     (let (st, slot) =
        (if 0 < tcounts (tls st t) c then tls_pop t c st
         else if percpu_heads st \<noteq> None
         then let (st, slot) = percpu_pop cas1 st cpu c
              in if slot = 0 then percpu_pop cas2 (percpu_refill st cpu c) cpu c else (st, slot)
         else (st, 0))
      in if slot = 0 then slab_alloc_with_tls_refill st t c else (st, slot))"

definition stamp_slab_header :: "addr \<Rightarrow> addr \<Rightarrow> nat \<Rightarrow> nat \<Rightarrow> slab_pool \<Rightarrow> slab_pool" where
  "stamp_slab_header self slot c req st =
     (let h = (shdr st slot)\<lparr>alloc_type := ALLOC_TYPE_SLAB, slab_class := c, hflags := MP_BLOCK_FLAG_COUNTED,
                requested_size := req, usable_size := slot_sizes st ! c, raw_base := slot, subpool := self,
                magic := MP_MAGIC_HEAD\<rparr>;
          h = (if has_flag (sflags st) MP_FLAG_FAST_PATH then h
               else h\<lparr>alloc_file := 0, alloc_line := 0, alloc_func := 0, backtrace_depth := 0, hprev := 0, hnext := 0\<rparr>)
      in st\<lparr>shdr := (shdr st)(slot := h)\<rparr>)"

text \<open>\<open>self\<close> is the address of the pool, \<open>t\<close> the calling thread, \<open>c\<close> the class of the request.\<close>

definition slab_tier_alloc ::
  "bool \<Rightarrow> bool \<Rightarrow> addr \<Rightarrow> slab_pool \<Rightarrow> nat \<Rightarrow> nat \<Rightarrow> nat \<Rightarrow> nat \<Rightarrow> (slab_pool \<times> addr) option" where
  "slab_tier_alloc cas1 cas2 self st t cpu c req =
     (let st = tls_cache_validate_owner st t
      in map_option (\<lambda>st.
           let (st, slot) = tier_slot cas1 cas2 st t cpu c
           in if slot = 0 then (st, 0)
              else let payload = slot + sizeof_mp_block_header
                   in (stamp_payload payload req (stamp_slab_header self slot c req st), payload))
           (if has_flag (sflags st) MP_FLAG_THREAD_SAFE \<and> remote_free_pending st then remote_free_harvest_all st else Some st))"

text \<open>Where a released slot goes.\<close>

definition place_slot :: "slab_pool \<Rightarrow> nat \<Rightarrow> nat \<Rightarrow> addr \<Rightarrow> slab_pool" where
  "place_slot st t cpu header =
     (let c = slab_class (shdr st header);
          slot = raw_base (shdr st header)
      in if tcounts (tls st t) c < TLS_CACHE_MAX_SLOTS then tls_push t c slot st
         else let (st, pushed) = percpu_push st cpu c slot
              in if pushed then st
                 else if has_flag (sflags st) MP_FLAG_THREAD_SAFE then remote_free_push st c slot
                 else slab_free st header)"

definition slab_tier_free :: "slab_pool \<Rightarrow> nat \<Rightarrow> nat \<Rightarrow> addr \<Rightarrow> slab_pool" where
  "slab_tier_free st t cpu ptr = place_slot (tls_cache_validate_owner st t) t cpu (ptr - sizeof_mp_block_header)"

end
