(* ===== verification/Slab_Inv.thy ===== *)
theory Slab_Inv
  imports Slab_Cache
begin

text \<open>
  The invariant of the slab tier, and its preservation by the operations on pages: taking a page, popping
  a slot, creating a page, giving a slot back.  Every slot of every page is in exactly one place: in the
  free list of its page, in a queue or cache, or handed out.  Page lists are a family of disjoint doubly
  linked lists, the places of free slots a family of disjoint chains.
\<close>

section \<open>Assignments\<close>

lemma join_split64: "(v::nat) mod 2 ^ 32 + v div 2 ^ 32 mod 2 ^ 8 * 2 ^ 32 + v div 2 ^ 40 mod 2 ^ 8 * 2 ^ 40 + v div 2 ^ 48 * 2 ^ 48 = v"
proof -
  have split: "a mod A + a div A mod B * A + a div (A * B) mod B * (A * B) + a div (A * B * B) * (A * B * B) = a"
    for a A B :: nat
  proof -
    have "a div (A * B) * B = (a div A) div B * B" "a div (A * B * B) * B = (a div (A * B)) div B * B"
      by (simp_all only: div_mult2_eq)
    then have 1: "a div A = a div A mod B + a div (A * B) * B" "a div (A * B) = a div (A * B) mod B + a div (A * B * B) * B"
      by (simp_all only: mod_div_mult_eq)
    have "a mod A + (a div A mod B + (a div (A * B) mod B + a div (A * B * B) * B) * B) * A = a"
      by (simp only: 1 [symmetric] mod_div_mult_eq)
    then show ?thesis
      by (simp only: add_mult_distrib add.assoc mult.assoc mult.commute [of B A] mult.left_commute [of B A])
  qed
  show ?thesis
    using split [of v "2 ^ 32" "2 ^ 8"] by simp
qed

lemma slot_next_set [simp]: "slot_next (set_slot_next s v st) = (slot_next st)(s := v)"
  using join_split64 [of v] by (auto simp: slot_next_def set_slot_next_def Let_def)

lemma slot_next_cong: "shdr st' = shdr st \<Longrightarrow> slot_next st' = slot_next st"
  by (auto simp: slot_next_def)

abbreviation pgn :: "slab_pool \<Rightarrow> addr \<Rightarrow> addr" where "pgn st \<equiv> \<lambda>p. pg_next (pages st p)"
abbreviation pgp :: "slab_pool \<Rightarrow> addr \<Rightarrow> addr" where "pgp st \<equiv> \<lambda>p. pg_prev (pages st p)"

interpretation slab_dll: dll_store pgn pgp set_pg_next set_pg_prev
  by unfold_locales (auto simp: set_pg_next_def set_pg_prev_def upd_page_def)

lemma page_heads_set [simp]:
  "page_heads (set_pg_next p v st) = page_heads st" "page_heads (set_pg_prev p v st) = page_heads st"
  "pages (set_page_head k v st) = pages st" "page_heads (set_page_head k v st) = (page_heads st)(k := v)"
  by (simp_all add: set_pg_next_def set_pg_prev_def set_page_head_def upd_page_def)

text \<open>What the list manipulations leave alone: everything but the links of pages and the list heads.\<close>

definition links_only :: "slab_pool \<Rightarrow> slab_pool \<Rightarrow> bool" where
  "links_only st st' \<longleftrightarrow>
     (\<exists>P h. st' = st\<lparr>pages := P, page_heads := h\<rparr>
        \<and> (\<forall>p. \<exists>n q. P p = (pages st p)\<lparr>pg_next := n, pg_prev := q\<rparr>))"

lemma links_only_refl: "links_only st st"
proof -
  have "\<exists>n q. pages st p = (pages st p)\<lparr>pg_next := n, pg_prev := q\<rparr>" for p
    by (rule exI [of _ "pg_next (pages st p)"], rule exI [of _ "pg_prev (pages st p)"]) simp
  then show ?thesis
    unfolding links_only_def by (intro exI [of _ "pages st"] exI [of _ "page_heads st"]) simp
qed

lemma links_only_step:
  assumes "links_only st st'"
  shows "links_only st (set_page_head k v st')" "links_only st (set_pg_next p v st')" "links_only st (set_pg_prev p v st')"
proof -
  obtain P h where st': "st' = st\<lparr>pages := P, page_heads := h\<rparr>"
    and P: "\<And>p. \<exists>n q. P p = (pages st p)\<lparr>pg_next := n, pg_prev := q\<rparr>"
    using assms unfolding links_only_def by blast
  show "links_only st (set_page_head k v st')"
    unfolding links_only_def set_page_head_def st' using P
    by (intro exI [of _ P] exI [of _ "h(k := v)"]) simp
  obtain n q where "P p = (pages st p)\<lparr>pg_next := n, pg_prev := q\<rparr>"
    using P by blast
  then have "(P p)\<lparr>pg_next := v\<rparr> = (pages st p)\<lparr>pg_next := v, pg_prev := q\<rparr>"
    "(P p)\<lparr>pg_prev := v\<rparr> = (pages st p)\<lparr>pg_next := n, pg_prev := v\<rparr>"
    by simp_all
  then have 1: "\<exists>n q. (P(p := (P p)\<lparr>pg_next := v\<rparr>)) x = (pages st x)\<lparr>pg_next := n, pg_prev := q\<rparr>"
    and 2: "\<exists>n q. (P(p := (P p)\<lparr>pg_prev := v\<rparr>)) x = (pages st x)\<lparr>pg_next := n, pg_prev := q\<rparr>" for x
    using P [of x] by (metis fun_upd_apply)+
  show "links_only st (set_pg_next p v st')"
    unfolding links_only_def set_pg_next_def upd_page_def st' using 1
    by (intro exI [of _ "P(p := (P p)\<lparr>pg_next := v\<rparr>)"] exI [of _ h]) simp
  show "links_only st (set_pg_prev p v st')"
    unfolding links_only_def set_pg_prev_def upd_page_def st' using 2
    by (intro exI [of _ "P(p := (P p)\<lparr>pg_prev := v\<rparr>)"] exI [of _ h]) simp
qed

lemma links_only_ops: "links_only st (push_page k x st)" "links_only st (unlink_page k x st)"
  unfolding push_page_def unlink_page_def Let_def
  by (auto intro!: links_only_step links_only_refl)

lemma links_onlyD:
  assumes "links_only st st'"
  shows "sflags st' = sflags st" "slot_sizes st' = slot_sizes st" "empty_page_count st' = empty_page_count st"
    "remote_free_queue st' = remote_free_queue st" "remote_free_pending st' = remote_free_pending st"
    "remote_free_pending_class st' = remote_free_pending_class st" "slab_allocated_bytes st' = slab_allocated_bytes st"
    "total_pool_size st' = total_pool_size st" "percpu_heads st' = percpu_heads st" "percpu_counts st' = percpu_counts st"
    "num_cpus st' = num_cpus st" "shdr st' = shdr st" "smem st' = smem st" "tls st' = tls st" "maps st' = maps st"
    "now_ms st' = now_ms st"
    "class_index (pages st' p) = class_index (pages st p)" "free_count (pages st' p) = free_count (pages st p)"
    "total_slots (pages st' p) = total_slots (pages st p)" "pg_free (pages st' p) = pg_free (pages st p)"
    "page_raw_mem (pages st' p) = page_raw_mem (pages st p)" "is_hot (pages st' p) = is_hot (pages st p)"
    "idle_since_ts (pages st' p) = idle_since_ts (pages st p)"
proof -
  obtain P h where st': "st' = st\<lparr>pages := P, page_heads := h\<rparr>"
    and P: "\<And>p. \<exists>n q. P p = (pages st p)\<lparr>pg_next := n, pg_prev := q\<rparr>"
    using assms unfolding links_only_def by blast
  obtain n q where "P p = (pages st p)\<lparr>pg_next := n, pg_prev := q\<rparr>"
    using P by blast
  then show "class_index (pages st' p) = class_index (pages st p)" "free_count (pages st' p) = free_count (pages st p)"
    "total_slots (pages st' p) = total_slots (pages st p)" "pg_free (pages st' p) = pg_free (pages st p)"
    "page_raw_mem (pages st' p) = page_raw_mem (pages st p)" "is_hot (pages st' p) = is_hot (pages st p)"
    "idle_since_ts (pages st' p) = idle_since_ts (pages st p)"
    by (simp_all add: st')
qed (use assms in \<open>auto simp: links_only_def\<close>)

lemmas link_frames [simp] = links_onlyD [OF links_only_ops(1)] links_onlyD [OF links_only_ops(2)]

lemma page_heads_push [simp]: "page_heads (push_page k x st) = (page_heads st)(k := x)"
  by (auto simp: push_page_def Let_def)

lemma push_page_lists:
  assumes "dlls (pgn st) (pgp st) (page_heads st) D" "\<And>l. x \<notin> set (D l)" "x \<noteq> 0"
  shows "dlls (pgn (push_page k x st)) (pgp (push_page k x st)) (page_heads (push_page k x st)) (D(k := x # D k))"
proof -
  let ?s1 = "set_pg_prev x 0 (set_pg_next x (page_heads st k) st)"
  let ?s2 = "if page_heads st k \<noteq> 0 then set_pg_prev (page_heads st k) x ?s1 else ?s1"
  have "dlls (pgn ?s2) (pgp ?s2) ((page_heads st)(k := x)) (D(k := x # D k))"
    by (rule slab_dll.family_push [OF assms refl refl])
  moreover have "push_page k x st = set_page_head k x ?s2"
    by (simp add: push_page_def Let_def)
  then have "pages (push_page k x st) = pages ?s2"
    by (simp only: page_heads_set)
  ultimately show ?thesis
    by (simp only: page_heads_push)
qed

lemma unlink_page_lists:
  assumes "dlls (pgn st) (pgp st) (page_heads st) D" "x \<in> set (D k)"
  shows "dlls (pgn (unlink_page k x st)) (pgp (unlink_page k x st)) (page_heads (unlink_page k x st)) (D(k := remove1 x (D k)))"
proof -
  let ?s1 = "if pgp st x \<noteq> 0 then set_pg_next (pgp st x) (pgn st x) st else st"
  let ?s2 = "if pgn ?s1 x \<noteq> 0 then set_pg_prev (pgn ?s1 x) (pgp ?s1 x) ?s1 else ?s1"
  let ?a = "if pgp st x \<noteq> 0 then page_heads st k else pgn st x"
  have "dlls (pgn ?s2) (pgp ?s2) ((page_heads st)(k := ?a)) (D(k := remove1 x (D k)))"
    by (rule slab_dll.family_unlink [OF assms refl refl refl])
  moreover have "pages (unlink_page k x st) = pages ?s2"
    by (simp add: unlink_page_def Let_def set_page_head_def set_pg_next_def set_pg_prev_def upd_page_def)
  moreover have "page_heads (unlink_page k x st) = (page_heads st)(k := ?a)"
    by (auto simp: unlink_page_def Let_def)
  ultimately show ?thesis
    by simp
qed

text \<open>Removing the first page is removing a page without predecessor.\<close>

lemma pop_first_is_unlink: "pgp st x = 0 \<Longrightarrow> pop_first_page k x st = unlink_page k x st"
  by (simp add: pop_first_page_def unlink_page_def Let_def set_page_head_def)

section \<open>Geometry of a page\<close>

definition nslots :: "slab_pool \<Rightarrow> nat \<Rightarrow> nat" where
  "nslots st c = ((SLAB_PAGE_SIZE - sizeof_mp_slab_page) div total_slot_size st c) mod 2 ^ 16"

definition page_slots :: "slab_pool \<Rightarrow> nat \<Rightarrow> addr \<Rightarrow> addr set" where
  "page_slots st c p = slot_at p (total_slot_size st c) ` {..<nslots st c}"

text \<open>The class sizes for which a page holds at least one slot.\<close>

definition sizes_ok :: "slab_pool \<Rightarrow> bool" where
  "sizes_ok st \<longleftrightarrow> length (slot_sizes st) = SLAB_CLASS_COUNT
     \<and> (\<forall>c < SLAB_CLASS_COUNT. sizeof_mp_block_header + slot_sizes st ! c + 8 \<le> SLAB_PAGE_SIZE - sizeof_mp_slab_page)"

lemma total_slot_size_bounds:
  assumes "sizes_ok st" "c < SLAB_CLASS_COUNT"
  shows "sizeof_mp_block_header + slot_sizes st ! c \<le> total_slot_size st c"
    "has_flag (sflags st) MP_FLAG_DEBUG_CANARY \<Longrightarrow> sizeof_mp_block_header + slot_sizes st ! c + 1 \<le> total_slot_size st c"
    "total_slot_size st c \<le> SLAB_PAGE_SIZE - sizeof_mp_slab_page" "total_slot_size st c mod 8 = 0"
    "0 < nslots st c" "nslots st c < 2 ^ 16" "nslots st c * total_slot_size st c \<le> SLAB_PAGE_SIZE - sizeof_mp_slab_page"
proof -
  let ?n = "sizeof_mp_block_header + slot_sizes st ! c + (if has_flag (sflags st) MP_FLAG_DEBUG_CANARY then 1 else 0)"
  have le: "sizeof_mp_block_header + slot_sizes st ! c + 8 \<le> SLAB_PAGE_SIZE - sizeof_mp_slab_page"
    using assms by (simp add: sizes_ok_def)
  then have "?n + 7 \<le> SLAB_PAGE_SIZE - sizeof_mp_slab_page"
    by simp
  moreover from this have "?n + 7 < 2 ^ 64"
    by (simp add: SLAB_PAGE_SIZE_def)
  ultimately have b: "?n \<le> total_slot_size st c" "total_slot_size st c < ?n + 8"
    using align_up8_bounds [of ?n] by (simp_all add: total_slot_size_def)
  then show "sizeof_mp_block_header + slot_sizes st ! c \<le> total_slot_size st c"
    "has_flag (sflags st) MP_FLAG_DEBUG_CANARY \<Longrightarrow> sizeof_mp_block_header + slot_sizes st ! c + 1 \<le> total_slot_size st c"
    by simp_all
  show t: "total_slot_size st c \<le> SLAB_PAGE_SIZE - sizeof_mp_slab_page"
    using b(2) \<open>?n + 7 \<le> _\<close> by linarith
  show "total_slot_size st c mod 8 = 0"
    by (simp add: total_slot_size_def)
  have pos: "152 \<le> total_slot_size st c"
    using b(1) by (simp add: sizeof_mp_block_header_def)
  let ?q = "(SLAB_PAGE_SIZE - sizeof_mp_slab_page) div total_slot_size st c"
  have "SLAB_PAGE_SIZE - sizeof_mp_slab_page < 2 ^ 16"
    by (simp add: SLAB_PAGE_SIZE_def sizeof_mp_slab_page_def)
  then have q: "?q < 2 ^ 16"
    by (rule order.strict_trans1 [OF div_le_dividend])
  then have n: "nslots st c = ?q"
    by (simp add: nslots_def)
  show "nslots st c < 2 ^ 16"
    using q n by simp
  show "0 < nslots st c"
    using t pos by (simp add: n div_greater_zero_iff)
  show "nslots st c * total_slot_size st c \<le> SLAB_PAGE_SIZE - sizeof_mp_slab_page"
    by (simp add: n)
qed

lemma slot_bounds:
  assumes "sizes_ok st" "c < SLAB_CLASS_COUNT" "i < nslots st c"
  shows "slot_at p (total_slot_size st c) i + total_slot_size st c \<le> p + SLAB_PAGE_SIZE"
    "p + sizeof_mp_slab_page \<le> slot_at p (total_slot_size st c) i"
proof -
  have "i * total_slot_size st c + total_slot_size st c \<le> nslots st c * total_slot_size st c"
    using assms(3) mult_le_mono1 [of "Suc i" "nslots st c" "total_slot_size st c"] by simp
  then show "slot_at p (total_slot_size st c) i + total_slot_size st c \<le> p + SLAB_PAGE_SIZE"
    using total_slot_size_bounds(7) [OF assms(1,2)]
    by (simp add: slot_at_def SLAB_PAGE_SIZE_def sizeof_mp_slab_page_def)
qed (simp add: slot_at_def)

lemma page_slots_page:
  assumes "sizes_ok st" "c < SLAB_CLASS_COUNT" "s \<in> page_slots st c p" "p mod SLAB_PAGE_SIZE = 0"
  shows "page_of s = p"
proof -
  obtain i where i: "i < nslots st c" "s = slot_at p (total_slot_size st c) i"
    using assms(3) by (auto simp: page_slots_def)
  have "p \<le> s" "s < p + SLAB_PAGE_SIZE"
    using slot_bounds [OF assms(1,2) i(1), of p] total_slot_size_bounds(1) [OF assms(1,2)] i(2)
    by (simp_all add: sizeof_mp_block_header_def)
  moreover obtain q where q: "p = SLAB_PAGE_SIZE * q"
    using assms(4) by (metis mod_0_imp_dvd dvdE)
  ultimately have "s mod SLAB_PAGE_SIZE = s - p"
    by (metis le_add_diff_inverse less_diff_conv2 add.commute mod_mult_self2 mod_less)
  then show ?thesis
    using \<open>p \<le> s\<close> by (simp add: page_of_def)
qed

lemma page_slots_good:
  assumes "sizes_ok st" "c < SLAB_CLASS_COUNT" "s \<in> page_slots st c p" "p mod SLAB_PAGE_SIZE = 0" "p \<noteq> 0"
  shows "\<not> bad_slot s" "s \<noteq> 0"
proof -
  obtain i where i: "s = p + 72 + i * total_slot_size st c"
    using assms(3) by (auto simp: page_slots_def slot_at_def sizeof_mp_slab_page_def)
  obtain q where q: "p = SLAB_PAGE_SIZE * q"
    using assms(4) by (metis mod_0_imp_dvd dvdE)
  obtain r where r: "total_slot_size st c = 8 * r"
    using total_slot_size_bounds(4) [OF assms(1,2)] by (metis mod_0_imp_dvd dvdE)
  have "s = 8 * (8192 * q + 9 + i * r)"
    by (simp add: i q r SLAB_PAGE_SIZE_def)
  then have "s mod 8 = 0"
    by simp
  moreover have "s AND 7 = s mod 8"
    using take_bit_eq_mask [of 3 s] by (simp add: take_bit_eq_mod mask_eq_exp_minus_1)
  moreover have "0x10000 \<le> s"
    using assms(5) by (cases q) (simp_all add: i q SLAB_PAGE_SIZE_def)
  ultimately show "\<not> bad_slot s" "s \<noteq> 0"
    by (simp_all add: bad_slot_def)
qed

text \<open>Two different slots do not share a byte.\<close>

lemma slots_apart:
  assumes "sizes_ok st" "c < SLAB_CLASS_COUNT" "d < SLAB_CLASS_COUNT" "s \<in> page_slots st c p" "s' \<in> page_slots st d q"
    "p mod SLAB_PAGE_SIZE = 0" "q mod SLAB_PAGE_SIZE = 0" "s \<noteq> s'" "p = q \<Longrightarrow> c = d"
  shows "s + total_slot_size st c \<le> s' \<or> s' + total_slot_size st d \<le> s"
proof (cases "p = q")
  case True
  then obtain i j where ij: "s = slot_at p (total_slot_size st c) i" "s' = slot_at p (total_slot_size st c) j"
    using assms(4,5,9) by (auto simp: page_slots_def)
  then have "i < j \<or> j < i"
    using assms(8) by (metis linorder_neqE_nat)
  then have "i * total_slot_size st c + total_slot_size st c \<le> j * total_slot_size st c
      \<or> j * total_slot_size st c + total_slot_size st c \<le> i * total_slot_size st c"
    using mult_le_mono1 [of "Suc i" j "total_slot_size st c"] mult_le_mono1 [of "Suc j" i "total_slot_size st c"] by auto
  then show ?thesis
    using ij True assms(9) by (auto simp: slot_at_def)
next
  case False
  obtain i where i: "i < nslots st c" "s = slot_at p (total_slot_size st c) i"
    using assms(4) by (auto simp: page_slots_def)
  obtain j where j: "j < nslots st d" "s' = slot_at q (total_slot_size st d) j"
    using assms(5) by (auto simp: page_slots_def)
  obtain a b where ab: "p = SLAB_PAGE_SIZE * a" "q = SLAB_PAGE_SIZE * b"
    using assms(6,7) by (metis mod_0_imp_dvd dvdE)
  then have "a < b \<or> b < a"
    using False by (metis linorder_neqE_nat)
  then have "p + SLAB_PAGE_SIZE \<le> q \<or> q + SLAB_PAGE_SIZE \<le> p"
    using mult_le_mono2 [of "Suc a" b SLAB_PAGE_SIZE] mult_le_mono2 [of "Suc b" a SLAB_PAGE_SIZE] ab by auto
  then show ?thesis
    using slot_bounds [OF assms(1,2) i(1), of p] slot_bounds [OF assms(1,3) j(1), of q] i(2) j(2) by auto
qed

section \<open>The invariant\<close>

fun list_class :: "page_list \<Rightarrow> nat" where
  "list_class (PartialPages c) = c"
| "list_class (FullPages c) = c"
| "list_class (EmptyPages c) = c"

definition class_slots :: "slab_pool \<Rightarrow> (page_list \<Rightarrow> addr list) \<Rightarrow> nat \<Rightarrow> addr set" where
  "class_slots st D c = (\<Union>k \<in> {k. list_class k = c}. \<Union>p \<in> set (D k). page_slots st c p)"

lemma class_slots_iff:
  "s \<in> class_slots st D c \<longleftrightarrow> (\<exists>p. (\<exists>k. list_class k = c \<and> p \<in> set (D k)) \<and> s \<in> page_slots st c p)"
  by (auto simp: class_slots_def)

text \<open>The places where free slots are linked.\<close>

datatype chain = PageChain addr | RemoteChain nat | TlsChain nat nat | CpuChain nat

fun chain_head :: "slab_pool \<Rightarrow> chain \<Rightarrow> addr" where
  "chain_head st (PageChain p) = pg_free (pages st p)"
| "chain_head st (RemoteChain c) = remote_free_queue st c"
| "chain_head st (TlsChain t c) = tslots (tls st t) c"
| "chain_head st (CpuChain i) = (case percpu_heads st of None \<Rightarrow> 0 | Some hs \<Rightarrow> hs i)"

fun chain_active :: "slab_pool \<Rightarrow> (page_list \<Rightarrow> addr list) \<Rightarrow> chain \<Rightarrow> bool" where
  "chain_active st D (PageChain p) \<longleftrightarrow> (\<exists>k. p \<in> set (D k))"
| "chain_active st D (RemoteChain c) \<longleftrightarrow> c < SLAB_CLASS_COUNT"
| "chain_active st D (TlsChain t c) \<longleftrightarrow> owned (tls st t) \<and> c < SLAB_CLASS_COUNT"
| "chain_active st D (CpuChain i) \<longleftrightarrow> percpu_heads st \<noteq> None \<and> i < num_cpus st * SLAB_CLASS_COUNT"

text \<open>Where a slot of a chain must come from.\<close>

fun chain_slots_of :: "slab_pool \<Rightarrow> (page_list \<Rightarrow> addr list) \<Rightarrow> chain \<Rightarrow> addr set" where
  "chain_slots_of st D (PageChain p) = UNIV"
| "chain_slots_of st D (RemoteChain c) = class_slots st D c"
| "chain_slots_of st D (TlsChain t c) = class_slots st D c"
| "chain_slots_of st D (CpuChain i) = class_slots st D (i mod SLAB_CLASS_COUNT)"

text \<open>Which list a page belongs to, by its free slots.\<close>

fun kind_ok :: "nat \<Rightarrow> page_list \<Rightarrow> addr list \<Rightarrow> bool" where
  "kind_ok n (PartialPages c) L \<longleftrightarrow> L \<noteq> [] \<and> length L < n"
| "kind_ok n (FullPages c) L \<longleftrightarrow> L = []"
| "kind_ok n (EmptyPages c) L \<longleftrightarrow> length L = n"

text \<open>Between two steps of an operation the page \<open>x\<close> it works on may be in the wrong list; no page has the
  address 0, so with \<open>x = 0\<close> all are where they belong.\<close>

definition page_ok :: "addr \<Rightarrow> slab_pool \<Rightarrow> page_list \<Rightarrow> addr \<Rightarrow> addr list \<Rightarrow> bool" where
  "page_ok x st k p L \<longleftrightarrow>
     p \<noteq> 0 \<and> p mod SLAB_PAGE_SIZE = 0 \<and> class_index (pages st p) = list_class k \<and> page_raw_mem (pages st p) = p
     \<and> total_slots (pages st p) = nslots st (list_class k) \<and> free_count (pages st p) = length L
     \<and> set L \<subseteq> page_slots st (list_class k) p \<and> (p = x \<or> kind_ok (nslots st (list_class k)) k L)"

definition counts_ok :: "slab_pool \<Rightarrow> (page_list \<Rightarrow> addr list) \<Rightarrow> (chain \<Rightarrow> addr list) \<Rightarrow> bool" where
  "counts_ok st D C \<longleftrightarrow>
     (\<forall>c. empty_page_count st c = length (D (EmptyPages c)))
     \<and> (\<forall>t c. owned (tls st t) \<and> c < SLAB_CLASS_COUNT \<longrightarrow>
          tcounts (tls st t) c = length (C (TlsChain t c)) \<and> length (C (TlsChain t c)) \<le> TLS_CACHE_MAX_SLOTS + 64)
     \<and> (\<forall>i. chain_active st D (CpuChain i) \<longrightarrow> percpu_counts st i = length (C (CpuChain i)))"

definition slab_inv ::
  "addr \<Rightarrow> slab_pool \<Rightarrow> (page_list \<Rightarrow> addr list) \<Rightarrow> (chain \<Rightarrow> addr list) \<Rightarrow> addr set \<Rightarrow> bool" where
  "slab_inv x st D C H \<longleftrightarrow>
     sizes_ok st
     \<and> dlls (pgn st) (pgp st) (page_heads st) D
     \<and> (\<forall>k. SLAB_CLASS_COUNT \<le> list_class k \<longrightarrow> D k = [])
     \<and> (\<forall>k. \<forall>p \<in> set (D k). page_ok x st k p (C (PageChain p)))
     \<and> mchains (slot_next st) (chain_head st) {i. chain_active st D i} C
     \<and> (\<forall>i. set (C i) \<subseteq> chain_slots_of st D i)
     \<and> (\<forall>i. set (C i) \<inter> H = {})
     \<and> (\<forall>c < SLAB_CLASS_COUNT. class_slots st D c \<subseteq> H \<union> (\<Union>i. set (C i)))
     \<and> H \<subseteq> (\<Union>c < SLAB_CLASS_COUNT. class_slots st D c)
     \<and> counts_ok st D C"

section \<open>Moving pages between lists\<close>

lemma geometry_cong:
  assumes "sflags st' = sflags st" "slot_sizes st' = slot_sizes st"
  shows "total_slot_size st' = total_slot_size st" "nslots st' = nslots st" "page_slots st' = page_slots st"
    "sizes_ok st' = sizes_ok st" "class_slots st' = class_slots st"
  using assms by (auto simp: total_slot_size_def nslots_def page_slots_def sizes_ok_def class_slots_def fun_eq_iff)

lemma inv_weaken: "slab_inv 0 st D C H \<Longrightarrow> slab_inv x st D C H"
  unfolding slab_inv_def page_ok_def by fast

lemma inv_page: "slab_inv x st D C H \<Longrightarrow> p \<in> set (D k) \<Longrightarrow> page_ok x st k p (C (PageChain p))"
  by (simp add: slab_inv_def)

lemma inv_settle:
  assumes "slab_inv p st D C H" "p \<in> set (D k)" "kind_ok (nslots st (list_class k)) k (C (PageChain p))"
  shows "slab_inv 0 st D C H"
proof -
  have "l = k" if "p \<in> set (D l)" for l
    using assms(1,2) that by (auto simp: slab_inv_def dlls_def)
  then show ?thesis
    using assms(1,3) unfolding slab_inv_def page_ok_def by metis
qed

lemma inv_class: "slab_inv x st D C H \<Longrightarrow> p \<in> set (D k) \<Longrightarrow> list_class k < SLAB_CLASS_COUNT"
  by (metis empty_iff empty_set not_le slab_inv_def)

lemma inv_one_list: "slab_inv x st D C H \<Longrightarrow> p \<in> set (D k) \<Longrightarrow> p \<in> set (D l) \<Longrightarrow> k = l"
  unfolding slab_inv_def dlls_def by (metis disjoint_iff)

text \<open>Where the pages are after one has moved.\<close>

definition moved :: "page_list \<Rightarrow> page_list \<Rightarrow> addr \<Rightarrow> (page_list \<Rightarrow> addr list) \<Rightarrow> page_list \<Rightarrow> addr list" where
  "moved k l p D = (D(k := remove1 p (D k)))(l := p # D l)"

lemma moved_set:
  assumes "dlls nx pv h D" "p \<in> set (D k)" "k \<noteq> l"
  shows "q \<in> set (moved k l p D j) \<longleftrightarrow> (if q = p then j = l else q \<in> set (D j))"
proof -
  have "distinct (D k)" "\<And>j. j \<noteq> k \<Longrightarrow> p \<notin> set (D j)"
    using assms(1,2) dll_distinct unfolding dlls_def by (metis, metis disjoint_iff)
  then show ?thesis
    using assms(2,3) by (auto simp: moved_def)
qed

lemma moved_pages:
  assumes "dlls nx pv h D" "p \<in> set (D k)" "k \<noteq> l" "list_class l = list_class k"
  shows "(\<exists>j. list_class j = c \<and> q \<in> set (moved k l p D j)) \<longleftrightarrow> (\<exists>j. list_class j = c \<and> q \<in> set (D j))"
    "(\<exists>j. q \<in> set (moved k l p D j)) \<longleftrightarrow> (\<exists>j. q \<in> set (D j))"
    "class_slots st (moved k l p D) = class_slots st D"
proof -
  note set' = moved_set [OF assms(1-3)]
  have one: "j = k" if "p \<in> set (D j)" for j
    using assms(1,2) that unfolding dlls_def by (metis disjoint_iff)
  show 1: "(\<exists>j. list_class j = c \<and> q \<in> set (moved k l p D j)) \<longleftrightarrow> (\<exists>j. list_class j = c \<and> q \<in> set (D j))" for c q
    using set' assms(2,4) one by (cases "q = p") metis+
  show "(\<exists>j. q \<in> set (moved k l p D j)) \<longleftrightarrow> (\<exists>j. q \<in> set (D j))"
    using 1 by metis
  show "class_slots st (moved k l p D) = class_slots st D"
    by (simp only: fun_eq_iff set_eq_iff class_slots_iff 1) simp
qed

lemma move_page_lists:
  assumes "dlls (pgn st) (pgp st) (page_heads st) D" "p \<in> set (D k)" "k \<noteq> l" "p \<noteq> 0"
  defines "st' \<equiv> push_page l p (unlink_page k p st)"
  shows "dlls (pgn st') (pgp st') (page_heads st') (moved k l p D)"
proof -
  have "distinct (D k)" "\<And>j. j \<noteq> k \<Longrightarrow> p \<notin> set (D j)"
    using assms(1,2) dll_distinct unfolding dlls_def by (metis, metis disjoint_iff)
  then have "p \<notin> set ((D(k := remove1 p (D k))) j)" for j
    by simp
  note push_page_lists [OF unlink_page_lists [OF assms(1,2)] this assms(4), of l]
  moreover have "moved k l p D = (D(k := remove1 p (D k)))(l := p # (D(k := remove1 p (D k))) l)"
    using assms(3) by (simp add: moved_def)
  ultimately show ?thesis
    by (simp only: st'_def)
qed

lemma inv_move:
  assumes "slab_inv p st D C H" "p \<in> set (D k)" "k \<noteq> l" "list_class l = list_class k"
    and "\<And>c. e c = length (moved k l p D (EmptyPages c))"
  defines "st' \<equiv> (push_page l p (unlink_page k p st))\<lparr>empty_page_count := e\<rparr>"
  shows "slab_inv p st' (moved k l p D) C H"
proof -
  let ?D = "moved k l p D"
  have lists: "dlls (pgn st) (pgp st) (page_heads st) D"
    using assms(1) by (simp add: slab_inv_def)
  note set' = moved_set [OF lists assms(2,3)]
  have g: "total_slot_size st' = total_slot_size st" "nslots st' = nslots st" "page_slots st' = page_slots st"
    "sizes_ok st' = sizes_ok st" "class_slots st' = class_slots st"
    by (rule geometry_cong; simp add: st'_def)+
  note pages' = moved_pages [OF lists assms(2,3,4)]
  have act: "chain_active st' ?D i = chain_active st D i" for i
    using pages'(2) by (cases i) (simp_all add: st'_def)
  note cls = pages'(3) [of st]
  have head: "chain_head st' = chain_head st"
  proof
    fix i show "chain_head st' i = chain_head st i"
      by (cases i) (simp_all add: st'_def)
  qed
  have nxt: "slot_next st' = slot_next st"
    by (rule slot_next_cong) (simp add: st'_def)
  have "chain_slots_of st' ?D i = chain_slots_of st D i" for i
    using g cls by (cases i) simp_all
  moreover have "dlls (pgn st') (pgp st') (page_heads st') ?D"
    using move_page_lists [OF lists assms(2,3)] inv_page [OF assms(1,2)] by (simp add: st'_def page_ok_def)
  moreover have "?D j = []" if "SLAB_CLASS_COUNT \<le> list_class j" for j
  proof -
    have "list_class l \<noteq> list_class j"
      using inv_class [OF assms(1,2)] assms(4) that by simp
    moreover from this have "p \<notin> set (D j)"
      using inv_one_list [OF assms(1,2), of j] assms(4) by metis
    ultimately have "q \<in> set (?D j) \<longleftrightarrow> q \<in> set (D j)" for q
      unfolding set' by (cases "q = p") auto
    then have "set (?D j) = set (D j)"
      by blast
    then show ?thesis
      using assms(1) that by (simp add: slab_inv_def)
  qed
  moreover have "page_ok p st' j q (C (PageChain q))" if "q \<in> set (?D j)" for j q
  proof (cases "q = p")
    case True
    then have "j = l"
      using that set' by simp
    then show ?thesis
      using inv_page [OF assms(1,2)] assms(4) True by (simp add: page_ok_def g) (simp add: st'_def)
  next
    case False
    then have "q \<in> set (D j)"
      using that set' by simp
    then show ?thesis
      using inv_page [OF assms(1)] by (simp add: page_ok_def g) (simp add: st'_def)
  qed
  moreover have "counts_ok st' ?D C"
    using assms(1,5) by (simp add: slab_inv_def counts_ok_def act) (simp add: st'_def)
  ultimately show ?thesis
    using assms(1) by (simp add: slab_inv_def g cls act head nxt)
qed

section \<open>What the invariant does not look at\<close>

definition page_core :: "mp_slab_page \<Rightarrow> nat \<times> nat \<times> nat \<times> addr \<times> addr \<times> addr \<times> addr" where
  "page_core q = (class_index q, free_count q, total_slots q, pg_free q, pg_next q, pg_prev q, page_raw_mem q)"

text \<open>Two states that differ only in statistics, memory contents, page marks, caches that belong to other pools
  and the headers of the slots in \<open>X\<close>.\<close>

definition core_same :: "addr set \<Rightarrow> slab_pool \<Rightarrow> slab_pool \<Rightarrow> bool" where
  "core_same X st st' \<longleftrightarrow>
     (\<forall>p. page_core (pages st' p) = page_core (pages st p)) \<and> page_heads st' = page_heads st
     \<and> sflags st' = sflags st \<and> slot_sizes st' = slot_sizes st \<and> remote_free_queue st' = remote_free_queue st
     \<and> percpu_heads st' = percpu_heads st \<and> percpu_counts st' = percpu_counts st \<and> num_cpus st' = num_cpus st
     \<and> (\<forall>t. owned (tls st' t) = owned (tls st t) \<and> (owned (tls st t) \<longrightarrow> tls st' t = tls st t))
     \<and> empty_page_count st' = empty_page_count st
     \<and> (\<forall>y. y \<notin> X \<longrightarrow> shdr st' y = shdr st y)"

lemma slot_next_at: "shdr st' y = shdr st y \<Longrightarrow> slot_next st' y = slot_next st y"
  by (simp add: slot_next_def)

lemma inv_frame:
  assumes "slab_inv x st D C H" "core_same H st st'"
  shows "slab_inv x st' D C H"
proof -
  have same: "page_heads st' = page_heads st" "sflags st' = sflags st" "slot_sizes st' = slot_sizes st"
    "remote_free_queue st' = remote_free_queue st" "percpu_heads st' = percpu_heads st"
    "percpu_counts st' = percpu_counts st" "num_cpus st' = num_cpus st" "\<And>t. owned (tls st' t) = owned (tls st t)"
    "empty_page_count st' = empty_page_count st" "\<And>y. y \<notin> H \<Longrightarrow> shdr st' y = shdr st y"
    "\<And>t. owned (tls st t) \<Longrightarrow> tls st' t = tls st t"
    and core: "\<And>p. page_core (pages st' p) = page_core (pages st p)"
    using assms(2) unfolding core_same_def by auto
  have pg: "class_index (pages st' p) = class_index (pages st p)" "free_count (pages st' p) = free_count (pages st p)"
    "total_slots (pages st' p) = total_slots (pages st p)" "pg_free (pages st' p) = pg_free (pages st p)"
    "pg_next (pages st' p) = pg_next (pages st p)" "pg_prev (pages st' p) = pg_prev (pages st p)"
    "page_raw_mem (pages st' p) = page_raw_mem (pages st p)" for p
    using core [of p] by (simp_all add: page_core_def)
  note g = geometry_cong [OF same(2,3)]
  have act: "chain_active st' D i = chain_active st D i" and head: "chain_active st D i \<Longrightarrow> chain_head st' i = chain_head st i"
    and of: "chain_slots_of st' D i = chain_slots_of st D i" for i
    by (cases i; simp add: same pg g)+
  have "mchains (slot_next st') (chain_head st') {i. chain_active st D i} C"
  proof (rule mchains_frame)
    show "mchains (slot_next st) (chain_head st) {i. chain_active st D i} C"
      using assms(1) by (simp add: slab_inv_def)
    show "slot_next st' y = slot_next st y" if "y \<in> set (C i)" for i y
    proof (rule slot_next_at)
      have "y \<notin> H"
        using assms(1) that unfolding slab_inv_def by blast
      then show "shdr st' y = shdr st y"
        by (rule same(10))
    qed
  qed (use head in simp)
  moreover have "dlls (pgn st') (pgp st') (page_heads st') D"
    using assms(1) by (simp add: slab_inv_def same pg)
  moreover have "counts_ok st' D C"
    using assms(1) by (simp add: slab_inv_def counts_ok_def same act)
  ultimately show ?thesis
    using assms(1) by (simp add: slab_inv_def page_ok_def g pg of act)
qed

lemma core_same_refl: "core_same X st st"
  by (simp add: core_same_def)

lemma core_same_trans: "core_same X st st1 \<Longrightarrow> core_same X st1 st2 \<Longrightarrow> core_same X st st2"
  by (simp add: core_same_def)

lemma core_same_mono: "core_same X st st' \<Longrightarrow> X \<subseteq> Y \<Longrightarrow> core_same Y st st'"
  unfolding core_same_def by blast

lemma core_same_updates [simp]:
  "core_same X st (add_allocated n st)" "core_same X st (sub_allocated n st)"
  "core_same X st (st\<lparr>maps := m\<rparr>)" "core_same X st (st\<lparr>now_ms := w\<rparr>)" "core_same X st (st\<lparr>remote_free_pending := b\<rparr>)"
  "core_same X st (st\<lparr>remote_free_pending_class := f\<rparr>)" "core_same X st (stamp_payload a n st)"
  "s \<in> X \<Longrightarrow> core_same X st (restamp c s st)"
  "core_same X st (upd_page p (idle_since_ts_update g) st)" "core_same X st (upd_page p (is_hot_update h) st)"
  by (auto simp: core_same_def add_allocated_def sub_allocated_def stamp_payload_def restamp_def upd_page_def
      page_core_def Let_def)

section \<open>Slots leave and join their page\<close>

lemma inv_chain_length:
  assumes "slab_inv x st D C H" "p \<in> set (D k)"
  shows "length (C (PageChain p)) \<le> nslots st (list_class k)"
    "length (C (PageChain p)) = nslots st (list_class k) \<Longrightarrow> set (C (PageChain p)) = page_slots st (list_class k) p"
proof -
  let ?L = "C (PageChain p)" and ?S = "page_slots st (list_class k) p"
  have d: "distinct ?L" "set ?L \<subseteq> ?S"
    using assms inv_page [OF assms] by (simp_all add: slab_inv_def mchains_def page_ok_def)
  have fin: "finite ?S" and card: "card ?S \<le> nslots st (list_class k)"
    unfolding page_slots_def by (simp, metis card_image_le card_lessThan finite_lessThan)
  show "length ?L \<le> nslots st (list_class k)"
    using card_mono [OF fin d(2)] card distinct_card [OF d(1)] by simp
  show "set ?L = ?S" if "length ?L = nslots st (list_class k)"
    using card_subset_eq [OF fin d(2)] card_mono [OF fin d(2)] card distinct_card [OF d(1)] that by simp
qed

lemma uint16_dec: "n = Suc m \<Longrightarrow> n < 2 ^ 16 \<Longrightarrow> (n + 65535) mod 2 ^ 16 = m"
proof -
  assume "n = Suc m" "n < 2 ^ 16"
  then have "(n + 65535) mod 2 ^ 16 = (m + 2 ^ 16) mod 2 ^ 16"
    by simp
  also have "\<dots> = m mod 2 ^ 16"
    by (rule mod_add_self2)
  also have "\<dots> = m"
    using \<open>n = Suc m\<close> \<open>n < 2 ^ 16\<close> by simp
  finally show ?thesis .
qed

text \<open>All slots that are linked somewhere or handed out are slots of some page.\<close>

lemma inv_all_slots:
  assumes "slab_inv x st D C H" "s \<in> H \<union> (\<Union>i. set (C i))"
  shows "s \<in> (\<Union>c < SLAB_CLASS_COUNT. class_slots st D c)"
proof (cases "s \<in> H")
  case True
  then show ?thesis
    using assms(1) by (auto simp: slab_inv_def)
next
  case False
  then obtain i where i: "s \<in> set (C i)"
    using assms(2) by blast
  then have act: "chain_active st D i" and sub: "s \<in> chain_slots_of st D i"
    using assms(1) by (auto simp: slab_inv_def mchains_def)
  show ?thesis
  proof (cases i)
    case (PageChain p)
    then obtain k where k: "p \<in> set (D k)"
      using act by auto
    then have "s \<in> page_slots st (list_class k) p"
      using inv_page [OF assms(1) k] i PageChain by (auto simp: page_ok_def)
    then have "s \<in> class_slots st D (list_class k)"
      using k by (auto simp: class_slots_iff)
    then show ?thesis
      using inv_class [OF assms(1) k] by blast
  qed (use act sub in \<open>auto simp: SLAB_CLASS_COUNT_def\<close>)
qed

text \<open>A change that redistributes slots between the places, without touching the page lists.\<close>

lemma inv_redistribute:
  assumes inv: "slab_inv x st D C H"
    and pg: "pgn st' = pgn st" "pgp st' = pgp st" "page_heads st' = page_heads st"
      "\<And>p. class_index (pages st' p) = class_index (pages st p)" "\<And>p. total_slots (pages st' p) = total_slots (pages st p)"
      "\<And>p. page_raw_mem (pages st' p) = page_raw_mem (pages st p)" "sflags st' = sflags st" "slot_sizes st' = slot_sizes st"
    and mch: "mchains (slot_next st') (chain_head st') {i. chain_active st' D i} C'"
    and page: "\<And>k p. p \<in> set (D k) \<Longrightarrow> free_count (pages st' p) = length (C' (PageChain p))
        \<and> set (C' (PageChain p)) \<subseteq> page_slots st (list_class k) p
        \<and> (p = x' \<or> kind_ok (nslots st (list_class k)) k (C' (PageChain p)))"
    and "of": "\<And>i. set (C' i) \<subseteq> chain_slots_of st D i"
    and disj: "\<And>i. set (C' i) \<inter> H' = {}"
    and all: "H' \<union> (\<Union>i. set (C' i)) = H \<union> (\<Union>i. set (C i))"
    and cnt: "counts_ok st' D C'"
  shows "slab_inv x' st' D C' H'"
proof -
  note g = geometry_cong [OF pg(7,8)]
  have of': "chain_slots_of st' D i = chain_slots_of st D i" for i
    by (cases i) (simp_all add: g)
  have "\<forall>k. \<forall>p \<in> set (D k). page_ok x' st' k p (C' (PageChain p))"
    using inv_page [OF inv] page by (simp add: page_ok_def g pg(4-8))
  moreover have "dlls (pgn st') (pgp st') (page_heads st') D"
    unfolding pg using inv by (simp add: slab_inv_def)
  moreover have "\<forall>c < SLAB_CLASS_COUNT. class_slots st D c \<subseteq> H' \<union> (\<Union>i. set (C' i))"
    unfolding all using inv by (simp add: slab_inv_def)
  moreover have "H' \<subseteq> (\<Union>c < SLAB_CLASS_COUNT. class_slots st D c)"
  proof
    fix s assume "s \<in> H'"
    then have "s \<in> H' \<union> (\<Union>i. set (C' i))"
      by (rule UnI1)
    then show "s \<in> (\<Union>c < SLAB_CLASS_COUNT. class_slots st D c)"
      unfolding all by (rule inv_all_slots [OF inv])
  qed
  moreover have "sizes_ok st" "\<forall>k. SLAB_CLASS_COUNT \<le> list_class k \<longrightarrow> D k = []"
    using inv by (simp_all add: slab_inv_def)
  moreover have "\<forall>i. set (C' i) \<subseteq> chain_slots_of st D i" "\<forall>i. set (C' i) \<inter> H' = {}"
    using disj "of" by simp_all
  ultimately show ?thesis
    unfolding slab_inv_def g of' using mch cnt by (intro conjI)
qed

lemma inv_update:
  assumes "slab_inv x st D C H"
    and "pgn st' = pgn st" "pgp st' = pgp st" "page_heads st' = page_heads st"
      "\<And>p. class_index (pages st' p) = class_index (pages st p)" "\<And>p. total_slots (pages st' p) = total_slots (pages st p)"
      "\<And>p. page_raw_mem (pages st' p) = page_raw_mem (pages st p)" "sflags st' = sflags st" "slot_sizes st' = slot_sizes st"
    and act: "\<And>i. chain_active st' D i = chain_active st D i"
    and mch: "mchains (slot_next st') (chain_head st') {i. chain_active st D i} C'"
    and "\<And>k p. p \<in> set (D k) \<Longrightarrow> free_count (pages st' p) = length (C' (PageChain p))
        \<and> set (C' (PageChain p)) \<subseteq> page_slots st (list_class k) p
        \<and> (p = x' \<or> kind_ok (nslots st (list_class k)) k (C' (PageChain p)))"
    and "\<And>i. set (C' i) \<subseteq> chain_slots_of st D i"
    and "\<And>i. set (C' i) \<inter> H' = {}"
    and "H' \<union> (\<Union>i. set (C' i)) = H \<union> (\<Union>i. set (C i))"
    and "counts_ok st' D C'"
  shows "slab_inv x' st' D C' H'"
  using assms by (intro inv_redistribute [OF assms(1-9)]) simp_all

lemma inv_pop:
  assumes "slab_inv x st D C H" "x = 0 \<or> x = p" "p \<in> set (D k)" "C (PageChain p) \<noteq> []" "s = pg_free (pages st p)"
  defines "st' \<equiv> upd_page p (\<lambda>q. q\<lparr>pg_free := slot_next st s, free_count := (free_count q + 65535) mod 2 ^ 16\<rparr>) st"
  shows "slab_inv p st' D (C(PageChain p := tl (C (PageChain p)))) (insert s H)" "s \<notin> H" "s \<in> page_slots st (list_class k) p"
proof -
  let ?i = "PageChain p" and ?C = "C(PageChain p := tl (C (PageChain p)))"
  have inv: "slab_inv p st D C H"
    using assms(1,2) inv_weaken by blast
  have mch: "mchains (slot_next st) (chain_head st) {i. chain_active st D i} C" and act: "?i \<in> {i. chain_active st D i}"
    using inv assms(3) by (auto simp: slab_inv_def)
  have nz: "chain_head st ?i \<noteq> 0"
    using mch act assms(4) mchain_null unfolding mchains_def by metis
  note pop = mchains_pop [OF mch act nz]
  have C: "C ?i = s # tl (C ?i)"
    using pop(2) by (simp add: assms(5))
  then have sC: "s \<in> set (C ?i)"
    by (metis list.set_intros(1))
  show sH: "s \<notin> H"
    using inv sC unfolding slab_inv_def by blast
  show "s \<in> page_slots st (list_class k) p"
    using inv_page [OF inv assms(3)] sC unfolding page_ok_def by blast
  have head: "chain_head st' = (chain_head st)(?i := slot_next st (chain_head st ?i))"
  proof
    fix i show "chain_head st' i = ((chain_head st)(?i := slot_next st (chain_head st ?i))) i"
      by (cases i) (simp_all add: st'_def upd_page_def assms(5))
  qed
  have nxt: "slot_next st' = slot_next st"
    by (rule slot_next_cong) (simp add: st'_def upd_page_def)
  have act': "chain_active st' D i = chain_active st D i" for i
    by (cases i) (simp_all add: st'_def upd_page_def)
  have len: "length (C ?i) < 2 ^ 16"
    using inv_chain_length(1) [OF inv assms(3)] total_slot_size_bounds(6) [of st "list_class k"]
      inv_class [OF inv assms(3)] inv unfolding slab_inv_def by (metis order.strict_trans1)
  have sub: "set (?C i) \<subseteq> set (C i)" for i
    using list.set_sel(2) [OF assms(4)] by auto
  have notin: "s \<notin> set (?C i)" for i
    using pop(1) mch C unfolding mchains_def
    by (metis disjoint_iff distinct.simps(2) fun_upd_apply list.set_intros(1))
  show "slab_inv p st' D ?C (insert s H)"
  proof (rule inv_update [OF inv])
    show "mchains (slot_next st') (chain_head st') {i. chain_active st D i} ?C"
      using pop(1) by (simp add: head nxt)
    show "free_count (pages st' q) = length (?C (PageChain q)) \<and> set (?C (PageChain q)) \<subseteq> page_slots st (list_class j) q
        \<and> (q = p \<or> kind_ok (nslots st (list_class j)) j (?C (PageChain q)))" if "q \<in> set (D j)" for j q
    proof -
      have "(length (C ?i) + 65535) mod 2 ^ 16 = length (tl (C ?i))"
        by (rule uint16_dec) (use len C in \<open>metis length_Cons, simp\<close>)
      then show ?thesis
        using inv_page [OF inv that] sub [of "PageChain q"] by (auto simp: page_ok_def st'_def upd_page_def)
    qed
    show "set (?C i) \<subseteq> chain_slots_of st D i" for i
      using inv sub unfolding slab_inv_def by blast
    show "set (?C i) \<inter> insert s H = {}" for i
      using notin sub inv unfolding slab_inv_def by blast
    have "insert s (set (tl (C ?i))) = set (C ?i)"
      by (subst (2) C) simp
    then have "(\<Union>i. set (C i)) = insert s (\<Union>i. set (?C i))"
      by (auto split: if_splits) blast+
    then show "insert s H \<union> (\<Union>i. set (?C i)) = H \<union> (\<Union>i. set (C i))"
      by blast
    show "counts_ok st' D ?C"
      using inv by (simp add: slab_inv_def counts_ok_def act') (simp add: st'_def upd_page_def)
    show "chain_active st' D i = chain_active st D i" for i
      by (rule act')
  qed (auto simp: fun_eq_iff st'_def upd_page_def)
qed


text \<open>The page of a slot that is handed out: not empty, and in the list its free slots say.\<close>

lemma inv_held_page:
  assumes "slab_inv 0 st D C H" "s \<in> H"
  obtains k where "page_of s \<in> set (D k)" "s \<in> page_slots st (list_class k) (page_of s)"
    "s \<in> class_slots st D (list_class k)" "list_class k < SLAB_CLASS_COUNT"
    "k = (if C (PageChain (page_of s)) = [] then FullPages (list_class k) else PartialPages (list_class k))"
    "length (C (PageChain (page_of s))) < nslots st (list_class k)"
proof -
  obtain c where c: "c < SLAB_CLASS_COUNT" "s \<in> class_slots st D c"
    using assms by (auto simp: slab_inv_def)
  then obtain p k where k: "list_class k = c" "p \<in> set (D k)" "s \<in> page_slots st c p"
    by (auto simp: class_slots_iff)
  have pok: "page_ok 0 st k p (C (PageChain p))"
    using inv_page [OF assms(1) k(2)] .
  then have p: "page_of s = p"
    using page_slots_page [of st c s p] assms(1) c(1) k(3) by (simp add: page_ok_def slab_inv_def)
  have "s \<notin> set (C (PageChain p))"
    using assms unfolding slab_inv_def by blast
  then have "length (C (PageChain p)) \<noteq> nslots st c"
    using inv_chain_length(2) [OF assms(1) k(2)] k by auto
  then have len: "length (C (PageChain p)) < nslots st c"
    using inv_chain_length(1) [OF assms(1) k(2)] k by simp
  moreover have "kind_ok (nslots st c) k (C (PageChain p))"
    using pok k(1) by (auto simp: page_ok_def)
  ultimately have "k = (if C (PageChain p) = [] then FullPages c else PartialPages c)"
    using k(1) by (cases k) auto
  with that k c p len show thesis
    by metis
qed

lemma inv_give:
  assumes "slab_inv 0 st D C H" "s \<in> H" "slab_free_nolock st s = (st', was_full, now_empty)"
  defines "p \<equiv> page_of s"
  shows "slab_inv p st' D (C(PageChain p := s # C (PageChain p))) (H - {s})" "was_full \<longleftrightarrow> C (PageChain p) = []"
    "now_empty \<longleftrightarrow> Suc (length (C (PageChain p))) = total_slots (pages st p)"
    "\<And>y. y \<noteq> s \<Longrightarrow> shdr st' y = shdr st y" "tls st' = tls st" "percpu_heads st' = percpu_heads st"
    "slot_sizes st' = slot_sizes st" "sflags st' = sflags st" "remote_free_queue st' = remote_free_queue st"
    "maps st' = maps st" "num_cpus st' = num_cpus st" "percpu_counts st' = percpu_counts st"
    "empty_page_count st' = empty_page_count st" "now_ms st' = now_ms st"
proof -
  let ?i = "PageChain p" and ?C = "C(PageChain p := s # C (PageChain p))"
  obtain k where k: "p \<in> set (D k)" "s \<in> page_slots st (list_class k) p" "list_class k < SLAB_CLASS_COUNT"
    "length (C ?i) < nslots st (list_class k)"
    using inv_held_page [OF assms(1,2)] unfolding p_def by metis
  have pok: "page_ok 0 st k p (C ?i)"
    using inv_page [OF assms(1) k(1)] .
  have n: "nslots st (list_class k) < 2 ^ 16" and sz: "s \<noteq> 0"
    using total_slot_size_bounds(6) [OF _ k(3)] page_slots_good(2) [OF _ k(3,2)] pok assms(1)
    by (auto simp: page_ok_def slab_inv_def)
  have fc: "free_count (pages st p) = length (C ?i)" "(length (C ?i) + 1) mod 2 ^ 16 = Suc (length (C ?i))"
    using pok n k(4) by (simp_all add: page_ok_def)
  define st1 where "st1 = upd_page p (\<lambda>q. q\<lparr>pg_free := s, free_count := (free_count q + 1) mod 2 ^ 16\<rparr>)
      (set_slot_next s (pg_free (pages st p)) st)"
  have st': "st' = (if has_flag (sflags st) MP_FLAG_THREAD_SAFE
      then upd_page p (\<lambda>p. p\<lparr>page_free_count := free_count p\<rparr>) st1 else st1)"
    and out: "was_full \<longleftrightarrow> free_count (pages st p) = 0" "now_empty \<longleftrightarrow> free_count (pages st' p) = total_slots (pages st' p)"
    using assms(3) by (auto simp: slab_free_nolock_def Let_def p_def st1_def upd_page_def set_slot_next_def split: if_splits)
  have at: "pg_free (pages st' p) = s" "free_count (pages st' p) = Suc (length (C ?i))"
    "q \<noteq> p \<Longrightarrow> pages st' q = pages st q" "class_index (pages st' q) = class_index (pages st q)"
    "total_slots (pages st' q) = total_slots (pages st q)" "page_raw_mem (pages st' q) = page_raw_mem (pages st q)"
    "pg_next (pages st' q) = pg_next (pages st q)" "pg_prev (pages st' q) = pg_prev (pages st q)" for q
    using fc by (auto simp: st' st1_def upd_page_def set_slot_next_def)
  have rest: "shdr st' = shdr (set_slot_next s (pg_free (pages st p)) st)" "tls st' = tls st" "percpu_heads st' = percpu_heads st"
    "slot_sizes st' = slot_sizes st" "sflags st' = sflags st" "remote_free_queue st' = remote_free_queue st"
    "maps st' = maps st" "num_cpus st' = num_cpus st" "percpu_counts st' = percpu_counts st"
    "empty_page_count st' = empty_page_count st" "page_heads st' = page_heads st" "now_ms st' = now_ms st"
    by (simp_all add: st' st1_def upd_page_def set_slot_next_def)
  show "was_full \<longleftrightarrow> C ?i = []" "now_empty \<longleftrightarrow> Suc (length (C ?i)) = total_slots (pages st p)"
    using out fc at by simp_all
  show "\<And>y. y \<noteq> s \<Longrightarrow> shdr st' y = shdr st y"
    by (simp add: rest(1) set_slot_next_def)
  show "tls st' = tls st" "percpu_heads st' = percpu_heads st" "slot_sizes st' = slot_sizes st" "sflags st' = sflags st"
    "remote_free_queue st' = remote_free_queue st" "maps st' = maps st" "num_cpus st' = num_cpus st"
    "percpu_counts st' = percpu_counts st" "empty_page_count st' = empty_page_count st" "now_ms st' = now_ms st"
    by (simp_all add: rest)
  have nxt: "slot_next st' = (slot_next st)(s := chain_head st ?i)"
    using slot_next_cong [OF rest(1)] by simp
  have head: "chain_head st' = (chain_head st)(?i := s)"
  proof
    fix i show "chain_head st' i = ((chain_head st)(?i := s)) i"
      using at(1,3) by (cases i) (auto simp: rest)
  qed
  have act: "chain_active st' D i = chain_active st D i" for i
    by (cases i) (simp_all add: rest)
  have notin: "s \<notin> set (C i)" for i
    using assms(1,2) unfolding slab_inv_def by blast
  show "slab_inv p st' D ?C (H - {s})"
  proof (rule inv_update [OF assms(1)])
    have "mchains (slot_next st) (chain_head st) {i. chain_active st D i} C" "?i \<in> {i. chain_active st D i}"
      using assms(1) k(1) by (auto simp: slab_inv_def)
    from mchains_push [OF this sz notin] show "mchains (slot_next st') (chain_head st') {i. chain_active st D i} ?C"
      by (simp add: nxt head)
    show "free_count (pages st' q) = length (?C (PageChain q)) \<and> set (?C (PageChain q)) \<subseteq> page_slots st (list_class j) q
        \<and> (q = p \<or> kind_ok (nslots st (list_class j)) j (?C (PageChain q)))" if "q \<in> set (D j)" for j q
    proof (cases "q = p")
      case True
      have "j = k"
        using inv_one_list [OF assms(1) that [unfolded True] k(1)] .
      then show ?thesis
        using True k(2) pok at(2) by (simp add: page_ok_def)
    next
      case False
      then show ?thesis
        using inv_page [OF assms(1) that] at(3) [OF False] by (auto simp: page_ok_def)
    qed
    show "set (?C i) \<subseteq> chain_slots_of st D i" for i
      using assms(1) unfolding slab_inv_def by auto
    show "set (?C i) \<inter> (H - {s}) = {}" for i
      using assms(1) unfolding slab_inv_def by auto
    show "(H - {s}) \<union> (\<Union>i. set (?C i)) = H \<union> (\<Union>i. set (C i))"
      using assms(2) by (auto split: if_splits)
    show "counts_ok st' D ?C"
      using assms(1) by (simp add: slab_inv_def counts_ok_def act) (simp add: rest)
    show "chain_active st' D i = chain_active st D i" for i
      by (rule act)
  qed (simp_all add: rest at)
qed

section \<open>Giving a slot back\<close>

text \<open>What a release leaves alone, apart from page lists and the header of the slot \<open>s\<close>.\<close>

definition tier_same :: "addr set \<Rightarrow> slab_pool \<Rightarrow> slab_pool \<Rightarrow> bool" where
  "tier_same X st st' \<longleftrightarrow>
     (\<forall>y. y \<notin> X \<longrightarrow> shdr st' y = shdr st y) \<and> tls st' = tls st \<and> percpu_heads st' = percpu_heads st
     \<and> percpu_counts st' = percpu_counts st \<and> num_cpus st' = num_cpus st \<and> slot_sizes st' = slot_sizes st
     \<and> sflags st' = sflags st \<and> remote_free_queue st' = remote_free_queue st"

lemma tier_same_trans: "tier_same X st st1 \<Longrightarrow> tier_same Y st1 st2 \<Longrightarrow> tier_same (X \<union> Y) st st2"
  by (simp add: tier_same_def)

lemma keep_empty_count: "empty_page_count st = e \<Longrightarrow> st\<lparr>empty_page_count := e\<rparr> = st"
  by auto

lemma inv_transitions:
  assumes "slab_inv p st D C H" "p = page_of s" "p \<in> set (D k)" "list_class k = c" "C (PageChain p) \<noteq> []"
    "k = (if full then FullPages c else PartialPages c)" "now_empty \<longleftrightarrow> length (C (PageChain p)) = nslots st c"
    "total_slots (pages st p) = nslots st c"
  obtains D' where "slab_inv 0 (slab_transitions c s (full, now_empty) st) D' C H"
    "tier_same {} st (slab_transitions c s (full, now_empty) st)"
    "\<And>d. class_slots st D' d = class_slots st D d" "\<And>q. (\<exists>j. q \<in> set (D' j)) \<longleftrightarrow> (\<exists>j. q \<in> set (D j))"
proof -
  define st1 where "st1 = (if full then push_page (PartialPages c) p (unlink_page (FullPages c) p st) else st)"
  define D1 where "D1 = (if full then moved (FullPages c) (PartialPages c) p D else D)"
  have lists: "dlls (pgn st) (pgp st) (page_heads st) D" and cnt: "\<And>c. empty_page_count st c = length (D (EmptyPages c))"
    using assms(1) by (auto simp: slab_inv_def counts_ok_def)
  have inv1: "slab_inv p st1 D1 C H" and same1: "tier_same {} st st1"
    and D1: "class_slots st D1 = class_slots st D" "\<And>q. (\<exists>j. q \<in> set (D1 j)) \<longleftrightarrow> (\<exists>j. q \<in> set (D j))"
  proof -
    have "slab_inv p ((push_page (PartialPages c) p (unlink_page (FullPages c) p st))\<lparr>empty_page_count := empty_page_count st\<rparr>)
        (moved (FullPages c) (PartialPages c) p D) C H" if full
      using that assms(3,6) cnt by (intro inv_move [OF assms(1)]) (simp_all add: moved_def)
    then show "slab_inv p st1 D1 C H"
      using assms(1) keep_empty_count [of "push_page (PartialPages c) p (unlink_page (FullPages c) p st)"]
      by (simp add: st1_def D1_def)
    show "tier_same {} st st1"
      by (simp add: st1_def tier_same_def)
    show "class_slots st D1 = class_slots st D" "\<And>q. (\<exists>j. q \<in> set (D1 j)) \<longleftrightarrow> (\<exists>j. q \<in> set (D j))"
      using moved_pages(2,3) [OF lists, of p "FullPages c" "PartialPages c"] assms(3,6)
      by (auto simp: D1_def split: if_splits)
  qed
  have p1: "p \<in> set (D1 (PartialPages c))"
    using assms(3,6) by (auto simp: D1_def moved_def split: if_splits)
  define st2 where "st2 = upd_page p (idle_since_ts_update (\<lambda>_. now_ms st1)) st1"
  have inv2: "slab_inv p st2 D1 C H"
    using inv_frame [OF inv1, of st2] by (simp add: st2_def)
  have lists2: "dlls (pgn st2) (pgp st2) (page_heads st2) D1" and cnt2: "\<And>c. empty_page_count st2 c = length (D1 (EmptyPages c))"
    using inv2 by (auto simp: slab_inv_def counts_ok_def)
  define st3 where "st3 = push_page (EmptyPages c) p (unlink_page (PartialPages c) p st2)"
  define D3 where "D3 = moved (PartialPages c) (EmptyPages c) p D1"
  have ns: "nslots st1 = nslots st"
    by (rule geometry_cong(2)) (use same1 in \<open>simp_all add: tier_same_def\<close>)
  show thesis
  proof (cases now_empty)
    case False
    then have t: "slab_transitions c s (full, now_empty) st = st1"
      by (simp add: slab_transitions_def Let_def st1_def assms(2))
    have "length (C (PageChain p)) < nslots st c"
      using False assms(4,7) inv_chain_length(1) [OF assms(1,3)] by simp
    then have "slab_inv 0 st1 D1 C H"
      using inv_settle [OF inv1 p1] assms(5) by (simp add: ns)
    then show thesis
      using that same1 D1 by (simp only: t) 
  next
    case True
    have t: "slab_transitions c s (full, now_empty) st = st3\<lparr>empty_page_count := (empty_page_count st3)(c := empty_page_count st3 c + 1)\<rparr>"
      using True by (simp add: slab_transitions_def Let_def st1_def st2_def st3_def assms(2))
    have "slab_inv p (slab_transitions c s (full, now_empty) st) D3 C H"
      unfolding t unfolding st3_def D3_def using p1 cnt2
      by (intro inv_move [OF inv2]) (auto simp: moved_def)
    moreover have "p \<in> set (D3 (EmptyPages c))"
      by (simp add: D3_def moved_def)
    moreover have same: "tier_same {} st (slab_transitions c s (full, now_empty) st)"
      using same1 by (simp add: t st3_def st2_def tier_same_def upd_page_def)
    moreover from same have "nslots (slab_transitions c s (full, now_empty) st) = nslots st"
      by (intro geometry_cong(2)) (simp_all add: tier_same_def)
    ultimately have "slab_inv 0 (slab_transitions c s (full, now_empty) st) D3 C H"
      using True assms(7) by (intro inv_settle [where k = "EmptyPages c"]) simp_all
    moreover note same
    moreover have "class_slots st D3 = class_slots st D" "\<And>q. (\<exists>j. q \<in> set (D3 j)) \<longleftrightarrow> (\<exists>j. q \<in> set (D j))"
      using moved_pages(2,3) [OF lists2, of p "PartialPages c" "EmptyPages c"] p1 D1 by (simp_all add: D3_def)
    ultimately show thesis
      using that by simp
  qed
qed


text \<open>The common part of all releases: the slot rejoins its page, the page changes lists if needed.\<close>

lemma inv_return:
  assumes "slab_inv 0 st D C H" "s \<in> H" "s \<in> class_slots st D c" "slab_free_nolock st s = (st1, tf)"
  defines "st' \<equiv> slab_transitions c s tf st1"
  obtains D' C' where "slab_inv 0 st' D' C' (H - {s})" "tier_same {s} st st'"
    "\<And>d. class_slots st D' d = class_slots st D d" "\<And>q. (\<exists>j. q \<in> set (D' j)) \<longleftrightarrow> (\<exists>j. q \<in> set (D j))"
    "\<And>i. (\<forall>p. i \<noteq> PageChain p) \<Longrightarrow> C' i = C i"
proof -
  let ?p = "page_of s" and ?C = "C(PageChain (page_of s) := s # C (PageChain (page_of s)))"
  obtain k where k: "?p \<in> set (D k)" "list_class k < SLAB_CLASS_COUNT"
    "k = (if C (PageChain ?p) = [] then FullPages (list_class k) else PartialPages (list_class k))"
    using inv_held_page [OF assms(1,2)] by metis
  obtain q j where q: "list_class j = c" "q \<in> set (D j)" "s \<in> page_slots st c q"
    using assms(3) by (auto simp: class_slots_iff)
  have "page_of s = q"
    using page_slots_page [OF _ _ q(3)] inv_page [OF assms(1) q(2)] inv_class [OF assms(1) q(2)] q(1) assms(1)
    by (simp add: page_ok_def slab_inv_def)
  then have c: "list_class k = c"
    using inv_one_list [OF assms(1) k(1)] q by metis
  obtain full now_empty where tf: "tf = (full, now_empty)"
    by fastforce
  note give = inv_give [OF assms(1,2) assms(4) [unfolded tf]]
  have same: "sflags st1 = sflags st" "slot_sizes st1 = slot_sizes st"
    using give by simp_all
  have tot: "total_slots (pages st1 ?p) = nslots st c" "total_slots (pages st ?p) = nslots st c"
    using inv_page [OF give(1) k(1)] inv_page [OF assms(1) k(1)] c geometry_cong(2) [OF same] by (simp_all add: page_ok_def)
  have tr: "k = (if full then FullPages c else PartialPages c)"
    "now_empty \<longleftrightarrow> length (?C (PageChain ?p)) = nslots st1 c" "total_slots (pages st1 ?p) = nslots st1 c"
    using k(3) c give(2,3) tot geometry_cong(2) [OF same] by auto
  have "?C (PageChain ?p) \<noteq> []"
    by simp
  from inv_transitions [OF give(1) refl k(1) c this tr] obtain D' where
    D': "slab_inv 0 st' D' ?C (H - {s})" "tier_same {} st1 st'"
    "\<And>d. class_slots st1 D' d = class_slots st1 D d" "\<And>q. (\<exists>j. q \<in> set (D' j)) \<longleftrightarrow> (\<exists>j. q \<in> set (D j))"
    unfolding st'_def tf by metis
  have "tier_same {s} st st1"
    using give by (simp add: tier_same_def)
  then have "tier_same {s} st st'"
    using tier_same_trans [of "{s}" st st1 "{}" st'] D'(2) by simp
  then show thesis
    using that [OF D'(1)] D'(3,4) geometry_cong(5) [OF same] by simp
qed

text \<open>Releasing a slot through its header.\<close>

lemma inv_slab_free:
  assumes "slab_inv 0 st D C H" "s \<in> H" "slab_class (shdr st s) = c" "s \<in> class_slots st D c" "raw_base (shdr st s) = s"
  obtains D' C' where "slab_inv 0 (slab_free st s) D' C' (H - {s})" "tier_same {s} st (slab_free st s)"
    "\<And>d. class_slots st D' d = class_slots st D d" "\<And>q. (\<exists>j. q \<in> set (D' j)) \<longleftrightarrow> (\<exists>j. q \<in> set (D j))"
    "\<And>i. (\<forall>p. i \<noteq> PageChain p) \<Longrightarrow> C' i = C i"
proof -
  let ?st = "sub_allocated (slot_sizes st ! c) st"
  have same: "sflags ?st = sflags st" "slot_sizes ?st = slot_sizes st" "shdr ?st = shdr st"
    by (simp_all add: sub_allocated_def)
  obtain st1 tf where f: "slab_free_nolock ?st s = (st1, tf)"
    using prod.exhaust by blast
  have st': "slab_free st s = slab_transitions c s tf st1"
    using f assms(3,5) by (simp add: slab_free_def)
  have inv: "slab_inv 0 ?st D C H"
    using inv_frame [OF assms(1)] by simp
  have "s \<in> class_slots ?st D c"
    using assms(4) geometry_cong(5) [OF same(1,2)] by simp
  from inv_return [OF inv assms(2) this f] obtain D' C' where
    "slab_inv 0 (slab_free st s) D' C' (H - {s})" "tier_same {s} ?st (slab_free st s)"
    "\<And>d. class_slots ?st D' d = class_slots ?st D d" "\<And>q. (\<exists>j. q \<in> set (D' j)) \<longleftrightarrow> (\<exists>j. q \<in> set (D j))"
    "\<And>i. (\<forall>p. i \<noteq> PageChain p) \<Longrightarrow> C' i = C i"
    unfolding st' by metis
  then show thesis
    using that geometry_cong(5) [OF same(1,2)] by (simp add: tier_same_def sub_allocated_def)
qed

section \<open>New pages\<close>

text \<open>The page that lies in a mapping, and what the code relies on of the mappings it is given: no null
  answer, and no page twice.\<close>

definition map_page :: "addr \<Rightarrow> addr" where
  "map_page m = page_of (m + SLAB_PAGE_SIZE - 1)"

definition maps_ok :: "slab_pool \<Rightarrow> (page_list \<Rightarrow> addr list) \<Rightarrow> bool" where
  "maps_ok st D \<longleftrightarrow> 0 \<notin> set (maps st) \<and> distinct (map map_page (maps st)) \<and> (\<forall>m \<in> set (maps st). \<forall>k. map_page m \<notin> set (D k))"

text \<open>No page of the pool, and none it may still be given, is among \<open>U\<close>.\<close>

definition apart_from :: "addr set \<Rightarrow> slab_pool \<Rightarrow> (page_list \<Rightarrow> addr list) \<Rightarrow> bool" where
  "apart_from U st D \<longleftrightarrow> (\<forall>k. set (D k) \<inter> U = {}) \<and> map_page ` set (maps st) \<inter> U = {}"

lemma page_of_props: "page_of a mod SLAB_PAGE_SIZE = 0" "page_of a \<le> a" "a < page_of a + SLAB_PAGE_SIZE"
  by (simp_all add: page_of_def minus_mod_eq_mult_div SLAB_PAGE_SIZE_def)

lemma map_page_props:
  assumes "m \<noteq> 0"
  shows "map_page m \<noteq> 0" "map_page m mod SLAB_PAGE_SIZE = 0" "map_page m + SLAB_PAGE_SIZE \<le> m + (SLAB_PAGE_SIZE + SLAB_PAGE_SIZE - 1)"
  using page_of_props [of "m + SLAB_PAGE_SIZE - 1"] assms
  by (auto simp: map_page_def SLAB_PAGE_SIZE_def)

lemma fold_link_shdr: "\<exists>h. fold (link_slot p tsz n) is st = st\<lparr>shdr := h\<rparr>"
proof (induction "is" arbitrary: st)
  case Nil
  show ?case
    by (rule exI [of _ "shdr st"]) simp
next
  case (Cons i "is")
  obtain h where "fold (link_slot p tsz n) is (link_slot p tsz n i st) = (link_slot p tsz n i st)\<lparr>shdr := h\<rparr>"
    using Cons.IH by blast
  moreover have "(link_slot p tsz n i st)\<lparr>shdr := h\<rparr> = st\<lparr>shdr := h\<rparr>"
    by (simp add: link_slot_def set_slot_next_def)
  ultimately show ?case
    by (simp only: fold_simps) metis
qed

lemma slot_at_inj: "0 < tsz \<Longrightarrow> slot_at p tsz i = slot_at p tsz j \<longleftrightarrow> i = j"
  by (simp add: slot_at_def)

lemma fold_link_next:
  "0 < tsz \<Longrightarrow> i \<in> set is \<Longrightarrow> slot_next (fold (link_slot p tsz n) is st) (slot_at p tsz i) = (if i + 1 < n then slot_at p tsz (i + 1) else 0)"
  "a \<notin> slot_at p tsz ` set is \<Longrightarrow> slot_next (fold (link_slot p tsz n) is st) a = slot_next st a"
  "a \<notin> slot_at p tsz ` set is \<Longrightarrow> shdr (fold (link_slot p tsz n) is st) a = shdr st a"
proof (induction "is" rule: rev_induct)
  case (snoc j "is")
  {
    case 1
    then show ?case
      using snoc.IH(1) by (auto simp: link_slot_def slot_at_inj)
  next
    case 2
    then show ?case
      using snoc.IH(2) by (auto simp: link_slot_def)
  next
    case 3
    then show ?case
      using snoc.IH(3) by (auto simp: link_slot_def set_slot_next_def)
  }
qed simp_all

lemma new_page_chain:
  assumes "\<And>i. i < n \<Longrightarrow> nx (slot_at p tsz i) = (if i + 1 < n then slot_at p tsz (i + 1) else 0)" "j \<le> n"
  shows "mchain nx (if j < n then slot_at p tsz j else 0) (map (slot_at p tsz) [j..<n])"
  using assms(2)
proof (induction j rule: inc_induct)
  case (step j)
  have "slot_at p tsz j \<noteq> 0"
    by (simp add: slot_at_def sizeof_mp_slab_page_def)
  moreover have "[j..<n] = j # [Suc j..<n]"
    using step by (simp add: upt_conv_Cons)
  ultimately show ?case
    using assms(1) [of j] step by (cases "Suc j < n") simp_all
qed simp

text \<open>A created page, before it is linked.\<close>

lemma create_page_spec:
  assumes "slab_create_page st c = (st', p)" "0 \<notin> set (maps st)"
  shows "p = 0 \<longleftrightarrow> maps st = []" "p = 0 \<Longrightarrow> st' = st"
    "p \<noteq> 0 \<Longrightarrow> p = map_page (hd (maps st)) \<and> maps st' = tl (maps st)
       \<and> pages st' = (pages st)(p := (pages st p)\<lparr>class_index := c, page_raw_mem := p, pg_next := 0, pg_prev := 0,
             is_hot := False, idle_since_ts := 0, total_slots := nslots st c, free_count := nslots st c,
             pg_free := slot_at p (total_slot_size st c) 0, page_free_count := nslots st c\<rparr>)
       \<and> (\<exists>h. st' = st\<lparr>maps := maps st', pages := pages st', total_pool_size := total_pool_size st', shdr := h\<rparr>)
       \<and> (\<forall>i < nslots st c. 0 < total_slot_size st c \<longrightarrow> slot_next st' (slot_at p (total_slot_size st c) i)
             = (if i + 1 < nslots st c then slot_at p (total_slot_size st c) (i + 1) else 0))
       \<and> (\<forall>a. a \<notin> page_slots st c p \<longrightarrow> shdr st' a = shdr st a)"
proof -
  show e: "p = 0 \<longleftrightarrow> maps st = []" "p = 0 \<Longrightarrow> st' = st"
    using assms map_page_props [of "hd (maps st)"]
    by (auto simp: slab_create_page_def Let_def map_page_def split: list.splits if_splits)
  assume p0: "p \<noteq> 0"
  then obtain m ms where m: "maps st = m # ms" "m \<noteq> 0"
    using e assms(2) by (cases "maps st") auto
  let ?t = "total_slot_size st c" and ?n = "nslots st c"
  have t: "total_slot_size (st\<lparr>maps := ms\<rparr>) = total_slot_size st" "nslots (st\<lparr>maps := ms\<rparr>) = nslots st"
    by (rule geometry_cong; simp)+
  define st1 where "st1 = upd_page (map_page m) (\<lambda>p. p\<lparr>class_index := c, page_raw_mem := map_page m, pg_next := 0, pg_prev := 0,
      is_hot := False, idle_since_ts := 0, total_slots := ?n, free_count := ?n, pg_free := slot_at (map_page m) ?t 0,
      page_free_count := ?n\<rparr>) (st\<lparr>maps := ms\<rparr>)"
  define st2 where "st2 = fold (link_slot (map_page m) ?t ?n) [0..<?n] st1"
  have "\<not> m + (SLAB_PAGE_SIZE + SLAB_PAGE_SIZE - 1) < map_page m + SLAB_PAGE_SIZE"
    using map_page_props(3) [OF m(2)] by simp
  then have "slab_create_page st c = (st2\<lparr>total_pool_size := (total_pool_size st2 + SLAB_PAGE_SIZE) mod 2 ^ 64\<rparr>, map_page m)"
    using m by (simp only: slab_create_page_def Let_def list.case t nslots_def [symmetric] map_page_def [symmetric]
        st1_def [symmetric] st2_def [symmetric] simp_thms if_False)
  then have st': "p = map_page m" "st' = st2\<lparr>total_pool_size := (total_pool_size st2 + SLAB_PAGE_SIZE) mod 2 ^ 64\<rparr>"
    using assms(1) by simp_all
  obtain h where h: "st2 = st1\<lparr>shdr := h\<rparr>"
    unfolding st2_def using fold_link_shdr by blast
  have "slot_next st' = slot_next st2"
    by (rule slot_next_cong) (simp add: st')
  then have "slot_next st' (slot_at p ?t i) = (if i + 1 < ?n then slot_at p ?t (i + 1) else 0)" if "i < ?n" "0 < ?t" for i
    using fold_link_next(1) [OF that(2), of i "[0..<?n]" p ?n st1] that(1) by (simp add: st2_def st'(1))
  moreover have "shdr st' a = shdr st a" if "a \<notin> page_slots st c p" for a
    using fold_link_next(3) [of a p ?t "[0..<?n]" ?n st1] that
    by (simp add: st'(2) st2_def [symmetric] page_slots_def st'(1) lessThan_atLeast0) (simp add: st1_def upd_page_def)
  moreover have "\<exists>h. st' = st\<lparr>maps := maps st', pages := pages st', total_pool_size := total_pool_size st', shdr := h\<rparr>"
    by (rule exI [of _ h]) (simp add: st' h st1_def upd_page_def)
  ultimately show "p = map_page (hd (maps st)) \<and> maps st' = tl (maps st)
       \<and> pages st' = (pages st)(p := (pages st p)\<lparr>class_index := c, page_raw_mem := p, pg_next := 0, pg_prev := 0,
             is_hot := False, idle_since_ts := 0, total_slots := nslots st c, free_count := nslots st c,
             pg_free := slot_at p (total_slot_size st c) 0, page_free_count := nslots st c\<rparr>)
       \<and> (\<exists>h. st' = st\<lparr>maps := maps st', pages := pages st', total_pool_size := total_pool_size st', shdr := h\<rparr>)
       \<and> (\<forall>i < nslots st c. 0 < total_slot_size st c \<longrightarrow> slot_next st' (slot_at p (total_slot_size st c) i)
             = (if i + 1 < nslots st c then slot_at p (total_slot_size st c) (i + 1) else 0))
       \<and> (\<forall>a. a \<notin> page_slots st c p \<longrightarrow> shdr st' a = shdr st a)"
    using m by (simp add: st' h st1_def upd_page_def)
qed


lemma inv_slot_page:
  assumes "slab_inv x st D C H" "s \<in> class_slots st D c"
  obtains k where "list_class k = c" "page_of s \<in> set (D k)" "s \<in> page_slots st c (page_of s)"
proof -
  obtain q k where "list_class k = c" "q \<in> set (D k)" "s \<in> page_slots st c q"
    using assms(2) by (auto simp: class_slots_iff)
  moreover from this have "page_of s = q"
    using page_slots_page [of st c s q] inv_page [OF assms(1)] inv_class [OF assms(1)] assms(1)
    by (fastforce simp: page_ok_def slab_inv_def)
  ultimately show thesis
    using that by simp
qed

lemma inv_new_page:
  assumes "slab_inv 0 st D C H" "c < SLAB_CLASS_COUNT" "maps_ok st D" "slab_create_page st c = (st1, p)" "p \<noteq> 0"
  defines "st' \<equiv> push_page (PartialPages c) p st1" and "D' \<equiv> D(PartialPages c := p # D (PartialPages c))"
    and "L \<equiv> map (slot_at p (total_slot_size st c)) [0..<nslots st c]"
  shows "slab_inv p st' D' (C(PageChain p := L)) H" "maps_ok st' D'" "L \<noteq> []"
    "tier_same (page_slots st c p) st st'" "page_slots st c p \<inter> (H \<union> (\<Union>i. set (C i))) = {}"
    "\<And>d. class_slots st D d \<subseteq> class_slots st D' d" "\<And>U. apart_from U st D \<Longrightarrow> apart_from U st' D'"
proof -
  let ?C = "C(PageChain p := L)" and ?t = "total_slot_size st c" and ?n = "nslots st c"
  have sz: "sizes_ok st" and lists: "dlls (pgn st) (pgp st) (page_heads st) D"
    using assms(1) by (auto simp: slab_inv_def)
  note spec = create_page_spec [OF assms(4)]
  have nz: "0 \<notin> set (maps st)"
    using assms(3) by (simp add: maps_ok_def)
  obtain h where h: "st1 = st\<lparr>maps := maps st1, pages := pages st1, total_pool_size := total_pool_size st1, shdr := h\<rparr>"
    and p: "p = map_page (hd (maps st))" "maps st1 = tl (maps st)" and hdr: "\<And>a. a \<notin> page_slots st c p \<Longrightarrow> shdr st1 a = shdr st a"
    and pages1: "pages st1 = (pages st)(p := (pages st p)\<lparr>class_index := c, page_raw_mem := p, pg_next := 0, pg_prev := 0,
             is_hot := False, idle_since_ts := 0, total_slots := ?n, free_count := ?n,
             pg_free := slot_at p ?t 0, page_free_count := ?n\<rparr>)"
    and nx: "\<And>i. i < ?n \<Longrightarrow> 0 < ?t \<Longrightarrow> slot_next st1 (slot_at p ?t i) = (if i + 1 < ?n then slot_at p ?t (i + 1) else 0)"
    using spec(3) [OF nz assms(5)] by blast
  note b = total_slot_size_bounds [OF sz assms(2)]
  have tpos: "0 < ?t"
    using b(1) by (simp add: sizeof_mp_block_header_def)
  have ms: "maps st = hd (maps st) # tl (maps st)"
    using spec(1) [OF nz] assms(5) by simp
  then have pm: "p mod SLAB_PAGE_SIZE = 0"
    using p(1) map_page_props(2) nz by (metis list.set_intros(1))
  have new: "p \<notin> set (D k)" for k
    using assms(3) p(1) ms unfolding maps_ok_def by (metis list.set_intros(1))
  have same1: "tls st1 = tls st" "percpu_heads st1 = percpu_heads st" "percpu_counts st1 = percpu_counts st" "num_cpus st1 = num_cpus st"
    "slot_sizes st1 = slot_sizes st" "sflags st1 = sflags st" "remote_free_queue st1 = remote_free_queue st"
    "empty_page_count st1 = empty_page_count st" "page_heads st1 = page_heads st"
    by (subst h, simp)+
  have g: "total_slot_size st' = total_slot_size st" "nslots st' = nslots st" "page_slots st' = page_slots st"
    "sizes_ok st' = sizes_ok st" "class_slots st' = class_slots st"
    by (rule geometry_cong; simp add: st'_def same1)+
  have pg1: "q \<noteq> p \<Longrightarrow> pages st1 q = pages st q" for q
    by (simp add: pages1)
  have setL: "set L = page_slots st c p"
    by (simp add: L_def page_slots_def lessThan_atLeast0)
  show "L \<noteq> []"
    using b(5) by (simp add: L_def)
  show fresh: "page_slots st c p \<inter> (H \<union> (\<Union>i. set (C i))) = {}"
  proof (rule ccontr)
    assume "page_slots st c p \<inter> (H \<union> (\<Union>i. set (C i))) \<noteq> {}"
    then obtain s where s: "s \<in> page_slots st c p" "s \<in> H \<union> (\<Union>i. set (C i))"
      by blast
    obtain d where "s \<in> class_slots st D d"
      using inv_all_slots [OF assms(1) s(2)] by blast
    then show False
      using inv_slot_page [OF assms(1)] page_slots_page [OF sz assms(2) s(1) pm] new by metis
  qed
  have setD': "q \<in> set (D' k) \<longleftrightarrow> q \<in> set (D k) \<or> q = p \<and> k = PartialPages c" for q k
    by (auto simp: D'_def)
  have cls': "class_slots st D' d = class_slots st D d \<union> (if d = c then page_slots st c p else {})" for d
    unfolding set_eq_iff Un_iff class_slots_iff setD'
    by (auto split: if_splits) (metis list_class.simps(1))
  show D'cls: "class_slots st D d \<subseteq> class_slots st D' d" for d
    by (simp add: cls')
  show "tier_same (page_slots st c p) st st'"
    using hdr by (simp add: tier_same_def st'_def same1)
  obtain m ms where m: "maps st = m # ms" "p = map_page m"
    using ms p(1) by blast
  then have m': "maps st' = ms"
    by (simp add: st'_def p(2))
  show "apart_from U st' D'" if "apart_from U st D" for U
    using that m unfolding apart_from_def m' by (auto simp: D'_def)
  show "maps_ok st' D'"
    unfolding maps_ok_def m' setD'
  proof (intro conjI ballI allI)
    show "0 \<notin> set ms" "distinct (map map_page ms)"
      using assms(3) m(1) by (simp_all add: maps_ok_def)
    show "\<not> (map_page y \<in> set (D k) \<or> map_page y = p \<and> k = PartialPages c)" if "y \<in> set ms" for y k
    proof -
      have "map_page m \<notin> map_page ` set ms" "map_page y \<notin> set (D k)"
        using assms(3) m that by (simp_all add: maps_ok_def)
      then show ?thesis
        using that m(2) by (metis imageI)
    qed
  qed
  have act: "chain_active st' D' i \<longleftrightarrow> i = PageChain p \<or> chain_active st D i" for i
    by (cases i) (simp_all add: setD' ex_disj_distrib disj_commute, simp_all add: st'_def same1)
  have head: "chain_head st' i = chain_head st i" if "i \<noteq> PageChain p" for i
    using that pg1 by (cases i) (auto simp: st'_def same1)
  have nxt: "slot_next st' a = slot_next st1 a" "a \<notin> page_slots st c p \<Longrightarrow> slot_next st1 a = slot_next st a" for a
    using hdr by (simp_all add: slot_next_def st'_def)
  have mch: "mchains (slot_next st') (chain_head st') {i. chain_active st' D' i} ?C"
  proof -
    have "mchains (slot_next st') (chain_head st') {i. chain_active st D i} C"
    proof (rule mchains_frame)
      show "mchains (slot_next st) (chain_head st) {i. chain_active st D i} C"
        using assms(1) by (simp add: slab_inv_def)
      show "slot_next st' x = slot_next st x" if "x \<in> set (C i)" for i x
      proof -
        have "x \<notin> page_slots st c p"
          using fresh that by blast
        then show ?thesis
          by (simp add: nxt)
      qed
      show "chain_head st' i = chain_head st i" if "i \<in> {i. chain_active st D i}" for i
        using that new by (intro head) auto
    qed
    moreover have "mchain (slot_next st') (chain_head st' (PageChain p)) L"
    proof -
      have "slot_next st' (slot_at p ?t i) = (if i + 1 < ?n then slot_at p ?t (i + 1) else 0)" if "i < ?n" for i
        using nx [OF that tpos] nxt(1) by simp
      from new_page_chain [OF this] have "mchain (slot_next st') (if 0 < ?n then slot_at p ?t 0 else 0) L"
        unfolding L_def by blast
      moreover have "chain_head st' (PageChain p) = slot_at p ?t 0"
        by (simp add: st'_def pages1)
      ultimately show ?thesis
        using b(5) by simp
    qed
    moreover have "distinct L"
      using tpos by (simp add: L_def distinct_map inj_on_def slot_at_inj)
    moreover have "set L \<inter> set (C j) = {}" for j
      unfolding setL using fresh by blast
    ultimately have "mchains (slot_next st') (chain_head st') (insert (PageChain p) {i. chain_active st D i}) ?C"
      by (rule mchains_add)
    moreover have "{i. chain_active st' D' i} = insert (PageChain p) {i. chain_active st D i}"
      unfolding act by blast
    ultimately show ?thesis
      by (simp only:)
  qed
  have "dlls (pgn st1) (pgp st1) (page_heads st1) D"
    using lists slab_dll.other_list pg1 new unfolding dlls_def same1 by (metis (no_types, lifting))
  then have lists': "dlls (pgn st') (pgp st') (page_heads st') D'"
    unfolding st'_def D'_def using new assms(5) by (rule push_page_lists)
  have old: "H \<union> (\<Union>i. set (C i)) \<subseteq> H \<union> (\<Union>i. set (?C i))"
  proof -
    have "C (PageChain p) = []"
      using assms(1) new unfolding slab_inv_def mchains_def by (metis chain_active.simps(1) mem_Collect_eq)
    then have "set (C i) \<subseteq> set (?C i)" for i
      by auto
    then show ?thesis
      by blast
  qed
  have pok: "page_ok p st' k q (?C (PageChain q))" if "q \<in> set (D' k)" for k q
  proof (cases "q = p")
    case True
    then have "k = PartialPages c"
      using that new by (auto simp: D'_def split: if_splits)
    then show ?thesis
      using True pm assms(5) setL by (simp add: page_ok_def g) (simp add: st'_def pages1 L_def)
  next
    case False
    then have "q \<in> set (D k)"
      using that by (auto simp: D'_def split: if_splits)
    from inv_page [OF assms(1) this] show ?thesis
      using False pg1 [OF False] by (auto simp: page_ok_def g) (auto simp: st'_def)
  qed
  show "slab_inv p st' D' ?C H"
    unfolding slab_inv_def
  proof (intro conjI allI impI ballI)
    show "sizes_ok st'"
      using sz by (simp add: g)
    show "D' k = []" if "SLAB_CLASS_COUNT \<le> list_class k" for k
      using assms(1,2) that by (auto simp: slab_inv_def D'_def)
    show "set (?C i) \<subseteq> chain_slots_of st' D' i" for i
    proof -
      have "set (C i) \<subseteq> chain_slots_of st D i"
        using assms(1) by (simp add: slab_inv_def)
      then show ?thesis
        using D'cls by (cases i) (auto simp: g)
    qed
    show "set (?C i) \<inter> H = {}" for i
      using fresh assms(1) unfolding slab_inv_def by (auto simp: setL)
    show "class_slots st' D' d \<subseteq> H \<union> (\<Union>i. set (?C i))" if "d < SLAB_CLASS_COUNT" for d
    proof -
      have "class_slots st D d \<subseteq> H \<union> (\<Union>i. set (?C i))"
        using assms(1) that old unfolding slab_inv_def by blast
      moreover have "page_slots st c p \<subseteq> (\<Union>i. set (?C i))"
        using setL by (metis UN_upper UNIV_I fun_upd_same)
      ultimately show ?thesis
        by (auto simp: g cls')
    qed
    show "H \<subseteq> (\<Union>d < SLAB_CLASS_COUNT. class_slots st' D' d)"
      using assms(1) D'cls unfolding slab_inv_def g by blast
    show "counts_ok st' D' ?C"
      using assms(1) by (simp add: slab_inv_def counts_ok_def act) (simp add: st'_def D'_def same1)
  qed (use mch lists' pok in auto)
qed

end
