(* ===== verification/Slab_Ops.thy ===== *)
theory Slab_Ops
  imports Slab_Inv
begin

text \<open>
  The operations of the slab tier keep the invariant of \<open>Slab_Inv\<close>: taking slots from pages, harvesting the
  remote queues, refilling, using and flushing the thread caches and the per-CPU lists.
\<close>

section \<open>Taking a slot\<close>

lemma inv_sizes: "slab_inv x st D C H \<Longrightarrow> sizes_ok st"
  by (simp add: slab_inv_def)

lemma inv_chain: "slab_inv x st D C H \<Longrightarrow> chain_active st D i \<Longrightarrow> mchain (slot_next st) (chain_head st i) (C i)"
  by (simp add: slab_inv_def mchains_def)

lemma inv_disjoint: "slab_inv x st D C H \<Longrightarrow> i \<noteq> j \<Longrightarrow> set (C i) \<inter> set (C j) = {}" "slab_inv x st D C H \<Longrightarrow> set (C i) \<inter> H = {}"
  "slab_inv x st D C H \<Longrightarrow> distinct (C i)"
  by (simp_all add: slab_inv_def mchains_def)

lemma inv_chain_of: "slab_inv x st D C H \<Longrightarrow> set (C i) \<subseteq> chain_slots_of st D i"
  by (simp add: slab_inv_def)

lemma inv_first_page:
  assumes "slab_inv x st D C H" "page_heads st k \<noteq> 0"
  shows "page_heads st k \<in> set (D k)" "pgp st (page_heads st k) = 0" "pop_first_page k (page_heads st k) st = unlink_page k (page_heads st k) st"
proof -
  have d: "dll (pgn st) (pgp st) (page_heads st k) (D k)"
    using assms(1) by (simp add: slab_inv_def dlls_def)
  show "page_heads st k \<in> set (D k)"
    using dll_head [OF d assms(2)] .
  show "pgp st (page_heads st k) = 0"
    using d assms(2) by (cases "D k") auto
  then show "pop_first_page k (page_heads st k) st = unlink_page k (page_heads st k) st"
    by (rule pop_first_is_unlink)
qed

text \<open>After a page has been chosen it heads the partial list; it may be wholly free.\<close>

lemma inv_take_page:
  assumes "slab_inv 0 st D C H" "c < SLAB_CLASS_COUNT" "maps_ok st D" "slab_take_page st c = (st', p)"
  shows "p = 0 \<Longrightarrow> st' = st"
    "p \<noteq> 0 \<Longrightarrow> \<exists>D' C'. slab_inv p st' D' C' H \<and> maps_ok st' D' \<and> p = page_heads st' (PartialPages c)
        \<and> C' (PageChain p) \<noteq> [] \<and> tier_same {y. y \<notin> H \<union> (\<Union>i. set (C i))} st st' \<and> (\<forall>d. class_slots st D d \<subseteq> class_slots st D' d)
        \<and> (\<forall>i. (\<forall>q. i \<noteq> PageChain q) \<longrightarrow> C' i = C i) \<and> (\<forall>U. apart_from U st D \<longrightarrow> apart_from U st' D')"
proof -
  let ?h = "page_heads st (PartialPages c)" and ?e = "page_heads st (EmptyPages c)"
  have cnt: "\<And>c. empty_page_count st c = length (D (EmptyPages c))"
    and lists: "dlls (pgn st) (pgp st) (page_heads st) D"
    using assms(1) by (auto simp: slab_inv_def counts_ok_def)
  have mono: "tier_same X st st' \<Longrightarrow> X \<subseteq> Y \<Longrightarrow> tier_same Y st st'" for X Y st st'
    unfolding tier_same_def by blast
  have "(p = 0 \<longrightarrow> st' = st) \<and> (p \<noteq> 0 \<longrightarrow> (\<exists>D' C'. slab_inv p st' D' C' H \<and> maps_ok st' D' \<and> p = page_heads st' (PartialPages c)
        \<and> C' (PageChain p) \<noteq> [] \<and> tier_same {y. y \<notin> H \<union> (\<Union>i. set (C i))} st st' \<and> (\<forall>d. class_slots st D d \<subseteq> class_slots st D' d)
        \<and> (\<forall>i. (\<forall>q. i \<noteq> PageChain q) \<longrightarrow> C' i = C i) \<and> (\<forall>U. apart_from U st D \<longrightarrow> apart_from U st' D')))"
  proof (cases "?h = 0")
    case False
    then have e: "st' = st" "p = ?h"
      using assms(4) by (auto simp: slab_take_page_def)
    have "page_ok 0 st (PartialPages c) p (C (PageChain p))"
      using inv_page [OF assms(1) inv_first_page(1) [OF assms(1) False]] e by simp
    then have "C (PageChain p) \<noteq> []"
      by (auto simp: page_ok_def)
    then show ?thesis
      using e False inv_weaken [OF assms(1)] assms(3) by (auto simp: tier_same_def)
  next
    case h0: True
    show ?thesis
    proof (cases "?e = 0")
      case False
      note fst_page = inv_first_page [OF assms(1) False]
      let ?D = "moved (EmptyPages c) (PartialPages c) ?e D"
      have e: "p = ?e" "st' = push_page (PartialPages c) ?e ((unlink_page (EmptyPages c) ?e st)
          \<lparr>empty_page_count := (empty_page_count st)(c := empty_page_count st c - 1)\<rparr>)"
        using assms(4) h0 False fst_page(3) by (auto simp: slab_take_page_def Let_def)
      have e': "st' = (push_page (PartialPages c) ?e (unlink_page (EmptyPages c) ?e st))
          \<lparr>empty_page_count := (empty_page_count st)(c := empty_page_count st c - 1)\<rparr>"
        unfolding e by (simp add: push_page_def Let_def set_pg_next_def set_pg_prev_def set_page_head_def upd_page_def)
      have inv': "slab_inv p st' ?D C H"
        unfolding e' e(1) using fst_page(1) cnt
        by (intro inv_move [OF inv_weaken [OF assms(1)]]) (auto simp: moved_def length_remove1)
      have "page_ok 0 st (EmptyPages c) p (C (PageChain p))"
        using inv_page [OF assms(1) fst_page(1)] e by simp
      then have ne: "C (PageChain p) \<noteq> []"
        using total_slot_size_bounds(5) [OF inv_sizes [OF assms(1)] assms(2)] by (auto simp: page_ok_def)
      note mp = moved_pages [OF lists fst_page(1), of "PartialPages c"]
      have "maps_ok st' ?D"
      proof -
        have "map_page m \<notin> set (?D k)" if "m \<in> set (maps st)" for m k
          using mp(2) [of "map_page m"] assms(3) that unfolding maps_ok_def by auto
        then show ?thesis
          using assms(3) by (simp add: maps_ok_def e')
      qed
      moreover have "tier_same {y. y \<notin> H \<union> (\<Union>i. set (C i))} st st'"
        by (simp add: tier_same_def e')
      moreover have "\<forall>d. class_slots st D d \<subseteq> class_slots st ?D d"
        using mp(3) [of st] by simp
      moreover have "\<forall>U. apart_from U st D \<longrightarrow> apart_from U st' ?D"
        using mp(2) unfolding apart_from_def e' by auto
      ultimately show ?thesis
        using inv' ne False e' e(1) by auto
    next
      case e0: True
      obtain st1 where st1: "slab_create_page st c = (st1, p)"
        and st': "st' = (if p = 0 then st1 else push_page (PartialPages c) p st1)"
        using assms(4) h0 e0 by (auto simp: slab_take_page_def split: prod.splits if_splits)
      show ?thesis
      proof (cases "p = 0")
        case True
        then show ?thesis
          using create_page_spec(2) [OF st1] assms(3) st' by (simp add: maps_ok_def)
      next
        case False
        note new = inv_new_page [OF assms(1,2,3) st1 False]
        have "tier_same {y. y \<notin> H \<union> (\<Union>i. set (C i))} st st'"
          using mono [OF new(4), of "{y. y \<notin> H \<union> (\<Union>i. set (C i))}"] new(5) st' False
          by (metis (no_types, lifting) Collect_mem_eq Collect_mono disjoint_iff)
        then show ?thesis
          using new(1,2,3,6,7) st' False by (intro conjI impI) (simp, rule exI, rule exI, auto)
      qed
    qed
  qed
  then show "p = 0 \<Longrightarrow> st' = st"
    "p \<noteq> 0 \<Longrightarrow> \<exists>D' C'. slab_inv p st' D' C' H \<and> maps_ok st' D' \<and> p = page_heads st' (PartialPages c)
        \<and> C' (PageChain p) \<noteq> [] \<and> tier_same {y. y \<notin> H \<union> (\<Union>i. set (C i))} st st' \<and> (\<forall>d. class_slots st D d \<subseteq> class_slots st D' d)
        \<and> (\<forall>i. (\<forall>q. i \<noteq> PageChain q) \<longrightarrow> C' i = C i) \<and> (\<forall>U. apart_from U st D \<longrightarrow> apart_from U st' D')"
    by blast+
qed

lemma inv_pop_slot:
  assumes "slab_inv x st D C H" "x = 0 \<or> x = p" "p = page_heads st (PartialPages c)" "p \<noteq> 0" "C (PageChain p) \<noteq> []"
    "slab_pop_slot st c p = (st', s)"
  obtains D' C' where "slab_inv 0 st' D' C' (insert s H)" "s \<notin> H" "s \<noteq> 0" "s \<in> class_slots st D c" "s \<in> set (C (PageChain p))"
    "tier_same {} st st'" "\<And>d. class_slots st D' d = class_slots st D d" "\<And>q. (\<exists>j. q \<in> set (D' j)) \<longleftrightarrow> (\<exists>j. q \<in> set (D j))"
    "\<And>i. (\<forall>q. i \<noteq> PageChain q) \<Longrightarrow> C' i = C i" "maps st' = maps st"
proof -
  let ?C = "C(PageChain p := tl (C (PageChain p)))"
  have inD: "p \<in> set (D (PartialPages c))"
    using inv_first_page(1) [OF assms(1)] assms(3,4) by simp
  define st1 where "st1 = upd_page p (\<lambda>q. q\<lparr>pg_free := slot_next st s, free_count := (free_count q + 65535) mod 2 ^ 16\<rparr>) st"
  have s: "s = pg_free (pages st p)" and st': "st' = (if free_count (pages st1 p) = 0
      then push_page (FullPages c) p (pop_first_page (PartialPages c) p st1) else st1)"
    using assms(6) by (auto simp: slab_pop_slot_def Let_def st1_def split: if_splits)
  note pop = inv_pop [OF assms(1,2) inD assms(5) s, folded st1_def]
  have cls: "s \<in> class_slots st D c" and c: "c < SLAB_CLASS_COUNT"
    using pop(3) inD inv_class [OF assms(1) inD] by (auto simp: class_slots_iff intro!: exI [of _ p] exI [of _ "PartialPages c"])
  have sC: "s \<in> set (C (PageChain p))" "s \<noteq> 0"
  proof -
    have "mchain (slot_next st) s (C (PageChain p))"
      using inv_chain [OF assms(1), of "PageChain p"] inD s by auto
    then show "s \<in> set (C (PageChain p))" "s \<noteq> 0"
      using assms(5) by (cases "C (PageChain p)"; auto)+
  qed
  have heads: "page_heads st1 = page_heads st" "maps st1 = maps st" "empty_page_count st1 = empty_page_count st" and same1: "tier_same {} st st1"
    by (simp_all add: st1_def upd_page_def tier_same_def)
  have fc: "free_count (pages st1 p) = length (tl (C (PageChain p)))"
    using inv_page [OF pop(1) inD] by (simp add: page_ok_def)
  have len: "length (tl (C (PageChain p))) < nslots st c"
    using inv_chain_length(1) [OF assms(1) inD] assms(5) by (cases "C (PageChain p)") auto
  have ns: "nslots st1 = nslots st" "class_slots st1 = class_slots st"
    by (rule geometry_cong; simp add: st1_def upd_page_def)+
  show thesis
  proof (cases "tl (C (PageChain p)) = []")
    case False
    then have e: "st' = st1"
      using st' fc by (simp del: length_tl)
    have "slab_inv 0 st' D ?C (insert s H)"
      unfolding e using inv_settle [OF pop(1) inD] False len ns by simp
    from that [OF this pop(2) sC(2) cls sC(1)] show thesis
      using same1 heads by (simp add: e)
  next
    case True
    let ?D = "moved (PartialPages c) (FullPages c) p D"
    have lists: "dlls (pgn st1) (pgp st1) (page_heads st1) D" and cnt: "\<And>c. empty_page_count st1 c = length (D (EmptyPages c))"
      using pop(1) by (auto simp: slab_inv_def counts_ok_def)
    have e: "st' = push_page (FullPages c) p (unlink_page (PartialPages c) p st1)"
      using st' fc True inv_first_page(3) [OF pop(1), of "PartialPages c"] assms(3,4) heads by (simp del: length_tl)
    have "slab_inv p ((push_page (FullPages c) p (unlink_page (PartialPages c) p st1))\<lparr>empty_page_count := empty_page_count st1\<rparr>) ?D ?C (insert s H)"
      using inD cnt by (intro inv_move [OF pop(1)]) (auto simp: moved_def)
    then have "slab_inv p st' ?D ?C (insert s H)"
      using keep_empty_count [of "push_page (FullPages c) p (unlink_page (PartialPages c) p st1)"] e by simp
    then have "slab_inv 0 st' ?D ?C (insert s H)"
      by (rule inv_settle [where k = "FullPages c"]) (use True in \<open>simp_all add: moved_def\<close>)
    from that [OF this pop(2) sC(2) cls sC(1)] show thesis
      using same1 heads moved_pages(2,3) [OF lists inD, of "FullPages c"] by (simp add: e tier_same_def)
  qed
qed

text \<open>Both steps together: a slot of the class that nobody had.\<close>

lemma inv_take_slot:
  assumes "slab_inv 0 st D C H" "c < SLAB_CLASS_COUNT" "maps_ok st D" "slab_take_page st c = (st1, p)" "p \<noteq> 0"
    "slab_pop_slot st1 c p = (st', s)"
  obtains D' C' where "slab_inv 0 st' D' C' (insert s H)" "maps_ok st' D'" "s \<notin> H" "s \<noteq> 0" "s \<in> class_slots st D' c"
    "tier_same {y. y \<notin> H \<union> (\<Union>i. set (C i))} st st'" "\<And>d. class_slots st D d \<subseteq> class_slots st D' d"
    "\<And>i. (\<forall>q. i \<noteq> PageChain q) \<Longrightarrow> C' i = C i" "s \<notin> (\<Union>t d. set (C (TlsChain t d)))"
    "\<And>U. apart_from U st D \<Longrightarrow> apart_from U st' D'"
proof -
  obtain D1 C1 where 1: "slab_inv p st1 D1 C1 H" "maps_ok st1 D1" "p = page_heads st1 (PartialPages c)" "C1 (PageChain p) \<noteq> []"
    "tier_same {y. y \<notin> H \<union> (\<Union>i. set (C i))} st st1" "\<And>d. class_slots st D d \<subseteq> class_slots st D1 d"
    "\<And>i. (\<forall>q. i \<noteq> PageChain q) \<Longrightarrow> C1 i = C i" "\<And>U. apart_from U st D \<Longrightarrow> apart_from U st1 D1"
    using inv_take_page(2) [OF assms(1-5)] by metis
  obtain D' C' where 2: "slab_inv 0 st' D' C' (insert s H)" "s \<notin> H" "s \<noteq> 0" "s \<in> class_slots st1 D1 c" "s \<in> set (C1 (PageChain p))"
    "tier_same {} st1 st'" "\<And>d. class_slots st1 D' d = class_slots st1 D1 d" "\<And>q. (\<exists>j. q \<in> set (D' j)) \<longleftrightarrow> (\<exists>j. q \<in> set (D1 j))"
    "\<And>i. (\<forall>q. i \<noteq> PageChain q) \<Longrightarrow> C' i = C1 i" "maps st' = maps st1"
    using inv_pop_slot [OF 1(1) _ 1(3) assms(5) 1(4) assms(6)] by blast
  have g: "class_slots st1 = class_slots st"
    using 1(5) by (intro geometry_cong(5)) (simp_all add: tier_same_def)
  have "map_page m \<notin> set (D' k)" if "m \<in> set (maps st1)" for m k
    using 1(2) 2(8) that unfolding maps_ok_def by blast
  then have m: "maps_ok st' D'"
    using 1(2) 2(10) by (simp add: maps_ok_def)
  have "s \<notin> set (C1 (TlsChain t d))" for t d
    using inv_disjoint(1) [OF 1(1), of "PageChain p" "TlsChain t d"] 2(5) by auto
  then have "s \<notin> (\<Union>t d. set (C (TlsChain t d)))"
    using 1(7) by auto
  moreover have "apart_from U st' D'" if "apart_from U st D" for U
    using 1(8) [OF that] 2(8) unfolding apart_from_def 2(10) by blast
  ultimately show thesis
    using that [OF 2(1) m 2(2,3)] tier_same_trans [OF 1(5) 2(6)] 2(4,7,9) 1(6,7) g by simp
qed

section \<open>Queues and caches\<close>

text \<open>Linking a slot into a place outside the pages, taking the first one out, and detaching all of them.\<close>

definition outside :: "chain \<Rightarrow> bool" where
  "outside i \<longleftrightarrow> (\<forall>p. i \<noteq> PageChain p)"

lemma outside_simps [simp]: "outside (RemoteChain c)" "outside (TlsChain t c)" "outside (CpuChain k)" "\<not> outside (PageChain p)"
  by (simp_all add: outside_def)

definition page_same :: "slab_pool \<Rightarrow> slab_pool \<Rightarrow> bool" where
  "page_same st st' \<longleftrightarrow> pages st' = pages st \<and> page_heads st' = page_heads st \<and> sflags st' = sflags st \<and> slot_sizes st' = slot_sizes st"

lemma inv_outside_update:
  assumes inv: "slab_inv x st D C H" and "page_same st st'"
    and "outside i" "\<And>i. chain_active st' D i = chain_active st D i"
    and "mchains (slot_next st') (chain_head st') {i. chain_active st D i} (C(i := L))"
    and "set L \<subseteq> chain_slots_of st D i" "\<And>j. j \<noteq> i \<Longrightarrow> set (C j) \<inter> H' = {}" "set L \<inter> H' = {}"
    and "H' \<union> set L = H \<union> set (C i)" "counts_ok st' D (C(i := L))"
  shows "slab_inv x st' D (C(i := L)) H'"
proof (rule inv_update [OF inv])
  show "free_count (pages st' p) = length ((C(i := L)) (PageChain p)) \<and> set ((C(i := L)) (PageChain p)) \<subseteq> page_slots st (list_class k) p
      \<and> (p = x \<or> kind_ok (nslots st (list_class k)) k ((C(i := L)) (PageChain p)))" if "p \<in> set (D k)" for k p
    using inv_page [OF inv that] assms(2,3) by (auto simp: page_ok_def page_same_def)
  show "set ((C(i := L)) j) \<subseteq> chain_slots_of st D j" for j
    using inv assms(6) by (auto simp: slab_inv_def)
  show "set ((C(i := L)) j) \<inter> H' = {}" for j
    using assms(7,8) by auto
  have U: "(\<Union>j. f j) = f i \<union> (\<Union>j \<in> - {i}. f j)" for f :: "chain \<Rightarrow> addr set"
    by blast
  have "(\<Union>j \<in> - {i}. set ((C(i := L)) j)) = (\<Union>j \<in> - {i}. set (C j))"
    by (rule SUP_cong) auto
  then have "(\<Union>j. set ((C(i := L)) j)) = set L \<union> (\<Union>j \<in> - {i}. set (C j))" "(\<Union>j. set (C j)) = set (C i) \<union> (\<Union>j \<in> - {i}. set (C j))"
    using U [of "\<lambda>j. set ((C(i := L)) j)"] U [of "\<lambda>j. set (C j)"] by simp_all
  then show "H' \<union> (\<Union>j. set ((C(i := L)) j)) = H \<union> (\<Union>j. set (C j))"
    using assms(9) by (metis Un_assoc)
qed (use assms in \<open>auto simp: page_same_def\<close>)

lemma inv_held_slot:
  assumes "slab_inv 0 st D C H" "s \<in> H"
  shows "s \<noteq> 0" "\<not> bad_slot s"
proof -
  obtain k where k: "page_of s \<in> set (D k)" "s \<in> page_slots st (list_class k) (page_of s)" "list_class k < SLAB_CLASS_COUNT"
    using inv_held_page [OF assms] by metis
  show "s \<noteq> 0" "\<not> bad_slot s"
    using page_slots_good [OF inv_sizes [OF assms(1)] k(3,2)] inv_page [OF assms(1) k(1)] by (simp_all add: page_ok_def)
qed

lemma inv_outside_push:
  assumes "slab_inv 0 st D C H" "s \<in> H" "outside i" "chain_active st D i" "s \<in> chain_slots_of st D i" "page_same st st'"
    and "slot_next st' = (slot_next st)(s := chain_head st i)" "chain_head st' = (chain_head st)(i := s)"
    and "\<And>i. chain_active st' D i = chain_active st D i" "counts_ok st' D (C(i := s # C i))"
  shows "slab_inv 0 st' D (C(i := s # C i)) (H - {s})"
proof (rule inv_outside_update [OF assms(1,6,3,9)])
  have notin: "s \<notin> set (C j)" for j
    using inv_disjoint(2) [OF assms(1)] assms(2) by blast
  show "mchains (slot_next st') (chain_head st') {i. chain_active st D i} (C(i := s # C i))"
    unfolding assms(7,8) using assms(1,4) inv_held_slot(1) [OF assms(1,2)] notin
    by (intro mchains_push) (auto simp: slab_inv_def)
  show "set (s # C i) \<subseteq> chain_slots_of st D i"
    using assms(1,5) by (auto simp: slab_inv_def)
  show "set (C j) \<inter> (H - {s}) = {}" for j
    using inv_disjoint(2) [OF assms(1)] by blast
  then show "set (s # C i) \<inter> (H - {s}) = {}"
    by auto
  show "H - {s} \<union> set (s # C i) = H \<union> set (C i)"
    using assms(2) by auto
qed (rule assms(10))

lemma inv_outside_pop:
  assumes "slab_inv 0 st D C H" "outside i" "chain_active st D i" "chain_head st i \<noteq> 0" "page_same st st'"
    and "slot_next st' = slot_next st" "chain_head st' = (chain_head st)(i := slot_next st (chain_head st i))"
    and "\<And>i. chain_active st' D i = chain_active st D i" "counts_ok st' D (C(i := tl (C i)))"
  shows "slab_inv 0 st' D (C(i := tl (C i))) (insert (chain_head st i) H)" "chain_head st i \<notin> H" "chain_head st i \<in> chain_slots_of st D i"
    "C i = chain_head st i # tl (C i)"
proof -
  let ?s = "chain_head st i"
  have mch: "mchains (slot_next st) (chain_head st) {i. chain_active st D i} C" and act: "i \<in> {i. chain_active st D i}"
    using assms(1,3) by (auto simp: slab_inv_def)
  note pop = mchains_pop [OF mch act assms(4)]
  show C: "C i = ?s # tl (C i)"
    by (rule pop(2))
  then have sC: "?s \<in> set (C i)" "set (C i) = insert ?s (set (tl (C i)))" "?s \<notin> set (tl (C i))"
    using inv_disjoint(3) [OF assms(1), of i] by (metis list.set_intros(1), metis list.simps(15), metis distinct.simps(2))
  then show "?s \<notin> H" "?s \<in> chain_slots_of st D i"
    using inv_disjoint(2) [OF assms(1), of i] inv_chain_of [OF assms(1), of i] by blast+
  show "slab_inv 0 st' D (C(i := tl (C i))) (insert ?s H)"
  proof (rule inv_outside_update [OF assms(1,5,2,8)])
    show "mchains (slot_next st') (chain_head st') {i. chain_active st D i} (C(i := tl (C i)))"
      unfolding assms(6,7) by (rule pop(1))
    show "set (tl (C i)) \<subseteq> chain_slots_of st D i"
      using inv_chain_of [OF assms(1), of i] sC(2) by blast
    show "set (C j) \<inter> insert ?s H = {}" if "j \<noteq> i" for j
      using inv_disjoint(1) [OF assms(1) that] inv_disjoint(2) [OF assms(1), of j] sC(1) by blast
    show "set (tl (C i)) \<inter> insert ?s H = {}"
      using inv_disjoint(2) [OF assms(1), of i] sC(2,3) by blast
    show "insert ?s H \<union> set (tl (C i)) = H \<union> set (C i)"
      using sC(2) by blast
  qed (rule assms(9))
qed

lemma inv_outside_detach:
  assumes "slab_inv 0 st D C H" "outside i" "chain_active st D i" "page_same st st'"
    and "slot_next st' = slot_next st" "chain_head st' = (chain_head st)(i := 0)"
    and "\<And>i. chain_active st' D i = chain_active st D i" "counts_ok st' D (C(i := []))"
  shows "slab_inv 0 st' D (C(i := [])) (H \<union> set (C i))" "mchain (slot_next st') (chain_head st i) (C i)"
proof -
  show "mchain (slot_next st') (chain_head st i) (C i)"
    using inv_chain [OF assms(1,3)] by (simp add: assms(5))
  show "slab_inv 0 st' D (C(i := [])) (H \<union> set (C i))"
  proof (rule inv_outside_update [OF assms(1,4,2,7)])
    show "mchains (slot_next st') (chain_head st') {i. chain_active st D i} (C(i := []))"
      unfolding assms(5,6) using assms(1,3) by (intro mchains_detach) (auto simp: slab_inv_def)
    show "set (C j) \<inter> (H \<union> set (C i)) = {}" if "j \<noteq> i" for j
      using inv_disjoint(1) [OF assms(1) that] inv_disjoint(2) [OF assms(1), of j] by blast
  qed (use assms in auto)
qed

section \<open>Harvesting\<close>

text \<open>What returning the slots \<open>X\<close> to their pages leaves as it was.\<close>

definition returned ::
  "addr set \<Rightarrow> slab_pool \<Rightarrow> (page_list \<Rightarrow> addr list) \<Rightarrow> (chain \<Rightarrow> addr list) \<Rightarrow>
   slab_pool \<Rightarrow> (page_list \<Rightarrow> addr list) \<Rightarrow> (chain \<Rightarrow> addr list) \<Rightarrow> bool" where
  "returned X st D C st' D' C' \<longleftrightarrow>
     tier_same X st st' \<and> maps st' = maps st \<and> class_slots st D' = class_slots st D
     \<and> (\<forall>q. (\<exists>j. q \<in> set (D' j)) \<longleftrightarrow> (\<exists>j. q \<in> set (D j))) \<and> (\<forall>i. outside i \<longrightarrow> C' i = C i)"

lemma returned_refl: "returned {} st D C st D C"
  by (simp add: returned_def tier_same_def)

lemma returned_trans:
  assumes "returned X st D C st1 D1 C1" "returned Y st1 D1 C1 st' D' C'"
  shows "returned (X \<union> Y) st D C st' D' C'"
proof -
  have "class_slots st1 = class_slots st"
    using assms(1) by (intro geometry_cong) (simp_all add: returned_def tier_same_def)
  then show ?thesis
    using assms tier_same_trans [of X st st1 Y st'] by (auto simp: returned_def)
qed

lemma returned_maps: "returned X st D C st' D' C' \<Longrightarrow> maps_ok st D \<Longrightarrow> maps_ok st' D'"
  unfolding returned_def maps_ok_def by metis

lemma maps_transitions [simp]: "maps (slab_transitions c s tf st) = maps st"
  by (auto simp: slab_transitions_def Let_def upd_page_def split: prod.splits)

lemma inv_loose_return:
  assumes "slab_inv 0 st D C H" "s \<in> H" "s \<in> class_slots st D c" "slab_free_nolock (restamp c s st) s = (st1, tf)"
  obtains D' C' where "slab_inv 0 (slab_transitions c s tf st1) D' C' (H - {s})"
    "returned {s} st D C (slab_transitions c s tf st1) D' C'"
proof -
  let ?st = "restamp c s st"
  have same: "sflags ?st = sflags st" "slot_sizes ?st = slot_sizes st" "tier_same {s} st ?st" "maps ?st = maps st"
    by (simp_all add: restamp_def tier_same_def)
  note g = geometry_cong(5) [OF same(1,2)]
  have inv: "slab_inv 0 ?st D C H"
    using inv_frame [OF assms(1)] assms(2) by simp
  have m: "maps st1 = maps ?st"
    using inv_give(10) [OF inv assms(2)] assms(4) by (cases tf) auto
  have "s \<in> class_slots ?st D c"
    using assms(3) g by simp
  from inv_return [OF inv assms(2) this assms(4)] obtain D' C' where
    "slab_inv 0 (slab_transitions c s tf st1) D' C' (H - {s})" "tier_same {s} ?st (slab_transitions c s tf st1)"
    "\<And>d. class_slots ?st D' d = class_slots ?st D d" "\<And>q. (\<exists>j. q \<in> set (D' j)) \<longleftrightarrow> (\<exists>j. q \<in> set (D j))"
    "\<And>i. (\<forall>p. i \<noteq> PageChain p) \<Longrightarrow> C' i = C i"
    by metis
  moreover from this have "returned {s} st D C (slab_transitions c s tf st1) D' C'"
    using tier_same_trans [OF same(3), of "{s}"] m same(4) g by (simp add: returned_def outside_def fun_eq_iff)
  ultimately show thesis
    using that by blast
qed

lemma inv_harvest_loop:
  assumes "slab_inv 0 st D C H" "mchain (slot_next st) slot L" "set L \<subseteq> H" "distinct L" "set L \<subseteq> class_slots st D c"
  shows "\<exists>st' D' C'. harvest_loop c slot st = Some st' \<and> slab_inv 0 st' D' C' (H - set L) \<and> returned (set L) st D C st' D' C'"
  using assms
proof (induction L arbitrary: st D C H slot)
  case Nil
  then have "harvest_loop c slot st = Some st"
    by (subst harvest_loop.simps) simp
  then show ?case
    using Nil.prems(1) returned_refl by force
next
  case (Cons s L)
  then have s: "slot = s" "s \<in> H" "s \<in> class_slots st D c" and L: "mchain (slot_next st) (slot_next st s) L"
    by simp_all
  obtain st1 tf where f: "slab_free_nolock (restamp c s st) s = (st1, tf)"
    using prod.exhaust by blast
  let ?st2 = "slab_transitions c s tf st1"
  let ?st3 = "sub_allocated (slot_sizes ?st2 ! c) ?st2"
  obtain D1 C1 where 1: "slab_inv 0 ?st2 D1 C1 (H - {s})" "returned {s} st D C ?st2 D1 C1"
    using inv_loose_return [OF Cons.prems(1) s(2,3) f] by metis
  have step: "harvest_loop c slot st = harvest_loop c (slot_next st s) ?st3"
    using inv_held_slot [OF Cons.prems(1) s(2)] f by (subst harvest_loop.simps) (simp add: s(1) Let_def)
  have 3: "slab_inv 0 ?st3 D1 C1 (H - {s})" "returned {s} st D C ?st3 D1 C1"
    using inv_frame [OF 1(1)] 1(2) by (simp, simp add: returned_def tier_same_def sub_allocated_def)
  have nx: "slot_next ?st3 y = slot_next st y" if "y \<noteq> s" for y
    using 3(2) that by (intro slot_next_at) (simp add: returned_def tier_same_def)
  have "mchain (slot_next ?st3) (slot_next st s) L"
    by (rule mchain_frame [THEN iffD2, OF nx L]) (use Cons.prems(4) in auto)
  moreover have "set L \<subseteq> H - {s}" "distinct L"
    using Cons.prems(3,4) by auto
  moreover have "set L \<subseteq> class_slots ?st3 D1 c"
    using 3(2) Cons.prems(5) geometry_cong(5) [of ?st3 st] by (auto simp: returned_def tier_same_def)
  ultimately obtain st' D' C' where "harvest_loop c (slot_next st s) ?st3 = Some st'" "slab_inv 0 st' D' C' (H - {s} - set L)"
    "returned (set L) ?st3 D1 C1 st' D' C'"
    using Cons.IH [OF 3(1)] by metis
  moreover have "H - {s} - set L = H - set (s # L)"
    by auto
  ultimately show ?case
    using returned_trans [OF 3(2)] step by force
qed

text \<open>What every operation keeps for the slots \<open>H\<close> that are handed out: their headers and their pages.\<close>

definition grows ::
  "addr set \<Rightarrow> slab_pool \<Rightarrow> (page_list \<Rightarrow> addr list) \<Rightarrow> slab_pool \<Rightarrow> (page_list \<Rightarrow> addr list) \<Rightarrow> bool" where
  "grows H st D st' D' \<longleftrightarrow>
     (\<forall>y \<in> H. shdr st' y = shdr st y) \<and> sflags st' = sflags st \<and> slot_sizes st' = slot_sizes st
     \<and> (\<forall>d. class_slots st D d \<subseteq> class_slots st D' d) \<and> (maps_ok st D \<longrightarrow> maps_ok st' D')
     \<and> (\<forall>U. apart_from U st D \<longrightarrow> apart_from U st' D')"

lemma grows_refl: "grows H st D st D"
  by (simp add: grows_def)

lemma grows_class: "grows H st D st' D' \<Longrightarrow> s \<in> class_slots st D c \<Longrightarrow> s \<in> class_slots st' D' c"
  using geometry_cong(5) [of st' st] by (auto simp: grows_def)

lemma grows_trans:
  assumes "grows H st D st1 D1" "grows H' st1 D1 st2 D2" "H \<subseteq> H'"
  shows "grows H st D st2 D2"
proof -
  have "class_slots st1 = class_slots st"
    using assms(1) by (intro geometry_cong) (simp_all add: grows_def)
  then show ?thesis
    using assms unfolding grows_def by (metis subset_iff)
qed

lemma grows_mono: "grows H st D st' D' \<Longrightarrow> H' \<subseteq> H \<Longrightarrow> grows H' st D st' D'"
  unfolding grows_def by blast

lemma returned_grows:
  assumes "returned X st D C st' D' C'" "X \<inter> H = {}"
  shows "grows H st D st' D'"
proof -
  have "maps st' = maps st" "\<And>q. (\<exists>j. q \<in> set (D' j)) \<longleftrightarrow> (\<exists>j. q \<in> set (D j))"
    using assms(1) by (simp_all add: returned_def)
  then have "apart_from U st' D'" if "apart_from U st D" for U
    using that unfolding apart_from_def by (metis disjoint_iff)
  then show ?thesis
    using assms returned_maps [OF assms(1)] unfolding returned_def tier_same_def grows_def by auto
qed

lemma grows_core: "core_same X st st' \<Longrightarrow> maps st' = maps st \<Longrightarrow> X \<inter> H = {} \<Longrightarrow> grows H st D st' D"
  unfolding core_same_def grows_def maps_ok_def apart_from_def by auto

section \<open>Remote queues\<close>

lemma inv_remote_push:
  assumes "slab_inv 0 st D C H" "s \<in> H" "s \<in> class_slots st D c" "c < SLAB_CLASS_COUNT"
  shows "\<exists>C'. slab_inv 0 (remote_free_push st c s) D C' (H - {s}) \<and> grows (H - {s}) st D (remote_free_push st c s) D"
proof -
  let ?st = "remote_free_push st c s"
  have st': "?st = (set_slot_next s (remote_free_queue st c) st)\<lparr>remote_free_queue := (remote_free_queue st)(c := s),
      remote_free_pending := True, remote_free_pending_class := (remote_free_pending_class st)(c := True)\<rparr>"
    using inv_held_slot(1) [OF assms(1,2)] assms(4) by (simp add: remote_free_push_def Let_def set_slot_next_def)
  have act: "chain_active ?st D i = chain_active st D i" for i
    by (cases i) (simp_all add: st' set_slot_next_def)
  have "chain_head ?st i = ((chain_head st)(RemoteChain c := s)) i" for i
    by (cases i) (simp_all add: st' set_slot_next_def)
  then have "chain_head ?st = (chain_head st)(RemoteChain c := s)"
    by blast
  moreover have "slot_next ?st = slot_next (set_slot_next s (remote_free_queue st c) st)"
    by (rule slot_next_cong) (simp add: st')
  moreover have "counts_ok ?st D (C(RemoteChain c := s # C (RemoteChain c)))"
    using assms(1) by (simp add: slab_inv_def counts_ok_def act) (simp add: st' set_slot_next_def)
  moreover have "page_same st ?st"
    by (simp add: st' set_slot_next_def page_same_def)
  ultimately have "slab_inv 0 ?st D (C(RemoteChain c := s # C (RemoteChain c))) (H - {s})"
    using assms act by (intro inv_outside_push) simp_all
  moreover have "grows (H - {s}) st D ?st D"
    by (simp add: grows_def st' set_slot_next_def maps_ok_def apart_from_def)
  ultimately show ?thesis
    by blast
qed

lemma inv_harvest:
  assumes "slab_inv 0 st D C H"
  shows "\<exists>st' D' C'. remote_free_harvest st c = Some st' \<and> slab_inv 0 st' D' C' H \<and> grows H st D st' D' \<and> tls st' = tls st"
proof (cases "SLAB_CLASS_COUNT \<le> c \<or> \<not> remote_free_pending_class st c")
  case True
  then have "remote_free_harvest st c = Some st"
    by (auto simp: remote_free_harvest_def)
  then show ?thesis
    using assms grows_refl by blast
next
  case False
  let ?L = "C (RemoteChain c)"
  define st1 where "st1 = st\<lparr>remote_free_pending_class := (remote_free_pending_class st)(c := False),
      remote_free_queue := (remote_free_queue st)(c := 0)\<rparr>"
  have r: "remote_free_harvest st c = harvest_loop c (remote_free_queue st c) st1"
    using False by (simp add: remote_free_harvest_def Let_def st1_def)
  have act: "chain_active st1 D i = chain_active st D i" for i
    by (cases i) (simp_all add: st1_def)
  have "chain_head st1 i = ((chain_head st)(RemoteChain c := 0)) i" for i
    by (cases i) (simp_all add: st1_def)
  then have "chain_head st1 = (chain_head st)(RemoteChain c := 0)"
    by blast
  moreover have "slot_next st1 = slot_next st"
    by (rule slot_next_cong) (simp add: st1_def)
  moreover have "counts_ok st1 D (C(RemoteChain c := []))"
    using assms by (simp add: slab_inv_def counts_ok_def act) (simp add: st1_def)
  moreover have "page_same st st1"
    by (simp add: st1_def page_same_def)
  ultimately have d: "slab_inv 0 st1 D (C(RemoteChain c := [])) (H \<union> set ?L)" "mchain (slot_next st1) (remote_free_queue st c) ?L"
    using inv_outside_detach [OF assms, of "RemoteChain c" st1] False act by simp_all
  have "set ?L \<subseteq> class_slots st D c" "class_slots st1 = class_slots st"
    using inv_chain_of [OF assms, of "RemoteChain c"] by (simp, intro geometry_cong, simp_all add: st1_def)
  then obtain st' D' C' where "harvest_loop c (remote_free_queue st c) st1 = Some st'"
    and inv': "slab_inv 0 st' D' C' (H \<union> set ?L - set ?L)" and ret: "returned (set ?L) st1 D (C(RemoteChain c := [])) st' D' C'"
    using inv_harvest_loop [OF d(1,2), of c] inv_disjoint(3) [OF assms, of "RemoteChain c"] by auto
  moreover have disj: "set ?L \<inter> H = {}"
    by (rule inv_disjoint(2) [OF assms])
  moreover have "H \<union> set ?L - set ?L = H"
    using disj by blast
  moreover have "grows H st D st1 D"
    by (simp add: grows_def st1_def maps_ok_def apart_from_def class_slots_def page_slots_def nslots_def total_slot_size_def)
  moreover have "tls st' = tls st"
    using ret by (simp add: returned_def tier_same_def st1_def)
  ultimately show ?thesis
    using r grows_trans [of H st D st1 D H st' D'] returned_grows [OF ret disj] by auto
qed

lemma inv_harvest_classes:
  "slab_inv 0 st D C H \<Longrightarrow>
     \<exists>st' D' C'. harvest_classes cs st = Some st' \<and> slab_inv 0 st' D' C' H \<and> grows H st D st' D' \<and> tls st' = tls st"
proof (induction cs arbitrary: st D C)
  case (Cons c cs)
  obtain st1 D1 C1 where 1: "remote_free_harvest st c = Some st1" "slab_inv 0 st1 D1 C1 H" "grows H st D st1 D1" "tls st1 = tls st"
    using inv_harvest [OF Cons.prems] by metis
  obtain st' D' C' where "harvest_classes cs st1 = Some st'" "slab_inv 0 st' D' C' H" "grows H st1 D1 st' D'" "tls st' = tls st1"
    using Cons.IH [OF 1(2)] by metis
  then show ?case
    using 1 grows_trans [OF 1(3)] by auto
qed (use grows_refl in auto)

lemma inv_harvest_all:
  assumes "slab_inv 0 st D C H"
  shows "\<exists>st' D' C'. remote_free_harvest_all st = Some st' \<and> slab_inv 0 st' D' C' H \<and> grows H st D st' D' \<and> tls st' = tls st"
proof (cases "remote_free_pending st")
  case True
  let ?st = "st\<lparr>remote_free_pending := False\<rparr>"
  have "slab_inv 0 ?st D C H" "grows H st D ?st D"
    using inv_frame [OF assms] grows_core [of "{}" st ?st H D] by simp_all
  then show ?thesis
    using inv_harvest_classes [of ?st D C H "[0..<SLAB_CLASS_COUNT]"] True grows_trans [of H st D ?st D H]
    by (auto simp: remote_free_harvest_all_def)
next
  case False
  then show ?thesis
    using assms grows_refl by (auto simp: remote_free_harvest_all_def)
qed

section \<open>Allocating\<close>

text \<open>Taking one slot, as a step that keeps what is handed out.\<close>

lemma inv_take_slot':
  assumes "slab_inv 0 st D C H" "c < SLAB_CLASS_COUNT" "maps_ok st D" "slab_take_page st c = (st1, p)"
  shows "p = 0 \<Longrightarrow> st1 = st"
    "p \<noteq> 0 \<Longrightarrow> slab_pop_slot st1 c p = (st', s) \<Longrightarrow>
       \<exists>D' C'. slab_inv 0 st' D' C' (insert s H) \<and> grows H st D st' D' \<and> s \<notin> H \<and> s \<noteq> 0 \<and> s \<in> class_slots st' D' c
         \<and> tls st' = tls st \<and> percpu_heads st' = percpu_heads st \<and> percpu_counts st' = percpu_counts st \<and> num_cpus st' = num_cpus st"
proof -
  show "p = 0 \<Longrightarrow> st1 = st"
    using inv_take_page(1) [OF assms] .
  assume "p \<noteq> 0" "slab_pop_slot st1 c p = (st', s)"
  from inv_take_slot [OF assms(1-4) this] obtain D' C' where
    t: "slab_inv 0 st' D' C' (insert s H)" "maps_ok st' D'" "s \<notin> H" "s \<noteq> 0" "s \<in> class_slots st D' c"
    "tier_same {y. y \<notin> H \<union> (\<Union>i. set (C i))} st st'" "\<And>d. class_slots st D d \<subseteq> class_slots st D' d"
    "\<And>U. apart_from U st D \<Longrightarrow> apart_from U st' D'"
    by metis
  have "class_slots st' = class_slots st"
    using t(6) by (intro geometry_cong) (simp_all add: tier_same_def)
  then show "\<exists>D' C'. slab_inv 0 st' D' C' (insert s H) \<and> grows H st D st' D' \<and> s \<notin> H \<and> s \<noteq> 0 \<and> s \<in> class_slots st' D' c
         \<and> tls st' = tls st \<and> percpu_heads st' = percpu_heads st \<and> percpu_counts st' = percpu_counts st \<and> num_cpus st' = num_cpus st"
    using t by (intro exI [of _ D'] exI [of _ C']) (simp add: grows_def tier_same_def)
qed

text \<open>What an answer of a slot means: null, or a slot of the class that was not handed out and is now.\<close>

definition answers ::
  "slab_pool \<Rightarrow> (page_list \<Rightarrow> addr list) \<Rightarrow> addr set \<Rightarrow> nat \<Rightarrow> slab_pool \<Rightarrow> addr \<Rightarrow> bool" where
  "answers st D H c st' s \<longleftrightarrow>
     (\<exists>D' C'. grows H st D st' D' \<and>
        (if s = 0 then slab_inv 0 st' D' C' H
         else slab_inv 0 st' D' C' (insert s H) \<and> s \<notin> H \<and> s \<in> class_slots st' D' c))"

lemma answers_grows: "grows H st D st1 D1 \<Longrightarrow> answers st1 D1 H c st' s \<Longrightarrow> answers st D H c st' s"
  unfolding answers_def using grows_trans by blast

lemma answers_frame:
  assumes "answers st D H c st1 s" "core_same X st1 st2" "maps st2 = maps st1" "X \<subseteq> (if s = 0 then {} else {s})"
  shows "answers st D H c st2 s"
proof -
  obtain D' C' where a: "grows H st D st1 D'" "if s = 0 then slab_inv 0 st1 D' C' H
      else slab_inv 0 st1 D' C' (insert s H) \<and> s \<notin> H \<and> s \<in> class_slots st1 D' c"
    using assms(1) unfolding answers_def by blast
  have g: "class_slots st2 = class_slots st1"
    using assms(2) by (intro geometry_cong) (simp_all add: core_same_def)
  have XH: "X \<inter> H = {}" "X \<subseteq> (if s = 0 then H else insert s H)"
    using a(2) assms(4) by (auto split: if_splits)
  have "slab_inv 0 st2 D' C' (if s = 0 then H else insert s H)"
    using a(2) inv_frame [OF _ core_same_mono [OF assms(2) XH(2)]] by (auto split: if_splits)
  moreover have "grows H st D st2 D'"
    using grows_trans [OF a(1) grows_core [OF assms(2,3) XH(1)]] by simp
  ultimately show ?thesis
    using a(2) g unfolding answers_def by (auto split: if_splits)
qed

lemma inv_slab_alloc_slot:
  assumes "slab_inv 0 st D C H" "c < SLAB_CLASS_COUNT" "maps_ok st D"
  shows "\<exists>st' s. slab_alloc_slot st c = Some (st', s) \<and> answers st D H c st' s"
proof -
  obtain st1 D1 C1 where 1: "(if remote_free_pending_class st c then remote_free_harvest st c else Some st) = Some st1"
    "slab_inv 0 st1 D1 C1 H" "grows H st D st1 D1"
    using inv_harvest [OF assms(1), of c] assms(1) grows_refl by (metis (full_types))
  have m: "maps_ok st1 D1"
    using 1(3) assms(3) by (simp add: grows_def)
  obtain st2 p where t: "slab_take_page st1 c = (st2, p)"
    by fastforce
  note take = inv_take_slot' [OF 1(2) assms(2) m t]
  show ?thesis
  proof (cases "p = 0")
    case True
    then have "slab_alloc_slot st c = Some (st1, 0)"
      using 1(1) t take(1) by (simp add: slab_alloc_slot_def)
    moreover have "answers st D H c st1 0"
      using 1 unfolding answers_def by auto
    ultimately show ?thesis
      by blast
  next
    case False
    obtain st3 s where s: "slab_pop_slot st2 c p = (st3, s)"
      by fastforce
    have "slab_alloc_slot st c = Some (add_allocated (slot_sizes st3 ! c) st3, s)"
      using 1(1) t s False by (simp add: slab_alloc_slot_def)
    moreover have "answers st1 D1 H c st3 s"
      using take(2) [OF False s] unfolding answers_def by auto
    then have "answers st1 D1 H c (add_allocated (slot_sizes st3 ! c) st3) s"
      by (rule answers_frame [where X = "{}"]) (simp_all add: add_allocated_def core_same_def)
    ultimately show ?thesis
      using answers_grows [OF 1(3)] by blast
  qed
qed

text \<open>Several slots at once.\<close>

lemma inv_take_slots:
  assumes "slab_inv 0 st D C H" "c < SLAB_CLASS_COUNT" "maps_ok st D" "take_slots n st c = (st', ss)"
  shows "\<exists>D' C'. slab_inv 0 st' D' C' (H \<union> set ss) \<and> grows H st D st' D' \<and> set ss \<inter> H = {} \<and> distinct ss \<and> 0 \<notin> set ss
     \<and> set ss \<subseteq> class_slots st' D' c \<and> length ss \<le> n \<and> tls st' = tls st \<and> percpu_heads st' = percpu_heads st
     \<and> percpu_counts st' = percpu_counts st \<and> num_cpus st' = num_cpus st"
  using assms
proof (induction n arbitrary: st D C H st' ss)
  case 0
  then show ?case
    using grows_refl by (auto intro!: exI [of _ D] exI [of _ C])
next
  case (Suc n)
  obtain st1 p where t: "slab_take_page st c = (st1, p)"
    by fastforce
  note take = inv_take_slot' [OF Suc.prems(1-3) t]
  show ?case
  proof (cases "p = 0")
    case True
    then have "st' = st" "ss = []"
      using Suc.prems(4) t take(1) by simp_all
    then show ?thesis
      using Suc.prems(1) grows_refl by (auto intro!: exI [of _ D] exI [of _ C])
  next
    case False
    obtain st2 s where s: "slab_pop_slot st1 c p = (st2, s)"
      by fastforce
    obtain st3 ss' where rec: "take_slots n st2 c = (st3, ss')"
      by fastforce
    have out: "st' = st3" "ss = s # ss'"
      using Suc.prems(4) t s rec False by simp_all
    obtain D1 C1 where 1: "slab_inv 0 st2 D1 C1 (insert s H)" "grows H st D st2 D1" "s \<notin> H" "s \<noteq> 0" "s \<in> class_slots st2 D1 c"
      "tls st2 = tls st" "percpu_heads st2 = percpu_heads st" "percpu_counts st2 = percpu_counts st" "num_cpus st2 = num_cpus st"
      using take(2) [OF False s] by blast
    have "maps_ok st2 D1"
      using 1(2) Suc.prems(3) by (simp add: grows_def)
    from Suc.IH [OF 1(1) Suc.prems(2) this rec] obtain D' C' where
      2: "slab_inv 0 st3 D' C' (insert s H \<union> set ss')" "grows (insert s H) st2 D1 st3 D'" "set ss' \<inter> insert s H = {}" "distinct ss'"
        "0 \<notin> set ss'" "set ss' \<subseteq> class_slots st3 D' c" "length ss' \<le> n" "tls st3 = tls st2" "percpu_heads st3 = percpu_heads st2"
        "percpu_counts st3 = percpu_counts st2" "num_cpus st3 = num_cpus st2"
      by blast
    have "grows H st D st3 D'"
      using grows_trans [OF 1(2) 2(2)] by blast
    moreover have "s \<in> class_slots st3 D' c"
      using grows_class [OF 2(2) 1(5)] .
    moreover have "insert s H \<union> set ss' = H \<union> set (s # ss')"
      by auto
    ultimately show ?thesis
      using 1 2 out by (intro exI [of _ D'] exI [of _ C']) auto
  qed
qed

end
