(* ===== verification/Slab_Cache_Ops.thy ===== *)
theory Slab_Cache_Ops
  imports Slab_Ops
begin

text \<open>
  The thread caches and per-CPU lists keep the invariant of the slab tier, their loops end, and the slots
  they answer were nobody's.
\<close>

section \<open>Thread caches\<close>

lemma tls_push_simps [simp]:
  "pages (tls_push t c s st) = pages st" "page_heads (tls_push t c s st) = page_heads st" "sflags (tls_push t c s st) = sflags st"
  "slot_sizes (tls_push t c s st) = slot_sizes st" "percpu_heads (tls_push t c s st) = percpu_heads st"
  "percpu_counts (tls_push t c s st) = percpu_counts st" "num_cpus (tls_push t c s st) = num_cpus st"
  "remote_free_queue (tls_push t c s st) = remote_free_queue st" "maps (tls_push t c s st) = maps st"
  "empty_page_count (tls_push t c s st) = empty_page_count st" "owned (tls (tls_push t c s st) u) = owned (tls st u)"
  "shdr (tls_push t c s st) = shdr (set_slot_next s (tslots (tls st t) c) st)"
  by (simp_all add: tls_push_def Let_def set_slot_next_def)

lemma tls_push_tls:
  "tslots (tls (tls_push t c s st) u) d = (if u = t \<and> d = c then s else tslots (tls st u) d)"
  "tcounts (tls (tls_push t c s st) u) d = (if u = t \<and> d = c then (tcounts (tls st t) c + 1) mod 2 ^ 16 else tcounts (tls st u) d)"
  by (simp_all add: tls_push_def Let_def set_slot_next_def)

lemma inv_tls_push:
  assumes "slab_inv 0 st D C H" "s \<in> H" "s \<in> class_slots st D c" "c < SLAB_CLASS_COUNT" "owned (tls st t)"
    "tcounts (tls st t) c < TLS_CACHE_MAX_SLOTS + 64"
  shows "slab_inv 0 (tls_push t c s st) D (C(TlsChain t c := s # C (TlsChain t c))) (H - {s})"
    "grows (H - {s}) st D (tls_push t c s st) D" "tcounts (tls (tls_push t c s st) t) c = tcounts (tls st t) c + 1"
proof -
  let ?st = "tls_push t c s st" and ?i = "TlsChain t c"
  have act: "chain_active ?st D i = chain_active st D i" for i
    by (cases i) simp_all
  have "chain_head ?st i = ((chain_head st)(?i := s)) i" for i
    by (cases i) (simp_all add: tls_push_tls)
  then have head: "chain_head ?st = (chain_head st)(?i := s)"
    by blast
  have nxt: "slot_next ?st = (slot_next st)(s := chain_head st ?i)"
    using slot_next_cong [OF tls_push_simps(12)] by simp
  have len: "tcounts (tls st t) c = length (C ?i)"
    using assms(1,4,5) by (simp add: slab_inv_def counts_ok_def)
  show cnt: "tcounts (tls ?st t) c = tcounts (tls st t) c + 1"
    using assms(6) by (simp add: tls_push_tls TLS_CACHE_MAX_SLOTS_def)
  have "counts_ok ?st D (C(?i := s # C ?i))"
    using assms(1,6) len cnt by (auto simp: slab_inv_def counts_ok_def act tls_push_tls)
  then show "slab_inv 0 ?st D (C(?i := s # C ?i)) (H - {s})"
    using assms act nxt head by (intro inv_outside_push [OF assms(1,2)]) (simp_all add: page_same_def)
  show "grows (H - {s}) st D ?st D"
    by (simp add: grows_def set_slot_next_def maps_ok_def apart_from_def)
qed

lemma tls_pop_simps:
  assumes "tls_pop t c st = (st', s)"
  shows "s = tslots (tls st t) c" "pages st' = pages st" "page_heads st' = page_heads st" "sflags st' = sflags st"
    "slot_sizes st' = slot_sizes st" "percpu_heads st' = percpu_heads st" "percpu_counts st' = percpu_counts st"
    "num_cpus st' = num_cpus st" "remote_free_queue st' = remote_free_queue st" "maps st' = maps st" "shdr st' = shdr st"
    "empty_page_count st' = empty_page_count st" "owned (tls st' u) = owned (tls st u)"
    "tslots (tls st' u) d = (if u = t \<and> d = c then slot_next st s else tslots (tls st u) d)"
    "tcounts (tls st' u) d = (if u = t \<and> d = c then tcounts (tls st t) c - 1 else tcounts (tls st u) d)"
  using assms by (auto simp: tls_pop_def Let_def split: if_splits)

lemma inv_tls_pop:
  assumes "slab_inv 0 st D C H" "c < SLAB_CLASS_COUNT" "owned (tls st t)" "0 < tcounts (tls st t) c" "tls_pop t c st = (st', s)"
  shows "answers st D H c st' s" "s \<noteq> 0"
proof -
  let ?i = "TlsChain t c"
  note sm = tls_pop_simps [OF assms(5)]
  have act: "chain_active st' D i = chain_active st D i" for i
    by (cases i) (simp_all add: sm)
  have s: "chain_head st ?i = s"
    by (simp add: sm)
  have nxt: "slot_next st' = slot_next st"
    by (rule slot_next_cong) (simp add: sm)
  have "chain_head st' i = ((chain_head st)(?i := slot_next st (chain_head st ?i))) i" for i
    by (cases i) (simp_all add: sm)
  then have head: "chain_head st' = (chain_head st)(?i := slot_next st (chain_head st ?i))"
    by blast
  have actives: "chain_active st D ?i" and len: "tcounts (tls st t) c = length (C ?i)"
    using assms(1-3) by (simp_all add: slab_inv_def counts_ok_def)
  then show nz: "s \<noteq> 0"
    using mchain_null [OF inv_chain [OF assms(1) actives]] assms(4) s by auto
  have base: "counts_ok st D C"
    using assms(1) by (simp add: slab_inv_def)
  then have "length (tl (C ?i)) \<le> TLS_CACHE_MAX_SLOTS + 64"
    using assms(2,3) le_trans [OF diff_le_self] unfolding counts_ok_def length_tl by blast
  then have cnt: "counts_ok st' D (C(?i := tl (C ?i)))"
    using base len unfolding counts_ok_def act by (auto simp: sm(7,12,13,15))
  have "page_same st st'"
    by (simp add: page_same_def sm)
  from inv_outside_pop [OF assms(1) _ actives _ this nxt head act cnt] nz s
  have "slab_inv 0 st' D (C(?i := tl (C ?i))) (insert s H)" "s \<notin> H" "s \<in> class_slots st D c"
    by simp_all
  moreover have "class_slots st' = class_slots st"
    by (rule geometry_cong) (simp_all add: sm)
  moreover have "grows H st D st' D"
    by (simp add: grows_def sm maps_ok_def apart_from_def)
  ultimately show "answers st D H c st' s"
    using nz unfolding answers_def by auto
qed

lemma inv_drain:
  assumes "slab_inv 0 st D C H" "c < SLAB_CLASS_COUNT" "maps_ok st D" "owned (tls st t)"
    "tcounts (tls st t) c + n \<le> TLS_CACHE_MAX_SLOTS + 64" "drain_loop n t c st = (st', got)"
  shows "\<exists>D' C'. slab_inv 0 st' D' C' H \<and> grows H st D st' D' \<and> owned (tls st' t) \<and> tcounts (tls st' t) c = tcounts (tls st t) c + got
     \<and> (0 < n \<and> got = 0 \<longrightarrow> st' = st \<and> slab_take_page st c = (st, 0))"
  using assms
proof (induction n arbitrary: st D C st' got)
  case 0
  then show ?case
    using grows_refl by (auto intro!: exI [of _ D] exI [of _ C])
next
  case (Suc n)
  obtain st1 p where t: "slab_take_page st c = (st1, p)"
    by fastforce
  note take = inv_take_slot' [OF Suc.prems(1-3) t]
  show ?case
  proof (cases "p = 0")
    case True
    then show ?thesis
      using Suc.prems t take(1) grows_refl by (auto intro!: exI [of _ D] exI [of _ C])
  next
    case False
    obtain st2 s where s: "slab_pop_slot st1 c p = (st2, s)"
      by fastforce
    obtain D1 C1 where 1: "slab_inv 0 st2 D1 C1 (insert s H)" "grows H st D st2 D1" "s \<notin> H" "s \<in> class_slots st2 D1 c" "tls st2 = tls st"
      using take(2) [OF False s] by blast
    let ?st3 = "tls_push t c s st2"
    have own: "owned (tls st2 t)" "tcounts (tls st2 t) c < TLS_CACHE_MAX_SLOTS + 64"
      using 1(5) Suc.prems(4,5) by simp_all
    note push = inv_tls_push [OF 1(1) _ 1(4) Suc.prems(2) own, simplified]
    have Hs: "H - {s} = H"
      using 1(3) by simp
    have g: "grows H st D ?st3 D1"
      using grows_trans [OF 1(2) push(2)] Hs by simp
    obtain st4 got' where rec: "drain_loop n t c ?st3 = (st4, got')"
      by fastforce
    have out: "st' = st4" "got = Suc got'"
      using Suc.prems(6) t s rec False by simp_all
    have m: "maps_ok ?st3 D1"
      using g Suc.prems(3) by (simp add: grows_def)
    have ow: "owned (tls ?st3 t)" "tcounts (tls ?st3 t) c + n \<le> TLS_CACHE_MAX_SLOTS + 64"
      using own push(3) 1(5) Suc.prems(5) by simp_all
    obtain D' C' where "slab_inv 0 st4 D' C' H" "grows H ?st3 D1 st4 D'" "owned (tls st4 t)" "tcounts (tls st4 t) c = tcounts (tls ?st3 t) c + got'"
      using Suc.IH [OF _ Suc.prems(2) m ow rec] push(1) Hs by metis
    then show ?thesis
      using grows_trans [OF g] push(3) 1(5) out by (intro exI [of _ D'] exI [of _ C']) simp
  qed
qed

lemma inv_alloc_with_tls_refill:
  assumes "slab_inv 0 st D C H" "c < SLAB_CLASS_COUNT" "maps_ok st D" "owned (tls st t)" "tcounts (tls st t) c \<le> TLS_CACHE_MAX_SLOTS"
    "slab_alloc_with_tls_refill st t c = (st', s)"
  shows "answers st D H c st' s"
proof -
  obtain st1 got where d: "drain_loop 64 t c st = (st1, got)"
    by fastforce
  let ?st2 = "add_allocated ((got * slot_sizes st1 ! c) mod 2 ^ 64) st1"
  have st2: "fst (tls_cache_drain_slots st t c 64) = ?st2" "tls ?st2 = tls st1" "core_same {} st1 ?st2" "maps ?st2 = maps st1"
    using d by (simp_all add: tls_cache_drain_slots_def add_allocated_def core_same_def)
  obtain D1 C1 where 1: "slab_inv 0 st1 D1 C1 H" "grows H st D st1 D1" "owned (tls st1 t)" "tcounts (tls st1 t) c = tcounts (tls st t) c + got"
    "got = 0 \<Longrightarrow> st1 = st \<and> slab_take_page st c = (st, 0)"
    using inv_drain [OF assms(1-4) _ d] assms(5) by auto
  have 2: "slab_inv 0 ?st2 D1 C1 H" "grows H st D ?st2 D1"
    using inv_frame [OF 1(1)] grows_trans [OF 1(2) grows_core [OF st2(3,4), of H D1]] by simp_all
  show ?thesis
  proof (cases "0 < tcounts (tls st1 t) c")
    case True
    obtain st3 s' where p: "tls_pop t c ?st2 = (st3, s')"
      by fastforce
    note pop = inv_tls_pop [OF 2(1) assms(2) _ _ p]
    have "st' = st3" "s = s'"
      using assms(6) st2 True p pop(2) 1(3) by (simp_all add: slab_alloc_with_tls_refill_def Let_def)
    then show ?thesis
      using answers_grows [OF 2(2) pop(1)] st2(2) 1(3) True by simp
  next
    case False
    then have e: "st1 = st" "slab_take_page st c = (st, 0)" "got = 0"
      using 1(4,5) by simp_all
    then have heads: "page_heads st (PartialPages c) = 0" "page_heads st (EmptyPages c) = 0" "slab_create_page st c = (st, 0)"
      by (auto simp: slab_take_page_def Let_def split: if_splits prod.splits)
    have "maps st = []"
      using create_page_spec(1) [OF heads(3)] assms(3) by (simp add: maps_ok_def)
    then have "refill_direct ?st2 c = (?st2, 0)"
      using heads e(1) by (simp add: refill_direct_def slab_create_page_def add_allocated_def)
    then have "st' = ?st2" "s = 0"
      using assms(6) st2 False by (simp_all add: slab_alloc_with_tls_refill_def Let_def)
    then show ?thesis
      using 2 unfolding answers_def by auto
  qed
qed

text \<open>Releasing the loose slots of a list, one after the other.\<close>

lemma inv_slab_free_loose:
  assumes "slab_inv 0 st D C H" "s \<in> H" "s \<in> class_slots st D c"
  obtains D' C' where "slab_inv 0 (slab_free (restamp c s st) s) D' C' (H - {s})"
    "returned {s} st D C (slab_free (restamp c s st) s) D' C'"
proof -
  let ?st = "restamp c s st"
  have same: "sflags ?st = sflags st" "slot_sizes ?st = slot_sizes st" "tier_same {s} st ?st" "maps ?st = maps st"
    "slab_class (shdr ?st s) = c" "raw_base (shdr ?st s) = s"
    by (simp_all add: restamp_def tier_same_def)
  note g = geometry_cong(5) [OF same(1,2)]
  have inv: "slab_inv 0 ?st D C H"
    using inv_frame [OF assms(1)] assms(2) by simp
  have m: "maps (slab_free ?st s) = maps ?st"
    by (auto simp: slab_free_def slab_free_nolock_def Let_def sub_allocated_def upd_page_def set_slot_next_def)
  obtain D' C' where r: "slab_inv 0 (slab_free ?st s) D' C' (H - {s})" "tier_same {s} ?st (slab_free ?st s)"
    "\<And>d. class_slots ?st D' d = class_slots ?st D d" "\<And>q. (\<exists>j. q \<in> set (D' j)) \<longleftrightarrow> (\<exists>j. q \<in> set (D j))"
    "\<And>i. (\<forall>p. i \<noteq> PageChain p) \<Longrightarrow> C' i = C i"
    using inv_slab_free [OF inv assms(2) same(5) _ same(6)] assms(3) g by metis
  then have "returned {s} st D C (slab_free ?st s) D' C'"
    using tier_same_trans [OF same(3), of "{s}"] m same(4) g by (simp add: returned_def outside_def fun_eq_iff)
  with r(1) that show thesis
    by blast
qed

lemma inv_percpu_flush_loop:
  assumes "slab_inv 0 st D C H" "mchain (slot_next st) slot L" "set L \<subseteq> H" "distinct L" "set L \<subseteq> class_slots st D c"
  shows "\<exists>st' D' C'. percpu_flush_loop c slot st = Some st' \<and> slab_inv 0 st' D' C' (H - set L) \<and> returned (set L) st D C st' D' C'"
  using assms
proof (induction L arbitrary: st D C H slot)
  case Nil
  then have "percpu_flush_loop c slot st = Some st"
    by (subst percpu_flush_loop.simps) simp
  then show ?case
    using Nil.prems(1) returned_refl by force
next
  case (Cons s L)
  then have s: "slot = s" "s \<in> H" "s \<in> class_slots st D c" and L: "mchain (slot_next st) (slot_next st s) L"
    by simp_all
  let ?st3 = "slab_free (restamp c s st) s"
  obtain D1 C1 where 3: "slab_inv 0 ?st3 D1 C1 (H - {s})" "returned {s} st D C ?st3 D1 C1"
    using inv_slab_free_loose [OF Cons.prems(1) s(2,3)] by metis
  have step: "percpu_flush_loop c slot st = percpu_flush_loop c (slot_next st s) ?st3"
    using inv_held_slot [OF Cons.prems(1) s(2)] by (subst percpu_flush_loop.simps) (simp add: s(1) Let_def)
  have nx: "slot_next ?st3 y = slot_next st y" if "y \<noteq> s" for y
    using 3(2) that by (intro slot_next_at) (simp add: returned_def tier_same_def)
  have "mchain (slot_next ?st3) (slot_next st s) L"
    by (rule mchain_frame [THEN iffD2, OF nx L]) (use Cons.prems(4) in auto)
  moreover have "set L \<subseteq> H - {s}" "distinct L"
    using Cons.prems(3,4) by auto
  moreover have "set L \<subseteq> class_slots ?st3 D1 c"
    using 3(2) Cons.prems(5) geometry_cong(5) [of ?st3 st] by (auto simp: returned_def tier_same_def)
  ultimately obtain st' D' C' where "percpu_flush_loop c (slot_next st s) ?st3 = Some st'" "slab_inv 0 st' D' C' (H - {s} - set L)"
    "returned (set L) ?st3 D1 C1 st' D' C'"
    using Cons.IH [OF 3(1)] by metis
  moreover have "H - {s} - set L = H - set (s # L)"
    by auto
  ultimately show ?case
    using returned_trans [OF 3(2)] step by force
qed

text \<open>A cache that no longer belongs to the pool can be changed freely.\<close>

lemma core_same_tls:
  assumes "\<not> owned (tls st t)" "\<not> owned tc"
  shows "core_same X st (st\<lparr>tls := (tls st)(t := tc)\<rparr>)"
  using assms by (auto simp: core_same_def)

lemma inv_tls_flush_loop:
  assumes "slab_inv 0 st D C H" "mchain (slot_next st) (tslots (tls st t) c) L" "set L \<subseteq> H" "distinct L"
    "set L \<subseteq> class_slots st D c" "\<not> owned (tls st t)"
  shows "\<exists>st' D' C'. tls_flush_loop t c st = Some st' \<and> slab_inv 0 st' D' C' (H - set L) \<and> grows (- set L) st D st' D'
     \<and> class_slots st D' = class_slots st D \<and> (\<forall>u. owned (tls st' u) = owned (tls st u))
     \<and> (\<forall>d. d \<noteq> c \<longrightarrow> tslots (tls st' t) d = tslots (tls st t) d)"
  using assms
proof (induction L arbitrary: st D C H)
  case Nil
  then have "tls_flush_loop t c st = Some st"
    by (subst tls_flush_loop.simps) simp
  then show ?case
    using Nil.prems(1) grows_refl by (intro exI [of _ st] exI [of _ D] exI [of _ C]) simp
next
  case (Cons s L)
  then have s: "tslots (tls st t) c = s" "s \<in> H" "s \<in> class_slots st D c" and L: "mchain (slot_next st) (slot_next st s) L"
    by simp_all
  let ?st1 = "set_tls_slots t c (slot_next st s) st"
  let ?st3 = "slab_free (restamp c s ?st1) s"
  have c1: "core_same {} st ?st1" "maps ?st1 = maps st"
    using Cons.prems(6) by (auto simp: set_tls_slots_def intro!: core_same_tls)
  have inv1: "slab_inv 0 ?st1 D C H" and g1: "class_slots ?st1 = class_slots st"
    using inv_frame [OF Cons.prems(1)] core_same_mono [OF c1(1)] by (simp, intro geometry_cong, simp_all add: set_tls_slots_def)
  obtain D1 C1 where 3: "slab_inv 0 ?st3 D1 C1 (H - {s})" "returned {s} ?st1 D C ?st3 D1 C1"
    using inv_slab_free_loose [OF inv1 s(2)] s(3) g1 by metis
  have step: "tls_flush_loop t c st = tls_flush_loop t c ?st3"
    using inv_held_slot [OF Cons.prems(1) s(2)] by (subst tls_flush_loop.simps) (simp add: s(1) Let_def)
  have tls3: "tls ?st3 = tls ?st1" and sh3: "\<And>y. y \<noteq> s \<Longrightarrow> shdr ?st3 y = shdr st y" and g3: "class_slots ?st3 = class_slots st"
    using 3(2) by (simp add: returned_def tier_same_def, simp add: returned_def tier_same_def set_tls_slots_def,
        intro geometry_cong, simp_all add: returned_def tier_same_def set_tls_slots_def)
  have nx: "slot_next ?st3 y = slot_next st y" if "y \<noteq> s" for y
    using sh3 [OF that] by (rule slot_next_at)
  have own3: "\<not> owned (tls ?st3 t)" "tslots (tls ?st3 t) c = slot_next st s"
    using Cons.prems(6) unfolding tls3 by (simp_all add: set_tls_slots_def)
  have "mchain (slot_next ?st3) (tslots (tls ?st3 t) c) L"
    unfolding own3 by (rule mchain_frame [THEN iffD2, OF nx L]) (use Cons.prems(4) in auto)
  moreover have "set L \<subseteq> H - {s}" "distinct L"
    using Cons.prems(3,4) by auto
  moreover have "class_slots st D1 = class_slots st D"
    using 3(2) g1 by (simp add: returned_def)
  moreover from this have "set L \<subseteq> class_slots ?st3 D1 c"
    using Cons.prems(5) g3 by simp
  moreover have "grows (- {s}) st D ?st3 D1"
    using grows_trans [OF grows_core [OF c1(1,2), of "- {s}" D] returned_grows [OF 3(2), of "- {s}"]] by simp
  ultimately obtain st' D' C' where r: "tls_flush_loop t c ?st3 = Some st'" "slab_inv 0 st' D' C' (H - {s} - set L)"
    "grows (- set L) ?st3 D1 st' D'" "class_slots ?st3 D' = class_slots ?st3 D1" "\<And>u. owned (tls st' u) = owned (tls ?st3 u)"
    "\<And>d. d \<noteq> c \<Longrightarrow> tslots (tls st' t) d = tslots (tls ?st3 t) d" "grows (- {s}) st D ?st3 D1" "class_slots st D1 = class_slots st D"
    using Cons.IH [OF 3(1) _ _ _ _ own3(1)] by metis
  have "grows (- set (s # L)) st D st' D'"
    using grows_trans [OF grows_mono [OF r(7)] grows_mono [OF r(3)], of "- set (s # L)" "- set (s # L)"] by auto
  moreover have "H - {s} - set L = H - set (s # L)"
    by auto
  moreover have "owned (tls st' u) = owned (tls st u)" for u
    using r(5) [of u] unfolding tls3 by (simp add: set_tls_slots_def)
  moreover have "d \<noteq> c \<Longrightarrow> tslots (tls st' t) d = tslots (tls st t) d" for d
    using r(6) [of d] unfolding tls3 by (simp add: set_tls_slots_def)
  ultimately show ?case
    using step r(1,2,4,8) g3 by (intro exI [of _ st'] exI [of _ D'] exI [of _ C']) simp
qed

lemma inv_tls_flush_classes:
  assumes "slab_inv 0 st D C (H \<union> (\<Union>c \<in> set cs. set (Ls c)))" "distinct cs" "\<not> owned (tls st t)"
    "\<And>c. c \<in> set cs \<Longrightarrow> mchain (slot_next st) (tslots (tls st t) c) (Ls c) \<and> distinct (Ls c) \<and> set (Ls c) \<inter> H = {}
       \<and> set (Ls c) \<subseteq> class_slots st D c"
    "\<And>c d. c \<in> set cs \<Longrightarrow> d \<in> set cs \<Longrightarrow> c \<noteq> d \<Longrightarrow> set (Ls c) \<inter> set (Ls d) = {}"
  shows "\<exists>st' D' C'. tls_flush_classes t cs st = Some st' \<and> slab_inv 0 st' D' C' H \<and> grows H st D st' D'
     \<and> (\<forall>u. owned (tls st' u) = owned (tls st u))"
  using assms
proof (induction cs arbitrary: st D C)
  case Nil
  then show ?case
    using grows_refl by (intro exI [of _ st] exI [of _ D] exI [of _ C]) simp
next
  case (Cons c cs)
  let ?H = "H \<union> (\<Union>c \<in> set (c # cs). set (Ls c))" and ?R = "H \<union> (\<Union>d \<in> set cs. set (Ls d))"
  have c: "mchain (slot_next st) (tslots (tls st t) c) (Ls c)" "distinct (Ls c)" "set (Ls c) \<inter> H = {}" "set (Ls c) \<subseteq> class_slots st D c"
    using Cons.prems(4) [of c] by auto
  have "set (Ls c) \<inter> ?R = {}"
  proof -
    have "set (Ls c) \<inter> set (Ls d) = {}" if "d \<in> set cs" for d
      using Cons.prems(2,5) that by (metis distinct.simps(2) list.set_intros)
    then show ?thesis
      using c(3) by blast
  qed
  then have R: "?H - set (Ls c) = ?R" "?R \<subseteq> - set (Ls c)"
    by auto
  obtain st1 D1 C1 where 1: "tls_flush_loop t c st = Some st1" "slab_inv 0 st1 D1 C1 ?R" "grows (- set (Ls c)) st D st1 D1"
    "class_slots st D1 = class_slots st D" "\<And>u. owned (tls st1 u) = owned (tls st u)" "\<And>d. d \<noteq> c \<Longrightarrow> tslots (tls st1 t) d = tslots (tls st t) d"
  proof -
    have "set (Ls c) \<subseteq> ?H"
      by auto
    from inv_tls_flush_loop [OF Cons.prems(1) c(1) this c(2,4) Cons.prems(3)] that show thesis
      unfolding R(1) by blast
  qed
  let ?st2 = "set_tls_counts t c 0 st1"
  have c2: "core_same {} st1 ?st2" "maps ?st2 = maps st1"
    using 1(5) Cons.prems(3) by (auto simp: set_tls_counts_def intro!: core_same_tls)
  have g: "class_slots ?st2 = class_slots st"
    using 1(3) by (intro geometry_cong) (simp_all add: grows_def set_tls_counts_def)
  have inv2: "slab_inv 0 ?st2 D1 C1 ?R" and own2: "\<not> owned (tls ?st2 t)"
    using inv_frame [OF 1(2)] core_same_mono [OF c2(1)] 1(5) Cons.prems(3) by (simp_all add: set_tls_counts_def)
  have rest: "mchain (slot_next ?st2) (tslots (tls ?st2 t) d) (Ls d) \<and> distinct (Ls d) \<and> set (Ls d) \<inter> H = {}
       \<and> set (Ls d) \<subseteq> class_slots ?st2 D1 d" if d: "d \<in> set cs" for d
  proof -
    have dc: "d \<noteq> c"
      using Cons.prems(2) d by auto
    have "slot_next ?st2 y = slot_next st y" if "y \<in> set (Ls d)" for y
    proof (rule slot_next_at)
      have "y \<in> - set (Ls c)"
        using R(2) d that by blast
      then show "shdr ?st2 y = shdr st y"
        using 1(3) by (simp add: grows_def set_tls_counts_def)
    qed
    moreover have "tslots (tls ?st2 t) d = tslots (tls st t) d"
      using 1(6) [OF dc] by (simp add: set_tls_counts_def)
    ultimately show ?thesis
      using Cons.prems(4) [of d] d mchain_frame [of "Ls d" "slot_next ?st2" "slot_next st"] g 1(4) by auto
  qed
  have pair: "\<And>a b. a \<in> set cs \<Longrightarrow> b \<in> set cs \<Longrightarrow> a \<noteq> b \<Longrightarrow> set (Ls a) \<inter> set (Ls b) = {}"
    using Cons.prems(5) by simp
  have "distinct cs"
    using Cons.prems(2) by simp
  from Cons.IH [OF inv2 this own2 rest pair] obtain st' D' C' where
    2: "tls_flush_classes t cs ?st2 = Some st'" "slab_inv 0 st' D' C' H" "grows H ?st2 D1 st' D'" "\<And>u. owned (tls st' u) = owned (tls ?st2 u)"
    by blast
  have "grows H st D ?st2 D1"
    using grows_trans [OF grows_mono [OF 1(3)] grows_core [OF c2, of H D1], of H] R(2) by auto
  then have "grows H st D st' D'"
    using grows_trans [OF _ 2(3)] by simp
  moreover have "owned (tls st' u) = owned (tls st u)" for u
    using 2(4) [of u] 1(5) by (simp add: set_tls_counts_def split: if_splits)
  ultimately show ?case
    using 1(1) 2 by (intro exI [of _ st'] exI [of _ D'] exI [of _ C']) simp
qed

text \<open>Giving the cache up makes its slots loose.\<close>

lemma inv_disown:
  assumes "slab_inv 0 st D C H" "owned (tls st t)"
  defines "Ls \<equiv> \<lambda>c. C (TlsChain t c)"
  shows "slab_inv 0 (set_owned t False st) D (\<lambda>i. if i \<in> range (TlsChain t) then [] else C i) (H \<union> (\<Union>c \<in> set [0..<SLAB_CLASS_COUNT]. set (Ls c)))"
proof -
  let ?st = "set_owned t False st" and ?C = "\<lambda>i. if i \<in> range (TlsChain t) then [] else C i"
  let ?H = "H \<union> (\<Union>c \<in> set [0..<SLAB_CLASS_COUNT]. set (Ls c))"
  have act: "{i. chain_active ?st D i} = {i. chain_active st D i} - range (TlsChain t)"
  proof (intro set_eqI)
    fix i show "i \<in> {i. chain_active ?st D i} \<longleftrightarrow> i \<in> {i. chain_active st D i} - range (TlsChain t)"
      by (cases i) (auto simp: set_owned_def)
  qed
  have head: "chain_head ?st = chain_head st"
  proof
    fix i show "chain_head ?st i = chain_head st i"
      by (cases i) (simp_all add: set_owned_def)
  qed
  have nxt: "slot_next ?st = slot_next st"
    by (rule slot_next_cong) (simp add: set_owned_def)
  have big: "set (Ls c) = {}" if "\<not> c < SLAB_CLASS_COUNT" for c
    using assms(1) that by (auto simp: slab_inv_def mchains_def Ls_def)
  have all: "(\<Union>c \<in> set [0..<SLAB_CLASS_COUNT]. set (Ls c)) = (\<Union>c. set (Ls c))"
    using big by (fastforce simp: not_less [symmetric])
  show ?thesis
  proof (rule inv_redistribute [OF assms(1)])
    show "mchains (slot_next ?st) (chain_head ?st) {i. chain_active ?st D i} ?C"
      unfolding act head nxt using assms(1) by (intro mchains_drop [OF _ refl]) (simp add: slab_inv_def)
    show "free_count (pages ?st p) = length (?C (PageChain p)) \<and> set (?C (PageChain p)) \<subseteq> page_slots st (list_class k) p
        \<and> (p = 0 \<or> kind_ok (nslots st (list_class k)) k (?C (PageChain p)))" if "p \<in> set (D k)" for k p
      using inv_page [OF assms(1) that] by (auto simp: page_ok_def set_owned_def)
    show "set (?C i) \<subseteq> chain_slots_of st D i" for i
      using inv_chain_of [OF assms(1), of i] by simp
    show "set (?C i) \<inter> ?H = {}" for i
    proof (cases "i \<in> range (TlsChain t)")
      case False
      then have "set (C i) \<inter> set (Ls c) = {}" for c
        unfolding Ls_def by (intro inv_disjoint(1) [OF assms(1)]) auto
      then show ?thesis
        using inv_disjoint(2) [OF assms(1), of i] False by auto
    qed simp
    have "(\<Union>i. set (C i)) = (\<Union>c. set (Ls c)) \<union> (\<Union>i \<in> - range (TlsChain t). set (C i))"
    proof -
      have "(\<Union>i. set (C i)) = (\<Union>i \<in> range (TlsChain t) \<union> - range (TlsChain t). set (C i))"
        by simp
      then show ?thesis
        unfolding Ls_def UN_Un by simp
    qed
    moreover have "(\<Union>i. set (?C i)) = (\<Union>i \<in> - range (TlsChain t). set (C i))"
    proof -
      have "(\<Union>i. set (?C i)) = (\<Union>i \<in> range (TlsChain t) \<union> - range (TlsChain t). set (?C i))"
        by simp
      then show ?thesis
        unfolding UN_Un by simp
    qed
    ultimately show "?H \<union> (\<Union>i. set (?C i)) = H \<union> (\<Union>i. set (C i))"
      unfolding all by (simp only: Un_assoc)
    have "counts_ok st D C"
      using assms(1) by (simp add: slab_inv_def)
    then show "counts_ok ?st D ?C"
      unfolding counts_ok_def by (auto simp: set_owned_def)
  qed (simp_all add: set_owned_def)
qed

lemma inv_tls_flush:
  assumes "slab_inv 0 st D C H"
  shows "\<exists>st' D' C'. tls_cache_flush_pool st t = Some st' \<and> slab_inv 0 st' D' C' H \<and> grows H st D st' D'
     \<and> \<not> owned (tls st' t)"
proof (cases "owned (tls st t)")
  case False
  then show ?thesis
    using assms grows_refl by (auto simp: tls_cache_flush_pool_def)
next
  case True
  let ?st = "set_owned t False st" and ?Ls = "\<lambda>c. C (TlsChain t c)"
  have nxt: "slot_next ?st = slot_next st" and g: "class_slots ?st = class_slots st"
    by (rule slot_next_cong, simp add: set_owned_def, rule geometry_cong, simp_all add: set_owned_def)
  have "mchain (slot_next ?st) (tslots (tls ?st t) c) (?Ls c) \<and> distinct (?Ls c) \<and> set (?Ls c) \<inter> H = {} \<and> set (?Ls c) \<subseteq> class_slots ?st D c"
    if "c \<in> set [0..<SLAB_CLASS_COUNT]" for c
    using inv_chain [OF assms, of "TlsChain t c"] inv_disjoint(2,3) [OF assms, of "TlsChain t c"]
      inv_chain_of [OF assms, of "TlsChain t c"] True that nxt g by (simp add: set_owned_def)
  moreover have "set (?Ls c) \<inter> set (?Ls d) = {}" if "c \<noteq> d" for c d
    using that by (intro inv_disjoint(1) [OF assms]) simp
  moreover have "\<not> owned (tls ?st t)"
    by (simp add: set_owned_def)
  ultimately obtain st' D' C' where r: "tls_flush_classes t [0..<SLAB_CLASS_COUNT] ?st = Some st'" "slab_inv 0 st' D' C' H"
    "grows H ?st D st' D'" "\<And>u. owned (tls st' u) = owned (tls ?st u)"
    using inv_tls_flush_classes [OF inv_disown [OF assms True], of t] by (metis (no_types, lifting) distinct_upt)
  moreover have "grows H st D ?st D"
    by (simp add: grows_def set_owned_def maps_ok_def apart_from_def)
  ultimately show ?thesis
    using grows_trans [of H st D ?st D H] True by (auto simp: tls_cache_flush_pool_def set_owned_def)
qed

lemma inv_validate_owner:
  assumes "slab_inv 0 st D C H"
  shows "slab_inv 0 (tls_cache_validate_owner st t) D C H" "grows H st D (tls_cache_validate_owner st t) D"
    "owned (tls (tls_cache_validate_owner st t) t)"
proof -
  let ?st = "tls_cache_validate_owner st t"
  show "grows H st D ?st D" "owned (tls ?st t)"
    by (simp_all add: tls_cache_validate_owner_def grows_def maps_ok_def apart_from_def class_slots_def)
  show "slab_inv 0 ?st D C H"
  proof (cases "owned (tls st t)")
    case False
    have nxt: "slot_next ?st = slot_next st"
      by (rule slot_next_cong) (simp add: tls_cache_validate_owner_def)
    have none: "C (TlsChain t c) = []" for c
      using assms False by (auto simp: slab_inv_def mchains_def)
    show ?thesis
    proof (rule inv_redistribute [OF assms])
      show "mchains (slot_next ?st) (chain_head ?st) {i. chain_active ?st D i} C"
        unfolding nxt
      proof (rule mchains_extend)
        show "mchains (slot_next st) (chain_head st) {i. chain_active st D i} C"
          using assms by (simp add: slab_inv_def)
        have "chain_active st D i \<Longrightarrow> chain_active ?st D i" for i
          by (cases i) (simp_all add: tls_cache_validate_owner_def)
        then show "{i. chain_active st D i} \<subseteq> {i. chain_active ?st D i}"
          by blast
        show "chain_head ?st i = chain_head st i" if "i \<in> {i. chain_active st D i}" for i
          using that False by (cases i) (auto simp: tls_cache_validate_owner_def)
        show "chain_head ?st i = 0" if "i \<in> {i. chain_active ?st D i} - {i. chain_active st D i}" for i
          using that False by (cases i) (auto simp: tls_cache_validate_owner_def split: if_splits)
      qed
      show "free_count (pages ?st p) = length (C (PageChain p)) \<and> set (C (PageChain p)) \<subseteq> page_slots st (list_class k) p
          \<and> (p = 0 \<or> kind_ok (nslots st (list_class k)) k (C (PageChain p)))" if "p \<in> set (D k)" for k p
        using inv_page [OF assms that] by (auto simp: page_ok_def tls_cache_validate_owner_def)
      show "counts_ok ?st D C"
        using assms none by (auto simp: slab_inv_def counts_ok_def tls_cache_validate_owner_def)
    qed (use inv_chain_of [OF assms] inv_disjoint(2) [OF assms] in \<open>simp_all add: tls_cache_validate_owner_def\<close>)
  qed (use assms in \<open>simp add: tls_cache_validate_owner_def\<close>)
qed

section \<open>Per-CPU lists\<close>

lemma percpu_index_props:
  assumes "c < SLAB_CLASS_COUNT"
  shows "percpu_index cpu c mod SLAB_CLASS_COUNT = c" "cpu < n \<Longrightarrow> percpu_index cpu c < n * SLAB_CLASS_COUNT"
proof -
  show "percpu_index cpu c mod SLAB_CLASS_COUNT = c"
    using assms by (simp add: percpu_index_def)
  assume "cpu < n"
  then have "Suc cpu * SLAB_CLASS_COUNT \<le> n * SLAB_CLASS_COUNT"
    by (intro mult_le_mono1) simp
  then show "percpu_index cpu c < n * SLAB_CLASS_COUNT"
    using assms by (simp add: percpu_index_def)
qed

text \<open>A state with one per-CPU entry replaced.\<close>

definition set_percpu :: "nat \<Rightarrow> addr \<Rightarrow> nat \<Rightarrow> slab_pool \<Rightarrow> slab_pool" where
  "set_percpu i v n st =
     st\<lparr>percpu_heads := map_option (\<lambda>hs. hs(i := v)) (percpu_heads st), percpu_counts := (percpu_counts st)(i := n)\<rparr>"

lemma set_percpu_simps [simp]:
  "pages (set_percpu i v n st) = pages st" "page_heads (set_percpu i v n st) = page_heads st" "sflags (set_percpu i v n st) = sflags st"
  "slot_sizes (set_percpu i v n st) = slot_sizes st" "tls (set_percpu i v n st) = tls st" "num_cpus (set_percpu i v n st) = num_cpus st"
  "remote_free_queue (set_percpu i v n st) = remote_free_queue st" "maps (set_percpu i v n st) = maps st"
  "shdr (set_percpu i v n st) = shdr st" "empty_page_count (set_percpu i v n st) = empty_page_count st"
  "(percpu_heads (set_percpu i v n st) = None) = (percpu_heads st = None)" "slot_next (set_percpu i v n st) = slot_next st"
  "class_slots (set_percpu i v n st) = class_slots st"
  by (auto simp: set_percpu_def slot_next_def class_slots_def page_slots_def nslots_def total_slot_size_def fun_eq_iff)

lemma set_percpu_chains:
  assumes "percpu_heads st \<noteq> None"
  shows "chain_head (set_percpu i v n st) = (chain_head st)(CpuChain i := v)" "chain_active (set_percpu i v n st) D j = chain_active st D j"
proof -
  have "chain_head (set_percpu i v n st) k = ((chain_head st)(CpuChain i := v)) k" for k
    using assms by (cases k) (auto simp: set_percpu_def)
  then show "chain_head (set_percpu i v n st) = (chain_head st)(CpuChain i := v)"
    by blast
  show "chain_active (set_percpu i v n st) D j = chain_active st D j"
    by (cases j) simp_all
qed

lemma set_percpu_counts:
  assumes "slab_inv x st D C H" "n = length L"
  shows "counts_ok (set_percpu i v n st) D (C(CpuChain i := L))"
proof -
  have "counts_ok st D C"
    using assms(1) by (simp add: slab_inv_def)
  then show ?thesis
    using assms(2) unfolding counts_ok_def by (auto simp: set_percpu_def)
qed

lemma inv_percpu_pop:
  assumes "slab_inv 0 st D C H" "c < SLAB_CLASS_COUNT" "percpu_pop cas st cpu c = (st', s)"
  shows "answers st D H c st' s \<and> tls st' = tls st"
proof (cases "s = 0")
  case True
  have "\<exists>hs. percpu_heads st = Some hs" if "st' \<noteq> st"
    using assms(3) that by (auto simp: percpu_pop_def split: option.splits)
  then have "st' = st"
    using assms(3) True by (auto simp: percpu_pop_def Let_def split: option.splits if_splits)
  then show ?thesis
    using True assms(1) grows_refl unfolding answers_def by auto
next
  case False
  let ?i = "percpu_index cpu c"
  obtain hs where hs: "percpu_heads st = Some hs" "cpu < num_cpus st" "s = hs ?i"
    and st': "st' = set_percpu ?i (slot_next st s) (percpu_counts st ?i - 1) st"
    using assms(3) False by (auto simp: percpu_pop_def Let_def set_percpu_def split: option.splits if_splits)
  have act: "chain_active st D (CpuChain ?i)" and s: "chain_head st (CpuChain ?i) = s"
    using hs percpu_index_props(2) [OF assms(2) hs(2)] by simp_all
  have "percpu_counts st ?i = length (C (CpuChain ?i))"
    using assms(1) act by (simp add: slab_inv_def counts_ok_def)
  then have cnt: "counts_ok st' D (C(CpuChain ?i := tl (C (CpuChain ?i))))"
    unfolding st' by (intro set_percpu_counts [OF assms(1)]) simp
  have ch: "chain_head st' = (chain_head st)(CpuChain ?i := slot_next st (chain_head st (CpuChain ?i)))" "\<And>j. chain_active st' D j = chain_active st D j"
    "page_same st st'" "slot_next st' = slot_next st"
    using set_percpu_chains hs(1) s unfolding st' by (simp_all add: page_same_def)
  from inv_outside_pop [OF assms(1) _ act _ ch(3,4,1,2) cnt] False s
  have "slab_inv 0 st' D (C(CpuChain ?i := tl (C (CpuChain ?i)))) (insert s H)" "s \<notin> H" "s \<in> class_slots st D c"
    using percpu_index_props(1) [OF assms(2)] by simp_all
  moreover have "grows H st D st' D"
    by (simp add: grows_def st' maps_ok_def apart_from_def)
  ultimately show ?thesis
    using False unfolding answers_def st' by auto
qed

lemma inv_percpu_push:
  assumes "slab_inv 0 st D C H" "s \<in> H" "s \<in> class_slots st D c" "c < SLAB_CLASS_COUNT" "percpu_push st cpu c s = (st', ok)"
  shows "ok \<Longrightarrow> \<exists>C'. slab_inv 0 st' D C' (H - {s}) \<and> grows (H - {s}) st D st' D" "\<not> ok \<Longrightarrow> st' = st"
proof -
  show "\<not> ok \<Longrightarrow> st' = st"
    using assms(5) by (auto simp: percpu_push_def Let_def split: option.splits if_splits)
  assume ok
  let ?i = "percpu_index cpu c"
  obtain hs where hs: "percpu_heads st = Some hs" "cpu < num_cpus st"
    and st': "st' = set_percpu ?i s (percpu_counts st ?i + 1) (set_slot_next s (hs ?i) st)"
    using assms(5) \<open>ok\<close> by (auto simp: percpu_push_def Let_def set_percpu_def set_slot_next_def split: option.splits if_splits)
  let ?st1 = "set_slot_next s (hs ?i) st"
  have same: "percpu_heads ?st1 = percpu_heads st" "percpu_counts ?st1 = percpu_counts st" "page_same st ?st1" "maps ?st1 = maps st"
    by (simp_all add: set_slot_next_def page_same_def)
  have act: "chain_active st D (CpuChain ?i)" and h: "chain_head st (CpuChain ?i) = hs ?i"
    using hs percpu_index_props(2) [OF assms(4) hs(2)] by simp_all
  have heads1: "chain_head ?st1 = chain_head st" and act1: "\<And>j. chain_active ?st1 D j = chain_active st D j"
  proof -
    have "chain_head ?st1 j = chain_head st j" for j
      by (cases j) (simp_all add: set_slot_next_def)
    then show "chain_head ?st1 = chain_head st"
      by blast
    show "chain_active ?st1 D j = chain_active st D j" for j
      by (cases j) (simp_all add: set_slot_next_def)
  qed
  have cnt: "counts_ok st' D (C(CpuChain ?i := s # C (CpuChain ?i)))"
  proof -
    have c: "counts_ok st D C"
      using assms(1) by (simp add: slab_inv_def)
    then have "percpu_counts st ?i = length (C (CpuChain ?i))"
      using act by (simp add: counts_ok_def)
    then show ?thesis
      using c unfolding counts_ok_def st' by (auto simp: set_percpu_def set_slot_next_def)
  qed
  have ch: "chain_head st' = (chain_head st)(CpuChain ?i := s)" "\<And>j. chain_active st' D j = chain_active st D j"
    "page_same st st'" "slot_next st' = (slot_next st)(s := chain_head st (CpuChain ?i))"
    unfolding st' using set_percpu_chains [of ?st1] hs(1) same heads1 act1 h by (simp_all add: page_same_def)
  have "slab_inv 0 st' D (C(CpuChain ?i := s # C (CpuChain ?i))) (H - {s})"
    using assms(3) percpu_index_props(1) [OF assms(4)] by (intro inv_outside_push [OF assms(1,2) _ act _ ch(3,4,1,2) cnt]) simp_all
  moreover have "grows (H - {s}) st D st' D"
    by (simp add: grows_def st' maps_ok_def apart_from_def) (simp add: set_slot_next_def)
  ultimately show "\<exists>C'. slab_inv 0 st' D C' (H - {s}) \<and> grows (H - {s}) st D st' D"
    by blast
qed

lemma chain_slots_spec:
  assumes "distinct ss" "ss \<noteq> []" "set ss \<inter> set L = {}" "0 \<notin> set ss" "mchain (slot_next st) old L"
  shows "mchain (slot_next (chain_slots ss old st)) (hd ss) (ss @ L)" "\<And>y. y \<notin> set ss \<Longrightarrow> shdr (chain_slots ss old st) y = shdr st y"
    "\<exists>h. chain_slots ss old st = st\<lparr>shdr := h\<rparr>"
  using assms
proof (induction ss old st rule: chain_slots.induct)
  case (1 old st)
  {
    case 1
    from 1(2) show ?case
      by (rule notE [OF _ refl])
  next
    case (2 y)
    from 2(3) show ?case
      by (rule notE [OF _ refl])
  next
    case 3
    from 3(2) show ?case
      by (rule notE [OF _ refl])
  }
next
  case (2 slot old st)
  {
    case 1
    then show ?case
      using mchain_upd_notin [of slot L "slot_next st" old old] by (simp add: fun_upd_def)
  next
    case 2
    then show ?case
      by (simp add: set_slot_next_def)
  next
    case 3
    show ?case
      unfolding chain_slots.simps set_slot_next_def by (rule exI, rule refl)
  }
next
  case (3 a b rest old st)
  let ?st = "set_slot_next a b st"
  have pre: "distinct (b # rest)" "b # rest \<noteq> []" "set (b # rest) \<inter> set L = {}" "0 \<notin> set (b # rest)" "mchain (slot_next ?st) old L"
    if "distinct (a # b # rest)" "set (a # b # rest) \<inter> set L = {}" "0 \<notin> set (a # b # rest)" "mchain (slot_next st) old L"
    using that by auto
  {
    case 1
    note p = pre [OF 1(1,3,4,5)]
    have "a \<notin> set (b # rest)"
      using 1(1) by simp
    then have "slot_next (chain_slots (b # rest) old ?st) a = b"
      using "3.IH"(2) [OF _ p, of a] slot_next_at [of "chain_slots (b # rest) old ?st" a ?st] by simp
    then show ?case
      using "3.IH"(1) [OF p] 1(4) by simp
  next
    case (2 y)
    then show ?case
      using "3.IH"(2) [OF _ pre [OF 2(2,4,5,6)], of y] by (simp add: set_slot_next_def)
  next
    case 3
    then show ?case
      using "3.IH"(3) [OF pre [OF 3(1,3,4,5)]] by (auto simp: set_slot_next_def)
  }
qed

lemma inv_percpu_refill:
  assumes "slab_inv 0 st D C H" "c < SLAB_CLASS_COUNT" "maps_ok st D"
  shows "\<exists>D' C'. slab_inv 0 (percpu_refill st cpu c) D' C' H \<and> grows H st D (percpu_refill st cpu c) D' \<and> tls (percpu_refill st cpu c) = tls st"
proof (cases "\<exists>hs. percpu_heads st = Some hs \<and> cpu < num_cpus st \<and> percpu_counts st (percpu_index cpu c) \<le> MP_PERCPU_MAX_BATCH div 2")
  case False
  then have "percpu_refill st cpu c = st"
    by (auto simp: percpu_refill_def Let_def not_less not_le split: option.splits)
  then show ?thesis
    using assms(1) grows_refl by auto
next
  case True
  let ?i = "percpu_index cpu c"
  obtain hs where hs: "percpu_heads st = Some hs" "cpu < num_cpus st" "percpu_counts st ?i \<le> MP_PERCPU_MAX_BATCH div 2"
    using True by blast
  obtain st1 ss where t: "take_slots MP_PERCPU_MAX_BATCH st c = (st1, ss)"
    by fastforce
  define st2 where "st2 = add_allocated ((length ss * slot_sizes st1 ! c) mod 2 ^ 64) st1"
  obtain D' C' where 1: "slab_inv 0 st1 D' C' (H \<union> set ss)" "grows H st D st1 D'" "set ss \<inter> H = {}" "distinct ss" "0 \<notin> set ss"
    "set ss \<subseteq> class_slots st1 D' c" "tls st1 = tls st" "percpu_heads st1 = percpu_heads st" "percpu_counts st1 = percpu_counts st"
    "num_cpus st1 = num_cpus st"
    using inv_take_slots [OF assms t] by blast
  have c2: "core_same {} st1 st2" "maps st2 = maps st1" "tls st2 = tls st1" "percpu_heads st2 = percpu_heads st1"
    "percpu_counts st2 = percpu_counts st1" "shdr st2 = shdr st1" "num_cpus st2 = num_cpus st1"
    by (simp_all add: st2_def add_allocated_def core_same_def)
  have inv2: "slab_inv 0 st2 D' C' (H \<union> set ss)" and g2: "grows H st D st2 D'" and cl2: "class_slots st2 = class_slots st1"
    using inv_frame [OF 1(1) core_same_mono [OF c2(1) empty_subsetI]] grows_trans [OF 1(2) grows_core [OF c2(1,2), of H D']]
    by (simp, simp, intro geometry_cong, simp_all add: st2_def add_allocated_def)
  show ?thesis
  proof (cases ss)
    case Nil
    then have "percpu_refill st cpu c = st2"
      using hs t by (simp add: percpu_refill_def slab_alloc_batch_def Let_def not_less not_le st2_def)
    then show ?thesis
      using inv2 g2 c2 1(7) Nil by auto
  next
    case (Cons a rest)
    let ?L = "C' (CpuChain ?i)"
    define st3 where "st3 = chain_slots ss (hs ?i) st2"
    define st4 where "st4 = set_percpu ?i a (percpu_counts st ?i + length ss) st3"
    have act: "chain_active st2 D' (CpuChain ?i)" and head: "chain_head st2 (CpuChain ?i) = hs ?i"
      using hs 1(8,10) c2 percpu_index_props(2) [OF assms(2) hs(2)] by simp_all
    have disjL: "set ss \<inter> set ?L = {}" "\<And>j. set (C' j) \<inter> set ss = {}"
      using inv_disjoint(2) [OF inv2] by blast+
    have "mchain (slot_next st2) (hs ?i) ?L"
      using inv_chain [OF inv2 act] head by simp
    note sp = chain_slots_spec [OF 1(4) _ disjL(1) 1(5) this, folded st3_def]
    obtain h where h: "st3 = st2\<lparr>shdr := h\<rparr>"
      using sp(3) Cons by auto
    have same3: "pages st3 = pages st2" "page_heads st3 = page_heads st2" "sflags st3 = sflags st2" "slot_sizes st3 = slot_sizes st2"
      "tls st3 = tls st2" "num_cpus st3 = num_cpus st2" "remote_free_queue st3 = remote_free_queue st2" "maps st3 = maps st2"
      "percpu_heads st3 = percpu_heads st2" "percpu_counts st3 = percpu_counts st2" "empty_page_count st3 = empty_page_count st2"
      by (subst h, simp)+
    have heads3: "chain_head st3 j = chain_head st2 j" and act3: "chain_active st3 D' j = chain_active st2 D' j" for j
      by (cases j; simp only: chain_head.simps chain_active.simps same3)+
    have some3: "percpu_heads st3 \<noteq> None"
      using same3 c2 1(8) hs(1) by simp
    have b: "slab_alloc_batch st c MP_PERCPU_MAX_BATCH = (st2, a # rest)"
      unfolding slab_alloc_batch_def t Let_def prod.case st2_def Cons ..
    have "percpu_counts st3 = percpu_counts st" "percpu_heads st3 = Some hs"
      using h 1(8,9) c2(4,5) hs(1) by simp_all
    then have r: "percpu_refill st cpu c = st4"
      using hs unfolding percpu_refill_def
      by (simp add: b Let_def not_less not_le set_percpu_def st3_def [symmetric, unfolded Cons] st4_def Cons)
    have len: "percpu_counts st ?i = length ?L"
      using inv2 act 1(9) c2(5) by (simp add: slab_inv_def counts_ok_def)
    have "slab_inv 0 st4 D' (C'(CpuChain ?i := ss @ ?L)) H"
    proof (rule inv_outside_update [OF inv2])
      show "page_same st2 st4"
        by (simp add: page_same_def same3 st4_def)
      show "chain_active st4 D' j = chain_active st2 D' j" for j
        using set_percpu_chains(2) [OF some3] act3 by (simp add: st4_def)
      have nx: "slot_next st4 y = slot_next st2 y" if "y \<notin> set ss" for y
        using slot_next_at [OF sp(2) [OF _ that]] Cons by (simp add: st4_def)
      have nx4: "slot_next st4 = slot_next st3"
        by (simp add: st4_def fun_eq_iff)
      have hd4: "chain_head st4 = (chain_head st3)(CpuChain ?i := a)"
        unfolding st4_def by (rule set_percpu_chains(1) [OF some3])
      show "mchains (slot_next st4) (chain_head st4) {j. chain_active st2 D' j} (C'(CpuChain ?i := ss @ ?L))"
        unfolding mchains_def
      proof (intro conjI ballI allI impI)
        fix j assume "j \<in> {j. chain_active st2 D' j}"
        then have "mchain (slot_next st2) (chain_head st2 j) (C' j)"
          using inv_chain [OF inv2] by simp
        moreover have "slot_next st4 y = slot_next st2 y" if "y \<in> set (C' j)" for y
          using nx disjL(2) [of j] that by blast
        ultimately show "mchain (slot_next st4) (chain_head st4 j) ((C'(CpuChain ?i := ss @ ?L)) j)"
          using mchain_frame [of "C' j" "slot_next st4" "slot_next st2"] sp(1) Cons hd4 heads3 nx4 by auto
      next
        fix j assume "j \<notin> {j. chain_active st2 D' j}"
        then show "(C'(CpuChain ?i := ss @ ?L)) j = []"
          using inv2 act by (auto simp: slab_inv_def mchains_def)
      next
        show "distinct ((C'(CpuChain ?i := ss @ ?L)) j)" for j
          using inv_disjoint(3) [OF inv2] 1(4) disjL(1) by auto
      next
        show "set ((C'(CpuChain ?i := ss @ ?L)) j) \<inter> set ((C'(CpuChain ?i := ss @ ?L)) k) = {}" if "j \<noteq> k" for j k
          using inv_disjoint(1) [OF inv2 that] disjL(2) [of j] disjL(2) [of k] that by auto
      qed
      show "set (ss @ ?L) \<subseteq> chain_slots_of st2 D' (CpuChain ?i)"
        using inv_chain_of [OF inv2, of "CpuChain ?i"] 1(6) cl2 percpu_index_props(1) [OF assms(2)] by simp
      show "set (C' j) \<inter> H = {}" for j
        using inv_disjoint(2) [OF inv2, of j] by blast
      then show "set (ss @ ?L) \<inter> H = {}"
        using 1(3) by auto
      have "counts_ok st2 D' C'"
        using inv2 by (simp add: slab_inv_def)
      then show "counts_ok st4 D' (C'(CpuChain ?i := ss @ ?L))"
        using len 1(9) c2(5) unfolding counts_ok_def by (auto simp: set_percpu_def same3 st4_def)
    qed auto
    moreover have "grows H st D st4 D'"
    proof -
      have "shdr st4 y = shdr st2 y" if "y \<in> H" for y
        using sp(2) [of y] that 1(3) Cons by (auto simp: st4_def)
      then have "grows H st2 D' st4 D'"
        by (simp add: grows_def same3 maps_ok_def apart_from_def st4_def)
      then show ?thesis
        using grows_trans [OF g2] by simp
    qed
    ultimately show ?thesis
      unfolding r using same3 c2 1(7) by (auto simp: st4_def)
  qed
qed

end
