(* ===== verification/Slab_Trace.thy ===== *)
theory Slab_Trace
  imports Slab_Cache_Ops
begin

text \<open>
  Histories of the slab tier.  Threads allocate and free through the tier, flush their caches, harvest the
  remote queues, flush and switch the per-CPU lists, in any order; every call is one step.  Along every
  history the invariant of \<open>Slab_Inv\<close> holds, every call returns, and the slots handed out never overlap.
\<close>

section \<open>Flushing the per-CPU lists\<close>

lemma inv_percpu_flush_entries:
  assumes "slab_inv 0 st D C H" "percpu_heads st \<noteq> None" "\<And>cpu c. (cpu, c) \<in> set es \<Longrightarrow> cpu < num_cpus st \<and> c < SLAB_CLASS_COUNT"
  shows "\<exists>st' D' C'. percpu_flush_entries es st = Some st' \<and> slab_inv 0 st' D' C' H \<and> grows H st D st' D'
     \<and> percpu_heads st' \<noteq> None \<and> num_cpus st' = num_cpus st
     \<and> (\<forall>i. C (CpuChain i) = [] \<or> i \<in> (\<lambda>(cpu, c). percpu_index cpu c) ` set es \<longrightarrow> C' (CpuChain i) = [])"
  using assms
proof (induction es arbitrary: st D C)
  case Nil
  then show ?case
    using grows_refl by fastforce
next
  case (Cons e es)
  obtain cpu c where e: "e = (cpu, c)"
    by fastforce
  obtain hs where hs: "percpu_heads st = Some hs"
    using Cons.prems(2) by blast
  let ?i = "percpu_index cpu c"
  define st1 where "st1 = set_percpu ?i 0 0 st"
  have c: "c < SLAB_CLASS_COUNT" "cpu < num_cpus st"
    using Cons.prems(3) e by auto
  have act: "chain_active st D (CpuChain ?i)" and head: "chain_head st (CpuChain ?i) = hs ?i"
    using hs percpu_index_props(2) [OF c] by simp_all
  note det = inv_outside_detach [OF Cons.prems(1), of "CpuChain ?i" st1]
  have ps: "page_same st st1"
    by (simp add: st1_def page_same_def)
  have 1: "slab_inv 0 st1 D (C(CpuChain ?i := [])) (H \<union> set (C (CpuChain ?i)))" "mchain (slot_next st1) (hs ?i) (C (CpuChain ?i))"
    using det act head ps Cons.prems(2) set_percpu_counts [OF Cons.prems(1), of 0 "[]" ?i 0]
    by (simp_all add: st1_def set_percpu_chains)
  have cl: "set (C (CpuChain ?i)) \<subseteq> class_slots st1 D c" "distinct (C (CpuChain ?i))" "set (C (CpuChain ?i)) \<inter> H = {}"
    using inv_chain_of [OF Cons.prems(1), of "CpuChain ?i"] inv_disjoint [OF Cons.prems(1)] percpu_index_props(1) [OF c(1)]
    by (simp_all add: st1_def)
  obtain st2 D2 C2 where 2: "percpu_flush_loop c (hs ?i) st1 = Some st2" "slab_inv 0 st2 D2 C2 (H \<union> set (C (CpuChain ?i)) - set (C (CpuChain ?i)))"
    "returned (set (C (CpuChain ?i))) st1 D (C(CpuChain ?i := [])) st2 D2 C2"
    using inv_percpu_flush_loop [OF 1 _ cl(2,1)] by blast
  have "H \<union> set (C (CpuChain ?i)) - set (C (CpuChain ?i)) = H"
    using cl(3) by blast
  then have inv2: "slab_inv 0 st2 D2 C2 H"
    using 2(2) by simp
  have st2: "percpu_heads st2 \<noteq> None" "num_cpus st2 = num_cpus st" and C2: "C2 (CpuChain j) = (C(CpuChain ?i := [])) (CpuChain j)" for j
    using 2(3) hs unfolding returned_def tier_same_def by (simp_all add: st1_def set_percpu_def)
  have g1: "grows H st D st1 D"
    by (simp add: grows_def st1_def maps_ok_def apart_from_def)
  have g2: "grows H st D st2 D2"
    using grows_trans [OF g1 returned_grows [OF 2(3)]] cl(3) by simp
  have "\<And>cpu c. (cpu, c) \<in> set es \<Longrightarrow> cpu < num_cpus st2 \<and> c < SLAB_CLASS_COUNT"
    using Cons.prems(3) st2(2) by (metis list.set_intros(2))
  from Cons.IH [OF inv2 st2(1) this] obtain st' D' C' where 3: "percpu_flush_entries es st2 = Some st'" "slab_inv 0 st' D' C' H" "grows H st2 D2 st' D'"
    "percpu_heads st' \<noteq> None" "num_cpus st' = num_cpus st"
    "\<And>i. C2 (CpuChain i) = [] \<or> i \<in> (\<lambda>(cpu, c). percpu_index cpu c) ` set es \<Longrightarrow> C' (CpuChain i) = []"
    unfolding st2(2) by blast
  have "percpu_flush_entries (e # es) st = Some st'"
    using 2(1) 3(1) hs by (simp add: e Let_def st1_def set_percpu_def)
  moreover have "C' (CpuChain i) = []" if "C (CpuChain i) = [] \<or> i \<in> (\<lambda>(cpu, c). percpu_index cpu c) ` set (e # es)" for i
    using that 3(6) [of i] C2 [of i] e by (auto split: if_splits)
  ultimately show ?case
    using 3(2,4,5) grows_trans [OF g2 3(3)] by blast
qed

lemma percpu_entries:
  "(\<lambda>(cpu, c). percpu_index cpu c) ` set [(cpu, c). cpu \<leftarrow> [0..<n], c \<leftarrow> [0..<SLAB_CLASS_COUNT]] = {..<n * SLAB_CLASS_COUNT}"
proof (intro equalityI subsetI)
  fix i assume "i \<in> {..<n * SLAB_CLASS_COUNT}"
  then have "i div SLAB_CLASS_COUNT < n" "i mod SLAB_CLASS_COUNT < SLAB_CLASS_COUNT" "i = percpu_index (i div SLAB_CLASS_COUNT) (i mod SLAB_CLASS_COUNT)"
    by (auto simp: percpu_index_def less_mult_imp_div_less SLAB_CLASS_COUNT_def)
  then show "i \<in> (\<lambda>(cpu, c). percpu_index cpu c) ` set [(cpu, c). cpu \<leftarrow> [0..<n], c \<leftarrow> [0..<SLAB_CLASS_COUNT]]"
    by (force simp: image_iff)
next
  fix i assume "i \<in> (\<lambda>(cpu, c). percpu_index cpu c) ` set [(cpu, c). cpu \<leftarrow> [0..<n], c \<leftarrow> [0..<SLAB_CLASS_COUNT]]"
  then show "i \<in> {..<n * SLAB_CLASS_COUNT}"
    using percpu_index_props(2) by auto
qed

lemma inv_percpu_flush:
  assumes "slab_inv 0 st D C H"
  shows "\<exists>st' D' C'. percpu_flush st = Some st' \<and> slab_inv 0 st' D' C' H \<and> grows H st D st' D' \<and> (\<forall>i. C' (CpuChain i) = [])"
proof (cases "percpu_heads st")
  case None
  then have "C (CpuChain i) = []" for i
    using assms by (auto simp: slab_inv_def mchains_def)
  then show ?thesis
    using None assms grows_refl by (fastforce simp: percpu_flush_def)
next
  case (Some hs)
  let ?es = "[(cpu, c). cpu \<leftarrow> [0..<num_cpus st], c \<leftarrow> [0..<SLAB_CLASS_COUNT]]"
  have out: "C (CpuChain i) = []" if "i \<notin> {..<num_cpus st * SLAB_CLASS_COUNT}" for i
    using assms that by (auto simp: slab_inv_def mchains_def)
  have "percpu_heads st \<noteq> None"
    using Some by simp
  moreover have "\<And>cpu c. (cpu, c) \<in> set ?es \<Longrightarrow> cpu < num_cpus st \<and> c < SLAB_CLASS_COUNT"
    by auto
  ultimately obtain st' D' C' where 1: "percpu_flush_entries ?es st = Some st'" "slab_inv 0 st' D' C' H" "grows H st D st' D'"
    "\<And>i. C (CpuChain i) = [] \<or> i \<in> {..<num_cpus st * SLAB_CLASS_COUNT} \<Longrightarrow> C' (CpuChain i) = []"
    using inv_percpu_flush_entries [OF assms, of ?es, unfolded percpu_entries] by blast
  have "percpu_flush st = Some st'"
    using 1(1) Some unfolding percpu_flush_def by simp
  moreover have "\<forall>i. C' (CpuChain i) = []"
    using 1(4) out by blast
  ultimately show ?thesis
    using 1(2,3) by blast
qed

section \<open>The tier\<close>

lemma answers_mono: "answers st D H c st' s \<Longrightarrow> s = 0 \<Longrightarrow> \<exists>D' C'. slab_inv 0 st' D' C' H \<and> grows H st D st' D'"
  unfolding answers_def by auto

lemma inv_tier_slot:
  assumes inv: "slab_inv 0 st D C H" and c: "c < SLAB_CLASS_COUNT" and maps: "maps_ok st D" and own: "owned (tls st t)"
    and "tier_slot cas1 cas2 st t cpu c = (st', s)"
  shows "answers st D H c st' s"
proof (cases "0 < tcounts (tls st t) c")
  case True
  then show ?thesis
    using inv_tls_pop [OF inv c own True] assms(5) by (auto simp: tier_slot_def Let_def split: prod.splits if_splits)
next
  case False
  have refill: "answers st D H c st2 s2"
    if "slab_inv 0 st1 D1 C1 H" "grows H st D st1 D1" "tls st1 = tls st" "slab_alloc_with_tls_refill st1 t c = (st2, s2)"
    for st1 D1 C1 st2 s2
  proof -
    have "maps_ok st1 D1"
      using that(2) maps by (simp add: grows_def)
    then show ?thesis
      using answers_grows [OF that(2)] inv_alloc_with_tls_refill [OF that(1) c _ _ _ that(4)] that(3) own False by simp
  qed
  show ?thesis
  proof (cases "percpu_heads st = None")
    case True
    then show ?thesis
      using refill [OF inv grows_refl] False assms(5) by (simp add: tier_slot_def)
  next
    case pc: False
    obtain st1 s1 where p1: "percpu_pop cas1 st cpu c = (st1, s1)"
      by fastforce
    have a1: "answers st D H c st1 s1" "tls st1 = tls st"
      using inv_percpu_pop [OF inv c p1] by auto
    show ?thesis
    proof (cases "s1 = 0")
      case False
      then show ?thesis
        using a1 \<open>\<not> 0 < tcounts (tls st t) c\<close> pc assms(5) p1 by (simp add: tier_slot_def)
    next
      case True
      obtain D1 C1 where i1: "slab_inv 0 st1 D1 C1 H" "grows H st D st1 D1"
        using answers_mono [OF a1(1) True] by blast
      have "maps_ok st1 D1"
        using i1(2) maps by (simp add: grows_def)
      then obtain D2 C2 where i2: "slab_inv 0 (percpu_refill st1 cpu c) D2 C2 H" "grows H st1 D1 (percpu_refill st1 cpu c) D2"
        "tls (percpu_refill st1 cpu c) = tls st1"
        using inv_percpu_refill [OF i1(1) c] by blast
      note g2 = grows_trans [OF i1(2) i2(2) subset_refl]
      obtain st3 s3 where p3: "percpu_pop cas2 (percpu_refill st1 cpu c) cpu c = (st3, s3)"
        by fastforce
      have a3: "answers st D H c st3 s3" "tls st3 = tls st"
        using inv_percpu_pop [OF i2(1) c p3] answers_grows [OF g2] i2(3) a1(2) by auto
      have r: "tier_slot cas1 cas2 st t cpu c = (if s3 = 0 then slab_alloc_with_tls_refill st3 t c else (st3, s3))"
        using \<open>\<not> 0 < tcounts (tls st t) c\<close> pc p1 p3 True by (simp add: tier_slot_def Let_def)
      show ?thesis
      proof (cases "s3 = 0")
        case True
        then obtain D3 C3 where "slab_inv 0 st3 D3 C3 H" "grows H st D st3 D3"
          using answers_mono [OF a3(1)] by blast
        then show ?thesis
          using refill a3(2) assms(5) r True by simp
      next
        case False
        then show ?thesis
          using a3(1) assms(5) r by simp
      qed
    qed
  qed
qed

text \<open>What the header of a handed-out slot says.\<close>

definition held_ok :: "slab_pool \<Rightarrow> (page_list \<Rightarrow> addr list) \<Rightarrow> addr set \<Rightarrow> bool" where
  "held_ok st D H \<longleftrightarrow>
     (\<forall>s \<in> H. raw_base (shdr st s) = s \<and> slab_class (shdr st s) < SLAB_CLASS_COUNT
        \<and> s \<in> class_slots st D (slab_class (shdr st s)))"

lemma held_grows: "held_ok st D H \<Longrightarrow> grows H' st D st' D' \<Longrightarrow> H \<subseteq> H' \<Longrightarrow> held_ok st' D' H"
  unfolding held_ok_def by (metis grows_class grows_def subsetD)

lemma held_mono: "held_ok st D H \<Longrightarrow> H' \<subseteq> H \<Longrightarrow> held_ok st D H'"
  unfolding held_ok_def by blast

text \<open>A request was answered with the slot \<open>s\<close> (null: none), its header stamped with class \<open>c\<close>.\<close>

definition allocated ::
  "slab_pool \<Rightarrow> (page_list \<Rightarrow> addr list) \<Rightarrow> addr set \<Rightarrow> nat \<Rightarrow> slab_pool \<Rightarrow> addr \<Rightarrow> bool" where
  "allocated st D H c st' s \<longleftrightarrow> answers st D H c st' s \<and> (s \<noteq> 0 \<longrightarrow> raw_base (shdr st' s) = s \<and> slab_class (shdr st' s) = c)"

lemma allocated_inv:
  assumes "allocated st D H c st' s" "held_ok st D H" "c < SLAB_CLASS_COUNT"
  shows "\<exists>D' C'. slab_inv 0 st' D' C' (if s = 0 then H else insert s H) \<and> held_ok st' D' (if s = 0 then H else insert s H)
     \<and> (maps_ok st D \<longrightarrow> maps_ok st' D')" "s \<noteq> 0 \<Longrightarrow> s \<notin> H"
proof -
  obtain D' C' where 1: "grows H st D st' D'"
    "if s = 0 then slab_inv 0 st' D' C' H else slab_inv 0 st' D' C' (insert s H) \<and> s \<notin> H \<and> s \<in> class_slots st' D' c"
    using assms(1) by (auto simp: allocated_def answers_def)
  have "held_ok st' D' H" "maps_ok st D \<longrightarrow> maps_ok st' D'"
    using held_grows [OF assms(2) 1(1)] 1(1) by (auto simp: grows_def)
  then show "\<exists>D' C'. slab_inv 0 st' D' C' (if s = 0 then H else insert s H) \<and> held_ok st' D' (if s = 0 then H else insert s H)
     \<and> (maps_ok st D \<longrightarrow> maps_ok st' D')" "s \<noteq> 0 \<Longrightarrow> s \<notin> H"
    using 1(2) assms(1,3) by (auto simp: allocated_def held_ok_def split: if_splits)
qed

lemma stamped:
  assumes "answers st D H c st1 s" "s \<noteq> 0" "shdr st2 = (shdr st1)(s := h)" "raw_base h = s" "slab_class h = c" "core_same {s} st1 st2"
    "maps st2 = maps st1"
  shows "allocated st D H c (stamp_payload a n st2) s"
proof -
  have "core_same {s} st1 (stamp_payload a n st2)"
    by (rule core_same_trans [OF assms(6)]) simp
  moreover have "maps (stamp_payload a n st2) = maps st1" "shdr (stamp_payload a n st2) = shdr st2"
    using assms(7) by (simp_all add: stamp_payload_def Let_def)
  ultimately show ?thesis
    unfolding allocated_def using answers_frame [OF assms(1)] assms(2-5) by simp
qed

lemma inv_slab_tier_alloc:
  assumes "slab_inv 0 st D C H" "c < SLAB_CLASS_COUNT" "maps_ok st D"
  shows "\<exists>st' s. slab_tier_alloc cas1 cas2 self st t cpu c req = Some (st', if s = 0 then 0 else s + sizeof_mp_block_header)
     \<and> allocated st D H c st' s"
proof -
  define st1 where "st1 = tls_cache_validate_owner st t"
  note v = inv_validate_owner [OF assms(1), of t, folded st1_def]
  obtain st2 D2 C2 where 2: "(if has_flag (sflags st1) MP_FLAG_THREAD_SAFE \<and> remote_free_pending st1 then remote_free_harvest_all st1 else Some st1) = Some st2"
    "slab_inv 0 st2 D2 C2 H" "grows H st1 D st2 D2" "tls st2 = tls st1"
    using inv_harvest_all [OF v(1)] v(1) grows_refl [of H st1 D] by (metis (full_types))
  note g2 = grows_trans [OF v(2) 2(3) subset_refl]
  obtain st3 s where 3: "tier_slot cas1 cas2 st2 t cpu c = (st3, s)"
    by fastforce
  have "maps_ok st2 D2"
    using g2 assms(3) by (simp add: grows_def)
  then have a: "answers st D H c st3 s"
    using inv_tier_slot [OF 2(2) assms(2) _ _ 3] v(3) 2(4) answers_grows [OF g2] by simp
  show ?thesis
  proof (cases "s = 0")
    case True
    then have "slab_tier_alloc cas1 cas2 self st t cpu c req = Some (st3, 0)"
      using 2(1) 3 unfolding slab_tier_alloc_def Let_def st1_def [symmetric] by simp
    then show ?thesis
      using a True unfolding allocated_def by auto
  next
    case False
    let ?st4 = "stamp_slab_header self s c req st3"
    have "slab_tier_alloc cas1 cas2 self st t cpu c req
        = Some (stamp_payload (s + sizeof_mp_block_header) req ?st4, s + sizeof_mp_block_header)"
      using 2(1) 3 False unfolding slab_tier_alloc_def Let_def st1_def [symmetric] by simp
    moreover obtain h where "shdr ?st4 = (shdr st3)(s := h)" "raw_base h = s" "slab_class h = c" "core_same {s} st3 ?st4" "maps ?st4 = maps st3"
      by (simp add: stamp_slab_header_def Let_def core_same_def)
    ultimately show ?thesis
      using stamped [OF a False] False by auto
  qed
qed

lemma inv_slab_alloc:
  assumes "slab_inv 0 st D C H" "c < SLAB_CLASS_COUNT" "maps_ok st D"
  shows "\<exists>st' s. slab_alloc st c req = Some (st', if s = 0 then 0 else s + sizeof_mp_block_header) \<and> allocated st D H c st' s"
proof -
  obtain st1 s where 1: "slab_alloc_slot st c = Some (st1, s)" "answers st D H c st1 s"
    using inv_slab_alloc_slot [OF assms] by blast
  show ?thesis
  proof (cases "s = 0")
    case True
    then show ?thesis
      using 1 unfolding allocated_def slab_alloc_def by auto
  next
    case False
    let ?h = "(shdr st1 s)\<lparr>magic := MP_MAGIC_HEAD, alloc_type := ALLOC_TYPE_SLAB,
                       slab_class := c, hflags := 0, requested_size := req, usable_size := slot_sizes st1 ! c,
                       raw_base := s, subpool := 0, alloc_file := 0, alloc_line := 0, alloc_func := 0,
                       backtrace_depth := 0\<rparr>"
    let ?st = "stamp_payload (s + sizeof_mp_block_header) req (st1\<lparr>shdr := (shdr st1)(s := ?h)\<rparr>)"
    have "allocated st D H c ?st s"
      by (rule stamped [OF 1(2) False, where h = ?h]) (simp_all add: core_same_def)
    moreover have "slab_alloc st c req = Some (?st, if s = 0 then 0 else s + sizeof_mp_block_header)"
      using False 1(1) by (simp add: slab_alloc_def Let_def)
    ultimately show ?thesis
      by blast
  qed
qed

lemma inv_place_slot:
  assumes "slab_inv 0 st D C H" "held_ok st D H" "s \<in> H" "owned (tls st t)"
  shows "\<exists>D' C'. slab_inv 0 (place_slot st t cpu s) D' C' (H - {s}) \<and> grows (H - {s}) st D (place_slot st t cpu s) D'"
proof -
  define c where "c = slab_class (shdr st s)"
  have h: "raw_base (shdr st s) = s" "c < SLAB_CLASS_COUNT" "s \<in> class_slots st D c"
    using assms(2,3) by (auto simp: held_ok_def c_def)
  obtain st1 ok where p: "percpu_push st cpu c s = (st1, ok)"
    by fastforce
  consider (cache) "tcounts (tls st t) c < TLS_CACHE_MAX_SLOTS" | (cpu) "\<not> tcounts (tls st t) c < TLS_CACHE_MAX_SLOTS" ok
    | (remote) "\<not> tcounts (tls st t) c < TLS_CACHE_MAX_SLOTS" "\<not> ok" "has_flag (sflags st) MP_FLAG_THREAD_SAFE"
    | (page) "\<not> tcounts (tls st t) c < TLS_CACHE_MAX_SLOTS" "\<not> ok" "\<not> has_flag (sflags st) MP_FLAG_THREAD_SAFE"
    by blast
  then show ?thesis
  proof cases
    case cache
    then have "place_slot st t cpu s = tls_push t c s st"
      by (simp add: place_slot_def c_def h(1))
    then show ?thesis
      using inv_tls_push(1,2) [OF assms(1,3) h(3,2) assms(4)] cache by auto
  next
    case cpu
    then have "place_slot st t cpu s = st1"
      using p by (simp add: place_slot_def c_def h(1))
    then show ?thesis
      using inv_percpu_push(1) [OF assms(1,3) h(3,2) p cpu(2)] by auto
  next
    case remote
    then have "place_slot st t cpu s = remote_free_push st c s"
      using p inv_percpu_push(2) [OF assms(1,3) h(3,2) p] by (simp add: place_slot_def c_def h(1))
    then show ?thesis
      using inv_remote_push [OF assms(1,3) h(3,2)] by auto
  next
    case page
    then have r: "place_slot st t cpu s = slab_free st s"
      using p inv_percpu_push(2) [OF assms(1,3) h(3,2) p] by (simp add: place_slot_def c_def h(1))
    obtain D' C' where 1: "slab_inv 0 (slab_free st s) D' C' (H - {s})" "tier_same {s} st (slab_free st s)"
      "\<And>d. class_slots st D' d = class_slots st D d" "\<And>q. (\<exists>j. q \<in> set (D' j)) \<longleftrightarrow> (\<exists>j. q \<in> set (D j))"
      using inv_slab_free [OF assms(1,3) c_def [symmetric] h(3,1)] by metis
    have m: "maps (slab_free st s) = maps st"
      by (auto simp: slab_free_def slab_free_nolock_def Let_def sub_allocated_def set_slot_next_def upd_page_def)
    have "maps_ok st D \<longrightarrow> maps_ok (slab_free st s) D'"
      unfolding maps_ok_def m using 1(4) by blast
    moreover have "\<forall>U. apart_from U st D \<longrightarrow> apart_from U (slab_free st s) D'"
      unfolding apart_from_def m using 1(4) by blast
    ultimately have "grows (H - {s}) st D (slab_free st s) D'"
      using 1(2,3) unfolding grows_def tier_same_def by simp
    then show ?thesis
      using 1(1) r by auto
  qed
qed

lemma inv_slab_tier_free:
  assumes "slab_inv 0 st D C H" "held_ok st D H" "s \<in> H"
  shows "\<exists>D' C'. slab_inv 0 (slab_tier_free st t cpu (s + sizeof_mp_block_header)) D' C' (H - {s})
     \<and> grows (H - {s}) st D (slab_tier_free st t cpu (s + sizeof_mp_block_header)) D'"
proof -
  note v = inv_validate_owner [OF assms(1), of t]
  have "held_ok (tls_cache_validate_owner st t) D H"
    using held_grows [OF assms(2) v(2)] by simp
  then obtain D' C' where 1: "slab_inv 0 (place_slot (tls_cache_validate_owner st t) t cpu s) D' C' (H - {s})"
    "grows (H - {s}) (tls_cache_validate_owner st t) D (place_slot (tls_cache_validate_owner st t) t cpu s) D'"
    using inv_place_slot [OF v(1) _ assms(3) v(3)] by blast
  have "grows (H - {s}) st D (place_slot (tls_cache_validate_owner st t) t cpu s) D'"
    using grows_trans [OF grows_mono [OF v(2), of "H - {s}"] 1(2)] by blast
  then show ?thesis
    using 1(1) by (auto simp: slab_tier_free_def)
qed

section \<open>Switching the per-CPU lists\<close>

lemma has_flag_other:
  assumes "g AND h = 0"
  shows "has_flag (f OR g) h = has_flag f h" "has_flag (clear_flag f g) h = has_flag f h"
proof -
  have gh: "\<not> (bit g n \<and> bit h n)" for n
    using assms by (metis bit_0_eq bit_and_iff bot_fun_def bot_bool_def)
  have "(f OR g) AND h = f AND h"
    by (rule bit_eqI) (use gh in \<open>auto simp: bit_simps\<close>)
  then show "has_flag (f OR g) h = has_flag f h"
    by (simp add: has_flag_def)
  have "int (clear_flag f g) = int f AND NOT (int f AND int g)"
  proof -
    have "f AND g \<le> f"
      by (simp add: and_nat_def nat_le_iff AND_upper1)
    then have "int (clear_flag f g) = int f - (int f AND int g)"
      by (simp add: clear_flag_def of_nat_diff of_nat_and_eq)
    also have "\<dots> = int f AND NOT (int f AND int g)"
      by (rule disjunctive_diff) (simp add: bit_simps)
    finally show ?thesis .
  qed
  then have "bit (clear_flag f g) n = (bit f n \<and> \<not> bit g n)" for n
    by (metis bit_and_iff bit_not_int_iff bit_of_nat_iff_bit)
  then have "clear_flag f g AND h = f AND h"
    by (intro bit_eqI) (use gh in \<open>auto simp: bit_simps\<close>)
  then show "has_flag (clear_flag f g) h = has_flag f h"
    by (simp add: has_flag_def)
qed

lemma inv_flags:
  assumes "slab_inv x st D C H" "has_flag f MP_FLAG_DEBUG_CANARY = has_flag (sflags st) MP_FLAG_DEBUG_CANARY"
  shows "slab_inv x (st\<lparr>sflags := f\<rparr>) D C H" "class_slots (st\<lparr>sflags := f\<rparr>) = class_slots st"
proof -
  let ?st = "st\<lparr>sflags := f\<rparr>"
  have t: "total_slot_size ?st = total_slot_size st"
    using assms(2) by (simp add: total_slot_size_def fun_eq_iff)
  then have n: "nslots ?st = nslots st" "page_slots ?st = page_slots st"
    by (simp_all add: nslots_def page_slots_def fun_eq_iff)
  then show c: "class_slots ?st = class_slots st"
    by (simp add: class_slots_def fun_eq_iff)
  have "chain_head ?st i = chain_head st i" "chain_active ?st D i = chain_active st D i" "chain_slots_of ?st D i = chain_slots_of st D i" for i
    using c by (cases i; simp)+
  then have "chain_head ?st = chain_head st" "chain_active ?st D = chain_active st D" "chain_slots_of ?st D = chain_slots_of st D"
    by (simp_all add: fun_eq_iff)
  moreover have "slot_next ?st = slot_next st"
    by (rule slot_next_cong) simp
  moreover have "page_ok x ?st = page_ok x st" "counts_ok ?st D C = counts_ok st D C" "sizes_ok ?st = sizes_ok st"
    using n by (simp_all add: page_ok_def counts_ok_def sizes_ok_def fun_eq_iff)
  ultimately show "slab_inv x ?st D C H"
    using assms(1) c unfolding slab_inv_def by simp
qed

lemma inv_percpu_switch:
  assumes "slab_inv 0 st D C H" "\<And>i. C (CpuChain i) = []" "case ph of None \<Rightarrow> True | Some hs \<Rightarrow> \<forall>i. hs i = 0 \<and> pc i = 0"
  shows "slab_inv 0 (st\<lparr>percpu_heads := ph, percpu_counts := pc, num_cpus := n\<rparr>) D C H"
proof -
  let ?st = "st\<lparr>percpu_heads := ph, percpu_counts := pc, num_cpus := n\<rparr>"
  have g: "sizes_ok ?st = sizes_ok st" "nslots ?st = nslots st" "page_slots ?st = page_slots st" "class_slots ?st = class_slots st"
    using geometry_cong [of ?st st] by simp_all
  have nx: "slot_next ?st = slot_next st"
    by (rule slot_next_cong) simp
  have hd: "chain_head ?st i = (if (\<exists>j. i = CpuChain j) then 0 else chain_head st i)" for i
    using assms(3) by (cases i) (auto split: option.splits)
  have ac: "chain_active ?st D i = chain_active st D i" if "\<And>j. i \<noteq> CpuChain j" for i
    using that by (cases i) auto
  have "mchains (slot_next st) (chain_head st) {i. chain_active st D i} C"
    using assms(1) by (simp add: slab_inv_def)
  then have "mchains (slot_next ?st) (chain_head ?st) {i. chain_active ?st D i} C"
  proof -
    assume m: "mchains (slot_next st) (chain_head st) {i. chain_active st D i} C"
    have "mchain (slot_next st) (chain_head ?st i) (C i)" if "chain_active ?st D i" for i
      using m that ac [of i] assms(2) unfolding hd by (auto simp: mchains_def)
    moreover have "C i = []" if "\<not> chain_active ?st D i" for i
      using m that ac [of i] assms(2) unfolding mchains_def by (cases "\<exists>j. i = CpuChain j") auto
    ultimately show ?thesis
      using m unfolding mchains_def nx by blast
  qed
  moreover have "page_ok 0 ?st = page_ok 0 st"
    using g by (simp add: page_ok_def fun_eq_iff)
  moreover have "chain_slots_of ?st D = chain_slots_of st D"
  proof
    show "chain_slots_of ?st D i = chain_slots_of st D i" for i
      using g by (cases i) simp_all
  qed
  moreover have "counts_ok st D C"
    using assms(1) by (simp add: slab_inv_def)
  then have "counts_ok ?st D C"
    using assms(2,3) unfolding counts_ok_def by (auto split: option.splits)
  ultimately show ?thesis
    using assms(1) g unfolding slab_inv_def by simp
qed

lemma percpu_init_switch:
  assumes "percpu_heads st = None"
  shows "\<exists>ph pc n. percpu_init nproc calloc_ok st = st\<lparr>percpu_heads := ph, percpu_counts := pc, num_cpus := n\<rparr>
     \<and> (case ph of None \<Rightarrow> True | Some hs \<Rightarrow> \<forall>i. hs i = 0 \<and> pc i = 0)"
proof -
  let ?n = "let n = (if nproc \<le> 0 then 1 else nproc) in nat (if 256 < n then 256 else n)"
  have "percpu_init nproc calloc_ok st =
      (if calloc_ok then st\<lparr>percpu_heads := Some (\<lambda>_. 0), percpu_counts := (\<lambda>_. 0), num_cpus := ?n\<rparr>
       else st\<lparr>percpu_heads := None, percpu_counts := percpu_counts st, num_cpus := 0\<rparr>)"
    using assms by (intro slab_pool.equality) (auto simp: percpu_init_def Let_def)
  note i = this
  show ?thesis
  proof (cases calloc_ok)
    case True
    then show ?thesis
      using i
      by (intro exI [of _ "Some (\<lambda>_. 0)"] exI [of _ "\<lambda>_. 0"] exI [of _ ?n]) simp
  next
    case False
    then show ?thesis
      using i
      by (intro exI [of _ None] exI [of _ "percpu_counts st"] exI [of _ 0]) simp
  qed
qed

text \<open>What all steps that hand out and take back nothing keep.\<close>

definition kept :: "addr set \<Rightarrow> slab_pool \<Rightarrow> (page_list \<Rightarrow> addr list) \<Rightarrow> slab_pool \<Rightarrow> (page_list \<Rightarrow> addr list) \<Rightarrow> bool" where
  "kept H st D st' D' \<longleftrightarrow>
     (\<forall>y \<in> H. shdr st' y = shdr st y) \<and> slot_sizes st' = slot_sizes st \<and> (\<forall>d. class_slots st D d \<subseteq> class_slots st' D' d)"

lemma kept_grows: "grows H st D st' D' \<Longrightarrow> kept H st D st' D'"
  unfolding kept_def by (metis grows_class grows_def subsetI)

lemma kept_held: "kept H st D st' D' \<Longrightarrow> held_ok st D H \<Longrightarrow> held_ok st' D' H"
  unfolding kept_def held_ok_def by auto

lemma inv_set_percpu_freelist:
  assumes "slab_inv 0 st D C H"
  shows "\<exists>st' D' C'. mp_set_percpu_freelist nproc calloc_ok st enable = Some st' \<and> slab_inv 0 st' D' C' H \<and> kept H st D st' D'"
proof -
  have cmp: "has_flag (sflags st OR MP_FLAG_PERCPU_FREELIST) MP_FLAG_DEBUG_CANARY = has_flag (sflags st) MP_FLAG_DEBUG_CANARY"
    "has_flag (clear_flag (sflags st) MP_FLAG_PERCPU_FREELIST) MP_FLAG_DEBUG_CANARY = has_flag (sflags st) MP_FLAG_DEBUG_CANARY"
    by (rule has_flag_other, simp add: MP_FLAG_PERCPU_FREELIST_def MP_FLAG_DEBUG_CANARY_def)+
  show ?thesis
  proof (cases enable)
    case True
    let ?st = "st\<lparr>sflags := sflags st OR MP_FLAG_PERCPU_FREELIST\<rparr>"
    note f = inv_flags [OF assms cmp(1)]
    have e: "C (CpuChain i) = []" if "percpu_heads st = None" for i
      using assms that by (auto simp: slab_inv_def mchains_def)
    define st' where "st' = (if percpu_heads ?st = None then percpu_init nproc calloc_ok ?st else ?st)"
    have "slab_inv 0 st' D C H"
    proof (cases "percpu_heads ?st = None")
      case True
      then show ?thesis
        using percpu_init_switch [OF True, of nproc calloc_ok] inv_percpu_switch [OF f(1) e] by (auto simp: st'_def)
    qed (use f(1) in \<open>auto simp: st'_def\<close>)
    moreover have "class_slots st' = class_slots ?st"
      by (rule geometry_cong) (auto simp: st'_def percpu_init_def Let_def)
    then have "kept H st D st' D"
      using f(2) by (auto simp: kept_def st'_def percpu_init_def Let_def)
    moreover have "mp_set_percpu_freelist nproc calloc_ok st enable = Some st'"
      using True by (simp add: mp_set_percpu_freelist_def st'_def Let_def)
    ultimately show ?thesis
      by blast
  next
    case False
    let ?st = "st\<lparr>sflags := clear_flag (sflags st) MP_FLAG_PERCPU_FREELIST\<rparr>"
    note f = inv_flags [OF assms cmp(2)]
    have k: "kept H st D ?st D"
      using f(2) by (simp add: kept_def)
    show ?thesis
    proof (cases "percpu_heads st = None")
      case True
      then show ?thesis
        using f(1) k False by (auto simp: mp_set_percpu_freelist_def percpu_destroy_def)
    next
      case some: False
      obtain st1 D1 C1 where 1: "percpu_flush ?st = Some st1" "slab_inv 0 st1 D1 C1 H" "grows H ?st D st1 D1" "\<And>i. C1 (CpuChain i) = []"
        using inv_percpu_flush [OF f(1)] by blast
      let ?st2 = "st1\<lparr>percpu_heads := None, num_cpus := 0\<rparr>"
      have "slab_inv 0 ?st2 D1 C1 H"
        using inv_percpu_switch [OF 1(2,4), where ph = None and pc = "percpu_counts st1" and n = 0] by simp
      moreover have "class_slots ?st2 = class_slots st1"
        by (rule geometry_cong) simp_all
      then have "kept H st D ?st2 D1"
        using kept_grows [OF 1(3)] k by (fastforce simp: kept_def)
      moreover have "mp_set_percpu_freelist nproc calloc_ok st enable = Some ?st2"
        using 1(1) some False by (auto simp: mp_set_percpu_freelist_def percpu_destroy_def)
      ultimately show ?thesis
        by blast
    qed
  qed
qed

section \<open>Histories\<close>

text \<open>\<open>ms\<close>: what the operating system will answer to the \<open>mmap\<close> calls of one operation.  Fresh mappings are
  mapped, lead to different pages, and to none that the pool already has.\<close>

definition listed_page :: "slab_pool \<Rightarrow> addr \<Rightarrow> bool" where
  "listed_page st p \<longleftrightarrow> (\<exists>k L. dll (pgn st) (pgp st) (page_heads st k) L \<and> p \<in> set L)"

definition fresh_maps :: "slab_pool \<Rightarrow> addr list \<Rightarrow> bool" where
  "fresh_maps st ms \<longleftrightarrow> 0 \<notin> set ms \<and> distinct (map map_page ms) \<and> (\<forall>m \<in> set ms. \<not> listed_page st (map_page m))"

text \<open>A state with the slots that clients hold, by the address of their block header.\<close>

inductive slab_history :: "slab_pool \<Rightarrow> addr set \<Rightarrow> bool" where
  created: "\<lbrakk>sizes_ok (slab_init cfg st0); percpu_heads st0 = None; \<And>t. \<not> owned (tls st0 t)\<rbrakk>
     \<Longrightarrow> slab_history (slab_init cfg st0) {}"
| allocate: "\<lbrakk>slab_history st H; c < SLAB_CLASS_COUNT; fresh_maps st ms;
     slab_tier_alloc cas1 cas2 self (st\<lparr>maps := ms\<rparr>) t cpu c req = Some (st', a)\<rbrakk>
     \<Longrightarrow> slab_history st' (if a = 0 then H else insert (a - sizeof_mp_block_header) H)"
| allocate_direct: "\<lbrakk>slab_history st H; c < SLAB_CLASS_COUNT; fresh_maps st ms; slab_alloc (st\<lparr>maps := ms\<rparr>) c req = Some (st', a)\<rbrakk>
     \<Longrightarrow> slab_history st' (if a = 0 then H else insert (a - sizeof_mp_block_header) H)"
| release: "\<lbrakk>slab_history st H; s \<in> H\<rbrakk> \<Longrightarrow> slab_history (slab_tier_free st t cpu (s + sizeof_mp_block_header)) (H - {s})"
| flush: "\<lbrakk>slab_history st H; tls_cache_flush_pool st t = Some st'\<rbrakk> \<Longrightarrow> slab_history st' H"
| harvest: "\<lbrakk>slab_history st H; remote_free_harvest_all st = Some st'\<rbrakk> \<Longrightarrow> slab_history st' H"
| harvest_one: "\<lbrakk>slab_history st H; remote_free_harvest st c = Some st'\<rbrakk> \<Longrightarrow> slab_history st' H"
| cpu_flush: "\<lbrakk>slab_history st H; percpu_flush st = Some st'\<rbrakk> \<Longrightarrow> slab_history st' H"
| cpu_switch: "\<lbrakk>slab_history st H; mp_set_percpu_freelist nproc calloc_ok st enable = Some st'\<rbrakk> \<Longrightarrow> slab_history st' H"
| tick: "slab_history st H \<Longrightarrow> slab_history (st\<lparr>now_ms := n\<rparr>) H"

lemma fresh_maps_ok:
  assumes "slab_inv 0 st D C H" "fresh_maps st ms"
  shows "maps_ok (st\<lparr>maps := ms\<rparr>) D"
proof -
  have "dll (pgn st) (pgp st) (page_heads st k) (D k)" for k
    using assms(1) by (simp add: slab_inv_def dlls_def)
  then show ?thesis
    using assms(2) unfolding fresh_maps_def maps_ok_def listed_page_def by auto
qed

lemma inv_maps: "slab_inv 0 st D C H \<Longrightarrow> slab_inv 0 (st\<lparr>maps := ms\<rparr>) D C H"
  by (rule inv_frame [OF _ core_same_updates(3)])

lemma held_frame: "held_ok st D H \<Longrightarrow> core_same {} st st' \<Longrightarrow> held_ok st' D H"
  using geometry_cong(5) [of st' st] unfolding held_ok_def core_same_def by simp

lemma inv_init:
  assumes "sizes_ok (slab_init cfg st0)" "percpu_heads st0 = None" "\<And>t. \<not> owned (tls st0 t)"
  shows "slab_inv 0 (slab_init cfg st0) (\<lambda>_. []) (\<lambda>_. []) {}"
proof -
  have "chain_head (slab_init cfg st0) i = 0" if "chain_active (slab_init cfg st0) (\<lambda>_. []) i" for i
    using that assms(2,3) by (cases i) (simp_all add: slab_init_def)
  then have "mchains (slot_next (slab_init cfg st0)) (chain_head (slab_init cfg st0)) {i. chain_active (slab_init cfg st0) (\<lambda>_. []) i} (\<lambda>_. [])"
    by (simp add: mchains_def)
  moreover have "dlls (pgn (slab_init cfg st0)) (pgp (slab_init cfg st0)) (page_heads (slab_init cfg st0)) (\<lambda>_. [])"
    by (simp add: dlls_def slab_init_def)
  moreover have "counts_ok (slab_init cfg st0) (\<lambda>_. []) (\<lambda>_. [])"
    using assms(2,3) by (simp add: counts_ok_def slab_init_def)
  ultimately show ?thesis
    using assms(1) unfolding slab_inv_def by (simp add: class_slots_def)
qed

lemma history_inv: "slab_history st H \<Longrightarrow> \<exists>D C. slab_inv 0 st D C H \<and> held_ok st D H"
proof (induction rule: slab_history.induct)
  case (created cfg st0)
  then show ?case
    using inv_init [OF created] unfolding held_ok_def by blast
next
  case (allocate st H c ms cas1 cas2 self t cpu req st' a)
  then obtain D C where 1: "slab_inv 0 st D C H" "held_ok st D H"
    by blast
  note m = inv_maps [OF 1(1), of ms] fresh_maps_ok [OF 1(1) allocate.hyps(3)]
  have "held_ok (st\<lparr>maps := ms\<rparr>) D H"
    using held_frame [OF 1(2)] by simp
  then show ?case
    using inv_slab_tier_alloc [OF m(1) allocate.hyps(2) m(2), of cas1 cas2 self t cpu req] allocate.hyps(2,4) allocated_inv(1)
    by (fastforce split: if_splits)
next
  case (allocate_direct st H c ms req st' a)
  then obtain D C where 1: "slab_inv 0 st D C H" "held_ok st D H"
    by blast
  note m = inv_maps [OF 1(1), of ms] fresh_maps_ok [OF 1(1) allocate_direct.hyps(3)]
  have "held_ok (st\<lparr>maps := ms\<rparr>) D H"
    using held_frame [OF 1(2)] by simp
  then show ?case
    using inv_slab_alloc [OF m(1) allocate_direct.hyps(2) m(2), of req] allocate_direct.hyps(2,4) allocated_inv(1)
    by (fastforce split: if_splits)
next
  case (release st H s t cpu)
  then obtain D C where 1: "slab_inv 0 st D C H" "held_ok st D H"
    by blast
  then show ?case
    using inv_slab_tier_free [OF 1 release.hyps(2)] held_grows [OF held_mono [OF 1(2), of "H - {s}"]] by blast
next
  case (flush st H t st')
  then show ?case
    using inv_tls_flush [of st _ _ H t] held_grows by (metis option.inject subset_refl)
next
  case (harvest st H st')
  then show ?case
    using inv_harvest_all [of st _ _ H] held_grows by (metis option.inject subset_refl)
next
  case (harvest_one st H c st')
  then show ?case
    using inv_harvest [of st _ _ H c] held_grows by (metis option.inject subset_refl)
next
  case (cpu_flush st H st')
  then show ?case
    using inv_percpu_flush [of st _ _ H] held_grows by (metis option.inject subset_refl)
next
  case (cpu_switch st H nproc calloc_ok enable st')
  then show ?case
    using inv_set_percpu_freelist [of st _ _ H nproc calloc_ok enable] kept_held by (metis option.inject)
next
  case (tick st H n)
  then show ?case
    using inv_frame [OF _ core_same_updates(4)] held_frame [OF _ core_same_updates(4)] by blast
qed

section \<open>Properties\<close>

lemma inv_slot_of_page:
  assumes "slab_inv 0 st D C H" "s \<in> class_slots st D c"
  obtains k p where "list_class k = c" "p \<in> set (D k)" "s \<in> page_slots st c p" "p mod SLAB_PAGE_SIZE = 0" "c < SLAB_CLASS_COUNT"
  using assms inv_page [OF assms(1)] inv_class [OF assms(1)] unfolding class_slots_iff page_ok_def by metis

lemma held_apart:
  assumes "slab_inv 0 st D C H" "held_ok st D H" "s \<in> H" "s' \<in> H" "s \<noteq> s'"
  shows "s + total_slot_size st (slab_class (shdr st s)) \<le> s' \<or> s' + total_slot_size st (slab_class (shdr st s')) \<le> s"
proof -
  let ?c = "slab_class (shdr st s)" and ?d = "slab_class (shdr st s')"
  have "s \<in> class_slots st D ?c" "s' \<in> class_slots st D ?d"
    using assms(2-4) by (auto simp: held_ok_def)
  then obtain k p l q where kp: "list_class k = ?c" "p \<in> set (D k)" "s \<in> page_slots st ?c p" "p mod SLAB_PAGE_SIZE = 0" "?c < SLAB_CLASS_COUNT"
    and lq: "list_class l = ?d" "q \<in> set (D l)" "s' \<in> page_slots st ?d q" "q mod SLAB_PAGE_SIZE = 0" "?d < SLAB_CLASS_COUNT"
    using inv_slot_of_page [OF assms(1)] by metis
  have "p = q \<Longrightarrow> ?c = ?d"
    using inv_one_list [OF assms(1) kp(2), of l] lq(1,2) kp(1) by simp
  moreover have "sizes_ok st"
    using assms(1) by (simp add: slab_inv_def)
  ultimately show ?thesis
    using slots_apart [of st ?c ?d s p s' q] kp(3-5) lq(3-5) assms(5) by blast
qed

text \<open>Bytes of a handed-out slot: header, payload of the class size, and the canary behind it.\<close>

definition slot_bytes :: "slab_pool \<Rightarrow> addr \<Rightarrow> nat" where
  "slot_bytes st s = sizeof_mp_block_header + slot_sizes st ! slab_class (shdr st s)
     + (if has_flag (sflags st) MP_FLAG_DEBUG_CANARY then 1 else 0)"

lemma slot_bytes_fit:
  assumes "sizes_ok st" "slab_class (shdr st s) < SLAB_CLASS_COUNT"
  shows "slot_bytes st s \<le> total_slot_size st (slab_class (shdr st s))"
  using total_slot_size_bounds(1,2) [OF assms] by (simp add: slot_bytes_def)


text \<open>Two slots held by clients never overlap, in any history, headers and canary bytes included, and the
  header of each says which class it belongs to.\<close>

theorem slab_no_overlap:
  assumes "slab_history st H" "s \<in> H" "s' \<in> H" "s \<noteq> s'"
  shows "s + slot_bytes st s \<le> s' \<or> s' + slot_bytes st s' \<le> s"
proof -
  obtain D C where 1: "slab_inv 0 st D C H" "held_ok st D H"
    using history_inv [OF assms(1)] by blast
  have "sizes_ok st" "slab_class (shdr st s) < SLAB_CLASS_COUNT" "slab_class (shdr st s') < SLAB_CLASS_COUNT"
    using 1 assms(2,3) by (simp_all add: slab_inv_def held_ok_def)
  then show ?thesis
    using held_apart [OF 1 assms(2-4)] slot_bytes_fit by (meson add_left_mono le_trans)
qed

text \<open>Every operation of the slab tier returns in every state a history can reach (the loops over remote queues,
  thread caches and per-CPU lists end), and an allocation never answers a slot that somebody holds.\<close>

theorem slab_never_stuck:
  assumes "slab_history st H" "c < SLAB_CLASS_COUNT" "fresh_maps st ms"
  shows "(\<exists>st' s. slab_tier_alloc cas1 cas2 self (st\<lparr>maps := ms\<rparr>) t cpu c req
             = Some (st', if s = 0 then 0 else s + sizeof_mp_block_header) \<and> s \<notin> H - {0})
    \<and> (\<exists>st'. tls_cache_flush_pool st t = Some st') \<and> (\<exists>st'. remote_free_harvest_all st = Some st')
    \<and> (\<exists>st'. percpu_flush st = Some st') \<and> (\<exists>st'. mp_set_percpu_freelist nproc calloc_ok st enable = Some st')"
proof -
  obtain D C where 1: "slab_inv 0 st D C H" "held_ok st D H"
    using history_inv [OF assms(1)] by blast
  note m = inv_maps [OF 1(1), of ms] fresh_maps_ok [OF 1(1) assms(3)]
  have h: "held_ok (st\<lparr>maps := ms\<rparr>) D H"
    using held_frame [OF 1(2)] by simp
  obtain st' s where a: "slab_tier_alloc cas1 cas2 self (st\<lparr>maps := ms\<rparr>) t cpu c req = Some (st', if s = 0 then 0 else s + sizeof_mp_block_header)"
    "allocated (st\<lparr>maps := ms\<rparr>) D H c st' s"
    using inv_slab_tier_alloc [OF m(1) assms(2) m(2)] by blast
  have "s \<notin> H - {0}"
    using allocated_inv(2) [OF a(2) h assms(2)] by auto
  then show ?thesis
    using a(1) inv_tls_flush [OF 1(1)] inv_harvest_all [OF 1(1)] inv_percpu_flush [OF 1(1)] inv_set_percpu_freelist [OF 1(1)]
    by (intro conjI) blast+
qed

lemma card_page_slots:
  assumes "sizes_ok st" "c < SLAB_CLASS_COUNT"
  shows "card (page_slots st c p) = nslots st c"
proof -
  have "0 < total_slot_size st c"
    using total_slot_size_bounds(1) [OF assms] by (simp add: sizeof_mp_block_header_def)
  then have "inj_on (slot_at p (total_slot_size st c)) {..<nslots st c}"
    by (auto simp: inj_on_def slot_at_def)
  then show ?thesis
    by (simp add: page_slots_def card_image)
qed

text \<open>When nothing is handed out and no slot waits in a cache or a queue, every page is whole.\<close>

lemma inv_page_whole:
  assumes "slab_inv 0 st D C {}" "\<And>i. outside i \<Longrightarrow> C i = []" "p \<in> set (D k)"
  shows "length (C (PageChain p)) = nslots st (list_class k)"
proof -
  let ?c = "list_class k"
  have c: "?c < SLAB_CLASS_COUNT" and ok: "sizes_ok st"
    using inv_class [OF assms(1,3)] assms(1) by (simp_all add: slab_inv_def)
  have p: "p mod SLAB_PAGE_SIZE = 0" "set (C (PageChain p)) \<subseteq> page_slots st ?c p"
    using inv_page [OF assms(1,3)] by (simp_all add: page_ok_def)
  have "page_slots st ?c p \<subseteq> set (C (PageChain p))"
  proof
    fix s assume s: "s \<in> page_slots st ?c p"
    then have "s \<in> class_slots st D ?c"
      unfolding class_slots_iff using assms(3) by blast
    then obtain i where i: "s \<in> set (C i)"
      using assms(1) c unfolding slab_inv_def by blast
    then obtain q where q: "i = PageChain q"
      using assms(2) [of i] by (cases i) auto
    then obtain l where l: "q \<in> set (D l)"
      using assms(1) i by (fastforce simp: slab_inv_def mchains_def)
    have "s \<in> page_slots st (list_class l) q" "q mod SLAB_PAGE_SIZE = 0"
      using inv_page [OF assms(1) l] i q by (auto simp: page_ok_def)
    then have "q = p"
      using page_slots_page [OF ok c s p(1)] page_slots_page [OF ok inv_class [OF assms(1) l]] by simp
    then show "s \<in> set (C (PageChain p))"
      using i q by simp
  qed
  then have "set (C (PageChain p)) = page_slots st ?c p"
    using p(2) by blast
  then show ?thesis
    using inv_disjoint(3) [OF assms(1), of "PageChain p"] card_page_slots [OF ok c, of p] distinct_card by metis
qed

text \<open>C32 -- When every slot has been freed and the caches and queues have been emptied, no page of any class is left
  on the partial or the full list: every page is back on the empty list, and \<open>empty_page_count\<close> counts them.\<close>

theorem slab_all_freed:
  assumes "slab_history st {}" "\<forall>t. \<not> owned (tls st t)" "percpu_heads st = None"
    "\<forall>c < SLAB_CLASS_COUNT. remote_free_queue st c = 0"
  shows "page_heads st (PartialPages c) = 0 \<and> page_heads st (FullPages c) = 0
    \<and> (\<exists>L. dll (pgn st) (pgp st) (page_heads st (EmptyPages c)) L \<and> empty_page_count st c = length L
         \<and> (\<forall>p \<in> set L. free_count (pages st p) = total_slots (pages st p)))"
proof -
  obtain D C where inv: "slab_inv 0 st D C {}"
    using history_inv [OF assms(1)] by blast
  have mc: "mchains (slot_next st) (chain_head st) {i. chain_active st D i} C"
    and dl: "\<And>k. dll (pgn st) (pgp st) (page_heads st k) (D k)" and ct: "empty_page_count st c = length (D (EmptyPages c))"
    using inv by (simp_all add: slab_inv_def dlls_def counts_ok_def)
  have out: "C i = []" if "outside i" for i
  proof (cases "chain_active st D i")
    case True
    then have "chain_head st i = 0"
      using that assms(2-4) by (cases i) auto
    moreover have "mchain (slot_next st) (chain_head st i) (C i)"
      using mc True by (simp add: mchains_def)
    ultimately show ?thesis
      by (cases "C i") auto
  qed (use mc in \<open>auto simp: mchains_def\<close>)
  note whole = inv_page_whole [OF inv out]
  have "sizes_ok st"
    using inv by (simp add: slab_inv_def)
  then have kind: "kind_ok (length (C (PageChain p))) k (C (PageChain p)) \<and> C (PageChain p) \<noteq> []" if "p \<in> set (D k)" for p k
    using inv_page [OF inv that] whole [OF _ that] total_slot_size_bounds(5) inv_class [OF inv that] by (fastforce simp: page_ok_def)
  have "set (D (PartialPages c)) = {}" "set (D (FullPages c)) = {}"
    by (rule equals0I; use kind in fastforce)+
  then have "D (PartialPages c) = []" "D (FullPages c) = []"
    by auto
  then show ?thesis
    using dl [of "PartialPages c"] dl [of "FullPages c"] dl [of "EmptyPages c"] ct whole inv_page [OF inv] by (auto simp: page_ok_def)
qed

section \<open>A concrete history\<close>

text \<open>A pool whose first class has two slots per page; both are handed out, the first is given back and the
  thread's cache flushed.\<close>

definition two_slot_pool :: slab_pool where
  "two_slot_pool = slab_init \<lparr>use_custom_slab_sizes = True,
       custom_slab_sizes = [30000, 30001, 30002, 30003, 30004, 30005, 30006, 30007, 30008, 30009, 30010, 30011], class_slot_sizes = []\<rparr>
     \<lparr>sflags = MP_FLAG_THREAD_SAFE, slot_sizes = [], page_heads = (\<lambda>_. 0), empty_page_count = (\<lambda>_. 0), remote_free_queue = (\<lambda>_. 0),
       remote_free_pending = False, remote_free_pending_class = (\<lambda>_. False), slab_allocated_bytes = 0, total_pool_size = 0,
       percpu_heads = None, percpu_counts = (\<lambda>_. 0), num_cpus = 0,
       pages = (\<lambda>_. \<lparr>class_index = 0, free_count = 0, page_free_count = 0, total_slots = 0, pg_free = 0, pg_next = 0,
                  pg_prev = 0, page_raw_mem = 0, is_hot = False, idle_since_ts = 0\<rparr>),
       shdr = (\<lambda>_. \<lparr>magic = 0, alloc_type = 0, slab_class = 0, hflags = 0, requested_size = 0, usable_size = 0, raw_base = 0,
                  subpool = 0, alloc_file = 0, alloc_line = 0, alloc_func = 0, backtrace_depth = 0, hprev = 0, hnext = 0\<rparr>),
       smem = (\<lambda>_. 0), tls = (\<lambda>_. \<lparr>owned = False, tslots = (\<lambda>_. 0), tcounts = (\<lambda>_. 0)\<rparr>), maps = [], now_ms = 0\<rparr>"

definition one_taken :: slab_pool where
  "one_taken = fst (the (slab_alloc (two_slot_pool\<lparr>maps := [65536]\<rparr>) 0 100))"

definition two_taken :: slab_pool where
  "two_taken = fst (the (slab_alloc (one_taken\<lparr>maps := []\<rparr>) 0 200))"

definition given_back :: slab_pool where
  "given_back = slab_tier_free one_taken 0 0 65760"

definition flushed :: slab_pool where
  "flushed = the (tls_cache_flush_pool given_back 0)"

lemmas slab_example_defs = two_slot_pool_def one_taken_def two_taken_def given_back_def flushed_def

lemmas slab_eval =
  slab_alloc_def slab_alloc_slot_def slab_init_def init_class_sizes_def slab_take_page_def slab_create_page_def
  page_of_def SLAB_PAGE_SIZE_def total_slot_size_def align_up8_eq sizeof_mp_block_header_def sizeof_mp_slab_page_def
  has_flag_def MP_FLAG_THREAD_SAFE_def MP_FLAG_DEBUG_CANARY_def MP_FLAG_ZERO_ON_ALLOC_def upd_page_def slot_at_def
  link_slot_def set_slot_next_def slab_pop_slot_def slot_next_def push_page_def pop_first_page_def set_pg_next_def
  set_pg_prev_def set_page_head_def add_allocated_def stamp_payload_def MP_MAGIC_HEAD_def ALLOC_TYPE_SLAB_def Let_def
  upt_conv_Cons

lemma sizes_ok_list:
  "sizes_ok st \<longleftrightarrow> length (slot_sizes st) = SLAB_CLASS_COUNT
     \<and> list_all (\<lambda>z. sizeof_mp_block_header + z + 8 \<le> SLAB_PAGE_SIZE - sizeof_mp_slab_page) (slot_sizes st)"
  unfolding sizes_ok_def list_all_length by auto

lemma two_slot_pool_created: "slab_history two_slot_pool {}"
  unfolding two_slot_pool_def
  by (rule slab_history.created)
    (simp_all add: sizes_ok_list slab_init_def init_class_sizes_def SLAB_CLASS_COUNT_def sizeof_mp_block_header_def
      sizeof_mp_slab_page_def SLAB_PAGE_SIZE_def)

lemma two_slot_pool_fresh: "fresh_maps two_slot_pool [65536]"
proof -
  have "L = []" if "dll (pgn two_slot_pool) (pgp two_slot_pool) (page_heads two_slot_pool k) L" for k L
    using that by (cases L) (auto simp: two_slot_pool_def slab_init_def)
  then show ?thesis
    by (force simp: fresh_maps_def listed_page_def)
qed

lemma one_taken_eq: "slab_alloc (two_slot_pool\<lparr>maps := [65536]\<rparr>) 0 100 = Some (one_taken, 65760)"
  by (simp add: slab_example_defs slab_eval cong: let_weak_cong)

lemma two_taken_eq: "slab_alloc (one_taken\<lparr>maps := []\<rparr>) 0 200 = Some (two_taken, 95912)"
  by (simp add: slab_example_defs slab_eval cong: let_weak_cong)

lemma one_taken_history: "slab_history one_taken {65608}"
  using slab_history.allocate_direct [OF two_slot_pool_created _ two_slot_pool_fresh one_taken_eq]
  by (simp add: SLAB_CLASS_COUNT_def sizeof_mp_block_header_def)

lemma two_taken_history: "slab_history two_taken {65608, 95760}"
proof -
  have "fresh_maps one_taken []"
    by (simp add: fresh_maps_def)
  from slab_history.allocate_direct [OF one_taken_history _ this two_taken_eq] show ?thesis
    by (simp add: SLAB_CLASS_COUNT_def sizeof_mp_block_header_def insert_commute)
qed

lemma given_back_history: "slab_history given_back {}"
  using slab_history.release [OF one_taken_history, of 65608 0 0] by (simp add: given_back_def sizeof_mp_block_header_def)

lemmas slab_free_eval =
  slab_tier_free_def place_slot_def tls_cache_validate_owner_def tls_push_def TLS_CACHE_MAX_SLOTS_def tls_cache_flush_pool_def
  SLAB_CLASS_COUNT_def set_owned_def set_tls_slots_def set_tls_counts_def bad_slot_def restamp_def slab_free_def
  slab_free_nolock_def slab_transitions_def sub_allocated_def unlink_page_def

lemma flushed_eq: "tls_cache_flush_pool given_back 0 = Some flushed"
  by (simp add: slab_example_defs slab_eval slab_free_eval tls_flush_loop.simps cong: let_weak_cong)

lemma flushed_history: "slab_history flushed {}"
  by (rule slab_history.flush [OF given_back_history flushed_eq])


theorem slab_no_overlap_witness: "(65608::nat) + slot_bytes two_taken 65608 \<le> 95760 \<or> 95760 + slot_bytes two_taken 95760 \<le> (65608::nat)"
  by (rule slab_no_overlap [OF two_taken_history]) simp_all

theorem slab_never_stuck_witness:
  "\<exists>st' s. slab_tier_alloc True True 4096 (two_slot_pool\<lparr>maps := [65536]\<rparr>) 0 0 0 100
     = Some (st', if s = 0 then 0 else s + sizeof_mp_block_header)"
  using slab_never_stuck [OF two_slot_pool_created _ two_slot_pool_fresh, of 0] by (fastforce simp: SLAB_CLASS_COUNT_def)

theorem slab_all_freed_witness:
  "page_heads flushed (PartialPages 0) = 0 \<and> page_heads flushed (EmptyPages 0) = 65536 \<and> empty_page_count flushed 0 = 1"
proof -
  have "\<forall>t. \<not> owned (tls flushed t)" "percpu_heads flushed = None" "\<forall>c < SLAB_CLASS_COUNT. remote_free_queue flushed c = 0"
    "page_heads flushed (EmptyPages 0) = 65536" "empty_page_count flushed 0 = 1"
    by (simp_all add: slab_example_defs slab_eval slab_free_eval tls_flush_loop.simps cong: let_weak_cong)
  with slab_all_freed [OF flushed_history, of 0] show ?thesis
    by simp
qed

end
