(* ===== verification/Slab_Reclaim.thy ===== *)
theory Slab_Reclaim
  imports Slab_Trace
begin

text \<open>
  Walks over the slab pages: what a pool could give back (\<open>mp_freeable\<close>, \<open>src/src/cmem_config.c\<close>), compaction and
  purging (\<open>src/src/cmem_sys.c\<close>), idle pages (\<open>src/src/cmem_lifecycle.c\<close>), and the hot and cold marks
  (\<open>src/src/cmem_slab.c\<close>).  Unmapped pages are collected in the list \<open>gone\<close>, in the order of the \<open>munmap\<close> calls.
\<close>

section \<open>Walks that only read\<close>

text \<open>\<open>while (curr) { ...; curr = curr->next; }\<close> over a page list.\<close>

partial_function (option) walk_pages :: "slab_pool \<Rightarrow> (mp_slab_page \<Rightarrow> 'a \<Rightarrow> 'a) \<Rightarrow> addr \<Rightarrow> 'a \<Rightarrow> 'a option" where
  "walk_pages st f cur acc =
     (if cur = 0 then Some acc else walk_pages st f (pg_next (pages st cur)) (f (pages st cur) acc))"

fun for_classes :: "(nat \<Rightarrow> 'a \<Rightarrow> 'a option) \<Rightarrow> nat list \<Rightarrow> 'a \<Rightarrow> 'a option" where
  "for_classes g [] x = Some x"
| "for_classes g (c # cs) x = Option.bind (g c x) (for_classes g cs)"

definition mp_freeable :: "slab_pool \<Rightarrow> nat option" where
  "mp_freeable st =
     for_classes (\<lambda>c. walk_pages st (\<lambda>pg n. if free_count pg = total_slots pg then (n + SLAB_PAGE_SIZE) mod 2 ^ 64 else n)
                        (page_heads st (PartialPages c)))
       [0..<SLAB_CLASS_COUNT] 0"

text \<open>Both lists of a class, partial pages first.\<close>

definition walk_both :: "slab_pool \<Rightarrow> (mp_slab_page \<Rightarrow> 'a \<Rightarrow> 'a) \<Rightarrow> nat \<Rightarrow> 'a \<Rightarrow> 'a option" where
  "walk_both st f c acc =
     Option.bind (walk_pages st f (page_heads st (PartialPages c)) acc) (walk_pages st f (page_heads st (FullPages c)))"

definition mp_get_hot_page_count :: "slab_pool \<Rightarrow> nat option" where
  "mp_get_hot_page_count st =
     for_classes (walk_both st (\<lambda>pg n. if is_hot pg then n + 1 else n)) [0..<SLAB_CLASS_COUNT] 0"

definition mp_get_cold_page_count :: "slab_pool \<Rightarrow> nat option" where
  "mp_get_cold_page_count st =
     map_option (\<lambda>(total_n, hot). if hot < total_n then total_n - hot else 0)
       (for_classes (walk_both st (\<lambda>pg (total_n, hot). (total_n + 1, if is_hot pg then hot + 1 else hot)))
          [0..<SLAB_CLASS_COUNT] (0, 0))"

definition mp_separate_hot_cold_pages :: "slab_pool \<Rightarrow> nat option" where
  "mp_separate_hot_cold_pages st =
     (if \<not> has_flag (sflags st) MP_FLAG_HOT_COLD then Some 0
      else for_classes (walk_both st (\<lambda>pg n. if \<not> is_hot pg then n + 1 else n)) [0..<SLAB_CLASS_COUNT] 0)"

section \<open>Hot and cold marks\<close>

text \<open>First page of a list with the given base; null when there is none.\<close>

partial_function (option) find_page :: "slab_pool \<Rightarrow> addr \<Rightarrow> addr \<Rightarrow> addr option" where
  "find_page st raw cur =
     (if cur = 0 \<or> page_raw_mem (pages st cur) = raw then Some cur else find_page st raw (pg_next (pages st cur)))"

fun find_in_lists :: "slab_pool \<Rightarrow> addr \<Rightarrow> page_list list \<Rightarrow> addr option" where
  "find_in_lists st raw [] = Some 0"
| "find_in_lists st raw (k # ks) =
     Option.bind (find_page st raw (page_heads st k)) (\<lambda>p. if p \<noteq> 0 then Some p else find_in_lists st raw ks)"

definition mark_page :: "bool \<Rightarrow> slab_pool \<Rightarrow> addr \<Rightarrow> (slab_pool \<times> bool) option" where
  "mark_page hot st raw =
     (if raw = 0 then Some (st, False)
      else map_option (\<lambda>p. if p = 0 then (st, False) else (upd_page p (is_hot_update (\<lambda>_. hot)) st, True))
             (find_in_lists st raw (concat (map (\<lambda>c. [PartialPages c, FullPages c]) [0..<SLAB_CLASS_COUNT]))))"

definition mp_mark_page_hot :: "slab_pool \<Rightarrow> addr \<Rightarrow> (slab_pool \<times> bool) option" where
  "mp_mark_page_hot = mark_page True"

definition mp_mark_page_cold :: "slab_pool \<Rightarrow> addr \<Rightarrow> (slab_pool \<times> bool) option" where
  "mp_mark_page_cold = mark_page False"

section \<open>Walks that unmap\<close>

text \<open>The idle-reclaim settings of a pool; \<open>stats_total_pool_size\<close> is the counter that compaction adjusts.\<close>

record reclaim_config =
  idle_reclaim_enabled :: bool
  idle_reclaim_timeout_ms :: nat
  idle_reclaim_min_pages :: nat
  stats_total_pool_size :: nat

definition mp_set_idle_page_reclaim :: "reclaim_config \<Rightarrow> bool \<Rightarrow> nat \<Rightarrow> nat \<Rightarrow> reclaim_config" where
  "mp_set_idle_page_reclaim cfg enable timeout_ms min_pages =
     cfg\<lparr>idle_reclaim_enabled := enable, idle_reclaim_timeout_ms := timeout_ms, idle_reclaim_min_pages := min_pages\<rparr>"

definition idle_long :: "reclaim_config \<Rightarrow> nat \<Rightarrow> mp_slab_page \<Rightarrow> bool" where
  "idle_long cfg now pg \<longleftrightarrow> idle_reclaim_enabled cfg \<and> 0 < idle_since_ts pg
     \<and> idle_reclaim_timeout_ms cfg \<le> (now + 2 ^ 64 - idle_since_ts pg) mod 2 ^ 64"

definition should_free :: "reclaim_config \<Rightarrow> nat \<Rightarrow> mp_slab_page \<Rightarrow> bool" where
  "should_free cfg now pg \<longleftrightarrow> free_count pg = total_slots pg \<or> idle_long cfg now pg"

text \<open>A reclaim in progress.\<close>

record reclaim =
  rpool :: slab_pool
  rcfg :: reclaim_config
  gone :: "addr list"
  freed_bytes :: nat
  idle_count :: nat

definition start_reclaim :: "slab_pool \<Rightarrow> reclaim_config \<Rightarrow> reclaim" where
  "start_reclaim st cfg = \<lparr>rpool = st, rcfg = cfg, gone = [], freed_bytes = 0, idle_count = 0\<rparr>"

definition unmap_page :: "addr \<Rightarrow> reclaim \<Rightarrow> reclaim" where
  "unmap_page cur r =
     r\<lparr>gone := gone r @ [page_raw_mem (pages (rpool r) cur)], freed_bytes := (freed_bytes r + SLAB_PAGE_SIZE) mod 2 ^ 64\<rparr>"

definition drop_stats :: "reclaim \<Rightarrow> reclaim" where
  "drop_stats r =
     (if SLAB_PAGE_SIZE \<le> stats_total_pool_size (rcfg r)
      then r\<lparr>rcfg := (rcfg r)\<lparr>stats_total_pool_size := stats_total_pool_size (rcfg r) - SLAB_PAGE_SIZE\<rparr>\<rparr> else r)"

definition drop_total :: "reclaim \<Rightarrow> reclaim" where
  "drop_total r =
     (if SLAB_PAGE_SIZE \<le> total_pool_size (rpool r)
      then r\<lparr>rpool := (rpool r)\<lparr>total_pool_size := total_pool_size (rpool r) - SLAB_PAGE_SIZE\<rparr>\<rparr> else r)"

definition on_rpool :: "(slab_pool \<Rightarrow> slab_pool) \<Rightarrow> reclaim \<Rightarrow> reclaim" where
  "on_rpool f r = r\<lparr>rpool := f (rpool r)\<rparr>"

partial_function (option) compact_walk :: "nat \<Rightarrow> nat \<Rightarrow> addr \<Rightarrow> reclaim \<Rightarrow> reclaim option" where
  "compact_walk now c cur r =
     (if cur = 0 then Some r
      else let pg = pages (rpool r) cur
           in compact_walk now c (pg_next pg)
                (if should_free (rcfg r) now pg
                 then drop_stats (unmap_page cur (on_rpool (unlink_page (PartialPages c) cur) r)) else r))"

definition mp_compact :: "slab_pool \<Rightarrow> reclaim_config \<Rightarrow> reclaim option" where
  "mp_compact st cfg =
     (if has_flag (sflags st) MP_FLAG_STATIC_BUFFER then Some (start_reclaim st cfg)
      else for_classes (\<lambda>c r. compact_walk (now_ms st) c (page_heads (rpool r) (PartialPages c)) r)
             [0..<SLAB_CLASS_COUNT] (start_reclaim st cfg))"

text \<open>The \<open>madvise\<close> calls of a purge, as address and length, and the bytes counted; \<open>psz\<close> is the system page size.\<close>

definition purge_page :: "nat \<Rightarrow> mp_slab_page \<Rightarrow> (addr \<times> nat) list \<times> nat \<Rightarrow> (addr \<times> nat) list \<times> nat" where
  "purge_page psz pg = (\<lambda>(calls, purged).
     if free_count pg = total_slots pg \<and> page_raw_mem pg \<noteq> 0
     then let aligned_start = (page_raw_mem pg + sizeof_mp_slab_page + psz - 1) mod 2 ^ 64 AND not64 (psz - 1);
              aligned_end = (page_raw_mem pg + SLAB_PAGE_SIZE) mod 2 ^ 64 AND not64 (psz - 1)
          in if aligned_start < aligned_end
             then (calls @ [(aligned_start, aligned_end - aligned_start)], (purged + (aligned_end - aligned_start)) mod 2 ^ 64)
             else (calls, purged)
     else (calls, purged))"

definition mp_purge_lazy :: "int \<Rightarrow> slab_pool \<Rightarrow> ((addr \<times> nat) list \<times> nat) option" where
  "mp_purge_lazy page_sz st =
     (if has_flag (sflags st) MP_FLAG_STATIC_BUFFER then Some ([], 0)
      else let psz = nat (if page_sz \<le> 0 then 4096 else page_sz)
           in for_classes (\<lambda>c. walk_pages st (purge_page psz) (page_heads st (PartialPages c))) [0..<SLAB_CLASS_COUNT] ([], 0))"

text \<open>Idle reclaim: all empty pages of a class, then the partial pages that qualify.\<close>

partial_function (option) reclaim_empty :: "nat \<Rightarrow> reclaim \<Rightarrow> reclaim option" where
  "reclaim_empty c r =
     (let cur = page_heads (rpool r) (EmptyPages c)
      in if cur = 0 then Some r
         else reclaim_empty c (drop_total (unmap_page cur (on_rpool (\<lambda>st.
                let st = pop_first_page (EmptyPages c) cur st
                in if 0 < empty_page_count st c
                   then st\<lparr>empty_page_count := (empty_page_count st)(c := empty_page_count st c - 1)\<rparr> else st) r))))"

partial_function (option) reclaim_partial :: "nat \<Rightarrow> nat \<Rightarrow> addr \<Rightarrow> reclaim \<Rightarrow> reclaim option" where
  "reclaim_partial now c cur r =
     (if cur = 0 then Some r
      else let pg = pages (rpool r) cur
           in reclaim_partial now c (pg_next pg)
                (if should_free (rcfg r) now pg
                 then let r = r\<lparr>idle_count := idle_count r + 1\<rparr>
                      in if idle_count r < idle_reclaim_min_pages (rcfg r) then r
                         else drop_total (unmap_page cur (on_rpool (unlink_page (PartialPages c) cur) r))
                 else r))"

definition reclaim_class :: "nat \<Rightarrow> nat \<Rightarrow> reclaim \<Rightarrow> reclaim option" where
  "reclaim_class now c r =
     Option.bind (reclaim_empty c r) (\<lambda>r. reclaim_partial now c (page_heads (rpool r) (PartialPages c)) r)"

text \<open>The caches of the calling thread \<open>t\<close> and of all CPUs are flushed first.\<close>

definition mp_reclaim_idle_pages :: "nat \<Rightarrow> slab_pool \<Rightarrow> reclaim_config \<Rightarrow> reclaim option" where
  "mp_reclaim_idle_pages t st cfg =
     (if has_flag (sflags st) MP_FLAG_STATIC_BUFFER then Some (start_reclaim st cfg)
      else Option.bind (tls_cache_flush_pool st t) (\<lambda>st.
           Option.bind (percpu_flush st) (\<lambda>st.
             for_classes (reclaim_class (now_ms st)) [0..<SLAB_CLASS_COUNT] (start_reclaim st cfg))))"

definition mp_get_idle_page_count :: "nat \<Rightarrow> slab_pool \<Rightarrow> reclaim_config \<Rightarrow> (slab_pool \<times> nat) option" where
  "mp_get_idle_page_count t st cfg =
     Option.bind (tls_cache_flush_pool st t) (\<lambda>st.
     Option.bind (percpu_flush st) (\<lambda>st.
       map_option (Pair st)
         (for_classes (\<lambda>c n. walk_pages st (\<lambda>pg n. if should_free cfg (now_ms st) pg then n + 1 else n)
                              (page_heads st (PartialPages c)) (n + empty_page_count st c))
            [0..<SLAB_CLASS_COUNT] 0)))"

section \<open>Walks over sound lists end\<close>

lemma walk_pages_dll:
  "dllseg (pgn st) (pgp st) q p L 0 \<Longrightarrow> walk_pages st f p acc = Some (fold (\<lambda>x. f (pages st x)) L acc)"
proof (induction L arbitrary: p q acc)
  case (Cons x L)
  then show ?case
    using Cons.IH [of x "pgn st x" "f (pages st x) acc"] by (subst walk_pages.simps) auto
qed (subst walk_pages.simps, simp)

lemma for_classes_same: "(\<And>c. c \<in> set cs \<Longrightarrow> g c x = Some x) \<Longrightarrow> for_classes g cs x = Some x"
  by (induction cs) simp_all

lemma inv_dll: "slab_inv x st D C H \<Longrightarrow> dll (pgn st) (pgp st) (page_heads st k) (D k)"
  by (simp add: slab_inv_def dlls_def)

lemma inv_partial_not_whole:
  assumes "slab_inv 0 st D C H" "p \<in> set (D (PartialPages c))"
  shows "free_count (pages st p) \<noteq> total_slots (pages st p)"
  using inv_page [OF assms] by (auto simp: page_ok_def)

lemma compact_walk_idle:
  assumes "dllseg (pgn (rpool r)) (pgp (rpool r)) q p L 0" "\<And>x. x \<in> set L \<Longrightarrow> \<not> should_free (rcfg r) now (pages (rpool r) x)"
  shows "compact_walk now c p r = Some r" "reclaim_partial now c p r = Some r"
proof -
  have "compact_walk now c p r = Some r \<and> reclaim_partial now c p r = Some r"
    using assms
  proof (induction L arbitrary: p q)
    case (Cons x L)
    then have "compact_walk now c (pgn (rpool r) x) r = Some r \<and> reclaim_partial now c (pgn (rpool r) x) r = Some r"
      using Cons.IH [of x "pgn (rpool r) x"] by simp
    then show ?case
      using Cons.prems by (subst compact_walk.simps, subst reclaim_partial.simps) (auto simp: Let_def)
  qed (subst compact_walk.simps, subst reclaim_partial.simps, simp)
  then show "compact_walk now c p r = Some r" "reclaim_partial now c p r = Some r"
    by simp_all
qed

lemma fold_same: "(\<And>y. y \<in> set ys \<Longrightarrow> f y x = x) \<Longrightarrow> fold f ys x = x"
  by (induction ys) simp_all

lemma inv_walk_partial:
  assumes "slab_inv 0 st D C H" "\<And>pg. free_count pg \<noteq> total_slots pg \<Longrightarrow> f pg x = x"
  shows "walk_pages st f (page_heads st (PartialPages c)) x = Some x"
proof -
  have "fold (\<lambda>y. f (pages st y)) (D (PartialPages c)) x = x"
    by (rule fold_same) (simp add: assms(2) inv_partial_not_whole [OF assms(1)])
  then show ?thesis
    using walk_pages_dll [OF inv_dll [OF assms(1), of "PartialPages c"], of f x] by simp
qed

section \<open>Giving back an empty page\<close>

lemma inv_drop_slots:
  assumes inv: "slab_inv 0 st D C H" and D: "D (EmptyPages c) = p # ps"
  defines "D' \<equiv> D(EmptyPages c := ps)"
  shows "set (C (PageChain p)) = page_slots st c p"
    and "s \<in> class_slots st D d \<Longrightarrow> s \<notin> page_slots st c p \<Longrightarrow> s \<in> class_slots st D' d"
    and "s \<in> class_slots st D' d \<Longrightarrow> s \<in> class_slots st D d \<and> s \<notin> page_slots st c p"
    and "(\<exists>k. q \<in> set (D' k)) \<longleftrightarrow> (\<exists>k. q \<in> set (D k)) \<and> q \<noteq> p"
proof -
  have p: "p \<in> set (D (EmptyPages c))"
    using D by simp
  have ok: "page_ok 0 st (EmptyPages c) p (C (PageChain p))" and c: "c < SLAB_CLASS_COUNT"
    using inv_page [OF inv p] inv_class [OF inv p] by simp_all
  show "set (C (PageChain p)) = page_slots st c p"
    using inv_chain_length(2) [OF inv p] ok by (auto simp: page_ok_def)
  have dist: "distinct (D (EmptyPages c))"
    using dll_distinct [OF inv_dll [OF inv]] .
  then have out: "p \<notin> set ps"
    using D by simp
  have mem: "q \<in> set (D' k) \<longleftrightarrow> q \<in> set (D k) \<and> q \<noteq> p" for q k
  proof (cases "k = EmptyPages c")
    case True
    then show ?thesis
      using out D by (auto simp: D'_def)
  next
    case False
    then have "p \<notin> set (D k)"
      using inv_one_list [OF inv p, of k] by blast
    then show ?thesis
      using False by (auto simp: D'_def)
  qed
  then show "(\<exists>k. q \<in> set (D' k)) \<longleftrightarrow> (\<exists>k. q \<in> set (D k)) \<and> q \<noteq> p"
    by blast
  have page: "s \<in> page_slots st (list_class k) q \<Longrightarrow> q \<in> set (D k) \<Longrightarrow> page_of s = q" for s k q
    using page_slots_page [OF inv_sizes [OF inv] inv_class [OF inv]] inv_page [OF inv] by (simp add: page_ok_def)
  show "s \<in> class_slots st D' d" if s: "s \<in> class_slots st D d" "s \<notin> page_slots st c p"
  proof -
    obtain k q where k: "list_class k = d" "q \<in> set (D k)" "s \<in> page_slots st d q"
      using s(1) unfolding class_slots_iff by blast
    have "q \<noteq> p"
      using inv_one_list [OF inv p, of k] k s(2) by auto
    then show ?thesis
      unfolding class_slots_iff mem using k by blast
  qed
  show "s \<in> class_slots st D d \<and> s \<notin> page_slots st c p" if s: "s \<in> class_slots st D' d"
  proof -
    obtain k q where k: "list_class k = d" "q \<in> set (D k)" "q \<noteq> p" "s \<in> page_slots st d q"
      using s unfolding class_slots_iff mem by blast
    then show ?thesis
      unfolding class_slots_iff using page [of s k q] page [of s "EmptyPages c" p] p by auto
  qed
qed

definition dropped :: "nat \<Rightarrow> addr \<Rightarrow> nat \<Rightarrow> slab_pool \<Rightarrow> slab_pool" where
  "dropped c p n st =
     (unlink_page (EmptyPages c) p st)\<lparr>empty_page_count := (empty_page_count st)(c := empty_page_count st c - 1), total_pool_size := n\<rparr>"

lemma dropped_simps [simp]:
  "sflags (dropped c p n st) = sflags st" "slot_sizes (dropped c p n st) = slot_sizes st" "shdr (dropped c p n st) = shdr st"
  "remote_free_queue (dropped c p n st) = remote_free_queue st" "percpu_heads (dropped c p n st) = percpu_heads st"
  "percpu_counts (dropped c p n st) = percpu_counts st" "num_cpus (dropped c p n st) = num_cpus st" "tls (dropped c p n st) = tls st"
  "now_ms (dropped c p n st) = now_ms st"
  "class_index (pages (dropped c p n st) q) = class_index (pages st q)" "free_count (pages (dropped c p n st) q) = free_count (pages st q)"
  "total_slots (pages (dropped c p n st) q) = total_slots (pages st q)" "pg_free (pages (dropped c p n st) q) = pg_free (pages st q)"
  "page_raw_mem (pages (dropped c p n st) q) = page_raw_mem (pages st q)"
  "idle_since_ts (pages (dropped c p n st) q) = idle_since_ts (pages st q)"
  using links_onlyD [OF links_only_ops(2), of "EmptyPages c" p st] by (simp_all add: dropped_def)

lemma inv_drop_empty:
  fixes n :: nat
  assumes inv: "slab_inv 0 st D C H" and D: "D (EmptyPages c) = p # ps"
  defines "D' \<equiv> D(EmptyPages c := ps)" and "st' \<equiv> dropped c p n st"
  shows "slab_inv 0 st' D' (C(PageChain p := [])) H" "class_slots st' = class_slots st"
proof -
  let ?C = "C(PageChain p := [])"
  have g: "sizes_ok st' = sizes_ok st" "nslots st' = nslots st" "page_slots st' = page_slots st" "class_slots st' = class_slots st"
    using geometry_cong [of st' st] by (simp_all add: st'_def)
  then show "class_slots st' = class_slots st"
    by simp
  note sl = inv_drop_slots [OF inv D, folded D'_def]
  have p: "p \<in> set (D (EmptyPages c))"
    using D by simp
  have chain: "set (C i) \<inter> page_slots st c p = {}" if "i \<noteq> PageChain p" for i
    using inv_disjoint(1) [OF inv that] sl(1) by simp
  have held: "H \<inter> page_slots st c p = {}"
    using inv_disjoint(2) [OF inv, of "PageChain p"] sl(1) by blast
  have "dlls (pgn st') (pgp st') (page_heads st') D'"
    using unlink_page_lists [of st D p "EmptyPages c"] inv p D by (simp add: slab_inv_def st'_def dropped_def D'_def)
  moreover have "\<forall>k. SLAB_CLASS_COUNT \<le> list_class k \<longrightarrow> D' k = []"
    using inv p inv_class [OF inv p] by (auto simp: slab_inv_def D'_def)
  moreover have "page_ok 0 st' k q (?C (PageChain q))" if "q \<in> set (D' k)" for k q
  proof -
    have "q \<in> set (D k)" "q \<noteq> p"
      using that sl(4) [of q] D by (auto simp: D'_def split: if_splits)
    then show ?thesis
      using inv_page [OF inv] g by (simp add: page_ok_def st'_def)
  qed
  moreover have "mchains (slot_next st') (chain_head st') {i. chain_active st' D' i} ?C"
  proof -
    have hd: "chain_head st' i = chain_head st i" for i
      by (cases i) (simp_all add: st'_def)
    have "chain_active st' D' i \<longleftrightarrow> chain_active st D i \<and> i \<noteq> PageChain p" for i
      using sl(4) by (cases i) (auto simp: st'_def)
    then have "{i. chain_active st' D' i} = {i. chain_active st D i} - {PageChain p}"
      by blast
    moreover have "?C = (\<lambda>i. if i \<in> {PageChain p} then [] else C i)"
      by auto
    moreover have "mchains (slot_next st) (chain_head st) {i. chain_active st D i} C"
      using inv by (simp add: slab_inv_def)
    moreover have "slot_next st' = slot_next st" "chain_head st' = chain_head st"
      using hd by (auto intro!: slot_next_cong simp: st'_def)
    ultimately show ?thesis
      using mchains_drop by metis
  qed
  moreover have "set (?C i) \<subseteq> chain_slots_of st' D' i" for i
    using inv_chain_of [OF inv, of i] chain [of i] sl(2) g(4) by (cases i) auto
  moreover have "set (?C i) \<inter> H = {}" for i
    using inv_disjoint(2) [OF inv, of i] by simp
  moreover have "class_slots st' D' d \<subseteq> H \<union> (\<Union>i. set (?C i))" if "d < SLAB_CLASS_COUNT" for d
  proof
    fix s assume "s \<in> class_slots st' D' d"
    then have "s \<in> class_slots st D d" "s \<notin> set (C (PageChain p))"
      using sl(1,3) g(4) by auto
    moreover from this have "s \<in> H \<or> (\<exists>i. s \<in> set (C i))"
      using inv that unfolding slab_inv_def by blast
    ultimately show "s \<in> H \<union> (\<Union>i. set (?C i))"
      by (metis UN_I UNIV_I UnI1 UnI2 fun_upd_other)
  qed
  moreover have "H \<subseteq> (\<Union>d < SLAB_CLASS_COUNT. class_slots st' D' d)"
  proof
    fix s assume s: "s \<in> H"
    then obtain d where "d < SLAB_CLASS_COUNT" "s \<in> class_slots st D d"
      using inv unfolding slab_inv_def by blast
    moreover have "s \<notin> page_slots st c p"
      using held s by blast
    ultimately show "s \<in> (\<Union>d < SLAB_CLASS_COUNT. class_slots st' D' d)"
      using sl(2) [of s d] unfolding g(4) by blast
  qed
  moreover have "counts_ok st' D' ?C"
  proof -
    have ct: "counts_ok st D C"
      using inv by (simp add: slab_inv_def)
    have "empty_page_count st' e = length (D' (EmptyPages e))" for e
      using ct D by (auto simp: counts_ok_def st'_def dropped_def D'_def)
    then show ?thesis
      using ct by (auto simp: counts_ok_def st'_def)
  qed
  ultimately show "slab_inv 0 st' D' ?C H"
    using inv g(1) unfolding slab_inv_def by blast
qed

text \<open>What reclaiming keeps: the slots in use stay on pages of the pool, and no page of the pool is unmapped.\<close>

definition reclaimed :: "reclaim \<Rightarrow> (page_list \<Rightarrow> addr list) \<Rightarrow> reclaim \<Rightarrow> (page_list \<Rightarrow> addr list) \<Rightarrow> bool" where
  "reclaimed r D r' D' \<longleftrightarrow>
     rcfg r' = rcfg r \<and> shdr (rpool r') = shdr (rpool r) \<and> (\<forall>k. set (D' k) \<subseteq> set (D k))
     \<and> (\<exists>ps. gone r' = gone r @ ps \<and> (\<forall>p \<in> set ps. (\<exists>k. p \<in> set (D k)) \<and> (\<forall>k. p \<notin> set (D' k))))"

lemma reclaimed_refl: "reclaimed r D r D"
  by (simp add: reclaimed_def)

lemma reclaimed_trans:
  assumes "reclaimed r D r1 D1" "reclaimed r1 D1 r2 D2"
  shows "reclaimed r D r2 D2"
proof -
  obtain ps qs where ps: "gone r1 = gone r @ ps" "\<forall>p \<in> set ps. (\<exists>k. p \<in> set (D k)) \<and> (\<forall>k. p \<notin> set (D1 k))"
    and qs: "gone r2 = gone r1 @ qs" "\<forall>p \<in> set qs. (\<exists>k. p \<in> set (D1 k)) \<and> (\<forall>k. p \<notin> set (D2 k))"
    using assms unfolding reclaimed_def by blast
  have sub: "\<forall>k. set (D1 k) \<subseteq> set (D k)" "\<forall>k. set (D2 k) \<subseteq> set (D1 k)"
    using assms by (auto simp: reclaimed_def)
  have "\<forall>p \<in> set (ps @ qs). (\<exists>k. p \<in> set (D k)) \<and> (\<forall>k. p \<notin> set (D2 k))"
    using ps(2) qs(2) sub by (metis UnE set_append subsetD)
  moreover have "gone r2 = gone r @ (ps @ qs)"
    using ps(1) qs(1) by simp
  moreover have "\<forall>k. set (D2 k) \<subseteq> set (D k)"
    using sub by blast
  ultimately show ?thesis
    using assms unfolding reclaimed_def by auto
qed

lemma drop_step:
  assumes inv: "slab_inv 0 (rpool r) D C H" and D: "D (EmptyPages c) = p # ps"
  shows "\<exists>n. drop_total (unmap_page p (on_rpool (\<lambda>st.
            let st = pop_first_page (EmptyPages c) p st
            in if 0 < empty_page_count st c
               then st\<lparr>empty_page_count := (empty_page_count st)(c := empty_page_count st c - 1)\<rparr> else st) r))
         = r\<lparr>rpool := dropped c p n (rpool r), gone := gone r @ [p], freed_bytes := (freed_bytes r + SLAB_PAGE_SIZE) mod 2 ^ 64\<rparr>"
proof -
  have p: "p \<in> set (D (EmptyPages c))"
    using D by simp
  have "dll (pgn (rpool r)) (pgp (rpool r)) (page_heads (rpool r) (EmptyPages c)) (p # ps)"
    using inv_dll [OF inv, of "EmptyPages c"] D by simp
  then have pop: "pop_first_page (EmptyPages c) p (rpool r) = unlink_page (EmptyPages c) p (rpool r)"
    using pop_first_is_unlink by simp
  have cnt: "empty_page_count (unlink_page (EmptyPages c) p (rpool r)) = empty_page_count (rpool r)" "0 < empty_page_count (rpool r) c"
    using links_onlyD(3) [OF links_only_ops(2)] inv D by (simp_all add: slab_inv_def counts_ok_def)
  have raw: "page_raw_mem (pages (unlink_page (EmptyPages c) p (rpool r)) p) = p"
    and raw': "page_raw_mem (pages (rpool r) p) = p"
    using links_onlyD(21) [OF links_only_ops(2)] inv_page [OF inv p] by (simp_all add: page_ok_def)
  have tot: "total_pool_size (unlink_page (EmptyPages c) p (rpool r)) = total_pool_size (rpool r)"
    using links_onlyD(8) [OF links_only_ops(2)] by simp
  define st1 where "st1 = (unlink_page (EmptyPages c) p (rpool r))\<lparr>empty_page_count := (empty_page_count (rpool r))(c := empty_page_count (rpool r) c - 1)\<rparr>"
  define n where "n = (if SLAB_PAGE_SIZE \<le> total_pool_size st1 then total_pool_size st1 - SLAB_PAGE_SIZE else total_pool_size st1)"
  have "st1\<lparr>total_pool_size := total_pool_size st1\<rparr> = st1"
    by simp
  then have "drop_total (unmap_page p (r\<lparr>rpool := st1\<rparr>))
      = r\<lparr>rpool := st1\<lparr>total_pool_size := n\<rparr>, gone := gone r @ [p], freed_bytes := (freed_bytes r + SLAB_PAGE_SIZE) mod 2 ^ 64\<rparr>"
    by (simp add: unmap_page_def drop_total_def n_def) (simp add: st1_def raw raw')
  moreover have "st1\<lparr>total_pool_size := n\<rparr> = dropped c p n (rpool r)"
    by (simp add: st1_def dropped_def)
  ultimately show ?thesis
    by (intro exI [of _ n]) (simp add: on_rpool_def Let_def pop cnt st1_def)
qed

lemma inv_reclaim_empty:
  assumes "slab_inv 0 (rpool r) D C H"
  shows "\<exists>r' C'. reclaim_empty c r = Some r' \<and> slab_inv 0 (rpool r') (D(EmptyPages c := [])) C' H
     \<and> reclaimed r D r' (D(EmptyPages c := [])) \<and> class_slots (rpool r') = class_slots (rpool r)"
  using assms
proof (induction "D (EmptyPages c)" arbitrary: D r C)
  case Nil
  then have "page_heads (rpool r) (EmptyPages c) = 0" "D(EmptyPages c := []) = D"
    using inv_dll [OF Nil.prems, of "EmptyPages c"] by auto
  then show ?case
    using Nil.prems reclaimed_refl by (subst reclaim_empty.simps) auto
next
  case (Cons p ps)
  have D: "D (EmptyPages c) = p # ps"
    using Cons.hyps by simp
  have p: "p \<in> set (D (EmptyPages c))" and head: "page_heads (rpool r) (EmptyPages c) = p"
    using D inv_dll [OF Cons.prems, of "EmptyPages c"] by auto
  have p0: "p \<noteq> 0"
    using inv_page [OF Cons.prems p] by (simp add: page_ok_def)
  note step = drop_step [OF Cons.prems D]
  obtain n where n: "reclaim_empty c r = reclaim_empty c
      (r\<lparr>rpool := dropped c p n (rpool r), gone := gone r @ [p], freed_bytes := (freed_bytes r + SLAB_PAGE_SIZE) mod 2 ^ 64\<rparr>)"
    using step p0 head reclaim_empty.simps [of c r] unfolding Let_def by auto
  define r1 where "r1 = r\<lparr>rpool := dropped c p n (rpool r), gone := gone r @ [p],
      freed_bytes := (freed_bytes r + SLAB_PAGE_SIZE) mod 2 ^ 64\<rparr>"
  let ?D = "D(EmptyPages c := ps)"
  have 1: "slab_inv 0 (rpool r1) ?D (C(PageChain p := [])) H" "class_slots (rpool r1) = class_slots (rpool r)"
    using inv_drop_empty [OF Cons.prems D, of n] by (simp_all add: r1_def)
  have "\<forall>k. p \<notin> set (?D k)"
    using inv_drop_slots(4) [OF Cons.prems D, of p] by blast
  moreover have "\<exists>k. p \<in> set (D k)"
    using p by blast
  ultimately have "reclaimed r D r1 ?D"
    using D by (auto simp: reclaimed_def r1_def)
  moreover obtain r' C' where 2: "reclaim_empty c r1 = Some r'" "slab_inv 0 (rpool r') (?D(EmptyPages c := [])) C' H"
    "reclaimed r1 ?D r' (?D(EmptyPages c := []))" "class_slots (rpool r') = class_slots (rpool r1)"
    using Cons.hyps(1) [of ?D r1, OF _ 1(1)] by auto
  ultimately have "reclaimed r D r' (D(EmptyPages c := []))"
    using reclaimed_trans by fastforce
  then show ?case
    using 2 n 1(2) by (auto simp: r1_def)
qed

lemma inv_reclaim_class:
  assumes "slab_inv 0 (rpool r) D C H" "\<not> idle_reclaim_enabled (rcfg r)"
  shows "\<exists>r' C'. reclaim_class now c r = Some r' \<and> slab_inv 0 (rpool r') (D(EmptyPages c := [])) C' H
     \<and> reclaimed r D r' (D(EmptyPages c := []))"
proof -
  obtain r' C' where 1: "reclaim_empty c r = Some r'" "slab_inv 0 (rpool r') (D(EmptyPages c := [])) C' H"
    "reclaimed r D r' (D(EmptyPages c := []))"
    using inv_reclaim_empty [OF assms(1)] by blast
  have "reclaim_partial now c (page_heads (rpool r') (PartialPages c)) r' = Some r'"
  proof (rule compact_walk_idle(2) [OF inv_dll [OF 1(2)]])
    fix x assume "x \<in> set ((D(EmptyPages c := [])) (PartialPages c))"
    from inv_partial_not_whole [OF 1(2) this] show "\<not> should_free (rcfg r') now (pages (rpool r') x)"
      using assms(2) 1(3) by (simp add: should_free_def idle_long_def reclaimed_def)
  qed
  then show ?thesis
    using 1 by (auto simp: reclaim_class_def)
qed

lemma inv_reclaim_classes:
  assumes "slab_inv 0 (rpool r) D C H" "\<not> idle_reclaim_enabled (rcfg r)"
  shows "\<exists>r' D' C'. for_classes (reclaim_class now) cs r = Some r' \<and> slab_inv 0 (rpool r') D' C' H
     \<and> reclaimed r D r' D' \<and> (\<forall>c \<in> set cs. D' (EmptyPages c) = [])"
  using assms
proof (induction cs arbitrary: r D C)
  case Nil
  then show ?case
    using reclaimed_refl by fastforce
next
  case (Cons c cs)
  obtain r1 C1 where 1: "reclaim_class now c r = Some r1" "slab_inv 0 (rpool r1) (D(EmptyPages c := [])) C1 H"
    "reclaimed r D r1 (D(EmptyPages c := []))"
    using inv_reclaim_class [OF Cons.prems] by blast
  have "\<not> idle_reclaim_enabled (rcfg r1)"
    using 1(3) Cons.prems(2) by (simp add: reclaimed_def)
  then obtain r' D' C' where 2: "for_classes (reclaim_class now) cs r1 = Some r'" "slab_inv 0 (rpool r') D' C' H"
    "reclaimed r1 (D(EmptyPages c := [])) r' D'" "\<forall>c \<in> set cs. D' (EmptyPages c) = []"
    using Cons.IH [OF 1(2)] by blast
  have "set (D' (EmptyPages c)) \<subseteq> set ((D(EmptyPages c := [])) (EmptyPages c))"
    using 2(3) unfolding reclaimed_def by blast
  then have "D' (EmptyPages c) = []"
    by simp
  then show ?case
    using 1(1) 2 reclaimed_trans [OF 1(3) 2(3)] by auto
qed

section \<open>Properties\<close>

text \<open>In no reachable state does a partial page have all its slots free: such a page is on the empty list.  The
  scans of the partial lists therefore never find one: \<open>mp_freeable\<close> answers 0, \<open>mp_purge_lazy\<close> advises nothing, and
  without idle reclaim \<open>mp_compact\<close> gives nothing back, whatever empty pages the pool keeps.\<close>

theorem compact_frees_nothing:
  assumes "slab_history st H" "\<not> idle_reclaim_enabled cfg"
  shows "mp_freeable st = Some 0 \<and> mp_purge_lazy page_sz st = Some ([], 0) \<and> mp_compact st cfg = Some (start_reclaim st cfg)"
proof -
  obtain D C where inv: "slab_inv 0 st D C H"
    using history_inv [OF assms(1)] by blast
  have "mp_freeable st = Some 0"
    unfolding mp_freeable_def by (rule for_classes_same) (rule inv_walk_partial [OF inv], simp)
  moreover have "mp_purge_lazy page_sz st = Some ([], 0)"
  proof -
    have "walk_pages st (purge_page n) (page_heads st (PartialPages c)) ([], 0) = Some ([], 0)" for n c
      by (rule inv_walk_partial [OF inv]) (simp add: purge_page_def)
    then show ?thesis
      by (simp add: mp_purge_lazy_def Let_def for_classes_same)
  qed
  moreover have "compact_walk (now_ms st) c (page_heads (rpool (start_reclaim st cfg)) (PartialPages c)) (start_reclaim st cfg)
      = Some (start_reclaim st cfg)" for c
  proof (rule compact_walk_idle(1))
    show "dll (pgn (rpool (start_reclaim st cfg))) (pgp (rpool (start_reclaim st cfg)))
        (page_heads (rpool (start_reclaim st cfg)) (PartialPages c)) (D (PartialPages c))"
      using inv_dll [OF inv] by (simp add: start_reclaim_def)
    show "\<not> should_free (rcfg (start_reclaim st cfg)) (now_ms st) (pages (rpool (start_reclaim st cfg)) x)" if "x \<in> set (D (PartialPages c))" for x
      using inv_partial_not_whole [OF inv that] assms(2) by (simp add: should_free_def idle_long_def start_reclaim_def)
  qed
  then have "mp_compact st cfg = Some (start_reclaim st cfg)"
    unfolding mp_compact_def by (simp add: for_classes_same)
  ultimately show ?thesis
    by simp
qed

text \<open>C33 -- Without idle reclaim, \<open>mp_reclaim_idle_pages\<close> returns, gives back every page that is on an empty list once the
  caches are flushed, unmaps no page that holds a slot in use, and leaves a sound pool.\<close>

theorem reclaim_idle_safe:
  assumes "slab_history st H" "\<not> has_flag (sflags st) MP_FLAG_STATIC_BUFFER" "\<not> idle_reclaim_enabled cfg"
  shows "\<exists>r D C. mp_reclaim_idle_pages t st cfg = Some r \<and> slab_inv 0 (rpool r) D C H
    \<and> (\<forall>c. page_heads (rpool r) (EmptyPages c) = 0) \<and> (\<forall>s \<in> H. page_of s \<notin> set (gone r))"
proof -
  obtain D0 C0 where "slab_inv 0 st D0 C0 H"
    using history_inv [OF assms(1)] by blast
  from inv_tls_flush [OF this, of t] obtain st1 D1 C1 where 1: "tls_cache_flush_pool st t = Some st1" "slab_inv 0 st1 D1 C1 H"
    by blast
  from inv_percpu_flush [OF 1(2)] obtain st2 D2 C2 where 2: "percpu_flush st1 = Some st2" "slab_inv 0 st2 D2 C2 H"
    by blast
  let ?r = "start_reclaim st2 cfg"
  obtain r D C where 3: "for_classes (reclaim_class (now_ms st2)) [0..<SLAB_CLASS_COUNT] ?r = Some r" "slab_inv 0 (rpool r) D C H"
    "reclaimed ?r D2 r D" "\<forall>c \<in> set [0..<SLAB_CLASS_COUNT]. D (EmptyPages c) = []"
    using inv_reclaim_classes [of ?r D2 C2 H "now_ms st2" "[0..<SLAB_CLASS_COUNT]"] 2(2) assms(3)
    unfolding start_reclaim_def by auto
  have "D (EmptyPages c) = []" for c
    using 3(2,4) by (cases "c < SLAB_CLASS_COUNT") (auto simp: slab_inv_def)
  then have heads: "page_heads (rpool r) (EmptyPages c) = 0" for c
    using inv_dll [OF 3(2), of "EmptyPages c"] by simp
  have gone: "p \<notin> set (D k)" if "p \<in> set (gone r)" for p k
    using 3(3) that by (auto simp: reclaimed_def start_reclaim_def)
  have "page_of s \<notin> set (gone r)" if sH: "s \<in> H" for s
  proof -
    obtain c where "s \<in> class_slots (rpool r) D c"
      using 3(2) sH unfolding slab_inv_def by blast
    then obtain k p where "list_class k = c" "p \<in> set (D k)" "s \<in> page_slots (rpool r) c p" "p mod SLAB_PAGE_SIZE = 0" "c < SLAB_CLASS_COUNT"
      using inv_slot_of_page [OF 3(2)] by metis
    then show ?thesis
      using page_slots_page [OF inv_sizes [OF 3(2)], of c s p] gone [of p k] by blast
  qed
  moreover have "mp_reclaim_idle_pages t st cfg = Some r"
    using 1(1) 2(1) 3(1) assms(2) by (simp add: mp_reclaim_idle_pages_def)
  ultimately show ?thesis
    using 3(2) heads by blast
qed

text \<open>A page that was empty once and is in use again: its idle time stamp is still the one of the day it became empty.\<close>

definition emptied :: slab_pool where
  "emptied = the (tls_cache_flush_pool (given_back\<lparr>now_ms := 5\<rparr>) 0)"

definition reused :: slab_pool where
  "reused = fst (the (slab_alloc (emptied\<lparr>maps := []\<rparr>) 0 100))"

definition eager_config :: reclaim_config where
  "eager_config = \<lparr>idle_reclaim_enabled = True, idle_reclaim_timeout_ms = 10, idle_reclaim_min_pages = 0, stats_total_pool_size = 0\<rparr>"

definition lazy_config :: reclaim_config where
  "lazy_config = eager_config\<lparr>idle_reclaim_enabled := False\<rparr>"

lemmas reclaim_example_defs = emptied_def reused_def slab_example_defs slab_eval slab_free_eval

lemma reused_history: "slab_history reused {65608}"
proof -
  have "tls_cache_flush_pool (given_back\<lparr>now_ms := 5\<rparr>) 0 = Some emptied"
    by (simp add: reclaim_example_defs tls_flush_loop.simps cong: let_weak_cong)
  then have e: "slab_history emptied {}"
    by (rule slab_history.flush [OF slab_history.tick [OF given_back_history]])
  have "slab_alloc (emptied\<lparr>maps := []\<rparr>) 0 100 = Some (reused, 65760)"
    by (simp add: reclaim_example_defs tls_flush_loop.simps cong: let_weak_cong)
  moreover have "fresh_maps emptied []"
    by (simp add: fresh_maps_def)
  ultimately show ?thesis
    using slab_history.allocate_direct [OF e] by (fastforce simp: SLAB_CLASS_COUNT_def sizeof_mp_block_header_def)
qed

lemma reused_facts:
  "page_heads reused (PartialPages 0) = 65536" "0 < c \<Longrightarrow> page_heads reused (PartialPages c) = 0"
  "pg_next (pages reused 65536) = 0" "pg_prev (pages reused 65536) = 0" "idle_since_ts (pages reused 65536) = 5" "page_raw_mem (pages reused 65536) = 65536"
  "\<not> has_flag (sflags reused) MP_FLAG_STATIC_BUFFER"
  by (simp_all add: reclaim_example_defs tls_flush_loop.simps MP_FLAG_STATIC_BUFFER_def cong: let_weak_cong)

text \<open>With idle reclaim, \<open>mp_compact\<close> can unmap a page whose slot a client holds: the idle time stamp of a page
  is set when the page becomes empty and never cleared when it is used again.\<close>

theorem idle_reclaim_unmaps_live:
  "\<exists>st H s cfg r. slab_history st H \<and> s \<in> H \<and> mp_compact st cfg = Some r \<and> page_of s \<in> set (gone r)"
proof -
  let ?st = "reused\<lparr>now_ms := 20\<rparr>"
  let ?r0 = "start_reclaim ?st eager_config"
  have "slab_history ?st {65608}"
    by (rule slab_history.tick [OF reused_history])
  define r1 where "r1 = drop_stats (unmap_page 65536 (on_rpool (unlink_page (PartialPages 0) 65536) ?r0))"
  have "should_free eager_config 20 (pages reused 65536)"
    by (simp add: should_free_def idle_long_def eager_config_def reused_facts)
  then have c0: "compact_walk 20 0 65536 ?r0 = Some r1"
    by (subst compact_walk.simps, subst compact_walk.simps) (simp add: start_reclaim_def reused_facts r1_def Let_def)
  have heads: "page_heads (rpool r1) (PartialPages c) = 0" for c
    using reused_facts(2) [of c]
    by (cases "c = 0") (simp_all add: r1_def drop_stats_def unmap_page_def on_rpool_def start_reclaim_def unlink_page_def reused_facts set_page_head_def)
  have gone: "gone r1 = [65536]"
    by (simp add: r1_def drop_stats_def unmap_page_def on_rpool_def start_reclaim_def unlink_page_def reused_facts set_page_head_def)
  have rest: "for_classes (\<lambda>c r. compact_walk 20 c (page_heads (rpool r) (PartialPages c)) r) [1..<SLAB_CLASS_COUNT] r1 = Some r1"
    by (rule for_classes_same) (simp add: heads compact_walk.simps)
  have "[0..<SLAB_CLASS_COUNT] = 0 # [1..<SLAB_CLASS_COUNT]"
    by (simp add: upt_conv_Cons SLAB_CLASS_COUNT_def)
  then have "mp_compact ?st eager_config = Some r1"
    using c0 rest reused_facts(1,7) by (simp add: mp_compact_def start_reclaim_def)
  moreover have "page_of 65608 = 65536"
    by (simp add: page_of_def SLAB_PAGE_SIZE_def)
  ultimately show ?thesis
    using \<open>slab_history ?st {65608}\<close> gone by (metis insertI1 list.set(2))
qed

theorem compact_frees_nothing_witness: "mp_freeable flushed = Some 0 \<and> mp_compact flushed lazy_config = Some (start_reclaim flushed lazy_config)"
  using compact_frees_nothing [OF flushed_history, of lazy_config 4096] by (simp add: lazy_config_def)

theorem reclaim_idle_safe_witness:
  "\<exists>r. mp_reclaim_idle_pages 0 two_taken lazy_config = Some r \<and> (\<forall>c. page_heads (rpool r) (EmptyPages c) = 0) \<and> page_of 65608 \<notin> set (gone r)"
proof -
  have "\<not> has_flag (sflags two_taken) MP_FLAG_STATIC_BUFFER"
    by (simp add: slab_example_defs slab_eval MP_FLAG_STATIC_BUFFER_def cong: let_weak_cong)
  from reclaim_idle_safe [OF two_taken_history this, of lazy_config 0] show ?thesis
    by (auto simp: lazy_config_def)
qed

end
