(* ===== verification/Pool_State.thy ===== *)
theory Pool_State
  imports Tlsf_Trace Slab_Trace
begin

text \<open>
  A memory pool as a whole (\<open>struct memory_pool\<close>, \<open>src/src/cmem_internal.h\<close>): its slab tier, its TLSF tier with the
  block cache of each thread, the blocks it took from the operating system, the list of active blocks, the
  counters, and the switches that admit or refuse a request.  The model is of one pool without sub-arenas: no
  thread is bound to an arena, and the owner of every block is the pool itself.
\<close>

section \<open>State\<close>

datatype mp_event =
  MP_EVENT_ALLOC | MP_EVENT_FREE | MP_EVENT_REALLOC | MP_EVENT_CANARY_CORRUPTION | MP_EVENT_DOUBLE_FREE
| MP_EVENT_RESET | MP_EVENT_COMPACT | MP_EVENT_OOM | MP_EVENT_DIRTY

definition MP_POISON_BYTE :: nat where "MP_POISON_BYTE = 0xDD"
definition CMEM_FREED_MAGIC :: nat where "CMEM_FREED_MAGIC = 0xDEADBEEF"
definition CMEM_HISTOGRAM_BUCKETS :: nat where "CMEM_HISTOGRAM_BUCKETS = 16"

definition MP_FLAG_CACHE_ALIGNED :: nat where "MP_FLAG_CACHE_ALIGNED = 128"

definition TLSF_CACHE_MIN_FL :: int where "TLSF_CACHE_MIN_FL = 6"
definition TLSF_CACHE_SIZES :: nat where "TLSF_CACHE_SIZES = 8"
definition TLSF_CACHE_MAX_SLOTS :: nat where "TLSF_CACHE_MAX_SLOTS = 8"

text \<open>The TLSF part of the thread-local cache.  A pointer to \<open>tlsf_entries[k]\<close> is \<open>k + 1\<close>, null is 0.\<close>

record tlsf_cache_entry =
  cblock :: addr
  ctpool :: addr
  cnext :: nat

record tlsf_thread_cache =
  tlsf_slots :: "nat \<Rightarrow> nat"
  tlsf_counts :: "nat \<Rightarrow> nat"
  tlsf_entries :: "nat \<Rightarrow> tlsf_cache_entry"

record mp_thread_quota =
  alloc_bytes :: nat
  alloc_count :: nat

text \<open>Headers and contents of blocks taken from the operating system and of the emergency buffer are \<open>ohdr\<close> and
  \<open>omem\<close>; \<open>os_blocks\<close> are the blocks taken and not given back.  \<open>act_next\<close> and \<open>act_prev\<close> are the fields \<open>next\<close> and
  \<open>prev\<close> of all block headers.  \<open>events\<close>, \<open>watermarks\<close> and \<open>recoveries\<close> are the calls made to the callbacks, and
  \<open>high_thresh\<close>, \<open>low_thresh\<close> the product of a watermark ratio and a limit, a floating-point computation
  (\<open>None\<close>: the ratio is not positive).\<close>

record memory_pool =
  self :: addr
  pool_flags :: nat
  classes :: slab_config
  slab :: slab_pool
  tlsf :: tlsf_tier
  tcaches :: "nat \<Rightarrow> tlsf_thread_cache"
  ohdr :: "addr \<Rightarrow> mp_block_header"
  omem :: "addr \<Rightarrow> nat"
  os_blocks :: "(addr \<times> nat) list"
  act_head :: addr
  act_next :: "addr \<Rightarrow> addr"
  act_prev :: "addr \<Rightarrow> addr"
  active_bytes :: nat
  peak_bytes :: nat
  active_allocations :: nat
  total_alloc_ops :: nat
  total_free_ops :: nat
  os_allocated_bytes :: nat
  resident_size :: nat
  size_histogram :: "nat \<Rightarrow> nat"
  max_memory_limit :: nat
  fallback_to_sys_alloc_on_oom :: bool
  emergency_buf :: addr
  emergency_size :: nat
  emergency_used :: bool
  is_dirty :: bool
  circuit_breaker_enabled :: bool
  circuit_breaker_tripped :: bool
  thread_quota_bytes :: nat
  thread_quota :: "nat \<Rightarrow> mp_thread_quota"
  event_cb :: bool
  events :: "(mp_event \<times> addr \<times> nat) list"
  watermark_cb :: bool
  in_high_watermark_state :: bool
  high_thresh :: "nat \<Rightarrow> nat option"
  low_thresh :: "nat \<Rightarrow> nat option"
  watermarks :: "(bool \<times> nat \<times> nat) list"
  error_recovery_cb :: bool
  recoveries :: "(nat \<times> nat) list"

text \<open>What surrounds one call: the thread, the CPU it runs on, the outcomes of its compare-and-swaps, and the
  answers of the operating system.\<close>

record call_env =
  thread :: nat
  cpu :: nat
  cas1 :: bool
  cas2 :: bool
  mmaps :: "addr list"
  os_init :: addr
  os_expand :: addr
  os_block :: addr
  fresh_mem :: "addr \<Rightarrow> tlsf_block"

section \<open>Calling the tiers\<close>

text \<open>The flags and \<open>total_pool_size\<close> belong to the pool: a tier works on them.  Answers of the operating system to
  earlier calls are gone.\<close>

definition slab_view :: "memory_pool \<Rightarrow> slab_pool" where
  "slab_view p = slab_pool.total_pool_size_update (\<lambda>_. resident_size p) ((slab p)\<lparr>sflags := pool_flags p, maps := []\<rparr>)"

definition put_slab :: "slab_pool \<Rightarrow> memory_pool \<Rightarrow> memory_pool" where
  "put_slab st p = p\<lparr>slab := st, resident_size := slab_pool.total_pool_size st\<rparr>"

definition tlsf_view :: "memory_pool \<Rightarrow> tlsf_tier" where
  "tlsf_view p = tlsf_tier.total_pool_size_update (\<lambda>_. resident_size p) ((tlsf p)\<lparr>pflags := pool_flags p\<rparr>)"

definition put_tlsf :: "tlsf_tier \<Rightarrow> memory_pool \<Rightarrow> memory_pool" where
  "put_tlsf st p = p\<lparr>tlsf := st, resident_size := tlsf_tier.total_pool_size st\<rparr>"

section \<open>Headers\<close>

text \<open>The memory of the pool is split by region; \<open>area_of\<close> tells the part an address lies in.\<close>

datatype area = SlabArea | TlsfArea | OsArea

definition in_range :: "addr \<Rightarrow> addr \<times> nat \<Rightarrow> bool" where
  "in_range a r \<longleftrightarrow> fst r \<le> a \<and> a < fst r + snd r"

definition region_range :: "tlsf_pool \<Rightarrow> addr \<times> nat" where
  "region_range t = (tpool_addr t, raw_area t + raw_size t - tpool_addr t)"

definition os_ranges :: "memory_pool \<Rightarrow> (addr \<times> nat) list" where
  "os_ranges p = (if emergency_buf p = 0 then os_blocks p else (emergency_buf p, emergency_size p) # os_blocks p)"

definition area_of :: "memory_pool \<Rightarrow> addr \<Rightarrow> area" where
  "area_of p a =
     (if \<exists>t \<in> set (tlsf_root (tlsf p)). in_range a (region_range t) then TlsfArea
      else if \<exists>r \<in> set (os_ranges p). in_range a r then OsArea
      else SlabArea)"

definition header_at :: "memory_pool \<Rightarrow> addr \<Rightarrow> mp_block_header" where
  "header_at p a = (case area_of p a of SlabArea \<Rightarrow> shdr (slab p) a | TlsfArea \<Rightarrow> hdrs (tlsf p) a | OsArea \<Rightarrow> ohdr p a)"

definition put_header :: "addr \<Rightarrow> mp_block_header \<Rightarrow> memory_pool \<Rightarrow> memory_pool" where
  "put_header a h p =
     (case area_of p a of
        SlabArea \<Rightarrow> p\<lparr>slab := (slab p)\<lparr>shdr := (shdr (slab p))(a := h)\<rparr>\<rparr>
      | TlsfArea \<Rightarrow> p\<lparr>tlsf := (tlsf p)\<lparr>hdrs := (hdrs (tlsf p))(a := h)\<rparr>\<rparr>
      | OsArea \<Rightarrow> p\<lparr>ohdr := (ohdr p)(a := h)\<rparr>)"

definition byte_at :: "memory_pool \<Rightarrow> addr \<Rightarrow> nat" where
  "byte_at p a = (case area_of p a of SlabArea \<Rightarrow> smem (slab p) a | TlsfArea \<Rightarrow> bytes (tlsf p) a | OsArea \<Rightarrow> omem p a)"

text \<open>Writing bytes of the block whose header is at \<open>h\<close>.\<close>

definition on_bytes :: "addr \<Rightarrow> ((addr \<Rightarrow> nat) \<Rightarrow> addr \<Rightarrow> nat) \<Rightarrow> memory_pool \<Rightarrow> memory_pool" where
  "on_bytes h f p =
     (case area_of p h of
        SlabArea \<Rightarrow> p\<lparr>slab := (slab p)\<lparr>smem := f (smem (slab p))\<rparr>\<rparr>
      | TlsfArea \<Rightarrow> p\<lparr>tlsf := (tlsf p)\<lparr>bytes := f (bytes (tlsf p))\<rparr>\<rparr>
      | OsArea \<Rightarrow> p\<lparr>omem := f (omem p)\<rparr>)"

section \<open>Callbacks\<close>

definition trigger_event :: "memory_pool \<Rightarrow> mp_event \<Rightarrow> addr \<Rightarrow> nat \<Rightarrow> memory_pool" where
  "trigger_event p ev ptr n = (if event_cb p then p\<lparr>events := events p @ [(ev, ptr, n)]\<rparr> else p)"

definition call_recovery :: "memory_pool \<Rightarrow> memory_pool" where
  "call_recovery p = (if error_recovery_cb p then p\<lparr>recoveries := recoveries p @ [(active_bytes p, max_memory_limit p)]\<rparr> else p)"

definition check_watermark_after_change :: "memory_pool \<Rightarrow> memory_pool" where
  "check_watermark_after_change p =
     (if \<not> watermark_cb p \<or> max_memory_limit p = 0 then p
      else let limit = max_memory_limit p; active = active_bytes p
           in case (high_thresh p limit, low_thresh p limit) of
                (hi, lo) \<Rightarrow>
                  if \<not> in_high_watermark_state p \<and> hi \<noteq> None
                  then if the hi \<le> active
                       then p\<lparr>in_high_watermark_state := True, watermarks := watermarks p @ [(True, active, limit)]\<rparr> else p
                  else if in_high_watermark_state p \<and> lo \<noteq> None
                  then if active \<le> the lo
                       then p\<lparr>in_high_watermark_state := False, watermarks := watermarks p @ [(False, active, limit)]\<rparr> else p
                  else p)"

section \<open>The list of active blocks\<close>

definition set_act_next :: "addr \<Rightarrow> addr \<Rightarrow> memory_pool \<Rightarrow> memory_pool" where
  "set_act_next x v p = p\<lparr>act_next := (act_next p)(x := v)\<rparr>"

definition set_act_prev :: "addr \<Rightarrow> addr \<Rightarrow> memory_pool \<Rightarrow> memory_pool" where
  "set_act_prev x v p = p\<lparr>act_prev := (act_prev p)(x := v)\<rparr>"

definition active_list_add :: "memory_pool \<Rightarrow> addr \<Rightarrow> memory_pool" where
  "active_list_add p h =
     (let p = set_act_next h (act_head p) p;
          p = set_act_prev h 0 p;
          p = (if act_head p \<noteq> 0 then set_act_prev (act_head p) h p else p)
      in p\<lparr>act_head := h\<rparr>)"

definition active_list_remove :: "memory_pool \<Rightarrow> addr \<Rightarrow> memory_pool" where
  "active_list_remove p h =
     (if h = 0 then p
      else let p = (if act_prev p h \<noteq> 0 then set_act_next (act_prev p h) (act_next p h) p else p\<lparr>act_head := act_next p h\<rparr>);
               p = (if act_next p h \<noteq> 0 then set_act_prev (act_next p h) (act_prev p h) p else p);
               p = set_act_prev h 0 p
           in set_act_next h 0 p)"

section \<open>Recovery and quotas\<close>

definition mp_mark_pool_dirty :: "memory_pool \<Rightarrow> memory_pool" where
  "mp_mark_pool_dirty p = trigger_event (p\<lparr>is_dirty := True\<rparr>) MP_EVENT_DIRTY 0 0"

definition mp_clear_pool_dirty :: "memory_pool \<Rightarrow> memory_pool" where
  "mp_clear_pool_dirty p = p\<lparr>is_dirty := False\<rparr>"

definition mp_is_pool_dirty :: "memory_pool \<Rightarrow> bool" where
  "mp_is_pool_dirty p = is_dirty p"

definition mp_isolate_bad_block :: "memory_pool \<Rightarrow> addr \<Rightarrow> memory_pool \<times> bool" where
  "mp_isolate_bad_block p ptr =
     (let h = ptr - sizeof_mp_block_header
      in if ptr = 0 \<or> has_flag (pool_flags p) MP_FLAG_FAST_PATH \<or> magic (header_at p h) \<noteq> MP_MAGIC_HEAD then (p, False)
         else let p = active_list_remove p h;
                  p = p\<lparr>active_bytes := (active_bytes p + 2 ^ 64 - requested_size (header_at p h)) mod 2 ^ 64,
                        active_allocations := (active_allocations p + 2 ^ 64 - 1) mod 2 ^ 64,
                        total_free_ops := (total_free_ops p + 1) mod 2 ^ 64\<rparr>;
                  p = put_header h ((header_at p h)\<lparr>magic := CMEM_FREED_MAGIC\<rparr>) p
              in (trigger_event p MP_EVENT_DOUBLE_FREE ptr 0, True))"

definition mp_set_thread_quota :: "memory_pool \<Rightarrow> nat \<Rightarrow> memory_pool" where
  "mp_set_thread_quota p quota_bytes = p\<lparr>thread_quota_bytes := quota_bytes\<rparr>"

definition mp_set_circuit_breaker :: "memory_pool \<Rightarrow> bool \<Rightarrow> memory_pool" where
  "mp_set_circuit_breaker p enable = p\<lparr>circuit_breaker_enabled := enable\<rparr>"

definition mp_get_thread_allocated_bytes :: "memory_pool \<Rightarrow> nat \<Rightarrow> nat" where
  "mp_get_thread_allocated_bytes p t = alloc_bytes (thread_quota p t)"

definition mp_reset_thread_quota :: "memory_pool \<Rightarrow> nat \<Rightarrow> memory_pool" where
  "mp_reset_thread_quota p t = p\<lparr>thread_quota := (thread_quota p)(t := \<lparr>alloc_bytes = 0, alloc_count = 0\<rparr>)\<rparr>"

definition mp_is_circuit_breaker_tripped :: "memory_pool \<Rightarrow> bool" where
  "mp_is_circuit_breaker_tripped p = circuit_breaker_tripped p"

definition mp_set_fallback_on_oom :: "memory_pool \<Rightarrow> bool \<Rightarrow> memory_pool" where
  "mp_set_fallback_on_oom p enable = p\<lparr>fallback_to_sys_alloc_on_oom := enable\<rparr>"

text \<open>Charging an allocation to the thread; the breaker trips when the quota is reached.\<close>

definition charge_quota :: "nat \<Rightarrow> nat \<Rightarrow> memory_pool \<Rightarrow> memory_pool" where
  "charge_quota t n p =
     (if \<not> circuit_breaker_enabled p then p
      else let q = thread_quota p t;
               q = q\<lparr>alloc_bytes := (alloc_bytes q + n) mod 2 ^ 64, alloc_count := (alloc_count q + 1) mod 2 ^ 64\<rparr>;
               p = p\<lparr>thread_quota := (thread_quota p)(t := q)\<rparr>
           in if 0 < thread_quota_bytes p \<and> thread_quota_bytes p \<le> alloc_bytes q then p\<lparr>circuit_breaker_tripped := True\<rparr> else p)"

end
