(* ===== verification/Pool_Ops.thy ===== *)
theory Pool_Ops
  imports Pool_State
begin

text \<open>
  The entry points of a pool (\<open>src/src/cmem_alloc.c\<close>): admission of a request, the emergency buffer, the dispatch to
  slab tier, TLSF tier with its per-thread block cache, or the operating system, the accounting of a block
  that was handed out, and the way back in \<open>mp_free\<close> and \<open>mp_realloc\<close>.  Each call is one step; \<open>None\<close> stands for a
  loop of a tier that does not end or a failed assertion.
\<close>

section \<open>Accounting\<close>

definition canary_bytes :: "memory_pool \<Rightarrow> nat" where
  "canary_bytes p = (if has_flag (pool_flags p) MP_FLAG_DEBUG_CANARY then 1 else 0)"

text \<open>The counters of a block of \<open>n\<close> bytes that was handed out.  Thread-safe pools fetch the old value of
  \<open>active_bytes\<close>, the others compute with the new one.\<close>

definition count_alloc :: "nat \<Rightarrow> memory_pool \<Rightarrow> memory_pool" where
  "count_alloc n p =
     (let ts = has_flag (pool_flags p) MP_FLAG_THREAD_SAFE;
          new = (active_bytes p + n) mod 2 ^ 64;
          cur_active = (if ts then active_bytes p else new);
          p = p\<lparr>active_bytes := new\<rparr>;
          p = (if peak_bytes p < (cur_active + n) mod 2 ^ 64 then p\<lparr>peak_bytes := (cur_active + n) mod 2 ^ 64\<rparr> else p)
      in p\<lparr>active_allocations := (active_allocations p + 1) mod 2 ^ 64, total_alloc_ops := (total_alloc_ops p + 1) mod 2 ^ 64\<rparr>)"

definition count_size :: "nat \<Rightarrow> memory_pool \<Rightarrow> memory_pool" where
  "count_size n p =
     (let bucket = get_slab_class_index (classes p) n
      in if bucket < CMEM_HISTOGRAM_BUCKETS
         then p\<lparr>size_histogram := (size_histogram p)(bucket := (size_histogram p bucket + 1) mod 2 ^ 64)\<rparr> else p)"

definition mp_free_stats_no_lock :: "memory_pool \<Rightarrow> addr \<Rightarrow> memory_pool" where
  "mp_free_stats_no_lock p h =
     p\<lparr>active_bytes := (active_bytes p + 2 ^ 64 - requested_size (header_at p h)) mod 2 ^ 64,
       active_allocations := (active_allocations p + 2 ^ 64 - 1) mod 2 ^ 64,
       total_free_ops := (total_free_ops p + 1) mod 2 ^ 64\<rparr>"

definition mp_free_stats_update :: "memory_pool \<Rightarrow> addr \<Rightarrow> memory_pool" where
  "mp_free_stats_update p h =
     (let p = (if has_flag (pool_flags p) MP_FLAG_FAST_PATH then p else active_list_remove p h)
      in mp_free_stats_no_lock p h)"

section \<open>Admission\<close>

definition limit_exceeded :: "memory_pool \<Rightarrow> nat \<Rightarrow> bool" where
  "limit_exceeded p n \<longleftrightarrow> 0 < max_memory_limit p \<and> max_memory_limit p < (active_bytes p + n) mod 2 ^ 64"

definition emergency_fits :: "memory_pool \<Rightarrow> nat \<Rightarrow> bool" where
  "emergency_fits p n \<longleftrightarrow> emergency_buf p \<noteq> 0 \<and> \<not> emergency_used p
     \<and> (n + sizeof_mp_block_header + canary_bytes p) mod 2 ^ 64 \<le> emergency_size p"

text \<open>Canary and zeroing of a payload outside the tiers.\<close>

definition os_payload :: "addr \<Rightarrow> nat \<Rightarrow> memory_pool \<Rightarrow> memory_pool" where
  "os_payload payload n p =
     (let p = (if has_flag (pool_flags p) MP_FLAG_DEBUG_CANARY then p\<lparr>omem := (omem p)(payload + n := MP_CANARY_BYTE)\<rparr> else p)
      in if has_flag (pool_flags p) MP_FLAG_ZERO_ON_ALLOC then p\<lparr>omem := memset payload 0 n (omem p)\<rparr> else p)"

definition batch_format_emergency :: "memory_pool \<Rightarrow> nat \<Rightarrow> memory_pool" where
  "batch_format_emergency p n =
     (let b = emergency_buf p;
          p = p\<lparr>emergency_used := True\<rparr>;
          h = (ohdr p b)\<lparr>alloc_type := ALLOC_TYPE_EMERGENCY, slab_class := 0, hflags := MP_BLOCK_FLAG_COUNTED, requested_size := n,
                usable_size := (emergency_size p + 2 ^ 64 - sizeof_mp_block_header) mod 2 ^ 64, raw_base := b, subpool := 0,
                magic := MP_MAGIC_HEAD\<rparr>;
          fast = has_flag (pool_flags p) MP_FLAG_FAST_PATH;
          h = (if fast then h else h\<lparr>alloc_file := 0, alloc_line := 0, alloc_func := 0, backtrace_depth := 0\<rparr>);
          p = p\<lparr>ohdr := (ohdr p)(b := h)\<rparr>;
          p = (if fast then p else set_act_next b 0 (set_act_prev b 0 p))
      in os_payload (b + sizeof_mp_block_header) n p)"

definition alloc_emergency :: "memory_pool \<Rightarrow> nat \<Rightarrow> memory_pool \<times> addr" where
  "alloc_emergency p n =
     (let b = emergency_buf p;
          p = batch_format_emergency p n;
          p = (if has_flag (pool_flags p) MP_FLAG_FAST_PATH then p else active_list_add p b)
      in (count_alloc n p, b + sizeof_mp_block_header))"

section \<open>The thread cache of TLSF blocks\<close>

definition empty_tlsf_cache :: tlsf_thread_cache where
  "empty_tlsf_cache = \<lparr>tlsf_slots = (\<lambda>_. 0), tlsf_counts = (\<lambda>_. 0), tlsf_entries = (\<lambda>_. \<lparr>cblock = 0, ctpool = 0, cnext = 0\<rparr>)\<rparr>"

text \<open>A thread whose cache belongs to another pool, or to none, gives it up first.\<close>

definition validate_owner :: "memory_pool \<Rightarrow> nat \<Rightarrow> memory_pool" where
  "validate_owner p t =
     (if owned (tls (slab p) t) then p
      else p\<lparr>slab := tls_cache_validate_owner (slab p) t,
             tcaches := (tcaches p)(t := (tcaches p t)\<lparr>tlsf_slots := (\<lambda>_. 0), tlsf_counts := (\<lambda>_. 0)\<rparr>)\<rparr>)"

definition cache_index :: "nat \<Rightarrow> nat option" where
  "cache_index n =
     (let i = tlsf_block_size_to_fl n - TLSF_CACHE_MIN_FL
      in if 0 \<le> i \<and> i < int TLSF_CACHE_SIZES then Some (nat i) else None)"

definition tlsf_cache_pop :: "nat \<Rightarrow> nat \<Rightarrow> memory_pool \<Rightarrow> memory_pool \<times> addr \<times> addr" where
  "tlsf_cache_pop t i p =
     (let c = tcaches p t;
          e = tlsf_entries c (tlsf_slots c i - 1);
          c = c\<lparr>tlsf_slots := (tlsf_slots c)(i := cnext e), tlsf_counts := (tlsf_counts c)(i := tlsf_counts c i - 1)\<rparr>
      in (p\<lparr>tcaches := (tcaches p)(t := c)\<rparr>, cblock e, ctpool e))"

definition tlsf_cache_push :: "nat \<Rightarrow> nat \<Rightarrow> addr \<Rightarrow> addr \<Rightarrow> memory_pool \<Rightarrow> memory_pool" where
  "tlsf_cache_push t i block tpool p =
     (let c = tcaches p t;
          k = i * TLSF_CACHE_MAX_SLOTS + tlsf_counts c i;
          e = \<lparr>cblock = block, ctpool = tpool, cnext = tlsf_slots c i\<rparr>;
          c = c\<lparr>tlsf_entries := (tlsf_entries c)(k := e), tlsf_slots := (tlsf_slots c)(i := k + 1),
                tlsf_counts := (tlsf_counts c)(i := tlsf_counts c i + 1)\<rparr>
      in p\<lparr>tcaches := (tcaches p)(t := c)\<rparr>)"

definition on_region :: "addr \<Rightarrow> (tlsf_pool \<Rightarrow> tlsf_pool) \<Rightarrow> memory_pool \<Rightarrow> memory_pool" where
  "on_region tpool f p = p\<lparr>tlsf := (tlsf p)\<lparr>tlsf_root := on_tpool tpool f (tlsf_root (tlsf p))\<rparr>\<rparr>"

definition cache_return :: "addr \<Rightarrow> addr \<Rightarrow> memory_pool \<Rightarrow> memory_pool" where
  "cache_return block tpool p = on_region tpool (\<lambda>t. tlsf_return_cached t block) p"

text \<open>Emptying the cache into the free lists, in \<open>mp_realloc\<close> and when a cache changes its pool.\<close>

partial_function (option) cache_flush_loop :: "nat \<Rightarrow> nat \<Rightarrow> memory_pool \<Rightarrow> memory_pool option" where
  "cache_flush_loop t i p =
     (let k = tlsf_slots (tcaches p t) i
      in if k = 0 then Some p
         else let c = tcaches p t;
                  e = tlsf_entries c (k - 1);
                  p = p\<lparr>tcaches := (tcaches p)(t := c\<lparr>tlsf_slots := (tlsf_slots c)(i := cnext e)\<rparr>)\<rparr>
              in cache_flush_loop t i (cache_return (cblock e) (ctpool e) p))"

fun cache_flush :: "nat \<Rightarrow> nat list \<Rightarrow> memory_pool \<Rightarrow> memory_pool option" where
  "cache_flush t [] p = Some p"
| "cache_flush t (i # is') p =
     Option.bind (cache_flush_loop t i p)
       (\<lambda>p. cache_flush t is' (p\<lparr>tcaches := (tcaches p)(t := (tcaches p t)\<lparr>tlsf_counts := (tlsf_counts (tcaches p t))(i := 0)\<rparr>)\<rparr>))"

section \<open>Dispatch\<close>

definition slab_request :: "call_env \<Rightarrow> memory_pool \<Rightarrow> nat \<Rightarrow> (memory_pool \<times> addr) option" where
  "slab_request env p n =
     (let p = validate_owner p (thread env);
          c = get_slab_class_index (classes p) n
      in map_option (\<lambda>(st, a). (put_slab st p, a))
           (slab_tier_alloc (cas1 env) (cas2 env) (self p) ((slab_view p)\<lparr>maps := mmaps env\<rparr>) (thread env) (cpu env) c n))"

definition tlsf_shared :: "call_env \<Rightarrow> memory_pool \<Rightarrow> nat \<Rightarrow> memory_pool \<times> addr" where
  "tlsf_shared env p n =
     (let (st, a) = tlsf_alloc (fresh_mem env) (os_init env) (os_expand env) (tlsf_view p) n in (put_tlsf st p, a))"

text \<open>A cached block of exactly the needed size is stamped again.\<close>

definition cache_hit :: "addr \<Rightarrow> addr \<Rightarrow> nat \<Rightarrow> nat \<Rightarrow> memory_pool \<Rightarrow> memory_pool \<times> addr" where
  "cache_hit block tpool n total_needed p =
     (let p = on_region tpool (\<lambda>t. set_size_and_flags block (total_needed OR (word_of t block AND BLOCK_STATE_PREV_FREE)) t) p;
          (st, a) = tlsf_stamp (tlsf_view p) block tpool n total_needed;
          h = block + sizeof_tlsf_block
      in (put_tlsf (st\<lparr>hdrs := (hdrs st)(h := (hdrs st h)\<lparr>hflags := MP_BLOCK_FLAG_COUNTED\<rparr>)\<rparr>) p, a))"

definition tlsf_request :: "call_env \<Rightarrow> memory_pool \<Rightarrow> nat \<Rightarrow> (memory_pool \<times> addr) option" where
  "tlsf_request env p n =
     (let t = thread env;
          p = validate_owner p t;
          total_needed = tlsf_total_needed (pool_flags p) n
      in case cache_index total_needed of
           None \<Rightarrow> Some (tlsf_shared env p n)
         | Some i \<Rightarrow>
             if tlsf_counts (tcaches p t) i = 0 then Some (tlsf_shared env p n)
             else let (p, block, tpool) = tlsf_cache_pop t i p
                  in case get_tpool tpool (tlsf_root (tlsf p)) of
                       None \<Rightarrow> None
                     | Some r \<Rightarrow>
                         if bsz r block \<noteq> total_needed then Some (tlsf_shared env (cache_return block tpool p) n)
                         else Some (cache_hit block tpool n total_needed p))"

definition os_request :: "call_env \<Rightarrow> memory_pool \<Rightarrow> nat \<Rightarrow> memory_pool \<times> addr" where
  "os_request env p n =
     (let total_sz = (n + sizeof_mp_block_header + canary_bytes p) mod 2 ^ 64;
          raw = os_block env
      in if raw = 0 then (p, 0)
         else let h = (ohdr p raw)\<lparr>alloc_type := ALLOC_TYPE_OS, slab_class := 0, hflags := MP_BLOCK_FLAG_COUNTED,
                        requested_size := n, usable_size := n, raw_base := raw, subpool := self p, magic := MP_MAGIC_HEAD\<rparr>;
                  h = (if has_flag (pool_flags p) MP_FLAG_FAST_PATH then h
                       else h\<lparr>alloc_file := 0, alloc_line := 0, alloc_func := 0, backtrace_depth := 0\<rparr>);
                  p = p\<lparr>ohdr := (ohdr p)(raw := h), os_blocks := (raw, total_sz) # os_blocks p\<rparr>;
                  payload = raw + sizeof_mp_block_header;
                  p = os_payload payload n p
              in (p\<lparr>os_allocated_bytes := (os_allocated_bytes p + n) mod 2 ^ 64,
                    resident_size := (resident_size p + total_sz) mod 2 ^ 64\<rparr>, payload))"

definition dispatch :: "call_env \<Rightarrow> memory_pool \<Rightarrow> nat \<Rightarrow> (memory_pool \<times> addr) option" where
  "dispatch env p n =
     (let static = has_flag (pool_flags p) MP_FLAG_STATIC_BUFFER
      in if \<not> static \<and> n \<le> SLAB_MAX_SIZE then slab_request env p n
         else if n \<le> TLSF_MAX_SIZE \<or> static then tlsf_request env p n
         else Some (os_request env p n))"

definition account :: "addr \<Rightarrow> nat \<Rightarrow> memory_pool \<Rightarrow> memory_pool" where
  "account ptr n p =
     (let h = ptr - sizeof_mp_block_header;
          p = put_header h ((header_at p h)\<lparr>hflags := hflags (header_at p h) OR MP_BLOCK_FLAG_COUNTED\<rparr>) p;
          p = (if has_flag (pool_flags p) MP_FLAG_FAST_PATH then p else active_list_add p h);
          p = count_size n (count_alloc n p);
          p = check_watermark_after_change p
      in trigger_event p MP_EVENT_ALLOC ptr n)"

definition mp_alloc_internal :: "call_env \<Rightarrow> memory_pool \<Rightarrow> nat \<Rightarrow> (memory_pool \<times> addr) option" where
  "mp_alloc_internal env p n =
     (if n = 0 then Some (p, 0)
      else if mp_is_pool_dirty p \<and> \<not> fallback_to_sys_alloc_on_oom p then Some (p, 0)
      else if circuit_breaker_enabled p \<and> circuit_breaker_tripped p then Some (p, 0)
      else let exceed = limit_exceeded p n;
               p = (if exceed then trigger_event p MP_EVENT_OOM 0 n else p)
           in if exceed \<and> \<not> fallback_to_sys_alloc_on_oom p
              then Some (if emergency_fits p n then alloc_emergency p n else (p, 0))
              else map_option (\<lambda>(p, ptr). if ptr = 0 then (p, 0) else (account ptr n p, ptr)) (dispatch env p n))"

text \<open>Moving the header in front of an aligned payload, and with it the entry in the list of active blocks.\<close>

definition move_header :: "addr \<Rightarrow> addr \<Rightarrow> memory_pool \<Rightarrow> memory_pool" where
  "move_header orig new p =
     (let p = put_header new (header_at p orig) p;
          p = set_act_next new (act_next p orig) (set_act_prev new (act_prev p orig) p);
          p = (if act_prev p orig \<noteq> 0 then set_act_next (act_prev p orig) new p
               else if act_head p = orig then p\<lparr>act_head := new\<rparr> else p)
      in if act_next p orig \<noteq> 0 then set_act_prev (act_next p orig) new p else p)"

definition mp_aligned_alloc :: "call_env \<Rightarrow> memory_pool \<Rightarrow> nat \<Rightarrow> nat \<Rightarrow> (memory_pool \<times> addr) option" where
  "mp_aligned_alloc env p alignment n =
     (if alignment AND (alignment - 1) \<noteq> 0 \<or> alignment < 8 then Some (p, 0)
      else let total_size = (n + alignment + sizeof_mp_block_header + canary_bytes p) mod 2 ^ 64
           in map_option (\<lambda>(p, raw).
                if raw = 0 then (p, 0)
                else let p = charge_quota (thread env) n p;
                         aligned = (raw + sizeof_mp_block_header + (alignment - 1)) mod 2 ^ 64 AND not64 (alignment - 1);
                         orig = raw - sizeof_mp_block_header;
                         new = aligned - sizeof_mp_block_header;
                         p = (if new \<noteq> orig then move_header orig new p else p);
                         p = put_header new ((header_at p new)\<lparr>requested_size := n\<rparr>) p
                     in (if has_flag (pool_flags p) MP_FLAG_DEBUG_CANARY
                         then on_bytes new (\<lambda>m. m(aligned + n := MP_CANARY_BYTE)) p else p, aligned))
                (mp_alloc_internal env p total_size))"

definition mp_alloc :: "call_env \<Rightarrow> memory_pool \<Rightarrow> nat \<Rightarrow> (memory_pool \<times> addr) option" where
  "mp_alloc env p n =
     (if n = 0 then Some (p, 0)
      else if has_flag (pool_flags p) MP_FLAG_CACHE_ALIGNED then mp_aligned_alloc env p 64 n
      else map_option (\<lambda>(p, ptr). (if ptr = 0 then p else charge_quota (thread env) n p, ptr)) (mp_alloc_internal env p n))"

definition mp_calloc :: "call_env \<Rightarrow> memory_pool \<Rightarrow> nat \<Rightarrow> nat \<Rightarrow> (memory_pool \<times> addr) option" where
  "mp_calloc env p num n =
     (let total_size = (num * n) mod 2 ^ 64
      in map_option (\<lambda>(p, ptr).
           (if ptr \<noteq> 0 \<and> \<not> has_flag (pool_flags p) MP_FLAG_ZERO_ON_ALLOC
            then on_bytes (ptr - sizeof_mp_block_header) (memset ptr 0 total_size) p else p, ptr))
           (mp_alloc env p total_size))"

section \<open>Release\<close>

definition mp_verify_free_canary :: "memory_pool \<Rightarrow> addr \<Rightarrow> memory_pool" where
  "mp_verify_free_canary p ptr =
     (let h = header_at p (ptr - sizeof_mp_block_header)
      in if byte_at p (ptr + requested_size h) = MP_CANARY_BYTE then p
         else call_recovery (mp_mark_pool_dirty (trigger_event p MP_EVENT_CANARY_CORRUPTION ptr (requested_size h))))"

text \<open>The counters of a slab block on its way to a cache or a queue.\<close>

definition free_stats_cached :: "memory_pool \<Rightarrow> addr \<Rightarrow> bool \<Rightarrow> memory_pool" where
  "free_stats_cached p h counted =
     (if \<not> has_flag (pool_flags p) MP_FLAG_THREAD_SAFE then if counted then mp_free_stats_update p h else p
      else let p = (if counted then mp_free_stats_no_lock p h else p)
           in if has_flag (pool_flags p) MP_FLAG_FAST_PATH then p else active_list_remove p h)"

text \<open>The thread cache of a fast-path pool counts the release of a block that was never counted.\<close>

definition free_stats_tls :: "memory_pool \<Rightarrow> addr \<Rightarrow> bool \<Rightarrow> memory_pool" where
  "free_stats_tls p h counted =
     (if \<not> counted \<and> has_flag (pool_flags p) MP_FLAG_THREAD_SAFE \<and> has_flag (pool_flags p) MP_FLAG_FAST_PATH
      then p\<lparr>total_free_ops := (total_free_ops p + 1) mod 2 ^ 64\<rparr>
      else free_stats_cached p h counted)"

definition free_slab :: "call_env \<Rightarrow> memory_pool \<Rightarrow> addr \<Rightarrow> memory_pool" where
  "free_slab env p ptr =
     (let t = thread env;
          h = ptr - sizeof_mp_block_header;
          p = validate_owner p t;
          hd = header_at p h;
          counted = hflags hd AND MP_BLOCK_FLAG_COUNTED \<noteq> 0;
          n = requested_size hd;
          c = slab_class hd;
          put = (\<lambda>p. put_slab (place_slot (slab_view p) t (cpu env) h) p)
      in if tcounts (tls (slab p) t) c < TLS_CACHE_MAX_SLOTS
         then put (trigger_event (free_stats_tls p h counted) MP_EVENT_FREE ptr n)
         else if snd (percpu_push (slab_view p) (cpu env) c (raw_base hd)) \<or> has_flag (pool_flags p) MP_FLAG_THREAD_SAFE
         then put (trigger_event (free_stats_cached p h counted) MP_EVENT_FREE ptr n)
         else let p = (if counted then mp_free_stats_update p h else p);
                  p = check_watermark_after_change (put p)
              in trigger_event p MP_EVENT_FREE ptr n)"

text \<open>A TLSF block goes to the cache of the thread when there is room, else back to its region.\<close>

definition free_tlsf_block :: "call_env \<Rightarrow> memory_pool \<Rightarrow> addr \<Rightarrow> memory_pool option" where
  "free_tlsf_block env p h =
     (let t = thread env;
          p = validate_owner p t;
          hd = header_at p h;
          block_size = (usable_size hd + sizeof_tlsf_block + sizeof_mp_block_header) mod 2 ^ 64;
          shared = map_option (\<lambda>st. put_tlsf st p) (tlsf_free (tlsf_view p) h)
      in case cache_index block_size of
           None \<Rightarrow> shared
         | Some i \<Rightarrow> if tlsf_counts (tcaches p t) i < TLSF_CACHE_MAX_SLOTS
                      then Some (tlsf_cache_push t i (raw_base hd) (subpool hd) p) else shared)"

text \<open>\<open>sys_mem_free\<close> gives the mapping back.\<close>

definition free_os_block :: "memory_pool \<Rightarrow> addr \<Rightarrow> memory_pool" where
  "free_os_block p raw = p\<lparr>os_blocks := filter (\<lambda>b. fst b \<noteq> raw) (os_blocks p)\<rparr>"

definition free_other :: "call_env \<Rightarrow> memory_pool \<Rightarrow> addr \<Rightarrow> memory_pool option" where
  "free_other env p ptr =
     (let h = ptr - sizeof_mp_block_header;
          hd = header_at p h;
          n = requested_size hd;
          p = (if hflags hd AND MP_BLOCK_FLAG_COUNTED \<noteq> 0 then mp_free_stats_update p h else p);
          p = (if alloc_type hd = ALLOC_TYPE_OS
               then p\<lparr>os_allocated_bytes := (os_allocated_bytes p + 2 ^ 64 - n) mod 2 ^ 64,
                      resident_size := (resident_size p + 2 ^ 64 - (n + sizeof_mp_block_header + canary_bytes p) mod 2 ^ 64) mod 2 ^ 64\<rparr>
               else p);
          p = (if alloc_type hd = ALLOC_TYPE_TLSF then free_tlsf_block env p h
               else if alloc_type hd = ALLOC_TYPE_OS then Some (free_os_block p (raw_base hd))
               else if alloc_type hd = ALLOC_TYPE_EMERGENCY then Some (p\<lparr>emergency_used := False\<rparr>)
               else Some p)
      in map_option (\<lambda>p. trigger_event (check_watermark_after_change p) MP_EVENT_FREE ptr n) p)"

definition mp_free :: "call_env \<Rightarrow> memory_pool \<Rightarrow> addr \<Rightarrow> memory_pool option" where
  "mp_free env p ptr =
     (if ptr = 0 then Some p
      else let h = ptr - sizeof_mp_block_header
           in if magic (header_at p h) \<noteq> MP_MAGIC_HEAD
              then Some (call_recovery (mp_mark_pool_dirty (trigger_event p MP_EVENT_DOUBLE_FREE ptr 0)))
              else let p = (if has_flag (pool_flags p) MP_FLAG_POISON_ON_FREE
                            then on_bytes h (memset ptr MP_POISON_BYTE (requested_size (header_at p h))) p else p);
                       p = (if has_flag (pool_flags p) MP_FLAG_DEBUG_CANARY then mp_verify_free_canary p ptr else p)
                   in if alloc_type (header_at p h) = ALLOC_TYPE_SLAB then Some (free_slab env p ptr)
                      else free_other env p ptr)"

section \<open>Resizing\<close>

definition set_requested :: "addr \<Rightarrow> nat \<Rightarrow> memory_pool \<Rightarrow> memory_pool" where
  "set_requested h n p = put_header h ((header_at p h)\<lparr>requested_size := n\<rparr>) p"

text \<open>\<open>memcpy\<close> from one block to another.\<close>

text \<open>The location of a request in the header of its block.  \<open>depth\<close>: what \<open>backtrace\<close> answers, 0 without it.\<close>

definition locate :: "nat \<Rightarrow> addr \<Rightarrow> nat \<Rightarrow> addr \<Rightarrow> addr \<Rightarrow> memory_pool \<Rightarrow> memory_pool" where
  "locate depth file line func ptr p =
     (let h = ptr - sizeof_mp_block_header;
          hdr = (header_at p h)\<lparr>alloc_file := file, alloc_line := line, alloc_func := func\<rparr>
      in put_header h (if has_flag (pool_flags p) MP_FLAG_TRACK_LOCATIONS then hdr\<lparr>backtrace_depth := depth\<rparr> else hdr) p)"

definition mp_alloc_loc :: "call_env \<Rightarrow> nat \<Rightarrow> memory_pool \<Rightarrow> nat \<Rightarrow> addr \<Rightarrow> nat \<Rightarrow> addr \<Rightarrow> (memory_pool \<times> addr) option" where
  "mp_alloc_loc env depth p n file line func =
     map_option (\<lambda>(p, ptr). (if ptr \<noteq> 0 then locate depth file line func ptr p else p, ptr)) (mp_alloc env p n)"

definition mp_calloc_loc :: "call_env \<Rightarrow> nat \<Rightarrow> memory_pool \<Rightarrow> nat \<Rightarrow> nat \<Rightarrow> addr \<Rightarrow> nat \<Rightarrow> addr \<Rightarrow> (memory_pool \<times> addr) option" where
  "mp_calloc_loc env depth p num n file line func =
     map_option (\<lambda>(p, ptr). (if ptr \<noteq> 0 then locate depth file line func ptr p else p, ptr)) (mp_calloc env p num n)"

definition copy_bytes :: "addr \<Rightarrow> addr \<Rightarrow> nat \<Rightarrow> memory_pool \<Rightarrow> memory_pool" where
  "copy_bytes dst src n p =
     on_bytes (dst - sizeof_mp_block_header)
       (\<lambda>m a. if dst \<le> a \<and> a < dst + n then byte_at p (src + (a - dst)) else m a) p"

definition mp_realloc :: "call_env \<Rightarrow> call_env \<Rightarrow> memory_pool \<Rightarrow> addr \<Rightarrow> nat \<Rightarrow> (memory_pool \<times> addr) option" where
  "mp_realloc env env' p ptr new_size =
     (if ptr = 0 then mp_alloc env p new_size
      else if new_size = 0 then map_option (\<lambda>p. (p, 0)) (mp_free env p ptr)
      else let h = ptr - sizeof_mp_block_header;
               hd = header_at p h
           in if magic hd \<noteq> MP_MAGIC_HEAD then Some (p, 0)
              else if new_size \<le> usable_size hd
              then let p = set_requested h new_size p;
                       p = (if has_flag (pool_flags p) MP_FLAG_DEBUG_CANARY
                            then on_bytes h (\<lambda>m. m(ptr + new_size := MP_CANARY_BYTE)) p else p)
                   in Some (trigger_event p MP_EVENT_REALLOC ptr new_size, ptr)
              else let move = (\<lambda>p. case mp_alloc env p new_size of
                         None \<Rightarrow> None
                       | Some (p, new_ptr) \<Rightarrow>
                           if new_ptr = 0 then Some (p, 0)
                           else map_option (\<lambda>p. (p, new_ptr))
                                  (mp_free env' (copy_bytes new_ptr ptr (requested_size (header_at p h)) p) ptr))
                   in if alloc_type hd \<noteq> ALLOC_TYPE_TLSF then move p
                      else case cache_flush (thread env) [0..<TLSF_CACHE_SIZES] (validate_owner p (thread env)) of
                             None \<Rightarrow> None
                           | Some p \<Rightarrow>
                               let (st, expanded) = tlsf_try_inplace_expand (tlsf_view p) h new_size
                               in if expanded then Some (trigger_event (put_tlsf st p) MP_EVENT_REALLOC ptr new_size, ptr)
                                  else move p)"

definition mp_reallocarray :: "call_env \<Rightarrow> call_env \<Rightarrow> memory_pool \<Rightarrow> addr \<Rightarrow> nat \<Rightarrow> nat \<Rightarrow> (memory_pool \<times> addr) option" where
  "mp_reallocarray env env' p ptr nmemb n =
     (if nmemb \<noteq> 0 \<and> (2 ^ 64 - 1) div nmemb < n then Some (p, 0) else mp_realloc env env' p ptr ((nmemb * n) mod 2 ^ 64))"

definition mp_realloc_loc ::
  "call_env \<Rightarrow> call_env \<Rightarrow> nat \<Rightarrow> memory_pool \<Rightarrow> addr \<Rightarrow> nat \<Rightarrow> addr \<Rightarrow> nat \<Rightarrow> addr \<Rightarrow> (memory_pool \<times> addr) option" where
  "mp_realloc_loc env env' depth p ptr new_size file line func =
     map_option (\<lambda>(p, new_ptr). (if new_ptr \<noteq> 0 then locate depth file line func new_ptr p else p, new_ptr)) (mp_realloc env env' p ptr new_size)"

definition mp_reallocarray_loc ::
  "call_env \<Rightarrow> call_env \<Rightarrow> nat \<Rightarrow> memory_pool \<Rightarrow> addr \<Rightarrow> nat \<Rightarrow> nat \<Rightarrow> addr \<Rightarrow> nat \<Rightarrow> addr \<Rightarrow> (memory_pool \<times> addr) option" where
  "mp_reallocarray_loc env env' depth p ptr nmemb n file line func =
     (if nmemb \<noteq> 0 \<and> (2 ^ 64 - 1) div nmemb < n then Some (p, 0)
      else mp_realloc_loc env env' depth p ptr ((nmemb * n) mod 2 ^ 64) file line func)"

text \<open>Bytes from outside of the pool copied to a block.\<close>

definition store_bytes :: "addr \<Rightarrow> nat list \<Rightarrow> memory_pool \<Rightarrow> memory_pool" where
  "store_bytes dst src p =
     on_bytes (dst - sizeof_mp_block_header) (\<lambda>m a. if dst \<le> a \<and> a < dst + length src then src ! (a - dst) else m a) p"

text \<open>\<open>None\<close> as source is the null pointer.\<close>

definition mp_memdup_loc :: "call_env \<Rightarrow> nat \<Rightarrow> memory_pool \<Rightarrow> nat list option \<Rightarrow> addr \<Rightarrow> nat \<Rightarrow> addr \<Rightarrow> (memory_pool \<times> addr) option" where
  "mp_memdup_loc env depth p src file line func =
     (case src of
        None \<Rightarrow> Some (p, 0)
      | Some bs \<Rightarrow>
          if length bs = 0 then Some (p, 0)
          else map_option (\<lambda>(p, dup). (if dup \<noteq> 0 then store_bytes dup bs p else p, dup)) (mp_alloc_loc env depth p (length bs) file line func))"

text \<open>\<open>str\<close>: the characters before the terminating zero.\<close>

definition mp_strdup_loc :: "call_env \<Rightarrow> nat \<Rightarrow> memory_pool \<Rightarrow> nat list option \<Rightarrow> addr \<Rightarrow> nat \<Rightarrow> addr \<Rightarrow> (memory_pool \<times> addr) option" where
  "mp_strdup_loc env depth p str file line func =
     (case str of
        None \<Rightarrow> Some (p, 0)
      | Some cs \<Rightarrow>
          map_option (\<lambda>(p, dup). (if dup \<noteq> 0 then store_bytes dup (cs @ [0]) p else p, dup)) (mp_alloc_loc env depth p (length cs + 1) file line func))"

definition mp_memdup :: "call_env \<Rightarrow> memory_pool \<Rightarrow> nat list option \<Rightarrow> (memory_pool \<times> addr) option" where
  "mp_memdup env p src = mp_memdup_loc env 0 p src 0 0 0"

definition mp_strdup :: "call_env \<Rightarrow> memory_pool \<Rightarrow> nat list option \<Rightarrow> (memory_pool \<times> addr) option" where
  "mp_strdup env p str = mp_strdup_loc env 0 p str 0 0 0"

end
