(* ===== verification/Pool_Tiers.thy ===== *)
theory Pool_Tiers
  imports Pool_Ops
begin

text \<open>
  The tiers as a pool sees them: which memory an allocation of the TLSF tier may add and what header it stamps, and
  the slab tier as one step that keeps the headers of held slots, the owners of the thread caches and the
  distance of its pages from the rest of the memory.
\<close>

section \<open>Regions of the TLSF tier\<close>

lemma region_tpool:
  assumes "region t = region u" "region t \<noteq> {}"
  shows "tpool_addr t = tpool_addr u"
  using assms unfolding region_def by (metis Icc_eq_Icc atLeastLessThan_empty_iff atLeastLessThan_inj(1) not_le)

lemma take_block_area [simp]:
  "raw_area (tlsf_take_block t b n) = raw_area t" "raw_size (tlsf_take_block t b n) = raw_size t"
  by (simp_all add: tlsf_take_block_def Let_def tlsf_loads)

lemma walk_regions: "tlsf_walk ts n = Some (ts', b, a) \<Longrightarrow> map region ts' = map region ts"
proof (induction ts arbitrary: ts')
  case (Cons t ts)
  have "region (tlsf_take_block t x n) = region t" for x
    by (simp add: region_def tpool_addr_def)
  then show ?case
    using Cons by (auto simp: Let_def split: if_splits)
qed simp

lemma on_tpool_regions:
  assumes "\<And>t. raw_area (f t) = raw_area t" "\<And>t. raw_size (f t) = raw_size t"
  shows "map region (on_tpool a f ts) = map region ts"
  using assms by (induction ts) (simp_all add: region_def tpool_addr_def)

lemma on_tpool_addrs: "(\<And>t. tpool_addr (f t) = tpool_addr t) \<Longrightarrow> map tpool_addr (on_tpool a f ts) = map tpool_addr ts"
  by (induction ts) simp_all

text \<open>The block \<open>b\<close> lies in the region whose descriptor is at \<open>a\<close>.\<close>

definition home :: "tlsf_pool list \<Rightarrow> addr \<Rightarrow> addr \<Rightarrow> bool" where
  "home ts b a \<longleftrightarrow> (\<exists>t \<in> set ts. tpool_addr t = a \<and> b \<in> region t)"

lemma home_mono:
  assumes "home ts b a" "region ` set ts \<subseteq> region ` set ts'"
  shows "home ts' b a"
proof -
  obtain t where t: "t \<in> set ts" "tpool_addr t = a" "b \<in> region t"
    using assms(1) by (auto simp: home_def)
  then obtain t' where "t' \<in> set ts'" "region t' = region t"
    using assms(2) by (metis image_subset_iff imageE)
  then show ?thesis
    using t region_tpool [of t' t] by (auto simp: home_def)
qed

lemma chain_entry:
  assumes "chain_wf ts Ls" "(b, n) \<in> chain_live ts Ls" "home ts b a"
  obtains t xs where "(t, xs) \<in> set (zip ts Ls)" "(b, n) \<in> live t xs" "tpool_addr t = a" "t \<in> set ts"
proof -
  obtain t xs where t: "(t, xs) \<in> set (zip ts Ls)" "(b, n) \<in> live t xs"
    using assms(2) by (auto simp: chain_live_def)
  obtain u where u: "u \<in> set ts" "tpool_addr u = a" "b \<in> region u"
    using assms(3) by (auto simp: home_def)
  have ts: "t \<in> set ts" "tlsf_wf t xs"
    using assms(1) t(1) by (auto simp: chain_wf_def list_all2_iff dest: set_zip_leftD)
  have bt: "b \<in> region t"
    using live_region [OF ts(2) t(2)] by auto
  have "t = u"
  proof (rule ccontr)
    assume "t \<noteq> u"
    obtain i j where ij: "ts ! i = t" "ts ! j = u" "i < length ts" "j < length ts"
      using ts(1) u(1) by (metis in_set_conv_nth)
    have s: "sorted_wrt (\<lambda>t u. region t \<inter> region u = {}) ts"
      using assms(1) by (simp add: chain_wf_def)
    consider "i < j" | "j < i"
      using \<open>t \<noteq> u\<close> ij(1,2) by (metis linorder_neqE_nat)
    then have "region t \<inter> region u = {}"
      using sorted_wrt_nth_less [OF s, of i j] sorted_wrt_nth_less [OF s, of j i] ij by cases auto
    then show False
      using bt u(3) by blast
  qed
  then show thesis
    using that t ts(1) u(2) by blast
qed

lemma live_block_region:
  assumes "chain_wf ts Ls" "(b, n) \<in> chain_live ts Ls"
  obtains t where "t \<in> set ts" "b \<in> region t" "b + sizeof_tlsf_block \<in> region t" "{b ..< b + n} \<subseteq> region t" "0 < n" "b \<noteq> 0"
proof -
  obtain t xs where t: "(t, xs) \<in> set (zip ts Ls)" "(b, n) \<in> live t xs"
    using assms(2) by (auto simp: chain_live_def)
  have ts: "t \<in> set ts" "tlsf_wf t xs" "sizeof_tlsf_pool < raw_area t"
    using assms(1) t(1) by (auto simp: chain_wf_def list_all2_iff dest: set_zip_leftD)
  note r = live_region [OF ts(2) t(2)] and i = live_inside [OF ts(2) t(2)]
  have "b + sizeof_tlsf_block \<in> region t" "b \<noteq> 0"
    using i r(2) ts(3) by (auto simp: region_def tpool_addr_def)
  moreover have "b \<in> region t"
    using r by auto
  ultimately show thesis
    using that [OF ts(1)] r by simp
qed

text \<open>The memory an allocation may take from the operating system: a first region, and one more.\<close>

definition init_range :: "addr \<Rightarrow> addr set" where
  "init_range os = {os ..< os + sizeof_tlsf_pool + TLSF_INIT_SIZE}"

definition expand_range :: "addr \<Rightarrow> nat \<Rightarrow> addr set" where
  "expand_range os n = {os ..< os + sizeof_tlsf_pool + tlsf_expand_size n}"

lemma create_null: "tlsf_create_pool_custom m0 n 0 0 = None"
  by (simp add: tlsf_create_pool_custom_def Let_def)

lemma create_range:
  assumes "tlsf_create_pool_custom m0 n 0 os = Some t" "64 \<le> align_up8 n" "align_up8 n \<le> 2 ^ 30"
  shows "region t = {os ..< os + sizeof_tlsf_pool + align_up8 n}" "os \<noteq> 0"
proof -
  show "os \<noteq> 0"
    using assms(1) create_null by (metis option.distinct(1))
  then obtain u where "tlsf_create_pool_custom m0 n 0 os = Some u" "raw_area u = os + sizeof_tlsf_pool" "raw_size u = align_up8 n"
    by (rule tlsf_create_os [OF _ assms(2,3)])
  then show "region t = {os ..< os + sizeof_tlsf_pool + align_up8 n}"
    using assms(1) by (simp add: region_def tpool_addr_def)
qed

lemma ensure_root_regions:
  assumes "tlsf_ensure_root m0 os1 st = Some st1"
  shows "region ` set (tlsf_root st) \<subseteq> region ` set (tlsf_root st1)"
    "region ` set (tlsf_root st1) \<subseteq> region ` set (tlsf_root st) \<union> (if tlsf_root st = [] \<and> os1 \<noteq> 0 then {init_range os1} else {})"
    "pflags st1 = pflags st"
proof -
  have a: "align_up8 TLSF_INIT_SIZE = TLSF_INIT_SIZE" "64 \<le> align_up8 TLSF_INIT_SIZE" "align_up8 TLSF_INIT_SIZE \<le> 2 ^ 30"
    by (simp_all add: TLSF_INIT_SIZE_def align_up8_id)
  have c: "region t = init_range os1" if "tlsf_create_pool_custom m0 TLSF_INIT_SIZE 0 os1 = Some t" for t
    using create_range [OF that a(2,3)] a(1) by (simp add: init_range_def)
  show "region ` set (tlsf_root st) \<subseteq> region ` set (tlsf_root st1)"
    "region ` set (tlsf_root st1) \<subseteq> region ` set (tlsf_root st) \<union> (if tlsf_root st = [] \<and> os1 \<noteq> 0 then {init_range os1} else {})"
    "pflags st1 = pflags st"
    using assms by (auto simp: tlsf_ensure_root_def c create_null split: if_splits option.splits)
qed

lemma stamp_pair:
  "tlsf_stamp q b a req n = (st', p) \<Longrightarrow> tlsf_root st' = tlsf_root q \<and> pflags st' = pflags q \<and> p = b + 184"
  by (metis tlsf_stamp_keeps fst_conv snd_conv)

lemma alloc_regions:
  assumes "tlsf_alloc m0 os1 os2 st req = (st', p)" "req \<le> 2 ^ 28" "n = tlsf_total_needed (pflags st) req"
  shows "region ` set (tlsf_root st) \<subseteq> region ` set (tlsf_root st')
    \<and> region ` set (tlsf_root st') \<subseteq> region ` set (tlsf_root st) \<union> (if tlsf_root st = [] \<and> os1 \<noteq> 0 then {init_range os1} else {})
        \<union> (if os2 = 0 then {} else {expand_range os2 n})
    \<and> pflags st' = pflags st"
proof (cases "tlsf_ensure_root m0 os1 st")
  case None
  then show ?thesis
    using assms(1) by (auto simp: tlsf_alloc_def Let_def)
next
  case (Some st1)
  note e = ensure_root_regions [OF Some]
  have "n < 2 ^ 29" "n mod 8 = 0"
    using tlsf_total_needed_bounds [OF assms(2)] assms(3) by auto
  note X = tlsf_expand_size_bounds [OF this]
  have x: "64 \<le> align_up8 (tlsf_expand_size n)" "align_up8 (tlsf_expand_size n) \<le> 2 ^ 30"
    using X by simp_all
  note R = assms(1) [unfolded tlsf_alloc_def Let_def assms(3) [symmetric] Some option.case]
  show ?thesis
  proof (cases "tlsf_walk (tlsf_root st1) n")
    case (Some w)
    then obtain ts b a where w: "tlsf_walk (tlsf_root st1) n = Some (ts, b, a)"
      by (cases w) auto
    have "tlsf_stamp (st1\<lparr>tlsf_root := ts\<rparr>) b a req n = (st', p)"
      using R w by simp
    from stamp_pair [OF this] have "tlsf_root st' = ts" "pflags st' = pflags st1"
      by simp_all
    moreover have "region ` set ts = region ` set (tlsf_root st1)"
      using walk_regions [OF w] by (metis list.set_map)
    ultimately show ?thesis
      using e by auto
  next
    case None
    show ?thesis
    proof (cases "has_flag (pflags st1) MP_FLAG_STATIC_BUFFER
        \<or> tlsf_create_pool_custom m0 (tlsf_expand_size n) 0 os2 = None")
      case True
      then have "st' = st1"
        using R None by (auto split: option.splits if_splits)
      then show ?thesis
        using e by auto
    next
      case False
      then obtain t where t: "tlsf_create_pool_custom m0 (tlsf_expand_size n) 0 os2 = Some t"
        by auto
      have r: "region t = expand_range os2 n" "os2 \<noteq> 0"
        using create_range [OF t x] X(5) by (simp_all add: expand_range_def)
      have "region (tlsf_take_block t x n) = region t" for x
        by (simp add: region_def tpool_addr_def)
      then have "region ` set (tlsf_root st') = insert (expand_range os2 n) (region ` set (tlsf_root st1))" "pflags st' = pflags st1"
        using R None False t r(1) by (auto split: if_splits dest!: stamp_pair)
      then show ?thesis
        using e r(2) by auto
    qed
  qed
qed

lemma expand_fresh:
  assumes "req \<le> 2 ^ 28" "n = tlsf_total_needed (pflags st) req" "tlsf_ensure_root m0 os1 st = Some st1"
    "expand_range os2 n \<inter> (\<Union>t \<in> set (tlsf_root st). region t) = {}" "os1 \<noteq> 0 \<Longrightarrow> expand_range os2 n \<inter> init_range os1 = {}"
  shows "os_fresh os2 (tlsf_expand_size n) (tlsf_root st1)"
proof -
  have "n < 2 ^ 29" "n mod 8 = 0"
    using tlsf_total_needed_bounds [OF assms(1)] assms(2) by auto
  then have "align_up8 (tlsf_expand_size n) = tlsf_expand_size n"
    by (rule tlsf_expand_size_bounds)
  moreover have "expand_range os2 n \<inter> region t = {}" if "t \<in> set (tlsf_root st1)" for t
  proof -
    have "region t \<in> region ` set (tlsf_root st) \<union> (if tlsf_root st = [] \<and> os1 \<noteq> 0 then {init_range os1} else {})"
      using ensure_root_regions(2) [OF assms(3)] that by blast
    then show ?thesis
      using assms(4,5) by (auto split: if_splits)
  qed
  ultimately show ?thesis
    by (simp add: os_fresh_def expand_range_def)
qed

text \<open>The bytes from the header of a block to the end of what was asked for, canary included.\<close>

definition block_need :: "nat \<Rightarrow> mp_block_header \<Rightarrow> nat" where
  "block_need f h = sizeof_mp_block_header + requested_size h + canary_len f"

text \<open>What the header of a block of the TLSF tier says.\<close>

definition tlsf_stamped :: "tlsf_pool list \<Rightarrow> addr \<Rightarrow> mp_block_header \<Rightarrow> bool" where
  "tlsf_stamped ts b h \<longleftrightarrow> magic h = MP_MAGIC_HEAD \<and> alloc_type h = ALLOC_TYPE_TLSF \<and> raw_base h = b \<and> home ts b (subpool h)
     \<and> hflags h AND MP_BLOCK_FLAG_TLSF_ARENA = 0"

lemma stamp_tlsf_header:
  assumes "184 \<le> n" "n < 2 ^ 64" "tlsf_stamp q b a req n = (st', p)" "home (tlsf_root q) b a"
  shows "tlsf_stamped (tlsf_root q) b (hdrs st' (b + 32))" "hflags (hdrs st' (b + 32)) = 0"
    "requested_size (hdrs st' (b + 32)) = req" "usable_size (hdrs st' (b + 32)) = n - 184"
    "\<And>y. y \<noteq> b + 32 \<Longrightarrow> hdrs st' y = hdrs q y"
proof -
  have st': "st' = fst (tlsf_stamp q b a req n)"
    using assms(3) by simp
  note H = tlsf_stamp_header [OF assms(1,2), where pool = q and b = b and p = a and req = req, folded st']
  have "magic (hdrs st' (b + 32)) = MP_MAGIC_HEAD"
    by (simp add: st' tlsf_stamp_def Let_def sizeof_tlsf_block_def)
  then show "tlsf_stamped (tlsf_root q) b (hdrs st' (b + 32))"
    using H assms(4) by (simp add: tlsf_stamped_def)
  show "hflags (hdrs st' (b + 32)) = 0" "requested_size (hdrs st' (b + 32)) = req" "usable_size (hdrs st' (b + 32)) = n - 184"
    "\<And>y. y \<noteq> b + 32 \<Longrightarrow> hdrs st' y = hdrs q y"
    using H by simp_all
qed

lemma tlsf_alloc_step:
  assumes wf: "chain_wf (tlsf_root st) Ls" and req: "req \<le> 2 ^ 28" and n: "n = tlsf_total_needed (pflags st) req"
    and fresh: "\<And>st1. tlsf_ensure_root m0 os1 st = Some st1 \<Longrightarrow> os2 \<noteq> 0 \<Longrightarrow> os_fresh os2 (tlsf_expand_size n) (tlsf_root st1)"
    and r: "tlsf_alloc m0 os1 os2 st req = (st', p)"
  shows "\<exists>Ls'. chain_wf (tlsf_root st') Ls' \<and>
    (if p = 0 then chain_live (tlsf_root st') Ls' = chain_live (tlsf_root st) Ls \<and> hdrs st' = hdrs st
     else \<exists>b s. p = b + 184 \<and> chain_live (tlsf_root st') Ls' = insert (b, s) (chain_live (tlsf_root st) Ls)
       \<and> b \<notin> fst ` chain_live (tlsf_root st) Ls \<and> n \<le> s
       \<and> tlsf_stamped (tlsf_root st') b (hdrs st' (b + 32)) \<and> hflags (hdrs st' (b + 32)) = 0
       \<and> requested_size (hdrs st' (b + 32)) = req \<and> (\<forall>y. y \<noteq> b + 32 \<longrightarrow> hdrs st' y = hdrs st y))"
proof -
  note N = tlsf_total_needed_bounds [OF req, of "pflags st", folded n]
  show ?thesis
  proof (rule tlsf_alloc_cases [OF wf req n fresh r])
    fix Ls'
    assume "p = 0" "chain_wf (tlsf_root st') Ls'" "hdrs st' = hdrs st"
      "chain_live (tlsf_root st') Ls' = chain_live (tlsf_root st) Ls"
    then show ?thesis
      by auto
  next
    fix st2 ts2 Ls2 ts' b a
    assume block: "chain_wf ts2 Ls2" "chain_live ts2 Ls2 = chain_live (tlsf_root st) Ls"
      "tlsf_walk ts2 n = Some (ts', b, a)" "(st', p) = tlsf_stamp (st2\<lparr>tlsf_root := ts'\<rparr>) b a req n" "hdrs st2 = hdrs st"
    have n30: "n < 2 ^ 30"
      using N(5) by simp
    obtain Ls' s t xs where W: "chain_wf ts' Ls'" "n \<le> s" "chain_live ts' Ls' = insert (b, s) (chain_live ts2 Ls2)"
      "b \<notin> fst ` chain_live ts2 Ls2" "(t, xs) \<in> set (zip ts' Ls')" "tpool_addr t = a" "(b, s) \<in> live t xs"
      using tlsf_walk_live [OF block(1,3) N(1,4) n30] by metis
    have "t \<in> set ts'" "tlsf_wf t xs"
      using W(1,5) by (auto simp: chain_wf_def list_all2_iff dest: set_zip_leftD)
    then have home: "home ts' b a"
      using live_region [OF _ W(7)] W(6) unfolding home_def by fastforce
    have n: "184 \<le> n" "n < 2 ^ 64"
      using N(2,5) by simp_all
    note st = block(4) [symmetric]
    have root: "tlsf_root st' = ts'" "p = b + 184"
      using stamp_pair [OF st] by simp_all
    note H = stamp_tlsf_header [OF n st, simplified, OF home]
    show ?thesis
      using W(1-4) H root block(2,5) by (intro exI [of _ Ls']) auto
  qed
qed

section \<open>Blocks kept by a thread cache\<close>

lemma live_once:
  assumes "chain_wf ts Ls" "home ts b a" "(b, n) \<in> chain_live ts Ls"
  shows "fst ` (chain_live ts Ls - {(b, n)}) = fst ` chain_live ts Ls - {b}"
proof -
  have "m = n" if m: "(b, m) \<in> chain_live ts Ls" for m
  proof -
    obtain t xs where t: "(t, xs) \<in> set (zip ts Ls)" "(b, n) \<in> live t xs" "tpool_addr t = a" "t \<in> set ts"
      by (rule chain_entry [OF assms(1,3,2)])
    obtain u ys where u: "(u, ys) \<in> set (zip ts Ls)" "(b, m) \<in> live u ys" "tpool_addr u = a" "u \<in> set ts"
      by (rule chain_entry [OF assms(1) m assms(2)])
    have "Some t = Some u"
      using get_tpool_in [OF assms(1) t(1)] get_tpool_in [OF assms(1) u(1)] t(3) u(3) by simp
    then show ?thesis
      using t(2) u(2) by (simp add: live_iff)
  qed
  then show ?thesis
    by force
qed

lemma live_size:
  assumes "chain_wf ts Ls" "home ts b a" "get_tpool a ts = Some r" "(b, n) \<in> chain_live ts Ls"
  shows "n = bsz r b"
proof -
  obtain t xs where t: "(t, xs) \<in> set (zip ts Ls)" "(b, n) \<in> live t xs" "tpool_addr t = a" "t \<in> set ts"
    by (rule chain_entry [OF assms(1,4,2)])
  then have "t = r"
    using get_tpool_in [OF assms(1) t(1)] assms(3) by simp
  then show ?thesis
    using t(2) by (simp add: live_iff)
qed

lemma chain_change:
  assumes wf: "chain_wf ts Ls" and h: "home ts b a" and b: "b \<in> fst ` chain_live ts Ls"
    and f: "\<And>t. raw_area (f t) = raw_area t" "\<And>t. raw_size (f t) = raw_size t"
    and g: "\<And>t xs. tlsf_wf t xs \<Longrightarrow> b \<in> set xs \<Longrightarrow> \<not> bfree t b \<Longrightarrow> get_tpool a ts = Some t \<Longrightarrow>
      \<exists>xs'. tlsf_wf (f t) xs' \<and> live (f t) xs' = A t \<union> (live t xs - {(b, bsz t b)})"
  shows "\<exists>Ls' t. chain_wf (on_tpool a f ts) Ls' \<and> get_tpool a ts = Some t
    \<and> fst ` chain_live (on_tpool a f ts) Ls' = fst ` A t \<union> (fst ` chain_live ts Ls - {b})
    \<and> chain_live (on_tpool a f ts) Ls' \<subseteq> A t \<union> chain_live ts Ls \<and> (b, bsz t b) \<in> chain_live ts Ls
    \<and> region ` set (on_tpool a f ts) = region ` set ts"
proof -
  obtain n where n: "(b, n) \<in> chain_live ts Ls"
    using b by force
  obtain t xs where t: "(t, xs) \<in> set (zip ts Ls)" "(b, n) \<in> live t xs" "tpool_addr t = a" "t \<in> set ts"
    by (rule chain_entry [OF wf n h])
  have wt: "tlsf_wf t xs"
    using wf t(1) by (auto simp: chain_wf_def list_all2_iff)
  have l: "b \<in> set xs" "\<not> bfree t b" "n = bsz t b"
    using t(2) by (simp_all add: live_iff)
  have gt: "get_tpool a ts = Some t"
    using get_tpool_in [OF wf t(1)] t(3) by simp
  obtain xs' where x: "tlsf_wf (f t) xs'" "live (f t) xs' = A t \<union> (live t xs - {(b, n)})"
    using g [OF wt l(1,2) gt] l(3) by blast
  have "{(b, n)} \<subseteq> live t xs"
    using t(2) by simp
  from chain_on_tpool [where f = f, OF wf t(1) x(1) f this x(2)] obtain Ls' where L: "chain_wf (on_tpool a f ts) Ls'"
    "chain_live (on_tpool a f ts) Ls' = A t \<union> (chain_live ts Ls - {(b, n)})"
    "map region (on_tpool a f ts) = map region ts"
    unfolding t(3) by blast
  have "region ` set (on_tpool a f ts) = region ` set ts"
    using L(3) by (metis list.set_map)
  then show ?thesis
    using L(1,2) gt live_once [OF wf h n] n l(3) by (intro exI [of _ Ls'] exI [of _ t]) (auto simp: image_Un)
qed

lemma return_cached_area [simp]:
  "raw_area (tlsf_return_cached t b) = raw_area t" "raw_size (tlsf_return_cached t b) = raw_size t"
  by (simp_all add: tlsf_return_cached_def tlsf_insert_free_block_def tlsf_loads)

lemma chain_return_cached:
  assumes "chain_wf ts Ls" "home ts b a" "b \<in> fst ` chain_live ts Ls"
  shows "\<exists>Ls'. chain_wf (on_tpool a (\<lambda>t. tlsf_return_cached t b) ts) Ls'
    \<and> fst ` chain_live (on_tpool a (\<lambda>t. tlsf_return_cached t b) ts) Ls' = fst ` chain_live ts Ls - {b}
    \<and> chain_live (on_tpool a (\<lambda>t. tlsf_return_cached t b) ts) Ls' \<subseteq> chain_live ts Ls
    \<and> region ` set (on_tpool a (\<lambda>t. tlsf_return_cached t b) ts) = region ` set ts"
proof -
  have "\<exists>xs'. tlsf_wf (tlsf_return_cached t b) xs' \<and> live (tlsf_return_cached t b) xs' = {} \<union> (live t xs - {(b, bsz t b)})"
    if "tlsf_wf t xs" "b \<in> set xs" "\<not> bfree t b" for t xs
    using tlsf_return_cached [OF that] by (intro exI [of _ xs]) (auto simp: live_def)
  then show ?thesis
    using chain_change [OF assms, where f = "\<lambda>t. tlsf_return_cached t b" and A = "\<lambda>_. {}"] by auto
qed

lemma chain_restamp:
  assumes "chain_wf ts Ls" "home ts b a" "b \<in> fst ` chain_live ts Ls" "get_tpool a ts = Some r" "bsz r b = n"
  defines "f \<equiv> \<lambda>t. set_size_and_flags b (n OR (word_of t b AND BLOCK_STATE_PREV_FREE)) t"
  shows "\<exists>Ls'. chain_wf (on_tpool a f ts) Ls' \<and> fst ` chain_live (on_tpool a f ts) Ls' = fst ` chain_live ts Ls
    \<and> chain_live (on_tpool a f ts) Ls' \<subseteq> chain_live ts Ls \<and> region ` set (on_tpool a f ts) = region ` set ts"
proof -
  have f: "raw_area (f t) = raw_area t" "raw_size (f t) = raw_size t" for t
    by (simp_all add: f_def tlsf_loads)
  have "\<exists>xs'. tlsf_wf (f t) xs' \<and> live (f t) xs' = {(b, bsz t b)} \<union> (live t xs - {(b, bsz t b)})"
    if t: "tlsf_wf t xs" "b \<in> set xs" "\<not> bfree t b" "get_tpool a ts = Some t" for t xs
  proof -
    have "bsz t b = n" "n mod 8 = 0" "n < 2 ^ 30"
      using assms(4,5) t(4) tlsf_wf_block(6,7) [OF t(1,2)] by auto
    then have "blk_size n = n" "\<not> blk_free n"
      using blk_aligned [of n] by auto
    then have k: "bsz (f t) = bsz t" "bfree (f t) = bfree t" "bpp (f t) = bpp t" "bnx (f t) = bnx t" "bpv (f t) = bpv t"
      "blocks (f t) = blocks t" "fl_bitmap (f t) = fl_bitmap t" "sl_bitmap (f t) = sl_bitmap t"
      using \<open>bsz t b = n\<close> t(3) by (auto simp: f_def tlsf_loads fun_eq_iff)
    have "tlsf_idx (f t) (free_blocks t xs)"
      by (rule tlsf_idx_frame [OF tlsf_wfD(2) [OF t(1)]]) (simp_all add: k)
    then have "tlsf_wf (f t) xs"
      using tlsf_wfD [OF t(1)] by (simp add: tlsf_wf_def tlsf_shape_def tlsf_sentinel_def free_blocks_def k f)
    moreover have "live (f t) xs = {(b, bsz t b)} \<union> (live t xs - {(b, bsz t b)})"
      using t(2,3) by (auto simp: live_def k)
    ultimately show ?thesis
      by blast
  qed
  then have "\<exists>Ls' t. chain_wf (on_tpool a f ts) Ls' \<and> get_tpool a ts = Some t
    \<and> fst ` chain_live (on_tpool a f ts) Ls' = fst ` {(b, bsz t b)} \<union> (fst ` chain_live ts Ls - {b})
    \<and> chain_live (on_tpool a f ts) Ls' \<subseteq> {(b, bsz t b)} \<union> chain_live ts Ls \<and> (b, bsz t b) \<in> chain_live ts Ls
    \<and> region ` set (on_tpool a f ts) = region ` set ts"
    by (intro chain_change [OF assms(1-3) f, where A = "\<lambda>t. {(b, bsz t b)}"])
  then obtain Ls' t where L: "chain_wf (on_tpool a f ts) Ls' \<and> get_tpool a ts = Some t
    \<and> fst ` chain_live (on_tpool a f ts) Ls' = fst ` {(b, bsz t b)} \<union> (fst ` chain_live ts Ls - {b})
    \<and> chain_live (on_tpool a f ts) Ls' \<subseteq> {(b, bsz t b)} \<union> chain_live ts Ls \<and> (b, bsz t b) \<in> chain_live ts Ls
    \<and> region ` set (on_tpool a f ts) = region ` set ts"
    by (elim exE)
  have "fst ` {(b, bsz t b)} \<union> (fst ` chain_live ts Ls - {b}) = fst ` chain_live ts Ls"
    using assms(3) by (simp add: insert_absorb)
  then show ?thesis
    using L by (intro exI [of _ Ls']) auto
qed

section \<open>Which caches belong to the pool\<close>

abbreviation owners :: "slab_pool \<Rightarrow> nat \<Rightarrow> bool" where
  "owners st \<equiv> \<lambda>t. owned (tls st t)"

lemma links_tls [simp]: "tls (push_page k q st) = tls st" "tls (pop_first_page k q st) = tls st" "tls (unlink_page k q st) = tls st"
  "tls (upd_page q f st) = tls st" "tls (set_slot_next s v st) = tls st"
  by (simp_all add: push_page_def pop_first_page_def unlink_page_def upd_page_def set_slot_next_def set_pg_next_def set_pg_prev_def
      set_page_head_def Let_def)

lemma create_page_tls: "slab_create_page st c = (st', q) \<Longrightarrow> tls st' = tls st"
proof -
  have "tls (fold (link_slot a b n) xs st) = tls st" for a b n xs st
    by (induction xs arbitrary: st) (simp_all add: link_slot_def)
  then show "slab_create_page st c = (st', q) \<Longrightarrow> tls st' = tls st"
    by (auto simp: slab_create_page_def Let_def split: list.splits if_splits)
qed

lemma take_page_tls: "slab_take_page st c = (st', q) \<Longrightarrow> tls st' = tls st"
  by (auto simp: slab_take_page_def Let_def dest: create_page_tls split: if_splits prod.splits)

lemma pop_slot_tls: "slab_pop_slot st c q = (st', s) \<Longrightarrow> tls st' = tls st"
  by (auto simp: slab_pop_slot_def Let_def split: if_splits)

lemma tls_push_owners: "owners (tls_push t c s st) = owners st"
  by (auto simp: tls_push_def Let_def)

lemma tls_pop_owners: "tls_pop t c st = (st', s) \<Longrightarrow> owners st' = owners st"
  by (auto simp: tls_pop_def Let_def)

lemma drain_owners: "drain_loop n t c st = (st', got) \<Longrightarrow> owners st' = owners st"
proof (induction n arbitrary: st st' got)
  case (Suc n)
  obtain st1 q where 1: "slab_take_page st c = (st1, q)"
    by fastforce
  show ?case
  proof (cases "q = 0")
    case True
    then show ?thesis
      using Suc.prems 1 take_page_tls [OF 1] by auto
  next
    case False
    obtain st2 s where 2: "slab_pop_slot st1 c q = (st2, s)"
      by fastforce
    obtain st3 g where 3: "drain_loop n t c (tls_push t c s st2) = (st3, g)"
      by fastforce
    have "st' = st3"
      using Suc.prems 1 2 3 False by simp
    then show ?thesis
      using Suc.IH [OF 3] tls_push_owners take_page_tls [OF 1] pop_slot_tls [OF 2] by simp
  qed
qed simp

lemma refill_owners:
  assumes "slab_alloc_with_tls_refill st t c = (st', s)"
  shows "owners st' = owners st"
proof -
  obtain st1 got where d: "drain_loop 64 t c st = (st1, got)"
    by fastforce
  let ?st1 = "fst (tls_cache_drain_slots st t c 64)"
  have 1: "owners ?st1 = owners st"
    using drain_owners [OF d] by (simp add: tls_cache_drain_slots_def d add_allocated_def)
  have "owners st3 = owners st2" if "refill_direct st2 c = (st3, s3)" for st2 st3 s3
    using that by (auto simp: refill_direct_def Let_def add_allocated_def dest!: create_page_tls pop_slot_tls split: if_splits prod.splits)
  then show ?thesis
    using assms 1 tls_pop_owners [of t c ?st1] by (auto simp: slab_alloc_with_tls_refill_def Let_def split: if_splits prod.splits)
qed

lemma take_slots_tls: "take_slots n st c = (st', ss) \<Longrightarrow> tls st' = tls st"
proof (induction n arbitrary: st st' ss)
  case (Suc n)
  then show ?case
    using take_page_tls pop_slot_tls by (auto simp: Let_def split: if_splits prod.splits)
qed simp

lemma chain_slots_tls [simp]: "tls (chain_slots ss q st) = tls st"
  by (induction ss q st rule: chain_slots.induct) simp_all

lemma percpu_refill_tls [simp]: "tls (percpu_refill st k c) = tls st"
  using take_slots_tls [of MP_PERCPU_MAX_BATCH st c]
  by (auto simp: percpu_refill_def slab_alloc_batch_def add_allocated_def Let_def split: option.splits list.splits prod.splits)

lemma percpu_pop_tls: "percpu_pop cas st k c = (st', s) \<Longrightarrow> tls st' = tls st"
  by (auto simp: percpu_pop_def Let_def split: option.splits if_splits)

lemma tier_slot_owners:
  assumes "tier_slot x y st t k c = (st', s)"
  shows "owners st' = owners st"
proof -
  obtain st1 s1 where 1: "(if 0 < tcounts (tls st t) c then tls_pop t c st
         else if percpu_heads st \<noteq> None
         then let (st, slot) = percpu_pop x st k c
              in if slot = 0 then percpu_pop y (percpu_refill st k c) k c else (st, slot)
         else (st, 0)) = (st1, s1)"
    by fastforce
  have "owners st1 = owners st"
    using 1 tls_pop_owners [of t c st] by (auto simp: Let_def dest!: percpu_pop_tls split: if_splits prod.splits)
  then show ?thesis
    using assms 1 refill_owners [of st1 t c] unfolding tier_slot_def by (auto split: if_splits)
qed

section \<open>The slab tier as a whole\<close>

definition slab_stamped :: "addr \<Rightarrow> mp_block_header \<Rightarrow> bool" where
  "slab_stamped s h \<longleftrightarrow> magic h = MP_MAGIC_HEAD \<and> alloc_type h = ALLOC_TYPE_SLAB \<and> hflags h = MP_BLOCK_FLAG_COUNTED \<and> raw_base h = s"

lemma slab_tier_alloc_step:
  assumes inv: "slab_inv 0 st D C H" "held_ok st D H" and c: "c < SLAB_CLASS_COUNT" and maps: "maps_ok st D" "apart_from U st D"
    and own: "owned (tls st t)"
  shows "\<exists>st' s D' C'. slab_tier_alloc x y slf st t k c req = Some (st', if s = 0 then 0 else s + sizeof_mp_block_header)
     \<and> slab_inv 0 st' D' C' (if s = 0 then H else insert s H) \<and> held_ok st' D' (if s = 0 then H else insert s H)
     \<and> apart_from U st' D' \<and> owners st' = owners st \<and> sflags st' = sflags st \<and> (\<forall>z \<in> H. shdr st' z = shdr st z)
     \<and> (s \<noteq> 0 \<longrightarrow> s \<notin> H \<and> slab_stamped s (shdr st' s) \<and> requested_size (shdr st' s) = req \<and> slab_class (shdr st' s) = c)
     \<and> slot_sizes st' = slot_sizes st"
proof -
  obtain st' s where 1: "slab_tier_alloc x y slf st t k c req = Some (st', if s = 0 then 0 else s + sizeof_mp_block_header)"
    "allocated st D H c st' s"
    using inv_slab_tier_alloc [OF inv(1) c maps(1)] by blast
  obtain D' C' where g: "grows H st D st' D'"
    "if s = 0 then slab_inv 0 st' D' C' H else slab_inv 0 st' D' C' (insert s H) \<and> s \<notin> H \<and> s \<in> class_slots st' D' c"
    using 1(2) by (auto simp: allocated_def answers_def)
  have held: "held_ok st' D' H"
    using held_grows [OF inv(2) g(1)] by simp
  have own': "tls_cache_validate_owner st t = st"
    using own by (simp add: tls_cache_validate_owner_def)
  obtain st1 where h: "(if has_flag (sflags st) MP_FLAG_THREAD_SAFE \<and> remote_free_pending st then remote_free_harvest_all st else Some st) = Some st1"
    "tls st1 = tls st"
    using inv_harvest_all [OF inv(1)] by (metis (full_types))
  obtain st2 s2 where 2: "tier_slot x y st1 t k c = (st2, s2)"
    by fastforce
  have r: "slab_tier_alloc x y slf st t k c req = Some (if s2 = 0 then (st2, 0)
      else (stamp_payload (s2 + sizeof_mp_block_header) req (stamp_slab_header slf s2 c req st2), s2 + sizeof_mp_block_header))"
    using h(1) 2 by (simp add: slab_tier_alloc_def own' Let_def)
  then have s2: "s2 = s"
    using 1(1) by (simp add: sizeof_mp_block_header_def split: if_splits)
  have p: "tls (stamp_payload a n q) = tls q" "shdr (stamp_payload a n q) = shdr q" "sflags (stamp_payload a n q) = sflags q" for a n q
    by (simp_all add: stamp_payload_def Let_def)
  have "owners st' = owners st" "s \<noteq> 0 \<Longrightarrow> slab_stamped s (shdr st' s) \<and> requested_size (shdr st' s) = req"
    using r 1(1) s2 tier_slot_owners [OF 2] h(2) by (auto simp: p stamp_slab_header_def slab_stamped_def Let_def split: if_splits)
  moreover have "held_ok st' D' (insert s H)" if "s \<noteq> 0"
    using held g(2) 1(2) that c by (simp add: allocated_def held_ok_def)
  moreover have "apart_from U st' D'" "sflags st' = sflags st" "\<forall>z \<in> H. shdr st' z = shdr st z" "slot_sizes st' = slot_sizes st"
    using g(1) maps(2) by (simp_all add: grows_def)
  moreover have "s \<noteq> 0 \<Longrightarrow> slab_class (shdr st' s) = c"
    using 1(2) by (simp add: allocated_def)
  ultimately show ?thesis
    using 1(1) g(2) held
    by (intro exI [of _ st'] exI [of _ s] exI [of _ D'] exI [of _ C']) (auto split: if_splits)
qed

lemma place_slot_step:
  assumes inv: "slab_inv 0 st D C H" "held_ok st D H" "s \<in> H" and own: "owned (tls st t)" and "apart_from U st D"
  shows "\<exists>D' C'. slab_inv 0 (place_slot st t k s) D' C' (H - {s}) \<and> held_ok (place_slot st t k s) D' (H - {s})
    \<and> apart_from U (place_slot st t k s) D' \<and> owners (place_slot st t k s) = owners st
    \<and> sflags (place_slot st t k s) = sflags st \<and> slot_sizes (place_slot st t k s) = slot_sizes st \<and> (\<forall>z \<in> H - {s}. shdr (place_slot st t k s) z = shdr st z)"
proof -
  let ?st = "place_slot st t k s"
  obtain D' C' where 1: "slab_inv 0 ?st D' C' (H - {s})" "grows (H - {s}) st D ?st D'"
    using inv_place_slot [OF inv own] by blast
  have "held_ok ?st D' (H - {s})"
    using held_grows [OF held_mono [OF inv(2), of "H - {s}"] 1(2)] by blast
  moreover have "tls (slab_free st' h) = tls st'" for st' h
    by (auto simp: slab_free_def slab_free_nolock_def slab_transitions_def sub_allocated_def Let_def split: prod.splits)
  then have "owners ?st = owners st"
    by (auto simp: place_slot_def tls_push_owners remote_free_push_def percpu_push_def Let_def split: option.splits if_splits)
  ultimately show ?thesis
    using 1 assms(5) unfolding grows_def by blast
qed

end
