(* ===== verification/Pool_Inv.thy ===== *)
theory Pool_Inv
  imports Pool_Tiers
begin

text \<open>
  The invariant of a whole pool.  Its memory is made of slab pages, TLSF regions, blocks of the operating system and
  the emergency buffer, which do not overlap; every block somebody holds lies in one of them, with a header that
  says so; a TLSF block is held, cached by one thread, or free; the list of active blocks and the counters
  describe exactly the blocks that are held.
\<close>

section \<open>Memory\<close>

definition span :: "addr \<times> nat \<Rightarrow> addr set" where
  "span r = {fst r ..< fst r + snd r}"

definition regions :: "memory_pool \<Rightarrow> addr set" where
  "regions p = (\<Union>t \<in> set (tlsf_root (tlsf p)). region t)"

definition os_mem :: "memory_pool \<Rightarrow> addr set" where
  "os_mem p = (\<Union>r \<in> set (os_ranges p). span r)"

lemma area_of_eq: "area_of p a = (if a \<in> regions p then TlsfArea else if a \<in> os_mem p then OsArea else SlabArea)"
proof -
  have "in_range a (region_range t) \<longleftrightarrow> a \<in> region t" for t
    by (auto simp: in_range_def region_range_def region_def)
  then show ?thesis
    by (simp add: area_of_def regions_def os_mem_def in_range_def span_def)
qed

definition foreign_pages :: "memory_pool \<Rightarrow> addr set" where
  "foreign_pages p = page_of ` (regions p \<union> os_mem p)"

lemma same_page: "page_of a = q \<longleftrightarrow> q mod SLAB_PAGE_SIZE = 0 \<and> q \<le> a \<and> a < q + SLAB_PAGE_SIZE"
proof
  assume r: "q mod SLAB_PAGE_SIZE = 0 \<and> q \<le> a \<and> a < q + SLAB_PAGE_SIZE"
  then have "(a - q) + q = a" "a - q < SLAB_PAGE_SIZE"
    by auto
  then have "a mod SLAB_PAGE_SIZE = a - q"
    using r by (metis mod_add_right_eq add_0_right mod_less)
  then show "page_of a = q"
    using r by (simp add: page_of_def)
qed (use page_of_props in auto)

section \<open>Held blocks of each tier\<close>

text \<open>The class found for a size holds that size, and what was asked for fits the class of the slot.\<close>

definition sizes_match :: "slab_config \<Rightarrow> slab_pool \<Rightarrow> bool" where
  "sizes_match cfg st \<longleftrightarrow> (\<forall>n. get_slab_class_index cfg n < SLAB_CLASS_COUNT \<longrightarrow> n \<le> slot_sizes st ! get_slab_class_index cfg n)"

definition slot_fits :: "slab_pool \<Rightarrow> addr \<Rightarrow> bool" where
  "slot_fits st s \<longleftrightarrow> requested_size (shdr st s) \<le> slot_sizes st ! slab_class (shdr st s)"

definition slab_part :: "memory_pool \<Rightarrow> addr set \<Rightarrow> bool" where
  "slab_part p Hs \<longleftrightarrow> sflags (slab p) = pool_flags p \<and> sizes_match (classes p) (slab p)
     \<and> (\<forall>s \<in> Hs. slab_stamped s (shdr (slab p) s) \<and> slot_fits (slab p) s)
     \<and> (\<exists>D C. slab_inv 0 (slab p) D C Hs \<and> held_ok (slab p) D Hs \<and> (\<forall>k. set (D k) \<inter> foreign_pages p = {}))"

text \<open>The stack of blocks a thread keeps for one size, oldest first.\<close>

definition stack_of :: "tlsf_thread_cache \<Rightarrow> nat \<Rightarrow> (addr \<times> addr) list \<Rightarrow> bool" where
  "stack_of c i es \<longleftrightarrow> tlsf_counts c i = length es \<and> length es \<le> TLSF_CACHE_MAX_SLOTS
     \<and> tlsf_slots c i = (if es = [] then 0 else i * TLSF_CACHE_MAX_SLOTS + length es)
     \<and> (\<forall>j < length es. let e = tlsf_entries c (i * TLSF_CACHE_MAX_SLOTS + j)
          in es ! j = (cblock e, ctpool e) \<and> cnext e = (if j = 0 then 0 else i * TLSF_CACHE_MAX_SLOTS + j))"

definition cached :: "(nat \<Rightarrow> nat \<Rightarrow> (addr \<times> addr) list) \<Rightarrow> addr set" where
  "cached E = (\<Union>t i. fst ` set (E t i))"

definition caches :: "memory_pool \<Rightarrow> (nat \<Rightarrow> nat \<Rightarrow> (addr \<times> addr) list) \<Rightarrow> bool" where
  "caches p E \<longleftrightarrow>
     (\<forall>t i. if owned (tls (slab p) t) \<and> i < TLSF_CACHE_SIZES then stack_of (tcaches p t) i (E t i) else E t i = [])
     \<and> (\<forall>t i. distinct (map fst (E t i)))
     \<and> (\<forall>t i u j. (t, i) \<noteq> (u, j) \<longrightarrow> fst ` set (E t i) \<inter> fst ` set (E u j) = {})
     \<and> (\<forall>t i. \<forall>(b, a) \<in> set (E t i). home (tlsf_root (tlsf p)) b a)"

text \<open>What was asked for fits the blocks.\<close>

definition tlsf_fit :: "nat \<Rightarrow> (addr \<Rightarrow> mp_block_header) \<Rightarrow> addr set \<Rightarrow> (addr \<times> nat) set \<Rightarrow> bool" where
  "tlsf_fit f hs T B \<longleftrightarrow> (\<forall>b n. (b, n) \<in> B \<longrightarrow> b \<in> T \<longrightarrow> sizeof_tlsf_block + block_need f (hs (b + sizeof_tlsf_block)) \<le> n)"

definition tlsf_part :: "memory_pool \<Rightarrow> addr set \<Rightarrow> bool" where
  "tlsf_part p T \<longleftrightarrow> pflags (tlsf p) = pool_flags p
     \<and> (\<forall>b \<in> T. tlsf_stamped (tlsf_root (tlsf p)) b (hdrs (tlsf p) (b + sizeof_tlsf_block)))
     \<and> (\<exists>Ls E. chain_wf (tlsf_root (tlsf p)) Ls \<and> fst ` chain_live (tlsf_root (tlsf p)) Ls = T \<union> cached E
          \<and> T \<inter> cached E = {} \<and> caches p E \<and> tlsf_fit (pool_flags p) (hdrs (tlsf p)) T (chain_live (tlsf_root (tlsf p)) Ls))"

lemma tlsf_fit_mono:
  assumes "tlsf_fit f hs T B" "B' \<subseteq> B" "T' \<subseteq> T" "\<And>b. b \<in> T' \<Longrightarrow> requested_size (hs' (b + sizeof_tlsf_block)) = requested_size (hs (b + sizeof_tlsf_block))"
  shows "tlsf_fit f hs' T' B'"
  using assms unfolding tlsf_fit_def block_need_def by (metis in_mono)

lemma tlsf_fit_insert:
  assumes "tlsf_fit f hs T B" "b \<notin> fst ` B" "sizeof_tlsf_block + block_need f (hs' (b + sizeof_tlsf_block)) \<le> s" "b \<notin> T"
    "\<And>y. y \<noteq> b + sizeof_tlsf_block \<Longrightarrow> hs' y = hs y"
  shows "tlsf_fit f hs' (insert b T) (insert (b, s) B)"
proof -
  have "sizeof_tlsf_block + block_need f (hs' (c + sizeof_tlsf_block)) \<le> m" if "(c, m) \<in> insert (b, s) B" "c \<in> insert b T" for c m
  proof (cases "c = b")
    case True
    then have "m = s"
      using that(1) assms(2) by force
    then show ?thesis
      using True assms(3) by simp
  next
    case False
    then show ?thesis
      using that assms(1) assms(5) [of "c + sizeof_tlsf_block"] by (auto simp: tlsf_fit_def)
  qed
  then show ?thesis
    by (simp add: tlsf_fit_def)
qed

definition os_stamped :: "nat \<Rightarrow> addr \<Rightarrow> mp_block_header \<Rightarrow> bool" where
  "os_stamped ty raw h \<longleftrightarrow> magic h = MP_MAGIC_HEAD \<and> alloc_type h = ty \<and> hflags h = MP_BLOCK_FLAG_COUNTED \<and> raw_base h = raw"

definition os_part :: "memory_pool \<Rightarrow> bool" where
  "os_part p \<longleftrightarrow> sorted_wrt (\<lambda>r r'. span r \<inter> span r' = {}) (os_ranges p) \<and> os_mem p \<inter> regions p = {}
     \<and> (\<forall>(raw, n) \<in> set (os_blocks p). raw \<noteq> 0 \<and> 0 < n \<and> os_stamped ALLOC_TYPE_OS raw (ohdr p raw) \<and> block_need (pool_flags p) (ohdr p raw) \<le> n)
     \<and> (emergency_used p \<longrightarrow> emergency_buf p \<noteq> 0 \<and> 0 < emergency_size p
          \<and> os_stamped ALLOC_TYPE_EMERGENCY (emergency_buf p) (ohdr p (emergency_buf p))
          \<and> block_need (pool_flags p) (ohdr p (emergency_buf p)) \<le> emergency_size p)"

definition os_held :: "memory_pool \<Rightarrow> addr set" where
  "os_held p = fst ` set (os_blocks p) \<union> (if emergency_used p then {emergency_buf p} else {})"

definition tlsf_held :: "addr set \<Rightarrow> addr set" where
  "tlsf_held T = (\<lambda>b. b + sizeof_tlsf_block) ` T"

section \<open>Where a held block lies\<close>

lemma slab_part_area:
  assumes "slab_part p Hs" "s \<in> Hs"
  shows "s \<notin> regions p" "s \<notin> os_mem p" "area_of p s = SlabArea" "header_at p s = shdr (slab p) s" "s \<noteq> 0"
proof -
  obtain D C where 1: "slab_inv 0 (slab p) D C Hs" "held_ok (slab p) D Hs" "\<And>k. set (D k) \<inter> foreign_pages p = {}"
    using assms(1) by (auto simp: slab_part_def)
  have "s \<in> class_slots (slab p) D (slab_class (shdr (slab p) s))"
    using 1(2) assms(2) by (simp add: held_ok_def)
  then obtain k where "page_of s \<in> set (D k)"
    using inv_slot_page [OF 1(1)] by metis
  then have "page_of s \<notin> foreign_pages p"
    using 1(3) by blast
  then show a: "s \<notin> regions p" "s \<notin> os_mem p"
    by (auto simp: foreign_pages_def)
  then show "area_of p s = SlabArea" "header_at p s = shdr (slab p) s"
    by (simp_all add: area_of_eq header_at_def)
  show "s \<noteq> 0"
    using inv_held_slot(1) [OF 1(1) assms(2)] .
qed

lemma tlsf_part_area:
  assumes "tlsf_part p T" "b \<in> T"
  shows "b + sizeof_tlsf_block \<in> regions p" "b \<in> regions p" "area_of p (b + sizeof_tlsf_block) = TlsfArea"
    "header_at p (b + sizeof_tlsf_block) = hdrs (tlsf p) (b + sizeof_tlsf_block)"
proof -
  obtain Ls E where 1: "chain_wf (tlsf_root (tlsf p)) Ls" "fst ` chain_live (tlsf_root (tlsf p)) Ls = T \<union> cached E"
    using assms(1) by (auto simp: tlsf_part_def)
  then have "b \<in> fst ` chain_live (tlsf_root (tlsf p)) Ls"
    using assms(2) by blast
  then obtain n where "(b, n) \<in> chain_live (tlsf_root (tlsf p)) Ls"
    by force
  then show a: "b + sizeof_tlsf_block \<in> regions p" "b \<in> regions p"
    using live_block_region [OF 1(1)] by (metis UN_I regions_def)+
  then show "area_of p (b + sizeof_tlsf_block) = TlsfArea"
    "header_at p (b + sizeof_tlsf_block) = hdrs (tlsf p) (b + sizeof_tlsf_block)"
    by (simp_all add: area_of_eq header_at_def)
qed

lemma os_part_area:
  assumes "os_part p" "h \<in> os_held p"
  shows "h \<in> os_mem p" "h \<notin> regions p" "area_of p h = OsArea" "header_at p h = ohdr p h" "h \<noteq> 0"
proof -
  have blocks: "\<forall>(raw, n) \<in> set (os_blocks p). raw \<noteq> 0 \<and> 0 < n" "emergency_used p \<longrightarrow> emergency_buf p \<noteq> 0 \<and> 0 < emergency_size p"
    using assms(1) by (auto simp: os_part_def)
  have "\<exists>n. (h, n) \<in> set (os_ranges p) \<and> h \<noteq> 0 \<and> 0 < n"
    using assms(2) blocks by (fastforce simp: os_held_def os_ranges_def split: if_splits)
  then show a: "h \<in> os_mem p" "h \<noteq> 0"
    by (force simp: os_mem_def span_def)+
  then show "h \<notin> regions p"
    using assms(1) by (auto simp: os_part_def)
  then show "area_of p h = OsArea" "header_at p h = ohdr p h"
    using a by (simp_all add: area_of_eq header_at_def)
qed

lemma held_disjoint:
  assumes "slab_part p Hs" "tlsf_part p T" "os_part p"
  shows "Hs \<inter> tlsf_held T = {}" "Hs \<inter> os_held p = {}" "tlsf_held T \<inter> os_held p = {}" "0 \<notin> Hs \<union> tlsf_held T \<union> os_held p"
  using slab_part_area [OF assms(1)] tlsf_part_area [OF assms(2)] os_part_area [OF assms(3)]
  by (auto simp: tlsf_held_def sizeof_tlsf_block_def) blast+

section \<open>The stacks of cached blocks\<close>

lemma stack_push:
  assumes "stack_of c i es" "length es < TLSF_CACHE_MAX_SLOTS" "k = i * TLSF_CACHE_MAX_SLOTS + tlsf_counts c i"
    "c' = c\<lparr>tlsf_entries := (tlsf_entries c)(k := \<lparr>cblock = b, ctpool = a, cnext = tlsf_slots c i\<rparr>),
       tlsf_slots := (tlsf_slots c)(i := k + 1), tlsf_counts := (tlsf_counts c)(i := tlsf_counts c i + 1)\<rparr>"
  shows "stack_of c' i (es @ [(b, a)])" "\<And>j fs. j \<noteq> i \<Longrightarrow> stack_of c j fs \<Longrightarrow> stack_of c' j fs"
proof -
  have "es = [] \<longleftrightarrow> length es = 0"
    by simp
  then show "stack_of c' i (es @ [(b, a)])"
    using assms by (auto simp: stack_of_def Let_def nth_append less_Suc_eq)
  have "j * TLSF_CACHE_MAX_SLOTS + l \<noteq> k" if "j \<noteq> i" "l < TLSF_CACHE_MAX_SLOTS" for j l
  proof
    assume "j * TLSF_CACHE_MAX_SLOTS + l = k"
    then have "(j * TLSF_CACHE_MAX_SLOTS + l) div TLSF_CACHE_MAX_SLOTS = (i * TLSF_CACHE_MAX_SLOTS + length es) div TLSF_CACHE_MAX_SLOTS"
      using assms(1,3) by (simp add: stack_of_def)
    then show False
      using that assms(2) by (simp add: TLSF_CACHE_MAX_SLOTS_def)
  qed
  then show "stack_of c' j fs" if "j \<noteq> i" "stack_of c j fs" for j fs
    using that assms(4) by (auto simp: stack_of_def Let_def)
qed

lemma stack_pop:
  assumes "stack_of c i (es @ [(b, a)])" "e = tlsf_entries c (tlsf_slots c i - 1)"
  shows "cblock e = b" "ctpool e = a"
    "stack_of (c\<lparr>tlsf_slots := (tlsf_slots c)(i := cnext e), tlsf_counts := (tlsf_counts c)(i := tlsf_counts c i - 1)\<rparr>) i es"
    "\<And>j fs. j \<noteq> i \<Longrightarrow> stack_of c j fs \<Longrightarrow>
       stack_of (c\<lparr>tlsf_slots := (tlsf_slots c)(i := cnext e), tlsf_counts := (tlsf_counts c)(i := tlsf_counts c i - 1)\<rparr>) j fs"
proof -
  have top: "tlsf_slots c i - 1 = i * TLSF_CACHE_MAX_SLOTS + length es"
    and all: "\<And>j. j < Suc (length es) \<Longrightarrow> let e = tlsf_entries c (i * TLSF_CACHE_MAX_SLOTS + j)
          in (es @ [(b, a)]) ! j = (cblock e, ctpool e) \<and> cnext e = (if j = 0 then 0 else i * TLSF_CACHE_MAX_SLOTS + j)"
    and len: "tlsf_counts c i = Suc (length es)" "length es < TLSF_CACHE_MAX_SLOTS"
    using assms(1) by (auto simp: stack_of_def)
  note e = all [of "length es", folded top, folded assms(2)]
  then show "cblock e = b" "ctpool e = a"
    by (auto simp: Let_def)
  have low: "let f = tlsf_entries c (i * TLSF_CACHE_MAX_SLOTS + j)
      in es ! j = (cblock f, ctpool f) \<and> cnext f = (if j = 0 then 0 else i * TLSF_CACHE_MAX_SLOTS + j)" if "j < length es" for j
    using all [of j] that by (simp add: Let_def nth_append)
  have "cnext e = (if es = [] then 0 else i * TLSF_CACHE_MAX_SLOTS + length es)"
    using e top by (simp add: Let_def)
  then show "stack_of (c\<lparr>tlsf_slots := (tlsf_slots c)(i := cnext e), tlsf_counts := (tlsf_counts c)(i := tlsf_counts c i - 1)\<rparr>) i es"
    using len low by (simp add: stack_of_def)
  show "stack_of (c\<lparr>tlsf_slots := (tlsf_slots c)(i := cnext e), tlsf_counts := (tlsf_counts c)(i := tlsf_counts c i - 1)\<rparr>) j fs"
    if "j \<noteq> i" "stack_of c j fs" for j fs
    using that by (simp add: stack_of_def)
qed

abbreviation restack :: "nat \<Rightarrow> nat \<Rightarrow> (addr \<times> addr) list \<Rightarrow> (nat \<Rightarrow> nat \<Rightarrow> (addr \<times> addr) list) \<Rightarrow> nat \<Rightarrow> nat \<Rightarrow> (addr \<times> addr) list" where
  "restack t i es E \<equiv> E(t := (E t)(i := es))"

lemma cached_push: "cached (restack t i (E t i @ [(b, a)]) E) = insert b (cached E)"
proof (intro equalityI subsetI)
  fix x assume "x \<in> cached (restack t i (E t i @ [(b, a)]) E)"
  then obtain u j where "x \<in> fst ` set (restack t i (E t i @ [(b, a)]) E u j)"
    unfolding cached_def by blast
  then have "x = b \<or> x \<in> fst ` set (E u j)"
    by (auto split: if_splits)
  then show "x \<in> insert b (cached E)"
    unfolding cached_def by blast
next
  fix x assume "x \<in> insert b (cached E)"
  then consider "x = b" | u j where "x \<in> fst ` set (E u j)"
    unfolding cached_def by blast
  then have "\<exists>u j. x \<in> fst ` set (restack t i (E t i @ [(b, a)]) E u j)"
  proof cases
    case 1
    then have "x \<in> fst ` set (restack t i (E t i @ [(b, a)]) E t i)"
      by simp
    then show ?thesis
      by blast
  next
    case 2
    then have "x \<in> fst ` set (restack t i (E t i @ [(b, a)]) E u j)"
      by auto
    then show ?thesis
      by blast
  qed
  then show "x \<in> cached (restack t i (E t i @ [(b, a)]) E)"
    unfolding cached_def by blast
qed

lemma caches_push:
  assumes "caches p E" "owned (tls (slab p) t)" "i < TLSF_CACHE_SIZES" "length (E t i) < TLSF_CACHE_MAX_SLOTS"
    "home (tlsf_root (tlsf p)) b a" "b \<notin> cached E"
  shows "caches (tlsf_cache_push t i b a p) (restack t i (E t i @ [(b, a)]) E)"
proof -
  let ?p = "tlsf_cache_push t i b a p" and ?E = "restack t i (E t i @ [(b, a)]) E"
  have st: "stack_of (tcaches p t) j (E t j)" if "j < TLSF_CACHE_SIZES" for j
    using assms(1,2) that by (simp add: caches_def)
  note P = stack_push [OF st [OF assms(3)] assms(4) refl refl, where b = b and a = a]
  have same: "tls (slab ?p) = tls (slab p)" "tlsf ?p = tlsf p" "\<And>u. u \<noteq> t \<Longrightarrow> tcaches ?p u = tcaches p u"
    by (simp_all add: tlsf_cache_push_def Let_def)
  have "stack_of (tcaches ?p t) j (?E t j)" if "j < TLSF_CACHE_SIZES" for j
    using P(1) P(2) [OF _ st [OF that]] by (cases "j = i") (simp_all add: tlsf_cache_push_def Let_def)
  then have 1: "if owned (tls (slab ?p) u) \<and> j < TLSF_CACHE_SIZES then stack_of (tcaches ?p u) j (?E u j) else ?E u j = []" for u j
    using assms(1-3) same by (cases "u = t") (auto simp: caches_def)
  have b: "b \<notin> fst ` set (E u j)" for u j
    using assms(6) by (auto simp: cached_def)
  then have 2: "distinct (map fst (?E u j))" for u j
    using assms(1) by (auto simp: caches_def)
  have E: "fst ` set (E u j) \<inter> fst ` set (E v k) = {}" if "(u, j) \<noteq> (v, k)" for u j v k
    using assms(1) that unfolding caches_def by blast
  have "fst ` set (?E u j) \<subseteq> (if u = t \<and> j = i then insert b (fst ` set (E t i)) else fst ` set (E u j))" for u j
    by auto
  then have 3: "fst ` set (?E u j) \<inter> fst ` set (?E v k) = {}" if "(u, j) \<noteq> (v, k)" for u j v k
    using E [OF that] b [of u j] b [of v k] that by (auto split: if_splits)
  have 4: "\<forall>(x, c) \<in> set (?E u j). home (tlsf_root (tlsf ?p)) x c" for u j
    using assms(1,5) same(2) by (auto simp: caches_def)
  show ?thesis
    unfolding caches_def using 1 2 3 4 by blast
qed

lemma cachesD:
  assumes "caches p E"
  shows "owned (tls (slab p) t) \<Longrightarrow> i < TLSF_CACHE_SIZES \<Longrightarrow> stack_of (tcaches p t) i (E t i)"
    "\<not> (owned (tls (slab p) t) \<and> i < TLSF_CACHE_SIZES) \<Longrightarrow> E t i = []" "distinct (map fst (E t i))"
    "(t, i) \<noteq> (u, j) \<Longrightarrow> fst ` set (E t i) \<inter> fst ` set (E u j) = {}"
    "(b, a) \<in> set (E t i) \<Longrightarrow> home (tlsf_root (tlsf p)) b a"
  using assms unfolding caches_def by (simp, meson, simp, blast, fast)

lemma cachesI:
  assumes "\<And>t i. if owned (tls (slab p) t) \<and> i < TLSF_CACHE_SIZES then stack_of (tcaches p t) i (E t i) else E t i = []"
    "\<And>t i. distinct (map fst (E t i))" "\<And>t i u j. (t, i) \<noteq> (u, j) \<Longrightarrow> fst ` set (E t i) \<inter> fst ` set (E u j) = {}"
    "\<And>t i b a. (b, a) \<in> set (E t i) \<Longrightarrow> home (tlsf_root (tlsf p)) b a"
  shows "caches p E"
  unfolding caches_def using assms(1,2,4) assms(3) by (intro conjI allI ballI) (simp, simp, blast, fast)

lemma caches_frame:
  assumes "caches p E" "owners (slab p') = owners (slab p)" "tcaches p' = tcaches p"
    "region ` set (tlsf_root (tlsf p)) \<subseteq> region ` set (tlsf_root (tlsf p'))"
  shows "caches p' E"
proof -
  have "owned (tls (slab p') t) = owned (tls (slab p) t)" for t
    using assms(2) by meson
  moreover have "home (tlsf_root (tlsf p')) b a" if "(b, a) \<in> set (E t i)" for t i b a
    using cachesD(5) [OF assms(1) that] home_mono [OF _ assms(4)] by blast
  ultimately show ?thesis
    using assms(1,3) by (auto simp: caches_def)
qed

text \<open>Giving up some of the cached blocks.\<close>

lemma caches_drop:
  assumes "caches p E" "E t i = es @ fs" "slab p' = slab p" "tlsf p' = tlsf p" "\<And>u. u \<noteq> t \<Longrightarrow> tcaches p' u = tcaches p u"
    "\<And>j. owned (tls (slab p) t) \<Longrightarrow> j < TLSF_CACHE_SIZES \<Longrightarrow> stack_of (tcaches p' t) j (restack t i es E t j)"
  shows "caches p' (restack t i es E)" "cached (restack t i es E) = cached E - fst ` set fs" "fst ` set fs \<subseteq> cached E"
proof -
  let ?E = "restack t i es E"
  have sub: "set (?E u j) \<subseteq> set (E u j)" for u j
    using assms(2) by auto
  have E: "fst ` set (E u j) \<inter> fst ` set (E v k) = {}" if "(u, j) \<noteq> (v, k)" for u j v k
    using cachesD(4) [OF assms(1) that] .
  have d: "distinct (map fst (E u j))" for u j
    using assms(1) by (auto simp: caches_def)
  have "if owned (tls (slab p') u) \<and> j < TLSF_CACHE_SIZES then stack_of (tcaches p' u) j (?E u j) else ?E u j = []" for u j
  proof (cases "u = t")
    case True
    have "E t i = []" if "\<not> (owned (tls (slab p) t) \<and> i < TLSF_CACHE_SIZES)"
      using cachesD(2) [OF assms(1) that] .
    then have "es = []" if "\<not> (owned (tls (slab p) t) \<and> i < TLSF_CACHE_SIZES)"
      using assms(2) that by simp
    moreover have "E t j = []" if "\<not> (owned (tls (slab p) t) \<and> j < TLSF_CACHE_SIZES)"
      using cachesD(2) [OF assms(1) that] .
    ultimately show ?thesis
      using True assms(3,6) by auto
  next
    case False
    then show ?thesis
      using assms(1,3,5) by (simp add: caches_def)
  qed
  moreover have "distinct (map fst (?E u j))" for u j
    using d [of u j] assms(2) by auto
  moreover have "fst ` set (?E u j) \<inter> fst ` set (?E v k) = {}" if "(u, j) \<noteq> (v, k)" for u j v k
    using E [OF that] sub by blast
  moreover have "\<forall>(x, c) \<in> set (?E u j). home (tlsf_root (tlsf p')) x c" for u j
    using assms(1,4) sub [of u j] unfolding caches_def by fastforce
  ultimately show "caches p' ?E"
    unfolding caches_def by blast
  have "fst ` set (E t i) = fst ` set es \<union> fst ` set fs" "fst ` set es \<inter> fst ` set fs = {}"
    using assms(2) d [of t i] by auto
  then have "fst ` set (?E u j) = fst ` set (E u j) - fst ` set fs" for u j
    using E [of u j t i] by (cases "u = t \<and> j = i") auto
  then have "cached ?E = (\<Union>u j. fst ` set (E u j) - fst ` set fs)"
    by (simp add: cached_def)
  then show "cached ?E = cached E - fst ` set fs"
    by (auto simp: cached_def)
  have "fst ` set fs \<subseteq> fst ` set (E t i)"
    using assms(2) by auto
  also have "\<dots> \<subseteq> cached E"
    unfolding cached_def by (intro subsetI UN_I [of t] UN_I [of i]) simp_all
  finally show "fst ` set fs \<subseteq> cached E" .
qed

lemma caches_pop:
  assumes "caches p E" "owned (tls (slab p) t)" "i < TLSF_CACHE_SIZES" "tlsf_counts (tcaches p t) i \<noteq> 0"
  obtains es b a p' where "E t i = es @ [(b, a)]" "tlsf_cache_pop t i p = (p', b, a)" "caches p' (restack t i es E)"
    "cached (restack t i es E) = cached E - {b}" "b \<in> cached E" "home (tlsf_root (tlsf p)) b a" "p' = p\<lparr>tcaches := tcaches p'\<rparr>"
proof -
  have st: "stack_of (tcaches p t) j (E t j)" if "j < TLSF_CACHE_SIZES" for j
    using assms(1,2) that by (simp add: caches_def)
  have "E t i \<noteq> []"
    using st [OF assms(3)] assms(4) by (auto simp: stack_of_def)
  then obtain es b a where es: "E t i = es @ [(b, a)]"
    by (metis append_butlast_last_id prod.collapse)
  note P = stack_pop [OF st [OF assms(3), unfolded es] refl]
  obtain p' where p': "tlsf_cache_pop t i p = (p', b, a)" "p' = p\<lparr>tcaches := tcaches p'\<rparr>"
    using P(1,2) by (simp add: tlsf_cache_pop_def Let_def)
  have "stack_of (tcaches p' t) j (restack t i es E t j)" if "j < TLSF_CACHE_SIZES" for j
    using P(3) P(4) [OF _ st [OF that]] p'(1) by (cases "j = i") (auto simp: tlsf_cache_pop_def Let_def)
  moreover have "slab p' = slab p" "tlsf p' = tlsf p" "\<And>u. u \<noteq> t \<Longrightarrow> tcaches p' u = tcaches p u"
    using p'(1) by (auto simp: tlsf_cache_pop_def Let_def)
  moreover have "home (tlsf_root (tlsf p)) b a"
    using cachesD(5) [OF assms(1), of b a t i] es by simp
  ultimately show thesis
    using that [OF es p'(1) _ _ _ _ p'(2)] caches_drop [OF assms(1) es, of p'] by simp
qed

end
