(* ===== verification/Pool_Steps.thy ===== *)
theory Pool_Steps
  imports Pool_Inv
begin

text \<open>
  What every entry point of a pool keeps of the invariant of \<open>Pool_Inv\<close>: the dispatch of a request to the tiers, the
  release of a block to where it came from, and the accounting on both ways.
\<close>

section \<open>Frames\<close>

definition tiers :: "memory_pool \<Rightarrow> addr set \<Rightarrow> bool" where
  "tiers p H \<longleftrightarrow> (\<exists>Hs T. slab_part p Hs \<and> tlsf_part p T \<and> os_part p \<and> H = Hs \<union> tlsf_held T \<union> os_held p)"

text \<open>Only the memory of the pool changed, not the list of active blocks, the counters and the settings.\<close>

definition mem_only :: "memory_pool \<Rightarrow> memory_pool \<Rightarrow> bool" where
  "mem_only p p' \<longleftrightarrow> p' = p\<lparr>slab := slab p', tlsf := tlsf p', tcaches := tcaches p', ohdr := ohdr p', omem := omem p',
     os_blocks := os_blocks p', os_allocated_bytes := os_allocated_bytes p', resident_size := resident_size p'\<rparr>"

lemma mem_only_refl: "mem_only p p"
  by (simp add: mem_only_def)

lemma mem_only_trans: "mem_only p q \<Longrightarrow> mem_only q r \<Longrightarrow> mem_only p r"
  by (cases p, cases q, cases r) (simp add: mem_only_def)

lemma mem_only_same:
  assumes "mem_only p p'"
  shows "pool_flags p' = pool_flags p" "classes p' = classes p" "self p' = self p" "emergency_buf p' = emergency_buf p"
    "emergency_size p' = emergency_size p" "emergency_used p' = emergency_used p"
  using assms by (cases p, cases p', simp add: mem_only_def)+

lemma slab_part_frame:
  assumes "slab_part p Hs" "slab p' = slab p" "pool_flags p' = pool_flags p" "classes p' = classes p" "foreign_pages p' \<subseteq> foreign_pages p"
  shows "slab_part p' Hs"
  using assms unfolding slab_part_def by (simp, blast)

lemma tlsf_part_frame:
  assumes "tlsf_part p T" "tlsf_root (tlsf p') = tlsf_root (tlsf p)" "pflags (tlsf p') = pflags (tlsf p)" "pool_flags p' = pool_flags p"
    "tcaches p' = tcaches p" "owners (slab p') = owners (slab p)"
    "\<And>b. b \<in> T \<Longrightarrow> hdrs (tlsf p') (b + sizeof_tlsf_block) = hdrs (tlsf p) (b + sizeof_tlsf_block)"
  shows "tlsf_part p' T"
proof -
  have "caches p' E" if "caches p E" for E
    by (rule caches_frame [OF that assms(6,5)]) (simp add: assms(2))
  moreover have "tlsf_fit f (hdrs (tlsf p')) T B" if "tlsf_fit f (hdrs (tlsf p)) T B" for f B
    by (rule tlsf_fit_mono [OF that]) (simp_all add: assms(7))
  ultimately show ?thesis
    using assms(1-4,7) unfolding tlsf_part_def by (metis (no_types, lifting))
qed

lemma os_part_frame:
  assumes "os_part p" "os_ranges p' = os_ranges p" "os_blocks p' = os_blocks p" "regions p' \<inter> os_mem p = {}"
    "emergency_buf p' = emergency_buf p" "emergency_size p' = emergency_size p" "emergency_used p' = emergency_used p"
    "pool_flags p' = pool_flags p" "\<And>h. h \<in> os_held p \<Longrightarrow> ohdr p' h = ohdr p h"
  shows "os_part p'"
proof -
  have "os_mem p' = os_mem p"
    using assms(2) by (simp add: os_mem_def)
  moreover have "ohdr p' raw = ohdr p raw" if "(raw, n) \<in> set (os_blocks p)" for raw n
    using assms(9) [of raw] that by (force simp: os_held_def)
  moreover have "ohdr p' (emergency_buf p) = ohdr p (emergency_buf p)" if "emergency_used p"
    using assms(9) that by (simp add: os_held_def)
  ultimately show ?thesis
    using assms(1-8) unfolding os_part_def by (auto simp: Int_commute)
qed

section \<open>Claiming the thread cache\<close>

lemma validate_owner_step:
  assumes "slab_part p Hs" "tlsf_part p T"
  shows "slab_part (validate_owner p t) Hs" "tlsf_part (validate_owner p t) T" "owned (tls (slab (validate_owner p t)) t)"
    "mem_only p (validate_owner p t)" "tlsf (validate_owner p t) = tlsf p" "ohdr (validate_owner p t) = ohdr p"
    "os_blocks (validate_owner p t) = os_blocks p" "\<And>s. s \<in> Hs \<Longrightarrow> shdr (slab (validate_owner p t)) s = shdr (slab p) s"
proof -
  let ?p = "validate_owner p t"
  show m: "mem_only p ?p" "tlsf ?p = tlsf p" "ohdr ?p = ohdr p" "os_blocks ?p = os_blocks p" "owned (tls (slab ?p) t)"
    by (simp_all add: validate_owner_def mem_only_def tls_cache_validate_owner_def)
  have f: "foreign_pages ?p = foreign_pages p"
    using m mem_only_same [OF m(1)] by (simp add: foreign_pages_def regions_def os_mem_def os_ranges_def)
  obtain D C where 1: "slab_inv 0 (slab p) D C Hs" "held_ok (slab p) D Hs" "\<And>k. set (D k) \<inter> foreign_pages p = {}"
    using assms(1) by (auto simp: slab_part_def)
  have s: "slab ?p = tls_cache_validate_owner (slab p) t"
    by (simp add: validate_owner_def tls_cache_validate_owner_def)
  note v = inv_validate_owner [OF 1(1), of t, folded s]
  show h: "\<And>s. s \<in> Hs \<Longrightarrow> shdr (slab ?p) s = shdr (slab p) s"
    using v(2) by (simp add: grows_def)
  have "held_ok (slab ?p) D Hs"
    using held_grows [OF 1(2) v(2)] by simp
  moreover have "sflags (slab ?p) = pool_flags ?p" "sizes_match (classes ?p) (slab ?p)" "slot_sizes (slab ?p) = slot_sizes (slab p)"
    using v(2) assms(1) mem_only_same(1,2) [OF m(1)] by (simp_all add: grows_def slab_part_def sizes_match_def)
  ultimately show "slab_part ?p Hs"
    using v(1) 1(3) h assms(1) unfolding slab_part_def slot_fits_def f by auto
  show "tlsf_part ?p T"
  proof (cases "owned (tls (slab p) t)")
    case True
    then show ?thesis
      using assms(2) by (simp add: validate_owner_def)
  next
    case False
    have "caches ?p E" if E: "caches p E" for E
    proof -
      have "E t i = []" for i
        using cachesD(2) [OF E] False by simp
      then have "stack_of (tcaches ?p t) i (E t i)" for i
        using False by (simp add: validate_owner_def stack_of_def)
      moreover have "tcaches ?p u = tcaches p u" "tls (slab ?p) u = tls (slab p) u" if "u \<noteq> t" for u
        using that by (simp_all add: validate_owner_def tls_cache_validate_owner_def)
      ultimately have "if owned (tls (slab ?p) u) \<and> i < TLSF_CACHE_SIZES then stack_of (tcaches ?p u) i (E u i) else E u i = []" for u i
        using cachesD(1,2) [OF E, of u i] \<open>\<And>i. E t i = []\<close> by (cases "u = t") simp_all
      then show ?thesis
        using cachesD(3-5) [OF E] m(2) by (intro cachesI) simp_all
    qed
    then show ?thesis
      using assms(2) mem_only_same(1) [OF m(1)] unfolding tlsf_part_def m(2) by metis
  qed
qed

section \<open>Requests\<close>

definition used_mem :: "memory_pool \<Rightarrow> addr set" where
  "used_mem p = regions p \<union> os_mem p \<union> (\<Union>q \<in> {q. listed_page (slab p) q}. {q ..< q + SLAB_PAGE_SIZE})"

text \<open>What a request for \<open>n\<close> bytes relies on of the operating system: the memory it answers with is not in use.\<close>

definition env_ok :: "call_env \<Rightarrow> memory_pool \<Rightarrow> nat \<Rightarrow> bool" where
  "env_ok env p n \<longleftrightarrow>
     fresh_maps (slab p) (mmaps env)
     \<and> (\<forall>m \<in> set (mmaps env). {map_page m ..< map_page m + SLAB_PAGE_SIZE} \<inter> used_mem p = {})
     \<and> (os_init env \<noteq> 0 \<longrightarrow> init_range (os_init env) \<inter> used_mem p = {})
     \<and> (os_expand env \<noteq> 0 \<longrightarrow> expand_range (os_expand env) (tlsf_total_needed (pool_flags p) n) \<inter> used_mem p = {}
          \<and> (os_init env \<noteq> 0 \<longrightarrow> expand_range (os_expand env) (tlsf_total_needed (pool_flags p) n) \<inter> init_range (os_init env) = {}))
     \<and> (os_block env \<noteq> 0 \<longrightarrow> {os_block env ..< os_block env + (n + sizeof_mp_block_header + canary_bytes p)} \<inter> used_mem p = {})"

lemma slab_view_core:
  assumes "slab_part p Hs"
  shows "core_same {} (slab p) (slab_view p)" "core_same {} (slab p) ((slab_view p)\<lparr>maps := ms\<rparr>)"
  using assms by (simp_all add: core_same_def slab_view_def slab_part_def)

lemma listed_in_lists:
  assumes "slab_inv 0 st D C H" "q \<in> set (D k)"
  shows "listed_page st q"
  using assms unfolding listed_page_def slab_inv_def dlls_def by blast

lemma maps_apart:
  assumes "env_ok env p n"
  shows "map_page ` set (mmaps env) \<inter> foreign_pages p = {}"
proof -
  have "map_page m \<noteq> page_of a" if "m \<in> set (mmaps env)" "a \<in> regions p \<union> os_mem p" for m a
  proof
    assume "map_page m = page_of a"
    then have "a \<in> {map_page m ..< map_page m + SLAB_PAGE_SIZE}" "a \<in> used_mem p"
      using that(2) same_page [of a "map_page m"] by (auto simp: used_mem_def)
    then show False
      using assms that(1) unfolding env_ok_def by blast
  qed
  then show ?thesis
    unfolding foreign_pages_def by (auto simp: disjoint_iff image_iff)
qed

lemma slab_request_step:
  assumes parts: "slab_part p Hs" "tlsf_part p T" "os_part p" and env: "env_ok env p n"
    and c: "get_slab_class_index (classes p) n < SLAB_CLASS_COUNT"
  shows "\<exists>p' s. slab_request env p n = Some (p', if s = 0 then 0 else s + sizeof_mp_block_header) \<and> mem_only p p'
    \<and> slab_part p' (if s = 0 then Hs else insert s Hs) \<and> tlsf_part p' T \<and> os_part p' \<and> os_held p' = os_held p
    \<and> tlsf p' = tlsf p \<and> ohdr p' = ohdr p \<and> (\<forall>y \<in> Hs. shdr (slab p') y = shdr (slab p) y)
    \<and> (s \<noteq> 0 \<longrightarrow> s \<notin> Hs \<and> requested_size (shdr (slab p') s) = n)"
proof -
  define q where "q = validate_owner p (thread env)"
  note v = validate_owner_step [OF parts(1,2), where t = "thread env", folded q_def]
  note mq = mem_only_same [OF v(4)]
  have fq: "foreign_pages q = foreign_pages p"
    using v(5,7) mq by (simp add: foreign_pages_def regions_def os_mem_def os_ranges_def)
  let ?st = "(slab_view q)\<lparr>maps := mmaps env\<rparr>"
  obtain D C where D: "slab_inv 0 (slab q) D C Hs" "held_ok (slab q) D Hs" "\<And>k. set (D k) \<inter> foreign_pages q = {}"
    using v(1) by (auto simp: slab_part_def)
  have core: "core_same {} (slab q) ?st"
    using slab_view_core(2) [OF v(1)] .
  have inv: "slab_inv 0 ?st D C Hs" "held_ok ?st D Hs"
    using inv_frame [OF D(1)] held_frame [OF D(2) core] core by (auto simp: core_same_def)
  have "fresh_maps (slab_view q) (mmaps env)"
    using env by (simp add: env_ok_def fresh_maps_def listed_page_def slab_view_def q_def validate_owner_def tls_cache_validate_owner_def)
  moreover have "slab_inv 0 (slab_view q) D C Hs"
    using inv_frame [OF D(1)] slab_view_core(1) [OF v(1)] by (auto simp: core_same_def)
  ultimately have maps: "maps_ok ?st D"
    by (intro fresh_maps_ok)
  have apart: "apart_from (foreign_pages p) ?st D"
    using D(3) maps_apart [OF env] by (simp add: apart_from_def fq)
  have own: "owned (tls ?st (thread env))"
    using v(3) by (simp add: slab_view_def)
  have cq: "get_slab_class_index (classes q) n < SLAB_CLASS_COUNT"
    using c mq(2) by simp
  obtain st s D' C' where 1: "slab_tier_alloc (cas1 env) (cas2 env) (self q) ?st (thread env) (cpu env) (get_slab_class_index (classes q) n) n
      = Some (st, if s = 0 then 0 else s + sizeof_mp_block_header)"
    "slab_inv 0 st D' C' (if s = 0 then Hs else insert s Hs)" "held_ok st D' (if s = 0 then Hs else insert s Hs)"
    "apart_from (foreign_pages p) st D'" "owners st = owners ?st" "sflags st = sflags ?st" "\<forall>z \<in> Hs. shdr st z = shdr ?st z"
    "s \<noteq> 0 \<longrightarrow> s \<notin> Hs \<and> slab_stamped s (shdr st s) \<and> requested_size (shdr st s) = n
       \<and> slab_class (shdr st s) = get_slab_class_index (classes q) n" "slot_sizes st = slot_sizes ?st"
    using slab_tier_alloc_step [OF inv cq maps apart own, where x = "cas1 env" and y = "cas2 env" and slf = "self q"
        and k = "cpu env" and req = n] by blast
  let ?p = "put_slab st q"
  have r: "slab_request env p n = Some (?p, if s = 0 then 0 else s + sizeof_mp_block_header)"
    using 1(1) by (simp add: slab_request_def q_def [symmetric])
  have m: "mem_only q ?p"
    by (simp add: mem_only_def put_slab_def)
  have same: "slab ?p = st" "tlsf ?p = tlsf q" "tcaches ?p = tcaches q" "ohdr ?p = ohdr q" "os_blocks ?p = os_blocks q"
    by (simp_all add: put_slab_def)
  note mp = mem_only_same [OF m]
  have fp: "foreign_pages ?p = foreign_pages p" "regions ?p = regions p" "os_mem ?p = os_mem p" "os_ranges ?p = os_ranges p"
    using v(5,7) mq mp same by (simp_all add: foreign_pages_def regions_def os_mem_def os_ranges_def)
  have "sflags st = pool_flags ?p"
    using 1(6) mp(1) by (simp add: slab_view_def)
  moreover have sz: "sizes_match (classes q) (slab q)" "slot_sizes st = slot_sizes (slab q)" "classes ?p = classes q"
    using v(1) 1(9) mp(2) by (simp_all add: slab_part_def slab_view_def)
  moreover have "slab_stamped z (shdr st z) \<and> slot_fits st z" if z: "z \<in> (if s = 0 then Hs else insert s Hs)" for z
  proof (cases "z = s \<and> s \<noteq> 0")
    case True
    then show ?thesis
      using 1(8) sz(1,2) cq by (simp add: slot_fits_def sizes_match_def)
  next
    case False
    then have "z \<in> Hs"
      using z by (auto split: if_splits)
    then show ?thesis
      using 1(7) v(1) sz(2) by (simp add: slab_part_def slab_view_def slot_fits_def)
  qed
  moreover have "sizes_match (classes ?p) st"
    using sz by (simp add: sizes_match_def)
  ultimately have "slab_part ?p (if s = 0 then Hs else insert s Hs)"
    using 1(2-4) unfolding slab_part_def same fp apart_from_def by blast
  moreover have "tlsf_part ?p T"
    by (rule tlsf_part_frame [OF v(2)]) (simp_all add: same mp 1(5), simp add: slab_view_def)
  moreover have "os_part ?p"
    using parts(3) same v(6,7) mp mq fp
    by (intro os_part_frame [OF parts(3)]) (auto simp: os_part_def Int_commute)
  moreover have "\<forall>y \<in> Hs. shdr (slab ?p) y = shdr (slab p) y"
    using 1(7) v(8) same(1) by (simp add: slab_view_def)
  ultimately show ?thesis
    using r mem_only_trans [OF v(4) m] same v(5-7) 1(8) mp mq
    by (intro exI [of _ ?p] exI [of _ s]) (simp add: os_held_def)
qed

lemma pages_apart:
  assumes "slab_inv 0 (slab p) D C H" "R \<inter> used_mem p = {}"
  shows "set (D k) \<inter> page_of ` R = {}"
proof -
  have "q \<noteq> page_of a" if "q \<in> set (D k)" "a \<in> R" for q a
  proof
    assume "q = page_of a"
    then have "a \<in> {q ..< q + SLAB_PAGE_SIZE}"
      using same_page [of a q] by simp
    then have "a \<in> used_mem p"
      using listed_in_lists [OF assms(1) that(1)] by (auto simp: used_mem_def)
    then show False
      using assms(2) that(2) by blast
  qed
  then show ?thesis
    by blast
qed

text \<open>New regions in memory that was not in use.\<close>

lemma grow_regions:
  assumes parts: "slab_part p Hs" "os_part p" and new: "regions p' \<subseteq> regions p \<union> R" "R \<inter> used_mem p = {}"
    and same: "slab p' = slab p" "mem_only p p'" "os_blocks p' = os_blocks p" "ohdr p' = ohdr p"
  shows "slab_part p' Hs" "os_part p'"
proof -
  note m = mem_only_same [OF same(2)]
  have os: "os_ranges p' = os_ranges p" "os_mem p' = os_mem p"
    using same(3) m by (simp_all add: os_ranges_def os_mem_def)
  obtain D C where D: "slab_inv 0 (slab p) D C Hs" "held_ok (slab p) D Hs" "\<And>k. set (D k) \<inter> foreign_pages p = {}"
    using parts(1) by (auto simp: slab_part_def)
  have "foreign_pages p' \<subseteq> foreign_pages p \<union> page_of ` R"
    using new(1) os(2) by (auto simp: foreign_pages_def)
  then have "set (D k) \<inter> foreign_pages p' = {}" for k
    using D(3) [of k] pages_apart [OF D(1) new(2), of k] by blast
  then show "slab_part p' Hs"
    using parts(1) D(1,2) m(1,2) unfolding slab_part_def same(1) by auto
  have "regions p \<inter> os_mem p = {}" "R \<inter> os_mem p = {}"
    using parts(2) new(2) by (auto simp: os_part_def used_mem_def)
  then show "os_part p'"
    using new(1) os same m by (intro os_part_frame [OF parts(2)]) auto
qed

lemma tlsf_partI:
  assumes "pflags (tlsf p) = pool_flags p" "\<And>b. b \<in> T \<Longrightarrow> tlsf_stamped (tlsf_root (tlsf p)) b (hdrs (tlsf p) (b + sizeof_tlsf_block))"
    "chain_wf (tlsf_root (tlsf p)) Ls" "fst ` chain_live (tlsf_root (tlsf p)) Ls = T \<union> cached E" "T \<inter> cached E = {}" "caches p E"
    "tlsf_fit (pool_flags p) (hdrs (tlsf p)) T (chain_live (tlsf_root (tlsf p)) Ls)"
  shows "tlsf_part p T"
  unfolding tlsf_part_def using assms by blast

lemma stamped_mono: "tlsf_stamped ts b h \<Longrightarrow> region ` set ts \<subseteq> region ` set ts' \<Longrightarrow> tlsf_stamped ts' b h"
  using home_mono [of ts b "subpool h" ts'] by (simp add: tlsf_stamped_def)

lemma tlsf_shared_step:
  assumes parts: "slab_part p Hs" "tlsf_part p T" "os_part p" and n: "n \<le> 2 ^ 28" and r: "tlsf_shared env p n = (p', a)"
    and init: "os_init env \<noteq> 0 \<Longrightarrow> init_range (os_init env) \<inter> used_mem p = {}"
    and expand: "os_expand env \<noteq> 0 \<Longrightarrow> expand_range (os_expand env) N \<inter> used_mem p = {}"
      "os_expand env \<noteq> 0 \<Longrightarrow> os_init env \<noteq> 0 \<Longrightarrow> expand_range (os_expand env) N \<inter> init_range (os_init env) = {}"
    and N: "N = tlsf_total_needed (pool_flags p) n"
  shows "slab_part p' Hs \<and> os_part p' \<and> mem_only p p' \<and> slab p' = slab p \<and> ohdr p' = ohdr p \<and> os_blocks p' = os_blocks p
    \<and> (if a = 0 then tlsf_part p' T \<and> hdrs (tlsf p') = hdrs (tlsf p)
       else \<exists>b. a = b + sizeof_tlsf_block + sizeof_mp_block_header \<and> b \<notin> T \<and> tlsf_part p' (insert b T)
         \<and> requested_size (hdrs (tlsf p') (b + sizeof_tlsf_block)) = n
         \<and> (\<forall>y. y \<noteq> b + sizeof_tlsf_block \<longrightarrow> hdrs (tlsf p') y = hdrs (tlsf p) y))"
proof -
  let ?st = "tlsf_view p"
  obtain st where st: "tlsf_alloc (fresh_mem env) (os_init env) (os_expand env) ?st n = (st, a)" "p' = put_tlsf st p"
    using r by (auto simp: tlsf_shared_def split: prod.splits)
  have view: "tlsf_root ?st = tlsf_root (tlsf p)" "pflags ?st = pool_flags p" "hdrs ?st = hdrs (tlsf p)"
    by (simp_all add: tlsf_view_def)
  have same: "slab p' = slab p" "mem_only p p'" "os_blocks p' = os_blocks p" "ohdr p' = ohdr p" "tlsf p' = st" "tcaches p' = tcaches p"
    by (simp_all add: st(2) put_tlsf_def mem_only_def)
  note reg = alloc_regions [OF st(1) n N [folded view(2)], unfolded view]
  let ?R = "(if os_init env = 0 then {} else init_range (os_init env)) \<union> (if os_expand env = 0 then {} else expand_range (os_expand env) N)"
  have "\<Union> (region ` set (tlsf_root st)) \<subseteq> \<Union> (region ` set (tlsf_root (tlsf p)) \<union> (if tlsf_root (tlsf p) = [] \<and> os_init env \<noteq> 0
      then {init_range (os_init env)} else {}) \<union> (if os_expand env = 0 then {} else {expand_range (os_expand env) N}))"
    using reg by (intro Union_mono) simp
  also have "\<dots> \<subseteq> regions p \<union> ?R"
    by (auto simp: regions_def)
  finally have "regions p' \<subseteq> regions p \<union> ?R"
    by (simp add: regions_def same(5))
  moreover have "?R \<inter> used_mem p = {}"
    using init expand(1) by (auto split: if_splits)
  ultimately have 1: "slab_part p' Hs" "os_part p'"
    using grow_regions [OF parts(1,3)] same by blast+
  obtain Ls E where L: "chain_wf (tlsf_root (tlsf p)) Ls" "fst ` chain_live (tlsf_root (tlsf p)) Ls = T \<union> cached E" "T \<inter> cached E = {}" "caches p E"
    and stamps: "\<And>b. b \<in> T \<Longrightarrow> tlsf_stamped (tlsf_root (tlsf p)) b (hdrs (tlsf p) (b + sizeof_tlsf_block))"
    and fit: "tlsf_fit (pool_flags p) (hdrs (tlsf p)) T (chain_live (tlsf_root (tlsf p)) Ls)"
    using parts(2) by (auto simp: tlsf_part_def)
  have fresh: "os_fresh (os_expand env) (tlsf_expand_size N) (tlsf_root st1)"
    if "tlsf_ensure_root (fresh_mem env) (os_init env) ?st = Some st1" "os_expand env \<noteq> 0" for st1
    using expand [OF that(2)] view N that(1) by (intro expand_fresh [OF n _ that(1)]) (auto simp: used_mem_def regions_def)
  obtain Ls' where W: "chain_wf (tlsf_root st) Ls'"
    "if a = 0 then chain_live (tlsf_root st) Ls' = chain_live (tlsf_root (tlsf p)) Ls \<and> hdrs st = hdrs (tlsf p)
     else \<exists>b s. a = b + 184 \<and> chain_live (tlsf_root st) Ls' = insert (b, s) (chain_live (tlsf_root (tlsf p)) Ls)
       \<and> b \<notin> fst ` chain_live (tlsf_root (tlsf p)) Ls \<and> N \<le> s
       \<and> tlsf_stamped (tlsf_root st) b (hdrs st (b + 32)) \<and> hflags (hdrs st (b + 32)) = 0
       \<and> requested_size (hdrs st (b + 32)) = n \<and> (\<forall>y. y \<noteq> b + 32 \<longrightarrow> hdrs st y = hdrs (tlsf p) y)"
    using tlsf_alloc_step [OF L(1) [folded view(1)] n _ fresh st(1)] N unfolding view by blast
  have E': "caches p' E"
    by (rule caches_frame [OF L(4)]) (use same reg in simp_all)
  have flags: "pflags st = pool_flags p'"
    using reg mem_only_same(1) [OF same(2)] by simp
  have stamps': "tlsf_stamped (tlsf_root st) b (hdrs (tlsf p) (b + sizeof_tlsf_block))" if "b \<in> T" for b
    using stamped_mono [OF stamps [OF that]] reg by simp
  have "if a = 0 then tlsf_part p' T \<and> hdrs (tlsf p') = hdrs (tlsf p)
       else \<exists>b. a = b + sizeof_tlsf_block + sizeof_mp_block_header \<and> b \<notin> T \<and> tlsf_part p' (insert b T)
         \<and> requested_size (hdrs (tlsf p') (b + sizeof_tlsf_block)) = n
         \<and> (\<forall>y. y \<noteq> b + sizeof_tlsf_block \<longrightarrow> hdrs (tlsf p') y = hdrs (tlsf p) y)"
  proof (cases "a = 0")
    case True
    then have "tlsf_part p' T"
      using W L(2,3) E' flags stamps' same(5) fit mem_only_same(1) [OF same(2)] by (intro tlsf_partI [of p' T Ls' E]) simp_all
    then show ?thesis
      using True W(2) same(5) by simp
  next
    case False
    then obtain b s where b: "a = b + 184" "chain_live (tlsf_root st) Ls' = insert (b, s) (chain_live (tlsf_root (tlsf p)) Ls)"
      "b \<notin> T \<union> cached E" "tlsf_stamped (tlsf_root st) b (hdrs st (b + sizeof_tlsf_block))"
      "requested_size (hdrs st (b + sizeof_tlsf_block)) = n" "\<And>y. y \<noteq> b + sizeof_tlsf_block \<Longrightarrow> hdrs st y = hdrs (tlsf p) y"
      "b \<notin> fst ` chain_live (tlsf_root (tlsf p)) Ls" "N \<le> s"
      using W(2) L(2) by (auto simp: sizeof_tlsf_block_def)
    have "tlsf_stamped (tlsf_root st) c (hdrs st (c + sizeof_tlsf_block))" if "c \<in> insert b T" for c
      using that b(4) b(6) [of "c + sizeof_tlsf_block"] stamps' [of c] by (cases "c = b") simp_all
    moreover have "fst ` chain_live (tlsf_root st) Ls' = insert b T \<union> cached E" "insert b T \<inter> cached E = {}"
      using b(2,3) L(2,3) by auto
    moreover have "tlsf_fit (pool_flags p) (hdrs st) (insert b T) (chain_live (tlsf_root st) Ls')"
      unfolding b(2) using b(3,5) b(8) tlsf_total_needed_bounds(2) [OF n, of "pool_flags p", folded N]
      by (intro tlsf_fit_insert [OF fit b(7)]) (simp_all add: b(6) block_need_def sizeof_tlsf_block_def sizeof_mp_block_header_def)
    ultimately have "tlsf_part p' (insert b T)"
      using W(1) E' flags same(5) mem_only_same(1) [OF same(2)] by (intro tlsf_partI [of p' "insert b T" Ls' E]) simp_all
    then show ?thesis
      using False b same(5) by (simp add: sizeof_tlsf_block_def sizeof_mp_block_header_def)
  qed
  then show ?thesis
    using 1 same by blast
qed

lemma used_mem_cong:
  assumes "region ` set (tlsf_root (tlsf p')) = region ` set (tlsf_root (tlsf p))" "os_blocks p' = os_blocks p" "mem_only p p'"
    "pages (slab p') = pages (slab p)" "page_heads (slab p') = page_heads (slab p)"
  shows "regions p' = regions p" "os_ranges p' = os_ranges p" "os_mem p' = os_mem p" "foreign_pages p' = foreign_pages p"
    "used_mem p' = used_mem p" "env_ok env p' n = env_ok env p n" "os_held p' = os_held p"
proof -
  note m = mem_only_same [OF assms(3)]
  show 1: "regions p' = regions p" "os_ranges p' = os_ranges p"
    using assms(1,2) m by (simp_all add: regions_def os_ranges_def)
  then show 2: "os_mem p' = os_mem p" "foreign_pages p' = foreign_pages p"
    by (simp_all add: os_mem_def foreign_pages_def)
  have l: "listed_page (slab p') = listed_page (slab p)"
    using assms(4,5) by (simp add: listed_page_def fun_eq_iff)
  then show 3: "used_mem p' = used_mem p"
    by (simp add: used_mem_def 1 2)
  show "env_ok env p' n = env_ok env p n"
    by (simp add: env_ok_def 3 m fresh_maps_def l canary_bytes_def)
  show "os_held p' = os_held p"
    using assms(2) m by (simp add: os_held_def)
qed

text \<open>What an answer of the TLSF tier means for the pool.\<close>

definition tlsf_answer :: "memory_pool \<Rightarrow> addr set \<Rightarrow> addr set \<Rightarrow> nat \<Rightarrow> memory_pool \<Rightarrow> addr \<Rightarrow> bool" where
  "tlsf_answer p Hs T n p' a \<longleftrightarrow>
     slab_part p' Hs \<and> os_part p' \<and> mem_only p p' \<and> os_held p' = os_held p \<and> ohdr p' = ohdr p
     \<and> (\<forall>y \<in> Hs. shdr (slab p') y = shdr (slab p) y)
     \<and> (if a = 0 then tlsf_part p' T \<and> hdrs (tlsf p') = hdrs (tlsf p)
        else \<exists>b. a = b + sizeof_tlsf_block + sizeof_mp_block_header \<and> b \<notin> T \<and> tlsf_part p' (insert b T)
          \<and> requested_size (hdrs (tlsf p') (b + sizeof_tlsf_block)) = n
          \<and> (\<forall>y. y \<noteq> b + sizeof_tlsf_block \<longrightarrow> hdrs (tlsf p') y = hdrs (tlsf p) y))"

lemma tlsf_shared_answer:
  assumes "slab_part p Hs" "tlsf_part p T" "os_part p" "n \<le> 2 ^ 28" "env_ok env p n" "tlsf_shared env p n = (p', a)"
  shows "tlsf_answer p Hs T n p' a"
proof -
  have "os_held p' = os_held p" if "mem_only p p'" "os_blocks p' = os_blocks p"
    using that mem_only_same [OF that(1)] by (simp add: os_held_def)
  then show ?thesis
    using tlsf_shared_step [OF assms(1-4,6) _ _ _ refl] assms(5) unfolding tlsf_answer_def env_ok_def by simp
qed

lemma tlsf_answer_before:
  assumes "tlsf_answer q Hs T n p' a" "mem_only p q" "hdrs (tlsf q) = hdrs (tlsf p)" "ohdr q = ohdr p" "os_held q = os_held p"
    "\<And>y. y \<in> Hs \<Longrightarrow> shdr (slab q) y = shdr (slab p) y"
  shows "tlsf_answer p Hs T n p' a"
  using assms(1,6) mem_only_trans [OF assms(2)] unfolding tlsf_answer_def assms(3-5) by simp

text \<open>A change of the regions that keeps their extent.\<close>

lemma regions_changed:
  assumes parts: "slab_part p Hs" "os_part p" and "region ` set ts = region ` set (tlsf_root (tlsf p))"
    and "p' = p\<lparr>tlsf := (tlsf p)\<lparr>tlsf_root := ts\<rparr>, tcaches := tc\<rparr>"
  shows "slab_part p' Hs" "os_part p'" "mem_only p p'" "env_ok env p' n = env_ok env p n" "os_held p' = os_held p"
proof -
  show m: "mem_only p p'"
    by (simp add: mem_only_def assms(4))
  note u = used_mem_cong [OF _ _ m]
  have same: "region ` set (tlsf_root (tlsf p')) = region ` set (tlsf_root (tlsf p))" "os_blocks p' = os_blocks p" "slab p' = slab p"
    "ohdr p' = ohdr p"
    using assms(3) by (simp_all add: assms(4))
  show "slab_part p' Hs" "os_part p'"
    using grow_regions [OF parts, of p' "{}"] u(1) same m by simp_all
  show "env_ok env p' n = env_ok env p n" "os_held p' = os_held p"
    using u(6,7) same by simp_all
qed

lemma cache_mismatch:
  assumes parts: "slab_part q Hs" "tlsf_part q T" "os_part q" and L: "chain_wf (tlsf_root (tlsf q)) Ls"
    "fst ` chain_live (tlsf_root (tlsf q)) Ls = T \<union> cached E" "T \<inter> cached E = {}" "b \<in> cached E" "home (tlsf_root (tlsf q)) b a"
    and fit: "tlsf_fit (pool_flags q) (hdrs (tlsf q)) T (chain_live (tlsf_root (tlsf q)) Ls)"
    and p1: "caches p1 (restack t i es E)" "cached (restack t i es E) = cached E - {b}" "p1 = q\<lparr>tcaches := tcaches p1\<rparr>"
    and p2: "p2 = cache_return b a p1"
  shows "slab_part p2 Hs" "tlsf_part p2 T" "os_part p2" "mem_only q p2" "env_ok env p2 n = env_ok env q n" "os_held p2 = os_held q"
    "hdrs (tlsf p2) = hdrs (tlsf q)" "ohdr p2 = ohdr q" "slab p2 = slab q"
proof -
  let ?ts = "on_tpool a (\<lambda>t. tlsf_return_cached t b) (tlsf_root (tlsf q))"
  have "b \<in> fst ` chain_live (tlsf_root (tlsf q)) Ls"
    using L(2,4) by simp
  from chain_return_cached [OF L(1,5) this]
  obtain Ls' where L': "chain_wf ?ts Ls'" "fst ` chain_live ?ts Ls' = fst ` chain_live (tlsf_root (tlsf q)) Ls - {b}"
    "region ` set ?ts = region ` set (tlsf_root (tlsf q))" and sub: "chain_live ?ts Ls' \<subseteq> chain_live (tlsf_root (tlsf q)) Ls"
    by (elim exE conjE) (rule that)
  have t1: "tlsf p1 = tlsf q"
    by (subst p1(3)) simp
  have "cache_return b a p1 = p1\<lparr>tlsf := (tlsf p1)\<lparr>tlsf_root := on_tpool a (\<lambda>t. tlsf_return_cached t b) (tlsf_root (tlsf p1))\<rparr>\<rparr>"
    by (simp add: cache_return_def on_region_def)
  also have "\<dots> = q\<lparr>tlsf := (tlsf q)\<lparr>tlsf_root := ?ts\<rparr>, tcaches := tcaches p1\<rparr>"
    unfolding t1 by (subst p1(3)) simp
  finally have p2': "p2 = q\<lparr>tlsf := (tlsf q)\<lparr>tlsf_root := ?ts\<rparr>, tcaches := tcaches p1\<rparr>"
    using p2 by simp
  note R = regions_changed [OF parts(1,3) L'(3) p2']
  show "slab_part p2 Hs" "os_part p2" "mem_only q p2" "env_ok env p2 n = env_ok env q n" "os_held p2 = os_held q"
    using R by simp_all
  show "hdrs (tlsf p2) = hdrs (tlsf q)" "ohdr p2 = ohdr q" "slab p2 = slab q"
    by (simp_all add: p2')
  have "caches p2 (restack t i es E)"
    using L'(3) by (intro caches_frame [OF p1(1)]) (simp_all add: p2' t1, subst p1(3), simp)
  moreover have "tlsf_stamped ?ts c (hdrs (tlsf q) (c + sizeof_tlsf_block))" if "c \<in> T" for c
    using parts(2) that stamped_mono [OF _ equalityD2 [OF L'(3)]] by (simp add: tlsf_part_def)
  moreover have "b \<notin> T"
    using L(3,4) by blast
  moreover have "tlsf_fit (pool_flags q) (hdrs (tlsf q)) T (chain_live ?ts Ls')"
    by (rule tlsf_fit_mono [OF fit sub]) simp_all
  ultimately show "tlsf_part p2 T"
    using L'(1,2) L(2,3) p1(2) parts(2)
    by (intro tlsf_partI [where Ls = Ls' and E = "restack t i es E"]) (auto simp: p2' tlsf_part_def)
qed

lemma cache_hit_answer:
  assumes parts: "slab_part q Hs" "tlsf_part q T" "os_part q" and L: "chain_wf (tlsf_root (tlsf q)) Ls"
    "fst ` chain_live (tlsf_root (tlsf q)) Ls = T \<union> cached E" "T \<inter> cached E = {}" "b \<in> cached E" "home (tlsf_root (tlsf q)) b a"
    and fit: "tlsf_fit (pool_flags q) (hdrs (tlsf q)) T (chain_live (tlsf_root (tlsf q)) Ls)"
    and p1: "caches p1 (restack t i es E)" "cached (restack t i es E) = cached E - {b}" "p1 = q\<lparr>tcaches := tcaches p1\<rparr>"
    and r: "get_tpool a (tlsf_root (tlsf q)) = Some r" "bsz r b = N" and N: "184 \<le> N" "N < 2 ^ 64"
      "184 + n + canary_len (pool_flags q) \<le> N"
    and hit: "cache_hit b a n N p1 = (p', c)"
  shows "tlsf_answer q Hs T n p' c"
proof -
  let ?f = "\<lambda>t. set_size_and_flags b (N OR (word_of t b AND BLOCK_STATE_PREV_FREE)) t"
  let ?ts = "on_tpool a ?f (tlsf_root (tlsf q))" and ?h = "b + sizeof_tlsf_block"
  have "b \<in> fst ` chain_live (tlsf_root (tlsf q)) Ls"
    using L(2,4) by simp
  from chain_restamp [OF L(1,5) this r]
  obtain Ls' where L': "chain_wf ?ts Ls'" "fst ` chain_live ?ts Ls' = fst ` chain_live (tlsf_root (tlsf q)) Ls"
    "region ` set ?ts = region ` set (tlsf_root (tlsf q))" and sub: "chain_live ?ts Ls' \<subseteq> chain_live (tlsf_root (tlsf q)) Ls"
    by (elim exE conjE) (rule that)
  have t1: "tlsf p1 = tlsf q"
    by (subst p1(3)) simp
  define p2 where "p2 = on_region a ?f p1"
  have "p2 = p1\<lparr>tlsf := (tlsf q)\<lparr>tlsf_root := ?ts\<rparr>\<rparr>"
    unfolding p2_def on_region_def t1 ..
  also have "\<dots> = q\<lparr>tlsf := (tlsf q)\<lparr>tlsf_root := ?ts\<rparr>, tcaches := tcaches p1\<rparr>"
    by (subst p1(3)) simp
  finally have p2: "p2 = q\<lparr>tlsf := (tlsf q)\<lparr>tlsf_root := ?ts\<rparr>, tcaches := tcaches p1\<rparr>" .
  note R = regions_changed [OF parts(1,3) L'(3) p2]
  obtain st where st: "tlsf_stamp (tlsf_view p2) b a n N = (st, c)"
    and p': "p' = put_tlsf (st\<lparr>hdrs := (hdrs st)(?h := (hdrs st ?h)\<lparr>hflags := MP_BLOCK_FLAG_COUNTED\<rparr>)\<rparr>) p2"
    using hit by (auto simp: cache_hit_def p2_def Let_def split: prod.splits)
  have view: "tlsf_root (tlsf_view p2) = ?ts" "pflags (tlsf_view p2) = pool_flags q" "hdrs (tlsf_view p2) = hdrs (tlsf q)"
    by (simp_all add: tlsf_view_def p2)
  have home: "home ?ts b a"
    using home_mono [OF L(5) equalityD2 [OF L'(3)]] .
  note S = stamp_pair [OF st, unfolded view] stamp_tlsf_header [OF N(1,2) st, unfolded view, OF home]
  have m: "mem_only p2 p'"
    by (simp add: p' mem_only_def put_tlsf_def)
  have same: "slab p' = slab q" "ohdr p' = ohdr q" "os_blocks p' = os_blocks q" "tcaches p' = tcaches p1" "tlsf_root (tlsf p') = ?ts"
    "pflags (tlsf p') = pool_flags q"
    using S(1) by (simp_all add: p' put_tlsf_def p2)
  note m' = mem_only_trans [OF R(3) m]
  have hd: "hdrs (tlsf p') = (hdrs st)(?h := (hdrs st ?h)\<lparr>hflags := MP_BLOCK_FLAG_COUNTED\<rparr>)"
    by (simp add: p' put_tlsf_def)
  have regs: "regions p' \<subseteq> regions q"
    unfolding regions_def same(5) using L'(3) by (metis order_refl)
  have g: "slab_part p' Hs" "os_part p'"
    using grow_regions [OF parts(1,3), of p' "{}"] regs same m' by simp_all
  have "caches p' (restack t i es E)"
    using L'(3) by (intro caches_frame [OF p1(1)]) (simp_all add: same t1, subst p1(3), simp)
  moreover have "tlsf_stamped ?ts x (hdrs (tlsf p') (x + sizeof_tlsf_block))" if "x \<in> insert b T" for x
  proof (cases "x = b")
    case True
    then show ?thesis
      using S(2) by (simp add: hd tlsf_stamped_def MP_BLOCK_FLAG_COUNTED_def MP_BLOCK_FLAG_TLSF_ARENA_def sizeof_tlsf_block_def)
  next
    case False
    then have "tlsf_stamped (tlsf_root (tlsf q)) x (hdrs (tlsf q) (x + sizeof_tlsf_block))"
      using that parts(2) by (simp add: tlsf_part_def)
    then show ?thesis
      using stamped_mono [OF _ equalityD2 [OF L'(3)]] False S(6) [of "x + sizeof_tlsf_block"] by (simp add: hd sizeof_tlsf_block_def)
  qed
  moreover have "b \<notin> T"
    using L(3,4) by (auto simp: disjoint_iff)
  moreover have "fst ` chain_live ?ts Ls' = insert b T \<union> cached (restack t i es E)"
    unfolding L'(2) L(2) p1(2) using L(4) by auto
  moreover have "insert b T \<inter> cached (restack t i es E) = {}"
    unfolding p1(2) using L(3) by auto
  moreover have "tlsf_fit (pool_flags q) (hdrs (tlsf p')) (insert b T) (chain_live ?ts Ls')"
  proof -
    have "sizeof_tlsf_block + block_need (pool_flags q) (hdrs (tlsf p') (x + sizeof_tlsf_block)) \<le> m" if x: "(x, m) \<in> chain_live ?ts Ls'" "x \<in> insert b T" for x m
    proof (cases "x = b")
      case True
      then have "m = N"
        using live_size [OF L(1,5) r(1)] sub x(1) r(2) by auto
      then show ?thesis
        using True N(3) S(4) by (simp add: hd block_need_def sizeof_tlsf_block_def sizeof_mp_block_header_def)
    next
      case False
      then show ?thesis
        using x sub fit S(6) [of "x + sizeof_tlsf_block"] by (auto simp: hd tlsf_fit_def sizeof_tlsf_block_def)
    qed
    then show ?thesis
      by (simp add: tlsf_fit_def)
  qed
  ultimately have "tlsf_part p' (insert b T)"
    using L'(1) same mem_only_same(1) [OF m'] by (intro tlsf_partI [where Ls = Ls' and E = "restack t i es E"]) simp_all
  moreover have "c = ?h + sizeof_mp_block_header" "requested_size (hdrs (tlsf p') ?h) = n" "\<forall>y. y \<noteq> ?h \<longrightarrow> hdrs (tlsf p') y = hdrs (tlsf q) y"
    using S by (simp_all add: hd sizeof_tlsf_block_def sizeof_mp_block_header_def)
  moreover have "os_held p' = os_held q"
    using same(3) mem_only_same [OF m'] by (simp add: os_held_def)
  ultimately show ?thesis
    unfolding tlsf_answer_def using g m' same \<open>b \<notin> T\<close> by (auto simp: sizeof_mp_block_header_def)
qed

lemma tlsf_request_step:
  assumes parts: "slab_part p Hs" "tlsf_part p T" "os_part p" and n: "n \<le> 2 ^ 28" and env: "env_ok env p n"
  shows "\<exists>p' a. tlsf_request env p n = Some (p', a) \<and> tlsf_answer p Hs T n p' a"
proof -
  let ?t = "thread env"
  define q where "q = validate_owner p ?t"
  note v = validate_owner_step [OF parts(1,2), where t = ?t, folded q_def]
  have same: "hdrs (tlsf q) = hdrs (tlsf p)" "pages (slab q) = pages (slab p)" "page_heads (slab q) = page_heads (slab p)"
    using v(5) by (simp_all add: q_def validate_owner_def tls_cache_validate_owner_def)
  note u = used_mem_cong [OF _ v(7,4) same(2,3)]
  have eq: "env_ok env q n" "os_held q = os_held p" "regions q = regions p"
    using u v(5) env by simp_all
  have os: "os_part q"
    using parts(3) v(6,7) mem_only_same [OF v(4)] u v(5)
    by (intro os_part_frame [OF parts(3)]) (auto simp: os_part_def Int_commute)
  note before = tlsf_answer_before [OF _ v(4) same(1) v(6) eq(2) v(8)]
  note shared = tlsf_shared_answer [OF v(1,2) os n eq(1)]
  define N where "N = tlsf_total_needed (pool_flags q) n"
  note Nb = tlsf_total_needed_bounds [OF n, of "pool_flags q", folded N_def]
  have r0: "tlsf_request env p n = (case cache_index N of
           None \<Rightarrow> Some (tlsf_shared env q n)
         | Some i \<Rightarrow>
             if tlsf_counts (tcaches q ?t) i = 0 then Some (tlsf_shared env q n)
             else let (p, block, tpool) = tlsf_cache_pop ?t i q
                  in case get_tpool tpool (tlsf_root (tlsf p)) of
                       None \<Rightarrow> None
                     | Some r \<Rightarrow>
                         if bsz r block \<noteq> N then Some (tlsf_shared env (cache_return block tpool p) n)
                         else Some (cache_hit block tpool n N p))"
    unfolding tlsf_request_def Let_def q_def [symmetric] N_def [symmetric] ..
  show ?thesis
  proof (cases "\<exists>i. cache_index N = Some i \<and> tlsf_counts (tcaches q ?t) i \<noteq> 0")
    case False
    then have "tlsf_request env p n = Some (tlsf_shared env q n)"
      unfolding r0 by (auto split: option.splits)
    then show ?thesis
      using before [OF shared] by (metis prod.collapse)
  next
    case True
    then obtain i where i: "cache_index N = Some i" "tlsf_counts (tcaches q ?t) i \<noteq> 0"
      by blast
    have i8: "i < TLSF_CACHE_SIZES"
      using i(1) by (auto simp: cache_index_def Let_def split: if_splits)
    obtain Ls E where L: "chain_wf (tlsf_root (tlsf q)) Ls" "fst ` chain_live (tlsf_root (tlsf q)) Ls = T \<union> cached E" "T \<inter> cached E = {}" "caches q E"
      and fit: "tlsf_fit (pool_flags q) (hdrs (tlsf q)) T (chain_live (tlsf_root (tlsf q)) Ls)"
      using v(2) by (auto simp: tlsf_part_def)
    obtain es b a p1 where P: "E ?t i = es @ [(b, a)]" "tlsf_cache_pop ?t i q = (p1, b, a)" "caches p1 (restack ?t i es E)"
      "cached (restack ?t i es E) = cached E - {b}" "b \<in> cached E" "home (tlsf_root (tlsf q)) b a" "p1 = q\<lparr>tcaches := tcaches p1\<rparr>"
      by (rule caches_pop [OF L(4) v(3) i8 i(2)])
    have t1: "tlsf p1 = tlsf q"
      by (subst P(7)) simp
    obtain m where "(b, m) \<in> chain_live (tlsf_root (tlsf q)) Ls"
      using L(2) P(5) by force
    from chain_entry [OF L(1) this P(6)] obtain r where r: "get_tpool a (tlsf_root (tlsf q)) = Some r"
      using get_tpool_in [OF L(1)] by metis
    have r1: "tlsf_request env p n = (if bsz r b \<noteq> N then Some (tlsf_shared env (cache_return b a p1) n) else Some (cache_hit b a n N p1))"
      unfolding r0 using i P(2) r t1 by simp
    show ?thesis
    proof (cases "bsz r b = N")
      case False
      note M = cache_mismatch [OF v(1,2) os L(1-3) P(5,6) fit P(3,4,7) refl]
      have "env_ok env (cache_return b a p1) n"
        using M(5) eq(1) by simp
      note A = tlsf_shared_answer [OF M(1-3) n this]
      have "tlsf_answer q Hs T n (fst (tlsf_shared env (cache_return b a p1) n)) (snd (tlsf_shared env (cache_return b a p1) n))"
        by (rule tlsf_answer_before [OF A M(4,7,8,6)]) (simp_all add: M(9))
      then show ?thesis
        using before r1 False by (metis prod.collapse)
    next
      case True
      have "184 \<le> N" "N < 2 ^ 64" "184 + n + canary_len (pool_flags q) \<le> N"
        using Nb(2,5) by simp_all
      from cache_hit_answer [OF v(1,2) os L(1-3) P(5,6) fit P(3,4,7) r True this] have
        "tlsf_answer q Hs T n (fst (cache_hit b a n N p1)) (snd (cache_hit b a n N p1))"
        by (metis prod.collapse)
      then show ?thesis
        using before r1 True by (metis prod.collapse)
    qed
  qed
qed

end
