(* ===== verification/Pool_Alloc.thy ===== *)
theory Pool_Alloc
  imports Pool_Steps
begin

text \<open>
  A request goes to one tier and what comes back is a block nobody held: \<open>dispatch\<close> for all tiers, then the
  accounting of the block.
\<close>

section \<open>The operating system\<close>

lemma os_payload_eq: "\<exists>m. os_payload a n p = p\<lparr>omem := m\<rparr>"
proof -
  have "os_payload a n p = p\<lparr>omem := omem (os_payload a n p)\<rparr>"
    by (simp add: os_payload_def Let_def)
  then show ?thesis
    by (rule exI [of "\<lambda>m. os_payload a n p = p\<lparr>omem := m\<rparr>"])
qed

lemma os_request_eq:
  assumes "os_request env p n = (p', a)" "os_block env \<noteq> 0" "n < 2 ^ 63"
  obtains h m u v where "a = os_block env + sizeof_mp_block_header"
    "p' = p\<lparr>ohdr := (ohdr p)(os_block env := h), os_blocks := (os_block env, n + sizeof_mp_block_header + canary_bytes p) # os_blocks p,
       omem := m, os_allocated_bytes := u, resident_size := v\<rparr>"
    "os_stamped ALLOC_TYPE_OS (os_block env) h" "requested_size h = n"
proof -
  let ?raw = "os_block env" and ?N = "n + sizeof_mp_block_header + canary_bytes p"
  have N: "?N mod 2 ^ 64 = ?N"
    using assms(3) by (simp add: sizeof_mp_block_header_def canary_bytes_def)
  define h0 where "h0 = (ohdr p ?raw)\<lparr>alloc_type := ALLOC_TYPE_OS, slab_class := 0, hflags := MP_BLOCK_FLAG_COUNTED,
      requested_size := n, usable_size := n, raw_base := ?raw, subpool := self p, magic := MP_MAGIC_HEAD\<rparr>"
  define h where "h = (if has_flag (pool_flags p) MP_FLAG_FAST_PATH then h0
      else h0\<lparr>alloc_file := 0, alloc_line := 0, alloc_func := 0, backtrace_depth := 0\<rparr>)"
  let ?q = "p\<lparr>ohdr := (ohdr p)(?raw := h), os_blocks := (?raw, ?N) # os_blocks p\<rparr>"
  obtain m where m: "os_payload (?raw + sizeof_mp_block_header) n ?q = ?q\<lparr>omem := m\<rparr>"
    using os_payload_eq by metis
  have "(p', a) = (?q\<lparr>omem := m, os_allocated_bytes := (os_allocated_bytes p + n) mod 2 ^ 64,
      resident_size := (resident_size p + ?N) mod 2 ^ 64\<rparr>, ?raw + sizeof_mp_block_header)"
    using assms(1) unfolding os_request_def N Let_def h0_def [symmetric] h_def [symmetric] m using assms(2) by simp
  then have "a = ?raw + sizeof_mp_block_header" "p' = p\<lparr>ohdr := (ohdr p)(?raw := h), os_blocks := (?raw, ?N) # os_blocks p,
       omem := m, os_allocated_bytes := (os_allocated_bytes p + n) mod 2 ^ 64, resident_size := (resident_size p + ?N) mod 2 ^ 64\<rparr>"
    by simp_all
  moreover have "os_stamped ALLOC_TYPE_OS ?raw h" "requested_size h = n"
    by (simp_all add: h_def h0_def os_stamped_def)
  ultimately show thesis
    by (rule that)
qed

lemma os_request_step:
  assumes parts: "slab_part p Hs" "tlsf_part p T" "os_part p" and n: "n < 2 ^ 63" and env: "env_ok env p n"
    and r: "os_request env p n = (p', a)"
  shows "slab_part p' Hs" "tlsf_part p' T" "os_part p'" "mem_only p p'" "slab p' = slab p" "tlsf p' = tlsf p"
    "a = 0 \<Longrightarrow> p' = p"
    "a \<noteq> 0 \<Longrightarrow> a = os_block env + sizeof_mp_block_header \<and> os_block env \<notin> os_held p \<and> os_held p' = insert (os_block env) (os_held p)
       \<and> requested_size (ohdr p' (os_block env)) = n \<and> (\<forall>h \<in> os_held p. ohdr p' h = ohdr p h)"
proof -
  let ?raw = "os_block env" and ?N = "n + sizeof_mp_block_header + canary_bytes p"
  have "p' = p \<and> a = 0 \<or> (\<exists>h m u v. ?raw \<noteq> 0 \<and> a = ?raw + sizeof_mp_block_header
      \<and> p' = p\<lparr>ohdr := (ohdr p)(?raw := h), os_blocks := (?raw, ?N) # os_blocks p, omem := m, os_allocated_bytes := u, resident_size := v\<rparr>
      \<and> os_stamped ALLOC_TYPE_OS ?raw h \<and> requested_size h = n)"
  proof (cases "?raw = 0")
    case True
    then show ?thesis
      using r by (simp add: os_request_def)
  next
    case False
    from os_request_eq [OF r this n] show ?thesis
      using False by metis
  qed
  then consider "p' = p" "a = 0" | h m u v where "?raw \<noteq> 0" "a = ?raw + sizeof_mp_block_header"
    "p' = p\<lparr>ohdr := (ohdr p)(?raw := h), os_blocks := (?raw, ?N) # os_blocks p, omem := m, os_allocated_bytes := u, resident_size := v\<rparr>"
    "os_stamped ALLOC_TYPE_OS ?raw h" "requested_size h = n"
    by (elim disjE exE conjE)
  note cs = this
  show m: "mem_only p p'" "slab p' = slab p" "tlsf p' = tlsf p" "a = 0 \<Longrightarrow> p' = p"
    by (cases rule: cs; simp add: mem_only_def sizeof_mp_block_header_def)+
  note s = mem_only_same [OF m(1)]
  have new: "os_blocks p' = (?raw, ?N) # os_blocks p" "a = ?raw + sizeof_mp_block_header" "?raw \<noteq> 0"
    "requested_size (ohdr p' ?raw) = n" "os_stamped ALLOC_TYPE_OS ?raw (ohdr p' ?raw)" "\<And>h. h \<noteq> ?raw \<Longrightarrow> ohdr p' h = ohdr p h" if "a \<noteq> 0"
    using that by (cases rule: cs; simp)+
  have tc: "tcaches p' = tcaches p"
    by (cases rule: cs) simp_all
  show "tlsf_part p' T"
    by (rule tlsf_part_frame [OF parts(2)]) (use m s tc in simp_all)
  have reg: "regions p' = regions p"
    using m(3) by (simp add: regions_def)
  have raw: "span (?raw, ?N) \<inter> used_mem p = {}" if "a \<noteq> 0"
    using env new(3) [OF that] by (simp add: env_ok_def span_def)
  have mem: "os_mem p' = os_mem p \<union> span (?raw, ?N)" "set (os_ranges p') = insert (?raw, ?N) (set (os_ranges p))" if "a \<noteq> 0"
    using new(1) [OF that] s by (auto simp: os_mem_def os_ranges_def)
  have "slab_part p' Hs \<and> os_part p' \<and> (a \<noteq> 0 \<longrightarrow> ?raw \<notin> os_held p \<and> os_held p' = insert ?raw (os_held p) \<and> (\<forall>h \<in> os_held p. ohdr p' h = ohdr p h))"
  proof (cases "a = 0")
    case True
    then show ?thesis
      using m(4) parts by simp
  next
    case False
    note new = new [OF False] and mem = mem [OF False] and raw = raw [OF False]
    obtain D C where D: "slab_inv 0 (slab p) D C Hs" "held_ok (slab p) D Hs" "\<And>k. set (D k) \<inter> foreign_pages p = {}"
      using parts(1) by (auto simp: slab_part_def)
    have "foreign_pages p' = foreign_pages p \<union> page_of ` span (?raw, ?N)"
      by (auto simp: foreign_pages_def reg mem(1))
    then have "set (D k) \<inter> foreign_pages p' = {}" for k
      using D(3) [of k] pages_apart [OF D(1) raw, of k] by (simp add: Int_Un_distrib)
    then have sp: "slab_part p' Hs"
      using parts(1) D(1,2) s(1,2) unfolding slab_part_def m(2) by auto
    have "?raw \<in> span (?raw, ?N)"
      by (simp add: span_def sizeof_mp_block_header_def)
    then have "?raw \<notin> os_mem p"
      using raw by (auto simp: used_mem_def disjoint_iff)
    then have fresh: "?raw \<notin> os_held p"
      using os_part_area(1) [OF parts(3)] by blast
    then have old: "\<forall>h \<in> os_held p. ohdr p' h = ohdr p h"
      using new(6) by metis
    have held: "os_held p' = insert ?raw (os_held p)"
      using new(1) s by (auto simp: os_held_def)
    have rng: "os_mem p \<inter> regions p = {}" "sorted_wrt (\<lambda>r r'. span r \<inter> span r' = {}) (os_ranges p)"
      "\<And>b k. (b, k) \<in> set (os_blocks p) \<Longrightarrow> b \<noteq> 0 \<and> 0 < k \<and> os_stamped ALLOC_TYPE_OS b (ohdr p b) \<and> block_need (pool_flags p) (ohdr p b) \<le> k"
      "emergency_used p \<Longrightarrow> emergency_buf p \<noteq> 0 \<and> 0 < emergency_size p \<and> os_stamped ALLOC_TYPE_EMERGENCY (emergency_buf p) (ohdr p (emergency_buf p))
         \<and> block_need (pool_flags p) (ohdr p (emergency_buf p)) \<le> emergency_size p"
      using parts(3) by (auto simp: os_part_def)
    have apart: "span (?raw, ?N) \<inter> span r = {}" if "r \<in> set (os_ranges p)" for r
      using raw that by (auto simp: used_mem_def os_mem_def)
    then have sorted: "sorted_wrt (\<lambda>r r'. span r \<inter> span r' = {}) (os_ranges p')"
      using rng(2) new(1) s(4,5) unfolding os_ranges_def by (cases "emergency_buf p = 0") (simp_all, metis Int_commute)
    have "os_mem p' \<inter> regions p' = {}"
      using rng(1) raw by (auto simp: mem(1) reg used_mem_def)
    moreover have "b \<noteq> 0 \<and> 0 < k \<and> os_stamped ALLOC_TYPE_OS b (ohdr p' b) \<and> block_need (pool_flags p') (ohdr p' b) \<le> k" if "(b, k) \<in> set (os_blocks p')" for b k
    proof (cases "b = ?raw \<and> k = ?N")
      case True
      then show ?thesis
        using new(3-5) s(1) by (simp add: block_need_def canary_bytes_def canary_len_def sizeof_mp_block_header_def)
    next
      case False
      then have "(b, k) \<in> set (os_blocks p)"
        using that new(1) by auto
      moreover from this have "b \<in> os_held p"
        by (force simp: os_held_def)
      ultimately show ?thesis
        using rng(3) old s(1) by simp
    qed
    moreover have "emergency_used p' \<Longrightarrow> emergency_buf p' \<noteq> 0 \<and> 0 < emergency_size p'
        \<and> os_stamped ALLOC_TYPE_EMERGENCY (emergency_buf p') (ohdr p' (emergency_buf p'))
        \<and> block_need (pool_flags p') (ohdr p' (emergency_buf p')) \<le> emergency_size p'"
      using rng(4) old s by (simp add: os_held_def)
    ultimately have "os_part p'"
      using sorted by (auto simp: os_part_def)
    then show ?thesis
      using sp fresh held old by simp
  qed
  then show "slab_part p' Hs" "os_part p'"
    "a \<noteq> 0 \<Longrightarrow> a = ?raw + sizeof_mp_block_header \<and> ?raw \<notin> os_held p \<and> os_held p' = insert ?raw (os_held p)
       \<and> requested_size (ohdr p' ?raw) = n \<and> (\<forall>h \<in> os_held p. ohdr p' h = ohdr p h)"
    using new by simp_all
qed

section \<open>Any tier\<close>

lemma header_kept:
  assumes "slab_part p Hs" "tlsf_part p T" "os_part p" and "slab_part p' Hs'" "tlsf_part p' T'" "os_part p'"
    and "\<And>h. h \<in> Hs \<inter> Hs' \<Longrightarrow> shdr (slab p') h = shdr (slab p) h"
    and "\<And>b. b \<in> T \<inter> T' \<Longrightarrow> hdrs (tlsf p') (b + sizeof_tlsf_block) = hdrs (tlsf p) (b + sizeof_tlsf_block)"
    and "\<And>h. h \<in> os_held p \<inter> os_held p' \<Longrightarrow> ohdr p' h = ohdr p h"
    and "h \<in> (Hs \<inter> Hs') \<union> tlsf_held (T \<inter> T') \<union> (os_held p \<inter> os_held p')"
  shows "header_at p' h = header_at p h"
proof -
  consider "h \<in> Hs" "h \<in> Hs'" | b where "b \<in> T" "b \<in> T'" "h = b + sizeof_tlsf_block" | "h \<in> os_held p" "h \<in> os_held p'"
    using assms(10) by (auto simp: tlsf_held_def)
  then show ?thesis
  proof cases
    case 1
    then show ?thesis
      using slab_part_area(4) [OF assms(1)] slab_part_area(4) [OF assms(4)] assms(7) by simp
  next
    case 2
    then show ?thesis
      using tlsf_part_area(4) [OF assms(2)] tlsf_part_area(4) [OF assms(5)] assms(8) by simp
  next
    case 3
    then show ?thesis
      using os_part_area(4) [OF assms(3)] os_part_area(4) [OF assms(6)] assms(9) by simp
  qed
qed

text \<open>What an answer to a request for \<open>n\<close> bytes means: the block handed out was not held before and lies in the memory of
  the tier that was asked.\<close>

definition tier_of :: "memory_pool \<Rightarrow> nat \<Rightarrow> area" where
  "tier_of p n =
     (if \<not> has_flag (pool_flags p) MP_FLAG_STATIC_BUFFER \<and> n \<le> SLAB_MAX_SIZE then SlabArea
      else if n \<le> TLSF_MAX_SIZE \<or> has_flag (pool_flags p) MP_FLAG_STATIC_BUFFER then TlsfArea else OsArea)"

definition answer :: "area \<Rightarrow> memory_pool \<Rightarrow> addr set \<Rightarrow> nat \<Rightarrow> memory_pool \<Rightarrow> addr \<Rightarrow> bool" where
  "answer ar p H n p' a \<longleftrightarrow> mem_only p p' \<and> (\<forall>h \<in> H. header_at p' h = header_at p h)
     \<and> (if a = 0 then tiers p' H
        else \<exists>h. a = h + sizeof_mp_block_header \<and> h \<notin> H \<and> tiers p' (insert h H) \<and> requested_size (header_at p' h) = n \<and> area_of p' h = ar)"

lemma tlsf_held_insert: "tlsf_held (insert b T) = insert (b + sizeof_tlsf_block) (tlsf_held T)"
  by (simp add: tlsf_held_def)

lemma tlsf_held_iff: "b + sizeof_tlsf_block \<in> tlsf_held T \<longleftrightarrow> b \<in> T"
  by (auto simp: tlsf_held_def)

lemma tiersI:
  assumes "slab_part p Hs" "tlsf_part p T" "os_part p" "H = Hs \<union> tlsf_held T \<union> os_held p"
  shows "tiers p H"
  unfolding tiers_def using assms by blast

lemma slab_answer:
  assumes parts: "slab_part p Hs" "tlsf_part p T" "os_part p" and env: "env_ok env p n"
    and c: "get_slab_class_index (classes p) n < SLAB_CLASS_COUNT"
  shows "\<exists>p' a. slab_request env p n = Some (p', a) \<and> answer SlabArea p (Hs \<union> tlsf_held T \<union> os_held p) n p' a"
proof -
  from slab_request_step [OF assms] obtain p' s where r: "slab_request env p n = Some (p', if s = 0 then 0 else s + sizeof_mp_block_header)"
    and P: "mem_only p p'" "slab_part p' (if s = 0 then Hs else insert s Hs)" "tlsf_part p' T" "os_part p'" "os_held p' = os_held p"
    "tlsf p' = tlsf p" "ohdr p' = ohdr p" "\<forall>y \<in> Hs. shdr (slab p') y = shdr (slab p) y"
    "s \<noteq> 0 \<longrightarrow> s \<notin> Hs \<and> requested_size (shdr (slab p') s) = n"
    by (elim exE conjE) (rule that)
  let ?H = "Hs \<union> tlsf_held T \<union> os_held p"
  have kept: "\<forall>h \<in> ?H. header_at p' h = header_at p h"
    using P(5-8) by (intro ballI header_kept [OF parts P(2-4)]) (auto split: if_splits)
  have new: "s \<notin> ?H" "requested_size (header_at p' s) = n" "area_of p' s = SlabArea" if "s \<noteq> 0"
  proof -
    have sp: "slab_part p' (insert s Hs)"
      using P(2) that by simp
    note d = held_disjoint [OF sp P(3,4)]
    show "s \<notin> ?H"
      using P(9) that d P(5) by blast
    show "requested_size (header_at p' s) = n" "area_of p' s = SlabArea"
      using slab_part_area(3,4) [OF sp, of s] P(9) that by simp_all
  qed
  have "tiers p' (if s = 0 then ?H else insert s ?H)"
    by (rule tiersI [OF P(2-4)]) (auto simp: P(5))
  then have "answer SlabArea p ?H n p' (if s = 0 then 0 else s + sizeof_mp_block_header)"
    using kept P(1) new by (auto simp: answer_def sizeof_mp_block_header_def)
  then show ?thesis
    using r by blast
qed

lemma tlsf_answer_pool:
  assumes parts: "slab_part p Hs" "tlsf_part p T" "os_part p" and "tlsf_answer p Hs T n p' a"
  shows "answer TlsfArea p (Hs \<union> tlsf_held T \<union> os_held p) n p' a"
proof -
  let ?H = "Hs \<union> tlsf_held T \<union> os_held p"
  have P: "slab_part p' Hs" "os_part p'" "mem_only p p'" "os_held p' = os_held p" "ohdr p' = ohdr p" "\<forall>y \<in> Hs. shdr (slab p') y = shdr (slab p) y"
    and A: "if a = 0 then tlsf_part p' T \<and> hdrs (tlsf p') = hdrs (tlsf p)
        else \<exists>b. a = b + sizeof_tlsf_block + sizeof_mp_block_header \<and> b \<notin> T \<and> tlsf_part p' (insert b T)
          \<and> requested_size (hdrs (tlsf p') (b + sizeof_tlsf_block)) = n
          \<and> (\<forall>y. y \<noteq> b + sizeof_tlsf_block \<longrightarrow> hdrs (tlsf p') y = hdrs (tlsf p) y)"
    using assms(4) by (simp_all add: tlsf_answer_def)
  show ?thesis
  proof (cases "a = 0")
    case True
    then have t: "tlsf_part p' T" "hdrs (tlsf p') = hdrs (tlsf p)"
      using A by simp_all
    have "\<forall>h \<in> ?H. header_at p' h = header_at p h"
      using P(4-6) t(2) by (intro ballI header_kept [OF parts P(1) t(1) P(2)]) auto
    moreover have "tiers p' ?H"
      by (rule tiersI [OF P(1) t(1) P(2)]) (simp add: P(4))
    ultimately show ?thesis
      using True P(3) by (simp add: answer_def)
  next
    case False
    then obtain b where b: "a = b + sizeof_tlsf_block + sizeof_mp_block_header" "b \<notin> T" "tlsf_part p' (insert b T)"
      "requested_size (hdrs (tlsf p') (b + sizeof_tlsf_block)) = n" "\<forall>y. y \<noteq> b + sizeof_tlsf_block \<longrightarrow> hdrs (tlsf p') y = hdrs (tlsf p) y"
      using A by auto
    let ?h = "b + sizeof_tlsf_block"
    have T: "c + sizeof_tlsf_block \<noteq> ?h" if "c \<in> T" for c
      using that b(2) by auto
    have "\<forall>h \<in> ?H. header_at p' h = header_at p h"
      using P(4-6) b(5) T by (intro ballI header_kept [OF parts P(1) b(3) P(2)]) (auto simp: Int_absorb2 subset_insertI)
    moreover have "tiers p' (insert ?h ?H)"
      by (rule tiersI [OF P(1) b(3) P(2)]) (auto simp: P(4) tlsf_held_insert)
    moreover have "?h \<notin> ?H"
      using held_disjoint [OF P(1) b(3) P(2)] b(2) P(4) by (auto simp: tlsf_held_insert tlsf_held_iff)
    moreover have "requested_size (header_at p' ?h) = n" "area_of p' ?h = TlsfArea"
      using tlsf_part_area(3,4) [OF b(3), of b] b(4) by simp_all
    ultimately show ?thesis
      using False b(1) P(3) by (auto simp: answer_def)
  qed
qed

lemma os_answer:
  assumes parts: "slab_part p Hs" "tlsf_part p T" "os_part p" and n: "n < 2 ^ 63" and env: "env_ok env p n"
    and r: "os_request env p n = (p', a)"
  shows "answer OsArea p (Hs \<union> tlsf_held T \<union> os_held p) n p' a"
proof (cases "a = 0")
  case True
  then show ?thesis
    using os_request_step(7) [OF assms] tiersI [OF parts refl] by (simp add: answer_def mem_only_refl)
next
  case False
  let ?H = "Hs \<union> tlsf_held T \<union> os_held p" and ?h = "os_block env"
  note P = os_request_step [OF assms]
  from P(8) [OF False] have b: "a = ?h + sizeof_mp_block_header" "?h \<notin> os_held p" "os_held p' = insert ?h (os_held p)"
    "requested_size (ohdr p' ?h) = n" "\<forall>h \<in> os_held p. ohdr p' h = ohdr p h"
    by simp_all
  have "\<forall>h \<in> ?H. header_at p' h = header_at p h"
    using P(5,6) b(3,5) by (intro ballI header_kept [OF parts P(1-3)]) auto
  moreover have "tiers p' (insert ?h ?H)"
    by (rule tiersI [OF P(1-3)]) (auto simp: b(3))
  moreover have "?h \<notin> ?H"
    using held_disjoint [OF P(1-3)] b(2,3) by auto
  moreover have "requested_size (header_at p' ?h) = n" "area_of p' ?h = OsArea"
    using os_part_area(3,4) [OF P(3), of ?h] b(3,4) by simp_all
  ultimately show ?thesis
    using False b(1) P(4) by (auto simp: answer_def)
qed

definition request_ok :: "memory_pool \<Rightarrow> nat \<Rightarrow> bool" where
  "request_ok p n \<longleftrightarrow> (0 < n \<and> n \<le> SLAB_MAX_SIZE \<longrightarrow> get_slab_class_index (classes p) n < SLAB_CLASS_COUNT) \<and> n < 2 ^ 63
     \<and> (has_flag (pool_flags p) MP_FLAG_STATIC_BUFFER \<longrightarrow> n \<le> 2 ^ 28)"

lemma dispatch_step:
  assumes "tiers p H" and env: "env_ok env p n" and n: "request_ok p n" "n \<noteq> 0"
  shows "\<exists>p' a. dispatch env p n = Some (p', a) \<and> answer (tier_of p n) p H n p' a"
proof -
  obtain Hs T where parts: "slab_part p Hs" "tlsf_part p T" "os_part p" and H: "H = Hs \<union> tlsf_held T \<union> os_held p"
    using assms(1) by (auto simp: tiers_def)
  consider "\<not> has_flag (pool_flags p) MP_FLAG_STATIC_BUFFER" "n \<le> SLAB_MAX_SIZE"
    | "n \<le> TLSF_MAX_SIZE \<or> has_flag (pool_flags p) MP_FLAG_STATIC_BUFFER" "has_flag (pool_flags p) MP_FLAG_STATIC_BUFFER \<or> SLAB_MAX_SIZE < n"
    | "\<not> has_flag (pool_flags p) MP_FLAG_STATIC_BUFFER" "TLSF_MAX_SIZE < n" "SLAB_MAX_SIZE < n"
    by linarith
  then show ?thesis
  proof cases
    case 1
    then have "dispatch env p n = slab_request env p n" "tier_of p n = SlabArea"
      by (simp_all add: dispatch_def tier_of_def)
    then show ?thesis
      using slab_answer [OF parts env] n 1(2) unfolding H request_ok_def by simp
  next
    case 2
    then have r: "dispatch env p n = tlsf_request env p n" "tier_of p n = TlsfArea"
      by (auto simp: dispatch_def tier_of_def)
    have "n \<le> 2 ^ 28"
      using 2(1) n(1) by (auto simp: request_ok_def TLSF_MAX_SIZE_def)
    from tlsf_request_step [OF parts this env] show ?thesis
      unfolding r H using tlsf_answer_pool [OF parts] by blast
  next
    case 3
    then have "dispatch env p n = Some (os_request env p n)" "tier_of p n = OsArea"
      by (simp_all add: dispatch_def tier_of_def)
    then show ?thesis
      using os_answer [OF parts _ env] n unfolding H request_ok_def by (cases "os_request env p n") simp
  qed
qed

end
