(* ===== verification/Pool_Book.thy ===== *)
theory Pool_Book
  imports Pool_Alloc
begin

text \<open>
  The books of a pool: the list of active blocks and the counters describe exactly the blocks that are held.  What
  the entry points write besides the memory of the tiers leaves the tiers alone, and what they write to a
  header leaves the block where it is.
\<close>

section \<open>Writes that leave the tiers alone\<close>

definition pool_core :: "memory_pool \<Rightarrow> _" where
  "pool_core p = (slab p, tlsf p, tcaches p, ohdr p, os_blocks p, pool_flags p, classes p, emergency_buf p, emergency_size p, emergency_used p)"

lemma core_cong:
  assumes "pool_core p' = pool_core p"
  shows "tiers p' H = tiers p H" "header_at p' h = header_at p h" "pool_flags p' = pool_flags p" "os_held p' = os_held p"
    "slab_part p' Hs = slab_part p Hs" "tlsf_part p' T = tlsf_part p T" "os_part p' = os_part p" "area_of p' h = area_of p h"
proof -
  have s: "slab p' = slab p" "tlsf p' = tlsf p" "tcaches p' = tcaches p" "ohdr p' = ohdr p" "os_blocks p' = os_blocks p"
    "emergency_buf p' = emergency_buf p" "emergency_size p' = emergency_size p" "emergency_used p' = emergency_used p"
    and f: "pool_flags p' = pool_flags p" "classes p' = classes p"
    using assms by (simp_all add: pool_core_def)
  show "pool_flags p' = pool_flags p"
    by (rule f(1))
  have r: "os_ranges p' = os_ranges p" "regions p' = regions p"
    by (simp_all add: os_ranges_def regions_def s)
  then have m: "os_mem p' = os_mem p" "foreign_pages p' = foreign_pages p"
    by (simp_all add: os_mem_def foreign_pages_def)
  show h: "os_held p' = os_held p"
    by (simp add: os_held_def s)
  have c: "caches p' E = caches p E" for E
    by (simp add: caches_def s)
  show parts: "slab_part p' Hs = slab_part p Hs" "tlsf_part p' T = tlsf_part p T" "os_part p' = os_part p" for Hs T
    by (simp_all add: slab_part_def tlsf_part_def os_part_def s f m c r)
  show "tiers p' H = tiers p H"
    by (simp add: tiers_def parts h)
  show a: "area_of p' h = area_of p h"
    by (simp add: area_of_eq r m)
  show "header_at p' h = header_at p h"
    by (simp add: header_at_def a s split: area.splits)
qed

lemma core_updates [simp]:
  "pool_core (trigger_event p ev a n) = pool_core p" "pool_core (call_recovery p) = pool_core p"
  "pool_core (set_act_next x v p) = pool_core p" "pool_core (set_act_prev x v p) = pool_core p" "pool_core (p\<lparr>act_head := v\<rparr>) = pool_core p"
  "pool_core (count_size n p) = pool_core p" "pool_core (mp_free_stats_no_lock p h) = pool_core p" "pool_core (mp_clear_pool_dirty p) = pool_core p"
  by (simp_all add: pool_core_def trigger_event_def call_recovery_def set_act_next_def set_act_prev_def count_size_def
      mp_free_stats_no_lock_def mp_clear_pool_dirty_def Let_def)

lemma core_watermark [simp]: "pool_core (check_watermark_after_change p) = pool_core p"
  by (simp add: pool_core_def check_watermark_after_change_def Let_def split: prod.splits)

lemma core_count_alloc [simp]: "pool_core (count_alloc n p) = pool_core p" "pool_core (charge_quota t n p) = pool_core p"
  by (simp_all add: pool_core_def count_alloc_def charge_quota_def Let_def)

lemma core_list [simp]: "pool_core (active_list_add p h) = pool_core p" "pool_core (active_list_remove p h) = pool_core p"
  by (simp_all add: active_list_add_def active_list_remove_def Let_def if_distrib [of pool_core] cong: if_weak_cong)

lemma core_dirty [simp]: "pool_core (mp_mark_pool_dirty p) = pool_core p"
  unfolding mp_mark_pool_dirty_def core_updates by (simp add: pool_core_def)

lemma core_free_stats [simp]:
  "pool_core (mp_free_stats_update p h) = pool_core p" "pool_core (free_stats_cached p h b) = pool_core p" "pool_core (free_stats_tls p h b) = pool_core p"
proof -
  show 1: "pool_core (mp_free_stats_update p h) = pool_core p"
    by (simp add: mp_free_stats_update_def Let_def)
  show 2: "pool_core (free_stats_cached p h b) = pool_core p"
    by (simp add: free_stats_cached_def Let_def 1)
  show "pool_core (free_stats_tls p h b) = pool_core p"
    unfolding free_stats_tls_def by (simp add: 2, simp add: pool_core_def)
qed

text \<open>The list and the counters.\<close>

definition pool_books :: "memory_pool \<Rightarrow> _" where
  "pool_books p = (act_next p, act_prev p, act_head p, active_bytes p, active_allocations p)"

lemma books_updates [simp]:
  "pool_books (trigger_event p ev a n) = pool_books p" "pool_books (call_recovery p) = pool_books p"
  "pool_books (count_size n p) = pool_books p" "pool_books (charge_quota t n p) = pool_books p"
  "pool_books (mp_clear_pool_dirty p) = pool_books p"
  by (simp_all add: pool_books_def trigger_event_def call_recovery_def count_size_def charge_quota_def mp_clear_pool_dirty_def Let_def)

lemma books_writes [simp]:
  "pool_books (check_watermark_after_change p) = pool_books p" "pool_books (put_header h x p) = pool_books p"
  "pool_books (on_bytes h f p) = pool_books p"
  by (simp_all add: pool_books_def check_watermark_after_change_def put_header_def on_bytes_def Let_def split: prod.splits area.splits)

lemma books_dirty [simp]: "pool_books (mp_mark_pool_dirty p) = pool_books p"
  unfolding mp_mark_pool_dirty_def books_updates by (simp add: pool_books_def)

lemma mem_only_books: "mem_only p p' \<Longrightarrow> pool_books p' = pool_books p"
  by (cases p, cases p') (simp add: mem_only_def pool_books_def)

section \<open>Writing a header\<close>

lemma header_at_put: "header_at (put_header h x p) = (header_at p)(h := x)"
proof -
  have a: "area_of (put_header h x p) = area_of p"
    by (simp add: fun_eq_iff area_of_def put_header_def os_ranges_def split: area.splits)
  have "header_at (put_header h x p) y = ((header_at p)(h := x)) y" for y
    unfolding header_at_def a by (cases "area_of p h"; cases "area_of p y") (auto simp: put_header_def)
  then show ?thesis
    by blast
qed

definition restamps :: "mp_block_header \<Rightarrow> mp_block_header \<Rightarrow> bool" where
  "restamps x y \<longleftrightarrow> magic y = magic x \<and> alloc_type y = alloc_type x \<and> slab_class y = slab_class x \<and> raw_base y = raw_base x
     \<and> subpool y = subpool x \<and> requested_size y = requested_size x \<and> (hflags y = hflags x \<or> hflags y = hflags x OR MP_BLOCK_FLAG_COUNTED)"

lemma counted_again: "MP_BLOCK_FLAG_COUNTED OR MP_BLOCK_FLAG_COUNTED = MP_BLOCK_FLAG_COUNTED"
  by (simp add: MP_BLOCK_FLAG_COUNTED_def)

lemma counted_arena: "(f OR MP_BLOCK_FLAG_COUNTED) AND MP_BLOCK_FLAG_TLSF_ARENA = f AND MP_BLOCK_FLAG_TLSF_ARENA"
  by (simp add: MP_BLOCK_FLAG_COUNTED_def MP_BLOCK_FLAG_TLSF_ARENA_def and_one_eq mod2_eq_if even_or_iff)

lemma put_header_step:
  assumes "tiers p H" "h \<in> H" "restamps (header_at p h) x"
  shows "tiers (put_header h x p) H"
proof -
  obtain Hs T where parts: "slab_part p Hs" "tlsf_part p T" "os_part p" and H: "H = Hs \<union> tlsf_held T \<union> os_held p"
    using assms(1) by (auto simp: tiers_def)
  let ?p = "put_header h x p"
  have same: "tlsf_root (tlsf ?p) = tlsf_root (tlsf p)" "pflags (tlsf ?p) = pflags (tlsf p)" "pool_flags ?p = pool_flags p" "tcaches ?p = tcaches p"
    "os_blocks ?p = os_blocks p" "emergency_buf ?p = emergency_buf p" "emergency_size ?p = emergency_size p" "emergency_used ?p = emergency_used p"
    "owners (slab ?p) = owners (slab p)" "classes ?p = classes p"
    by (simp_all add: put_header_def split: area.splits)
  have r: "os_ranges ?p = os_ranges p" "regions ?p = regions p"
    by (simp_all add: os_ranges_def regions_def same)
  then have f: "os_mem ?p = os_mem p" "foreign_pages ?p = foreign_pages p" "os_held ?p = os_held p"
    by (simp_all add: os_mem_def foreign_pages_def os_held_def same)
  consider "h \<in> Hs" | b where "b \<in> T" "h = b + sizeof_tlsf_block" | "h \<in> os_held p"
    using assms(2) by (auto simp: H tlsf_held_def)
  then have "slab_part ?p Hs \<and> tlsf_part ?p T \<and> os_part ?p"
  proof cases
    case 1
    have p: "?p = p\<lparr>slab := (slab p)\<lparr>shdr := (shdr (slab p))(h := x)\<rparr>\<rparr>"
      using slab_part_area(3) [OF parts(1) 1] by (simp add: put_header_def)
    obtain D C where D: "slab_inv 0 (slab p) D C Hs" "held_ok (slab p) D Hs" "\<And>k. set (D k) \<inter> foreign_pages p = {}"
      using parts(1) by (auto simp: slab_part_def)
    have x: "restamps (shdr (slab p) h) x"
      using assms(3) slab_part_area(4) [OF parts(1) 1] by simp
    have "slab_inv 0 (slab ?p) D C Hs"
      by (rule inv_frame [OF D(1)]) (use 1 in \<open>auto simp: core_same_def p\<close>)
    moreover have "class_slots (slab ?p) = class_slots (slab p)"
      by (rule geometry_cong) (simp_all add: p)
    then have "held_ok (slab ?p) D Hs"
      using D(2) x by (auto simp: held_ok_def p restamps_def)
    moreover have "slab_stamped s (shdr (slab ?p) s) \<and> slot_fits (slab ?p) s" if "s \<in> Hs" for s
      using parts(1) that x counted_again by (auto simp: slab_part_def slab_stamped_def slot_fits_def p restamps_def)
    ultimately have "slab_part ?p Hs"
      using D(3) parts(1) unfolding slab_part_def f(2) same(3) by (auto simp: p sizes_match_def)
    moreover have "tlsf_part ?p T"
      by (rule tlsf_part_frame [OF parts(2)]) (simp_all add: p)
    moreover have "os_part ?p"
      using parts(3) by (intro os_part_frame [OF parts(3) r(1) same(5)]) (auto simp: p r os_part_def regions_def)
    ultimately show ?thesis
      by blast
  next
    case 2
    have p: "?p = p\<lparr>tlsf := (tlsf p)\<lparr>hdrs := (hdrs (tlsf p))(h := x)\<rparr>\<rparr>"
      using tlsf_part_area(3) [OF parts(2) 2(1)] 2(2) by (simp add: put_header_def)
    have hp: "hdrs (tlsf ?p) = (hdrs (tlsf p))(h := x)"
      by (simp add: p)
    have x: "restamps (hdrs (tlsf p) h) x"
      using assms(3) tlsf_part_area(4) [OF parts(2) 2(1)] 2(2) by simp
    obtain Ls E where L: "chain_wf (tlsf_root (tlsf p)) Ls" "fst ` chain_live (tlsf_root (tlsf p)) Ls = T \<union> cached E" "T \<inter> cached E = {}" "caches p E"
      and stamps: "\<And>b. b \<in> T \<Longrightarrow> tlsf_stamped (tlsf_root (tlsf p)) b (hdrs (tlsf p) (b + sizeof_tlsf_block))"
      and fit: "tlsf_fit (pool_flags p) (hdrs (tlsf p)) T (chain_live (tlsf_root (tlsf p)) Ls)"
      using parts(2) by (auto simp: tlsf_part_def)
    have "tlsf_fit (pool_flags p) (hdrs (tlsf ?p)) T (chain_live (tlsf_root (tlsf p)) Ls)"
      by (rule tlsf_fit_mono [OF fit]) (use x in \<open>simp_all add: hp restamps_def\<close>)
    moreover have "tlsf_stamped (tlsf_root (tlsf p)) c (hdrs (tlsf ?p) (c + sizeof_tlsf_block))" if "c \<in> T" for c
      using stamps [OF that] x by (cases "c + sizeof_tlsf_block = h") (auto simp: hp tlsf_stamped_def restamps_def counted_arena)
    moreover have "caches ?p E"
      by (rule caches_frame [OF L(4)]) (simp_all add: p)
    ultimately have "tlsf_part ?p T"
      using L(1-3) same parts(2) by (intro tlsf_partI [where Ls = Ls and E = E]) (simp_all add: tlsf_part_def)
    moreover have "slab_part ?p Hs"
      by (rule slab_part_frame [OF parts(1)]) (simp_all add: p f(2) [unfolded p])
    moreover have "os_part ?p"
      using parts(3) by (intro os_part_frame [OF parts(3) r(1) same(5)]) (auto simp: p r os_part_def regions_def)
    ultimately show ?thesis
      by blast
  next
    case 3
    have p: "?p = p\<lparr>ohdr := (ohdr p)(h := x)\<rparr>"
      using os_part_area(3) [OF parts(3) 3] by (simp add: put_header_def)
    have x: "restamps (ohdr p h) x"
      using assms(3) os_part_area(4) [OF parts(3) 3] by simp
    have st: "os_stamped ty raw (ohdr ?p raw)" if "os_stamped ty raw (ohdr p raw)" for ty raw
      using that x counted_again by (auto simp: p os_stamped_def restamps_def)
    have "block_need k (ohdr ?p raw) = block_need k (ohdr p raw)" for k raw
      using x by (simp add: p block_need_def restamps_def)
    then have "os_part ?p"
      using parts(3) st unfolding os_part_def r f same by fastforce
    moreover have "slab_part ?p Hs"
      by (rule slab_part_frame [OF parts(1)]) (simp_all add: p f(2) [unfolded p])
    moreover have "tlsf_part ?p T"
      by (rule tlsf_part_frame [OF parts(2)]) (simp_all add: p)
    ultimately show ?thesis
      by blast
  qed
  then show ?thesis
    using H f(3) by (intro tiersI [of ?p Hs T]) simp_all
qed

section \<open>The books\<close>

interpretation act: dll_store act_next act_prev set_act_next set_act_prev
  by unfold_locales (simp_all add: set_act_next_def set_act_prev_def)

lemma active_list_add_dll:
  assumes "dll (act_next p) (act_prev p) (act_head p) L" "h \<notin> set L" "h \<noteq> 0"
  shows "dll (act_next (active_list_add p h)) (act_prev (active_list_add p h)) (act_head (active_list_add p h)) (h # L)"
proof -
  have "act_head (set_act_prev h 0 (set_act_next h (act_head p) p)) = act_head p"
    by (simp add: set_act_next_def set_act_prev_def)
  then show ?thesis
    using act.push_front [OF assms refl refl] by (cases "act_head p = 0") (simp_all add: active_list_add_def Let_def)
qed

lemma active_list_remove_dll:
  assumes L: "dll (act_next p) (act_prev p) (act_head p) L" "h \<in> set L"
  shows "dll (act_next (active_list_remove p h)) (act_prev (active_list_remove p h)) (act_head (active_list_remove p h)) (remove1 h L)"
proof -
  define p1 where "p1 = (if act_prev p h \<noteq> 0 then set_act_next (act_prev p h) (act_next p h) p else p)"
  define p1' where "p1' = (if act_prev p h \<noteq> 0 then set_act_next (act_prev p h) (act_next p h) p else p\<lparr>act_head := act_next p h\<rparr>)"
  define p2 where "p2 = (if act_next p1 h \<noteq> 0 then set_act_prev (act_next p1 h) (act_prev p1 h) p1 else p1)"
  define p2' where "p2' = (if act_next p1' h \<noteq> 0 then set_act_prev (act_next p1' h) (act_prev p1' h) p1' else p1')"
  have e: "act_next p1' = act_next p1" "act_prev p1' = act_prev p1" "act_head p1' = (if act_prev p h \<noteq> 0 then act_head p else act_next p h)"
    by (simp_all add: p1_def p1'_def set_act_next_def)
  then have e2: "act_next p2' = act_next p2" "act_prev p2' = act_prev p2" "act_head p2' = (if act_prev p h \<noteq> 0 then act_head p else act_next p h)"
    by (simp_all add: p2_def p2'_def set_act_prev_def)
  have h: "h \<noteq> 0" "h \<notin> set (remove1 h L)"
    using dllseg_nonnull [OF L] dll_distinct [OF L(1)] by simp_all
  note d = act.unlink [OF L p1_def p2_def refl]
  have "active_list_remove p h = set_act_next h 0 (set_act_prev h 0 p2')"
    unfolding active_list_remove_def Let_def p1'_def [symmetric] p2'_def [symmetric] using h(1) by simp
  then have r: "act_next (active_list_remove p h) = (act_next p2)(h := 0)" "act_prev (active_list_remove p h) = (act_prev p2)(h := 0)"
    "act_head (active_list_remove p h) = (if act_prev p h \<noteq> 0 then act_head p else act_next p h)"
    using e2 by (simp_all add: set_act_next_def set_act_prev_def)
  show ?thesis
    unfolding r using d h(2) by simp
qed

definition fast_path :: "memory_pool \<Rightarrow> bool" where
  "fast_path p = has_flag (pool_flags p) MP_FLAG_FAST_PATH"

definition held_bytes :: "memory_pool \<Rightarrow> addr set \<Rightarrow> nat" where
  "held_bytes p H = (\<Sum>h \<in> H. requested_size (header_at p h))"

definition book_ok :: "memory_pool \<Rightarrow> addr set \<Rightarrow> bool" where
  "book_ok p H \<longleftrightarrow> finite H
     \<and> (\<forall>h \<in> H. hflags (header_at p h) AND MP_BLOCK_FLAG_COUNTED \<noteq> 0 \<and> requested_size (header_at p h) < 2 ^ 64)
     \<and> (\<not> fast_path p \<longrightarrow> (\<exists>L. dll (act_next p) (act_prev p) (act_head p) L \<and> set L = H))
     \<and> active_allocations p = card H mod 2 ^ 64 \<and> active_bytes p = held_bytes p H mod 2 ^ 64"

definition pool_inv :: "memory_pool \<Rightarrow> addr set \<Rightarrow> bool" where
  "pool_inv p H \<longleftrightarrow> tiers p H \<and> book_ok p H"

lemma book_cong:
  assumes "book_ok p H" "\<And>h. h \<in> H \<Longrightarrow> header_at p' h = header_at p h" "pool_books p' = pool_books p" "pool_flags p' = pool_flags p"
  shows "book_ok p' H"
proof -
  have "held_bytes p' H = held_bytes p H"
    unfolding held_bytes_def by (rule sum.cong) (simp_all add: assms(2))
  then show ?thesis
    using assms by (simp add: book_ok_def pool_books_def fast_path_def)
qed

lemma pool_cong:
  assumes "pool_inv p H" "pool_core p' = pool_core p" "pool_books p' = pool_books p"
  shows "pool_inv p' H"
  using assms(1) book_cong [OF _ _ assms(3)] core_cong [OF assms(2)] by (simp add: pool_inv_def)

lemma tiers_nonnull: "tiers p H \<Longrightarrow> 0 \<notin> H"
  using held_disjoint(4) by (auto simp: tiers_def)

lemma count_alloc_books:
  "act_next (count_alloc n p) = act_next p" "act_prev (count_alloc n p) = act_prev p" "act_head (count_alloc n p) = act_head p"
  "active_bytes (count_alloc n p) = (active_bytes p + n) mod 2 ^ 64" "active_allocations (count_alloc n p) = (active_allocations p + 1) mod 2 ^ 64"
  by (simp_all add: count_alloc_def Let_def)

lemma list_counters:
  "active_bytes (active_list_add p h) = active_bytes p" "active_allocations (active_list_add p h) = active_allocations p"
  "active_bytes (active_list_remove p h) = active_bytes p" "active_allocations (active_list_remove p h) = active_allocations p"
  by (simp_all add: active_list_add_def active_list_remove_def Let_def set_act_next_def set_act_prev_def)

text \<open>Entering a new block.\<close>

lemma book_enter:
  assumes b: "book_ok p H" and h: "h \<notin> H" "h \<noteq> 0" and n: "n < 2 ^ 64"
    and q: "pool_books q = pool_books p" "pool_flags q = pool_flags p" "\<And>x. x \<in> H \<Longrightarrow> header_at q x = header_at p x"
    and hd: "requested_size (header_at q h) = n" "hflags (header_at q h) AND MP_BLOCK_FLAG_COUNTED \<noteq> 0"
  shows "book_ok (count_alloc n (if fast_path q then q else active_list_add q h)) (insert h H)"
proof -
  define r where "r = (if fast_path q then q else active_list_add q h)"
  define p' where "p' = count_alloc n r"
  have c: "pool_core p' = pool_core q"
    by (simp add: p'_def r_def)
  note core = core_cong(2,3) [OF c]
  have fp: "fast_path p' = fast_path p" "fast_path q = fast_path p"
    using core(2) q(2) by (metis fast_path_def)+
  have counts: "active_bytes r = active_bytes p" "active_allocations r = active_allocations p"
    using q(1) by (simp_all add: r_def list_counters pool_books_def)
  have books: "act_next q = act_next p" "act_prev q = act_prev p" "act_head q = act_head p" "active_bytes q = active_bytes p"
    "active_allocations q = active_allocations p"
    using q(1) by (simp_all add: pool_books_def)
  have fin: "finite H" "active_allocations p = card H mod 2 ^ 64" "active_bytes p = held_bytes p H mod 2 ^ 64"
    and old: "\<And>x. x \<in> H \<Longrightarrow> hflags (header_at p x) AND MP_BLOCK_FLAG_COUNTED \<noteq> 0 \<and> requested_size (header_at p x) < 2 ^ 64"
    using b by (simp_all add: book_ok_def)
  have "held_bytes p' H = held_bytes p H"
    unfolding held_bytes_def core by (rule sum.cong) (simp_all add: q(3))
  then have sum: "held_bytes p' (insert h H) = held_bytes p H + n"
    using fin(1) h(1) hd(1) by (simp add: held_bytes_def core)
  have "\<exists>L. dll (act_next p') (act_prev p') (act_head p') L \<and> set L = insert h H" if nf: "\<not> fast_path p"
  proof -
    obtain L where L: "dll (act_next q) (act_prev q) (act_head q) L" "set L = H"
      using b nf by (auto simp: book_ok_def books)
    have "dll (act_next p') (act_prev p') (act_head p') (h # L)"
      using active_list_add_dll [OF L(1), of h] h L(2) nf by (simp add: p'_def r_def count_alloc_books fp)
    then show ?thesis
      using L(2) by (intro exI [of _ "h # L"]) simp
  qed
  moreover have "active_bytes p' = held_bytes p' (insert h H) mod 2 ^ 64"
    unfolding sum by (simp add: p'_def count_alloc_books counts fin(3) mod_add_left_eq)
  moreover have "active_allocations p' = card (insert h H) mod 2 ^ 64"
    using fin(1) h(1) by (simp add: p'_def count_alloc_books counts fin(2) mod_Suc_eq)
  ultimately have "book_ok p' (insert h H)"
    unfolding book_ok_def using fin(1) old q(3) hd n by (simp add: fp core)
  then show ?thesis
    by (simp only: p'_def r_def)
qed

lemma wrap_out:
  assumes "(r::nat) \<le> s" "r < M"
  shows "(s mod M + M - r) mod M = (s - r) mod M"
proof -
  have "(s mod M + (M - r)) mod M = (s + (M - r)) mod M"
    by (rule mod_add_left_eq)
  also have "s + (M - r) = (s - r) + M"
    using assms by simp
  also have "((s - r) + M) mod M = (s - r) mod M"
    by (rule mod_add_self2)
  finally show ?thesis
    using assms by simp
qed

text \<open>Taking a block out.\<close>

lemma book_leave:
  assumes b: "book_ok p H" and h: "h \<in> H" and q: "q = mp_free_stats_no_lock (if fast_path p then p else active_list_remove p h) h"
  shows "book_ok q (H - {h})" "pool_core q = pool_core p"
proof -
  show c: "pool_core q = pool_core p"
    by (simp add: q)
  note core = core_cong(2,3) [OF c]
  have fp: "fast_path q = fast_path p"
    by (simp add: fast_path_def core)
  have fin: "finite H" "active_allocations p = card H mod 2 ^ 64" "active_bytes p = held_bytes p H mod 2 ^ 64"
    and old: "\<And>x. x \<in> H \<Longrightarrow> hflags (header_at p x) AND MP_BLOCK_FLAG_COUNTED \<noteq> 0 \<and> requested_size (header_at p x) < 2 ^ 64"
    using b by (simp_all add: book_ok_def)
  let ?r = "requested_size (header_at p h)"
  have hd: "header_at (if fast_path p then p else active_list_remove p h) h = header_at p h"
    by (simp add: core_cong(2) [of "active_list_remove p h" p])
  have sum: "held_bytes p H = ?r + held_bytes p (H - {h})" "held_bytes q (H - {h}) = held_bytes p (H - {h})"
    using fin(1) h by (simp_all add: held_bytes_def core sum.remove)
  have "active_bytes q = (active_bytes p + 2 ^ 64 - ?r) mod 2 ^ 64"
    unfolding q mp_free_stats_no_lock_def hd by (simp add: list_counters)
  also have "\<dots> = (held_bytes p H - ?r) mod 2 ^ 64"
    unfolding fin(3) using sum(1) old [OF h] by (intro wrap_out) simp_all
  finally have bytes: "active_bytes q = held_bytes q (H - {h}) mod 2 ^ 64"
    using sum by simp
  have "card H = card (H - {h}) + 1"
    using fin(1) h by (metis Suc_eq_plus1 card.remove)
  moreover have "active_allocations q = (active_allocations p + 2 ^ 64 - 1) mod 2 ^ 64"
    unfolding q mp_free_stats_no_lock_def by (simp add: list_counters)
  ultimately have count: "active_allocations q = card (H - {h}) mod 2 ^ 64"
    unfolding fin(2) using wrap_out [of 1 "card H" "2 ^ 64"] by simp
  have "\<exists>L. dll (act_next q) (act_prev q) (act_head q) L \<and> set L = H - {h}" if nf: "\<not> fast_path p"
  proof -
    obtain L where L: "dll (act_next p) (act_prev p) (act_head p) L" "set L = H"
      using b nf by (auto simp: book_ok_def)
    have "dll (act_next q) (act_prev q) (act_head q) (remove1 h L)"
      using active_list_remove_dll [OF L(1)] h L(2) nf by (simp add: q mp_free_stats_no_lock_def)
    moreover have "set (remove1 h L) = H - {h}"
      using dll_distinct [OF L(1)] L(2) by simp
    ultimately show ?thesis
      by blast
  qed
  then show "book_ok q (H - {h})"
    unfolding book_ok_def using fin(1) old bytes count by (simp add: fp core)
qed

end
