(* ===== verification/Pool_Calls.thy ===== *)
theory Pool_Calls
  imports Pool_Book
begin

text \<open>
  The entry points of a pool keep its invariant: \<open>mp_alloc\<close> on every branch, with and without an answer, and \<open>mp_free\<close>
  of a block that is held, whatever tier it came from.
\<close>

section \<open>Handing out a block\<close>

lemma env_ok_cong:
  assumes "pool_core p' = pool_core p"
  shows "env_ok env p' n = env_ok env p n"
proof -
  have s: "slab p' = slab p" "tlsf p' = tlsf p" "os_blocks p' = os_blocks p" "pool_flags p' = pool_flags p"
    "emergency_buf p' = emergency_buf p" "emergency_size p' = emergency_size p"
    using assms by (simp_all add: pool_core_def)
  have "used_mem p' = used_mem p"
    by (simp add: used_mem_def regions_def os_mem_def os_ranges_def s)
  then show ?thesis
    by (simp add: env_ok_def s canary_bytes_def)
qed

lemma counted_set: "(f OR MP_BLOCK_FLAG_COUNTED) AND MP_BLOCK_FLAG_COUNTED \<noteq> 0"
proof -
  have "bit ((f OR 2) AND 2) (1::nat)"
    by (simp add: bit_and_iff bit_or_iff bit_numeral_rec bit_Suc_0_iff)
  then have "(f OR 2) AND (2::nat) \<noteq> 0"
    by (metis bit_0_eq bot_apply bot_bool_def)
  then show ?thesis
    unfolding MP_BLOCK_FLAG_COUNTED_def .
qed

text \<open>What a call that may hand out a block means for the whole pool.\<close>

definition handed :: "memory_pool \<Rightarrow> addr set \<Rightarrow> nat \<Rightarrow> memory_pool \<Rightarrow> addr \<Rightarrow> bool" where
  "handed p H n p' a \<longleftrightarrow> (\<forall>h \<in> H. header_at p' h = header_at p h) \<and> pool_flags p' = pool_flags p
     \<and> (if a = 0 then pool_inv p' H
        else \<exists>h. a = h + sizeof_mp_block_header \<and> h \<notin> H \<and> pool_inv p' (insert h H) \<and> requested_size (header_at p' h) = n)"

lemma handed_cong:
  assumes "handed p H n q a" "pool_core q' = pool_core q" "pool_books q' = pool_books q"
  shows "handed p H n q' a"
proof -
  have "pool_inv q' K" if "pool_inv q K" for K
    using pool_cong [OF that assms(2,3)] .
  then show ?thesis
    using assms(1) core_cong(2,3) [OF assms(2)] unfolding handed_def by (simp split: if_splits) metis
qed

lemma account_step:
  assumes p: "pool_inv p H" and q: "answer ar p H n q a" "a \<noteq> 0" and n: "n < 2 ^ 64"
  shows "handed p H n (account a n q) a"
proof -
  obtain h where h: "a = h + sizeof_mp_block_header" "h \<notin> H" "tiers q (insert h H)" "requested_size (header_at q h) = n"
    using q by (auto simp: answer_def)
  have m: "mem_only p q" "\<forall>x \<in> H. header_at q x = header_at p x"
    using q(1) by (simp_all add: answer_def)
  define x where "x = (header_at q h)\<lparr>hflags := hflags (header_at q h) OR MP_BLOCK_FLAG_COUNTED\<rparr>"
  define r where "r = put_header h x q"
  have hr: "header_at r = (header_at q)(h := x)"
    by (simp add: r_def header_at_put)
  have t: "tiers r (insert h H)"
    unfolding r_def by (rule put_header_step [OF h(3)]) (simp_all add: restamps_def x_def)
  have flags: "pool_flags r = pool_flags p"
    using mem_only_same(1) [OF m(1)] by (simp add: r_def put_header_def split: area.splits)
  have books: "pool_books r = pool_books p"
    using mem_only_books [OF m(1)] by (simp add: r_def)
  define s where "s = count_alloc n (if fast_path r then r else active_list_add r h)"
  have kept: "header_at r y = header_at p y" if "y \<in> H" for y
    using that h(2) m(2) by (auto simp: hr)
  have hd: "requested_size (header_at r h) = n" "hflags (header_at r h) AND MP_BLOCK_FLAG_COUNTED \<noteq> 0"
    using h(4) counted_set by (simp_all add: hr x_def)
  have "h \<noteq> 0"
    using tiers_nonnull [OF h(3)] by auto
  then have b: "book_ok s (insert h H)"
    unfolding s_def using p h(2) n books flags kept hd by (intro book_enter [of p]) (simp_all add: pool_inv_def)
  have c: "pool_core s = pool_core r"
    by (simp add: s_def)
  have "pool_inv s (insert h H)"
    using t b core_cong(1) [OF c] by (simp add: pool_inv_def)
  then have "handed p H n s a"
    unfolding handed_def core_cong(2,3) [OF c] using kept hd(1) h(1,2) q(2) flags by auto
  moreover have "account a n q = trigger_event (check_watermark_after_change (count_size n s)) MP_EVENT_ALLOC a n"
    by (simp add: account_def s_def r_def x_def h(1) Let_def fast_path_def)
  ultimately show ?thesis
    using handed_cong by simp
qed

lemma os_block_base:
  assumes "os_part p" "(raw, k) \<in> set (os_blocks p)" "emergency_buf p \<noteq> 0" "0 < emergency_size p"
  shows "raw \<noteq> emergency_buf p"
proof
  assume e: "raw = emergency_buf p"
  have "span (emergency_buf p, emergency_size p) \<inter> span (raw, k) = {}" "0 < k"
    using assms by (auto simp: os_part_def os_ranges_def)
  then show False
    using e assms(4) by (auto simp: span_def)
qed

lemma alloc_emergency_step:
  assumes p: "pool_inv p H" and n: "n < 2 ^ 63" "emergency_fits p n"
  shows "handed p H n (fst (alloc_emergency p n)) (snd (alloc_emergency p n))"
proof -
  let ?b = "emergency_buf p"
  have f: "?b \<noteq> 0" "\<not> emergency_used p" "0 < emergency_size p"
    using n by (auto simp: emergency_fits_def sizeof_mp_block_header_def canary_bytes_def split: if_splits)
  obtain Hs T where parts: "slab_part p Hs" "tlsf_part p T" "os_part p" and H: "H = Hs \<union> tlsf_held T \<union> os_held p"
    using p by (auto simp: tiers_def pool_inv_def)
  define h0 where "h0 = (ohdr p ?b)\<lparr>alloc_type := ALLOC_TYPE_EMERGENCY, slab_class := 0, hflags := MP_BLOCK_FLAG_COUNTED, requested_size := n,
      usable_size := (emergency_size p + 2 ^ 64 - sizeof_mp_block_header) mod 2 ^ 64, raw_base := ?b, subpool := 0, magic := MP_MAGIC_HEAD\<rparr>"
  define h where "h = (if fast_path p then h0 else h0\<lparr>alloc_file := 0, alloc_line := 0, alloc_func := 0, backtrace_depth := 0\<rparr>)"
  define q where "q = p\<lparr>emergency_used := True, ohdr := (ohdr p)(?b := h)\<rparr>"
  define r where "r = batch_format_emergency p n"
  have h: "os_stamped ALLOC_TYPE_EMERGENCY ?b h" "requested_size h = n"
    by (simp_all add: h_def h0_def os_stamped_def)
  have need: "block_need (pool_flags p) h \<le> emergency_size p"
    using n h(2) by (simp add: emergency_fits_def block_need_def canary_len_def canary_bytes_def sizeof_mp_block_header_def split: if_splits)
  obtain m where r: "r = (if fast_path p then q else set_act_next ?b 0 (set_act_prev ?b 0 q))\<lparr>omem := m\<rparr>"
  proof -
    have "r = os_payload (?b + sizeof_mp_block_header) n (if fast_path p then q else set_act_next ?b 0 (set_act_prev ?b 0 q))"
      by (simp add: r_def batch_format_emergency_def Let_def q_def h_def h0_def fast_path_def)
    then show thesis
      using that os_payload_eq by metis
  qed
  have core: "pool_core r = pool_core q"
    by (simp add: r pool_core_def set_act_next_def set_act_prev_def)
  have same: "slab q = slab p" "tlsf q = tlsf p" "tcaches q = tcaches p" "os_blocks q = os_blocks p" "pool_flags q = pool_flags p" "classes q = classes p"
    "emergency_buf q = ?b" "emergency_size q = emergency_size p" "emergency_used q" "ohdr q = (ohdr p)(?b := h)"
    by (simp_all add: q_def)
  have g: "os_ranges q = os_ranges p" "regions q = regions p" "os_mem q = os_mem p"
    by (simp_all add: os_ranges_def regions_def os_mem_def same)
  have out: "raw \<noteq> ?b" if "(raw, k) \<in> set (os_blocks p)" for raw k
    using os_block_base [OF parts(3) that f(1,3)] .
  have "slab_part q Hs"
    by (rule slab_part_frame [OF parts(1)]) (simp_all add: same g foreign_pages_def)
  moreover have "tlsf_part q T"
    by (rule tlsf_part_frame [OF parts(2)]) (simp_all add: same)
  moreover have "os_part q"
    using parts(3) out f(1,3) h(1) need unfolding os_part_def g same by auto
  moreover have held: "os_held q = insert ?b (os_held p)" "?b \<notin> os_held p"
    using f(2) by (auto simp: os_held_def same dest!: out)
  ultimately have qp: "slab_part q Hs" "tlsf_part q T" "os_part q"
    by simp_all
  have tq: "tiers q (insert ?b H)"
    by (rule tiersI [OF qp]) (auto simp: held H)
  have new: "?b \<notin> H"
    using held_disjoint [OF qp] held by (auto simp: H)
  have kept: "header_at q y = header_at p y" if "y \<in> H" for y
    using that held same by (intro header_kept [OF parts qp]) (auto simp: H)
  have hb: "header_at q ?b = h"
    using os_part_area(4) [OF qp(3), of ?b] held(1) by (simp add: same)
  define s where "s = count_alloc n (if fast_path r then r else active_list_add r ?b)"
  have books: "book_ok r H"
  proof -
    have b: "book_ok p H"
      using p by (simp add: pool_inv_def)
    have hr: "header_at r y = header_at p y" if "y \<in> H" for y
      using kept [OF that] core_cong(2) [OF core] by simp
    then have "held_bytes r H = held_bytes p H"
      unfolding held_bytes_def by (intro sum.cong) simp_all
    moreover have "pool_flags r = pool_flags p" "active_bytes r = active_bytes p" "active_allocations r = active_allocations p" "act_head r = act_head p"
      "\<And>y. y \<noteq> ?b \<Longrightarrow> act_next r y = act_next p y \<and> act_prev r y = act_prev p y"
      by (simp_all add: r q_def set_act_next_def set_act_prev_def)
    moreover from this have "dll (act_next r) (act_prev r) (act_head r) L" if "dll (act_next p) (act_prev p) (act_head p) L" "set L = H" for L
      using act.other_list [OF that(1), of r] that(2) new by metis
    ultimately show ?thesis
      using b hr unfolding book_ok_def fast_path_def by auto
  qed
  have "book_ok s (insert ?b H)"
    unfolding s_def using h f(1) new n(1)
    by (intro book_enter [OF books]) (simp_all add: core_cong(2) [OF core] hb os_stamped_def MP_BLOCK_FLAG_COUNTED_def)
  moreover have c: "pool_core s = pool_core q"
    using core by (simp add: s_def)
  ultimately have "pool_inv s (insert ?b H)"
    using tq core_cong(1) [OF c] by (simp add: pool_inv_def)
  then have "handed p H n s (?b + sizeof_mp_block_header)"
    unfolding handed_def core_cong(2,3) [OF c] using kept hb h(2) new same(5) by (auto simp: sizeof_mp_block_header_def)
  moreover have "alloc_emergency p n = (s, ?b + sizeof_mp_block_header)"
    by (simp add: alloc_emergency_def s_def r_def [symmetric] Let_def fast_path_def)
  ultimately show ?thesis
    by simp
qed

lemma mp_alloc_internal_step:
  assumes p: "pool_inv p H" and env: "env_ok env p n" and n: "request_ok p n"
  shows "\<exists>p' a. mp_alloc_internal env p n = Some (p', a) \<and> handed p H n p' a"
proof -
  have refused: "handed p H n q 0" if "pool_core q = pool_core p" "pool_books q = pool_books p" for q
    using pool_cong [OF p that] core_cong(2,3) [OF that(1)] by (simp add: handed_def)
  have n63: "n < 2 ^ 63"
    using n by (simp add: request_ok_def)
  define q where "q = (if limit_exceeded p n then trigger_event p MP_EVENT_OOM 0 n else p)"
  have q: "pool_core q = pool_core p" "pool_books q = pool_books p" "classes q = classes p"
    by (simp_all add: q_def trigger_event_def [of _ _ _ _] pool_core_def pool_books_def)
  note pq = pool_cong [OF p q(1,2)]
  have lift: "handed p H n r a" if "handed q H n r a" for r a
    using that core_cong(2,3) [OF q(1)] by (simp add: handed_def)
  show ?thesis
  proof (cases "n = 0 \<or> mp_is_pool_dirty p \<and> \<not> fallback_to_sys_alloc_on_oom p \<or> circuit_breaker_enabled p \<and> circuit_breaker_tripped p")
    case True
    then have "mp_alloc_internal env p n = Some (p, 0)"
      by (auto simp: mp_alloc_internal_def)
    then show ?thesis
      by (intro exI [of _ p] exI [of _ 0]) (simp add: refused [OF refl refl])
  next
    case False
    have nf: "n \<noteq> 0" "\<not> (mp_is_pool_dirty p \<and> \<not> fallback_to_sys_alloc_on_oom p)" "\<not> (circuit_breaker_enabled p \<and> circuit_breaker_tripped p)"
      using False by meson+
    have r: "mp_alloc_internal env p n = (if limit_exceeded p n \<and> \<not> fallback_to_sys_alloc_on_oom q
        then Some (if emergency_fits q n then alloc_emergency q n else (q, 0))
        else map_option (\<lambda>(p, ptr). if ptr = 0 then (p, 0) else (account ptr n p, ptr)) (dispatch env q n))"
      unfolding mp_alloc_internal_def Let_def if_not_P [OF nf(1)] if_not_P [OF nf(2)] if_not_P [OF nf(3)] q_def [symmetric] ..
    show ?thesis
    proof (cases "limit_exceeded p n \<and> \<not> fallback_to_sys_alloc_on_oom q")
      case True
      then show ?thesis
        using alloc_emergency_step [OF pq n63] lift refused [OF q(1,2)] r by (cases "alloc_emergency q n") auto
    next
      case False
      have "request_ok q n"
        using n q(3) core_cong(3) [OF q(1)] by (simp add: request_ok_def)
      moreover have "tiers q H"
        using pq by (simp add: pool_inv_def)
      moreover have "env_ok env q n"
        using env env_ok_cong [OF q(1)] by simp
      ultimately obtain s a where d: "dispatch env q n = Some (s, a)" "answer (tier_of q n) q H n s a"
        using dispatch_step nf(1) by blast
      show ?thesis
      proof (cases "a = 0")
        case True
        have "mem_only q s" "tiers s H" "\<forall>h \<in> H. header_at s h = header_at q h"
          using d(2) True by (simp_all add: answer_def)
        then have "handed q H n s 0"
          using pq mem_only_books mem_only_same(1) by (auto simp: handed_def pool_inv_def intro: book_cong)
        then show ?thesis
          using r False d(1) True lift by auto
      next
        case nn: False
        have "handed q H n (account a n s) a"
          using account_step [OF pq d(2) nn] n63 by simp
        then show ?thesis
          using r False d(1) nn lift by auto
      qed
    qed
  qed
qed

lemma mp_alloc_step:
  assumes p: "pool_inv p H" and env: "env_ok env p n" and n: "request_ok p n" and plain: "\<not> has_flag (pool_flags p) MP_FLAG_CACHE_ALIGNED"
  shows "\<exists>p' a. mp_alloc env p n = Some (p', a) \<and> handed p H n p' a"
proof (cases "n = 0")
  case True
  then show ?thesis
    using p by (simp add: mp_alloc_def handed_def)
next
  case False
  obtain q a where q: "mp_alloc_internal env p n = Some (q, a)" "handed p H n q a"
    using mp_alloc_internal_step [OF assms(1-3)] by blast
  then have "mp_alloc env p n = Some (if a = 0 then q else charge_quota (thread env) n q, a)"
    using False plain by (simp add: mp_alloc_def)
  moreover have "handed p H n (if a = 0 then q else charge_quota (thread env) n q) a"
    using q(2) handed_cong by simp
  ultimately show ?thesis
    by blast
qed

section \<open>Writing to a block\<close>

lemma on_bytes_step:
  assumes "pool_inv p H"
  shows "pool_inv (on_bytes h f p) H" "header_at (on_bytes h f p) = header_at p"
proof -
  let ?p = "on_bytes h f p"
  have same: "tlsf_root (tlsf ?p) = tlsf_root (tlsf p)" "pflags (tlsf ?p) = pflags (tlsf p)" "pool_flags ?p = pool_flags p" "tcaches ?p = tcaches p"
    "os_blocks ?p = os_blocks p" "emergency_buf ?p = emergency_buf p" "emergency_size ?p = emergency_size p" "emergency_used ?p = emergency_used p"
    "owners (slab ?p) = owners (slab p)" "hdrs (tlsf ?p) = hdrs (tlsf p)" "ohdr ?p = ohdr p" "shdr (slab ?p) = shdr (slab p)"
    "sflags (slab ?p) = sflags (slab p)" "slot_sizes (slab ?p) = slot_sizes (slab p)" "classes ?p = classes p"
    by (simp_all add: on_bytes_def split: area.splits)
  have r: "os_ranges ?p = os_ranges p" "regions ?p = regions p"
    by (simp_all add: os_ranges_def regions_def same)
  then have f: "os_mem ?p = os_mem p" "foreign_pages ?p = foreign_pages p" "os_held ?p = os_held p"
    by (simp_all add: os_mem_def foreign_pages_def os_held_def same)
  have core: "core_same {} (slab p) (slab ?p)"
    by (simp add: core_same_def on_bytes_def split: area.splits)
  have "slab_part ?p Hs" if "slab_part p Hs" for Hs
    using that inv_frame [of 0 "slab p" _ _ Hs] held_frame [OF _ core] core unfolding slab_part_def sizes_match_def slot_fits_def same f by (auto simp: core_same_def) blast
  moreover have "tlsf_part ?p T" if "tlsf_part p T" for T
    by (rule tlsf_part_frame [OF that]) (simp_all add: same)
  moreover have "os_part ?p" if "os_part p"
    using that by (intro os_part_frame [OF that r(1) same(5)]) (auto simp: same r f os_part_def)
  ultimately have "tiers ?p H"
    using assms unfolding pool_inv_def tiers_def f by blast
  moreover show h: "header_at ?p = header_at p"
    by (simp add: fun_eq_iff header_at_def area_of_eq r f same split: area.splits)
  ultimately show "pool_inv ?p H"
    using assms book_cong [of p H ?p] by (simp add: pool_inv_def same)
qed

end
