(* ===== verification/Pool_Free.thy ===== *)
theory Pool_Free
  imports Pool_Calls
begin

text \<open>
  The way back: a held block of any tier that is released leaves the books and goes to a cache, a queue, its page, its
  region or the operating system; the blocks still held do not notice.
\<close>

section \<open>Giving a block back to its tier\<close>

definition gives_back :: "memory_pool \<Rightarrow> addr set \<Rightarrow> addr \<Rightarrow> memory_pool \<Rightarrow> bool" where
  "gives_back p H h p' \<longleftrightarrow> tiers p' (H - {h}) \<and> (\<forall>y \<in> H - {h}. header_at p' y = header_at p y)
     \<and> pool_books p' = pool_books p \<and> pool_flags p' = pool_flags p"

lemma gives_backI:
  assumes "slab_part p Hs" "tlsf_part p T" "os_part p" "slab_part p' Hs'" "tlsf_part p' T'" "os_part p'"
    and "Hs' \<subseteq> Hs" "T' \<subseteq> T" "os_held p' \<subseteq> os_held p" "H = Hs \<union> tlsf_held T \<union> os_held p" "H - {h} = Hs' \<union> tlsf_held T' \<union> os_held p'"
    and "\<And>y. y \<in> Hs' \<Longrightarrow> shdr (slab p') y = shdr (slab p) y"
    and "\<And>b. b \<in> T' \<Longrightarrow> hdrs (tlsf p') (b + sizeof_tlsf_block) = hdrs (tlsf p) (b + sizeof_tlsf_block)"
    and "\<And>y. y \<in> os_held p' \<Longrightarrow> ohdr p' y = ohdr p y" and "pool_books p' = pool_books p" "pool_flags p' = pool_flags p"
  shows "gives_back p H h p'"
proof -
  have "header_at p' y = header_at p y" if "y \<in> H - {h}" for y
  proof (rule header_kept [OF assms(1-6)])
    show "y \<in> Hs \<inter> Hs' \<union> tlsf_held (T \<inter> T') \<union> os_held p \<inter> os_held p'"
      using that assms(7-9,11) by (simp add: Int_absorb1)
  qed (use assms(12-14) in auto)
  then show ?thesis
    unfolding gives_back_def using tiersI [OF assms(4-6,11)] assms(15,16) by simp
qed

lemma give_back_slab:
  assumes parts: "slab_part p Hs" "tlsf_part p T" "os_part p" and h: "h \<in> Hs" and own: "owned (tls (slab p) t)"
    and p': "p' = put_slab (place_slot (slab_view p) t k h) p"
  shows "gives_back p (Hs \<union> tlsf_held T \<union> os_held p) h p'"
proof -
  let ?v = "slab_view p"
  obtain D C where D: "slab_inv 0 (slab p) D C Hs" "held_ok (slab p) D Hs" "\<And>k. set (D k) \<inter> foreign_pages p = {}"
    using parts(1) by (auto simp: slab_part_def)
  have core: "core_same {} (slab p) ?v"
    using slab_view_core(1) [OF parts(1)] .
  have inv: "slab_inv 0 ?v D C Hs" "held_ok ?v D Hs"
    using inv_frame [OF D(1)] held_frame [OF D(2) core] core by (auto simp: core_same_def)
  have "apart_from (foreign_pages p) ?v D" "owned (tls ?v t)"
    using D(3) own by (simp_all add: apart_from_def slab_view_def)
  note place = place_slot_step [OF inv h this(2,1), of k]
  have "place_slot ?v t k h = slab p'"
    by (simp add: p' put_slab_def)
  from place [unfolded this] obtain D' C' where P: "slab_inv 0 (slab p') D' C' (Hs - {h})" "held_ok (slab p') D' (Hs - {h})"
    "apart_from (foreign_pages p) (slab p') D'" "owners (slab p') = owners ?v" "sflags (slab p') = sflags ?v"
    "\<forall>z \<in> Hs - {h}. shdr (slab p') z = shdr ?v z" "slot_sizes (slab p') = slot_sizes ?v"
    by (elim exE conjE) (rule that)
  have m: "mem_only p p'"
    by (simp add: mem_only_def p' put_slab_def)
  note mp = mem_only_same [OF m]
  have same: "tlsf p' = tlsf p" "tcaches p' = tcaches p" "ohdr p' = ohdr p" "os_blocks p' = os_blocks p"
    by (simp_all add: p' put_slab_def)
  have fp: "foreign_pages p' = foreign_pages p" "regions p' = regions p" "os_mem p' = os_mem p" "os_ranges p' = os_ranges p" "os_held p' = os_held p"
    using mp same by (simp_all add: foreign_pages_def regions_def os_mem_def os_ranges_def os_held_def)
  have shdr: "\<forall>z \<in> Hs - {h}. shdr (slab p') z = shdr (slab p) z"
    using P(6) by (simp add: slab_view_def)
  have "sflags (slab p') = pool_flags p'" and sz: "slot_sizes (slab p') = slot_sizes (slab p)"
    using P(5,7) mp(1) by (simp_all add: slab_view_def)
  moreover have "slab_stamped z (shdr (slab p') z) \<and> slot_fits (slab p') z" if "z \<in> Hs - {h}" for z
    using shdr that parts(1) sz by (simp add: slab_part_def slot_fits_def)
  moreover have "sizes_match (classes p') (slab p')"
    using parts(1) sz mp(2) by (simp add: slab_part_def sizes_match_def)
  ultimately have sp: "slab_part p' (Hs - {h})"
    using P(1-3) unfolding slab_part_def fp(1) apart_from_def by blast
  have tp: "tlsf_part p' T"
    by (rule tlsf_part_frame [OF parts(2)]) (use same mp P(4) in \<open>simp_all add: slab_view_def\<close>)
  have op: "os_part p'"
    using parts(3) same mp fp by (intro os_part_frame [OF parts(3)]) (auto simp: os_part_def)
  have "h \<notin> tlsf_held T \<union> os_held p"
    using held_disjoint [OF parts] h by blast
  then show ?thesis
    using shdr same fp(5) mp(1) mem_only_books [OF m] by (intro gives_backI [OF parts sp tp op]) auto
qed

lemma merge_area:
  "tlsf_merge_next t b n = (t', n') \<Longrightarrow> raw_area t' = raw_area t \<and> raw_size t' = raw_size t"
  "tlsf_merge_prev t b n = (t', b', n') \<Longrightarrow> raw_area t' = raw_area t \<and> raw_size t' = raw_size t"
  by (auto simp: tlsf_merge_next_def tlsf_merge_prev_def Let_def tlsf_loads split: if_splits)

lemma release_area: "raw_area (tlsf_release_block t b) = raw_area t" "raw_size (tlsf_release_block t b) = raw_size t"
proof -
  let ?t = "set_size_and_flags b (word_of t b OR BLOCK_STATE_FREE) t"
  obtain u n where 1: "tlsf_merge_next ?t b (bsz t b) = (u, n)"
    by fastforce
  obtain v c m where 2: "tlsf_merge_prev u b n = (v, c, m)"
    using prod_cases3 by blast
  show "raw_area (tlsf_release_block t b) = raw_area t" "raw_size (tlsf_release_block t b) = raw_size t"
    using merge_area(1) [OF 1] merge_area(2) [OF 2] by (simp_all add: tlsf_release_block_def Let_def 1 2 tlsf_loads)
qed

lemma chain_release:
  assumes "chain_wf ts Ls" "home ts b a" "b \<in> fst ` chain_live ts Ls"
  shows "\<exists>Ls'. chain_wf (on_tpool a (\<lambda>t. tlsf_release_block t b) ts) Ls'
    \<and> fst ` chain_live (on_tpool a (\<lambda>t. tlsf_release_block t b) ts) Ls' = fst ` chain_live ts Ls - {b}
    \<and> chain_live (on_tpool a (\<lambda>t. tlsf_release_block t b) ts) Ls' \<subseteq> chain_live ts Ls
    \<and> region ` set (on_tpool a (\<lambda>t. tlsf_release_block t b) ts) = region ` set ts"
proof -
  have "\<exists>xs'. tlsf_wf (tlsf_release_block t b) xs' \<and> live (tlsf_release_block t b) xs' = {} \<union> (live t xs - {(b, bsz t b)})"
    if "tlsf_wf t xs" "b \<in> set xs" "\<not> bfree t b" for t xs
    using tlsf_release_live [OF that] by (metis sup_bot_left)
  then show ?thesis
    using chain_change [OF assms, where f = "\<lambda>t. tlsf_release_block t b" and A = "\<lambda>_. {}"] release_area by auto
qed

lemma give_back_region:
  assumes parts: "slab_part q Hs" "tlsf_part q T" "os_part q" and b: "b \<in> T" and r: "tlsf_free (tlsf_view q) (b + sizeof_tlsf_block) = Some st"
    and p': "p' = put_tlsf st q"
  shows "gives_back q (Hs \<union> tlsf_held T \<union> os_held q) (b + sizeof_tlsf_block) p'"
proof -
  obtain Ls E where L: "chain_wf (tlsf_root (tlsf q)) Ls" "fst ` chain_live (tlsf_root (tlsf q)) Ls = T \<union> cached E" "T \<inter> cached E = {}" "caches q E"
    and stamps: "\<And>b. b \<in> T \<Longrightarrow> tlsf_stamped (tlsf_root (tlsf q)) b (hdrs (tlsf q) (b + sizeof_tlsf_block))"
    and fit: "tlsf_fit (pool_flags q) (hdrs (tlsf q)) T (chain_live (tlsf_root (tlsf q)) Ls)"
    using parts(2) by (auto simp: tlsf_part_def)
  let ?hd = "hdrs (tlsf q) (b + sizeof_tlsf_block)"
  let ?ts = "on_tpool (subpool ?hd) (\<lambda>t. tlsf_release_block t b) (tlsf_root (tlsf q))"
  have S: "raw_base ?hd = b" "home (tlsf_root (tlsf q)) b (subpool ?hd)" "hflags ?hd AND MP_BLOCK_FLAG_TLSF_ARENA = 0"
    using stamps [OF b] by (simp_all add: tlsf_stamped_def)
  have st: "tlsf_root st = ?ts" "hdrs st = hdrs (tlsf q)" "pflags st = pool_flags q"
    using r S by (auto simp: tlsf_free_def tlsf_view_def Let_def)
  have "b \<in> fst ` chain_live (tlsf_root (tlsf q)) Ls"
    using L(2) b by simp
  from chain_release [OF L(1) S(2) this] obtain Ls' where L': "chain_wf ?ts Ls'"
    "fst ` chain_live ?ts Ls' = fst ` chain_live (tlsf_root (tlsf q)) Ls - {b}" "region ` set ?ts = region ` set (tlsf_root (tlsf q))"
    and sub: "chain_live ?ts Ls' \<subseteq> chain_live (tlsf_root (tlsf q)) Ls"
    by (elim exE conjE) (rule that)
  have m: "mem_only q p'"
    by (simp add: p' mem_only_def put_tlsf_def)
  have same: "slab p' = slab q" "ohdr p' = ohdr q" "os_blocks p' = os_blocks q" "tcaches p' = tcaches q" "tlsf p' = st"
    by (simp_all add: p' put_tlsf_def)
  have reg: "regions p' \<subseteq> regions q"
    unfolding regions_def same(5) st(1) using L'(3) by (metis order_refl)
  have g: "slab_part p' Hs" "os_part p'"
    using grow_regions [OF parts(1,3), of p' "{}"] reg same m by simp_all
  have "caches p' E"
    using L'(3) by (intro caches_frame [OF L(4)]) (simp_all add: same st(1))
  moreover have "tlsf_stamped ?ts c (hdrs (tlsf q) (c + sizeof_tlsf_block))" if "c \<in> T - {b}" for c
    using stamps that stamped_mono [OF _ equalityD2 [OF L'(3)]] by simp
  moreover have "b \<notin> cached E"
    using L(3) b by (auto simp: disjoint_iff)
  then have "fst ` chain_live ?ts Ls' = (T - {b}) \<union> cached E" "(T - {b}) \<inter> cached E = {}"
    unfolding L'(2) L(2) using L(3) by auto
  moreover have "tlsf_fit (pool_flags q) (hdrs (tlsf q)) (T - {b}) (chain_live ?ts Ls')"
    by (rule tlsf_fit_mono [OF fit sub]) auto
  ultimately have t: "tlsf_part p' (T - {b})"
    using L'(1) st same(5) mem_only_same(1) [OF m] by (intro tlsf_partI [where Ls = Ls' and E = E]) simp_all
  have oh: "os_held p' = os_held q"
    using same(3) mem_only_same [OF m] by (simp add: os_held_def)
  have "b + sizeof_tlsf_block \<notin> Hs \<union> os_held q"
    using held_disjoint [OF parts] b tlsf_held_iff by blast
  moreover have "tlsf_held T - {b + sizeof_tlsf_block} = tlsf_held (T - {b})"
    by (auto simp: tlsf_held_def)
  ultimately show ?thesis
    using same st(2) oh mem_only_books [OF m] mem_only_same(1) [OF m]
    by (intro gives_backI [OF parts g(1) t g(2)]) auto
qed

lemma give_back_cache:
  assumes parts: "slab_part q Hs" "tlsf_part q T" "os_part q" and b: "b \<in> T" and own: "owned (tls (slab q) t)"
    and i: "i < TLSF_CACHE_SIZES" "tlsf_counts (tcaches q t) i < TLSF_CACHE_MAX_SLOTS"
    and p': "p' = tlsf_cache_push t i b (subpool (hdrs (tlsf q) (b + sizeof_tlsf_block))) q"
  shows "gives_back q (Hs \<union> tlsf_held T \<union> os_held q) (b + sizeof_tlsf_block) p'"
proof -
  obtain Ls E where L: "chain_wf (tlsf_root (tlsf q)) Ls" "fst ` chain_live (tlsf_root (tlsf q)) Ls = T \<union> cached E" "T \<inter> cached E = {}" "caches q E"
    and stamps: "\<And>b. b \<in> T \<Longrightarrow> tlsf_stamped (tlsf_root (tlsf q)) b (hdrs (tlsf q) (b + sizeof_tlsf_block))"
    and fit: "tlsf_fit (pool_flags q) (hdrs (tlsf q)) T (chain_live (tlsf_root (tlsf q)) Ls)"
    using parts(2) by (auto simp: tlsf_part_def)
  let ?a = "subpool (hdrs (tlsf q) (b + sizeof_tlsf_block))"
  let ?E = "restack t i (E t i @ [(b, ?a)]) E"
  have home: "home (tlsf_root (tlsf q)) b ?a"
    using stamps [OF b] by (simp add: tlsf_stamped_def)
  have nb: "b \<notin> cached E"
    using L(3) b by (auto simp: disjoint_iff)
  have len: "length (E t i) < TLSF_CACHE_MAX_SLOTS"
    using cachesD(1) [OF L(4) own i(1)] i(2) by (simp add: stack_of_def)
  note C = caches_push [OF L(4) own i(1) len home nb, folded p']
  have m: "mem_only q p'"
    by (simp add: p' mem_only_def tlsf_cache_push_def Let_def)
  have same: "slab p' = slab q" "ohdr p' = ohdr q" "os_blocks p' = os_blocks q" "tlsf p' = tlsf q"
    by (simp_all add: p' tlsf_cache_push_def Let_def)
  have g: "slab_part p' Hs" "os_part p'"
    using grow_regions [OF parts(1,3), of p' "{}"] same m by (simp_all add: regions_def)
  have "fst ` chain_live (tlsf_root (tlsf q)) Ls = (T - {b}) \<union> cached ?E" "(T - {b}) \<inter> cached ?E = {}"
    unfolding L(2) cached_push using L(3) b by auto
  moreover have "tlsf_fit (pool_flags q) (hdrs (tlsf q)) (T - {b}) (chain_live (tlsf_root (tlsf q)) Ls)"
    by (rule tlsf_fit_mono [OF fit]) auto
  ultimately have t: "tlsf_part p' (T - {b})"
    using L(1) C stamps same(4) mem_only_same(1) [OF m] parts(2)
    by (intro tlsf_partI [where Ls = Ls and E = ?E]) (simp_all add: tlsf_part_def)
  have oh: "os_held p' = os_held q"
    using same(3) mem_only_same [OF m] by (simp add: os_held_def)
  have "b + sizeof_tlsf_block \<notin> Hs \<union> os_held q"
    using held_disjoint [OF parts] b tlsf_held_iff by blast
  moreover have "tlsf_held T - {b + sizeof_tlsf_block} = tlsf_held (T - {b})"
    by (auto simp: tlsf_held_def)
  ultimately show ?thesis
    using same oh mem_only_books [OF m] mem_only_same(1) [OF m]
    by (intro gives_backI [OF parts g(1) t g(2)]) auto
qed

lemma give_back_os:
  assumes parts: "slab_part q Hs" "tlsf_part q T" "os_part q" and h: "(h, k) \<in> set (os_blocks q)" and p': "p' = free_os_block q h"
  shows "gives_back q (Hs \<union> tlsf_held T \<union> os_held q) h p'"
proof -
  have same: "slab p' = slab q" "tlsf p' = tlsf q" "tcaches p' = tcaches q" "ohdr p' = ohdr q" "os_blocks p' = filter (\<lambda>b. fst b \<noteq> h) (os_blocks q)"
    "pool_flags p' = pool_flags q" "emergency_buf p' = emergency_buf q" "emergency_size p' = emergency_size q" "emergency_used p' = emergency_used q"
    "classes p' = classes q" "pool_books p' = pool_books q"
    by (simp_all add: p' free_os_block_def pool_books_def)
  have sub: "set (os_ranges p') \<subseteq> set (os_ranges q)" "regions p' = regions q"
    by (auto simp: os_ranges_def regions_def same)
  then have mem: "os_mem p' \<subseteq> os_mem q"
    by (auto simp: os_mem_def)
  have "slab_part p' Hs"
    by (rule slab_part_frame [OF parts(1)]) (use mem sub in \<open>auto simp: same foreign_pages_def\<close>)
  moreover have "tlsf_part p' T"
    by (rule tlsf_part_frame [OF parts(2)]) (simp_all add: same)
  moreover have "sorted_wrt (\<lambda>r r'. span r \<inter> span r' = {}) (os_ranges q)"
    using parts(3) by (simp add: os_part_def)
  then have "sorted_wrt (\<lambda>r r'. span r \<inter> span r' = {}) (os_ranges p')"
    by (cases "emergency_buf q = 0") (simp_all add: os_ranges_def same sorted_wrt_filter)
  then have op: "os_part p'"
    using parts(3) mem sub(2) unfolding os_part_def same by auto
  moreover have "emergency_used q \<Longrightarrow> h \<noteq> emergency_buf q"
    using os_block_base [OF parts(3) h] parts(3) by (simp add: os_part_def)
  then have oh: "os_held p' = os_held q - {h}"
    by (auto simp: os_held_def same)
  moreover have "h \<in> os_held q"
    using h by (force simp: os_held_def)
  then have "h \<notin> Hs \<union> tlsf_held T"
    using held_disjoint [OF parts] by blast
  ultimately show ?thesis
    using same by (intro gives_backI [OF parts, of p' Hs T]) auto
qed

lemma give_back_emergency:
  assumes parts: "slab_part q Hs" "tlsf_part q T" "os_part q" and u: "emergency_used q" and p': "p' = q\<lparr>emergency_used := False\<rparr>"
  shows "gives_back q (Hs \<union> tlsf_held T \<union> os_held q) (emergency_buf q) p'"
proof -
  have same: "slab p' = slab q" "tlsf p' = tlsf q" "tcaches p' = tcaches q" "ohdr p' = ohdr q" "os_blocks p' = os_blocks q"
    "pool_flags p' = pool_flags q" "emergency_buf p' = emergency_buf q" "emergency_size p' = emergency_size q" "\<not> emergency_used p'"
    "pool_books p' = pool_books q" "classes p' = classes q"
    by (simp_all add: p' pool_books_def)
  have rng: "os_ranges p' = os_ranges q" "regions p' = regions q" "os_mem p' = os_mem q"
    by (simp_all add: os_ranges_def regions_def same os_mem_def)
  have "slab_part p' Hs"
    by (rule slab_part_frame [OF parts(1)]) (simp_all add: same foreign_pages_def rng)
  moreover have "tlsf_part p' T"
    by (rule tlsf_part_frame [OF parts(2)]) (simp_all add: same)
  moreover have "os_part p'"
    using parts(3) same(9) unfolding os_part_def same rng by blast
  moreover have "emergency_buf q \<notin> fst ` set (os_blocks q)"
    using os_block_base [OF parts(3)] parts(3) u by (force simp: os_part_def)
  then have oh: "os_held p' = os_held q - {emergency_buf q}"
    using u same(9) by (auto simp: os_held_def same)
  moreover have "emergency_buf q \<notin> Hs \<union> tlsf_held T"
    using held_disjoint [OF parts] u by (auto simp: os_held_def)
  ultimately show ?thesis
    using same by (intro gives_backI [OF parts, of p' Hs T]) auto
qed

section \<open>Releasing a block\<close>

definition released :: "memory_pool \<Rightarrow> addr set \<Rightarrow> addr \<Rightarrow> memory_pool \<Rightarrow> bool" where
  "released p H h p' \<longleftrightarrow> pool_inv p' (H - {h}) \<and> (\<forall>y \<in> H - {h}. header_at p' y = header_at p y) \<and> pool_flags p' = pool_flags p"

lemma released_cong:
  assumes "released p H h q" "pool_core q' = pool_core q" "pool_books q' = pool_books q"
  shows "released p H h q'"
  using assms(1) pool_cong [OF _ assms(2,3)] core_cong(2,3) [OF assms(2)] by (simp add: released_def)

lemma released_before:
  assumes "released q H h p'" "\<And>y. y \<in> H \<Longrightarrow> header_at q y = header_at p y" "pool_flags q = pool_flags p"
  shows "released p H h p'"
  using assms by (simp add: released_def)

text \<open>The books first, then the memory.\<close>

lemma leave_then_give_back:
  assumes p: "pool_inv p H" "h \<in> H" and q: "book_ok q (H - {h})" "pool_core q = pool_core p" and r: "tiers q H \<Longrightarrow> gives_back q H h p'"
  shows "released p H h p'"
proof -
  note core = core_cong [OF q(2)]
  have "tiers q H"
    using p(1) by (simp add: core pool_inv_def)
  note r = r [OF this]
  then have "book_ok p' (H - {h})"
    by (intro book_cong [OF q(1)]) (simp_all add: gives_back_def)
  then show ?thesis
    using r by (simp add: released_def gives_back_def pool_inv_def core)
qed

lemma stats_update_leave:
  assumes "book_ok p H" "h \<in> H"
  shows "book_ok (mp_free_stats_update p h) (H - {h})"
  using book_leave(1) [OF assms refl] by (simp add: mp_free_stats_update_def fast_path_def)

lemma list_remove_commute:
  "active_list_remove (p\<lparr>active_bytes := a, active_allocations := b, total_free_ops := c\<rparr>) h
   = (active_list_remove p h)\<lparr>active_bytes := a, active_allocations := b, total_free_ops := c\<rparr>"
  by (cases "h = 0"; cases "act_prev p h = 0"; cases "act_prev p h = h"; cases "act_next p h = 0"; cases "act_next p h = h")
    (simp_all add: active_list_remove_def set_act_next_def set_act_prev_def)

lemma stats_cached_leave:
  assumes "book_ok p H" "h \<in> H"
  shows "book_ok (free_stats_cached p h True) (H - {h})"
proof -
  have "header_at (active_list_remove p h) h = header_at p h"
    by (rule core_cong(2)) simp
  moreover have "total_free_ops (active_list_remove p h) = total_free_ops p"
    by (simp add: active_list_remove_def set_act_next_def set_act_prev_def Let_def)
  ultimately have "active_list_remove (mp_free_stats_no_lock p h) h = mp_free_stats_no_lock (active_list_remove p h) h"
    by (simp add: mp_free_stats_no_lock_def list_remove_commute list_counters)
  moreover have "pool_flags (mp_free_stats_no_lock p h) = pool_flags p"
    by (simp add: mp_free_stats_no_lock_def)
  ultimately have "free_stats_cached p h True = mp_free_stats_update p h"
    by (simp add: free_stats_cached_def mp_free_stats_update_def)
  then show ?thesis
    using stats_update_leave [OF assms] by simp
qed

text \<open>Which tier a held block belongs to is what its header says.\<close>

lemma held_types:
  assumes parts: "slab_part p Hs" "tlsf_part p T" "os_part p"
  shows "h \<in> Hs \<Longrightarrow> alloc_type (header_at p h) = ALLOC_TYPE_SLAB"
    "b \<in> T \<Longrightarrow> alloc_type (header_at p (b + sizeof_tlsf_block)) = ALLOC_TYPE_TLSF \<and> raw_base (header_at p (b + sizeof_tlsf_block)) = b"
    "(r, k) \<in> set (os_blocks p) \<Longrightarrow> alloc_type (header_at p r) = ALLOC_TYPE_OS \<and> raw_base (header_at p r) = r"
    "emergency_used p \<Longrightarrow> alloc_type (header_at p (emergency_buf p)) = ALLOC_TYPE_EMERGENCY"
    "h \<in> Hs \<union> tlsf_held T \<union> os_held p \<Longrightarrow> magic (header_at p h) = MP_MAGIC_HEAD"
proof -
  show s: "alloc_type (header_at p h) = ALLOC_TYPE_SLAB" if "h \<in> Hs" for h
    using parts(1) that slab_part_area(4) [OF parts(1) that] by (simp add: slab_part_def slab_stamped_def)
  have sm: "magic (header_at p h) = MP_MAGIC_HEAD" if "h \<in> Hs" for h
    using parts(1) that slab_part_area(4) [OF parts(1) that] by (simp add: slab_part_def slab_stamped_def)
  have t: "tlsf_stamped (tlsf_root (tlsf p)) b (header_at p (b + sizeof_tlsf_block))" if "b \<in> T" for b
    using parts(2) that tlsf_part_area(4) [OF parts(2) that] by (simp add: tlsf_part_def)
  then show "alloc_type (header_at p (b + sizeof_tlsf_block)) = ALLOC_TYPE_TLSF \<and> raw_base (header_at p (b + sizeof_tlsf_block)) = b" if "b \<in> T"
    using that by (simp add: tlsf_stamped_def)
  have o: "os_stamped ALLOC_TYPE_OS r (header_at p r)" if "(r, k) \<in> set (os_blocks p)" for r k
  proof -
    have "r \<in> os_held p"
      using that by (force simp: os_held_def)
    then show ?thesis
      using parts(3) that os_part_area(4) [OF parts(3)] by (auto simp: os_part_def)
  qed
  then show "alloc_type (header_at p r) = ALLOC_TYPE_OS \<and> raw_base (header_at p r) = r" if "(r, k) \<in> set (os_blocks p)"
    using that by (simp add: os_stamped_def)
  have e: "os_stamped ALLOC_TYPE_EMERGENCY (emergency_buf p) (header_at p (emergency_buf p))" if "emergency_used p"
    using parts(3) that os_part_area(4) [OF parts(3), of "emergency_buf p"] by (simp add: os_part_def os_held_def)
  then show "emergency_used p \<Longrightarrow> alloc_type (header_at p (emergency_buf p)) = ALLOC_TYPE_EMERGENCY"
    by (simp add: os_stamped_def)
  show "magic (header_at p h) = MP_MAGIC_HEAD" if "h \<in> Hs \<union> tlsf_held T \<union> os_held p"
    using that sm t o e by (auto simp: tlsf_held_def os_held_def tlsf_stamped_def os_stamped_def split: if_splits)
qed

lemma validate_tiers:
  assumes parts: "slab_part p Hs" "tlsf_part p T" "os_part p" and q_def: "q = validate_owner p t"
  shows "slab_part q Hs" "tlsf_part q T" "os_part q" "os_held q = os_held p" "owned (tls (slab q) t)"
    "\<And>h. h \<in> Hs \<union> tlsf_held T \<union> os_held p \<Longrightarrow> header_at q h = header_at p h" "pool_flags q = pool_flags p" "pool_books q = pool_books p"
proof -
  note v = validate_owner_step [OF parts(1,2), where t = t, folded q_def]
  show own: "owned (tls (slab q) t)" "slab_part q Hs" "tlsf_part q T"
    using v(1-3) by simp_all
  note m = mem_only_same [OF v(4)]
  have same: "pages (slab q) = pages (slab p)" "page_heads (slab q) = page_heads (slab p)"
    by (simp_all add: q_def validate_owner_def tls_cache_validate_owner_def)
  note u = used_mem_cong [OF _ v(7,4) same]
  show oh: "os_held q = os_held p"
    using u(7) v(5) by simp
  show os: "os_part q"
    using parts(3) v(6,7) m u v(5) by (intro os_part_frame [OF parts(3)]) (auto simp: os_part_def Int_commute)
  show "header_at q h = header_at p h" if "h \<in> Hs \<union> tlsf_held T \<union> os_held p" for h
    using that v(5,6,8) oh by (intro header_kept [OF parts own(2,3) os]) auto
  show "pool_flags q = pool_flags p" "pool_books q = pool_books p"
    using m mem_only_books [OF v(4)] by simp_all
qed

lemma validate_pool:
  assumes "pool_inv p H" "slab_part p Hs" "tlsf_part p T" "os_part p" "H = Hs \<union> tlsf_held T \<union> os_held p" "q = validate_owner p t"
  shows "pool_inv q H"
proof -
  note v = validate_tiers [OF assms(2-4,6)]
  have "book_ok p H"
    using assms(1) by (simp add: pool_inv_def)
  then have "book_ok q H"
    by (rule book_cong) (simp_all add: v(6-8) assms(5))
  moreover have "tiers q H"
    by (rule tiersI [OF v(1-3)]) (simp add: v(4) assms(5))
  ultimately show ?thesis
    by (simp add: pool_inv_def)
qed

lemma free_slab_step:
  assumes p: "pool_inv p H" and parts: "slab_part p Hs" "tlsf_part p T" "os_part p" "H = Hs \<union> tlsf_held T \<union> os_held p" and h: "h \<in> Hs"
  shows "released p H h (free_slab env p (h + sizeof_mp_block_header))"
proof -
  define q where "q = validate_owner p (thread env)"
  note v = validate_pool [OF assms(1-5) q_def] validate_tiers [OF parts(1-3) q_def]
  have hH: "h \<in> H"
    using h parts(4) by simp
  have bq: "book_ok q H"
    using v(1) by (simp add: pool_inv_def)
  define give where "give = (\<lambda>r. put_slab (place_slot (slab_view r) (thread env) (cpu env) h) r)"
  have returned: "released q H h (give r)" if "book_ok r (H - {h})" "pool_core r = pool_core q" for r
  proof (rule leave_then_give_back [OF v(1) hH that])
    note c = core_cong [OF that(2)]
    have "owned (tls (slab r) (thread env))"
      using v(6) that(2) by (simp add: pool_core_def)
    then show "gives_back r H h (give r)"
      using give_back_slab [of r Hs T h "thread env"] v(2-4) h by (simp add: c give_def parts(4) v(5))
  qed
  have counted: "hflags (header_at q h) AND MP_BLOCK_FLAG_COUNTED \<noteq> 0"
    using bq hH by (simp add: book_ok_def)
  have stats: "book_ok (free_stats_cached q h True) (H - {h})" "book_ok (mp_free_stats_update q h) (H - {h})"
    using stats_cached_leave stats_update_leave bq hH by blast+
  have ev: "book_ok (trigger_event r MP_EVENT_FREE a n) K" if "book_ok r K" for r a n K
    using core_cong(2,3) [OF core_updates(1)] by (intro book_cong [OF that]) simp_all
  have tls: "free_stats_tls q h True = free_stats_cached q h True"
    by (simp add: free_stats_tls_def)
  have after: "released q H h (trigger_event (check_watermark_after_change r) MP_EVENT_FREE a n)" if "released q H h r" for r a n
    using released_cong [OF that] by simp
  have "free_slab env p (h + sizeof_mp_block_header) \<in>
      {give (trigger_event (free_stats_cached q h True) MP_EVENT_FREE (h + sizeof_mp_block_header) (requested_size (header_at q h))),
       trigger_event (check_watermark_after_change (give (mp_free_stats_update q h))) MP_EVENT_FREE (h + sizeof_mp_block_header) (requested_size (header_at q h))}"
    unfolding free_slab_def Let_def q_def [symmetric] add_diff_cancel_right' give_def using counted by (simp add: tls)
  then have "released q H h (free_slab env p (h + sizeof_mp_block_header))"
    using returned [OF ev [OF stats(1)]] after [OF returned [OF stats(2)]] by auto
  then show ?thesis
    by (rule released_before) (simp_all add: v(7,8) parts(4))
qed

lemma free_tlsf_step:
  assumes parts: "slab_part p Hs" "tlsf_part p T" "os_part p" and b: "b \<in> T"
  shows "\<exists>p'. free_tlsf_block env p (b + sizeof_tlsf_block) = Some p'
    \<and> gives_back p (Hs \<union> tlsf_held T \<union> os_held p) (b + sizeof_tlsf_block) p'"
proof -
  let ?h = "b + sizeof_tlsf_block" and ?H = "Hs \<union> tlsf_held T \<union> os_held p"
  define q where "q = validate_owner p (thread env)"
  note v = validate_tiers [OF parts q_def]
  have hd: "header_at q ?h = hdrs (tlsf q) ?h" "raw_base (hdrs (tlsf q) ?h) = b" "hflags (hdrs (tlsf q) ?h) AND MP_BLOCK_FLAG_TLSF_ARENA = 0"
    using tlsf_part_area(4) [OF v(2) b] v(2) b by (simp_all add: tlsf_part_def tlsf_stamped_def)
  have before: "gives_back p ?H ?h p'" if "gives_back q (Hs \<union> tlsf_held T \<union> os_held q) ?h p'" for p'
    using that v(6-8) unfolding gives_back_def v(4) by simp
  let ?i = "cache_index ((usable_size (header_at q ?h) + sizeof_tlsf_block + sizeof_mp_block_header) mod 2 ^ 64)"
  obtain st where st: "tlsf_free (tlsf_view q) ?h = Some st"
    using hd(3) by (simp add: tlsf_free_def tlsf_view_def Let_def)
  have r: "free_tlsf_block env p ?h = (case ?i of
           None \<Rightarrow> Some (put_tlsf st q)
         | Some i \<Rightarrow> if tlsf_counts (tcaches q (thread env)) i < TLSF_CACHE_MAX_SLOTS
                      then Some (tlsf_cache_push (thread env) i (raw_base (header_at q ?h)) (subpool (header_at q ?h)) q) else Some (put_tlsf st q))"
    unfolding free_tlsf_block_def Let_def q_def [symmetric] st option.map ..
  note region = before [OF give_back_region [OF v(1-3) b st refl]]
  show ?thesis
  proof (cases "\<exists>i. ?i = Some i \<and> tlsf_counts (tcaches q (thread env)) i < TLSF_CACHE_MAX_SLOTS")
    case True
    then obtain i where i: "?i = Some i" "tlsf_counts (tcaches q (thread env)) i < TLSF_CACHE_MAX_SLOTS"
      by blast
    have i8: "i < TLSF_CACHE_SIZES"
      using i(1) by (auto simp: cache_index_def Let_def split: if_splits)
    have "free_tlsf_block env p ?h = Some (tlsf_cache_push (thread env) i b (subpool (hdrs (tlsf q) ?h)) q)"
      unfolding r i(1) using i(2) hd by simp
    then show ?thesis
      using before [OF give_back_cache [OF v(1-3) b v(5) i8 i(2) refl]] by blast
  next
    case False
    then have "free_tlsf_block env p ?h = Some (put_tlsf st q)"
      unfolding r by (auto split: option.splits)
    then show ?thesis
      using region by blast
  qed
qed

lemma free_other_step:
  assumes p: "pool_inv p H" and parts: "slab_part p Hs" "tlsf_part p T" "os_part p" "H = Hs \<union> tlsf_held T \<union> os_held p" and h: "h \<in> H" "h \<notin> Hs"
  shows "\<exists>p'. free_other env p (h + sizeof_mp_block_header) = Some p' \<and> released p H h p'"
proof -
  let ?hd = "header_at p h"
  have b: "book_ok p H" and counted: "hflags ?hd AND MP_BLOCK_FLAG_COUNTED \<noteq> 0"
    using p h(1) by (auto simp: pool_inv_def book_ok_def)
  define s where "s = mp_free_stats_update p h"
  define q where "q = (if alloc_type ?hd = ALLOC_TYPE_OS
       then s\<lparr>os_allocated_bytes := (os_allocated_bytes s + 2 ^ 64 - requested_size ?hd) mod 2 ^ 64,
              resident_size := (resident_size s + 2 ^ 64 - (requested_size ?hd + sizeof_mp_block_header + canary_bytes s) mod 2 ^ 64) mod 2 ^ 64\<rparr>
       else s)"
  have q: "pool_core q = pool_core s" "pool_books q = pool_books s"
    by (simp_all add: q_def pool_core_def pool_books_def)
  have core: "pool_core q = pool_core p"
    unfolding q(1) s_def by simp
  note c = core_cong [OF core]
  have bq: "book_ok q (H - {h})"
    by (rule book_cong [OF stats_update_leave [OF b h(1), folded s_def] core_cong(2) [OF q(1)] q(2) core_cong(3) [OF q(1)]])
  have finish: "\<exists>p'. map_option (\<lambda>p. trigger_event (check_watermark_after_change p) MP_EVENT_FREE a n) r = Some p' \<and> released p H h p'"
    if "\<exists>r'. r = Some r' \<and> gives_back q H h r'" for r a n
  proof -
    from that obtain r' where r': "r = Some r'" "gives_back q H h r'"
      by blast
    have "released p H h r'"
      by (rule leave_then_give_back [OF p h(1) bq core]) (rule r'(2))
    then show ?thesis
      using r'(1) released_cong by simp
  qed
  have parts': "slab_part q Hs" "tlsf_part q T" "os_part q" "H = Hs \<union> tlsf_held T \<union> os_held q"
    using parts by (simp_all add: c)
  let ?r = "if alloc_type ?hd = ALLOC_TYPE_TLSF then free_tlsf_block env q h
               else if alloc_type ?hd = ALLOC_TYPE_OS then Some (free_os_block q (raw_base ?hd))
               else if alloc_type ?hd = ALLOC_TYPE_EMERGENCY then Some (q\<lparr>emergency_used := False\<rparr>)
               else Some q"
  have r: "free_other env p (h + sizeof_mp_block_header) =
      map_option (\<lambda>p. trigger_event (check_watermark_after_change p) MP_EVENT_FREE (h + sizeof_mp_block_header) (requested_size ?hd)) ?r"
    unfolding free_other_def Let_def add_diff_cancel_right' if_P [OF counted] s_def [symmetric] q_def [symmetric] ..
  note ty = held_types [OF parts(1-3)]
  consider b where "b \<in> T" "h = b + sizeof_tlsf_block" | k where "(h, k) \<in> set (os_blocks p)" | "emergency_used p" "h = emergency_buf p"
    using h by (auto simp: parts(4) tlsf_held_def os_held_def split: if_splits)
  then have "\<exists>r'. ?r = Some r' \<and> gives_back q H h r'"
  proof cases
    case (1 b)
    then have "?r = free_tlsf_block env q h"
      using ty(2) by simp
    then show ?thesis
      using free_tlsf_step [OF parts'(1-3) 1(1), of env] 1(2) parts'(4) by simp
  next
    case (2 k)
    then have "?r = Some (free_os_block q h)"
      using ty(3) [OF 2] by (simp add: ALLOC_TYPE_OS_def ALLOC_TYPE_TLSF_def)
    moreover have "(h, k) \<in> set (os_blocks q)"
      using 2 core by (simp add: pool_core_def)
    ultimately show ?thesis
      using give_back_os [OF parts'(1-3) _ refl] parts'(4) by simp
  next
    case 3
    then have "?r = Some (q\<lparr>emergency_used := False\<rparr>)"
      using ty(4) by (simp add: ALLOC_TYPE_OS_def ALLOC_TYPE_TLSF_def ALLOC_TYPE_EMERGENCY_def)
    moreover have "emergency_used q" "h = emergency_buf q"
      using 3 core by (simp_all add: pool_core_def)
    ultimately show ?thesis
      using give_back_emergency [OF parts'(1-3) _ refl] parts'(4) by simp
  qed
  then show ?thesis
    unfolding r by (rule finish)
qed

lemma mp_free_step:
  assumes p: "pool_inv p H" and h: "h \<in> H"
  shows "\<exists>p'. mp_free env p (h + sizeof_mp_block_header) = Some p' \<and> released p H h p'"
proof -
  let ?a = "h + sizeof_mp_block_header"
  define p1 where "p1 = (if has_flag (pool_flags p) MP_FLAG_POISON_ON_FREE
      then on_bytes h (memset ?a MP_POISON_BYTE (requested_size (header_at p h))) p else p)"
  define p2 where "p2 = (if has_flag (pool_flags p1) MP_FLAG_DEBUG_CANARY then mp_verify_free_canary p1 ?a else p1)"
  have 1: "pool_inv p1 H" "header_at p1 = header_at p"
    using p on_bytes_step [OF p] by (simp_all add: p1_def)
  have c: "pool_core p2 = pool_core p1" "pool_books p2 = pool_books p1"
    by (simp_all add: p2_def mp_verify_free_canary_def Let_def)
  note 2 = pool_cong [OF 1(1) c] core_cong(2) [OF c(1)]
  have hd: "header_at p2 y = header_at p y" "pool_flags p2 = pool_flags p" for y
    using 2(2) 1(2) core_cong(3) [OF c(1)] by (simp_all add: p1_def on_bytes_def split: area.splits)
  obtain Hs T where parts: "slab_part p2 Hs" "tlsf_part p2 T" "os_part p2" "H = Hs \<union> tlsf_held T \<union> os_held p2"
    using 2(1) by (auto simp: pool_inv_def tiers_def)
  note ty = held_types [OF parts(1-3)]
  have mg: "\<not> magic (header_at p h) \<noteq> MP_MAGIC_HEAD"
    using ty(5) [of h] h hd by (simp add: parts(4))
  have nn: "?a \<noteq> 0"
    by (simp add: sizeof_mp_block_header_def)
  have r: "mp_free env p ?a = (if alloc_type (header_at p2 h) = ALLOC_TYPE_SLAB then Some (free_slab env p2 ?a) else free_other env p2 ?a)"
    unfolding mp_free_def Let_def add_diff_cancel_right' p1_def [symmetric] p2_def [symmetric] if_not_P [OF nn] if_not_P [OF mg] ..
  have "\<exists>p'. mp_free env p ?a = Some p' \<and> released p2 H h p'"
  proof (cases "h \<in> Hs")
    case True
    then show ?thesis
      using r ty(1) free_slab_step [OF 2(1) parts True] by simp
  next
    case False
    have "alloc_type (header_at p2 h) \<noteq> ALLOC_TYPE_SLAB"
    proof -
      consider b where "b \<in> T" "h = b + sizeof_tlsf_block" | k where "(h, k) \<in> set (os_blocks p2)" | "emergency_used p2" "h = emergency_buf p2"
        using h False by (auto simp: parts(4) tlsf_held_def os_held_def split: if_splits)
      then show ?thesis
        using ty(2-4) by cases (auto simp: ALLOC_TYPE_SLAB_def ALLOC_TYPE_OS_def ALLOC_TYPE_TLSF_def ALLOC_TYPE_EMERGENCY_def)
    qed
    then show ?thesis
      using r free_other_step [OF 2(1) parts h False] by simp
  qed
  then show ?thesis
    using released_before hd by blast
qed

end
