(* ===== verification/Pool_Create.thy ===== *)
theory Pool_Create
  imports Pool_Free C_String Multi_Arena
begin

text \<open>
  Creation and configuration of a pool (\<open>src/src/cmem.c\<close>, \<open>src/src/cmem_config.c\<close>, \<open>src/src/cmem_lifecycle.c\<close>):
  default flags, the directives of \<open>CMEM_CONF\<close>, a pool on memory of the operating system or inside a buffer of the
  caller, and the setters.  A fresh pool satisfies the invariant with no block held.
\<close>

section \<open>Flags\<close>

definition MP_FLAG_GUARD_PAGES :: nat where "MP_FLAG_GUARD_PAGES = 2 ^ 8"
definition MP_FLAG_HUGE_PAGES :: nat where "MP_FLAG_HUGE_PAGES = 2 ^ 10"
definition MP_FLAG_DEFAULT :: nat where "MP_FLAG_DEFAULT = 0"

text \<open>The build chooses \<open>CMEM_SAFETY_LEVEL\<close> and \<open>NDEBUG\<close>.\<close>

definition CMEM_DEFAULT_SAFETY_FLAGS :: "nat \<Rightarrow> bool \<Rightarrow> nat" where
  "CMEM_DEFAULT_SAFETY_FLAGS level ndebug =
     (if level = 1 then MP_FLAG_DEFAULT
      else if level = 2 then MP_FLAG_DEBUG_CANARY OR MP_FLAG_FAST_PATH
      else if level = 3 then MP_FLAG_DEBUG_CANARY OR MP_FLAG_POISON_ON_FREE
      else if ndebug then MP_FLAG_DEBUG_CANARY OR MP_FLAG_FAST_PATH
      else MP_FLAG_DEBUG_CANARY OR MP_FLAG_POISON_ON_FREE)"

definition cmem_resolve_default_flags :: "nat \<Rightarrow> bool \<Rightarrow> nat \<Rightarrow> nat" where
  "cmem_resolve_default_flags level ndebug flags = (if flags = MP_FLAG_DEFAULT then CMEM_DEFAULT_SAFETY_FLAGS level ndebug else flags)"

definition env_directives :: "(string \<times> nat) list" where
  "env_directives =
     [(''canary'', MP_FLAG_DEBUG_CANARY), (''zero'', MP_FLAG_ZERO_ON_ALLOC), (''tls'', MP_FLAG_THREAD_LOCAL_CACHE),
      (''track'', MP_FLAG_TRACK_LOCATIONS), (''poison'', MP_FLAG_POISON_ON_FREE), (''aligned'', MP_FLAG_CACHE_ALIGNED),
      (''guard'', MP_FLAG_GUARD_PAGES), (''hugepages'', MP_FLAG_HUGE_PAGES)]"

fun apply_directives :: "string \<Rightarrow> (string \<times> nat) list \<Rightarrow> nat \<Rightarrow> nat" where
  "apply_directives conf [] flags = flags"
| "apply_directives conf ((name, flag) # ds) flags =
     apply_directives conf ds (if strstr conf (name @ ''=1'') \<or> strstr conf (name @ ''=on'') then flags OR flag else flags)"

text \<open>\<open>env_conf\<close>: what \<open>getenv\<close> answers.\<close>

definition mp_parse_env_flags :: "string option \<Rightarrow> nat \<Rightarrow> nat" where
  "mp_parse_env_flags env_conf default_flags =
     (case env_conf of
        None \<Rightarrow> default_flags
      | Some conf \<Rightarrow> if conf = [] then default_flags else apply_directives conf env_directives default_flags)"

definition mp_reparse_env_flags :: "string option \<Rightarrow> memory_pool \<Rightarrow> memory_pool \<times> nat" where
  "mp_reparse_env_flags env_conf p =
     (let new_flags = mp_parse_env_flags env_conf (pool_flags p)
      in if new_flags = pool_flags p then (p, pool_flags p) else (p\<lparr>pool_flags := new_flags\<rparr>, new_flags))"

section \<open>Creation\<close>

text \<open>A zeroed pool object.  \<open>w\<close> stands for everything outside of it: the contents of memory and the caches of the threads.\<close>

definition zeroed_pool :: "addr \<Rightarrow> nat \<Rightarrow> memory_pool \<Rightarrow> memory_pool" where
  "zeroed_pool a flags w =
     w\<lparr>self := a, pool_flags := flags,
       classes := \<lparr>use_custom_slab_sizes = False, custom_slab_sizes = replicate SLAB_CLASS_COUNT 0, class_slot_sizes = replicate SLAB_CLASS_COUNT 0\<rparr>,
       slab := slab_pool.total_pool_size_update (\<lambda>_. 0)
         ((slab w)\<lparr>sflags := flags, slab_allocated_bytes := 0, percpu_heads := None, percpu_counts := (\<lambda>_. 0), num_cpus := 0\<rparr>),
       tlsf := tlsf_tier.total_pool_size_update (\<lambda>_. 0) ((tlsf w)\<lparr>pflags := flags, tlsf_root := [], tlsf_allocated_bytes := 0\<rparr>),
       os_blocks := [], act_head := 0, active_bytes := 0, peak_bytes := 0, active_allocations := 0, total_alloc_ops := 0,
       total_free_ops := 0, os_allocated_bytes := 0, resident_size := 0, size_histogram := (\<lambda>_. 0), max_memory_limit := 0,
       fallback_to_sys_alloc_on_oom := False, emergency_buf := 0, emergency_size := 0, emergency_used := False, is_dirty := False,
       circuit_breaker_enabled := False, circuit_breaker_tripped := False, thread_quota_bytes := 0, event_cb := False, events := [],
       watermark_cb := False, in_high_watermark_state := False, high_thresh := (\<lambda>_. None), low_thresh := (\<lambda>_. None),
       watermarks := [], error_recovery_cb := False, recoveries := []\<rparr>"

definition init_slabs :: "memory_pool \<Rightarrow> memory_pool" where
  "init_slabs p = p\<lparr>slab := slab_init (classes p) (slab p), classes := init_class_sizes (classes p)\<rparr>"

definition init_percpu :: "int \<Rightarrow> bool \<Rightarrow> memory_pool \<Rightarrow> memory_pool" where
  "init_percpu nproc calloc_ok p = p\<lparr>slab := percpu_init nproc calloc_ok (slab p)\<rparr>"

definition set_root :: "tlsf_pool option \<Rightarrow> memory_pool \<Rightarrow> memory_pool" where
  "set_root r p = p\<lparr>tlsf := (tlsf p)\<lparr>tlsf_root := (case r of None \<Rightarrow> [] | Some t \<Rightarrow> [t])\<rparr>\<rparr>"

text \<open>For a pool without \<open>MP_FLAG_MULTI_ARENA\<close>.  \<open>a\<close> and \<open>os\<close>: the answers of \<open>calloc\<close> and of \<open>sys_mem_alloc\<close>.\<close>

definition mp_create_custom_impl ::
  "int \<Rightarrow> bool \<Rightarrow> (addr \<Rightarrow> tlsf_block) \<Rightarrow> addr \<Rightarrow> addr \<Rightarrow> memory_pool \<Rightarrow> nat \<Rightarrow> nat \<Rightarrow> memory_pool option" where
  "mp_create_custom_impl nproc calloc_ok m0 a os w initial_capacity flags =
     (if a = 0 then None
      else let p = init_percpu nproc calloc_ok (init_slabs (zeroed_pool a flags w))
           in Some (if 0 < initial_capacity then set_root (tlsf_create_pool_custom m0 initial_capacity 0 os) p else p))"

definition mp_create_custom ::
  "nat \<Rightarrow> bool \<Rightarrow> string option \<Rightarrow> int \<Rightarrow> bool \<Rightarrow> (addr \<Rightarrow> tlsf_block) \<Rightarrow> addr \<Rightarrow> addr \<Rightarrow> memory_pool \<Rightarrow> nat \<Rightarrow> nat \<Rightarrow> memory_pool option" where
  "mp_create_custom level ndebug env_conf nproc calloc_ok m0 a os w initial_capacity flags =
     mp_create_custom_impl nproc calloc_ok m0 a os w initial_capacity
       (mp_parse_env_flags env_conf (cmem_resolve_default_flags level ndebug flags))"

text \<open>\<open>szp\<close> is the size of the pool object.\<close>

definition mp_create_from_buffer ::
  "nat \<Rightarrow> nat \<Rightarrow> bool \<Rightarrow> string option \<Rightarrow> int \<Rightarrow> bool \<Rightarrow> (addr \<Rightarrow> tlsf_block) \<Rightarrow> memory_pool \<Rightarrow> addr \<Rightarrow> nat \<Rightarrow> nat \<Rightarrow> memory_pool option" where
  "mp_create_from_buffer szp level ndebug env_conf nproc calloc_ok m0 w buffer buffer_size flags =
     (if buffer = 0 \<or> buffer_size < szp + sizeof_tlsf_pool + TLSF_MIN_BLOCK_SIZE then None
      else let aligned_addr = align_up8 buffer;
               align_offset = aligned_addr - buffer
           in if buffer_size \<le> align_offset + szp + sizeof_tlsf_pool + TLSF_MIN_BLOCK_SIZE then None
              else let flags = mp_parse_env_flags env_conf (cmem_resolve_default_flags level ndebug flags);
                       p = init_slabs (zeroed_pool aligned_addr (flags OR MP_FLAG_STATIC_BUFFER) w);
                       p = (if has_flag flags MP_FLAG_PERCPU_FREELIST then init_percpu nproc calloc_ok p else p);
                       remain_mem = aligned_addr + szp;
                       remain_sz = buffer_size - align_offset - szp - sizeof_tlsf_pool
                   in case tlsf_create_pool_custom m0 remain_sz remain_mem 0 of
                        None \<Rightarrow> None
                      | Some t \<Rightarrow> Some ((set_root (Some t) p)\<lparr>resident_size := buffer_size\<rparr>))"

section \<open>Configuration\<close>

definition mp_set_memory_limit :: "memory_pool \<Rightarrow> nat \<Rightarrow> memory_pool" where
  "mp_set_memory_limit p max_bytes = p\<lparr>max_memory_limit := max_bytes\<rparr>"

definition mp_set_event_callback :: "memory_pool \<Rightarrow> bool \<Rightarrow> memory_pool" where
  "mp_set_event_callback p cb = p\<lparr>event_cb := cb\<rparr>"

definition mp_set_error_recovery_callback :: "memory_pool \<Rightarrow> bool \<Rightarrow> memory_pool" where
  "mp_set_error_recovery_callback p cb = p\<lparr>error_recovery_cb := cb\<rparr>"

definition mp_set_watermark_callback :: "memory_pool \<Rightarrow> (nat \<Rightarrow> nat option) \<Rightarrow> (nat \<Rightarrow> nat option) \<Rightarrow> bool \<Rightarrow> memory_pool" where
  "mp_set_watermark_callback p hi lo cb = p\<lparr>high_thresh := hi, low_thresh := lo, watermark_cb := cb, in_high_watermark_state := False\<rparr>"

text \<open>\<open>buf\<close>: the answer of \<open>malloc\<close>.\<close>

definition mp_enable_emergency_reserve :: "memory_pool \<Rightarrow> addr \<Rightarrow> nat \<Rightarrow> memory_pool \<times> bool" where
  "mp_enable_emergency_reserve p buf reserve_bytes =
     (if reserve_bytes = 0 then (p, False)
      else if buf = 0 then (p\<lparr>emergency_buf := 0\<rparr>, False)
      else (p\<lparr>emergency_buf := buf, emergency_size := reserve_bytes, emergency_used := False\<rparr>, True))"

section \<open>A fresh pool\<close>

lemma fresh_pool_inv:
  assumes slab: "slab_inv 0 (slab p) (\<lambda>_. []) C {}" "sflags (slab p) = pool_flags p" "\<And>t. \<not> owned (tls (slab p) t)"
    and sizes: "sizes_match (classes p) (slab p)"
    and tlsf: "pflags (tlsf p) = pool_flags p"
      "tlsf_root (tlsf p) = [] \<or> (\<exists>t. tlsf_root (tlsf p) = [t] \<and> tlsf_wf t [raw_area t] \<and> bfree t (raw_area t) \<and> sizeof_tlsf_pool < raw_area t)"
    and os: "os_blocks p = []" "emergency_buf p = 0" "\<not> emergency_used p"
    and books: "act_head p = 0" "active_bytes p = 0" "active_allocations p = 0"
  shows "pool_inv p {}"
proof -
  have "slab_part p {}"
    unfolding slab_part_def using slab sizes by (auto simp: held_ok_def)
  moreover have "\<exists>Ls. chain_wf (tlsf_root (tlsf p)) Ls \<and> chain_live (tlsf_root (tlsf p)) Ls = {}"
    using tlsf(2)
  proof (elim disjE exE conjE)
    assume "tlsf_root (tlsf p) = []"
    then show ?thesis
      by (intro exI [of _ "[]"]) (simp add: chain_wf_def)
  next
    fix t assume "tlsf_root (tlsf p) = [t]" "tlsf_wf t [raw_area t]" "bfree t (raw_area t)" "sizeof_tlsf_pool < raw_area t"
    then show ?thesis
      by (intro exI [of _ "[[raw_area t]]"]) (auto simp: chain_wf_def chain_live_def live_def)
  qed
  then obtain Ls where "chain_wf (tlsf_root (tlsf p)) Ls" "chain_live (tlsf_root (tlsf p)) Ls = {}"
    by blast
  moreover have "caches p (\<lambda>_ _. [])"
    by (rule cachesI) (simp_all add: slab(3))
  ultimately have "tlsf_part p {}"
    using tlsf(1) by (intro tlsf_partI [where Ls = Ls and E = "\<lambda>_ _. []"]) (simp_all add: cached_def tlsf_fit_def)
  moreover have "os_part p" "os_held p = {}"
    using os by (simp_all add: os_part_def os_ranges_def os_mem_def os_held_def)
  ultimately have "tiers p {}"
    using \<open>slab_part p {}\<close> by (intro tiersI) (auto simp: tlsf_held_def)
  moreover have "book_ok p {}"
    using books by (simp add: book_ok_def held_bytes_def)
  ultimately show ?thesis
    by (simp add: pool_inv_def)
qed

lemma init_slabs_inv:
  assumes "\<And>t. \<not> owned (tls (slab w) t)"
  shows "slab_inv 0 (slab (init_slabs (zeroed_pool a flags w))) (\<lambda>_. []) (\<lambda>_. []) {}"
proof -
  have "sizes_ok (slab_init (classes (zeroed_pool a flags w)) (slab (zeroed_pool a flags w)))"
    by (simp add: sizes_ok_list slab_init_def init_class_sizes_def zeroed_pool_def cmem_slab_class_size_def SLAB_CLASS_COUNT_def
        sizeof_mp_block_header_def sizeof_mp_slab_page_def SLAB_PAGE_SIZE_def)
  from inv_init [OF this] show ?thesis
    using assms by (simp add: init_slabs_def zeroed_pool_def)
qed

lemma init_percpu_inv:
  assumes "slab_inv 0 (slab p) (\<lambda>_. []) (\<lambda>_. []) {}"
  shows "slab_inv 0 (slab (init_percpu nproc calloc_ok p)) (\<lambda>_. []) (\<lambda>_. []) {}"
proof (cases "percpu_heads (slab p) = None")
  case True
  then show ?thesis
    using percpu_init_switch [OF True, of nproc calloc_ok] inv_percpu_switch [OF assms] by (auto simp: init_percpu_def)
next
  case False
  then show ?thesis
    using assms by (simp add: init_percpu_def percpu_init_def)
qed

text \<open>The rest of a new pool.\<close>

lemma new_pool_fields:
  fixes w a flags
  defines "p \<equiv> init_slabs (zeroed_pool a flags w)"
  assumes q: "q = p \<or> q = init_percpu nproc calloc_ok p"
  shows "pool_flags q = flags" "sflags (slab q) = flags" "pflags (tlsf q) = flags" "tls (slab q) = tls (slab w)" "tlsf_root (tlsf q) = []"
    "os_blocks q = []" "emergency_buf q = 0" "\<not> emergency_used q" "act_head q = 0" "active_bytes q = 0" "active_allocations q = 0"
    "\<not> use_custom_slab_sizes (classes q)" "slot_sizes (slab q) = cmem_slab_class_size"
  using q by (auto simp: p_def init_slabs_def init_percpu_def zeroed_pool_def slab_init_def percpu_init_def init_class_sizes_def Let_def)

lemma set_root_ok:
  assumes q: "q = init_slabs (zeroed_pool a flags w) \<or> q = init_percpu nproc calloc_ok (init_slabs (zeroed_pool a flags w))"
    and w: "\<And>t. \<not> owned (tls (slab w) t)"
    and r: "r = None \<or> (\<exists>m0 n cm os t. r = Some t \<and> tlsf_create_pool_custom m0 n cm os = Some t \<and> 64 \<le> align_up8 n \<and> align_up8 n \<le> 2 ^ 30)"
  shows "pool_inv (set_root r q) {}"
proof -
  note f = new_pool_fields [OF q]
  have "slab_inv 0 (slab q) (\<lambda>_. []) (\<lambda>_. []) {}"
    using q init_slabs_inv [OF w] init_percpu_inv by auto
  moreover have "sizes_match (classes q) (slab q)"
    unfolding sizes_match_def f(13) default_index [OF f(12)] using class_search_fits [of cmem_slab_class_size]
    by (simp add: SLAB_CLASS_COUNT_def cmem_slab_class_size_def)
  moreover have "tlsf_wf t [raw_area t] \<and> bfree t (raw_area t) \<and> sizeof_tlsf_pool < raw_area t"
    if t: "tlsf_create_pool_custom m0 n cm os = Some t" "64 \<le> align_up8 n" "align_up8 n \<le> 2 ^ 30" for m0 n cm os t
  proof -
    have "raw_area t = (if cm \<noteq> 0 then cm else os) + sizeof_tlsf_pool \<and> (if cm \<noteq> 0 then cm else os) \<noteq> 0"
      using t(1) by (auto simp: tlsf_create_pool_custom_def Let_def tlsf_loads split: if_splits prod.splits)
    then show ?thesis
      using tlsf_create_wf [OF t] by auto
  qed
  ultimately show ?thesis
    using r f w by (intro fresh_pool_inv) (auto simp: set_root_def)
qed

end
