(* ===== verification/Pool_Extent.thy ===== *)
theory Pool_Extent
  imports Pool_Free
begin

text \<open>
  Where the blocks of a pool are: the extent of a held block, that the extents of two blocks share no byte, and that
  what was asked for fits the extent.
\<close>

section \<open>Where the blocks are\<close>

text \<open>The bytes of a held block, header and canary included.\<close>

definition block_extent :: "memory_pool \<Rightarrow> addr \<Rightarrow> addr set" where
  "block_extent p h =
     (case area_of p h of
        SlabArea \<Rightarrow> {h ..< h + slot_bytes (slab p) h}
      | TlsfArea \<Rightarrow>
          (let b = raw_base (hdrs (tlsf p) h)
           in case get_tpool (subpool (hdrs (tlsf p) h)) (tlsf_root (tlsf p)) of None \<Rightarrow> {} | Some t \<Rightarrow> {b ..< b + bsz t b})
      | OsArea \<Rightarrow> (case map_of (os_blocks p) h of Some n \<Rightarrow> {h ..< h + n} | None \<Rightarrow> {h ..< h + emergency_size p}))"

lemma slab_extent:
  assumes "slab_part p Hs" "s \<in> Hs"
  shows "block_extent p s = {s ..< s + slot_bytes (slab p) s}" "\<And>a. a \<in> block_extent p s \<Longrightarrow> a \<notin> regions p \<union> os_mem p"
    "\<And>s'. s' \<in> Hs \<Longrightarrow> s' \<noteq> s \<Longrightarrow> block_extent p s \<inter> block_extent p s' = {}"
    "block_extent p s \<subseteq> {page_of s ..< page_of s + SLAB_PAGE_SIZE}"
proof -
  obtain D C where D: "slab_inv 0 (slab p) D C Hs" "held_ok (slab p) D Hs" "\<And>k. set (D k) \<inter> foreign_pages p = {}"
    using assms(1) by (auto simp: slab_part_def)
  have sz: "sizes_ok (slab p)"
    using D(1) by (simp add: slab_inv_def)
  have e: "block_extent p s = {s ..< s + slot_bytes (slab p) s}" if "s \<in> Hs" for s
    using slab_part_area(3) [OF assms(1) that] by (simp add: block_extent_def)
  then show "block_extent p s = {s ..< s + slot_bytes (slab p) s}"
    using assms(2) .
  have c: "slab_class (shdr (slab p) s) < SLAB_CLASS_COUNT" "s \<in> class_slots (slab p) D (slab_class (shdr (slab p) s))" if "s \<in> Hs" for s
    using D(2) that by (simp_all add: held_ok_def)
  note fit = slot_bytes_fit [OF sz c(1)]
  show "block_extent p s \<inter> block_extent p s' = {}" if "s' \<in> Hs" "s' \<noteq> s" for s'
    using held_apart [OF D(1,2) assms(2) that(1)] that fit [OF assms(2)] fit [OF that(1)] by (auto simp: e assms(2))
  obtain k where k: "page_of s \<in> set (D k)" "s \<in> page_slots (slab p) (slab_class (shdr (slab p) s)) (page_of s)"
    using inv_slot_page [OF D(1) c(2) [OF assms(2)]] by metis
  obtain i where i: "i < nslots (slab p) (slab_class (shdr (slab p) s))"
    "s = slot_at (page_of s) (total_slot_size (slab p) (slab_class (shdr (slab p) s))) i"
    using k(2) by (auto simp: page_slots_def)
  have "s + slot_bytes (slab p) s \<le> page_of s + SLAB_PAGE_SIZE"
    using slot_bounds [OF sz c(1) [OF assms(2)] i(1), of "page_of s", folded i(2)] fit [OF assms(2)] by simp
  then show in_page: "block_extent p s \<subseteq> {page_of s ..< page_of s + SLAB_PAGE_SIZE}"
    using page_of_props [of s] by (auto simp: e [OF assms(2)])
  show "a \<notin> regions p \<union> os_mem p" if "a \<in> block_extent p s" for a
  proof -
    have "page_of a = page_of s"
      using that in_page page_of_props [of s] same_page [of a "page_of s"] by auto
    then have "page_of a \<notin> foreign_pages p"
      using D(3) [of k] k(1) by (auto simp: disjoint_iff)
    then show ?thesis
      by (auto simp: foreign_pages_def)
  qed
qed

lemma tlsf_extent_live:
  assumes p: "tlsf_part p T" "b \<in> T" and L: "chain_wf (tlsf_root (tlsf p)) Ls" "fst ` chain_live (tlsf_root (tlsf p)) Ls = T \<union> cached E"
  obtains t xs n where "(t, xs) \<in> set (zip (tlsf_root (tlsf p)) Ls)" "(b, n) \<in> live t xs" "(b, n) \<in> chain_live (tlsf_root (tlsf p)) Ls"
    "block_extent p (b + sizeof_tlsf_block) = {b ..< b + n}"
proof -
  let ?h = "hdrs (tlsf p) (b + sizeof_tlsf_block)"
  have s: "raw_base ?h = b" "home (tlsf_root (tlsf p)) b (subpool ?h)"
    using p by (auto simp: tlsf_part_def tlsf_stamped_def)
  have "b \<in> fst ` chain_live (tlsf_root (tlsf p)) Ls"
    using L(2) p(2) by simp
  then obtain n where n: "(b, n) \<in> chain_live (tlsf_root (tlsf p)) Ls"
    by force
  obtain t xs where t: "(t, xs) \<in> set (zip (tlsf_root (tlsf p)) Ls)" "(b, n) \<in> live t xs" "tpool_addr t = subpool ?h"
    using chain_entry [OF L(1) n s(2)] by metis
  have "block_extent p (b + sizeof_tlsf_block) = {b ..< b + bsz t b}"
    using tlsf_part_area(3) [OF p] get_tpool_in [OF L(1) t(1)] t(3) s(1) by (simp add: block_extent_def)
  then show thesis
    using that [OF t(1,2) n] t(2) by (auto simp: live_iff)
qed

lemma tlsf_extent:
  assumes "tlsf_part p T" "b \<in> T"
  shows "block_extent p (b + sizeof_tlsf_block) \<subseteq> regions p"
    "\<And>c. c \<in> T \<Longrightarrow> c \<noteq> b \<Longrightarrow> block_extent p (b + sizeof_tlsf_block) \<inter> block_extent p (c + sizeof_tlsf_block) = {}"
proof -
  obtain Ls E where L: "chain_wf (tlsf_root (tlsf p)) Ls" "fst ` chain_live (tlsf_root (tlsf p)) Ls = T \<union> cached E"
    using assms(1) by (auto simp: tlsf_part_def)
  have e: "\<exists>n. (b, n) \<in> chain_live (tlsf_root (tlsf p)) Ls \<and> block_extent p (b + sizeof_tlsf_block) = {b ..< b + n}" if b: "b \<in> T" for b
    by (rule tlsf_extent_live [OF assms(1) b L]) blast
  obtain n where n: "(b, n) \<in> chain_live (tlsf_root (tlsf p)) Ls" "block_extent p (b + sizeof_tlsf_block) = {b ..< b + n}"
    using e [OF assms(2)] by blast
  obtain t where "t \<in> set (tlsf_root (tlsf p))" "{b ..< b + n} \<subseteq> region t"
    using live_block_region [OF L(1) n(1)] by metis
  then show "block_extent p (b + sizeof_tlsf_block) \<subseteq> regions p"
    unfolding n(2) regions_def by blast
  show "block_extent p (b + sizeof_tlsf_block) \<inter> block_extent p (c + sizeof_tlsf_block) = {}" if c: "c \<in> T" "c \<noteq> b" for c
  proof -
    obtain m where m: "(c, m) \<in> chain_live (tlsf_root (tlsf p)) Ls" "block_extent p (c + sizeof_tlsf_block) = {c ..< c + m}"
      using e [OF c(1)] by blast
    show ?thesis
      using chain_live_disjoint [OF L(1) n(1) m(1)] c(2) unfolding n(2) m(2) by auto
  qed
qed

lemma sorted_wrt_in:
  assumes "sorted_wrt (\<lambda>r r'. span r \<inter> span r' = {}) rs" "r \<in> set rs" "r' \<in> set rs" "r \<noteq> r'"
  shows "span r \<inter> span r' = {}"
  using assms by (induction rs) (auto simp: Int_commute)

lemma os_extent_range:
  assumes "os_part p" "h \<in> os_held p"
  shows "\<exists>n. (h, n) \<in> set (os_ranges p) \<and> block_extent p h = span (h, n) \<and> block_need (pool_flags p) (ohdr p h) \<le> n"
proof (cases "map_of (os_blocks p) h")
  case None
  then have "emergency_used p" "h = emergency_buf p"
    using assms(2) by (auto simp: os_held_def map_of_eq_None_iff split: if_splits)
  then show ?thesis
    using assms(1) None os_part_area(3) [OF assms] by (intro exI [of _ "emergency_size p"]) (simp add: os_part_def os_ranges_def block_extent_def span_def)
next
  case (Some n)
  then show ?thesis
    using assms(1) map_of_SomeD [OF Some] os_part_area(3) [OF assms]
    by (intro exI [of _ n]) (auto simp: os_part_def os_ranges_def block_extent_def span_def)
qed

lemma os_extent:
  assumes "os_part p" "h \<in> os_held p"
  shows "block_extent p h \<subseteq> os_mem p" "\<And>h'. h' \<in> os_held p \<Longrightarrow> h' \<noteq> h \<Longrightarrow> block_extent p h \<inter> block_extent p h' = {}"
proof -
  have e: "\<exists>n. (h, n) \<in> set (os_ranges p) \<and> block_extent p h = span (h, n)" if "h \<in> os_held p" for h
    using os_extent_range [OF assms(1) that] by blast
  obtain n where n: "(h, n) \<in> set (os_ranges p)" "block_extent p h = span (h, n)"
    using e [OF assms(2)] by blast
  then show "block_extent p h \<subseteq> os_mem p"
    by (auto simp: os_mem_def)
  show "block_extent p h \<inter> block_extent p h' = {}" if h': "h' \<in> os_held p" "h' \<noteq> h" for h'
  proof -
    obtain m where "(h', m) \<in> set (os_ranges p)" "block_extent p h' = span (h', m)"
      using e [OF h'(1)] by blast
    then show ?thesis
      using sorted_wrt_in [of "os_ranges p" "(h, n)" "(h', m)"] n h'(2) assms(1) by (simp add: os_part_def)
  qed
qed

lemma extents_apart:
  assumes "tiers p H" "h \<in> H" "h' \<in> H" "h \<noteq> h'"
  shows "block_extent p h \<inter> block_extent p h' = {}"
proof -
  obtain Hs T where parts: "slab_part p Hs" "tlsf_part p T" "os_part p" and H: "H = Hs \<union> tlsf_held T \<union> os_held p"
    using assms(1) by (auto simp: tiers_def)
  have ro: "os_mem p \<inter> regions p = {}"
    using parts(3) by (simp add: os_part_def)
  have s: "block_extent p x \<inter> (regions p \<union> os_mem p) = {}" if "x \<in> Hs" for x
    using slab_extent(2) [OF parts(1) that] by blast
  have t: "block_extent p x \<subseteq> regions p" if "x \<in> tlsf_held T" for x
    using tlsf_extent(1) [OF parts(2)] that by (auto simp: tlsf_held_def)
  have o: "block_extent p x \<subseteq> os_mem p" if "x \<in> os_held p" for x
    using os_extent(1) [OF parts(3) that] .
  have tt: "block_extent p h \<inter> block_extent p h' = {}" if "h \<in> tlsf_held T" "h' \<in> tlsf_held T"
    using that assms(4) tlsf_extent(2) [OF parts(2)] by (auto simp: tlsf_held_def)
  from assms(2,3) consider "h \<in> Hs" "h' \<in> Hs" | "h \<in> tlsf_held T" "h' \<in> tlsf_held T" | "h \<in> os_held p" "h' \<in> os_held p"
    | "h \<in> Hs" "h' \<in> tlsf_held T \<union> os_held p" | "h' \<in> Hs" "h \<in> tlsf_held T \<union> os_held p"
    | "h \<in> tlsf_held T" "h' \<in> os_held p" | "h' \<in> tlsf_held T" "h \<in> os_held p"
    unfolding H by blast
  then show ?thesis
  proof cases
    case 1
    then show ?thesis
      using slab_extent(3) [OF parts(1)] assms(4) by simp
  next
    case 3
    then show ?thesis
      using os_extent(2) [OF parts(3)] assms(4) by simp
  next
    case 4
    then show ?thesis
      using s [of h] t [of h'] o [of h'] by blast
  next
    case 5
    then show ?thesis
      using s [of h'] t [of h] o [of h] by blast
  next
    case 6
    then show ?thesis
      using t [of h] o [of h'] ro by blast
  next
    case 7
    then show ?thesis
      using t [of h'] o [of h] ro by blast
  qed (rule tt)
qed

section \<open>What was asked for\<close>

lemma block_fits:
  assumes "tiers p H" "h \<in> H"
  shows "{h ..< h + block_need (pool_flags p) (header_at p h)} \<subseteq> block_extent p h"
proof -
  obtain Hs T where parts: "slab_part p Hs" "tlsf_part p T" "os_part p" and H: "H = Hs \<union> tlsf_held T \<union> os_held p"
    using assms(1) by (auto simp: tiers_def)
  consider "h \<in> Hs" | b where "b \<in> T" "h = b + sizeof_tlsf_block" | "h \<in> os_held p"
    using assms(2) by (auto simp: H tlsf_held_def)
  then show ?thesis
  proof cases
    case 1
    have "block_need (pool_flags p) (shdr (slab p) h) \<le> slot_bytes (slab p) h"
      using parts(1) 1 by (simp add: slab_part_def slot_fits_def block_need_def slot_bytes_def canary_len_def)
    then show ?thesis
      using slab_part_area(4) [OF parts(1) 1] slab_extent(1) [OF parts(1) 1] by simp
  next
    case 2
    let ?hd = "hdrs (tlsf p) h"
    obtain Ls E where L: "chain_wf (tlsf_root (tlsf p)) Ls" "fst ` chain_live (tlsf_root (tlsf p)) Ls = T \<union> cached E"
      "tlsf_fit (pool_flags p) (hdrs (tlsf p)) T (chain_live (tlsf_root (tlsf p)) Ls)"
      using parts(2) by (auto simp: tlsf_part_def)
    obtain n where n: "(b, n) \<in> chain_live (tlsf_root (tlsf p)) Ls" "block_extent p h = {b ..< b + n}"
      unfolding 2(2) by (rule tlsf_extent_live [OF parts(2) 2(1) L(1,2)])
    have "sizeof_tlsf_block + block_need (pool_flags p) ?hd \<le> n"
      using L(3) n 2 by (auto simp: tlsf_fit_def)
    then show ?thesis
      using tlsf_part_area(4) [OF parts(2) 2(1)] 2(2) n(2) by auto
  next
    case 3
    obtain n where n: "(h, n) \<in> set (os_ranges p)" "block_extent p h = span (h, n)" "block_need (pool_flags p) (ohdr p h) \<le> n"
      using os_extent_range [OF parts(3) 3] by blast
    then show ?thesis
      using os_part_area(4) [OF parts(3) 3] by (simp add: span_def)
  qed
qed

end
