(* ===== verification/Pool_Bytes.thy ===== *)
theory Pool_Bytes
  imports Pool_Extent
begin

text \<open>
  What the entry points write to the contents of blocks: a request writes only the block it hands out, a release
  only the block it takes back.  With the extents of the blocks apart, the contents of every other block survive.
\<close>

section \<open>Slab tier\<close>

lemma map_option_SomeE:
  assumes "map_option f x = Some y"
  obtains z where "x = Some z" "y = f z"
  using assms by auto

lemma smem_links [simp]: "smem (push_page k q st) = smem st" "smem (pop_first_page k q st) = smem st" "smem (unlink_page k q st) = smem st"
  "smem (upd_page q f st) = smem st" "smem (set_slot_next s v st) = smem st"
  by (simp_all add: push_page_def pop_first_page_def unlink_page_def upd_page_def set_slot_next_def set_pg_next_def set_pg_prev_def
      set_page_head_def Let_def)

lemma smem_stats [simp]: "smem (add_allocated n st) = smem st" "smem (sub_allocated n st) = smem st" "smem (restamp c s st) = smem st"
  by (simp_all add: add_allocated_def sub_allocated_def restamp_def)

lemma smem_create_page: "slab_create_page st c = (st', q) \<Longrightarrow> smem st' = smem st"
proof -
  have "smem (fold (link_slot a b n) xs st) = smem st" for a b n xs st
    by (induction xs arbitrary: st) (simp_all add: link_slot_def)
  then show "slab_create_page st c = (st', q) \<Longrightarrow> smem st' = smem st"
    by (auto simp: slab_create_page_def Let_def split: list.splits if_splits)
qed

lemma smem_take_page: "slab_take_page st c = (st', q) \<Longrightarrow> smem st' = smem st"
  by (auto simp: slab_take_page_def Let_def dest: smem_create_page split: if_splits prod.splits)

lemma smem_pop_slot: "slab_pop_slot st c q = (st', s) \<Longrightarrow> smem st' = smem st"
  by (auto simp: slab_pop_slot_def Let_def split: if_splits)

lemma smem_tls [simp]: "smem (tls_push t c s st) = smem st" "smem (tls_cache_validate_owner st t) = smem st"
  by (simp_all add: tls_push_def tls_cache_validate_owner_def Let_def)

lemma smem_tls_pop: "tls_pop t c st = (st', s) \<Longrightarrow> smem st' = smem st"
  by (auto simp: tls_pop_def Let_def)

lemma smem_drain: "drain_loop n t c st = (st', got) \<Longrightarrow> smem st' = smem st"
proof (induction n arbitrary: st st' got)
  case (Suc n)
  obtain st1 q where 1: "slab_take_page st c = (st1, q)"
    by fastforce
  show ?case
  proof (cases "q = 0")
    case True
    then show ?thesis
      using Suc.prems 1 smem_take_page [OF 1] by auto
  next
    case False
    obtain st2 s where 2: "slab_pop_slot st1 c q = (st2, s)"
      by fastforce
    obtain st3 g where 3: "drain_loop n t c (tls_push t c s st2) = (st3, g)"
      by fastforce
    have "st' = st3"
      using Suc.prems 1 2 3 False by simp
    then show ?thesis
      using Suc.IH [OF 3] smem_take_page [OF 1] smem_pop_slot [OF 2] by simp
  qed
qed simp

lemma smem_refill: "slab_alloc_with_tls_refill st t c = (st', s) \<Longrightarrow> smem st' = smem st"
proof -
  assume a: "slab_alloc_with_tls_refill st t c = (st', s)"
  obtain st1 got where d: "drain_loop 64 t c st = (st1, got)"
    by fastforce
  let ?st1 = "fst (tls_cache_drain_slots st t c 64)"
  have 1: "smem ?st1 = smem st"
    using smem_drain [OF d] by (simp add: tls_cache_drain_slots_def d)
  have "smem st3 = smem st2" if "refill_direct st2 c = (st3, s3)" for st2 st3 s3
    using that by (auto simp: refill_direct_def Let_def dest!: smem_create_page smem_pop_slot split: if_splits prod.splits)
  then show ?thesis
    using a 1 by (auto simp: slab_alloc_with_tls_refill_def Let_def dest!: smem_tls_pop split: if_splits prod.splits)
qed

lemma smem_take_slots: "take_slots n st c = (st', ss) \<Longrightarrow> smem st' = smem st"
proof (induction n arbitrary: st st' ss)
  case (Suc n)
  then show ?case
    using smem_take_page smem_pop_slot by (auto simp: Let_def split: if_splits prod.splits)
qed simp

lemma smem_chain_slots [simp]: "smem (chain_slots ss q st) = smem st"
  by (induction ss q st rule: chain_slots.induct) simp_all

lemma smem_percpu_refill [simp]: "smem (percpu_refill st k c) = smem st"
  using smem_take_slots [of MP_PERCPU_MAX_BATCH st c]
  by (auto simp: percpu_refill_def slab_alloc_batch_def Let_def split: option.splits list.splits prod.splits)

lemma smem_percpu: "percpu_pop cas st k c = (st', s) \<Longrightarrow> smem st' = smem st" "percpu_push st k c x = (st', ok) \<Longrightarrow> smem st' = smem st"
  by (auto simp: percpu_pop_def percpu_push_def Let_def split: option.splits if_splits)

lemma smem_tier_slot:
  assumes "tier_slot x y st t k c = (st', s)"
  shows "smem st' = smem st"
proof -
  obtain st1 s1 where 1: "(if 0 < tcounts (tls st t) c then tls_pop t c st
         else if percpu_heads st \<noteq> None
         then let (st, slot) = percpu_pop x st k c
              in if slot = 0 then percpu_pop y (percpu_refill st k c) k c else (st, slot)
         else (st, 0)) = (st1, s1)"
    by fastforce
  have "smem st1 = smem st"
    using 1 by (auto simp: Let_def dest!: smem_percpu smem_tls_pop split: if_splits prod.splits)
  then show ?thesis
    using assms 1 smem_refill [of st1 t c] unfolding tier_slot_def by (auto split: if_splits)
qed

lemma smem_nolock: "slab_free_nolock st slot = (st', x) \<Longrightarrow> smem st' = smem st"
  by (auto simp: slab_free_nolock_def Let_def split: if_splits)

lemma smem_transitions [simp]: "smem (slab_transitions c slot x st) = smem st"
  by (cases x) (simp add: slab_transitions_def Let_def)

lemma smem_slab_free [simp]: "smem (slab_free st h) = smem st"
  using smem_nolock by (auto simp: slab_free_def Let_def split: prod.splits)

lemma smem_harvest: "harvest_loop c slot st = Some st' \<Longrightarrow> smem st' = smem st"
proof (erule harvest_loop.raw_induct [where P = "\<lambda>_ _ st st'. smem st' = smem st", rotated])
  fix loop :: "nat \<Rightarrow> addr \<Rightarrow> slab_pool \<Rightarrow> slab_pool option" and c slot st st'
  assume IH: "\<And>c slot st st'. loop c slot st = Some st' \<Longrightarrow> smem st' = smem st"
    and r: "(if slot = 0 \<or> bad_slot slot then Some st
      else let nxt = slot_next st slot; st = restamp c slot st; (st, trans) = slab_free_nolock st slot; st = slab_transitions c slot trans st
           in loop c nxt (sub_allocated (slot_sizes st ! c) st)) = Some st'"
  show "smem st' = smem st"
  proof (cases "slot = 0 \<or> bad_slot slot")
    case True
    then show ?thesis
      using r by simp
  next
    case False
    obtain st1 x where n: "slab_free_nolock (restamp c slot st) slot = (st1, x)"
      by (rule prod.exhaust)
    then have "loop c (slot_next st slot) (sub_allocated (slot_sizes (slab_transitions c slot x st1) ! c) (slab_transitions c slot x st1)) = Some st'"
      using r False by (simp add: Let_def)
    from IH [OF this] show ?thesis
      using smem_nolock [OF n] by simp
  qed
qed

lemma smem_harvest_classes: "harvest_classes cs st = Some st' \<Longrightarrow> smem st' = smem st"
proof (induction cs arbitrary: st)
  case (Cons c cs)
  then obtain st1 where 1: "remote_free_harvest st c = Some st1" "harvest_classes cs st1 = Some st'"
    by (auto simp: Option.bind_eq_Some_conv)
  have "smem st1 = smem st"
    using 1(1) smem_harvest by (fastforce simp: remote_free_harvest_def Let_def split: if_splits)
  then show ?case
    using Cons.IH [OF 1(2)] by simp
qed simp

text \<open>How a block of \<open>n\<close> bytes at \<open>a\<close> is handed out: the canary behind it, and cleared when the flags ask for it.\<close>

definition formatted :: "nat \<Rightarrow> addr \<Rightarrow> nat \<Rightarrow> (addr \<Rightarrow> nat) \<Rightarrow> bool" where
  "formatted f a n m \<longleftrightarrow> (has_flag f MP_FLAG_DEBUG_CANARY \<longrightarrow> m (a + n) = MP_CANARY_BYTE)
     \<and> (has_flag f MP_FLAG_ZERO_ON_ALLOC \<longrightarrow> (\<forall>x \<in> {a ..< a + n}. m x = 0))"

lemma smem_tier_alloc:
  assumes "slab_tier_alloc x y slf st t k c req = Some (st', a)" "z \<notin> (if a = 0 then {} else {a ..< a + req + canary_len (sflags st')})"
  shows "smem st' z = smem st z"
    "a \<noteq> 0 \<Longrightarrow> formatted (sflags st') a req (smem st')"
proof -
  let ?st = "tls_cache_validate_owner st t"
  obtain st1 where h: "(if has_flag (sflags ?st) MP_FLAG_THREAD_SAFE \<and> remote_free_pending ?st then remote_free_harvest_all ?st else Some ?st) = Some st1"
    and r: "(st', a) = (let (st, slot) = tier_slot x y st1 t k c
           in if slot = 0 then (st, 0)
              else let payload = slot + sizeof_mp_block_header
                   in (stamp_payload payload req (stamp_slab_header slf slot c req st), payload))"
    using assms(1) unfolding slab_tier_alloc_def Let_def [of "tls_cache_validate_owner st t"] by (rule map_option_SomeE)
  have 1: "smem st1 = smem st"
    using h smem_harvest_classes by (fastforce simp: remote_free_harvest_all_def split: if_splits)
  obtain st2 s where 2: "tier_slot x y st1 t k c = (st2, s)"
    by fastforce
  have m: "smem st2 = smem st"
    using smem_tier_slot [OF 2] 1 by simp
  let ?q = "stamp_slab_header slf s c req st2"
  have q: "smem ?q = smem st2" "sflags ?q = sflags st2"
    by (simp_all add: stamp_slab_header_def Let_def)
  show "smem st' z = smem st z"
    using r assms(2) by (auto simp: 2 m q stamp_payload_def Let_def memset_def canary_len_def split: if_splits)
  show "formatted (sflags st') a req (smem st')" if "a \<noteq> 0"
    using r that by (auto simp: formatted_def 2 m q stamp_payload_def Let_def memset_def split: if_splits)
qed

lemma smem_place_slot [simp]: "smem (place_slot st t k s) = smem st"
proof -
  have "smem (remote_free_push st' c s') = smem st'" for st' c s'
    by (simp add: remote_free_push_def Let_def)
  then show ?thesis
    using smem_percpu(2) [of st k] by (auto simp: place_slot_def Let_def split: prod.splits)
qed

section \<open>TLSF tier\<close>

text \<open>The bytes a request for \<open>n\<close> bytes that was answered with \<open>a\<close> may write.\<close>

definition payload_bytes :: "nat \<Rightarrow> addr \<Rightarrow> nat \<Rightarrow> addr set" where
  "payload_bytes f a n = (if a = 0 then {} else {a ..< a + n + canary_len f})"

lemma bytes_stamp:
  assumes "tlsf_stamp q b t req n = (st', a)"
  shows "z \<notin> payload_bytes (pflags q) a req \<Longrightarrow> bytes st' z = bytes q z"
    "formatted (pflags q) a req (bytes st')"
proof -
  define m where "m = (if has_flag (pflags q) MP_FLAG_DEBUG_CANARY then (bytes q)(a + req := MP_CANARY_BYTE) else bytes q)"
  have a: "a = b + sizeof_tlsf_block + sizeof_mp_block_header"
    using arg_cong [OF assms, of snd] by (simp add: tlsf_stamp_def Let_def)
  have s: "bytes (fst (tlsf_stamp q b t req n)) = (if has_flag (pflags q) MP_FLAG_ZERO_ON_ALLOC then memset a 0 req m else m)"
    by (simp add: tlsf_stamp_def Let_def m_def a)
  have m': "bytes st' = (if has_flag (pflags q) MP_FLAG_ZERO_ON_ALLOC then memset a 0 req m else m)"
    using s by (simp add: assms)
  have "a \<noteq> 0"
    by (simp add: a sizeof_mp_block_header_def)
  then show "z \<notin> payload_bytes (pflags q) a req \<Longrightarrow> bytes st' z = bytes q z"
    by (cases "has_flag (pflags q) MP_FLAG_DEBUG_CANARY") (auto simp: m' m_def memset_def payload_bytes_def canary_len_def)
  show "formatted (pflags q) a req (bytes st')"
    by (simp add: formatted_def m' m_def memset_def)
qed

lemma bytes_alloc:
  assumes "tlsf_alloc m0 os1 os2 st req = (st', a)"
  shows "z \<notin> payload_bytes (pflags st) a req \<Longrightarrow> bytes st' z = bytes st z"
    "a \<noteq> 0 \<Longrightarrow> formatted (pflags st) a req (bytes st')"
proof -
  have e: "bytes st1 = bytes st \<and> pflags st1 = pflags st" if "tlsf_ensure_root m0 os1 st = Some st1" for st1
    using that by (auto simp: tlsf_ensure_root_def split: if_splits option.splits)
  have c: "st' = st \<and> a = 0 \<or> (\<exists>st1. tlsf_ensure_root m0 os1 st = Some st1 \<and> (bytes st' = bytes st1 \<and> a = 0
      \<or> (\<exists>q b t n. bytes q = bytes st1 \<and> pflags q = pflags st1 \<and> tlsf_stamp q b t req n = (st', a))))"
  proof (cases "tlsf_ensure_root m0 os1 st")
    case None
    then show ?thesis
      using assms by (simp add: tlsf_alloc_def Let_def)
  next
    case (Some st1)
    note r = assms [unfolded tlsf_alloc_def Let_def Some option.case]
    show ?thesis
    proof (cases "tlsf_walk (tlsf_root st1) (tlsf_total_needed (pflags st) req)")
      case (Some w)
      then obtain ts b t where "w = (ts, b, t)"
        using prod_cases3 by blast
      then have "tlsf_stamp (st1\<lparr>tlsf_root := ts\<rparr>) b t req (tlsf_total_needed (pflags st) req) = (st', a)"
        using r Some by simp
      then show ?thesis
        using \<open>tlsf_ensure_root m0 os1 st = Some st1\<close> by (intro disjI2 exI [of _ st1] conjI disjI2 exI [of _ "st1\<lparr>tlsf_root := ts\<rparr>"] exI [of _ b] exI [of _ t] exI) simp_all
    next
      case None
      show ?thesis
        using r None \<open>tlsf_ensure_root m0 os1 st = Some st1\<close>
        by (auto split: if_splits option.splits)
    qed
  qed
  show "bytes st' z = bytes st z" if "z \<notin> payload_bytes (pflags st) a req"
    using c e that bytes_stamp(1) by metis
  show "formatted (pflags st) a req (bytes st')" if "a \<noteq> 0"
    using c e that bytes_stamp(2) by metis
qed

section \<open>The contents of a pool\<close>

definition pool_bytes :: "memory_pool \<Rightarrow> _" where
  "pool_bytes p = (smem (slab p), bytes (tlsf p), omem p)"

fun store :: "area \<Rightarrow> memory_pool \<Rightarrow> addr \<Rightarrow> nat" where
  "store SlabArea p = smem (slab p)"
| "store TlsfArea p = bytes (tlsf p)"
| "store OsArea p = omem p"

lemma byte_at_store: "byte_at p a = store (area_of p a) p a"
  by (simp add: byte_at_def split: area.splits)

text \<open>Nothing was written outside of \<open>X\<close>.\<close>

definition wrote :: "addr set \<Rightarrow> memory_pool \<Rightarrow> memory_pool \<Rightarrow> bool" where
  "wrote X p p' \<longleftrightarrow> (\<forall>a ar. a \<notin> X \<longrightarrow> store ar p' a = store ar p a)"

lemma wroteI:
  assumes "\<And>a. a \<notin> X \<Longrightarrow> smem (slab p') a = smem (slab p) a" "\<And>a. a \<notin> X \<Longrightarrow> bytes (tlsf p') a = bytes (tlsf p) a"
    "\<And>a. a \<notin> X \<Longrightarrow> omem p' a = omem p a"
  shows "wrote X p p'"
proof -
  have "store ar p' a = store ar p a" if "a \<notin> X" for a ar
    using that assms by (cases ar) simp_all
  then show ?thesis
    by (simp add: wrote_def)
qed

lemma store_cong: "pool_bytes p' = pool_bytes p \<Longrightarrow> store ar p' = store ar p"
  by (cases ar) (simp_all add: pool_bytes_def)

lemma wrote_refl: "wrote X p p"
  by (simp add: wrote_def)

lemma wrote_cong:
  assumes "wrote X p q" "pool_bytes p' = pool_bytes p" "pool_bytes q' = pool_bytes q"
  shows "wrote X p' q'"
  using assms by (simp add: wrote_def store_cong [OF assms(2)] store_cong [OF assms(3)])

lemma wrote_trans: "wrote X p q \<Longrightarrow> wrote Y q r \<Longrightarrow> wrote (X \<union> Y) p r"
  by (simp add: wrote_def)

lemma wrote_mono: "wrote X p q \<Longrightarrow> X \<subseteq> Y \<Longrightarrow> wrote Y p q"
  unfolding wrote_def by blast

lemma bytes_updates [simp]:
  "pool_bytes (trigger_event p ev a n) = pool_bytes p" "pool_bytes (call_recovery p) = pool_bytes p"
  "pool_bytes (set_act_next x v p) = pool_bytes p" "pool_bytes (set_act_prev x v p) = pool_bytes p" "pool_bytes (p\<lparr>act_head := v\<rparr>) = pool_bytes p"
  "pool_bytes (count_size n p) = pool_bytes p" "pool_bytes (mp_free_stats_no_lock p h) = pool_bytes p" "pool_bytes (charge_quota t n p) = pool_bytes p"
  "pool_bytes (count_alloc n p) = pool_bytes p"
  by (simp_all add: pool_bytes_def trigger_event_def call_recovery_def set_act_next_def set_act_prev_def count_size_def
      mp_free_stats_no_lock_def charge_quota_def count_alloc_def Let_def)

lemma bytes_writes [simp]:
  "pool_bytes (check_watermark_after_change p) = pool_bytes p" "pool_bytes (put_header h x p) = pool_bytes p"
  "pool_bytes (validate_owner p t) = pool_bytes p"
  by (simp_all add: pool_bytes_def check_watermark_after_change_def put_header_def validate_owner_def Let_def split: prod.splits area.splits)

lemma bytes_dirty [simp]: "pool_bytes (mp_mark_pool_dirty p) = pool_bytes p"
  unfolding mp_mark_pool_dirty_def bytes_updates by (simp add: pool_bytes_def)

lemma bytes_list [simp]: "pool_bytes (active_list_add p h) = pool_bytes p" "pool_bytes (active_list_remove p h) = pool_bytes p"
  by (simp_all add: active_list_add_def active_list_remove_def Let_def if_distrib [of pool_bytes] cong: if_weak_cong)

lemma bytes_free_stats [simp]:
  "pool_bytes (mp_free_stats_update p h) = pool_bytes p" "pool_bytes (free_stats_cached p h b) = pool_bytes p" "pool_bytes (free_stats_tls p h b) = pool_bytes p"
proof -
  show 1: "pool_bytes (mp_free_stats_update p h) = pool_bytes p"
    by (simp add: mp_free_stats_update_def Let_def)
  show 2: "pool_bytes (free_stats_cached p h b) = pool_bytes p"
    by (simp add: free_stats_cached_def Let_def 1)
  show "pool_bytes (free_stats_tls p h b) = pool_bytes p"
    unfolding free_stats_tls_def by (simp add: 2, simp add: pool_bytes_def)
qed

lemma bytes_account [simp]: "pool_bytes (account a n p) = pool_bytes p"
  by (simp add: account_def Let_def)

lemma bytes_canary [simp]: "pool_bytes (mp_verify_free_canary p a) = pool_bytes p"
  by (simp add: mp_verify_free_canary_def Let_def)

lemma bytes_tlsf_cache [simp]: "pool_bytes (on_region t f p) = pool_bytes p" "pool_bytes (tlsf_cache_push t' i b a p) = pool_bytes p"
  by (simp_all add: pool_bytes_def on_region_def tlsf_cache_push_def Let_def)

lemma flags_on_bytes [simp]: "pool_flags (on_bytes h f p) = pool_flags p"
  by (simp add: on_bytes_def split: area.splits)

lemma area_on_bytes [simp]: "area_of (on_bytes h f p) = area_of p"
proof
  fix x
  have "os_ranges (on_bytes h f p) = os_ranges p" "tlsf_root (tlsf (on_bytes h f p)) = tlsf_root (tlsf p)"
    by (simp_all add: on_bytes_def os_ranges_def split: area.splits)
  then show "area_of (on_bytes h f p) x = area_of p x"
    by (simp add: area_of_def)
qed

lemma byte_at_on_bytes: "byte_at (on_bytes h f p) x = (if area_of p x = area_of p h then f (store (area_of p h) p) x else byte_at p x)"
proof -
  have "store ar (on_bytes h f p) = (if ar = area_of p h then f (store ar p) else store ar p)" for ar
    by (cases ar; cases "area_of p h") (simp_all add: on_bytes_def)
  then show ?thesis
    by (simp add: byte_at_store)
qed

lemma wrote_on_bytes:
  assumes "\<And>m z. z \<notin> X \<Longrightarrow> f m z = m z"
  shows "wrote X p (on_bytes h f p)"
  using assms by (intro wroteI) (simp_all add: on_bytes_def split: area.splits)

section \<open>Requests\<close>

text \<open>A request for \<open>n\<close> bytes wrote only the block it handed out, and formatted it.\<close>

definition fills :: "area \<Rightarrow> memory_pool \<Rightarrow> nat \<Rightarrow> memory_pool \<Rightarrow> addr \<Rightarrow> bool" where
  "fills ar p n p' a \<longleftrightarrow> wrote (payload_bytes (pool_flags p) a n) p p'
     \<and> (a \<noteq> 0 \<longrightarrow> formatted (pool_flags p) a n (store ar p'))"

lemma fills_cong:
  assumes "fills ar p n p' a" "pool_bytes q = pool_bytes p" "pool_bytes q' = pool_bytes p'" "pool_flags q = pool_flags p"
  shows "fills ar q n q' a"
  using assms(1) wrote_cong [OF _ assms(2,3)] by (simp add: fills_def assms(4) store_cong [OF assms(3)])

lemma fills_nothing: "pool_bytes p' = pool_bytes p \<Longrightarrow> fills ar p n p' 0"
  using wrote_cong [OF wrote_refl refl] by (simp add: fills_def)

lemma slab_request_fills:
  assumes "slab_request env p n = Some (p', a)" "sflags (slab p') = pool_flags p"
  shows "fills SlabArea p n p' a"
proof -
  define q where "q = validate_owner p (thread env)"
  let ?v = "(slab_view q)\<lparr>maps := mmaps env\<rparr>"
  have b: "pool_bytes q = pool_bytes p" "pool_flags q = pool_flags p"
    by (simp_all add: q_def, simp add: validate_owner_def)
  obtain z where z: "slab_tier_alloc (cas1 env) (cas2 env) (self q) ?v (thread env) (cpu env) (get_slab_class_index (classes q) n) n = Some z"
    "(p', a) = (\<lambda>(st, a). (put_slab st q, a)) z"
    using assms(1) unfolding slab_request_def Let_def q_def [symmetric] by (rule map_option_SomeE)
  obtain st where st: "slab_tier_alloc (cas1 env) (cas2 env) (self q) ?v (thread env) (cpu env) (get_slab_class_index (classes q) n) n = Some (st, a)"
    "p' = put_slab st q"
    using z by (cases z) simp
  have f: "sflags st = pool_flags p"
    using assms(2) by (simp add: st(2) put_slab_def)
  note M = smem_tier_alloc [OF st(1), unfolded f]
  have "wrote (payload_bytes (pool_flags p) a n) q p'"
    using M(1) by (intro wroteI) (auto simp: st(2) put_slab_def slab_view_def payload_bytes_def)
  moreover have "formatted (pool_flags p) a n (smem st)" if "a \<noteq> 0"
    using M(2) [of "a + n + 1"] that by (simp add: canary_len_def)
  ultimately have "fills SlabArea q n p' a"
    using b(2) by (simp add: fills_def st(2) put_slab_def)
  then show ?thesis
    by (rule fills_cong) (simp_all add: b)
qed

lemma tlsf_shared_fills:
  assumes "tlsf_shared env p n = (p', a)"
  shows "fills TlsfArea p n p' a"
proof -
  obtain st where st: "tlsf_alloc (fresh_mem env) (os_init env) (os_expand env) (tlsf_view p) n = (st, a)" "p' = put_tlsf st p"
    using assms by (auto simp: tlsf_shared_def split: prod.splits)
  have v: "pflags (tlsf_view p) = pool_flags p" "bytes (tlsf_view p) = bytes (tlsf p)"
    by (simp_all add: tlsf_view_def)
  note B = bytes_alloc [OF st(1), unfolded v]
  have "wrote (payload_bytes (pool_flags p) a n) p p'"
    using B(1) by (intro wroteI) (simp_all add: st(2) put_tlsf_def)
  then show ?thesis
    using B(2) by (simp add: fills_def st(2) put_tlsf_def)
qed

lemma cache_hit_fills:
  assumes "cache_hit b t n m p = (p', a)"
  shows "fills TlsfArea p n p' a"
proof -
  define q where "q = on_region t (\<lambda>r. set_size_and_flags b (m OR (word_of r b AND BLOCK_STATE_PREV_FREE)) r) p"
  let ?h = "b + sizeof_tlsf_block"
  obtain st where st: "tlsf_stamp (tlsf_view q) b t n m = (st, a)"
    "p' = put_tlsf (st\<lparr>hdrs := (hdrs st)(?h := (hdrs st ?h)\<lparr>hflags := MP_BLOCK_FLAG_COUNTED\<rparr>)\<rparr>) q"
    using assms by (auto simp: cache_hit_def q_def Let_def split: prod.splits)
  have v: "pflags (tlsf_view q) = pool_flags p" "bytes (tlsf_view q) = bytes (tlsf p)"
    by (simp_all add: tlsf_view_def q_def on_region_def)
  note B = bytes_stamp [OF st(1), unfolded v]
  have "wrote (payload_bytes (pool_flags p) a n) p p'"
    using B(1) by (intro wroteI) (simp_all add: st(2) put_tlsf_def q_def on_region_def)
  then show ?thesis
    using B(2) by (simp add: fills_def st(2) put_tlsf_def)
qed

lemma tlsf_request_fills:
  assumes "tlsf_request env p n = Some (p', a)"
  shows "fills TlsfArea p n p' a"
proof -
  define q where "q = validate_owner p (thread env)"
  have same: "pool_bytes q = pool_bytes p" "pool_flags q = pool_flags p"
    by (simp_all add: q_def, simp add: validate_owner_def)
  have pop: "pool_bytes r = pool_bytes q \<and> pool_flags r = pool_flags q" if "tlsf_cache_pop t i q = (r, x, y)" for t i r x y
    using that by (auto simp: tlsf_cache_pop_def Let_def pool_bytes_def)
  have ret: "pool_bytes (cache_return x y r) = pool_bytes r" "pool_flags (cache_return x y r) = pool_flags r" for x y r
    by (simp_all add: cache_return_def, simp add: on_region_def)
  have "fills TlsfArea q n p' a"
  proof (cases "tlsf_shared env q n = (p', a)")
    case True
    then show ?thesis
      by (rule tlsf_shared_fills)
  next
    case False
    obtain i r x y where r: "tlsf_cache_pop (thread env) i q = (r, x, y)"
      and c: "tlsf_shared env (cache_return x y r) n = (p', a) \<or> (\<exists>m. cache_hit x y n m r = (p', a))"
      using assms False unfolding tlsf_request_def Let_def q_def [symmetric]
      by (auto split: option.splits if_splits prod.splits) blast+
    have "fills TlsfArea r n p' a"
      using c fills_cong [OF tlsf_shared_fills _ refl] ret cache_hit_fills by metis
    then show ?thesis
      by (rule fills_cong) (use pop [OF r] in simp_all)
  qed
  then show ?thesis
    by (rule fills_cong) (simp_all add: same)
qed

lemma omem_payload:
  "z \<notin> {a ..< a + n + canary_len (pool_flags p)} \<Longrightarrow> omem (os_payload a n p) z = omem p z"
  "formatted (pool_flags p) a n (omem (os_payload a n p))"
  "slab (os_payload a n p) = slab p" "tlsf (os_payload a n p) = tlsf p"
  by (auto simp: formatted_def os_payload_def Let_def memset_def canary_len_def)

lemma os_request_fills:
  assumes "os_request env p n = (p', a)"
  shows "fills OsArea p n p' a"
proof (cases "os_block env = 0")
  case True
  then show ?thesis
    using assms by (auto simp: os_request_def intro: fills_nothing)
next
  case False
  have "\<exists>H B u v. os_request env p n = ((os_payload (os_block env + sizeof_mp_block_header) n (p\<lparr>ohdr := H, os_blocks := B\<rparr>))
      \<lparr>os_allocated_bytes := u, resident_size := v\<rparr>, os_block env + sizeof_mp_block_header)"
    unfolding os_request_def Let_def if_not_P [OF False] by (intro exI) (rule refl)
  then obtain H B u v where e: "(p', a) = ((os_payload (os_block env + sizeof_mp_block_header) n (p\<lparr>ohdr := H, os_blocks := B\<rparr>))
      \<lparr>os_allocated_bytes := u, resident_size := v\<rparr>, os_block env + sizeof_mp_block_header)"
    unfolding assms by blast
  define q where "q = p\<lparr>ohdr := H, os_blocks := B\<rparr>"
  have a: "a = os_block env + sizeof_mp_block_header" and p': "pool_bytes p' = pool_bytes (os_payload a n q)"
    and q: "pool_bytes q = pool_bytes p" "pool_flags q = pool_flags p"
    using e by (simp_all add: q_def pool_bytes_def)
  have "fills OsArea q n (os_payload a n q) a"
    using omem_payload [where a = a and n = n and p = q] by (auto simp: fills_def payload_bytes_def a sizeof_mp_block_header_def intro!: wroteI)
  then show ?thesis
    by (rule fills_cong) (simp_all add: q p')
qed

lemma dispatch_fills:
  assumes t: "tiers p H" and env: "env_ok env p n" and n: "request_ok p n" "n \<noteq> 0" and r: "dispatch env p n = Some (p', a)"
  shows "fills (tier_of p n) p n p' a"
proof -
  let ?s = "has_flag (pool_flags p) MP_FLAG_STATIC_BUFFER"
  consider "\<not> ?s" "n \<le> SLAB_MAX_SIZE" | "\<not> (\<not> ?s \<and> n \<le> SLAB_MAX_SIZE)" "n \<le> TLSF_MAX_SIZE \<or> ?s"
    | "\<not> (\<not> ?s \<and> n \<le> SLAB_MAX_SIZE)" "\<not> (n \<le> TLSF_MAX_SIZE \<or> ?s)"
    by blast
  then show ?thesis
  proof cases
    case 1
    have "tiers p' H \<or> (\<exists>h. tiers p' (insert h H))" "mem_only p p'"
      using dispatch_step [OF t env n] r by (auto simp: answer_def split: if_splits)
    then have "sflags (slab p') = pool_flags p"
      using mem_only_same(1) [of p p'] by (auto simp: tiers_def slab_part_def)
    then show ?thesis
      using r 1 slab_request_fills by (simp add: dispatch_def tier_of_def)
  next
    case 2
    then have "tlsf_request env p n = Some (p', a)" "tier_of p n = TlsfArea"
      using r by (auto simp: dispatch_def tier_of_def)
    then show ?thesis
      using tlsf_request_fills by simp
  next
    case 3
    then have "os_request env p n = (p', a)" "tier_of p n = OsArea"
      using r by (auto simp: dispatch_def tier_of_def)
    then show ?thesis
      using os_request_fills by simp
  qed
qed

lemma emergency_fills:
  assumes "emergency_buf p \<noteq> 0"
  shows "fills OsArea p n (fst (alloc_emergency p n)) (snd (alloc_emergency p n))"
proof -
  let ?a = "emergency_buf p + sizeof_mp_block_header"
  have "\<exists>q. pool_bytes q = pool_bytes p \<and> pool_flags q = pool_flags p \<and> pool_bytes (batch_format_emergency p n) = pool_bytes (os_payload ?a n q)"
    by (intro exI conjI) (simp_all add: batch_format_emergency_def Let_def pool_bytes_def set_act_next_def set_act_prev_def)
  then obtain q where q: "pool_bytes q = pool_bytes p" "pool_flags q = pool_flags p"
    and b: "pool_bytes (batch_format_emergency p n) = pool_bytes (os_payload ?a n q)"
    by blast
  have "pool_bytes (fst (alloc_emergency p n)) = pool_bytes (os_payload ?a n q)" "snd (alloc_emergency p n) = ?a"
    using b by (simp_all add: alloc_emergency_def Let_def)
  moreover have "fills OsArea q n (os_payload ?a n q) ?a"
    using omem_payload [where a = ?a and n = n and p = q] by (auto simp: fills_def payload_bytes_def sizeof_mp_block_header_def intro!: wroteI)
  ultimately show ?thesis
    using fills_cong [of OsArea q n "os_payload ?a n q" ?a p] q by simp
qed

section \<open>Whole calls\<close>

text \<open>The bytes between the header of a held block and the end of what was asked for are in the memory of its tier.\<close>

lemma payload_area:
  assumes t: "tiers p H" "h \<in> H" and x: "x \<in> {h ..< h + block_need (pool_flags p) (header_at p h)}"
  shows "area_of p x = area_of p h"
proof -
  obtain Hs T where parts: "slab_part p Hs" "tlsf_part p T" "os_part p" and H: "H = Hs \<union> tlsf_held T \<union> os_held p"
    using t(1) by (auto simp: tiers_def)
  have e: "x \<in> block_extent p h"
    using block_fits [OF t] x by blast
  consider "h \<in> Hs" | b where "b \<in> T" "h = b + sizeof_tlsf_block" | "h \<in> os_held p"
    using t(2) by (auto simp: H tlsf_held_def)
  then show ?thesis
  proof cases
    case 1
    then show ?thesis
      using slab_extent(2) [OF parts(1) 1 e] slab_part_area(3) [OF parts(1) 1] by (simp add: area_of_eq)
  next
    case 2
    then have "x \<in> regions p"
      using tlsf_extent(1) [OF parts(2) 2(1)] e by auto
    then show ?thesis
      using tlsf_part_area(3) [OF parts(2) 2(1)] 2(2) by (simp add: area_of_eq)
  next
    case 3
    then have "x \<in> os_mem p" "os_mem p \<inter> regions p = {}"
      using os_extent(1) [OF parts(3) 3] e parts(3) by (auto simp: os_part_def)
    then show ?thesis
      using os_part_area(3) [OF parts(3) 3] by (auto simp: area_of_eq)
  qed
qed

text \<open>The tier of a held block is what its header says.\<close>

lemma held_area:
  assumes "tiers p H" "h \<in> H"
  shows "area_of p h = (if alloc_type (header_at p h) = ALLOC_TYPE_SLAB then SlabArea
     else if alloc_type (header_at p h) = ALLOC_TYPE_TLSF then TlsfArea else OsArea)"
proof -
  obtain Hs T where parts: "slab_part p Hs" "tlsf_part p T" "os_part p" and H: "H = Hs \<union> tlsf_held T \<union> os_held p"
    using assms(1) by (auto simp: tiers_def)
  note ty = held_types [OF parts]
  consider "h \<in> Hs" | b where "b \<in> T" "h = b + sizeof_tlsf_block" | k where "(h, k) \<in> set (os_blocks p)"
    | "emergency_used p" "h = emergency_buf p"
    using assms(2) by (auto simp: H tlsf_held_def os_held_def split: if_splits)
  then show ?thesis
  proof cases
    case 1
    then show ?thesis
      using ty(1) slab_part_area(3) [OF parts(1) 1] by simp
  next
    case 2
    then show ?thesis
      using ty(2) tlsf_part_area(3) [OF parts(2)] by (simp add: ALLOC_TYPE_SLAB_def ALLOC_TYPE_TLSF_def)
  next
    case 3
    then have "h \<in> os_held p"
      by (force simp: os_held_def)
    then show ?thesis
      using 3 ty(3) os_part_area(3) [OF parts(3)] by (simp add: ALLOC_TYPE_SLAB_def ALLOC_TYPE_TLSF_def ALLOC_TYPE_OS_def)
  next
    case 4
    then have "h \<in> os_held p"
      by (simp add: os_held_def)
    then show ?thesis
      using 4 ty(4) os_part_area(3) [OF parts(3)] by (simp add: ALLOC_TYPE_SLAB_def ALLOC_TYPE_TLSF_def ALLOC_TYPE_EMERGENCY_def)
  qed
qed

text \<open>So a block that is held before and after, and was not written, has its contents.\<close>

lemma contents_kept:
  assumes t: "tiers p H" "h \<in> H" and t': "tiers p' H'" "h \<in> H'" and same: "header_at p' h = header_at p h" "pool_flags p' = pool_flags p"
    and w: "wrote X p p'" and x: "x \<in> {h ..< h + block_need (pool_flags p) (header_at p h)}" "x \<notin> X"
  shows "byte_at p' x = byte_at p x"
proof -
  have "area_of p' x = area_of p x"
    using payload_area [OF t x(1)] payload_area [OF t', of x] held_area [OF t] held_area [OF t'] x(1) same by simp
  then show ?thesis
    using w x(2) by (simp add: byte_at_store wrote_def)
qed

lemma area_put_header: "area_of (put_header h x p) = area_of p"
  by (simp add: fun_eq_iff area_of_def put_header_def os_ranges_def split: area.splits)

lemma area_account: "area_of (account a n p) = area_of p"
proof -
  let ?h = "a - sizeof_mp_block_header"
  let ?p = "put_header ?h ((header_at p ?h)\<lparr>hflags := hflags (header_at p ?h) OR MP_BLOCK_FLAG_COUNTED\<rparr>) p"
  have "pool_core (account a n p) = pool_core ?p"
    by (simp add: account_def Let_def)
  then show ?thesis
    using core_cong(8) area_put_header by (metis ext)
qed

lemma emergency_answer:
  "emergency_used (fst (alloc_emergency p n))" "events (fst (alloc_emergency p n)) = events p"
  "snd (alloc_emergency p n) = emergency_buf p + sizeof_mp_block_header" "emergency_buf (fst (alloc_emergency p n)) = emergency_buf p"
proof -
  have c: "emergency_used (count_alloc n q) = emergency_used q" "events (count_alloc n q) = events q" "emergency_buf (count_alloc n q) = emergency_buf q" for q
    by (simp_all add: count_alloc_def Let_def)
  have l: "emergency_used (active_list_add q h) = emergency_used q" "events (active_list_add q h) = events q"
    "emergency_buf (active_list_add q h) = emergency_buf q" for q h
    by (simp_all add: active_list_add_def set_act_next_def set_act_prev_def Let_def)
  have o: "emergency_used (os_payload a n q) = emergency_used q" "events (os_payload a n q) = events q" "emergency_buf (os_payload a n q) = emergency_buf q" for a q
    by (simp_all add: os_payload_def Let_def)
  have b: "emergency_used (batch_format_emergency p n)" "events (batch_format_emergency p n) = events p"
    "emergency_buf (batch_format_emergency p n) = emergency_buf p"
    unfolding batch_format_emergency_def Let_def o by (simp_all add: set_act_next_def set_act_prev_def)
  show "emergency_used (fst (alloc_emergency p n))" "events (fst (alloc_emergency p n)) = events p"
    "emergency_buf (fst (alloc_emergency p n)) = emergency_buf p" "snd (alloc_emergency p n) = emergency_buf p + sizeof_mp_block_header"
    unfolding alloc_emergency_def Let_def fst_conv snd_conv c using b l by simp_all
qed

text \<open>A call that may hand out a block wrote only that block, and formatted it.\<close>

definition filled :: "memory_pool \<Rightarrow> nat \<Rightarrow> memory_pool \<Rightarrow> addr \<Rightarrow> bool" where
  "filled p n p' a \<longleftrightarrow> wrote (payload_bytes (pool_flags p) a n) p p'
     \<and> (a \<noteq> 0 \<longrightarrow> formatted (pool_flags p) a n (byte_at p'))"

lemma filledI:
  assumes "fills ar p n p' a" "handed p H n p' a" "a \<noteq> 0 \<Longrightarrow> area_of p' (a - sizeof_mp_block_header) = ar"
  shows "filled p n p' a"
proof -
  have "byte_at p' x = store ar p' x" if a: "a \<noteq> 0" and x: "x \<in> {a ..< a + n + canary_len (pool_flags p)}" for x
  proof -
    obtain h where h: "a = h + sizeof_mp_block_header" "pool_inv p' (insert h H)" "requested_size (header_at p' h) = n" "pool_flags p' = pool_flags p"
      using assms(2) a(1) by (auto simp: handed_def)
    have "x \<in> {h ..< h + block_need (pool_flags p') (header_at p' h)}"
      using h x by (simp add: block_need_def)
    then have "area_of p' x = ar"
      using payload_area [of p' "insert h H" h x] h(1,2) assms(3) a by (simp add: pool_inv_def)
    then show ?thesis
      by (simp add: byte_at_store)
  qed
  then have "formatted (pool_flags p) a n (byte_at p')" if "a \<noteq> 0"
    using that assms(1) by (auto simp: fills_def formatted_def canary_len_def)
  then show ?thesis
    using assms(1) by (simp add: filled_def fills_def)
qed

lemma filled_cong:
  assumes "filled p n q a" "pool_bytes q' = pool_bytes q" "pool_core q' = pool_core q"
  shows "filled p n q' a"
  using assms(1) wrote_cong [OF _ refl assms(2)] store_cong [OF assms(2)] core_cong(8) [OF assms(3)] by (simp add: filled_def formatted_def byte_at_store)

lemma mp_alloc_internal_filled:
  assumes p: "pool_inv p H" and env: "env_ok env p n" and n: "request_ok p n" and r: "mp_alloc_internal env p n = Some (p', a)"
  shows "filled p n p' a"
proof -
  have hand: "handed p H n p' a"
    using mp_alloc_internal_step [OF p env n] r by simp
  define q where "q = (if limit_exceeded p n then trigger_event p MP_EVENT_OOM 0 n else p)"
  have q: "pool_core q = pool_core p" "pool_books q = pool_books p" "classes q = classes p" "pool_bytes q = pool_bytes p"
    by (simp_all add: q_def trigger_event_def pool_core_def pool_books_def pool_bytes_def)
  note f = core_cong(3) [OF q(1)]
  have refused: "filled p n s 0" if "pool_bytes s = pool_bytes p" for s
    using wrote_cong [OF wrote_refl refl that] by (simp add: filled_def)
  show ?thesis
  proof (cases "n = 0 \<or> mp_is_pool_dirty p \<and> \<not> fallback_to_sys_alloc_on_oom p \<or> circuit_breaker_enabled p \<and> circuit_breaker_tripped p")
    case True
    then have "mp_alloc_internal env p n = Some (p, 0)"
      by (auto simp: mp_alloc_internal_def)
    then show ?thesis
      using r refused [OF refl] by simp
  next
    case False
    have nf: "n \<noteq> 0" "\<not> (mp_is_pool_dirty p \<and> \<not> fallback_to_sys_alloc_on_oom p)" "\<not> (circuit_breaker_enabled p \<and> circuit_breaker_tripped p)"
      using False by meson+
    have e: "Some (p', a) = (if limit_exceeded p n \<and> \<not> fallback_to_sys_alloc_on_oom q
        then Some (if emergency_fits q n then alloc_emergency q n else (q, 0))
        else map_option (\<lambda>(p, ptr). if ptr = 0 then (p, 0) else (account ptr n p, ptr)) (dispatch env q n))"
      unfolding r [symmetric] mp_alloc_internal_def Let_def if_not_P [OF nf(1)] if_not_P [OF nf(2)] if_not_P [OF nf(3)] q_def [symmetric] ..
    show ?thesis
    proof (cases "limit_exceeded p n \<and> \<not> fallback_to_sys_alloc_on_oom q")
      case True
      show ?thesis
      proof (cases "emergency_fits q n")
        case fits: True
        have eq: "p' = fst (alloc_emergency q n)" "a = snd (alloc_emergency q n)"
          using e True fits by (simp_all add: prod_eq_iff)
        note E = emergency_answer [of q n, folded eq]
        have "emergency_buf q \<noteq> 0"
          using fits by (simp add: emergency_fits_def)
        from emergency_fills [OF this, of n, folded eq] have "fills OsArea p n p' a"
          by (rule fills_cong) (simp_all add: q(4) f)
        moreover have "area_of p' (a - sizeof_mp_block_header) = OsArea"
        proof -
          have "\<exists>K. pool_inv p' K"
            using hand by (auto simp: handed_def split: if_splits)
          then have "os_part p'"
            by (auto simp: pool_inv_def tiers_def)
          then show ?thesis
            using os_part_area(3) [of p' "emergency_buf p'"] E by (simp add: os_held_def)
        qed
        ultimately show ?thesis
          by (rule filledI [OF _ hand])
      next
        case no: False
        then show ?thesis
          using e True refused q(4) by simp
      qed
    next
      case False
      have "request_ok q n" "tiers q H" "env_ok env q n"
        using n q(3) f core_cong(1) [OF q(1)] p env env_ok_cong [OF q(1)] by (simp_all add: request_ok_def pool_inv_def)
      note D = dispatch_step [OF this(2,3,1) nf(1)] and F = dispatch_fills [OF this(2,3,1) nf(1)]
      obtain s b where d: "dispatch env q n = Some (s, b)" "answer (tier_of q n) q H n s b"
        using D by blast
      have fs: "fills (tier_of q n) p n s b"
        using F [OF d(1)] by (rule fills_cong) (simp_all add: q(4) f)
      show ?thesis
      proof (cases "b = 0")
        case True
        then show ?thesis
          using e False d(1) fs by (simp add: filled_def fills_def)
      next
        case nn: False
        then have eq: "p' = account a n s" "a = b"
          using e False d(1) by auto
        have "fills (tier_of q n) p n p' a"
          by (rule fills_cong [of "tier_of q n" p n s a]) (use fs eq in simp_all)
        moreover have "area_of p' (a - sizeof_mp_block_header) = tier_of q n"
          using d(2) nn eq by (auto simp: answer_def area_account)
        ultimately show ?thesis
          by (rule filledI [OF _ hand])
      qed
    qed
  qed
qed

lemma mp_alloc_filled:
  assumes p: "pool_inv p H" and env: "env_ok env p n" and n: "request_ok p n" and plain: "\<not> has_flag (pool_flags p) MP_FLAG_CACHE_ALIGNED"
    and r: "mp_alloc env p n = Some (p', a)"
  shows "filled p n p' a"
proof (cases "n = 0")
  case True
  then show ?thesis
    using r wrote_refl by (simp add: mp_alloc_def filled_def)
next
  case False
  obtain q where q: "mp_alloc_internal env p n = Some (q, a)" "p' = (if a = 0 then q else charge_quota (thread env) n q)"
    using r False plain by (auto simp: mp_alloc_def)
  show ?thesis
    using mp_alloc_internal_filled [OF p env n q(1)] filled_cong [of p n q a p'] q(2) by simp
qed

section \<open>Releases\<close>

lemma free_slab_bytes: "pool_bytes (free_slab env p a) = pool_bytes p"
proof -
  have "pool_bytes (put_slab (place_slot (slab_view r) t k h) r) = pool_bytes r" for r t k h
    by (simp add: pool_bytes_def put_slab_def slab_view_def)
  then show ?thesis
    by (simp add: free_slab_def Let_def)
qed

lemma free_tlsf_bytes:
  assumes "free_tlsf_block env p h = Some p'"
  shows "pool_bytes p' = pool_bytes p"
proof -
  have "pool_bytes (put_tlsf st q) = pool_bytes q" if "tlsf_free (tlsf_view q) h = Some st" for st q
    using that by (auto simp: tlsf_free_def tlsf_view_def put_tlsf_def pool_bytes_def Let_def split: if_splits)
  then show ?thesis
    using assms by (auto simp: free_tlsf_block_def Let_def split: option.splits if_splits)
qed

lemma free_other_bytes:
  assumes "free_other env p a = Some p'"
  shows "pool_bytes p' = pool_bytes p"
proof -
  have u: "pool_bytes (q\<lparr>os_allocated_bytes := x, resident_size := y\<rparr>) = pool_bytes q" "pool_bytes (free_os_block q z) = pool_bytes q"
    "pool_bytes (q\<lparr>emergency_used := b\<rparr>) = pool_bytes q" for q x y z b
    by (simp_all add: pool_bytes_def free_os_block_def)
  let ?h = "a - sizeof_mp_block_header"
  define q where "q = (if hflags (header_at p ?h) AND MP_BLOCK_FLAG_COUNTED \<noteq> 0 then mp_free_stats_update p ?h else p)"
  define s where "s = (if alloc_type (header_at p ?h) = ALLOC_TYPE_OS
      then q\<lparr>os_allocated_bytes := (os_allocated_bytes q + 2 ^ 64 - requested_size (header_at p ?h)) mod 2 ^ 64,
             resident_size := (resident_size q + 2 ^ 64 - (requested_size (header_at p ?h) + sizeof_mp_block_header + canary_bytes q) mod 2 ^ 64) mod 2 ^ 64\<rparr>
      else q)"
  have b: "pool_bytes s = pool_bytes p"
    by (simp add: s_def q_def u)
  obtain r where r: "(if alloc_type (header_at p ?h) = ALLOC_TYPE_TLSF then free_tlsf_block env s ?h
      else if alloc_type (header_at p ?h) = ALLOC_TYPE_OS then Some (free_os_block s (raw_base (header_at p ?h)))
      else if alloc_type (header_at p ?h) = ALLOC_TYPE_EMERGENCY then Some (s\<lparr>emergency_used := False\<rparr>) else Some s) = Some r"
    "p' = trigger_event (check_watermark_after_change r) MP_EVENT_FREE a (requested_size (header_at p ?h))"
    using assms unfolding free_other_def Let_def q_def [symmetric] s_def [symmetric] by (rule map_option_SomeE)
  have "pool_bytes r = pool_bytes s"
    using r(1) free_tlsf_bytes u by (auto split: if_splits)
  then show ?thesis
    using r(2) b by simp
qed

lemma mp_free_wrote:
  assumes "mp_free env p (h + sizeof_mp_block_header) = Some p'"
  shows "wrote {h + sizeof_mp_block_header ..< h + sizeof_mp_block_header + requested_size (header_at p h)} p p'"
proof -
  let ?a = "h + sizeof_mp_block_header"
  let ?X = "{?a ..< ?a + requested_size (header_at p h)}"
  define p1 where "p1 = (if has_flag (pool_flags p) MP_FLAG_POISON_ON_FREE
      then on_bytes h (memset ?a MP_POISON_BYTE (requested_size (header_at p h))) p else p)"
  define p2 where "p2 = (if has_flag (pool_flags p1) MP_FLAG_DEBUG_CANARY then mp_verify_free_canary p1 ?a else p1)"
  have nn: "?a \<noteq> 0"
    by (simp add: sizeof_mp_block_header_def)
  have r: "Some p' = (if magic (header_at p h) \<noteq> MP_MAGIC_HEAD then Some (call_recovery (mp_mark_pool_dirty (trigger_event p MP_EVENT_DOUBLE_FREE ?a 0)))
      else if alloc_type (header_at p2 h) = ALLOC_TYPE_SLAB then Some (free_slab env p2 ?a) else free_other env p2 ?a)"
    unfolding assms [symmetric] mp_free_def Let_def add_diff_cancel_right' p1_def [symmetric] p2_def [symmetric] if_not_P [OF nn] ..
  have "wrote ?X p p1"
    unfolding p1_def by (auto simp: memset_def intro: wrote_refl wrote_on_bytes)
  moreover have "pool_bytes p2 = pool_bytes p1"
    by (simp add: p2_def)
  ultimately have 2: "wrote ?X p p2"
    using wrote_cong [OF _ refl, of ?X p p1 p2] by simp
  have "pool_bytes p' = pool_bytes p \<or> pool_bytes p' = pool_bytes p2"
    using r free_slab_bytes [of env p2 ?a] free_other_bytes [of env p2 ?a p'] by (auto split: if_splits)
  then show ?thesis
    using wrote_cong [OF wrote_refl refl] wrote_cong [OF 2 refl] by blast
qed

section \<open>Contents survive\<close>

text \<open>The bytes of a block from its header to the end of what was asked for are the same.\<close>

definition keeps_block :: "memory_pool \<Rightarrow> memory_pool \<Rightarrow> addr \<Rightarrow> bool" where
  "keeps_block p p' y \<longleftrightarrow> (\<forall>x \<in> {y ..< y + block_need (pool_flags p) (header_at p y)}. byte_at p' x = byte_at p x)"

lemma keeps_blockI:
  assumes "tiers p H" "y \<in> H" "tiers p' H'" "y \<in> H'" "header_at p' y = header_at p y" "pool_flags p' = pool_flags p" "wrote X p p'"
    "X \<inter> block_extent p y = {} \<or> X \<inter> block_extent p' y = {}"
  shows "keeps_block p p' y"
proof -
  have "x \<notin> X" if "x \<in> {y ..< y + block_need (pool_flags p) (header_at p y)}" for x
    using that block_fits [OF assms(1,2)] block_fits [OF assms(3,4)] assms(5,6,8) by auto
  then show ?thesis
    using contents_kept [OF assms(1-7)] by (simp add: keeps_block_def)
qed

lemma handed_keeps:
  assumes p: "pool_inv p H" and r: "handed p H n p' a" "filled p n p' a" and y: "y \<in> H"
  shows "keeps_block p p' y"
proof (cases "a = 0")
  case True
  then show ?thesis
    using p r y by (intro keeps_blockI [of p H y p' H "{}"]) (simp_all add: handed_def filled_def payload_bytes_def pool_inv_def)
next
  case False
  obtain h where h: "a = h + sizeof_mp_block_header" "h \<notin> H" "tiers p' (insert h H)" "requested_size (header_at p' h) = n"
    "header_at p' y = header_at p y" "pool_flags p' = pool_flags p"
    using r(1) False y by (auto simp: handed_def pool_inv_def)
  have "payload_bytes (pool_flags p) a n \<subseteq> block_extent p' h"
    using block_fits [OF h(3), of h] h(1,4,6) by (auto simp: payload_bytes_def block_need_def)
  then have "payload_bytes (pool_flags p) a n \<inter> block_extent p' y = {}"
    using extents_apart [OF h(3), of h y] h(2) y by blast
  then show ?thesis
    using p r(2) y h by (intro keeps_blockI [of p H y p' "insert h H" "payload_bytes (pool_flags p) a n"]) (simp_all add: filled_def pool_inv_def)
qed

lemma released_keeps:
  assumes p: "pool_inv p H" "h \<in> H" and r: "mp_free env p (h + sizeof_mp_block_header) = Some p'" and y: "y \<in> H - {h}"
  shows "keeps_block p p' y"
proof -
  have R: "tiers p' (H - {h})" "header_at p' y = header_at p y" "pool_flags p' = pool_flags p"
    using mp_free_step [OF p, of env] r y by (auto simp: released_def pool_inv_def)
  have t: "tiers p H"
    using p(1) by (simp add: pool_inv_def)
  let ?X = "{h + sizeof_mp_block_header ..< h + sizeof_mp_block_header + requested_size (header_at p h)}"
  have "?X \<subseteq> block_extent p h"
    using block_fits [OF t p(2)] by (auto simp: block_need_def)
  then have "?X \<inter> block_extent p y = {}"
    using extents_apart [OF t p(2), of y] y by blast
  then show ?thesis
    using y R mp_free_wrote [OF r] by (intro keeps_blockI [OF t, of y p' "H - {h}" ?X]) simp_all
qed

section \<open>Canaries\<close>

definition canary_at :: "memory_pool \<Rightarrow> addr \<Rightarrow> addr" where
  "canary_at p h = h + sizeof_mp_block_header + requested_size (header_at p h)"

definition canaries :: "memory_pool \<Rightarrow> addr set \<Rightarrow> bool" where
  "canaries p H \<longleftrightarrow> (has_flag (pool_flags p) MP_FLAG_DEBUG_CANARY \<longrightarrow> (\<forall>h \<in> H. byte_at p (canary_at p h) = MP_CANARY_BYTE))"

lemma canaries_kept:
  assumes "canaries p H" "\<And>y. y \<in> K \<Longrightarrow> y \<in> H \<and> keeps_block p p' y \<and> header_at p' y = header_at p y" "pool_flags p' = pool_flags p"
  shows "canaries p' K"
proof -
  have "byte_at p' (canary_at p' y) = MP_CANARY_BYTE" if f: "has_flag (pool_flags p) MP_FLAG_DEBUG_CANARY" and y: "y \<in> K" for y
  proof -
    have "canary_at p y \<in> {y ..< y + block_need (pool_flags p) (header_at p y)}" "canary_at p' y = canary_at p y"
      using assms(2) [OF y] f by (simp_all add: canary_at_def block_need_def canary_len_def)
    then show ?thesis
      using assms(1) assms(2) [OF y] y f by (simp add: canaries_def keeps_block_def)
  qed
  then show ?thesis
    by (simp add: canaries_def assms(3))
qed

lemma handed_canaries:
  assumes p: "pool_inv p H" "canaries p H" and r: "handed p H n p' a" "filled p n p' a"
  shows "canaries p' (if a = 0 then H else insert (a - sizeof_mp_block_header) H)"
proof -
  have f: "pool_flags p' = pool_flags p" "\<And>y. y \<in> H \<Longrightarrow> header_at p' y = header_at p y"
    using r(1) by (simp_all add: handed_def)
  have 1: "canaries p' H"
    using handed_keeps [OF p(1) r] f by (intro canaries_kept [OF p(2)]) simp_all
  have "byte_at p' (canary_at p' (a - sizeof_mp_block_header)) = MP_CANARY_BYTE" if "a \<noteq> 0" "has_flag (pool_flags p') MP_FLAG_DEBUG_CANARY"
    using r that f(1) by (auto simp: handed_def filled_def formatted_def canary_at_def)
  then show ?thesis
    using 1 by (simp add: canaries_def)
qed

lemma released_canaries:
  assumes p: "pool_inv p H" "canaries p H" "h \<in> H" and r: "mp_free env p (h + sizeof_mp_block_header) = Some p'"
  shows "canaries p' (H - {h})"
  using mp_free_step [OF p(1,3), of env] r released_keeps [OF p(1,3) r]
  by (intro canaries_kept [OF p(2)]) (auto simp: released_def)

text \<open>A client writes to its block.\<close>

lemma write_canaries:
  assumes p: "pool_inv p H" "canaries p H" "h \<in> H" and f: "\<And>m z. z \<notin> {h + sizeof_mp_block_header ..< canary_at p h} \<Longrightarrow> f m z = m z"
  shows "canaries (on_bytes h f p) H"
proof -
  let ?p = "on_bytes h f p"
  let ?X = "{h + sizeof_mp_block_header ..< canary_at p h}"
  have t: "tiers p H" "tiers ?p H" "header_at ?p = header_at p"
    using p(1) on_bytes_step [OF p(1)] by (simp_all add: pool_inv_def)
  have w: "wrote ?X p ?p"
    by (rule wrote_on_bytes) (simp add: f)
  have X: "?X \<subseteq> block_extent p h"
    using block_fits [OF t(1) p(3)] by (auto simp: canary_at_def block_need_def)
  have "byte_at ?p (canary_at p y) = byte_at p (canary_at p y)" if c: "has_flag (pool_flags p) MP_FLAG_DEBUG_CANARY" and y: "y \<in> H" for y
  proof -
    have y': "canary_at p y \<in> {y ..< y + block_need (pool_flags p) (header_at p y)}"
      using c by (simp add: canary_at_def block_need_def canary_len_def)
    moreover have "canary_at p y \<notin> ?X"
    proof (cases "y = h")
      case False
      then show ?thesis
        using y' X block_fits [OF t(1) y] extents_apart [OF t(1) p(3) y] by blast
    qed simp
    ultimately show ?thesis
      using t y w by (intro contents_kept [of p H y ?p H ?X]) simp_all
  qed
  then show ?thesis
    using p(2) t(3) by (simp add: canaries_def canary_at_def)
qed

text \<open>So the check of a release finds nothing, although the block may have been poisoned first.\<close>

lemma canary_check_passes:
  assumes p: "pool_inv p H" "canaries p H" "h \<in> H" and c: "has_flag (pool_flags p) MP_FLAG_DEBUG_CANARY"
  shows "byte_at (on_bytes h (memset (h + sizeof_mp_block_header) v (requested_size (header_at p h))) p) (canary_at p h) = MP_CANARY_BYTE"
proof -
  let ?f = "memset (h + sizeof_mp_block_header) v (requested_size (header_at p h))"
  let ?p = "on_bytes h ?f p"
  let ?X = "{h + sizeof_mp_block_header ..< canary_at p h}"
  have f: "pool_flags ?p = pool_flags p" "header_at ?p = header_at p" "tiers p H" "tiers ?p H"
    using p(1) on_bytes_step [OF p(1)] by (simp_all add: pool_inv_def)
  have "wrote ?X p ?p"
    by (rule wrote_on_bytes) (auto simp: memset_def canary_at_def)
  moreover have "canary_at p h \<in> {h ..< h + block_need (pool_flags p) (header_at p h)}" "canary_at p h \<notin> ?X"
    using c by (simp_all add: canary_at_def block_need_def canary_len_def)
  ultimately have "byte_at ?p (canary_at p h) = byte_at p (canary_at p h)"
    using f p(3) by (intro contents_kept [of p H h ?p H ?X]) simp_all
  then show ?thesis
    using p(2,3) c by (simp add: canaries_def)
qed

end
