(* ===== verification/Pool_Trace.thy ===== *)
theory Pool_Trace
  imports Pool_Create Pool_Bytes
begin

text \<open>
  Histories of a whole pool: creation, then any sequence of requests, releases, failed releases and changes of the
  configuration by any thread, and of writes of the clients to their blocks.  Along all of them the blocks of all tiers
  stay apart and keep their contents, the counters and the list of active blocks are exact, no canary is lost, and every
  call returns.
\<close>

section \<open>Steps\<close>

text \<open>The setters that touch neither memory nor books.\<close>

inductive mp_setter :: "memory_pool \<Rightarrow> memory_pool \<Rightarrow> bool" where
  "mp_setter p (mp_set_memory_limit p n)"
| "mp_setter p (mp_set_event_callback p b)"
| "mp_setter p (mp_set_error_recovery_callback p b)"
| "mp_setter p (mp_set_watermark_callback p hi lo b)"
| "mp_setter p (mp_set_fallback_on_oom p b)"
| "mp_setter p (mp_set_thread_quota p n)"
| "mp_setter p (mp_reset_thread_quota p t)"
| "mp_setter p (mp_set_circuit_breaker p b)"
| "mp_setter p (mp_mark_pool_dirty p)"
| "mp_setter p (mp_clear_pool_dirty p)"

text \<open>\<open>H\<close>: the headers of the blocks that clients hold.  A \<open>call_env\<close> is what surrounds one call; \<open>env_ok\<close>: the operating
  system hands out memory that is not in use.\<close>

inductive pool_step :: "memory_pool \<Rightarrow> addr set \<Rightarrow> memory_pool \<Rightarrow> addr set \<Rightarrow> bool" where
  Alloc: "\<lbrakk>env_ok env p n; request_ok p n; \<not> has_flag (pool_flags p) MP_FLAG_CACHE_ALIGNED; mp_alloc env p n = Some (p', a)\<rbrakk>
     \<Longrightarrow> pool_step p H p' (if a = 0 then H else insert (a - sizeof_mp_block_header) H)"
| Calloc: "\<lbrakk>env_ok env p (num * n mod 2 ^ 64); request_ok p (num * n mod 2 ^ 64); \<not> has_flag (pool_flags p) MP_FLAG_CACHE_ALIGNED;
     mp_calloc env p num n = Some (p', a)\<rbrakk>
     \<Longrightarrow> pool_step p H p' (if a = 0 then H else insert (a - sizeof_mp_block_header) H)"
| Alloc_loc: "\<lbrakk>env_ok env p n; request_ok p n; \<not> has_flag (pool_flags p) MP_FLAG_CACHE_ALIGNED; mp_alloc_loc env depth p n file line func = Some (p', a)\<rbrakk>
     \<Longrightarrow> pool_step p H p' (if a = 0 then H else insert (a - sizeof_mp_block_header) H)"
| Calloc_loc: "\<lbrakk>env_ok env p (num * n mod 2 ^ 64); request_ok p (num * n mod 2 ^ 64); \<not> has_flag (pool_flags p) MP_FLAG_CACHE_ALIGNED;
     mp_calloc_loc env depth p num n file line func = Some (p', a)\<rbrakk>
     \<Longrightarrow> pool_step p H p' (if a = 0 then H else insert (a - sizeof_mp_block_header) H)"
| Free: "\<lbrakk>h \<in> H; mp_free env p (h + sizeof_mp_block_header) = Some p'\<rbrakk> \<Longrightarrow> pool_step p H p' (H - {h})"
| BadFree: "\<lbrakk>ptr = 0 \<or> magic (header_at p (ptr - sizeof_mp_block_header)) \<noteq> MP_MAGIC_HEAD; mp_free env p ptr = Some p'\<rbrakk> \<Longrightarrow> pool_step p H p' H"
| Setter: "mp_setter p p' \<Longrightarrow> pool_step p H p' H"
| Reserve: "\<lbrakk>\<not> emergency_used p; {buf ..< buf + n} \<inter> used_mem (p\<lparr>emergency_buf := 0\<rparr>) = {}; mp_enable_emergency_reserve p buf n = (p', ok)\<rbrakk>
     \<Longrightarrow> pool_step p H p' H"

text \<open>Between the calls clients write to their blocks, within the bytes they asked for.\<close>

inductive pool_history :: "memory_pool \<Rightarrow> addr set \<Rightarrow> bool" where
  Create: "\<lbrakk>mp_create_custom level ndebug conf nproc calloc_ok m0 a os w cap flags = Some p; \<And>t. \<not> owned (tls (slab w) t);
     cap = 0 \<or> 64 \<le> align_up8 cap \<and> align_up8 cap \<le> 2 ^ 30\<rbrakk> \<Longrightarrow> pool_history p {}"
| Create_static: "\<lbrakk>mp_create_from_buffer szp level ndebug conf nproc calloc_ok m0 w buf n flags = Some p; \<And>t. \<not> owned (tls (slab w) t);
     szp + sizeof_tlsf_pool + 72 \<le> n; n \<le> 2 ^ 30; buf + n < 2 ^ 64\<rbrakk> \<Longrightarrow> pool_history p {}"
| Step: "\<lbrakk>pool_history p H; pool_step p H p' H'\<rbrakk> \<Longrightarrow> pool_history p' H'"
| Write: "\<lbrakk>pool_history p H; h \<in> H;
     \<forall>m z. z \<notin> {h + sizeof_mp_block_header ..< h + sizeof_mp_block_header + requested_size (header_at p h)} \<longrightarrow> f m z = m z\<rbrakk>
     \<Longrightarrow> pool_history (on_bytes h f p) H"

section \<open>The invariant along a history\<close>

lemma setter_frame: "mp_setter p p' \<Longrightarrow> pool_core p' = pool_core p \<and> pool_books p' = pool_books p \<and> pool_bytes p' = pool_bytes p"
  by (induction rule: mp_setter.induct)
    (simp_all, simp_all add: pool_core_def pool_books_def pool_bytes_def mp_clear_pool_dirty_def mp_set_memory_limit_def mp_set_event_callback_def mp_set_error_recovery_callback_def
      mp_set_watermark_callback_def mp_set_fallback_on_oom_def mp_set_thread_quota_def mp_reset_thread_quota_def mp_set_circuit_breaker_def)

lemma bad_free_frame:
  assumes "ptr = 0 \<or> magic (header_at p (ptr - sizeof_mp_block_header)) \<noteq> MP_MAGIC_HEAD"
  obtains p' where "mp_free env p ptr = Some p'" "pool_core p' = pool_core p" "pool_books p' = pool_books p" "pool_bytes p' = pool_bytes p"
proof (cases "ptr = 0")
  case True
  then show ?thesis
    using that [of p] by (simp add: mp_free_def)
next
  case False
  then show ?thesis
    using assms that [of "call_recovery (mp_mark_pool_dirty (trigger_event p MP_EVENT_DOUBLE_FREE ptr 0))"] by (simp add: mp_free_def)
qed

lemma filled_memset:
  assumes "filled p n q a" "a \<noteq> 0"
  shows "filled p n (on_bytes h (memset a 0 n) q) a"
proof -
  have "wrote {a ..< a + n} q (on_bytes h (memset a 0 n) q)"
    by (rule wrote_on_bytes) (auto simp: memset_def)
  moreover have "payload_bytes (pool_flags p) a n \<union> {a ..< a + n} = payload_bytes (pool_flags p) a n"
    using assms(2) by (auto simp: payload_bytes_def)
  moreover have "byte_at (on_bytes h (memset a 0 n) q) (a + n) = byte_at q (a + n)"
    by (simp add: byte_at_on_bytes memset_def) (simp add: byte_at_store)
  then have "formatted (pool_flags p) a n (byte_at (on_bytes h (memset a 0 n) q))"
    using assms by (simp add: filled_def formatted_def) (simp add: byte_at_on_bytes memset_def)
  ultimately show ?thesis
    using assms wrote_trans unfolding filled_def by metis
qed

lemma mp_calloc_step:
  assumes p: "pool_inv p H" and env: "env_ok env p m" and n: "request_ok p m" and plain: "\<not> has_flag (pool_flags p) MP_FLAG_CACHE_ALIGNED"
    and m: "m = num * n mod 2 ^ 64"
  shows "\<exists>p' a. mp_calloc env p num n = Some (p', a) \<and> handed p H m p' a \<and> filled p m p' a
    \<and> (a \<noteq> 0 \<longrightarrow> (\<forall>x \<in> {a ..< a + m}. byte_at p' x = 0))"
proof -
  obtain q a where q: "mp_alloc env p m = Some (q, a)" "handed p H m q a" "filled p m q a"
    using mp_alloc_step [OF assms(1-4)] mp_alloc_filled [OF assms(1-4)] by blast
  let ?q = "if a \<noteq> 0 \<and> \<not> has_flag (pool_flags q) MP_FLAG_ZERO_ON_ALLOC then on_bytes (a - sizeof_mp_block_header) (memset a 0 m) q else q"
  have r: "mp_calloc env p num n = Some (?q, a)"
    unfolding mp_calloc_def Let_def m [symmetric] q(1) by simp
  have "handed p H m ?q a"
  proof (cases "a = 0")
    case False
    then obtain h where "a = h + sizeof_mp_block_header" "h \<notin> H" "pool_inv q (insert h H)" "requested_size (header_at q h) = m"
      using q(2) by (auto simp: handed_def)
    then show ?thesis
      using False q(2) on_bytes_step by (auto simp: handed_def)
  qed (use q(2) in simp)
  moreover have "filled p m ?q a"
    using filled_memset [OF q(3)] q(3) by simp
  moreover have "byte_at ?q x = 0" if a: "a \<noteq> 0" "x \<in> {a ..< a + m}" for x
  proof -
    obtain h where h: "a = h + sizeof_mp_block_header" "tiers q (insert h H)" "requested_size (header_at q h) = m" "pool_flags q = pool_flags p"
      using q(2) a(1) by (auto simp: handed_def pool_inv_def)
    have "area_of q x = area_of q h"
      using h a(2) by (intro payload_area [OF h(2)]) (simp_all add: block_need_def)
    then show ?thesis
      using a q(3) h(1,4) by (auto simp: byte_at_on_bytes memset_def filled_def formatted_def)
  qed
  ultimately show ?thesis
    using r by blast
qed

text \<open>Noting the location of a request touches only the header of its block.\<close>

lemma locate_step:
  assumes "handed p H n q a" "filled p n q a" "a \<noteq> 0"
  shows "handed p H n (locate depth file line func a q) a" "filled p n (locate depth file line func a q) a"
proof -
  obtain h where h: "a = h + sizeof_mp_block_header" "h \<notin> H" "pool_inv q (insert h H)" "requested_size (header_at q h) = n"
    using assms(1,3) by (auto simp: handed_def)
  define x where "x = (if has_flag (pool_flags q) MP_FLAG_TRACK_LOCATIONS
      then (header_at q h)\<lparr>alloc_file := file, alloc_line := line, alloc_func := func, backtrace_depth := depth\<rparr>
      else (header_at q h)\<lparr>alloc_file := file, alloc_line := line, alloc_func := func\<rparr>)"
  have r: "locate depth file line func a q = put_header h x q"
    by (simp add: locate_def h(1) x_def Let_def)
  have x: "restamps (header_at q h) x" "hflags x = hflags (header_at q h)" "requested_size x = requested_size (header_at q h)"
    by (simp_all add: x_def restamps_def)
  have hr: "header_at (put_header h x q) = (header_at q)(h := x)"
    by (simp add: header_at_put)
  have "tiers (put_header h x q) (insert h H)"
    using h(3) x(1) by (intro put_header_step) (simp_all add: pool_inv_def)
  moreover have flags: "pool_flags (put_header h x q) = pool_flags q"
    by (simp add: put_header_def split: area.splits)
  have "book_ok (put_header h x q) (insert h H)"
  proof -
    have "held_bytes (put_header h x q) (insert h H) = held_bytes q (insert h H)"
      unfolding held_bytes_def by (rule sum.cong) (auto simp: hr x(3))
    moreover have "pool_books (put_header h x q) = pool_books q"
      by simp
    ultimately show ?thesis
      using h(3) x(2,3) flags unfolding pool_inv_def book_ok_def pool_books_def fast_path_def by (simp add: hr)
  qed
  ultimately show "handed p H n (locate depth file line func a q) a"
    using assms(1,3) h x(3) flags unfolding r handed_def pool_inv_def by (auto simp: hr)
  have "byte_at (put_header h x q) = byte_at q"
    by (simp add: fun_eq_iff byte_at_store area_put_header store_cong [OF bytes_writes(2)])
  then show "filled p n (locate depth file line func a q) a"
    using assms(2) wrote_cong [OF _ refl bytes_writes(2)] unfolding r filled_def by simp
qed

text \<open>The requests for new blocks, in one form.\<close>

inductive pool_request :: "memory_pool \<Rightarrow> nat \<Rightarrow> memory_pool \<Rightarrow> addr \<Rightarrow> bool" where
  "\<lbrakk>env_ok env p n; request_ok p n; \<not> has_flag (pool_flags p) MP_FLAG_CACHE_ALIGNED; mp_alloc env p n = Some (p', a)\<rbrakk> \<Longrightarrow> pool_request p n p' a"
| "\<lbrakk>env_ok env p (num * n mod 2 ^ 64); request_ok p (num * n mod 2 ^ 64); \<not> has_flag (pool_flags p) MP_FLAG_CACHE_ALIGNED;
     mp_calloc env p num n = Some (p', a)\<rbrakk> \<Longrightarrow> pool_request p (num * n mod 2 ^ 64) p' a"
| "pool_request p n p' a \<Longrightarrow> a \<noteq> 0 \<Longrightarrow> pool_request p n (locate depth file line func a p') a"

lemma request_step: "pool_request p n p' a \<Longrightarrow> pool_inv p H \<Longrightarrow> handed p H n p' a \<and> filled p n p' a"
proof (induction rule: pool_request.induct)
  case (1 env p n p' a)
  then show ?case
    using mp_alloc_step [of p H env n] mp_alloc_filled by auto
next
  case (2 env p num n p' a)
  then show ?case
    using mp_calloc_step [of p H env _ num n, OF _ _ _ _ refl] by auto
next
  case (3 p n p' a depth f l g)
  then show ?case
    using locate_step by blast
qed

lemma locate_request:
  assumes "map_option (\<lambda>(p, ptr). (if ptr \<noteq> 0 then locate depth file line func ptr p else p, ptr)) r = Some (p', a)"
    "\<And>q. r = Some (q, a) \<Longrightarrow> pool_request p n q a"
  shows "pool_request p n p' a"
proof -
  obtain q where "r = Some (q, a)" "p' = (if a \<noteq> 0 then locate depth file line func a q else q)"
    using assms(1) by auto
  then show ?thesis
    using pool_request.intros(3) [OF assms(2)] assms(2) by (cases "a = 0") auto
qed

lemma loc_requests:
  "\<lbrakk>env_ok env p n; request_ok p n; \<not> has_flag (pool_flags p) MP_FLAG_CACHE_ALIGNED; mp_alloc_loc env depth p n file line func = Some (p', a)\<rbrakk>
     \<Longrightarrow> pool_request p n p' a"
  "\<lbrakk>env_ok env p (num * n mod 2 ^ 64); request_ok p (num * n mod 2 ^ 64); \<not> has_flag (pool_flags p) MP_FLAG_CACHE_ALIGNED;
     mp_calloc_loc env depth p num n file line func = Some (p', a)\<rbrakk> \<Longrightarrow> pool_request p (num * n mod 2 ^ 64) p' a"
  unfolding mp_alloc_loc_def mp_calloc_loc_def by (erule locate_request, erule (3) pool_request.intros)+

lemma handed_inv: "handed p H n p' a \<Longrightarrow> pool_inv p' (if a = 0 then H else insert (a - sizeof_mp_block_header) H)"
  by (auto simp: handed_def)

lemma reserve_inv:
  assumes p: "pool_inv p H" "\<not> emergency_used p" and fresh: "{buf ..< buf + n} \<inter> used_mem (p\<lparr>emergency_buf := 0\<rparr>) = {}"
    and r: "mp_enable_emergency_reserve p buf n = (p', ok)"
  shows "pool_inv p' H \<and> (\<forall>h \<in> H. header_at p' h = header_at p h) \<and> pool_flags p' = pool_flags p \<and> pool_bytes p' = pool_bytes p"
proof (cases "n = 0")
  case True
  then show ?thesis
    using p r by (simp add: mp_enable_emergency_reserve_def)
next
  case False
  obtain Hs T where parts: "slab_part p Hs" "tlsf_part p T" "os_part p" and H: "H = Hs \<union> tlsf_held T \<union> os_held p"
    using p(1) by (auto simp: pool_inv_def tiers_def)
  let ?q = "p\<lparr>emergency_buf := 0\<rparr>"
  define R where "R = (if buf = 0 then {} else {buf ..< buf + n})"
  have same: "slab p' = slab p" "tlsf p' = tlsf p" "tcaches p' = tcaches p" "ohdr p' = ohdr p" "os_blocks p' = os_blocks p"
    "pool_flags p' = pool_flags p" "pool_books p' = pool_books p" "\<not> emergency_used p'" "emergency_buf p' = buf" "classes p' = classes p"
    "pool_bytes p' = pool_bytes p"
    "buf \<noteq> 0 \<Longrightarrow> emergency_size p' = n"
    using r False p(2) by (auto simp: mp_enable_emergency_reserve_def pool_books_def pool_bytes_def split: if_splits)
  have rng: "os_ranges p' = (if buf = 0 then os_blocks p else (buf, n) # os_blocks p)" "regions p' = regions p" "os_ranges ?q = os_blocks p"
    "regions ?q = regions p"
    using same by (auto simp: os_ranges_def regions_def)
  have sub: "os_mem ?q \<subseteq> os_mem p"
    by (auto simp: os_mem_def os_ranges_def)
  have mem: "os_mem p' = R \<union> os_mem ?q"
    by (simp add: os_mem_def rng R_def span_def)
  have out: "R \<inter> regions p = {}" "R \<inter> os_mem ?q = {}" "R \<inter> used_mem ?q = {}"
    using fresh by (auto simp: R_def used_mem_def rng)
  have fq: "foreign_pages ?q \<subseteq> foreign_pages p"
    using sub by (auto simp: foreign_pages_def rng)
  obtain D C where D: "slab_inv 0 (slab p) D C Hs" "held_ok (slab p) D Hs" "\<And>k. set (D k) \<inter> foreign_pages p = {}"
    using parts(1) by (auto simp: slab_part_def)
  have "set (D k) \<inter> page_of ` R = {}" for k
    using pages_apart [of ?q D C Hs R k] D(1) out(3) by simp
  moreover have "set (D k) \<inter> foreign_pages ?q = {}" for k
    using D(3) [of k] fq by (auto simp: disjoint_iff)
  moreover have "foreign_pages p' = foreign_pages ?q \<union> page_of ` R"
    by (auto simp: foreign_pages_def mem rng)
  ultimately have "set (D k) \<inter> foreign_pages p' = {}" for k
    by (simp add: Int_Un_distrib)
  then have sp: "slab_part p' Hs"
    using parts(1) D(1,2) unfolding slab_part_def same by auto
  have tp: "tlsf_part p' T"
    by (rule tlsf_part_frame [OF parts(2)]) (simp_all add: same)
  have blocks: "sorted_wrt (\<lambda>r r'. span r \<inter> span r' = {}) (os_blocks p)"
    using parts(3) by (auto simp: os_part_def os_ranges_def split: if_splits)
  moreover have "span (buf, n) \<inter> span r = {}" if "buf \<noteq> 0" "r \<in> set (os_blocks p)" for r
  proof -
    have "span r \<subseteq> os_mem ?q"
      using that(2) by (auto simp: os_mem_def rng)
    then show ?thesis
      using out(2) that(1) by (auto simp: R_def span_def [of "(buf, n)"])
  qed
  ultimately have "sorted_wrt (\<lambda>r r'. span r \<inter> span r' = {}) (os_ranges p')"
    by (simp add: rng)
  moreover have "os_mem p' \<inter> regions p' = {}"
    using parts(3) sub out(1) unfolding mem rng os_part_def by auto
  ultimately have op: "os_part p'"
    using parts(3) same(8) unfolding os_part_def same by auto
  have oh: "os_held p' = os_held p"
    using p(2) same by (simp add: os_held_def)
  have kept: "header_at p' h = header_at p h" if "h \<in> H" for h
    using that same oh by (intro header_kept [OF parts sp tp op]) (auto simp: H)
  have "book_ok p H"
    using p(1) by (simp add: pool_inv_def)
  then have "book_ok p' H"
    by (rule book_cong) (simp_all add: kept same)
  moreover have "tiers p' H"
    by (rule tiersI [OF sp tp op]) (simp add: H oh)
  ultimately show ?thesis
    by (simp add: pool_inv_def kept same)
qed

lemma step_inv: "pool_step p H p' H' \<Longrightarrow> pool_inv p H \<Longrightarrow> pool_inv p' H'"
proof (induction rule: pool_step.induct)
  case (Alloc env p n p' a H)
  then show ?case
    using request_step [OF pool_request.intros(1)] handed_inv by blast
next
  case (Calloc env p num n p' a H)
  then show ?case
    using request_step [OF pool_request.intros(2)] handed_inv by blast
next
  case (Alloc_loc env p n depth f l g p' a H)
  then show ?case
    using request_step [OF loc_requests(1)] handed_inv by blast
next
  case (Calloc_loc env p num n depth f l g p' a H)
  then show ?case
    using request_step [OF loc_requests(2)] handed_inv by blast
next
  case (Free h H env p p')
  then show ?case
    using mp_free_step [of p H h env] by (auto simp: released_def)
next
  case (BadFree ptr p env p' H)
  obtain q where "mp_free env p ptr = Some q" "pool_core q = pool_core p" "pool_books q = pool_books p"
    by (rule bad_free_frame [OF BadFree.hyps(1)])
  then show ?case
    using BadFree pool_cong by auto
next
  case (Setter p p' H)
  then show ?case
    using setter_frame pool_cong by blast
next
  case (Reserve p buf n p' ok H)
  then show ?case
    using reserve_inv by blast
qed

lemma pool_history_inv: "pool_history p H \<Longrightarrow> pool_inv p H"
proof (induction rule: pool_history.induct)
  case (Create level ndebug conf nproc calloc_ok m0 a os w cap flags p)
  let ?f = "mp_parse_env_flags conf (cmem_resolve_default_flags level ndebug flags)"
  let ?q = "init_percpu nproc calloc_ok (init_slabs (zeroed_pool a ?f w))"
  have "set_root None ?q = ?q"
    using new_pool_fields(5) [where q = ?q, OF disjI2 [OF refl]] by (simp add: set_root_def)
  then have "\<exists>r. p = set_root r ?q \<and> (r = None \<or> (\<exists>t. r = Some t \<and> tlsf_create_pool_custom m0 cap 0 os = Some t \<and> 0 < cap))"
    using Create.hyps(1) unfolding mp_create_custom_def mp_create_custom_impl_def
    by (cases "0 < cap"; cases "tlsf_create_pool_custom m0 cap 0 os") (auto simp: Let_def split: if_splits)
  then show ?case
    using set_root_ok [where q = ?q, OF disjI2 [OF refl] Create.hyps(2)] Create.hyps(3) by (metis less_irrefl)
next
  case (Create_static szp level ndebug conf nproc calloc_ok m0 w buf n flags p)
  let ?f = "mp_parse_env_flags conf (cmem_resolve_default_flags level ndebug flags)"
  let ?a = "align_up8 buf"
  let ?q0 = "init_slabs (zeroed_pool ?a (?f OR MP_FLAG_STATIC_BUFFER) w)"
  define q where "q = (if has_flag ?f MP_FLAG_PERCPU_FREELIST then init_percpu nproc calloc_ok ?q0 else ?q0)"
  define k where "k = n - (?a - buf) - szp - sizeof_tlsf_pool"
  have r: "mp_create_from_buffer szp level ndebug conf nproc calloc_ok m0 w buf n flags =
      (if buf = 0 \<or> n < szp + sizeof_tlsf_pool + TLSF_MIN_BLOCK_SIZE then None
       else if n \<le> (?a - buf) + szp + sizeof_tlsf_pool + TLSF_MIN_BLOCK_SIZE then None
       else case tlsf_create_pool_custom m0 k (?a + szp) 0 of None \<Rightarrow> None
            | Some t \<Rightarrow> Some ((set_root (Some t) q)\<lparr>resident_size := n\<rparr>))"
    unfolding mp_create_from_buffer_def Let_def q_def k_def ..
  obtain t where t: "tlsf_create_pool_custom m0 k (?a + szp) 0 = Some t" "p = (set_root (Some t) q)\<lparr>resident_size := n\<rparr>"
    using Create_static.hyps(1) unfolding r by (auto split: if_splits option.splits)
  have "?a - buf < 8"
    using align_up8_bounds [of buf] Create_static.hyps(3,5) by simp
  then have "64 \<le> k" "k \<le> 2 ^ 30"
    using Create_static.hyps(3,4) by (simp_all add: k_def)
  then have "64 \<le> align_up8 k" "align_up8 k \<le> 2 ^ 30"
    using align_up8_bounds(1) [of k] align_up8_eq [of k] by simp_all
  then have "pool_inv (set_root (Some t) q) {}"
    using t(1) Create_static.hyps(2) by (intro set_root_ok [of q]) (auto simp: q_def)
  then show ?case
    by (rule pool_cong) (simp_all add: t(2) pool_core_def pool_books_def)
next
  case (Step p H p' H')
  then show ?case
    using step_inv by blast
next
  case (Write p H h f)
  then show ?case
    using on_bytes_step by blast
qed

section \<open>Contents and canaries along a history\<close>

text \<open>What a call keeps: the contents and the header of every block that is held before and after.\<close>

definition keeps_blocks :: "memory_pool \<Rightarrow> addr set \<Rightarrow> memory_pool \<Rightarrow> addr set \<Rightarrow> bool" where
  "keeps_blocks p H p' H' \<longleftrightarrow> pool_flags p' = pool_flags p \<and> (\<forall>y \<in> H \<inter> H'. keeps_block p p' y \<and> header_at p' y = header_at p y)"

lemma keeps_frame:
  assumes "pool_inv p H" "pool_inv p' H" "\<And>y. y \<in> H \<Longrightarrow> header_at p' y = header_at p y" "pool_flags p' = pool_flags p" "pool_bytes p' = pool_bytes p"
  shows "keeps_blocks p H p' H"
proof -
  have "wrote {} p p'"
    by (rule wrote_cong [OF wrote_refl refl assms(5)])
  then show ?thesis
    using assms keeps_blockI [of p H _ p' H "{}"] by (simp add: keeps_blocks_def pool_inv_def)
qed

lemma keeps_core:
  assumes "pool_inv p H" "pool_core p' = pool_core p" "pool_books p' = pool_books p" "pool_bytes p' = pool_bytes p"
  shows "keeps_blocks p H p' H"
  using keeps_frame [OF assms(1) pool_cong [OF assms(1-3)]] core_cong(2,3) [OF assms(2)] assms(4) by simp

lemma request_keeps:
  assumes "pool_request p n p' a" "pool_inv p H"
  shows "keeps_blocks p H p' (if a = 0 then H else insert (a - sizeof_mp_block_header) H)"
  using request_step [OF assms] handed_keeps [OF assms(2)] by (auto simp: keeps_blocks_def handed_def)

lemma request_canaries:
  assumes "pool_request p n p' a" "pool_inv p H" "canaries p H"
  shows "canaries p' (if a = 0 then H else insert (a - sizeof_mp_block_header) H)"
  using request_step [OF assms(1,2)] handed_canaries [OF assms(2,3)] by blast

lemma step_keeps: "pool_step p H p' H' \<Longrightarrow> pool_inv p H \<Longrightarrow> keeps_blocks p H p' H'"
proof (induction rule: pool_step.induct)
  case (Alloc env p n p' a H)
  then show ?case
    using request_keeps [OF pool_request.intros(1)] by blast
next
  case (Calloc env p num n p' a H)
  then show ?case
    using request_keeps [OF pool_request.intros(2)] by blast
next
  case (Alloc_loc env p n depth f l g p' a H)
  then show ?case
    using request_keeps [OF loc_requests(1)] by blast
next
  case (Calloc_loc env p num n depth f l g p' a H)
  then show ?case
    using request_keeps [OF loc_requests(2)] by blast
next
  case (Free h H env p p')
  then show ?case
    using mp_free_step [of p H h env] released_keeps by (auto simp: keeps_blocks_def released_def)
next
  case (BadFree ptr p env p' H)
  obtain q where "mp_free env p ptr = Some q" "pool_core q = pool_core p" "pool_books q = pool_books p" "pool_bytes q = pool_bytes p"
    by (rule bad_free_frame [OF BadFree.hyps(1)])
  then show ?case
    using BadFree keeps_core by auto
next
  case (Setter p p' H)
  then show ?case
    using setter_frame keeps_core by blast
next
  case (Reserve p buf n p' ok H)
  then show ?case
    using reserve_inv [of p H buf n p' ok] by (intro keeps_frame) auto
qed

lemma step_canaries:
  assumes "pool_step p H p' H'" "pool_inv p H" "canaries p H"
  shows "canaries p' H'"
  using assms(1)
proof cases
  case (Alloc env n a)
  then show ?thesis
    using request_canaries [OF pool_request.intros(1) assms(2,3)] by blast
next
  case (Calloc env num n a)
  then show ?thesis
    using request_canaries [OF pool_request.intros(2) assms(2,3)] by blast
next
  case (Alloc_loc env n depth f l g a)
  then show ?thesis
    using request_canaries [OF loc_requests(1) assms(2,3)] by blast
next
  case (Calloc_loc env num n depth f l g a)
  then show ?thesis
    using request_canaries [OF loc_requests(2) assms(2,3)] by blast
next
  case (Free h env)
  then show ?thesis
    using released_canaries [OF assms(2,3)] by simp
qed (use step_keeps [OF assms(1,2)] canaries_kept [OF assms(3)] in \<open>simp_all add: keeps_blocks_def\<close>)

lemma pool_history_canaries: "pool_history p H \<Longrightarrow> canaries p H"
proof (induction rule: pool_history.induct)
  case (Step p H p' H')
  then show ?case
    using step_canaries pool_history_inv by blast
next
  case (Write p H h f)
  then show ?case
    using write_canaries [OF pool_history_inv [OF Write.hyps(1)], of h f] by (simp add: canary_at_def)
qed (simp_all add: canaries_def)

section \<open>Properties\<close>


text \<open>C2 -- Whatever tier a held block comes from, its header, the bytes that were asked for and the canary lie within the memory that
  the tier set aside for it, and no byte of that memory belongs to another held block.\<close>

theorem pool_blocks_apart:
  assumes "pool_history p H" "h \<in> H"
  shows "{h ..< h + sizeof_mp_block_header + requested_size (header_at p h) + canary_bytes p} \<subseteq> block_extent p h
    \<and> (\<forall>h' \<in> H - {h}. block_extent p h \<inter> block_extent p h' = {})"
proof -
  have t: "tiers p H"
    using pool_history_inv [OF assms(1)] by (simp add: pool_inv_def)
  show ?thesis
    using block_fits [OF t assms(2)] extents_apart [OF t assms(2)] by (auto simp: block_need_def canary_len_def canary_bytes_def add.assoc)
qed


text \<open>C7 -- The canary check raises no false alarm: as long as clients write only the bytes they asked for, the byte behind the payload of
  every held block is the canary, also after the block has been poisoned, so that the check of a release changes nothing.\<close>

theorem canary_no_false_alarm:
  assumes "pool_history p H" "h \<in> H" "has_flag (pool_flags p) MP_FLAG_DEBUG_CANARY"
  shows "mp_verify_free_canary p (h + sizeof_mp_block_header) = p
    \<and> (let q = on_bytes h (memset (h + sizeof_mp_block_header) MP_POISON_BYTE (requested_size (header_at p h))) p
       in mp_verify_free_canary q (h + sizeof_mp_block_header) = q)"
proof -
  note i = pool_history_inv [OF assms(1)] pool_history_canaries [OF assms(1)]
  have "byte_at p (canary_at p h) = MP_CANARY_BYTE"
    using i(2) assms(2,3) by (simp add: canaries_def)
  then show ?thesis
    using canary_check_passes [OF i assms(2,3), of MP_POISON_BYTE] on_bytes_step [OF i(1)] by (simp add: mp_verify_free_canary_def canary_at_def)
qed

text \<open>C3 -- The books are exact along every history: \<open>active_allocations\<close> and \<open>active_bytes\<close> are the number and the requested bytes of
  the held blocks, modulo the width of the counters, and unless the pool runs on the fast path the list of
  active blocks holds each of them once.\<close>

theorem pool_books_exact:
  assumes "pool_history p H"
  shows "finite H \<and> active_allocations p = card H mod 2 ^ 64
    \<and> active_bytes p = (\<Sum>h \<in> H. requested_size (header_at p h)) mod 2 ^ 64
    \<and> (has_flag (pool_flags p) MP_FLAG_FAST_PATH \<or> (\<exists>L. dll (act_next p) (act_prev p) (act_head p) L \<and> distinct L \<and> set L = H))"
proof -
  have "book_ok p H"
    using pool_history_inv [OF assms] by (simp add: pool_inv_def)
  then show ?thesis
    using dll_distinct unfolding book_ok_def held_bytes_def fast_path_def by blast
qed

text \<open>C5 -- Every request returns, in every state a history can reach and on every path, and either answers null and leaves the held
  blocks as they were, or hands out a block that nobody held, with the requested size in its header, and leaves
  the headers of the other held blocks alone; the block is cleared when the pool has the flag for it.\<close>

theorem mp_alloc_returns:
  assumes "pool_history p H" "env_ok env p n" "request_ok p n" "\<not> has_flag (pool_flags p) MP_FLAG_CACHE_ALIGNED"
  shows "\<exists>p' a. mp_alloc env p n = Some (p', a) \<and> (\<forall>h \<in> H. header_at p' h = header_at p h)
    \<and> (a \<noteq> 0 \<longrightarrow> a - sizeof_mp_block_header \<notin> H \<and> requested_size (header_at p' (a - sizeof_mp_block_header)) = n
       \<and> (has_flag (pool_flags p) MP_FLAG_ZERO_ON_ALLOC \<longrightarrow> (\<forall>x \<in> {a ..< a + n}. byte_at p' x = 0)))"
proof -
  obtain p' a where r: "mp_alloc env p n = Some (p', a)" "handed p H n p' a"
    using mp_alloc_step [OF pool_history_inv [OF assms(1)] assms(2-4)] by blast
  then have "filled p n p' a"
    using mp_alloc_filled [OF pool_history_inv [OF assms(1)] assms(2-4)] by blast
  then show ?thesis
    using r by (auto simp: handed_def filled_def formatted_def)
qed

text \<open>C9 -- Every request of \<open>mp_calloc\<close> whose product does not overflow returns, and when it hands out a block, the block has the
  size of the product and all of its bytes are zero, whatever the flags of the pool are and wherever the block comes from.\<close>

theorem mp_calloc_zeroed:
  assumes "pool_history p H" "num * n < 2 ^ 64" "env_ok env p (num * n)" "request_ok p (num * n)" "\<not> has_flag (pool_flags p) MP_FLAG_CACHE_ALIGNED"
  shows "\<exists>p' a. mp_calloc env p num n = Some (p', a)
    \<and> (a \<noteq> 0 \<longrightarrow> requested_size (header_at p' (a - sizeof_mp_block_header)) = num * n \<and> (\<forall>x \<in> {a ..< a + num * n}. byte_at p' x = 0))"
proof -
  obtain p' a where "mp_calloc env p num n = Some (p', a)" "handed p H (num * n) p' a" "a \<noteq> 0 \<longrightarrow> (\<forall>x \<in> {a ..< a + num * n}. byte_at p' x = 0)"
    using mp_calloc_step [OF pool_history_inv [OF assms(1)] assms(3-5), of num n] assms(2) by auto
  then show ?thesis
    by (auto simp: handed_def)
qed

text \<open>C6 -- Every release of a held block returns and leaves the headers of all other held blocks alone.\<close>

theorem mp_free_returns:
  assumes "pool_history p H" "h \<in> H"
  shows "\<exists>p'. mp_free env p (h + sizeof_mp_block_header) = Some p' \<and> pool_history p' (H - {h})
    \<and> (\<forall>y \<in> H - {h}. header_at p' y = header_at p y)"
proof -
  obtain p' where p': "mp_free env p (h + sizeof_mp_block_header) = Some p'" "released p H h p'"
    using mp_free_step [OF pool_history_inv [OF assms(1)] assms(2)] by blast
  then have "pool_history p' (H - {h})"
    using pool_history.Step [OF assms(1) pool_step.Free [OF assms(2)]] by blast
  then show ?thesis
    using p' by (auto simp: released_def)
qed

text \<open>When everything has been given back the books are empty: no allocation and no byte counted, no block on the list.\<close>

theorem pool_all_freed:
  assumes "pool_history p {}"
  shows "active_allocations p = 0 \<and> active_bytes p = 0 \<and> (has_flag (pool_flags p) MP_FLAG_FAST_PATH \<or> act_head p = 0)"
proof -
  have "book_ok p {}"
    using pool_history_inv [OF assms] by (simp add: pool_inv_def)
  then show ?thesis
    by (auto simp: book_ok_def held_bytes_def fast_path_def)
qed



section \<open>A concrete history\<close>

text \<open>A thread-safe pool with canaries hands out two blocks of five million bytes, which come from the operating system, and takes one back.\<close>

definition zero_header :: mp_block_header where
  "zero_header = \<lparr>magic = 0, alloc_type = 0, slab_class = 0, hflags = 0, requested_size = 0, usable_size = 0, raw_base = 0,
     subpool = 0, alloc_file = 0, alloc_line = 0, alloc_func = 0, backtrace_depth = 0, hprev = 0, hnext = 0\<rparr>"

definition ex_world :: memory_pool where
  "ex_world = \<lparr>self = 0, pool_flags = 0, classes = \<lparr>use_custom_slab_sizes = False, custom_slab_sizes = [], class_slot_sizes = []\<rparr>,
     slab = two_slot_pool,
     tlsf = \<lparr>pflags = 0, tlsf_root = [], total_pool_size = 0, tlsf_allocated_bytes = 0, hdrs = (\<lambda>_. zero_header), bytes = (\<lambda>_. 0)\<rparr>,
     tcaches = (\<lambda>_. empty_tlsf_cache), ohdr = (\<lambda>_. zero_header), omem = (\<lambda>_. 0), os_blocks = [], act_head = 0, act_next = (\<lambda>_. 0),
     act_prev = (\<lambda>_. 0), active_bytes = 0, peak_bytes = 0, active_allocations = 0, total_alloc_ops = 0, total_free_ops = 0,
     os_allocated_bytes = 0, resident_size = 0, size_histogram = (\<lambda>_. 0), max_memory_limit = 0, fallback_to_sys_alloc_on_oom = False,
     emergency_buf = 0, emergency_size = 0, emergency_used = False, is_dirty = False, circuit_breaker_enabled = False,
     circuit_breaker_tripped = False, thread_quota_bytes = 0, thread_quota = (\<lambda>_. \<lparr>alloc_bytes = 0, alloc_count = 0\<rparr>), event_cb = False,
     events = [], watermark_cb = False, in_high_watermark_state = False, high_thresh = (\<lambda>_. None), low_thresh = (\<lambda>_. None),
     watermarks = [], error_recovery_cb = False, recoveries = []\<rparr>"

definition ex_env :: "addr \<Rightarrow> call_env" where
  "ex_env a = \<lparr>thread = 0, cpu = 0, cas1 = True, cas2 = True, mmaps = [], os_init = 0, os_expand = 0, os_block = a,
     fresh_mem = (\<lambda>_. \<lparr>size_and_flags = 0, prev_physical = 0, next_free = 0, prev_free = 0\<rparr>)\<rparr>"

definition ex_pool :: memory_pool where
  "ex_pool = the (mp_create_custom 0 False None 1 False (fresh_mem (ex_env 0)) 4096 0 ex_world 0 (MP_FLAG_THREAD_SAFE OR MP_FLAG_DEBUG_CANARY))"

definition ex_pool1 :: memory_pool where
  "ex_pool1 = fst (the (mp_alloc (ex_env 16777216) ex_pool 5000000))"

definition ex_pool2 :: memory_pool where
  "ex_pool2 = fst (the (mp_alloc (ex_env 33554432) ex_pool1 5000000))"

lemma ex_pool_created: "mp_create_custom 0 False None 1 False (fresh_mem (ex_env 0)) 4096 0 ex_world 0 (MP_FLAG_THREAD_SAFE OR MP_FLAG_DEBUG_CANARY) = Some ex_pool"
  by (simp add: ex_pool_def mp_create_custom_def mp_create_custom_impl_def)

lemma ex_pool_history: "pool_history ex_pool {}"
  by (rule pool_history.Create [OF ex_pool_created]) (simp_all add: ex_world_def two_slot_pool_def slab_init_def)

lemma ex_pool_eq: "ex_pool = init_percpu 1 False (init_slabs (zeroed_pool 4096 3 ex_world))"
  by (simp add: ex_pool_def mp_create_custom_def mp_create_custom_impl_def mp_parse_env_flags_def cmem_resolve_default_flags_def MP_FLAG_THREAD_SAFE_def MP_FLAG_DEBUG_CANARY_def MP_FLAG_DEFAULT_def)

lemmas pool_eval = mp_alloc_def mp_alloc_internal_def dispatch_def os_request_def os_payload_def account_def count_alloc_def count_size_def
  limit_exceeded_def mp_is_pool_dirty_def check_watermark_after_change_def trigger_event_def charge_quota_def canary_bytes_def
  active_list_add_def set_act_next_def set_act_prev_def put_header_def header_at_def area_of_def os_ranges_def in_range_def
  get_slab_class_index_def SLAB_MAX_SIZE_def TLSF_MAX_SIZE_def sizeof_mp_block_header_def SLAB_CLASS_COUNT_def CMEM_HISTOGRAM_BUCKETS_def
  has_flag_def MP_FLAG_THREAD_SAFE_def MP_FLAG_DEBUG_CANARY_def MP_FLAG_ZERO_ON_ALLOC_def MP_FLAG_STATIC_BUFFER_def MP_FLAG_CACHE_ALIGNED_def
  MP_FLAG_FAST_PATH_def MP_BLOCK_FLAG_COUNTED_def MP_MAGIC_HEAD_def ALLOC_TYPE_OS_def

lemmas pool_example_defs = ex_pool_eq ex_world_def init_percpu_def init_slabs_def zeroed_pool_def percpu_init_def slab_init_def init_class_sizes_def
  ex_env_def two_slot_pool_def

lemma ex_pool1_alloc: "mp_alloc (ex_env 16777216) ex_pool 5000000 = Some (ex_pool1, 16777368)"
  by (simp add: ex_pool1_def pool_eval pool_example_defs cong: let_weak_cong)

lemma ex_pool2_alloc: "mp_alloc (ex_env 33554432) ex_pool1 5000000 = Some (ex_pool2, 33554584)"
  by (simp add: ex_pool2_def ex_pool1_def pool_eval pool_example_defs cong: let_weak_cong)

lemma ex_mem:
  "used_mem ex_pool = {}" "used_mem ex_pool1 = {16777216 ..< 21777369}"
proof -
  have l: "\<not> listed_page st q" if "page_heads st = (\<lambda>_. 0)" for st q
    using that dll_null_iff by (fastforce simp: listed_page_def)
  have 0: "page_heads (slab ex_pool) = (\<lambda>_. 0)" "tlsf_root (tlsf ex_pool) = []" "os_ranges ex_pool = []"
    by (simp_all add: pool_example_defs os_ranges_def)
  then show "used_mem ex_pool = {}"
    using l by (simp add: used_mem_def regions_def os_mem_def)
  have 1: "page_heads (slab ex_pool1) = (\<lambda>_. 0)" "tlsf_root (tlsf ex_pool1) = []" "os_ranges ex_pool1 = [(16777216, 5000153)]"
    by (simp_all add: ex_pool1_def pool_eval pool_example_defs cong: let_weak_cong)
  then show "used_mem ex_pool1 = {16777216 ..< 21777369}"
    using l by (simp add: used_mem_def regions_def os_mem_def span_def)
qed

lemma ex_call_env_ok:
  assumes "pool_flags p = 3" "{a ..< a + 5000153} \<inter> used_mem p = {}"
  shows "env_ok (ex_env a) p 5000000" "request_ok p 5000000" "\<not> has_flag (pool_flags p) MP_FLAG_CACHE_ALIGNED"
  using assms by (simp_all add: env_ok_def ex_env_def fresh_maps_def canary_bytes_def sizeof_mp_block_header_def has_flag_def
      MP_FLAG_DEBUG_CANARY_def request_ok_def SLAB_MAX_SIZE_def MP_FLAG_STATIC_BUFFER_def MP_FLAG_CACHE_ALIGNED_def)

lemma ex_flags: "pool_flags ex_pool = 3" "pool_flags ex_pool1 = 3" "pool_flags ex_pool2 = 3"
  by (simp_all add: ex_pool2_def ex_pool1_def pool_eval pool_example_defs cong: let_weak_cong)

lemma ex_ok:
  "env_ok (ex_env 16777216) ex_pool 5000000" "request_ok ex_pool 5000000" "\<not> has_flag (pool_flags ex_pool) MP_FLAG_CACHE_ALIGNED"
  "env_ok (ex_env 33554432) ex_pool1 5000000" "request_ok ex_pool1 5000000" "\<not> has_flag (pool_flags ex_pool1) MP_FLAG_CACHE_ALIGNED"
  using ex_call_env_ok [of ex_pool 16777216] ex_call_env_ok [of ex_pool1 33554432] ex_flags(1,2) ex_mem by simp_all

lemma ex_pool1_history: "pool_history ex_pool1 {16777216}"
  using pool_history.Step [OF ex_pool_history pool_step.Alloc [OF ex_ok(1-3) ex_pool1_alloc]] by (simp add: sizeof_mp_block_header_def)

lemma ex_pool2_history: "pool_history ex_pool2 {16777216, 33554432}"
  using pool_history.Step [OF ex_pool1_history pool_step.Alloc [OF ex_ok(4-6) ex_pool2_alloc]]
  by (simp add: sizeof_mp_block_header_def insert_commute)


theorem pool_blocks_apart_witness: "block_extent ex_pool2 16777216 \<inter> block_extent ex_pool2 33554432 = {}"
  using pool_blocks_apart [OF ex_pool2_history, of 16777216] by simp


theorem canary_no_false_alarm_witness: "mp_verify_free_canary ex_pool2 16777368 = ex_pool2"
  using canary_no_false_alarm [OF ex_pool2_history, of 16777216] ex_flags(3)
  by (simp add: sizeof_mp_block_header_def has_flag_def MP_FLAG_DEBUG_CANARY_def Let_def)

theorem pool_books_exact_witness: "active_allocations ex_pool2 = 2"
  using pool_books_exact [OF ex_pool2_history] by simp

theorem mp_alloc_returns_witness:
  "\<exists>p' a. mp_alloc (ex_env 33554432) ex_pool1 5000000 = Some (p', a) \<and> header_at p' 16777216 = header_at ex_pool1 16777216"
  using mp_alloc_returns [OF ex_pool1_history ex_ok(4-6)] by auto

theorem mp_calloc_zeroed_witness:
  "\<exists>p' a. mp_calloc (ex_env 33554432) ex_pool1 50 100000 = Some (p', a) \<and> (a \<noteq> 0 \<longrightarrow> byte_at p' (a + 4999999) = 0)"
proof -
  obtain p' a where "mp_calloc (ex_env 33554432) ex_pool1 50 100000 = Some (p', a)"
    "a \<noteq> 0 \<longrightarrow> (\<forall>x \<in> {a ..< a + 5000000}. byte_at p' x = 0)"
    using mp_calloc_zeroed [OF ex_pool1_history, of 50 100000 "ex_env 33554432"] ex_ok(4-6) by auto
  then show ?thesis
    by auto
qed

theorem mp_free_returns_witness:
  "\<exists>p'. mp_free (ex_env 0) ex_pool2 16777368 = Some p' \<and> pool_history p' {33554432} \<and> header_at p' 33554432 = header_at ex_pool2 33554432"
  using mp_free_returns [OF ex_pool2_history, of 16777216 "ex_env 0"] by (simp add: sizeof_mp_block_header_def)

theorem pool_all_freed_witness: "\<exists>p. mp_free (ex_env 0) ex_pool1 16777368 = Some p \<and> active_allocations p = 0 \<and> active_bytes p = 0"
proof -
  obtain p where p: "mp_free (ex_env 0) ex_pool1 (16777216 + sizeof_mp_block_header) = Some p"
    using mp_free_step [OF pool_history_inv [OF ex_pool1_history], of 16777216 "ex_env 0"] by auto
  then have "pool_history p {}"
    using pool_history.Step [OF ex_pool1_history pool_step.Free [of 16777216]] by fastforce
  then show ?thesis
    using p pool_all_freed by (auto simp: sizeof_mp_block_header_def)
qed



end
