(* ===== verification/Pool_Move.thy ===== *)
theory Pool_Move
  imports Pool_Trace
begin

text \<open>
  Calls that hand out a block and fill it: \<open>mp_realloc\<close> on a block that does not fit its place any more, which copies the
  contents and takes the old block back, and the copies of foreign memory and strings made by \<open>mp_memdup\<close> and \<open>mp_strdup\<close>.
\<close>

section \<open>Copying between blocks\<close>

lemma copy_history:
  assumes "pool_history p H" "h \<in> H" "n \<le> requested_size (header_at p h)"
  shows "pool_history (copy_bytes (h + sizeof_mp_block_header) src n p) H"
  unfolding copy_bytes_def add_diff_cancel_right' by (rule pool_history.Write [OF assms(1,2)]) (use assms(3) in auto)

lemma copy_copies:
  assumes "pool_history p H" "h \<in> H" "n \<le> requested_size (header_at p h)" "i < n"
  shows "byte_at (copy_bytes (h + sizeof_mp_block_header) src n p) (h + sizeof_mp_block_header + i) = byte_at p (src + i)"
proof -
  have "area_of p (h + sizeof_mp_block_header + i) = area_of p h"
    using pool_history_inv [OF assms(1)] assms(2-4) by (intro payload_area [of p H]) (simp_all add: pool_inv_def block_need_def)
  then show ?thesis
    using assms(4) by (simp add: copy_bytes_def byte_at_on_bytes)
qed

lemma held_magic: "pool_history p H \<Longrightarrow> h \<in> H \<Longrightarrow> magic (header_at p h) = MP_MAGIC_HEAD"
  using pool_history_inv [of p H] held_types(5) [of p] by (auto simp: pool_inv_def tiers_def)

section \<open>Copies of foreign memory\<close>

lemma alloc_loc_history:
  assumes "pool_history p H" "env_ok env p n" "request_ok p n" "\<not> has_flag (pool_flags p) MP_FLAG_CACHE_ALIGNED"
  obtains q a where "mp_alloc_loc env depth p n file line func = Some (q, a)"
    "a = 0 \<Longrightarrow> pool_history q H"
    "a \<noteq> 0 \<Longrightarrow> \<exists>h. a = h + sizeof_mp_block_header \<and> h \<notin> H \<and> pool_history q (insert h H) \<and> requested_size (header_at q h) = n"
proof -
  obtain r a where "mp_alloc env p n = Some (r, a)"
    using mp_alloc_step [OF pool_history_inv [OF assms(1)] assms(2-4)] by blast
  then obtain q where q: "mp_alloc_loc env depth p n file line func = Some (q, a)"
    by (simp add: mp_alloc_loc_def)
  note hist = pool_history.Step [OF assms(1) pool_step.Alloc_loc [OF assms(2-4) q]]
  have "handed p H n q a"
    using request_step [OF loc_requests(1) [OF assms(2-4) q] pool_history_inv [OF assms(1)]] by blast
  then have "a = 0 \<Longrightarrow> pool_history q H"
    "a \<noteq> 0 \<Longrightarrow> \<exists>h. a = h + sizeof_mp_block_header \<and> h \<notin> H \<and> pool_history q (insert h H) \<and> requested_size (header_at q h) = n"
    using hist by (auto simp: handed_def)
  then show thesis
    by (rule that [OF q])
qed

lemma store_history:
  assumes "pool_history p H" "h \<in> H" "length bs \<le> requested_size (header_at p h)"
  shows "pool_history (store_bytes (h + sizeof_mp_block_header) bs p) H"
    "i < length bs \<Longrightarrow> byte_at (store_bytes (h + sizeof_mp_block_header) bs p) (h + sizeof_mp_block_header + i) = bs ! i"
proof -
  show "pool_history (store_bytes (h + sizeof_mp_block_header) bs p) H"
    unfolding store_bytes_def add_diff_cancel_right' by (rule pool_history.Write [OF assms(1,2)]) (use assms(3) in auto)
  show "byte_at (store_bytes (h + sizeof_mp_block_header) bs p) (h + sizeof_mp_block_header + i) = bs ! i" if "i < length bs"
  proof -
    have "area_of p (h + sizeof_mp_block_header + i) = area_of p h"
      using pool_history_inv [OF assms(1)] assms(2,3) that by (intro payload_area [of p H]) (simp_all add: pool_inv_def block_need_def)
    then show ?thesis
      using that by (simp add: store_bytes_def byte_at_on_bytes)
  qed
qed

text \<open>A request of as many bytes as a text has, and the text stored in the block it answers with.\<close>

lemma store_new:
  assumes "pool_history p H" "env_ok env p n" "request_ok p n" "\<not> has_flag (pool_flags p) MP_FLAG_CACHE_ALIGNED" "n = length bs"
  shows "\<exists>p' a. map_option (\<lambda>(p, dup). (if dup \<noteq> 0 then store_bytes dup bs p else p, dup)) (mp_alloc_loc env depth p n file line func) = Some (p', a)
    \<and> pool_history p' (if a = 0 then H else insert (a - sizeof_mp_block_header) H)
    \<and> (a \<noteq> 0 \<longrightarrow> (\<forall>i < length bs. byte_at p' (a + i) = bs ! i))"
proof -
  obtain q a where q: "mp_alloc_loc env depth p n file line func = Some (q, a)" "a = 0 \<Longrightarrow> pool_history q H"
    "a \<noteq> 0 \<Longrightarrow> \<exists>h. a = h + sizeof_mp_block_header \<and> h \<notin> H \<and> pool_history q (insert h H) \<and> requested_size (header_at q h) = n"
    using alloc_loc_history [OF assms(1-4), of depth "file" line func] by metis
  show ?thesis
  proof (cases "a = 0")
    case True
    then show ?thesis
      using q by simp
  next
    case False
    then obtain h where h: "a = h + sizeof_mp_block_header" "pool_history q (insert h H)" "length bs \<le> requested_size (header_at q h)"
      using q(3) assms(5) by auto
    have "pool_history (store_bytes a bs q) (insert (a - sizeof_mp_block_header) H)"
      using store_history(1) [OF h(2) _ h(3)] h(1) by simp
    moreover have "byte_at (store_bytes a bs q) (a + i) = bs ! i" if "i < length bs" for i
      unfolding h(1) by (rule store_history(2) [OF h(2) _ h(3) that]) simp
    ultimately show ?thesis
      using q(1) False by simp
  qed
qed

text \<open>C36 -- The copies of foreign memory and of strings are faithful: \<open>mp_memdup\<close> and \<open>mp_strdup\<close> return, and when they answer a block,
  the block is held, starts with the bytes of the source, and behind a string there is a zero.  Null and empty sources get null.\<close>

theorem mp_dup_faithful:
  assumes "pool_history p H" "\<not> has_flag (pool_flags p) MP_FLAG_CACHE_ALIGNED"
    "env_ok env p (length bs)" "request_ok p (length bs)" "env_ok env p (length bs + 1)" "request_ok p (length bs + 1)"
  shows "(\<exists>p' a. mp_memdup env p (Some bs) = Some (p', a)
      \<and> (a \<noteq> 0 \<longrightarrow> pool_history p' (insert (a - sizeof_mp_block_header) H) \<and> (\<forall>i < length bs. byte_at p' (a + i) = bs ! i)))
    \<and> (\<exists>p' a. mp_strdup env p (Some bs) = Some (p', a)
      \<and> (a \<noteq> 0 \<longrightarrow> pool_history p' (insert (a - sizeof_mp_block_header) H) \<and> (\<forall>i < length bs. byte_at p' (a + i) = bs ! i) \<and> byte_at p' (a + length bs) = 0))
    \<and> mp_memdup env p None = Some (p, 0) \<and> mp_strdup env p None = Some (p, 0) \<and> mp_memdup env p (Some []) = Some (p, 0)"
proof (intro conjI)
  show "\<exists>p' a. mp_memdup env p (Some bs) = Some (p', a)
      \<and> (a \<noteq> 0 \<longrightarrow> pool_history p' (insert (a - sizeof_mp_block_header) H) \<and> (\<forall>i < length bs. byte_at p' (a + i) = bs ! i))"
  proof (cases "bs = []")
    case False
    obtain p' a where "mp_memdup env p (Some bs) = Some (p', a)" "pool_history p' (if a = 0 then H else insert (a - sizeof_mp_block_header) H)"
      "a \<noteq> 0 \<longrightarrow> (\<forall>i < length bs. byte_at p' (a + i) = bs ! i)"
      unfolding mp_memdup_def mp_memdup_loc_def option.case length_0_conv if_not_P [OF False]
      using store_new [OF assms(1,3,4,2) refl, of 0 0 0 0] by blast
    then show ?thesis
      by (intro exI [of _ p'] exI [of _ a]) (simp split: if_splits)
  qed (simp add: mp_memdup_def mp_memdup_loc_def)
  obtain p' a where "mp_strdup env p (Some bs) = Some (p', a)" "pool_history p' (if a = 0 then H else insert (a - sizeof_mp_block_header) H)"
    and b: "a \<noteq> 0 \<longrightarrow> (\<forall>i < length (bs @ [0]). byte_at p' (a + i) = (bs @ [0]) ! i)"
    unfolding mp_strdup_def mp_strdup_loc_def option.case using store_new [OF assms(1,5,6,2), of "bs @ [0]" 0 0 0 0] by auto
  moreover have "a \<noteq> 0 \<longrightarrow> (\<forall>i < length bs. byte_at p' (a + i) = bs ! i) \<and> byte_at p' (a + length bs) = 0"
    using b by (simp add: nth_append)
  ultimately show "\<exists>p' a. mp_strdup env p (Some bs) = Some (p', a)
      \<and> (a \<noteq> 0 \<longrightarrow> pool_history p' (insert (a - sizeof_mp_block_header) H) \<and> (\<forall>i < length bs. byte_at p' (a + i) = bs ! i) \<and> byte_at p' (a + length bs) = 0)"
    by (intro exI [of _ p'] exI [of _ a]) (simp split: if_splits)
qed (simp_all add: mp_memdup_def mp_memdup_loc_def mp_strdup_def mp_strdup_loc_def)

section \<open>Resizing\<close>

lemma header_copy: "header_at (copy_bytes dst src n p) = header_at p"
  by (simp add: copy_bytes_def fun_eq_iff header_at_def) (simp add: on_bytes_def split: area.splits)

text \<open>What a block that keeps its place keeps.\<close>

definition same_block :: "memory_pool \<Rightarrow> memory_pool \<Rightarrow> addr \<Rightarrow> bool" where
  "same_block p p' h \<longleftrightarrow> header_at p' h = header_at p h
     \<and> (\<forall>x \<in> {h ..< h + sizeof_mp_block_header + requested_size (header_at p h)}. byte_at p' x = byte_at p x)"

lemma same_block_trans: "same_block p q h \<Longrightarrow> same_block q r h \<Longrightarrow> same_block p r h"
  by (simp add: same_block_def)

lemma step_same:
  assumes "pool_history p H" "pool_step p H p' H'" "h \<in> H" "h \<in> H'"
  shows "same_block p p' h"
  using step_keeps [OF assms(2) pool_history_inv [OF assms(1)]] assms(3,4)
  by (auto simp: keeps_blocks_def keeps_block_def block_need_def same_block_def)

lemma copy_same:
  assumes "pool_history p H" "h \<in> H" "n \<le> requested_size (header_at p h)" "y \<in> H" "y \<noteq> h"
  shows "same_block p (copy_bytes (h + sizeof_mp_block_header) src n p) y"
proof -
  let ?p = "copy_bytes (h + sizeof_mp_block_header) src n p"
  have t: "tiers p H"
    using pool_history_inv [OF assms(1)] by (simp add: pool_inv_def)
  have "byte_at ?p x = byte_at p x" if "x \<in> {y ..< y + sizeof_mp_block_header + requested_size (header_at p y)}" for x
  proof -
    have "x \<in> block_extent p y"
      using that block_fits [OF t assms(4)] by (auto simp: block_need_def)
    moreover have "{h ..< h + sizeof_mp_block_header + requested_size (header_at p h)} \<subseteq> block_extent p h"
      using block_fits [OF t assms(2)] by (auto simp: block_need_def)
    moreover have "{h + sizeof_mp_block_header ..< h + sizeof_mp_block_header + n} \<subseteq> {h ..< h + sizeof_mp_block_header + requested_size (header_at p h)}"
      using assms(3) by auto
    ultimately have "x \<notin> {h + sizeof_mp_block_header ..< h + sizeof_mp_block_header + n}"
      using extents_apart [OF t assms(2,4)] assms(5) by blast
    then show ?thesis
      by (auto simp: copy_bytes_def byte_at_on_bytes) (simp_all add: byte_at_store)
  qed
  then show ?thesis
    by (simp add: same_block_def header_copy)
qed

text \<open>C8 -- Growing a block of the slab tier, of the operating system or of the emergency buffer beyond its place.  The call returns.
  Either there is no memory for the new block, the answer is null, and the old block is still held with its contents; or
  the new block replaces the old one among the held blocks, has the new size, and starts with the contents of the old one.
  All other blocks keep their headers and contents.\<close>

theorem mp_realloc_moves:
  assumes hist: "pool_history p H" and h: "h \<in> H" "alloc_type (header_at p h) \<noteq> ALLOC_TYPE_TLSF"
    and n: "usable_size (header_at p h) < n" "requested_size (header_at p h) \<le> n"
    and env: "env_ok env p n" "request_ok p n" "\<not> has_flag (pool_flags p) MP_FLAG_CACHE_ALIGNED"
  shows "\<exists>p' a. mp_realloc env env' p (h + sizeof_mp_block_header) n = Some (p', a)
    \<and> (if a = 0 then pool_history p' H \<and> same_block p p' h
       else pool_history p' (insert (a - sizeof_mp_block_header) (H - {h})) \<and> requested_size (header_at p' (a - sizeof_mp_block_header)) = n
         \<and> (\<forall>i < requested_size (header_at p h). byte_at p' (a + i) = byte_at p (h + sizeof_mp_block_header + i)))
    \<and> (\<forall>y \<in> H - {h}. same_block p p' y)"
proof -
  obtain q a where q: "mp_alloc env p n = Some (q, a)" "handed p H n q a"
    using mp_alloc_step [OF pool_history_inv [OF hist] env] by blast
  let ?m = "requested_size (header_at p h)"
  note step = pool_step.Alloc [OF env q(1)]
  note hq = pool_history.Step [OF hist step]
  have same: "same_block p q y" if "y \<in> H" for y
    using step_same [OF hist step, of y] that by simp
  have nz: "h + sizeof_mp_block_header \<noteq> 0" "n \<noteq> 0"
    using n by (simp_all add: sizeof_mp_block_header_def)
  have hdr: "requested_size (header_at q h) = ?m"
    using same [OF h(1)] by (simp add: same_block_def)
  have r: "mp_realloc env env' p (h + sizeof_mp_block_header) n =
      (if a = 0 then Some (q, 0) else map_option (\<lambda>p. (p, a)) (mp_free env' (copy_bytes a (h + sizeof_mp_block_header) ?m q) (h + sizeof_mp_block_header)))"
    using nz(2) h n held_magic [OF hist h(1)] q(1) hdr unfolding mp_realloc_def Let_def if_not_P [OF nz(1)] by simp
  show ?thesis
  proof (cases "a = 0")
    case True
    then show ?thesis
      using r hq same h(1) by auto
  next
    case False
    then obtain k where k: "a = k + sizeof_mp_block_header" "k \<notin> H" "requested_size (header_at q k) = n"
      using q(2) by (auto simp: handed_def)
    have hq: "pool_history q (insert k H)"
      using hq False by (simp add: k(1) sizeof_mp_block_header_def)
    let ?c = "copy_bytes a (h + sizeof_mp_block_header) ?m q"
    have km: "?m \<le> requested_size (header_at q k)"
      using k(3) n(2) by simp
    have hc: "pool_history ?c (insert k H)"
      unfolding k(1) by (rule copy_history [OF hq _ km]) simp
    obtain p' where p': "mp_free env' ?c (h + sizeof_mp_block_header) = Some p'"
      using mp_free_step [OF pool_history_inv [OF hc], of h env'] h(1) by auto
    have fs: "pool_step ?c (insert k H) p' (insert k H - {h})"
      by (rule pool_step.Free [OF _ p']) (use h(1) in simp)
    have hist': "pool_history p' (insert k (H - {h}))"
      using pool_history.Step [OF hc fs] k(2) h(1) by (simp add: insert_Diff_if split: if_splits)
    have sk: "same_block ?c p' y" if "y \<in> insert k H - {h}" for y
      using step_same [OF hc fs] that by simp
    have kh: "k \<in> insert k H - {h}"
      using k(2) h(1) by auto
    have "requested_size (header_at p' k) = n"
      using sk [OF kh] k(3) by (simp add: same_block_def header_copy)
    moreover have "byte_at p' (a + i) = byte_at p (h + sizeof_mp_block_header + i)" if i: "i < ?m" for i
    proof -
      have "byte_at p' (a + i) = byte_at ?c (a + i)"
        using sk [OF kh] i n(2) k(1,3) by (simp add: same_block_def header_copy)
      also have "\<dots> = byte_at q (h + sizeof_mp_block_header + i)"
        unfolding k(1) by (rule copy_copies [OF hq _ km i]) simp
      also have "\<dots> = byte_at p (h + sizeof_mp_block_header + i)"
        using same [OF h(1)] i by (simp add: same_block_def)
      finally show ?thesis .
    qed
    moreover have "same_block p p' y" if y: "y \<in> H - {h}" for y
    proof -
      have "same_block q ?c y"
        unfolding k(1) using y k(2) by (intro copy_same [OF hq _ km]) auto
      then show ?thesis
        using same_block_trans [OF same_block_trans [OF same]] sk y by blast
    qed
    moreover have "mp_realloc env env' p (h + sizeof_mp_block_header) n = Some (p', a)"
      using r p' False by simp
    moreover have "a - sizeof_mp_block_header = k"
      using k(1) by simp
    ultimately show ?thesis
      using False hist' by auto
  qed
qed

definition ex_text :: "nat list" where
  "ex_text = replicate 5000000 65"

lemma ex_text_length: "length ex_text = 5000000"
  by (simp only: ex_text_def length_replicate)

theorem mp_dup_faithful_witness:
  "\<exists>p' a. mp_strdup (ex_env 33554432) ex_pool1 (Some ex_text) = Some (p', a) \<and> (a \<noteq> 0 \<longrightarrow> byte_at p' (a + 5000000) = 0)"
proof -
  have "env_ok (ex_env 33554432) ex_pool1 5000001" "request_ok ex_pool1 5000001"
    using ex_mem(2) ex_flags(2) by (simp_all add: env_ok_def ex_env_def fresh_maps_def canary_bytes_def sizeof_mp_block_header_def has_flag_def
        MP_FLAG_DEBUG_CANARY_def request_ok_def SLAB_MAX_SIZE_def MP_FLAG_STATIC_BUFFER_def)
  then show ?thesis
    using mp_dup_faithful [OF ex_pool1_history ex_ok(6), of "ex_env 33554432" ex_text] ex_ok(4,5) by (auto simp: ex_text_length)
qed

theorem mp_realloc_moves_witness:
  "\<exists>p' a. mp_realloc (ex_env 33554432) (ex_env 0) ex_pool1 16777368 6000000 = Some (p', a)
    \<and> (a \<noteq> 0 \<longrightarrow> pool_history p' {a - sizeof_mp_block_header} \<and> byte_at p' (a + 7) = byte_at ex_pool1 16777375)"
proof -
  have h: "alloc_type (header_at ex_pool1 16777216) \<noteq> ALLOC_TYPE_TLSF" "usable_size (header_at ex_pool1 16777216) = 5000000"
    "requested_size (header_at ex_pool1 16777216) = 5000000"
    by (simp_all add: ex_pool1_def pool_eval ALLOC_TYPE_TLSF_def pool_example_defs cong: let_weak_cong)
  have "env_ok (ex_env 33554432) ex_pool1 6000000" "request_ok ex_pool1 6000000"
    using ex_mem(2) ex_flags(2) by (simp_all add: env_ok_def ex_env_def fresh_maps_def canary_bytes_def sizeof_mp_block_header_def has_flag_def
        MP_FLAG_DEBUG_CANARY_def request_ok_def SLAB_MAX_SIZE_def MP_FLAG_STATIC_BUFFER_def)
  then show ?thesis
    using mp_realloc_moves [OF ex_pool1_history _ h(1), of 6000000 "ex_env 33554432" "ex_env 0"] ex_ok(6) h(2,3)
    by (fastforce simp: sizeof_mp_block_header_def)
qed

end
