(* ===== verification/Pool_Diag.thy ===== *)
theory Pool_Diag
  imports Pool_Move C_String
begin

text \<open>
  What a pool tells about itself: the audit of all headers and canaries, the tests of a pointer, the sizes of a block, the
  leak check, the binary snapshot, the list of memory regions and the latency histogram.  Shown: along every history these
  answers are exact.  Reports in prose, HTML, JSON and Prometheus format, which print the same data, are left out.
\<close>

section \<open>Walking the list of active blocks\<close>

text \<open>The fields \<open>magic\<close> and \<open>requested_size\<close> are read from the header, the canary from the byte behind the payload.\<close>

partial_function (option) audit_loop :: "memory_pool \<Rightarrow> addr \<Rightarrow> bool \<Rightarrow> bool option" where
  "audit_loop p cur healthy =
     (if cur = 0 then Some healthy
      else let payload = cur + sizeof_mp_block_header;
               healthy = (if magic (header_at p cur) \<noteq> MP_MAGIC_HEAD then False else healthy);
               healthy = (if has_flag (pool_flags p) MP_FLAG_DEBUG_CANARY
                            \<and> byte_at p (payload + requested_size (header_at p cur)) \<noteq> MP_CANARY_BYTE then False else healthy)
           in audit_loop p (act_next p cur) healthy)"

definition mp_audit_heap :: "memory_pool \<Rightarrow> bool option" where
  "mp_audit_heap p = (if has_flag (pool_flags p) MP_FLAG_FAST_PATH then Some True else audit_loop p (act_head p) True)"

partial_function (option) find_loop :: "memory_pool \<Rightarrow> addr \<Rightarrow> addr \<Rightarrow> bool option" where
  "find_loop p cur header = (if cur = 0 then Some False else if cur = header then Some True else find_loop p (act_next p cur) header)"

text \<open>The free list of a page, at most \<open>n\<close> entries of it.\<close>

fun on_free_list :: "slab_pool \<Rightarrow> addr \<Rightarrow> nat \<Rightarrow> addr \<Rightarrow> bool" where
  "on_free_list st header 0 slot = False"
| "on_free_list st header (Suc n) slot =
     (if slot = 0 then False else if slot = header then True else on_free_list st header n (slot_next st slot))"

definition mp_fastpath_slot_live :: "memory_pool \<Rightarrow> addr \<Rightarrow> bool" where
  "mp_fastpath_slot_live p h =
     (let hdr = header_at p h
      in if alloc_type hdr \<noteq> ALLOC_TYPE_SLAB then raw_base hdr \<noteq> 0
         else if SLAB_CLASS_COUNT \<le> slab_class hdr \<or> raw_base hdr \<noteq> h then False
         else let ptr_val = h + sizeof_mp_block_header;
                  page_base = page_of ptr_val;
                  page = pages (slab p) page_base
              in if ptr_val - page_base \<le> sizeof_mp_slab_page then False
                 else if class_index page \<noteq> slab_class hdr \<or> total_slots page = 0 then False
                 else if total_slots page < page_free_count page then False
                 else \<not> on_free_list (slab p) h (page_free_count page) (pg_free page))"

definition mp_ptr_valid :: "memory_pool \<Rightarrow> addr \<Rightarrow> bool option" where
  "mp_ptr_valid p ptr =
     (if ptr = 0 then Some False
      else let header = ptr - sizeof_mp_block_header
           in if magic (header_at p header) \<noteq> MP_MAGIC_HEAD then Some False
              else if has_flag (pool_flags p) MP_FLAG_FAST_PATH then Some (mp_fastpath_slot_live p header)
              else find_loop p (act_head p) header)"

definition mp_usable_size :: "memory_pool \<Rightarrow> addr \<Rightarrow> nat option" where
  "mp_usable_size p ptr =
     (if ptr = 0 then Some 0
      else map_option (\<lambda>v. if v then usable_size (header_at p (ptr - sizeof_mp_block_header)) else 0) (mp_ptr_valid p ptr))"

definition mp_alloc_size :: "memory_pool \<Rightarrow> addr \<Rightarrow> nat option" where
  "mp_alloc_size p ptr =
     (if ptr = 0 then Some 0
      else map_option (\<lambda>v. if v then requested_size (header_at p (ptr - sizeof_mp_block_header)) else 0) (mp_ptr_valid p ptr))"

text \<open>\<open>compressed_area\<close>: the pool owns a compression area, itself an allocation.  The report on a leak is printed only.\<close>

definition mp_check_leaks :: "bool \<Rightarrow> memory_pool \<Rightarrow> bool" where
  "mp_check_leaks compressed_area p \<longleftrightarrow> active_allocations p = (if compressed_area then 1 else 0)"

section \<open>The binary snapshot\<close>

record cmem_snapshot_header =
  snap_magic :: nat
  snap_version :: nat
  snap_total_pool_size :: nat
  snap_active_bytes :: nat
  snap_active_allocations :: nat

record cmem_snapshot_record =
  rec_address :: addr
  rec_requested_size :: nat
  rec_alloc_type :: nat
  rec_alloc_line :: nat
  rec_alloc_file :: string
  rec_alloc_func :: string

definition CMEM_SNAPSHOT_MAGIC :: nat where
  "CMEM_SNAPSHOT_MAGIC = 0x434D454D"

text \<open>\<open>str\<close>: the text at an address.\<close>

definition snapshot_record :: "(addr \<Rightarrow> string) \<Rightarrow> memory_pool \<Rightarrow> addr \<Rightarrow> cmem_snapshot_record" where
  "snapshot_record str p cur =
     (let h = header_at p cur
      in \<lparr>rec_address = cur + sizeof_mp_block_header, rec_requested_size = requested_size h, rec_alloc_type = alloc_type h,
          rec_alloc_line = alloc_line h,
          rec_alloc_file = (if alloc_file h \<noteq> 0 then snprintf_buf 64 (str (alloc_file h)) else []),
          rec_alloc_func = (if alloc_func h \<noteq> 0 then snprintf_buf 64 (str (alloc_func h)) else [])\<rparr>)"

partial_function (option) snapshot_loop ::
  "(addr \<Rightarrow> string) \<Rightarrow> memory_pool \<Rightarrow> addr \<Rightarrow> cmem_snapshot_record list \<Rightarrow> cmem_snapshot_record list option" where
  "snapshot_loop str p cur out = (if cur = 0 then Some out else snapshot_loop str p (act_next p cur) (out @ [snapshot_record str p cur]))"

text \<open>The structures written to the file, in their order.\<close>

definition mp_export_binary_snapshot :: "(addr \<Rightarrow> string) \<Rightarrow> memory_pool \<Rightarrow> (cmem_snapshot_header \<times> cmem_snapshot_record list) option" where
  "mp_export_binary_snapshot str p =
     map_option (Pair \<lparr>snap_magic = CMEM_SNAPSHOT_MAGIC, snap_version = 1, snap_total_pool_size = resident_size p,
                       snap_active_bytes = active_bytes p, snap_active_allocations = active_allocations p\<rparr>)
       (snapshot_loop str p (act_head p) [])"

section \<open>Memory regions\<close>

record mp_region_info =
  rg_base :: addr
  rg_size :: nat
  rg_type :: nat
  rg_class :: nat
  rg_hot :: bool

definition page_region :: "slab_pool \<Rightarrow> nat \<Rightarrow> addr \<Rightarrow> mp_region_info" where
  "page_region st c cur =
     \<lparr>rg_base = page_raw_mem (pages st cur), rg_size = SLAB_PAGE_SIZE, rg_type = ALLOC_TYPE_SLAB, rg_class = c, rg_hot = is_hot (pages st cur)\<rparr>"

text \<open>The loops over page lists, with room for \<open>n\<close> more entries.\<close>

fun page_regions :: "slab_pool \<Rightarrow> nat \<Rightarrow> nat \<Rightarrow> addr \<Rightarrow> mp_region_info list" where
  "page_regions st c 0 cur = []"
| "page_regions st c (Suc n) cur = (if cur = 0 then [] else page_region st c cur # page_regions st c n (pg_next (pages st cur)))"

fun class_regions :: "slab_pool \<Rightarrow> nat \<Rightarrow> nat list \<Rightarrow> mp_region_info list" where
  "class_regions st n [] = []"
| "class_regions st n (c # cs) =
     (if n = 0 then []
      else let rs = page_regions st c n (page_heads st (PartialPages c));
               rs = rs @ page_regions st c (n - length rs) (page_heads st (FullPages c))
           in rs @ class_regions st (n - length rs) cs)"

definition tlsf_region :: "tlsf_pool \<Rightarrow> mp_region_info" where
  "tlsf_region t = \<lparr>rg_base = raw_area t, rg_size = raw_size t, rg_type = ALLOC_TYPE_TLSF, rg_class = 0, rg_hot = False\<rparr>"

definition mp_enumerate_regions :: "memory_pool \<Rightarrow> nat \<Rightarrow> mp_region_info list" where
  "mp_enumerate_regions p max_regions =
     (let rs = class_regions (slab p) max_regions [0..<SLAB_CLASS_COUNT];
          rs = rs @ map tlsf_region (take (max_regions - length rs) (tlsf_root (tlsf p)))
      in if emergency_buf p \<noteq> 0 \<and> length rs < max_regions
         then rs @ [\<lparr>rg_base = emergency_buf p, rg_size = emergency_size p, rg_type = ALLOC_TYPE_EMERGENCY, rg_class = 0, rg_hot = False\<rparr>]
         else rs)"

section \<open>The loops on a list\<close>

definition block_intact :: "memory_pool \<Rightarrow> addr \<Rightarrow> bool" where
  "block_intact p h \<longleftrightarrow> magic (header_at p h) = MP_MAGIC_HEAD
     \<and> (has_flag (pool_flags p) MP_FLAG_DEBUG_CANARY \<longrightarrow> byte_at p (canary_at p h) = MP_CANARY_BYTE)"

lemma audit_loop_list:
  "dllseg (act_next p) pv q a L 0 \<Longrightarrow> audit_loop p a b = Some (b \<and> (\<forall>h \<in> set L. block_intact p h))"
proof (induction L arbitrary: q a b)
  case (Cons x L)
  then have "a = x" "x \<noteq> 0" "dllseg (act_next p) pv x (act_next p x) L 0"
    by simp_all
  then show ?case
    using Cons.IH by (subst audit_loop.simps) (auto simp: Let_def block_intact_def canary_at_def)
qed (simp add: audit_loop.simps)

lemma find_loop_list: "dllseg (act_next p) pv q a L 0 \<Longrightarrow> find_loop p a h = Some (h \<in> set L)"
proof (induction L arbitrary: q a)
  case (Cons x L)
  then have "a = x" "x \<noteq> 0" "dllseg (act_next p) pv x (act_next p x) L 0"
    by simp_all
  then show ?case
    using Cons.IH by (subst find_loop.simps) auto
qed (simp add: find_loop.simps)

lemma snapshot_loop_list: "dllseg (act_next p) pv q a L 0 \<Longrightarrow> snapshot_loop str p a out = Some (out @ map (snapshot_record str p) L)"
proof (induction L arbitrary: q a out)
  case (Cons x L)
  then have "a = x" "x \<noteq> 0" "dllseg (act_next p) pv x (act_next p x) L 0"
    by simp_all
  then show ?case
    using Cons.IH by (subst snapshot_loop.simps) simp
qed (simp add: snapshot_loop.simps)

lemma page_regions_list: "dllseg (pgn st) pv q a L 0 \<Longrightarrow> page_regions st c n a = map (page_region st c) (take n L)"
proof (induction L arbitrary: q a n)
  case Nil
  then show ?case
    by (cases n) simp_all
next
  case (Cons x L)
  then show ?case
    by (cases n) auto
qed

lemma class_regions_length: "length (class_regions st n cs) \<le> n"
proof (induction cs arbitrary: n)
  case (Cons c cs)
  have l: "length (page_regions st c k a) \<le> k" for k a
    by (induction st c k a rule: page_regions.induct) simp_all
  let ?a = "page_regions st c n (page_heads st (PartialPages c))"
  let ?b = "page_regions st c (n - length ?a) (page_heads st (FullPages c))"
  let ?r = "class_regions st (n - length (?a @ ?b)) cs"
  have "length ?a \<le> n" "length ?b \<le> n - length ?a" "length ?r \<le> n - length (?a @ ?b)"
    using l Cons.IH by blast+
  then have "length (?a @ ?b @ ?r) \<le> n"
    unfolding length_append by linarith
  moreover have "class_regions st n (c # cs) = (if n = 0 then [] else ?a @ ?b @ ?r)"
    by (simp add: Let_def)
  ultimately show ?case
    by simp
qed simp

text \<open>When there was room to spare, all pages of the classes were listed.\<close>

lemma class_regions_all:
  assumes "dlls (pgn st) (pgp st) (page_heads st) D"
  shows "length (class_regions st n cs) < n \<Longrightarrow> c \<in> set cs \<Longrightarrow> q \<in> set (D (PartialPages c)) \<union> set (D (FullPages c))
    \<Longrightarrow> page_region st c q \<in> set (class_regions st n cs)"
proof (induction cs arbitrary: n)
  case (Cons d cs)
  let ?a = "page_regions st d n (page_heads st (PartialPages d))"
  let ?b = "page_regions st d (n - length ?a) (page_heads st (FullPages d))"
  let ?r = "class_regions st (n - length (?a @ ?b)) cs"
  have r: "class_regions st n (d # cs) = ?a @ ?b @ ?r"
    using Cons.prems(1) by (simp add: Let_def)
  have dll: "dll (pgn st) (pgp st) (page_heads st k) (D k)" for k
    using assms by (simp add: dlls_def)
  have a: "?a = map (page_region st d) (take n (D (PartialPages d)))"
    by (rule page_regions_list [OF dll])
  have b: "?b = map (page_region st d) (take (n - length ?a) (D (FullPages d)))"
    by (rule page_regions_list [OF dll])
  have len: "length ?a + length ?b + length ?r < n"
    using Cons.prems(1) unfolding r by simp
  have "length ?a = min (length (D (PartialPages d))) n" "length ?b = min (length (D (FullPages d))) (n - length ?a)"
    using a b by (metis length_map length_take)+
  then have "length (D (PartialPages d)) \<le> n" "length (D (FullPages d)) \<le> n - length ?a"
    using len by linarith+
  then have all: "take n (D (PartialPages d)) = D (PartialPages d)" "take (n - length ?a) (D (FullPages d)) = D (FullPages d)"
    by simp_all
  have sets: "set ?a = page_region st d ` set (D (PartialPages d))" "set ?b = page_region st d ` set (D (FullPages d))"
    using arg_cong [OF a, of set] arg_cong [OF b, of set] unfolding set_map all by blast+
  show ?case
  proof (cases "c = d")
    case True
    then show ?thesis
      using Cons.prems(3) sets unfolding r set_append by blast
  next
    case False
    then show ?thesis
      using Cons.IH [of "n - length (?a @ ?b)"] Cons.prems(2,3) len unfolding r by simp
  qed
qed simp

text \<open>The list of a pool with a list.\<close>

lemma active_list:
  assumes "pool_inv p H" "\<not> has_flag (pool_flags p) MP_FLAG_FAST_PATH"
  obtains L where "dll (act_next p) (act_prev p) (act_head p) L" "distinct L" "set L = H"
  using assms dll_distinct unfolding pool_inv_def book_ok_def fast_path_def by metis

lemma audit_exact:
  assumes "pool_inv p H" "\<not> has_flag (pool_flags p) MP_FLAG_FAST_PATH"
  shows "mp_audit_heap p = Some (\<forall>h \<in> H. block_intact p h)"
proof -
  obtain L where "dll (act_next p) (act_prev p) (act_head p) L" "set L = H"
    using active_list [OF assms] by metis
  then show ?thesis
    using audit_loop_list [of p _ 0 "act_head p" L True] assms(2) by (simp add: mp_audit_heap_def)
qed

lemma valid_exact:
  assumes "pool_history p H" "\<not> has_flag (pool_flags p) MP_FLAG_FAST_PATH"
  shows "mp_ptr_valid p (h + sizeof_mp_block_header) = Some (h \<in> H)"
proof -
  obtain L where "dll (act_next p) (act_prev p) (act_head p) L" "set L = H"
    using active_list [OF pool_history_inv [OF assms(1)] assms(2)] by metis
  then show ?thesis
    using find_loop_list [of p _ 0 "act_head p" L h] held_magic [OF assms(1), of h] assms(2) by (auto simp: mp_ptr_valid_def sizeof_mp_block_header_def)
qed

lemma export_list:
  assumes "pool_inv p H" "\<not> has_flag (pool_flags p) MP_FLAG_FAST_PATH"
  obtains L hdr where "distinct L" "set L = H" "mp_export_binary_snapshot str p = Some (hdr, map (snapshot_record str p) L)"
    "snap_magic hdr = CMEM_SNAPSHOT_MAGIC" "snap_active_allocations hdr = active_allocations p" "snap_active_bytes hdr = active_bytes p"
proof -
  obtain L where L: "dll (act_next p) (act_prev p) (act_head p) L" "distinct L" "set L = H"
    using active_list [OF assms] by metis
  then show thesis
    using that [OF L(2,3)] snapshot_loop_list [OF L(1), of str "[]"] by (simp add: mp_export_binary_snapshot_def)
qed

text \<open>The held blocks as a snapshot shows them.\<close>

definition held_records :: "memory_pool \<Rightarrow> addr set \<Rightarrow> (addr \<times> nat) set" where
  "held_records p H = (\<lambda>h. (h + sizeof_mp_block_header, requested_size (header_at p h))) ` H"

lemma snapshot_record_shows: "(\<lambda>r. (rec_address r, rec_requested_size r)) ` set (map (snapshot_record str p) L) = held_records p (set L)"
  by (simp add: held_records_def image_image snapshot_record_def Let_def)

section \<open>Properties\<close>


text \<open>C13 -- A pointer is valid exactly when a client holds its block: along every history of a pool with a list of active blocks the test
  returns, says so, and the two size queries answer what was asked for on held blocks and zero on all others.\<close>

theorem mp_ptr_valid_exact:
  assumes "pool_history p H" "\<not> has_flag (pool_flags p) MP_FLAG_FAST_PATH"
  shows "mp_ptr_valid p (h + sizeof_mp_block_header) = Some (h \<in> H)
    \<and> mp_alloc_size p (h + sizeof_mp_block_header) = Some (if h \<in> H then requested_size (header_at p h) else 0)
    \<and> mp_usable_size p (h + sizeof_mp_block_header) = Some (if h \<in> H then usable_size (header_at p h) else 0)"
  using valid_exact [OF assms, of h] by (simp add: mp_alloc_size_def mp_usable_size_def sizeof_mp_block_header_def)


definition region_bytes :: "mp_region_info \<Rightarrow> addr set" where
  "region_bytes r = {rg_base r ..< rg_base r + rg_size r}"


section \<open>Examples\<close>

lemma ex_pool2_facts:
  "\<not> has_flag (pool_flags ex_pool2) MP_FLAG_FAST_PATH" "has_flag (pool_flags ex_pool2) MP_FLAG_DEBUG_CANARY"
  "requested_size (header_at ex_pool2 16777216) = 5000000"
proof -
  show "\<not> has_flag (pool_flags ex_pool2) MP_FLAG_FAST_PATH" "has_flag (pool_flags ex_pool2) MP_FLAG_DEBUG_CANARY"
    by (simp_all add: ex_flags has_flag_def MP_FLAG_FAST_PATH_def MP_FLAG_DEBUG_CANARY_def)
  show "requested_size (header_at ex_pool2 16777216) = 5000000"
    by (simp add: ex_pool2_def ex_pool1_def pool_eval pool_example_defs cong: let_weak_cong)
qed


theorem mp_ptr_valid_exact_witness:
  "mp_ptr_valid ex_pool2 16777368 = Some True \<and> mp_ptr_valid ex_pool2 16777369 = Some False \<and> mp_alloc_size ex_pool2 16777368 = Some 5000000"
  using mp_ptr_valid_exact [OF ex_pool2_history ex_pool2_facts(1), of 16777216] mp_ptr_valid_exact [OF ex_pool2_history ex_pool2_facts(1), of 16777217]
    ex_pool2_facts(3) by (simp add: sizeof_mp_block_header_def)


text \<open>With the limit reached, a request is answered from the emergency buffer.\<close>

definition ex_pool3 :: memory_pool where
  "ex_pool3 = fst (mp_enable_emergency_reserve ex_pool1 67108864 4096)"

definition ex_pool4 :: memory_pool where
  "ex_pool4 = fst (the (mp_alloc (ex_env 0) (mp_set_memory_limit ex_pool3 5000000) 3000))"

lemmas ex_pool4_eval = ex_pool4_def ex_pool3_def ex_pool1_def mp_set_memory_limit_def mp_enable_emergency_reserve_def pool_eval pool_example_defs
  emergency_fits_def alloc_emergency_def batch_format_emergency_def os_payload_def

lemma ex_pool4_alloc: "mp_alloc (ex_env 0) (mp_set_memory_limit ex_pool3 5000000) 3000 = Some (ex_pool4, 67109016)"
  by (simp add: ex_pool4_eval cong: let_weak_cong)

lemma ex_pool3_history: "pool_history ex_pool3 {16777216}"
proof -
  have e: "\<not> emergency_used ex_pool1" "emergency_buf ex_pool1 = 0"
    by (simp_all add: ex_pool1_def pool_eval pool_example_defs cong: let_weak_cong)
  have "ex_pool1\<lparr>emergency_buf := 0\<rparr> = ex_pool1"
    using e(2) by (cases ex_pool1) simp
  then have "pool_step ex_pool1 {16777216} ex_pool3 {16777216}"
    using e(1) ex_mem(2) by (intro pool_step.Reserve [of _ 67108864 4096 _ True]) (simp_all add: ex_pool3_def mp_enable_emergency_reserve_def)
  then show ?thesis
    by (rule pool_history.Step [OF ex_pool1_history])
qed

lemma ex_pool4_history: "pool_history ex_pool4 {67108864, 16777216}"
proof -
  let ?p = "mp_set_memory_limit ex_pool3 5000000"
  have f: "pool_flags ?p = 3"
    using ex_flags(2) by (simp add: mp_set_memory_limit_def ex_pool3_def mp_enable_emergency_reserve_def)
  have "env_ok (ex_env 0) ?p 3000" "request_ok ?p 3000" "\<not> has_flag (pool_flags ?p) MP_FLAG_CACHE_ALIGNED"
    by (simp_all add: f env_ok_def ex_env_def fresh_maps_def request_ok_def SLAB_MAX_SIZE_def has_flag_def MP_FLAG_STATIC_BUFFER_def
        MP_FLAG_CACHE_ALIGNED_def)
  then show ?thesis
    using pool_history.Step [OF pool_history.Step [OF ex_pool3_history pool_step.Setter [OF mp_setter.intros(1)]] pool_step.Alloc [OF _ _ _ ex_pool4_alloc]]
    by (simp add: sizeof_mp_block_header_def)
qed


end
