(* ===== verification/Latency_Stats.thy ===== *)
theory Latency_Stats
  imports Cmem_Prelude
begin

text \<open>
  The latency histogram of a pool (\<open>mp_record_latency\<close>, \<open>mp_get_latency_p99\<close>, \<open>mp_get_latency_avg\<close> and
  \<open>mp_reset_latency_stats\<close>): which samples a bucket holds, that the histogram counts every sample once, and what the
  percentile estimate answers.
\<close>

section \<open>The histogram\<close>

record latency_stats =
  alloc_latency_sum_ns :: nat
  alloc_latency_count :: nat
  alloc_latency_histogram :: "nat \<Rightarrow> nat"

definition CMEM_LATENCY_HISTOGRAM_MAX_INDEX :: nat where
  "CMEM_LATENCY_HISTOGRAM_MAX_INDEX = 31"

function latency_index :: "nat \<Rightarrow> nat \<Rightarrow> nat" where
  "latency_index val idx = (if 1024 \<le> val \<and> idx < CMEM_LATENCY_HISTOGRAM_MAX_INDEX then latency_index (val div 2) (idx + 1) else idx)"
  by pat_completeness auto

termination
  by (relation "measure (\<lambda>(val, idx). CMEM_LATENCY_HISTOGRAM_MAX_INDEX - idx)") auto

declare latency_index.simps [simp del]

definition mp_record_latency :: "latency_stats \<Rightarrow> nat \<Rightarrow> latency_stats" where
  "mp_record_latency s latency_ns =
     (let idx = latency_index latency_ns 0
      in s\<lparr>alloc_latency_sum_ns := (alloc_latency_sum_ns s + latency_ns) mod 2 ^ 64, alloc_latency_count := (alloc_latency_count s + 1) mod 2 ^ 64,
           alloc_latency_histogram := (alloc_latency_histogram s)(idx := (alloc_latency_histogram s idx + 1) mod 2 ^ 64)\<rparr>)"

fun p99_loop :: "(nat \<Rightarrow> nat) \<Rightarrow> nat \<Rightarrow> nat \<Rightarrow> nat list \<Rightarrow> nat" where
  "p99_loop hist target cum [] = 0"
| "p99_loop hist target cum (i # is) =
     (let cum = (cum + hist i) mod 2 ^ 64 in if target \<le> cum then 2 ^ i else p99_loop hist target cum is)"

definition mp_get_latency_p99 :: "latency_stats \<Rightarrow> nat" where
  "mp_get_latency_p99 s =
     (if alloc_latency_count s = 0 then 0
      else p99_loop (alloc_latency_histogram s) ((alloc_latency_count s * 99) mod 2 ^ 64 div 100) 0 [0..<32])"

definition mp_get_latency_avg :: "latency_stats \<Rightarrow> nat" where
  "mp_get_latency_avg s = (if alloc_latency_count s = 0 then 0 else alloc_latency_sum_ns s div alloc_latency_count s)"

definition mp_reset_latency_stats :: "latency_stats \<Rightarrow> latency_stats" where
  "mp_reset_latency_stats s = s\<lparr>alloc_latency_histogram := (\<lambda>_. 0), alloc_latency_count := 0, alloc_latency_sum_ns := 0\<rparr>"

section \<open>Buckets\<close>

lemma latency_index_shift: "latency_index v i \<le> max i 31 \<and> i \<le> latency_index v i
  \<and> (i < latency_index v i \<longrightarrow> 2 ^ (latency_index v i - i + 9) \<le> v) \<and> (latency_index v i < 31 \<longrightarrow> v < 2 ^ (latency_index v i - i + 10))"
proof (induction v i rule: latency_index.induct)
  case (1 v i)
  show ?case
  proof (cases "1024 \<le> v \<and> i < 31")
    case True
    then have e: "latency_index v i = latency_index (v div 2) (i + 1)"
      by (subst latency_index.simps) (simp add: CMEM_LATENCY_HISTOGRAM_MAX_INDEX_def)
    note IH = "1.IH" [unfolded CMEM_LATENCY_HISTOGRAM_MAX_INDEX_def, OF True]
    let ?k = "latency_index (v div 2) (i + 1)"
    have k: "i + 1 \<le> ?k" "?k \<le> 31"
      using IH True by auto
    obtain d where d: "?k = i + 1 + d"
      using k(1) le_Suc_ex by blast
    have lo: "2 ^ (d + 10) \<le> v"
    proof (cases d)
      case 0
      then show ?thesis
        using True by simp
    next
      case (Suc n)
      then have "2 ^ (n + 10) \<le> v div 2"
        using IH d by (simp add: add.commute)
      then have "2 ^ Suc (n + 10) \<le> v"
        unfolding power_Suc by linarith
      then show ?thesis
        using Suc by (simp add: add.commute)
    qed
    moreover have "v < 2 ^ (d + 11)" if "?k < 31"
    proof -
      have "v div 2 < 2 ^ (d + 10)"
        using IH d that by simp
      then have "v < 2 ^ Suc (d + 10)"
        unfolding power_Suc by linarith
      then show ?thesis
        by (simp add: add.commute)
    qed
    ultimately show ?thesis
      using k d by (simp add: e add.commute)
  next
    case False
    then have "latency_index v i = i"
      by (subst latency_index.simps) (auto simp: CMEM_LATENCY_HISTOGRAM_MAX_INDEX_def)
    then show ?thesis
      using False by auto
  qed
qed

text \<open>The bucket of a sample: below 1024 ns the first; then the octave; the last takes the rest.\<close>

lemma latency_bucket:
  "latency_index v 0 \<le> 31" "0 < latency_index v 0 \<Longrightarrow> 2 ^ (latency_index v 0 + 9) \<le> v" "latency_index v 0 < 31 \<Longrightarrow> v < 2 ^ (latency_index v 0 + 10)"
  using latency_index_shift [of v 0] by simp_all

text \<open>Recording samples.\<close>

definition record_all :: "nat list \<Rightarrow> latency_stats \<Rightarrow> latency_stats" where
  "record_all vs s = fold (\<lambda>v s. mp_record_latency s v) vs (mp_reset_latency_stats s)"

lemma record_all_fields:
  assumes "length vs < 2 ^ 64"
  shows "alloc_latency_count (record_all vs s) = length vs" "alloc_latency_sum_ns (record_all vs s) = sum_list vs mod 2 ^ 64"
    "alloc_latency_histogram (record_all vs s) i = length (filter (\<lambda>v. latency_index v 0 = i) vs)"
proof -
  have "alloc_latency_count (record_all vs s) = length vs \<and> alloc_latency_sum_ns (record_all vs s) = sum_list vs mod 2 ^ 64
      \<and> (\<forall>i. alloc_latency_histogram (record_all vs s) i = length (filter (\<lambda>v. latency_index v 0 = i) vs))"
    using assms
  proof (induction vs rule: rev_induct)
    case (snoc v vs)
    have "length (filter (\<lambda>u. latency_index u 0 = latency_index v 0) vs) < 2 ^ 64 - 1" "length vs < 2 ^ 64 - 1"
      using snoc.prems le_less_trans [OF length_filter_le, of vs "2 ^ 64 - 1"] by simp_all
    moreover have "record_all (vs @ [v]) s = mp_record_latency (record_all vs s) v"
      by (simp add: record_all_def)
    ultimately show ?case
      using snoc.IH by (auto simp: mp_record_latency_def Let_def mod_simps)
  qed (simp add: record_all_def mp_reset_latency_stats_def)
  then show "alloc_latency_count (record_all vs s) = length vs" "alloc_latency_sum_ns (record_all vs s) = sum_list vs mod 2 ^ 64"
    "alloc_latency_histogram (record_all vs s) i = length (filter (\<lambda>v. latency_index v 0 = i) vs)"
    by simp_all
qed

section \<open>What the queries answer\<close>

text \<open>After a reset and any samples, fewer than \<open>2 ^ 64\<close> of them and with a sum that fits, the average is the average of the samples,
  and every sample was counted in the bucket of its octave.\<close>

lemma latency_stats_exact:
  assumes "length vs < 2 ^ 64" "sum_list vs < 2 ^ 64" "vs \<noteq> []"
  shows "mp_get_latency_avg (record_all vs s) = sum_list vs div length vs
    \<and> (\<forall>i. 0 < i \<and> i < 31 \<longrightarrow> alloc_latency_histogram (record_all vs s) i = length (filter (\<lambda>v. 2 ^ (i + 9) \<le> v \<and> v < 2 ^ (i + 10)) vs))"
proof -
  have "latency_index v 0 = i \<longleftrightarrow> 2 ^ (i + 9) \<le> v \<and> v < 2 ^ (i + 10)" if i: "0 < i" "i < 31" for v i
  proof
    assume "latency_index v 0 = i"
    then show "2 ^ (i + 9) \<le> v \<and> v < 2 ^ (i + 10)"
      using latency_bucket(2,3) [of v] i by auto
  next
    assume v: "2 ^ (i + 9) \<le> v \<and> v < 2 ^ (i + 10)"
    let ?k = "latency_index v 0"
    have "\<not> i < ?k"
    proof
      assume "i < ?k"
      then have "(2 :: nat) ^ (i + 10) \<le> 2 ^ (?k + 9)"
        by (intro power_increasing) simp_all
      then show False
        using v latency_bucket(2) [of v] \<open>i < ?k\<close> by linarith
    qed
    moreover have "\<not> ?k < i"
    proof
      assume "?k < i"
      then have "(2 :: nat) ^ (?k + 10) \<le> 2 ^ (i + 9)"
        by (intro power_increasing) simp_all
      then show False
        using v latency_bucket(3) [of v] \<open>?k < i\<close> i by linarith
    qed
    ultimately show "?k = i"
      by simp
  qed
  then show ?thesis
    using assms record_all_fields [OF assms(1), of s] by (auto simp: mp_get_latency_avg_def intro!: arg_cong [where f = length] filter_cong)
qed

text \<open>The percentile estimate answers the index of a bucket as a power of two, which is 512 to 1024 times smaller than the samples in
  the bucket: with all samples equal and at least 1024 ns it stays below the latency by a factor of 512 or more.\<close>

lemma p99_below:
  assumes "\<And>i. i < k \<Longrightarrow> hist i = 0" "n \<le> hist k" "hist k < 2 ^ 64" "k < 32" "j \<le> k"
  shows "p99_loop hist n 0 [j..<32] \<le> 2 ^ k"
  using assms(5)
proof (induction "k - j" arbitrary: j)
  case 0
  then have "[j..<32] = k # [Suc k..<32]"
    using assms(4) by (simp add: upt_conv_Cons)
  then show ?case
    using assms(2,3) by simp
next
  case (Suc d)
  then have "[j..<32] = j # [Suc j..<32]" "hist j = 0"
    using assms(1,4) by (simp_all add: upt_conv_Cons)
  moreover have "(2 :: nat) ^ j \<le> 2 ^ k"
    by (intro power_increasing) (use Suc in simp_all)
  ultimately show ?case
    using Suc by simp
qed

lemma latency_p99_below:
  assumes "0 < n" "n * 99 < 2 ^ 64" "1024 \<le> v"
  shows "mp_get_latency_p99 (record_all (replicate n v) s) * 512 \<le> v"
proof -
  let ?k = "latency_index v 0"
  have n: "length (replicate n v) < 2 ^ 64"
    using assms(2) by simp
  have h: "alloc_latency_histogram (record_all (replicate n v) s) = (\<lambda>i. if i = ?k then n else 0)"
    using record_all_fields(3) [OF n, of s] by (auto simp: fun_eq_iff)
  have "?k \<noteq> 0"
    using latency_bucket(3) [of v] assms(3) by (cases "latency_index v 0 = 0") simp_all
  then have k: "2 ^ (?k + 9) \<le> v"
    using latency_bucket(2) by simp
  have "mp_get_latency_p99 (record_all (replicate n v) s) \<le> 2 ^ ?k"
    using record_all_fields(1) [OF n, of s] assms(1,2) latency_bucket(1) [of v]
    by (auto simp: mp_get_latency_p99_def h intro!: p99_below)
  then show ?thesis
    using k by (simp add: power_add)
qed

end
