(* ===== verification/Spec2Isabelle.thy ===== *)
theory Spec2Isabelle
  imports Tlsf_Trace Arena_Trace Compressed_Store Ring_Event Multi_Arena Slab_Reclaim Snapshot_Text Latency_Stats
begin

text \<open>
  cmem is a memory-pool library in C.  A pool (\<open>struct memory_pool\<close>, \<open>src/src/cmem_internal.h\<close>) answers a
  request from one of several tiers: the slab tier for up to 512 bytes, the TLSF tier for up to 4 MiB, and the
  operating system above that.  In front of the slab pages stand a cache per thread and a list per CPU; threads
  bound to sub-arenas have a TLSF arena of their own.  Beside the tiers the library has a store of compressed
  blocks, a ring buffer with an event log, a pool of equal objects, and the tree of parent and child pools.

  \<^bold>\<open>Layout.\<close>  Each theory opens with a note on what it holds; a theory's definitions come in the order of the code.

  \<^item> \<open>Cmem_Prelude\<close>: block words with flag bits, alignment, doubly linked lists over a store (the locale
    \<open>dll_store\<close>: two readers, two assignments and their laws, with pushing and unlinking proved once), chains
    of slots, and families of disjoint lists and chains.  \<open>Cmem_Types\<close>: flags and the block header.
  \<^item> \<open>Tlsf_Index\<close>, \<open>Tlsf_Pool\<close>, \<open>Tlsf_Layout\<close>, \<open>Tlsf_Tier\<close>, \<open>Tlsf_Trace\<close>: \<open>src/src/cmem_tlsf.c\<close>.  Size classes and
    bit scans; one region with its bitmaps, free lists, splitting and coalescing; the physical tiling of the
    region by blocks; the chain of regions behind \<open>tlsf_alloc\<close>, \<open>tlsf_free\<close> and \<open>tlsf_try_inplace_expand\<close>; histories.
  \<^item> \<open>Tlsf_Arena\<close>, \<open>Arena_Layout\<close>, \<open>Arena_Trace\<close>: the per-thread TLSF arenas of \<open>src/src/cmem_slab.c\<close>, with the
    mailbox of blocks freed by other threads, retirement, and the validator.
  \<^item> \<open>Slab_Class\<close>, \<open>Slab_Pages\<close>, \<open>Slab_Cache\<close>, \<open>Slab_Inv\<close>, \<open>Slab_Ops\<close>, \<open>Slab_Cache_Ops\<close>, \<open>Slab_Trace\<close>: the slab tier
    of \<open>src/src/cmem_slab.c\<close> and its part of \<open>mp_alloc_internal\<close> and \<open>mp_free\<close> (\<open>src/src/cmem_alloc.c\<close>).  Size
    classes; pages, page lists and remote queues; thread caches and per-CPU lists; the invariant; what every
    operation keeps of it; histories.
  \<^item> \<open>Slab_Reclaim\<close>: what reports, purges and unmaps slab pages (\<open>mp_freeable\<close>, \<open>mp_compact\<close>, \<open>mp_purge_lazy\<close>,
    \<open>mp_reclaim_idle_pages\<close>, the hot and cold marks).
  \<^item> \<open>Pool_State\<close>, \<open>Pool_Ops\<close>, \<open>Pool_Create\<close>: a pool as a whole.  Its state with both tiers, the thread caches of TLSF
    blocks, the blocks of the operating system, the list of active blocks and the counters; the entry points
    \<open>mp_alloc\<close>, \<open>mp_calloc\<close>, \<open>mp_aligned_alloc\<close>, \<open>mp_free\<close>, \<open>mp_realloc\<close>, \<open>mp_memdup\<close>, \<open>mp_strdup\<close> of
    \<open>src/src/cmem_alloc.c\<close> and their variants with a location in \<open>src/src/cmem.c\<close>; limits, quota, circuit breaker and recovery (\<open>src/src/cmem_guard.c\<close>); creation, flags and configuration
    (\<open>src/src/cmem.c\<close>, \<open>src/src/cmem_config.c\<close>).
  \<^item> \<open>Pool_Tiers\<close>, \<open>Pool_Inv\<close>, \<open>Pool_Steps\<close>, \<open>Pool_Alloc\<close>, \<open>Pool_Book\<close>, \<open>Pool_Calls\<close>, \<open>Pool_Free\<close>: the invariant of a
    pool from the invariants of its tiers and what each entry point keeps of it.  \<open>Pool_Extent\<close>: where the blocks are.
    \<open>Pool_Bytes\<close>: which bytes the entry points write.  \<open>Pool_Trace\<close>, \<open>Pool_Move\<close>: histories of a pool with the writes
    of its clients, resizing and duplicating.
  \<^item> \<open>Pool_Diag\<close>, \<open>Snapshot_Text\<close>, \<open>Latency_Stats\<close>: what a pool tells about itself (\<open>src/src/cmem_diag.c\<close>, the queries of
    \<open>src/src/cmem_alloc.c\<close>, \<open>mp_diff_snapshots\<close> of \<open>src/src/cmem.c\<close>, the latency histogram of \<open>src/src/cmem_config.c\<close>).
  \<^item> \<open>Lz4_Codec\<close>, \<open>Compressed_Store\<close>: \<open>src/src/cmem_compress.c\<close>.
  \<^item> \<open>Ring_Event\<close>: \<open>src/src/cmem_ring_event.c\<close>.
  \<^item> \<open>C_String\<close>, \<open>Numa_Topology\<close>, \<open>Multi_Arena\<close>: the string functions the code calls, the NUMA part of
    \<open>src/src/cmem_sys.c\<close>, and \<open>src/src/cmem_multi_arena.c\<close> with the pool tree of \<open>src/src/cmem.c\<close>.

  \<^bold>\<open>State and operations.\<close>  A structure is a record with the fields of the source, an address or a \<open>size_t\<close> is a
  natural number with \<open>mod 2 ^ 64\<close> written out where the code can wrap, the null pointer is 0, bitmaps and bytes are
  words.  An operation takes the state and returns it; a failure is the value the code returns.  A loop over linked
  memory that may not end is a \<open>partial_function (option)\<close>, so that not ending is \<open>None\<close>; each theorem that speaks of
  such a loop says that it ends.  What the operating system, \<open>malloc\<close> or the surrounding pool answers is a
  parameter.  A call made under a lock, and a compare-and-swap loop, is one step; histories are inductive
  predicates that interleave these steps in any order.

  \<^bold>\<open>What is shown.\<close>
  \<^item> TLSF: along every history the region is tiled by its blocks, no two free blocks are adjacent, the bitmaps and
    lists agree, and held blocks are disjoint; when everything is freed one block is left; the search answers a
    block that is large enough and refuses only when no block exceeds the request by a sixteenth; the entry points
    change exactly the block they are asked about.
  \<^item> Arenas: an arena is handed back exactly when retired and empty, its validator accepts every reachable state,
    its operations always return.
  \<^item> Slab: along every history the page lists, kinds and counters are sound and every slot is handed out or on
    exactly one free chain; held slots never overlap; every operation returns; when all is freed, all pages are
    on the empty lists.  The lookup table is a search for the smallest class.
  \<^item> Reclaim: without idle reclaim no page with a slot in use is unmapped.
  \<^item> Pool: along every history of creation, requests, releases, refused releases, changes of the configuration and
    writes of the clients to their blocks, the blocks of all tiers stay apart, what was asked for fits, no call
    touches the contents of a block that stays held, no canary is lost, the list of active blocks and the counters
    are exact, and requests and releases always return.  Cleared, moved and duplicated blocks have the contents they
    should have.  When a request is refused, and what a bad pointer does to a pool, is stated.
  \<^item> Diagnosis: along every history the audit passes and finds a byte written behind a block, a pointer is valid
    exactly when its block is held, the leak check and the snapshot agree with the held blocks, the region list covers
    them, and reports are the full text as far as the buffer goes.
  \<^item> Compression: decompression inverts compression, never leaves its buffers, and the compressor succeeds within a
    stated bound; the store refines a map from handles to blocks, with exact accounting.
  \<^item> Rings are first-in first-out, typed pools hand out each object once, thread bindings refer to arenas of the
    right master.
  \<^item> Where the code departs from its documentation the theorem states what it does.

  \<^bold>\<open>Bounds.\<close>  Structure sizes are those of a 64-bit Linux build.  No definition runs on fuel: a bounded loop
  of the code counts as the code does, the others are partial functions.

  \<^bold>\<open>Not modelled.\<close>  Locks and memory ordering (each locked call is atomic here).  In \<open>mp_alloc\<close> the redirection to
  the sub-arena of a thread and the per-thread arena branch: the arenas and the bindings are modelled on their own,
  a pool here has no sub-arenas.  How the system gives memory (\<open>mmap\<close>, huge and guard pages, \<open>mlock\<close>, \<open>madvise\<close>,
  shared memory, cgroup limits): calls to it are parameters.  \<open>mp_reset\<close>, \<open>mp_destroy\<close>, the batch calls, frame
  arenas; leak, HTML, JSON and Prometheus reports, floating-point statistics; signal handling and backtraces; the
  Windows branches; the C++ wrappers, the override shim and the language bindings.

  \<^bold>\<open>Open.\<close>  \<open>mp_realloc\<close> that moves a block is a sequence of steps of a pool history.  Resizing in place and
  \<open>mp_aligned_alloc\<close> are modelled but are not steps: they change the requested size of a block without the byte
  counter, so the exact books end with them.
\<close>

end
